(* ===== verification/Icda_Prelude.thy ===== *)
theory Icda_Prelude
  imports Main "HOL-Library.Word"
begin

text \<open>
  Shared vocabulary of the development: the machine integers of the C sources as words,
  the bit tests the drivers and allocators use, and the generic facts on lists, words and
  bounded loops on which the component theories rest. Nothing here models a source file;
  the types are the C types of \<^verbatim>\<open>stdint.h\<close>.
\<close>

unbundle bit_operations_syntax

type_synonym u8 = "8 word"
type_synonym u16 = "16 word"
type_synonym u32 = "32 word"
type_synonym u64 = "64 word"
type_synonym bytes = "u8 list"

named_theorems icda_defs \<open>unfolding rules of small accessors\<close>
named_theorems icda_frame \<open>which fields an operation leaves alone\<close>

section \<open>Words\<close>

text \<open>The C test \<open>(w >> i) & 1\<close> is the library's bit predicate.\<close>

lemma drop_bit_and_1_iff [simp]: "drop_bit i w AND 1 = 0 \<longleftrightarrow> \<not> bit (w::'a::len word) i"
  by (auto simp: bit_iff_odd_drop_bit and_one_eq even_iff_mod_2_eq_zero odd_iff_mod_2_eq_one)

lemma and_push_bit_1_iff: "w AND push_bit i 1 = 0 \<longleftrightarrow> \<not> bit (w::'a::len word) i"
proof -
  have "w AND push_bit i 1 = 0 \<longleftrightarrow> (\<forall>n. bit w n \<longrightarrow> \<not> bit (push_bit i (1::'a word)) n)"
    by (subst bit_eq_iff) (auto simp: bit_and_iff dest: bit_imp_le_length)
  also have "\<dots> \<longleftrightarrow> \<not> bit w i"
    by (auto simp: bit_exp_iff dest: bit_imp_le_length)
  finally show ?thesis .
qed

lemma bit_minus_1_word [simp]: "bit (-1 :: 'a::len word) i \<longleftrightarrow> i < LENGTH('a)"
  by (simp add: bit_simps)

lemma word_all_ones_iff: "w = (-1 :: 'a::len word) \<longleftrightarrow> (\<forall>i < LENGTH('a). bit w i)"
  by (auto simp: bit_eq_iff dest: bit_imp_le_length)

lemma unat_less_power: "unat (w :: 'a::len word) < 2 ^ LENGTH('a)"
  by (rule unsigned_less)

lemma unat_u64_less: "unat (w :: u64) < 18446744073709551616"
  using unat_less_power [of w] by simp

lemma unat_u32_less: "unat (w :: u32) < 4294967296"
  using unat_less_power [of w] by simp

lemma unat_u8_less: "unat (w :: u8) < 256"
  using unat_less_power [of w] by simp

lemma unat_of_nat_small: "n < 2 ^ LENGTH('a) \<Longrightarrow> unat (of_nat n :: 'a::len word) = n"
  by (simp add: unat_of_nat)

lemma unat_add_small: "unat a + unat b < 2 ^ LENGTH('a) \<Longrightarrow> unat (a + b :: 'a::len word) = unat a + unat b"
  by (simp add: unat_add_lem)

lemma unat_add_u64: "unat a + unat b < 18446744073709551616 \<Longrightarrow> unat (a + b :: u64) = unat a + unat b"
  using unat_add_small [of a b] by simp

lemma unat_sub_le: "b \<le> a \<Longrightarrow> unat (a - b :: 'a::len word) = unat a - unat b"
  by (simp add: unat_sub)

text \<open>Clearing low bits rounds down.\<close>

lemma unat_and_not_mask: "unat (w AND NOT (mask k) :: 'a::len word) = unat w div 2 ^ k * 2 ^ k"
proof -
  have "w AND NOT (mask k) = push_bit k (drop_bit k w)"
    by (rule bit_word_eqI) (auto simp: bit_simps)
  moreover have "unat w div 2 ^ k * 2 ^ k < 2 ^ LENGTH('a)"
    using unat_less_power [of w] div_times_less_eq_dividend [of "unat w" "2 ^ k"] by linarith
  moreover have "unat (push_bit k (drop_bit k w)) = take_bit LENGTH('a) (unat w div 2 ^ k * 2 ^ k)"
    by (simp only: unsigned_push_bit_eq unat_drop_bit_eq) (simp only: push_bit_eq_mult drop_bit_eq_div)
  ultimately show ?thesis by (simp only: take_bit_nat_eq_self)
qed

lemma unat_and_m16: "unat (w AND -16 :: u64) = unat w div 16 * 16"
proof -
  have "(-16 :: u64) = NOT (mask 4)" by (simp add: mask_eq_exp_minus_1)
  then show ?thesis using unat_and_not_mask [of w 4] by simp
qed

lemma unat_and_m4096: "unat (w AND -4096 :: u64) = unat w div 4096 * 4096"
proof -
  have "(-4096 :: u64) = NOT (mask 12)" by (simp add: mask_eq_exp_minus_1)
  then show ?thesis using unat_and_not_mask [of w 12] by simp
qed

lemma page_aligned_iff: "w AND -4096 = (w :: u64) \<longleftrightarrow> unat w mod 4096 = 0"
proof -
  have "w AND -4096 = w \<longleftrightarrow> unat w div 4096 * 4096 = unat w"
    by (metis unat_and_m4096 word_unat_eq_iff)
  then show ?thesis using div_mult_mod_eq [of "unat w" 4096] by linarith
qed

text \<open>\<open>__builtin_ctzll\<close>: the index of the lowest set bit (the C builtin is undefined at 0).\<close>

definition ctz :: "'a::len word \<Rightarrow> nat" where
  "ctz w = length (takeWhile (\<lambda>i. \<not> bit w i) [0..<LENGTH('a)])"

lemma ctz_properties:
  assumes "(w :: 'a::len word) \<noteq> 0"
  shows "ctz w < LENGTH('a)" "bit w (ctz w)" "i < ctz w \<Longrightarrow> \<not> bit w i"
proof -
  let ?P = "\<lambda>i. \<not> bit w i" and ?xs = "[0..<LENGTH('a)]"
  obtain j where "bit w j" using assms by (auto simp: bit_eq_iff)
  then have j: "j < LENGTH('a)" by (rule bit_imp_le_length)
  have le: "ctz w \<le> LENGTH('a)"
    using length_takeWhile_le [of ?P ?xs] by (simp add: ctz_def)
  have before: "\<not> bit w i" if "i < ctz w" for i
  proof -
    have "takeWhile ?P ?xs ! i \<in> set (takeWhile ?P ?xs)"
      using that by (intro nth_mem) (simp add: ctz_def)
    moreover have "takeWhile ?P ?xs ! i = i"
      using that le by (simp add: ctz_def takeWhile_nth)
    ultimately show ?thesis by (auto dest: set_takeWhileD)
  qed
  show lt: "ctz w < LENGTH('a)"
    using le before [of j] j \<open>bit w j\<close> by (cases "ctz w = LENGTH('a)") auto
  show "bit w (ctz w)"
    using nth_length_takeWhile [of ?P ?xs] lt by (simp add: ctz_def)
  show "i < ctz w \<Longrightarrow> \<not> bit w i" by (rule before)
qed

section \<open>Little-endian fields\<close>

text \<open>
  The sources overlay C structs on byte buffers of a little-endian machine. \<open>le_word\<close> reads
  the bytes of a field, least significant first; \<open>word_le\<close> writes them.
\<close>

fun le_word :: "bytes \<Rightarrow> 'a::len word" where
  "le_word [] = 0"
| "le_word (b # bs) = ucast b OR push_bit 8 (le_word bs)"

definition word_le :: "nat \<Rightarrow> 'a::len word \<Rightarrow> bytes" where
  "word_le n w = map (\<lambda>i. ucast (drop_bit (8 * i) w)) [0..<n]"

definition mem_le :: "(nat \<Rightarrow> u8) \<Rightarrow> nat \<Rightarrow> nat \<Rightarrow> 'a::len word" where
  "mem_le m n p = le_word (map (\<lambda>i. m (p + i)) [0..<n])"

section \<open>Loops that stop at the first failure\<close>

text \<open>\<^verbatim>\<open>for (...) if (step(...) != 0) return -1;\<close> with the state threaded through.\<close>

fun loop_ok :: "('i \<Rightarrow> 's \<Rightarrow> int \<times> 's) \<Rightarrow> 'i list \<Rightarrow> 's \<Rightarrow> int \<times> 's" where
  "loop_ok f [] s = (0, s)"
| "loop_ok f (i # is) s = (let (r, s') = f i s in if r \<noteq> 0 then (-1, s') else loop_ok f is s')"

section \<open>Lists\<close>

lemma find_upt_None: "find P [i..<j] = None \<longleftrightarrow> (\<forall>k. i \<le> k \<and> k < j \<longrightarrow> \<not> P k)"
  by (auto simp: find_None_iff)

lemma find_upt_Some:
  assumes "find P [i..<j] = Some k"
  shows "i \<le> k" "k < j" "P k" "\<And>l. i \<le> l \<Longrightarrow> l < k \<Longrightarrow> \<not> P l"
proof -
  from assms obtain n where n: "n < length [i..<j]" "P ([i..<j] ! n)" "k = [i..<j] ! n"
    "\<forall>m<n. \<not> P ([i..<j] ! m)"
    by (auto simp: find_Some_iff)
  then show "i \<le> k" "k < j" "P k" by auto
  fix l assume "i \<le> l" "l < k"
  with n have "l - i < n" "[i..<j] ! (l - i) = l" by auto
  with n(4) show "\<not> P l" by metis
qed

lemma find_upt_eq_Some:
  assumes "i \<le> k" "k < j" "P k" "\<And>l. i \<le> l \<Longrightarrow> l < k \<Longrightarrow> \<not> P l"
  shows "find P [i..<j] = Some k"
proof (cases "find P [i..<j]")
  case None
  then show ?thesis using assms by (simp add: find_upt_None)
next
  case (Some l)
  note F = find_upt_Some [OF Some]
  have "l = k" using F assms by (metis linorder_neqE_nat)
  then show ?thesis using Some by simp
qed

lemma find_split:
  assumes "find P xs = Some x"
  obtains ys zs where "xs = ys @ x # zs" "P x"
proof -
  have "x \<in> set xs" "P x" using assms by (auto simp: find_Some_iff)
  then show ?thesis using that by (auto dest: split_list)
qed

end
