(* ===== verification/Frame_Allocator.thy ===== *)
theory Frame_Allocator
  imports Icda_Prelude
begin

text \<open>
  The contract between the page-frame allocator and its clients (the page tables, the kernel heap,
  shared memory, the scheduler): what an allocation and a release do to the set of frames that are
  owned. Clients reason about loops that allocate many frames, and about their roll-back, from
  these laws alone. \<^verbatim>\<open>Pmm\<close> interprets the interface on the model of \<^verbatim>\<open>kernel/memory/pmm.c\<close>.
\<close>

text \<open>The loop \<^verbatim>\<open>for (i = 0; i < n; i++) { phys = pmm_alloc(); if (!phys) ...; }\<close>: the frames it
  obtains before it has all of them or an allocation fails.\<close>

fun alloc_loop :: "('s \<Rightarrow> u64 \<times> 's) \<Rightarrow> nat \<Rightarrow> 's \<Rightarrow> u64 list \<times> 's" where
  "alloc_loop alloc 0 s = ([], s)"
| "alloc_loop alloc (Suc n) s =
     (let (p, s1) = alloc s in
      if p = 0 then ([], s1)
      else let (ps, s2) = alloc_loop alloc n s1 in (p # ps, s2))"

locale frame_allocator =
  fixes alloc :: "'s \<Rightarrow> u64 \<times> 's"
    and free :: "u64 \<Rightarrow> 's \<Rightarrow> 's"
    and owned :: "'s \<Rightarrow> u64 set"
    and inv :: "'s \<Rightarrow> bool"
  assumes alloc_inv: "inv s \<Longrightarrow> inv (snd (alloc s))"
    and alloc_fresh: "inv s \<Longrightarrow> alloc s = (a, s') \<Longrightarrow> a \<noteq> 0 \<Longrightarrow> a \<notin> owned s \<and> owned s' = insert a (owned s)"
    and alloc_fail: "inv s \<Longrightarrow> alloc s = (0, s') \<Longrightarrow> s' = s"
    and free_inv: "inv s \<Longrightarrow> inv (free a s)"
    and free_owned: "inv s \<Longrightarrow> a \<in> owned s \<Longrightarrow> a \<noteq> 0 \<Longrightarrow> owned (free a s) = owned s - {a}"
begin

lemma alloc_loop_spec:
  "inv s \<Longrightarrow> alloc_loop alloc n s = (ps, s') \<Longrightarrow>
     inv s' \<and> distinct ps \<and> set ps \<inter> owned s = {} \<and> owned s' = owned s \<union> set ps
     \<and> 0 \<notin> set ps \<and> length ps \<le> n"
proof (induction n arbitrary: s ps s')
  case (Suc n)
  obtain p s1 where p: "alloc s = (p, s1)" by force
  have i1: "inv s1" using alloc_inv [OF Suc.prems(1)] p by simp
  show ?case
  proof (cases "p = 0")
    case True
    then have "s1 = s" using alloc_fail Suc.prems(1) p by blast
    with True p Suc.prems show ?thesis by auto
  next
    case False
    obtain qs s2 where q: "alloc_loop alloc n s1 = (qs, s2)" by force
    have fresh: "p \<notin> owned s" "owned s1 = insert p (owned s)"
      using alloc_fresh [OF Suc.prems(1) p False] by auto
    note IH = Suc.IH [OF i1 q]
    have "ps = p # qs" "s' = s2" using Suc.prems(2) p q False by auto
    then show ?thesis using IH fresh False by auto
  qed
qed simp

lemma release_all:
  "inv s \<Longrightarrow> distinct ps \<Longrightarrow> set ps \<subseteq> owned s \<Longrightarrow> 0 \<notin> set ps \<Longrightarrow>
     inv (fold free ps s) \<and> owned (fold free ps s) = owned s - set ps"
proof (induction ps arbitrary: s)
  case (Cons p ps)
  have "owned (free p s) = owned s - {p}" "inv (free p s)"
    using Cons.prems free_owned [of s p] free_inv by auto
  then show ?case using Cons.IH [of "free p s"] Cons.prems by auto
qed simp

text \<open>Allocating in a loop and giving everything back restores the owned frames.\<close>

lemma rollback:
  assumes "inv s" "alloc_loop alloc n s = (ps, s')"
  shows "inv (fold free ps s') \<and> owned (fold free ps s') = owned s"
  using alloc_loop_spec [OF assms] release_all [of s' ps] by auto

end

end
