(* ===== verification/Pmm.thy ===== *)
theory Pmm
  imports Frame_Allocator
begin

text \<open>
  The physical memory manager, \<^verbatim>\<open>kernel/memory/pmm.c\<close>: a bitmap with one bit per 4 KiB frame
  (set = in use), a cached lower bound for the next search and a counter of used frames.

  Frame numbers are below \<open>2 ^ 52\<close>, so the \<^verbatim>\<open>uint64_t\<close> arithmetic the C code does on them
  cannot wrap; they are natural numbers here. Addresses, sizes and the counter \<open>used_frames\<close>
  keep their width, since \<open>addr + size\<close> and \<open>used_frames--\<close> can wrap.
\<close>

section \<open>State and accessors\<close>

record pmm =
  bitmap :: "u64 list"
  bitmap_addr :: u64
  total_frames :: nat
  used_frames :: u64
  next_free :: nat
  last_mem_top :: u64
  last_saw_mmap :: bool

definition ADDR_TO_FRAME :: "u64 \<Rightarrow> nat" where
  "ADDR_TO_FRAME a = unat (drop_bit 12 a)"

definition FRAME_TO_ADDR :: "nat \<Rightarrow> u64" where
  "FRAME_TO_ADDR f = push_bit 12 (of_nat f)"

definition frame_set :: "nat \<Rightarrow> pmm \<Rightarrow> pmm" where
  "frame_set f s = s\<lparr>bitmap := (bitmap s)[f div 64 := bitmap s ! (f div 64) OR push_bit (f mod 64) 1]\<rparr>"

definition frame_clear :: "nat \<Rightarrow> pmm \<Rightarrow> pmm" where
  "frame_clear f s =
     s\<lparr>bitmap := (bitmap s)[f div 64 := bitmap s ! (f div 64) AND NOT (push_bit (f mod 64) 1)]\<rparr>"

definition frame_used :: "pmm \<Rightarrow> nat \<Rightarrow> bool" where
  "frame_used s f \<longleftrightarrow> drop_bit (f mod 64) (bitmap s ! (f div 64)) AND 1 \<noteq> 0"

definition align_up_u64 :: "u64 \<Rightarrow> u64 \<Rightarrow> u64" where
  "align_up_u64 v align = (v + align - 1) AND NOT (align - 1)"

definition bitmap_words :: "pmm \<Rightarrow> nat" where
  "bitmap_words s = (total_frames s + 63) div 64"

text \<open>\<open>frame_set\<close> with the counter, the body of every allocating loop.\<close>

definition take_frame :: "nat \<Rightarrow> pmm \<Rightarrow> pmm" where
  "take_frame f s = (frame_set f s)\<lparr>used_frames := used_frames s + 1\<rparr>"

definition release_frame :: "nat \<Rightarrow> pmm \<Rightarrow> pmm" where
  "release_frame f s = (frame_clear f s)\<lparr>used_frames := used_frames s - 1\<rparr>"

definition mark_used :: "u64 \<Rightarrow> u64 \<Rightarrow> pmm \<Rightarrow> pmm" where
  "mark_used addr len s =
     (let first = ADDR_TO_FRAME addr; last = ADDR_TO_FRAME (addr + len + 4096 - 1)
      in fold (\<lambda>f t. if \<not> frame_used t f then take_frame f t else t)
           [first..<min last (total_frames s)] s)"

definition mark_free :: "u64 \<Rightarrow> u64 \<Rightarrow> pmm \<Rightarrow> pmm" where
  "mark_free addr len s =
     (let first = ADDR_TO_FRAME addr; last = ADDR_TO_FRAME (addr + len);
          t = fold (\<lambda>f t. if frame_used t f then release_frame f t else t)
                [first..<min last (total_frames s)] s
      in if first < next_free t then t\<lparr>next_free := first\<rparr> else t)"

section \<open>Initialisation from the multiboot memory map\<close>

record mmap_entry =
  me_addr :: u64
  me_len :: u64
  me_type :: u32

definition read_entry :: "(nat \<Rightarrow> u8) \<Rightarrow> nat \<Rightarrow> mmap_entry" where
  "read_entry m ep = \<lparr>me_addr = mem_le m 8 ep, me_len = mem_le m 8 (ep + 8), me_type = mem_le m 4 (ep + 16)\<rparr>"

text \<open>
  The inner loop over the entries of a memory-map tag. An entry size of 0 makes the C loop run
  forever, which is the value \<open>None\<close>.
\<close>

partial_function (option) mmap_entries ::
  "(nat \<Rightarrow> u8) \<Rightarrow> nat \<Rightarrow> nat \<Rightarrow> nat \<Rightarrow> mmap_entry list option" where
  "mmap_entries m ep stop esz =
     (if ep < stop
      then Option.bind (mmap_entries m (ep + esz) stop esz) (\<lambda>es. Some (read_entry m ep # es))
      else Some [])"

text \<open>
  The outer loop over the tags: the entries of every memory-map tag it visits, in order. Both
  passes of \<^verbatim>\<open>pmm_init\<close> do this walk, and neither writes the multiboot area.
\<close>

partial_function (option) walk_tags ::
  "(nat \<Rightarrow> u8) \<Rightarrow> nat \<Rightarrow> nat \<Rightarrow> mmap_entry list list option" where
  "walk_tags m p stop =
     (if p < stop then
        let ty = mem_le m 4 p :: u32; sz = mem_le m 4 (p + 4) :: u32; esz = mem_le m 4 (p + 8) :: u32
        in if ty = 0 then Some []
           else Option.bind (if ty = 6 then map_option (\<lambda>es. [es])
                               (mmap_entries m (p + 16) (p + unat sz) (unat esz)) else Some [])
             (\<lambda>here. let step = unat ((sz + 7) AND NOT 7)
                in if step = 0 then Some here
                   else Option.bind (walk_tags m (p + step) stop) (\<lambda>rest. Some (here @ rest)))
      else Some [])"

definition find_mem_top :: "mmap_entry list \<Rightarrow> u64" where
  "find_mem_top es = fold (\<lambda>e top. if me_type e = 1 \<and> me_addr e + me_len e > top
                                  then me_addr e + me_len e else top) es 0"

definition pmm_init :: "(nat \<Rightarrow> u8) \<Rightarrow> u64 \<Rightarrow> u64 \<Rightarrow> pmm option" where
  "pmm_init m info kernel_end =
     (let total_size = mem_le m 4 (unat info) :: u32 in
      case walk_tags m (unat info + 8) (unat info + unat total_size) of
        None \<Rightarrow> None
      | Some tags \<Rightarrow>
          let mem_top = find_mem_top (concat tags);
              total = ADDR_TO_FRAME mem_top + 1;
              words = (total + 63) div 64;
              mb_end = info + ucast total_size;
              base = align_up_u64 (if mb_end > kernel_end then mb_end else kernel_end) 4096;
              s0 = \<lparr>bitmap = replicate words (-1), bitmap_addr = base, total_frames = total,
                    used_frames = of_nat total, next_free = 0, last_mem_top = mem_top,
                    last_saw_mmap = (tags \<noteq> [])\<rparr>;
              s1 = fold (\<lambda>e s. if me_type e = 1 then mark_free (me_addr e) (me_len e) s else s)
                     (concat tags) s0;
              s2 = frame_set 0 s1;
              s3 = mark_used 0 0x100000 s2;
              s4 = mark_used 0x100000 (kernel_end - 0x100000) s3;
              s5 = mark_used base (of_nat (words * 8)) s4;
              s6 = mark_used info (ucast total_size) s5
          in Some (s6\<lparr>next_free := (case find (\<lambda>i. bitmap s6 ! i \<noteq> -1) [0..<words] of
                                       None \<Rightarrow> 0 | Some i \<Rightarrow> i * 64)\<rparr>))"

section \<open>Allocation and release\<close>

definition pmm_alloc :: "pmm \<Rightarrow> u64 \<times> pmm" where
  "pmm_alloc s =
     (case find (\<lambda>w. bitmap s ! w \<noteq> -1) [next_free s div 64..<bitmap_words s] of
        None \<Rightarrow> (0, s)
      | Some w \<Rightarrow>
          let frame = w * 64 + ctz (NOT (bitmap s ! w))
          in if frame \<ge> total_frames s then (0, s)
             else (FRAME_TO_ADDR frame, (take_frame frame s)\<lparr>next_free := frame + 1\<rparr>))"

text \<open>
  The search for a run of free frames. \<open>ok\<close> is the address check the loop of
  \<^verbatim>\<open>pmm_alloc_contiguous_below\<close> makes when the run is long enough; a run that fails it
  restarts the search with an empty run. \<^verbatim>\<open>pmm_alloc_contiguous\<close> makes no such check.
\<close>

fun run_scan :: "(nat \<Rightarrow> bool) \<Rightarrow> nat \<Rightarrow> (nat \<Rightarrow> bool) \<Rightarrow> nat list \<Rightarrow> nat \<Rightarrow> nat \<Rightarrow> nat option" where
  "run_scan used count ok [] run_start run_len = None"
| "run_scan used count ok (f # fs) run_start run_len =
     (if \<not> used f then
        let rs = (if run_len = 0 then f else run_start) in
        if run_len + 1 = count
        then (if ok rs then Some rs else run_scan used count ok fs rs 0)
        else run_scan used count ok fs rs (run_len + 1)
      else run_scan used count ok fs run_start 0)"

definition take_run :: "nat \<Rightarrow> nat \<Rightarrow> pmm \<Rightarrow> pmm" where
  "take_run start count s = fold take_frame [start..<start + count] s"

definition pmm_alloc_contiguous :: "u64 \<Rightarrow> pmm \<Rightarrow> u64 \<times> pmm" where
  "pmm_alloc_contiguous count s =
     (if count = 0 then (0, s)
      else if count = 1 then pmm_alloc s
      else case run_scan (frame_used s) (unat count) (\<lambda>_. True) [0..<total_frames s] 0 0 of
             None \<Rightarrow> (0, s)
           | Some r \<Rightarrow> (FRAME_TO_ADDR r, take_run r (unat count) s))"

definition pmm_alloc_contiguous_below :: "u64 \<Rightarrow> u64 \<Rightarrow> pmm \<Rightarrow> u64 \<times> pmm" where
  "pmm_alloc_contiguous_below count max_addr s =
     (if count = 0 then (0, s)
      else if max_addr = 0 then (0, s)
      else case run_scan (frame_used s) (unat count)
                  (\<lambda>r. FRAME_TO_ADDR (r + unat count) \<le> max_addr)
                  [0..<min (ADDR_TO_FRAME max_addr) (total_frames s)] 0 0 of
             None \<Rightarrow> (0, s)
           | Some r \<Rightarrow> (FRAME_TO_ADDR r, take_run r (unat count) s))"

text \<open>
  The aligned search: at every multiple of \<open>af\<close> frames the run restarts; a used frame skips to
  the next multiple.
\<close>

function aligned_scan ::
  "(nat \<Rightarrow> bool) \<Rightarrow> nat \<Rightarrow> nat \<Rightarrow> u64 \<Rightarrow> nat \<Rightarrow> nat \<Rightarrow> nat \<Rightarrow> nat \<Rightarrow> nat option" where
  "aligned_scan used count af max_addr max_frame f run_start run_len =
     (if f < max_frame then
        let rs = (if f mod af = 0 then f else run_start);
            rl = (if f mod af = 0 then 0 else run_len)
        in if \<not> used f \<and> rs \<le> f then
             (if rl + 1 = count \<and> FRAME_TO_ADDR (rs + count) \<le> max_addr then Some rs
              else aligned_scan used count af max_addr max_frame (f + 1) rs (rl + 1))
           else
             let nxt = (f div af + 1) * af;
                 f' = (if af > 1 \<and> nxt > f then nxt - 1 else f)
             in aligned_scan used count af max_addr max_frame (f' + 1) rs 0
      else None)"
  by pat_completeness auto
termination
  by (relation "measure (\<lambda>(used, count, af, max_addr, mf, f, rs, rl). mf - f)") (auto simp: Let_def)

declare aligned_scan.simps [simp del]

definition pmm_alloc_contiguous_aligned_below :: "u64 \<Rightarrow> u64 \<Rightarrow> u64 \<Rightarrow> pmm \<Rightarrow> u64 \<times> pmm" where
  "pmm_alloc_contiguous_aligned_below count align0 max_addr s =
     (if count = 0 \<or> max_addr = 0 then (0, s)
      else let align = (if align0 < 4096 then 4096 else align0) in
        if align AND (align - 1) \<noteq> 0 then (0, s)
        else let af0 = unat (align div 4096); af = (if af0 = 0 then 1 else af0) in
          case aligned_scan (frame_used s) (unat count) af max_addr
                 (min (ADDR_TO_FRAME max_addr) (total_frames s)) 0 0 0 of
            None \<Rightarrow> (0, s)
          | Some r \<Rightarrow> (FRAME_TO_ADDR r, take_run r (unat count) s))"

definition pmm_free :: "u64 \<Rightarrow> pmm \<Rightarrow> pmm" where
  "pmm_free addr s =
     (if addr = 0 then s
      else let frame = ADDR_TO_FRAME addr in
        if frame = 0 \<or> frame \<ge> total_frames s then s
        else if \<not> frame_used s frame then s
        else let t = release_frame frame s
             in if frame < next_free t then t\<lparr>next_free := frame\<rparr> else t)"

definition pmm_free_range :: "u64 \<Rightarrow> u64 \<Rightarrow> pmm \<Rightarrow> pmm" where
  "pmm_free_range addr count s = fold (\<lambda>i t. pmm_free (addr + of_nat i * 4096) t) [0..<unat count] s"

definition pmm_free_frames :: "pmm \<Rightarrow> u64" where
  "pmm_free_frames s = of_nat (total_frames s) - used_frames s"

definition pmm_total_frames :: "pmm \<Rightarrow> u64" where
  "pmm_total_frames s = of_nat (total_frames s)"

definition pmm_next_free_frame :: "pmm \<Rightarrow> u64" where
  "pmm_next_free_frame s = of_nat (next_free s)"

section \<open>The bitmap as a set of frames\<close>

text \<open>
  \<open>used_set\<close> is the abstraction of the bitmap: the frames of the machine that are in use.
  Everything below is stated over it.
\<close>

definition used_set :: "pmm \<Rightarrow> nat set" where
  "used_set s = {f. f < total_frames s \<and> frame_used s f}"

text \<open>
  The bitmap covers the machine, with the bits past its last frame set; \<open>pmm_inv\<close> adds what
  holds once initialisation is over: frame 0 is reserved, and every bitmap word below the
  search hint is full.
\<close>

definition pmm_wf :: "pmm \<Rightarrow> bool" where
  "pmm_wf s \<longleftrightarrow> 0 < total_frames s \<and> total_frames s \<le> 2 ^ 52
     \<and> length (bitmap s) = bitmap_words s
     \<and> (\<forall>f. total_frames s \<le> f \<and> f < 64 * length (bitmap s) \<longrightarrow> frame_used s f)"

definition hint_ok :: "pmm \<Rightarrow> bool" where
  "hint_ok s \<longleftrightarrow> (\<forall>f. f < 64 * (next_free s div 64) \<and> f < 64 * length (bitmap s) \<longrightarrow> frame_used s f)"

definition pmm_inv :: "pmm \<Rightarrow> bool" where
  "pmm_inv s \<longleftrightarrow> pmm_wf s \<and> frame_used s 0 \<and> hint_ok s"

text \<open>By how much the counter \<open>used_frames\<close> falls short of the number of used frames.\<close>

definition debt :: "pmm \<Rightarrow> u64" where
  "debt s = of_nat (card (used_set s)) - used_frames s"

lemma frame_used_iff: "frame_used s f \<longleftrightarrow> bit (bitmap s ! (f div 64)) (f mod 64)"
  by (simp add: frame_used_def)

lemma frame_used_word: "f < 64 * n \<Longrightarrow> f div 64 < n" for f :: nat
  by (simp add: less_mult_imp_div_less mult.commute)

lemma frame_set_used:
  "f div 64 < length (bitmap s) \<Longrightarrow> frame_used (frame_set f s) g \<longleftrightarrow> g = f \<or> frame_used s g"
proof (cases "g div 64 = f div 64")
  case True
  moreover assume "f div 64 < length (bitmap s)"
  moreover have "g mod 64 = f mod 64 \<longleftrightarrow> g = f"
    using True by (metis div_mult_mod_eq)
  ultimately show ?thesis
    by (auto simp: frame_used_iff frame_set_def bit_simps)
next
  case False
  then show ?thesis by (auto simp: frame_used_iff frame_set_def)
qed

lemma frame_clear_used:
  "f div 64 < length (bitmap s) \<Longrightarrow> frame_used (frame_clear f s) g \<longleftrightarrow> g \<noteq> f \<and> frame_used s g"
proof (cases "g div 64 = f div 64")
  case True
  moreover assume "f div 64 < length (bitmap s)"
  moreover have "g mod 64 = f mod 64 \<longleftrightarrow> g = f"
    using True by (metis div_mult_mod_eq)
  ultimately show ?thesis
    by (auto simp: frame_used_iff frame_clear_def bit_simps)
next
  case False
  then show ?thesis by (auto simp: frame_used_iff frame_clear_def)
qed

lemma frame_ops_fields [simp, icda_frame]:
  "total_frames (frame_set f s) = total_frames s" "total_frames (frame_clear f s) = total_frames s"
  "next_free (frame_set f s) = next_free s" "next_free (frame_clear f s) = next_free s"
  "used_frames (frame_set f s) = used_frames s" "used_frames (frame_clear f s) = used_frames s"
  "length (bitmap (frame_set f s)) = length (bitmap s)"
  "length (bitmap (frame_clear f s)) = length (bitmap s)"
  by (simp_all add: frame_set_def frame_clear_def)

lemma take_release_fields [simp, icda_frame]:
  "total_frames (take_frame f s) = total_frames s" "total_frames (release_frame f s) = total_frames s"
  "next_free (take_frame f s) = next_free s" "next_free (release_frame f s) = next_free s"
  "length (bitmap (take_frame f s)) = length (bitmap s)"
  "length (bitmap (release_frame f s)) = length (bitmap s)"
  "used_frames (take_frame f s) = used_frames s + 1"
  "used_frames (release_frame f s) = used_frames s - 1"
  by (simp_all add: take_frame_def release_frame_def)

lemma frame_used_cong [simp]:
  "frame_used (s\<lparr>next_free := n\<rparr>) = frame_used s" "frame_used (s\<lparr>used_frames := u\<rparr>) = frame_used s"
  by (simp_all add: fun_eq_iff frame_used_iff)

lemma take_frame_used:
  "f div 64 < length (bitmap s) \<Longrightarrow> frame_used (take_frame f s) g \<longleftrightarrow> g = f \<or> frame_used s g"
  by (simp add: take_frame_def frame_set_used)

lemma release_frame_used:
  "f div 64 < length (bitmap s) \<Longrightarrow> frame_used (release_frame f s) g \<longleftrightarrow> g \<noteq> f \<and> frame_used s g"
  by (simp add: release_frame_def frame_clear_used)

lemma pmm_wf_frame: "pmm_wf s \<Longrightarrow> f < total_frames s \<Longrightarrow> f div 64 < length (bitmap s)"
  by (auto simp: pmm_wf_def bitmap_words_def)

lemma used_set_finite [simp]: "finite (used_set s)"
  by (rule finite_subset [of _ "{..<total_frames s}"]) (auto simp: used_set_def)

lemma frame_used_set: "f < total_frames s \<Longrightarrow> frame_used s f \<longleftrightarrow> f \<in> used_set s"
  by (simp add: used_set_def)

lemma used_set_next_free [simp]: "used_set (s\<lparr>next_free := n\<rparr>) = used_set s"
  by (simp add: used_set_def)

lemma debt_next_free [simp]: "debt (s\<lparr>next_free := n\<rparr>) = debt s"
  by (simp add: debt_def)

lemma pmm_wf_next_free [simp]: "pmm_wf (s\<lparr>next_free := n\<rparr>) = pmm_wf s"
  by (simp add: pmm_wf_def bitmap_words_def)

lemma take_frame_used_set:
  "pmm_wf s \<Longrightarrow> f < total_frames s \<Longrightarrow> used_set (take_frame f s) = insert f (used_set s)"
  by (auto simp: used_set_def take_frame_used pmm_wf_frame)

lemma release_frame_used_set:
  "pmm_wf s \<Longrightarrow> f < total_frames s \<Longrightarrow> used_set (release_frame f s) = used_set s - {f}"
  by (auto simp: used_set_def release_frame_used pmm_wf_frame)

lemma take_frame_wf: "pmm_wf s \<Longrightarrow> f < total_frames s \<Longrightarrow> pmm_wf (take_frame f s)"
  using pmm_wf_frame [of s f] by (simp add: pmm_wf_def bitmap_words_def take_frame_used)

lemma release_frame_wf: "pmm_wf s \<Longrightarrow> f < total_frames s \<Longrightarrow> pmm_wf (release_frame f s)"
  using pmm_wf_frame [of s f] by (auto simp: pmm_wf_def bitmap_words_def release_frame_used)

lemma take_frame_debt:
  "pmm_wf s \<Longrightarrow> f < total_frames s \<Longrightarrow> f \<notin> used_set s \<Longrightarrow> debt (take_frame f s) = debt s"
  by (simp add: debt_def take_frame_used_set)

lemma release_frame_debt:
  assumes "pmm_wf s" "f \<in> used_set s"
  shows "debt (release_frame f s) = debt s"
proof -
  have "card (used_set s) = Suc (card (used_set s - {f}))"
    using assms card_Suc_Diff1 [of "used_set s" f] by simp
  moreover have "f < total_frames s" using assms by (simp add: used_set_def)
  ultimately show ?thesis using assms by (simp add: debt_def release_frame_used_set)
qed

lemma take_frame_inv: "pmm_inv s \<Longrightarrow> f < total_frames s \<Longrightarrow> pmm_inv (take_frame f s)"
  by (simp add: pmm_inv_def take_frame_wf hint_ok_def take_frame_used pmm_wf_frame)

text \<open>Releasing a frame keeps the invariant once the search hint is lowered to it.\<close>

lemma release_frame_inv:
  assumes "pmm_inv s" "f < total_frames s" "0 < f" "n \<le> next_free s" "n \<le> f"
  shows "pmm_inv ((release_frame f s)\<lparr>next_free := n\<rparr>)"
proof -
  have "n div 64 \<le> next_free s div 64" using assms(4) by (rule div_le_mono)
  moreover have "64 * (n div 64) \<le> f" using assms(5) by (metis le_trans times_div_less_eq_dividend)
  ultimately show ?thesis
    using assms by (auto simp: pmm_inv_def hint_ok_def release_frame_wf release_frame_used pmm_wf_frame)
qed

section \<open>Frame addresses\<close>

lemma FRAME_TO_ADDR_eq: "FRAME_TO_ADDR f = of_nat (f * 4096)"
  by (simp add: FRAME_TO_ADDR_def push_bit_eq_mult mult.commute)

lemma unat_FRAME_TO_ADDR: "f < 2 ^ 52 \<Longrightarrow> unat (FRAME_TO_ADDR f) = f * 4096"
  unfolding FRAME_TO_ADDR_eq by (rule unat_of_nat_small) simp

lemma ADDR_TO_FRAME_eq: "ADDR_TO_FRAME a = unat a div 4096"
  by (simp add: ADDR_TO_FRAME_def drop_bit_eq_div unat_div)

lemma ADDR_TO_FRAME_TO_ADDR [simp]: "f < 2 ^ 52 \<Longrightarrow> ADDR_TO_FRAME (FRAME_TO_ADDR f) = f"
  by (simp add: ADDR_TO_FRAME_eq unat_FRAME_TO_ADDR)

lemma ADDR_TO_FRAME_less: "ADDR_TO_FRAME a < 2 ^ 52"
  using unat_u64_less [of a] by (simp add: ADDR_TO_FRAME_eq less_mult_imp_div_less)

lemma FRAME_TO_ADDR_0_iff: "f < 2 ^ 52 \<Longrightarrow> FRAME_TO_ADDR f = 0 \<longleftrightarrow> f = 0"
  by (metis ADDR_TO_FRAME_TO_ADDR FRAME_TO_ADDR_eq mult_0 of_nat_0 zero_less_numeral zero_less_power)

section \<open>The range loops\<close>

lemma mark_used_fold:
  assumes "pmm_wf s" "set fs \<subseteq> {..<total_frames s}"
  defines "t \<equiv> fold (\<lambda>f t. if \<not> frame_used t f then take_frame f t else t) fs s"
  shows "pmm_wf t \<and> used_set t = used_set s \<union> set fs \<and> debt t = debt s
         \<and> total_frames t = total_frames s \<and> next_free t = next_free s
         \<and> length (bitmap t) = length (bitmap s)"
  using assms(1,2) unfolding t_def
proof (induction fs arbitrary: s)
  case (Cons f fs)
  let ?u = "if \<not> frame_used s f then take_frame f s else s"
  have f: "f < total_frames s" using Cons.prems by simp
  have "pmm_wf ?u" "used_set ?u = insert f (used_set s)" "debt ?u = debt s"
    "total_frames ?u = total_frames s" "next_free ?u = next_free s"
    "length (bitmap ?u) = length (bitmap s)"
    using Cons.prems(1) f frame_used_set [OF f]
    by (auto simp: take_frame_wf take_frame_used_set take_frame_debt)
  then show ?case using Cons.IH [of ?u] Cons.prems by simp
qed simp

lemma mark_free_fold:
  assumes "pmm_wf s" "set fs \<subseteq> {..<total_frames s}"
  defines "t \<equiv> fold (\<lambda>f t. if frame_used t f then release_frame f t else t) fs s"
  shows "pmm_wf t \<and> used_set t = used_set s - set fs \<and> debt t = debt s
         \<and> total_frames t = total_frames s \<and> next_free t = next_free s
         \<and> length (bitmap t) = length (bitmap s)"
  using assms(1,2) unfolding t_def
proof (induction fs arbitrary: s)
  case (Cons f fs)
  let ?u = "if frame_used s f then release_frame f s else s"
  have f: "f < total_frames s" using Cons.prems by simp
  have "pmm_wf ?u" "used_set ?u = used_set s - {f}" "debt ?u = debt s"
    "total_frames ?u = total_frames s" "next_free ?u = next_free s"
    "length (bitmap ?u) = length (bitmap s)"
    using Cons.prems(1) f frame_used_set [OF f]
    by (auto simp: release_frame_wf release_frame_used_set release_frame_debt)
  then show ?case using Cons.IH [of ?u] Cons.prems by auto
qed simp

lemma mark_used_spec:
  assumes "pmm_wf s"
  shows "pmm_wf (mark_used addr len s)"
    "used_set (mark_used addr len s) = used_set s
       \<union> {ADDR_TO_FRAME addr..<min (ADDR_TO_FRAME (addr + len + 4096 - 1)) (total_frames s)}"
    "debt (mark_used addr len s) = debt s"
    "total_frames (mark_used addr len s) = total_frames s"
    "length (bitmap (mark_used addr len s)) = length (bitmap s)"
proof -
  let ?fs = "[ADDR_TO_FRAME addr..<min (ADDR_TO_FRAME (addr + len + 4096 - 1)) (total_frames s)]"
  have "set ?fs \<subseteq> {..<total_frames s}" by auto
  note fold_facts = mark_used_fold [OF assms this]
  show "pmm_wf (mark_used addr len s)" "debt (mark_used addr len s) = debt s"
    "used_set (mark_used addr len s) = used_set s
       \<union> {ADDR_TO_FRAME addr..<min (ADDR_TO_FRAME (addr + len + 4096 - 1)) (total_frames s)}"
    "total_frames (mark_used addr len s) = total_frames s"
    "length (bitmap (mark_used addr len s)) = length (bitmap s)"
    using fold_facts by (simp_all add: mark_used_def Let_def)
qed

lemma mark_free_spec:
  assumes "pmm_wf s"
  shows "pmm_wf (mark_free addr len s)"
    "used_set (mark_free addr len s) = used_set s
       - {ADDR_TO_FRAME addr..<min (ADDR_TO_FRAME (addr + len)) (total_frames s)}"
    "debt (mark_free addr len s) = debt s"
    "total_frames (mark_free addr len s) = total_frames s"
    "length (bitmap (mark_free addr len s)) = length (bitmap s)"
proof -
  let ?fs = "[ADDR_TO_FRAME addr..<min (ADDR_TO_FRAME (addr + len)) (total_frames s)]"
  have "set ?fs \<subseteq> {..<total_frames s}" by auto
  note fold_facts = mark_free_fold [OF assms this]
  show "pmm_wf (mark_free addr len s)" "debt (mark_free addr len s) = debt s"
    "used_set (mark_free addr len s) = used_set s
       - {ADDR_TO_FRAME addr..<min (ADDR_TO_FRAME (addr + len)) (total_frames s)}"
    "total_frames (mark_free addr len s) = total_frames s"
    "length (bitmap (mark_free addr len s)) = length (bitmap s)"
    using fold_facts by (simp_all add: mark_free_def Let_def)
qed

section \<open>Allocation\<close>

lemma word_full_iff:
  "w < length (bitmap s) \<Longrightarrow> bitmap s ! w = -1 \<longleftrightarrow> (\<forall>f. f div 64 = w \<longrightarrow> frame_used s f)"
proof -
  have "(\<forall>f. f div 64 = w \<longrightarrow> frame_used s f) \<longleftrightarrow> (\<forall>i<64. bit (bitmap s ! w) i)"
  proof (intro iffI allI impI)
    fix i :: nat assume "\<forall>f. f div 64 = w \<longrightarrow> frame_used s f" "i < 64"
    then have "frame_used s (w * 64 + i)" by simp
    then show "bit (bitmap s ! w) i" using \<open>i < 64\<close> by (simp add: frame_used_iff)
  next
    fix f assume "\<forall>i<64. bit (bitmap s ! w) i" "f div 64 = w"
    then show "frame_used s f" by (simp add: frame_used_iff)
  qed
  then show ?thesis by (simp add: word_all_ones_iff)
qed

text \<open>The free frame the search finds is the lowest one.\<close>

lemma pmm_alloc_found:
  assumes inv: "pmm_inv s" and w: "find (\<lambda>w. bitmap s ! w \<noteq> -1) [next_free s div 64..<bitmap_words s] = Some w"
  defines "f \<equiv> w * 64 + ctz (NOT (bitmap s ! w))"
  shows "f < total_frames s" "\<not> frame_used s f" "\<And>g. g < f \<Longrightarrow> frame_used s g"
proof -
  note found = find_upt_Some [OF w]
  let ?b = "NOT (bitmap s ! w)"
  have len: "length (bitmap s) = bitmap_words s" using inv by (simp add: pmm_inv_def pmm_wf_def)
  have "?b \<noteq> 0" using found(3) by (metis bit.compl_zero bit.double_compl)
  note c = ctz_properties [OF this]
  have fdiv: "f div 64 = w" "f mod 64 = ctz ?b" using c(1) by (simp_all add: f_def)
  have flen: "f < 64 * length (bitmap s)"
    using found(2) c(1) by (simp add: f_def len)
  show unused: "\<not> frame_used s f"
    using c(2) c(1) by (simp add: frame_used_iff fdiv bit_not_iff)
  then show "f < total_frames s"
    using inv flen by (metis leI pmm_inv_def pmm_wf_def)
  fix g assume g: "g < f"
  show "frame_used s g"
  proof (cases "g div 64 = w")
    case True
    have "g = w * 64 + g mod 64" using True by (metis div_mult_mod_eq)
    then have "g mod 64 < ctz ?b" using g by (simp add: f_def)
    then have "\<not> bit ?b (g mod 64)" by (rule c(3))
    then show ?thesis by (simp add: frame_used_iff True bit_not_iff)
  next
    case False
    have "g div 64 \<le> w" using g fdiv(1) by (metis div_le_mono less_imp_le)
    with False have lt: "g div 64 < w" by simp
    show ?thesis
    proof (cases "next_free s div 64 \<le> g div 64")
      case True
      then have "bitmap s ! (g div 64) = -1" using found(4) lt by blast
      then show ?thesis using lt found(2) len by (simp add: word_full_iff)
    next
      case False
      then have "g < 64 * (next_free s div 64)" by (simp add: div_less_iff_less_mult mult.commute)
      then show ?thesis using inv g flen by (simp add: pmm_inv_def hint_ok_def)
    qed
  qed
qed

lemma pmm_alloc_not_found:
  assumes inv: "pmm_inv s" and none: "find (\<lambda>w. bitmap s ! w \<noteq> -1) [next_free s div 64..<bitmap_words s] = None"
    and f: "f < total_frames s"
  shows "frame_used s f"
proof (cases "next_free s div 64 \<le> f div 64")
  case True
  have len: "f div 64 < bitmap_words s" "length (bitmap s) = bitmap_words s"
    using inv f pmm_wf_frame [of s f] by (auto simp: pmm_inv_def pmm_wf_def)
  then have "bitmap s ! (f div 64) = -1" using none True by (simp add: find_upt_None)
  then show ?thesis using len by (simp add: word_full_iff)
next
  case False
  then have "f < 64 * (next_free s div 64)" by (simp add: div_less_iff_less_mult mult.commute)
  moreover have "f < 64 * length (bitmap s)"
    using pmm_wf_frame [of s f] inv f by (simp add: pmm_inv_def div_less_iff_less_mult mult.commute)
  ultimately show ?thesis using inv by (simp add: pmm_inv_def hint_ok_def)
qed

lemma pmm_alloc_None:
  "pmm_inv s \<Longrightarrow> used_set s = {..<total_frames s} \<Longrightarrow> pmm_alloc s = (0, s)"
  using pmm_alloc_found [of s] by (fastforce simp: pmm_alloc_def used_set_def split: option.splits)

lemma pmm_alloc_Some:
  assumes inv: "pmm_inv s" and avail: "used_set s \<noteq> {..<total_frames s}"
  obtains f where "f < total_frames s" "f \<notin> used_set s" "\<And>g. g < f \<Longrightarrow> g \<in> used_set s" "f \<noteq> 0"
    "pmm_alloc s = (FRAME_TO_ADDR f, (take_frame f s)\<lparr>next_free := f + 1\<rparr>)"
proof -
  have "find (\<lambda>w. bitmap s ! w \<noteq> -1) [next_free s div 64..<bitmap_words s] \<noteq> None"
    using pmm_alloc_not_found [OF inv] avail by (auto simp: used_set_def)
  then obtain w where w: "find (\<lambda>w. bitmap s ! w \<noteq> -1) [next_free s div 64..<bitmap_words s] = Some w"
    by blast
  note found = pmm_alloc_found [OF inv w]
  let ?f = "w * 64 + ctz (NOT (bitmap s ! w))"
  have "frame_used s 0" using inv by (simp add: pmm_inv_def)
  then have "?f \<noteq> 0" using found(2) by metis
  then show ?thesis
    using found w that [of ?f] by (auto simp: pmm_alloc_def used_set_def Let_def)
qed

lemma pmm_alloc_inv:
  assumes "pmm_inv s" shows "pmm_inv (snd (pmm_alloc s))"
proof (cases "used_set s = {..<total_frames s}")
  case True
  with assms show ?thesis by (simp add: pmm_alloc_None)
next
  case False
  with assms obtain f where f: "f < total_frames s" "\<And>g. g < f \<Longrightarrow> g \<in> used_set s"
    "pmm_alloc s = (FRAME_TO_ADDR f, (take_frame f s)\<lparr>next_free := f + 1\<rparr>)"
    by (rule pmm_alloc_Some) blast
  have wf: "pmm_wf s" using assms by (simp add: pmm_inv_def)
  have "frame_used (take_frame f s) g" if "g < f + 1" for g
    using that f(2) [of g] f(1) pmm_wf_frame [OF wf f(1)]
    by (cases "g = f") (auto simp: take_frame_used used_set_def)
  then have "hint_ok ((take_frame f s)\<lparr>next_free := f + 1\<rparr>)"
    by (auto simp: hint_ok_def intro: less_le_trans times_div_less_eq_dividend)
  then show ?thesis
    using assms f by (simp add: pmm_inv_def take_frame_wf take_frame_used pmm_wf_frame)
qed

section \<open>Contiguous runs\<close>

abbreviation free_run :: "(nat \<Rightarrow> bool) \<Rightarrow> nat \<Rightarrow> nat \<Rightarrow> bool" where
  "free_run used r n \<equiv> \<forall>g. r \<le> g \<and> g < r + n \<longrightarrow> \<not> used g"

text \<open>The state of the search at frame \<open>f\<close>: the \<open>rl\<close> frames before \<open>f\<close> are the current run.\<close>

abbreviation scan_ok :: "(nat \<Rightarrow> bool) \<Rightarrow> nat \<Rightarrow> nat \<Rightarrow> nat \<Rightarrow> bool" where
  "scan_ok used f rs rl \<equiv> rl \<le> f \<and> (0 < rl \<longrightarrow> rs = f - rl) \<and> (\<forall>g. f - rl \<le> g \<and> g < f \<longrightarrow> \<not> used g)"

lemma run_scan_sound:
  assumes "run_scan used count ok [f..<n] rs rl = Some r" "scan_ok used f rs rl" "rl < count"
  shows "r + count \<le> n \<and> free_run used r count \<and> ok r"
  using assms
proof (induction "[f..<n]" arbitrary: f rs rl)
  case (Cons x xs)
  from Cons.hyps(2) [symmetric] have f: "f < n" "x = f" "xs = [Suc f..<n]"
    by (auto simp: upt_eq_Cons_conv)
  note IH = Cons.hyps(1) [OF f(3)]
  have eq: "run_scan used count ok (f # [Suc f..<n]) rs rl = Some r"
    using Cons.prems(1) f(1) by (simp add: upt_conv_Cons)
  show ?case
  proof (cases "used f")
    case True
    with eq show ?thesis using IH [of rs 0] Cons.prems by simp
  next
    case False
    let ?rs = "if rl = 0 then f else rs"
    have run: "?rs = f - rl" "free_run used (f - rl) (rl + 1)"
      using Cons.prems(2) False by (auto simp: less_Suc_eq)
    show ?thesis
    proof (cases "rl + 1 = count")
      case True
      with eq False run show ?thesis using IH [of ?rs 0] Cons.prems f(1)
        by (cases "ok ?rs") (auto simp: Let_def)
    next
      case more: False
      have "scan_ok used (Suc f) ?rs (rl + 1)"
        using Cons.prems(2) run by auto
      then show ?thesis using IH [of ?rs "rl + 1"] eq False more Cons.prems(3) by (simp add: Let_def)
    qed
  qed
qed simp

lemma run_scan_complete:
  assumes "run_scan used count ok [f..<n] rs rl = None" "scan_ok used f rs rl" "rl < count"
    and mono: "\<And>a b. a \<le> b \<Longrightarrow> b + count \<le> n \<Longrightarrow> ok b \<Longrightarrow> ok a"
    and "f - rl \<le> r" "r + count \<le> n" "free_run used r count"
  shows "\<not> ok r"
  using assms(1-3,5-)
proof (induction "[f..<n]" arbitrary: f rs rl)
  case Nil
  from Nil.hyps [symmetric] have "n \<le> f" by auto
  with Nil.prems show ?case by auto
next
  case (Cons x xs)
  from Cons.hyps(2) [symmetric] have f: "f < n" "x = f" "xs = [Suc f..<n]"
    by (auto simp: upt_eq_Cons_conv)
  note IH = Cons.hyps(1) [OF f(3)]
  have eq: "run_scan used count ok (f # [Suc f..<n]) rs rl = None"
    using Cons.prems(1) f(1) by (simp add: upt_conv_Cons)
  show ?case
  proof (cases "used f")
    case True
    have "\<not> (r \<le> f \<and> f < r + count)" using True Cons.prems(6) by blast
    then have "Suc f \<le> r" using Cons.prems(3,4) by arith
    with True eq show ?thesis using IH [of rs 0] Cons.prems by simp
  next
    case False
    let ?rs = "if rl = 0 then f else rs"
    have rs: "?rs = f - rl" using Cons.prems(2) by auto
    show ?thesis
    proof (cases "rl + 1 = count")
      case True
      with eq False have "\<not> ok (f - rl)" by (auto simp: Let_def rs split: if_splits)
      then show ?thesis using mono Cons.prems(4,5) by blast
    next
      case more: False
      have "scan_ok used (Suc f) ?rs (rl + 1)"
        using Cons.prems(2) False rs by (auto simp: less_Suc_eq)
      then show ?thesis using IH [of ?rs "rl + 1"] eq False more Cons.prems(3-) by (simp add: Let_def)
    qed
  qed
qed

text \<open>The aligned search: a multiple of \<open>af\<close> and the free frames from it up to \<open>f\<close>.\<close>

abbreviation aligned_ok :: "(nat \<Rightarrow> bool) \<Rightarrow> nat \<Rightarrow> nat \<Rightarrow> nat \<Rightarrow> nat \<Rightarrow> bool" where
  "aligned_ok used af f rs rl \<equiv>
     f mod af \<noteq> 0 \<longrightarrow> rs mod af = 0 \<and> rs + rl = f \<and> rl = f mod af \<and> free_run used rs rl"

lemma aligned_ok_next:
  assumes ok: "aligned_ok used af f rs rl" and "0 < af" "\<not> used f"
    and rs': "rs' = (if f mod af = 0 then f else rs)" and rl': "rl' = (if f mod af = 0 then 0 else rl)"
  shows "rs' \<le> f" "rs' mod af = 0" "rs' + rl' = f" "rl' < af" "free_run used rs' (rl' + 1)"
    "aligned_ok used af (f + 1) rs' (rl' + 1)"
proof -
  show a: "rs' \<le> f" "rs' mod af = 0" "rs' + rl' = f" using ok rs' rl' by auto
  have rl: "rl' = f mod af" using ok rl' by auto
  then show "rl' < af" using \<open>0 < af\<close> by simp
  show run: "free_run used rs' (rl' + 1)"
    using ok \<open>\<not> used f\<close> a(3) rs' rl' by (auto simp: less_Suc_eq split: if_splits)
  have "(f + 1) mod af = rl' + 1" if "(f + 1) mod af \<noteq> 0"
    using that rl by (metis Suc_eq_plus1 mod_Suc)
  then show "aligned_ok used af (f + 1) rs' (rl' + 1)" using a run by auto
qed

lemma aligned_scan_sound:
  assumes "aligned_scan used count af max_addr mf f rs rl = Some r" "0 < af"
    "aligned_ok used af f rs rl" "0 < count"
  shows "r mod af = 0 \<and> r + count \<le> mf \<and> free_run used r count
         \<and> FRAME_TO_ADDR (r + count) \<le> max_addr \<and> count \<le> af"
  using assms
proof (induction used count af max_addr mf f rs rl rule: aligned_scan.induct)
  case (1 used count af max_addr mf f rs rl)
  note eq = "1.prems"(1) [unfolded aligned_scan.simps [of used count af max_addr mf f rs rl] Let_def]
  define rs' rl' where d: "rs' = (if f mod af = 0 then f else rs)" "rl' = (if f mod af = 0 then 0 else rl)"
  have lt: "f < mf" using eq by (auto split: if_splits)
  show ?case
  proof (cases "used f")
    case False
    note nx = aligned_ok_next [OF "1.prems"(3,2) False d]
    show ?thesis
    proof (cases "rl' + 1 = count \<and> FRAME_TO_ADDR (rs' + count) \<le> max_addr")
      case True
      then have "r = rs'" using eq lt False nx(1) by (simp add: d [symmetric])
      then show ?thesis using True nx lt by auto
    next
      case more: False
      then have "aligned_scan used count af max_addr mf (f + 1) rs' (rl' + 1) = Some r"
        using eq lt False nx(1) unfolding d by (simp split: if_splits)
      then show ?thesis
        using "1.IH"(1) [OF lt d] False nx(1,6) more "1.prems"(2,4) by simp
    qed
  next
    case True
    define f' where "f' = (if af > 1 \<and> (f div af + 1) * af > f then (f div af + 1) * af - 1 else f)"
    have gt: "f < (f div af + 1) * af"
      using \<open>0 < af\<close> by (metis Suc_eq_plus1 dividend_less_times_div mult.commute mult_Suc_right)
    have "(f' + 1) mod af = 0"
      using gt \<open>0 < af\<close> by (cases "af = 1") (simp_all add: f'_def)
    moreover have "aligned_scan used count af max_addr mf (f' + 1) rs' 0 = Some r"
      using eq lt True unfolding d f'_def by (simp split: if_splits)
    ultimately show ?thesis
      using "1.IH"(2) [OF lt d _ refl f'_def] True "1.prems"(2,4) by simp
  qed
qed

lemma aligned_scan_too_long:
  "0 < af \<Longrightarrow> af < count \<Longrightarrow> aligned_scan used count af max_addr mf 0 0 0 = None"
  using aligned_scan_sound [of used count af max_addr mf 0 0 0] by fastforce

lemma take_run_spec:
  assumes "pmm_inv s" "r + n \<le> total_frames s" "free_run (frame_used s) r n"
  shows "pmm_inv (take_run r n s) \<and> used_set (take_run r n s) = used_set s \<union> {r..<r + n}
         \<and> debt (take_run r n s) = debt s \<and> total_frames (take_run r n s) = total_frames s"
  using assms(2,3)
proof (induction n)
  case 0
  then show ?case using assms(1) by (simp add: take_run_def)
next
  case (Suc n)
  let ?t = "take_run r n s"
  have IH: "pmm_inv ?t" "used_set ?t = used_set s \<union> {r..<r + n}" "debt ?t = debt s"
    "total_frames ?t = total_frames s"
    using Suc by auto
  have step: "take_run r (Suc n) s = take_frame (r + n) ?t" by (simp add: take_run_def)
  have "\<not> frame_used s (r + n)" using Suc.prems(2) by simp
  then have "r + n \<notin> used_set ?t" using IH(2) by (simp add: used_set_def)
  moreover have "r + n < total_frames ?t" "pmm_wf ?t" using IH Suc.prems(1) by (simp_all add: pmm_inv_def)
  ultimately have "used_set (take_frame (r + n) ?t) = insert (r + n) (used_set ?t)"
    "debt (take_frame (r + n) ?t) = debt ?t" "pmm_inv (take_frame (r + n) ?t)"
    using IH(1) by (simp_all add: take_frame_used_set take_frame_debt take_frame_inv)
  then show ?case
    using IH by (simp add: step atLeastLessThanSuc)
qed

section \<open>Release\<close>

lemma pmm_free_noop:
  "ADDR_TO_FRAME addr \<notin> used_set s \<or> ADDR_TO_FRAME addr = 0 \<Longrightarrow> pmm_free addr s = s"
  by (auto simp: pmm_free_def Let_def used_set_def)

lemma pmm_free_release:
  assumes "ADDR_TO_FRAME addr \<in> used_set s" "ADDR_TO_FRAME addr \<noteq> 0"
  shows "pmm_free addr s = (release_frame (ADDR_TO_FRAME addr) s)
           \<lparr>next_free := min (next_free s) (ADDR_TO_FRAME addr)\<rparr>"
proof -
  have "addr \<noteq> 0" using assms(2) by (auto simp: ADDR_TO_FRAME_def)
  then show ?thesis using assms by (simp add: pmm_free_def Let_def used_set_def min_def)
qed

lemma pmm_free_total [simp]: "total_frames (pmm_free addr s) = total_frames s"
  by (simp add: pmm_free_def Let_def)

lemma pmm_free_inv:
  assumes "pmm_inv s" shows "pmm_inv (pmm_free addr s)"
proof (cases "ADDR_TO_FRAME addr \<in> used_set s \<and> ADDR_TO_FRAME addr \<noteq> 0")
  case True
  then show ?thesis
    using assms by (simp add: pmm_free_release release_frame_inv used_set_def)
next
  case False
  then show ?thesis using assms by (simp add: pmm_free_noop)
qed

lemma pmm_free_used_set:
  assumes "pmm_inv s"
  shows "used_set (pmm_free addr s) = used_set s - ({ADDR_TO_FRAME addr} - {0})"
    and "debt (pmm_free addr s) = debt s"
proof -
  have wf: "pmm_wf s" using assms by (simp add: pmm_inv_def)
  show "used_set (pmm_free addr s) = used_set s - ({ADDR_TO_FRAME addr} - {0})"
  proof (cases "ADDR_TO_FRAME addr \<in> used_set s \<and> ADDR_TO_FRAME addr \<noteq> 0")
    case True
    then have "ADDR_TO_FRAME addr < total_frames s" by (simp add: used_set_def)
    with True show ?thesis using wf by (auto simp: pmm_free_release release_frame_used_set)
  next
    case False
    then show ?thesis by (auto simp: pmm_free_noop)
  qed
  show "debt (pmm_free addr s) = debt s"
    using wf by (cases "ADDR_TO_FRAME addr \<in> used_set s \<and> ADDR_TO_FRAME addr \<noteq> 0")
      (auto simp: pmm_free_release release_frame_debt pmm_free_noop)
qed

section \<open>Initialisation\<close>

lemma mmap_entries_returns: "0 < esz \<Longrightarrow> \<exists>es. mmap_entries m ep stop esz = Some es"
proof (induction "stop - ep" arbitrary: ep rule: less_induct)
  case less
  show ?case
  proof (cases "ep < stop")
    case True
    then have "stop - (ep + esz) < stop - ep" using less.prems by arith
    then obtain es where "mmap_entries m (ep + esz) stop esz = Some es"
      using less.hyps less.prems by blast
    then show ?thesis by (subst mmap_entries.simps) simp
  next
    case False
    then show ?thesis by (subst mmap_entries.simps) simp
  qed
qed

text \<open>Every memory-map tag the walk from \<open>p\<close> visits has a nonzero entry size, unless it has no entries at
  all: what the multiboot2 specification requires of the boot loader.\<close>

function entry_sizes_ok :: "(nat \<Rightarrow> u8) \<Rightarrow> nat \<Rightarrow> nat \<Rightarrow> bool" where
  "entry_sizes_ok m p stop =
     (let ty = mem_le m 4 p :: u32; sz = mem_le m 4 (p + 4) :: u32; esz = mem_le m 4 (p + 8) :: u32;
          step = unat ((sz + 7) AND NOT 7)
      in if p \<ge> stop \<or> ty = 0 then True
         else if ty = 6 \<and> 16 < unat sz \<and> esz = 0 then False
         else if step = 0 then True
         else entry_sizes_ok m (p + step) stop)"
  by pat_completeness auto
termination by (relation "measure (\<lambda>(m, p, stop). stop - p)") auto

declare entry_sizes_ok.simps [simp del]

lemma mmap_entries_endless: "mmap_entries m ep stop 0 = Some es \<Longrightarrow> \<not> ep < stop"
proof -
  assume e: "mmap_entries m ep stop 0 = Some es"
  have "esz = 0 \<longrightarrow> \<not> ep < stop" if "mmap_entries m ep stop esz = Some es" for esz
    using that
  proof (rule mmap_entries.raw_induct [where P = "\<lambda>m ep stop esz _. esz = 0 \<longrightarrow> \<not> ep < stop", rotated])
    fix f :: "(nat \<Rightarrow> u8) \<Rightarrow> nat \<Rightarrow> nat \<Rightarrow> nat \<Rightarrow> mmap_entry list option" and m ep stop esz es
    assume "\<And>m ep stop esz es. f m ep stop esz = Some es \<Longrightarrow> esz = 0 \<longrightarrow> \<not> ep < stop"
      and "(if ep < stop then Option.bind (f m (ep + esz) stop esz) (\<lambda>es. Some (read_entry m ep # es)) else Some []) = Some es"
    then show "esz = 0 \<longrightarrow> \<not> ep < stop" by (fastforce split: if_splits simp: bind_eq_Some_conv)
  qed
  then show ?thesis using e by blast
qed

lemma mmap_entries_iff: "(\<exists>es. mmap_entries m ep stop esz = Some es) \<longleftrightarrow> esz \<noteq> 0 \<or> stop \<le> ep"
proof (cases "esz = 0 \<and> ep < stop")
  case True
  then show ?thesis using mmap_entries_endless [of m ep stop] by (cases "mmap_entries m ep stop 0") auto
next
  case False
  then show ?thesis using mmap_entries_returns [of esz m ep stop] by (cases "ep < stop") (auto simp: mmap_entries.simps)
qed

lemma walk_tags_returns: "(\<exists>ts. walk_tags m p stop = Some ts) \<longleftrightarrow> entry_sizes_ok m p stop"
proof (induction m p stop rule: entry_sizes_ok.induct)
  case (1 m p stop)
  let ?ty = "mem_le m 4 p :: u32" and ?sz = "mem_le m 4 (p + 4) :: u32" and ?esz = "mem_le m 4 (p + 8) :: u32"
  let ?step = "unat ((?sz + 7) AND NOT 7)"
  let ?here = "if ?ty = 6 then map_option (\<lambda>es. [es]) (mmap_entries m (p + 16) (p + unat ?sz) (unat ?esz)) else Some []"
  show ?case
  proof (cases "stop \<le> p \<or> ?ty = 0")
    case True
    then show ?thesis by (subst walk_tags.simps, subst entry_sizes_ok.simps) (auto simp: Let_def)
  next
    case False
    have h: "(\<exists>h. ?here = Some h) \<longleftrightarrow> \<not> (?ty = 6 \<and> 16 < unat ?sz \<and> ?esz = 0)"
      using mmap_entries_iff [of m "p + 16" "p + unat ?sz" "unat ?esz"] by (auto simp: unat_eq_0)
    have w: "(\<exists>ts. walk_tags m p stop = Some ts) \<longleftrightarrow> (\<exists>h. ?here = Some h)
        \<and> (?step = 0 \<or> (\<exists>ts. walk_tags m (p + ?step) stop = Some ts))"
      using False by (subst walk_tags.simps) (auto simp: Let_def bind_eq_Some_conv)
    have e: "entry_sizes_ok m p stop \<longleftrightarrow> \<not> (?ty = 6 \<and> 16 < unat ?sz \<and> ?esz = 0)
        \<and> (?step = 0 \<or> entry_sizes_ok m (p + ?step) stop)"
      using False by (subst entry_sizes_ok.simps) (auto simp: Let_def)
    show ?thesis
    proof (cases "(?ty = 6 \<and> 16 < unat ?sz \<and> ?esz = 0) \<or> ?step = 0")
      case True
      then show ?thesis unfolding w e h by blast
    next
      case step: False
      have "(\<exists>ts. walk_tags m (p + ?step) stop = Some ts) \<longleftrightarrow> entry_sizes_ok m (p + ?step) stop"
        by (rule 1) (use False step in auto)
      then show ?thesis unfolding w e h by blast
    qed
  qed
qed

abbreviation usable_frames :: "mmap_entry \<Rightarrow> nat \<Rightarrow> nat set" where
  "usable_frames e n \<equiv> {ADDR_TO_FRAME (me_addr e)..<min (ADDR_TO_FRAME (me_addr e + me_len e)) n}"

lemma free_usable_fold:
  fixes es :: "mmap_entry list"
  assumes "pmm_wf s"
  defines "t \<equiv> fold (\<lambda>e s. if me_type e = 1 then mark_free (me_addr e) (me_len e) s else s) es s"
  shows "pmm_wf t \<and> debt t = debt s \<and> total_frames t = total_frames s
     \<and> used_set t = used_set s - (\<Union>e \<in> {e \<in> set es. me_type e = 1}. usable_frames e (total_frames s))"
  using assms(1) unfolding t_def
proof (induction es arbitrary: s)
  case (Cons e es)
  let ?u = "if me_type e = 1 then mark_free (me_addr e) (me_len e) s else s"
  have "pmm_wf ?u" "debt ?u = debt s" "total_frames ?u = total_frames s"
    "used_set ?u = used_set s - (if me_type e = 1 then usable_frames e (total_frames s) else {})"
    using Cons.prems by (simp_all add: mark_free_spec)
  then show ?case using Cons.IH [of ?u] by auto
qed simp

lemma bitmap_full_state:
  fixes b top :: u64 and saw :: bool
  assumes "0 < n" "n \<le> 2 ^ 52"
  defines "s \<equiv> \<lparr>bitmap = replicate ((n + 63) div 64) (-1), bitmap_addr = b, total_frames = n,
     used_frames = of_nat n, next_free = 0, last_mem_top = top, last_saw_mmap = saw\<rparr>"
  shows "pmm_wf s" "debt s = 0" "used_set s = {..<n}"
proof -
  have used: "frame_used s f" if "f < 64 * ((n + 63) div 64)" for f
    using that frame_used_word [OF that] by (simp add: s_def frame_used_iff)
  have bound: "n \<le> 64 * ((n + 63) div 64)" by linarith
  show "pmm_wf s" using assms(1,2) used by (auto simp: pmm_wf_def bitmap_words_def s_def)
  show set: "used_set s = {..<n}" using used bound by (auto simp: used_set_def s_def)
  show "debt s = 0" by (simp add: debt_def set) (simp add: s_def)
qed

lemma frame_set_0_spec:
  assumes "pmm_wf s"
  shows "pmm_wf (frame_set 0 s)" "used_set (frame_set 0 s) = insert 0 (used_set s)"
    "debt (frame_set 0 s) = debt s + (if 0 \<in> used_set s then 0 else 1)"
proof -
  have 0: "0 div 64 < length (bitmap s)" "0 < total_frames s"
    using assms pmm_wf_frame [OF assms, of 0] by (auto simp: pmm_wf_def)
  show "pmm_wf (frame_set 0 s)"
    using assms by (simp add: pmm_wf_def bitmap_words_def frame_set_used [OF 0(1)])
  show eq: "used_set (frame_set 0 s) = insert 0 (used_set s)"
    using 0(2) by (auto simp: used_set_def frame_set_used [OF 0(1)])
  show "debt (frame_set 0 s) = debt s + (if 0 \<in> used_set s then 0 else 1)"
    by (simp add: debt_def eq insert_absorb)
qed

lemma hint_ok_first_word:
  assumes "pmm_wf s"
  shows "hint_ok (s\<lparr>next_free := (case find (\<lambda>i. bitmap s ! i \<noteq> -1) [0..<bitmap_words s] of
           None \<Rightarrow> 0 | Some i \<Rightarrow> i * 64)\<rparr>)"
proof (cases "find (\<lambda>i. bitmap s ! i \<noteq> -1) [0..<bitmap_words s]")
  case None
  then show ?thesis by (simp add: hint_ok_def)
next
  case (Some i)
  note found = find_upt_Some [OF Some]
  have "frame_used s f" if "f < 64 * i" for f
  proof -
    have "f div 64 < i" using that by (rule frame_used_word)
    then show ?thesis
      using found(2) found(4) [of "f div 64"] word_full_iff [of "f div 64" s] assms
      by (auto simp: pmm_wf_def)
  qed
  then show ?thesis by (simp add: Some hint_ok_def)
qed

text \<open>The state before the reserved regions are protected, and the final state over it.\<close>

lemma pmm_init_state:
  assumes "pmm_init m info kend = Some s"
  obtains es t where "pmm_wf t" "debt t = 0" "total_frames s = total_frames t"
    "used_set t = {..<total_frames t} - (\<Union>e \<in> {e \<in> set es. me_type e = 1}. usable_frames e (total_frames t))"
    "pmm_wf s" "0 \<in> used_set s" "used_set t \<subseteq> used_set s" "hint_ok s" "{..<min 256 (total_frames t)} \<subseteq> used_set s"
    "debt s = (if 0 \<in> used_set t then 0 else 1)"
    "\<exists>tags. walk_tags m (unat info + 8) (unat info + unat (mem_le m 4 (unat info) :: u32)) = Some tags
            \<and> es = concat tags"
proof -
  let ?ts = "mem_le m 4 (unat info) :: u32"
  from assms obtain tags where tags: "walk_tags m (unat info + 8) (unat info + unat ?ts) = Some tags"
    by (auto simp: pmm_init_def Let_def split: option.splits)
  let ?n = "ADDR_TO_FRAME (find_mem_top (concat tags)) + 1"
  let ?base = "align_up_u64 (if info + ucast ?ts > kend then info + ucast ?ts else kend) 4096"
  define s0 where "s0 = \<lparr>bitmap = replicate ((?n + 63) div 64) (-1), bitmap_addr = ?base, total_frames = ?n,
     used_frames = of_nat ?n, next_free = 0, last_mem_top = find_mem_top (concat tags),
     last_saw_mmap = (tags \<noteq> [])\<rparr>"
  define t where "t = fold (\<lambda>e s. if me_type e = 1 then mark_free (me_addr e) (me_len e) s else s) (concat tags) s0"
  define u where "u = mark_used info (ucast ?ts) (mark_used ?base (of_nat ((?n + 63) div 64 * 8))
     (mark_used 0x100000 (kend - 0x100000) (mark_used 0 0x100000 (frame_set 0 t))))"
  have n: "0 < ?n" "?n \<le> 2 ^ 52"
    using ADDR_TO_FRAME_less [of "find_mem_top (concat tags)"] by simp_all
  note s0 = bitmap_full_state [OF n, where b = ?base and top = "find_mem_top (concat tags)"
      and saw = "tags \<noteq> []", folded s0_def]
  have tn: "total_frames s0 = ?n" by (simp add: s0_def)
  note t = free_usable_fold [OF s0(1), of "concat tags", folded t_def]
  have twf: "pmm_wf t" using t by simp
  note f0 = frame_set_0_spec [OF twf]
  have u: "pmm_wf u" "debt u = debt (frame_set 0 t)" "total_frames u = total_frames t"
    "used_set (frame_set 0 t) \<subseteq> used_set u"
    unfolding u_def using f0 by (simp_all add: mark_used_spec) blast
  have low: "{..<min 256 (total_frames t)} \<subseteq> used_set u"
    unfolding u_def using f0 by (auto simp: mark_used_spec ADDR_TO_FRAME_eq)
  have "bitmap_words u = (?n + 63) div 64"
    using u(3) t tn by (simp add: bitmap_words_def)
  then have s: "s = u\<lparr>next_free := (case find (\<lambda>i. bitmap u ! i \<noteq> -1) [0..<bitmap_words u] of
           None \<Rightarrow> 0 | Some i \<Rightarrow> i * 64)\<rparr>"
    using assms tags by (simp add: pmm_init_def Let_def u_def t_def s0_def)
  show ?thesis
  proof (rule that [of t "concat tags"])
    show "\<exists>ts. walk_tags m (unat info + 8) (unat info + unat ?ts) = Some ts \<and> concat tags = concat ts"
      using tags by blast
  qed (use t s0 u f0 low s tn hint_ok_first_word [OF u(1)] in auto)
qed

section \<open>The frame allocator interface\<close>

definition owned_addrs :: "pmm \<Rightarrow> u64 set" where
  "owned_addrs s = FRAME_TO_ADDR ` used_set s"

lemma used_frame_bound: "pmm_wf s \<Longrightarrow> f \<in> used_set s \<Longrightarrow> f < 2 ^ 52"
  by (auto simp: used_set_def pmm_wf_def)

lemma FRAME_TO_ADDR_inj: "f < 2 ^ 52 \<Longrightarrow> g < 2 ^ 52 \<Longrightarrow> FRAME_TO_ADDR f = FRAME_TO_ADDR g \<longleftrightarrow> f = g"
  by (metis ADDR_TO_FRAME_TO_ADDR)

lemma pmm_alloc_owned:
  assumes inv: "pmm_inv s" and eq: "pmm_alloc s = (a, s')" and "a \<noteq> 0"
  shows "a \<notin> owned_addrs s \<and> owned_addrs s' = insert a (owned_addrs s)"
proof -
  have wf: "pmm_wf s" using inv by (simp add: pmm_inv_def)
  have "used_set s \<noteq> {..<total_frames s}"
    using pmm_alloc_None [OF inv] eq \<open>a \<noteq> 0\<close> by auto
  then obtain f where f: "f < total_frames s" "f \<notin> used_set s"
    "pmm_alloc s = (FRAME_TO_ADDR f, (take_frame f s)\<lparr>next_free := f + 1\<rparr>)"
    by (rule pmm_alloc_Some [OF inv]) blast
  have b: "f < 2 ^ 52" using f(1) wf by (auto simp: pmm_wf_def)
  have "FRAME_TO_ADDR f \<notin> owned_addrs s"
    using f(2) b used_frame_bound [OF wf] by (auto simp: owned_addrs_def FRAME_TO_ADDR_inj)
  then show ?thesis
    using eq f wf by (auto simp: owned_addrs_def take_frame_used_set)
qed

lemma pmm_free_owned:
  assumes inv: "pmm_inv s" and a: "a \<in> owned_addrs s" "a \<noteq> 0"
  shows "owned_addrs (pmm_free a s) = owned_addrs s - {a}"
proof -
  have wf: "pmm_wf s" using inv by (simp add: pmm_inv_def)
  from a obtain f where f: "f \<in> used_set s" "a = FRAME_TO_ADDR f" by (auto simp: owned_addrs_def)
  note b = used_frame_bound [OF wf]
  have "f \<noteq> 0" using f a(2) b FRAME_TO_ADDR_0_iff by blast
  then show ?thesis
    using f b by (auto simp: owned_addrs_def pmm_free_used_set [OF inv] FRAME_TO_ADDR_inj)
qed

interpretation pmm_frames: frame_allocator pmm_alloc pmm_free owned_addrs pmm_inv
proof
  fix s s' a
  assume inv: "pmm_inv s"
  show "pmm_inv (snd (pmm_alloc s))" by (rule pmm_alloc_inv [OF inv])
  show "pmm_inv (pmm_free a s)" by (rule pmm_free_inv [OF inv])
  show "pmm_alloc s = (a, s') \<Longrightarrow> a \<noteq> 0 \<Longrightarrow> a \<notin> owned_addrs s \<and> owned_addrs s' = insert a (owned_addrs s)"
    by (rule pmm_alloc_owned [OF inv])
  show "a \<in> owned_addrs s \<Longrightarrow> a \<noteq> 0 \<Longrightarrow> owned_addrs (pmm_free a s) = owned_addrs s - {a}"
    by (rule pmm_free_owned [OF inv])
  assume eq: "pmm_alloc s = (0, s')"
  show "s' = s"
  proof (cases "used_set s = {..<total_frames s}")
    case True
    then show ?thesis using eq inv by (simp add: pmm_alloc_None)
  next
    case False
    then obtain f where f: "f < total_frames s" "f \<noteq> 0" "fst (pmm_alloc s) = FRAME_TO_ADDR f"
      by (metis fst_conv inv pmm_alloc_Some)
    have "f < 2 ^ 52" using f(1) inv by (auto simp: pmm_inv_def pmm_wf_def)
    then show ?thesis using f(2,3) eq by (simp add: FRAME_TO_ADDR_0_iff)
  qed
qed

section \<open>Correctness of the memory manager\<close>

text \<open>The invariant in a form that evaluates, and a small machine for the witnesses: eight
  frames, of which 0, 1 and 2 are in use.\<close>

lemma pmm_inv_exec:
  "pmm_inv s \<longleftrightarrow> 0 < total_frames s \<and> total_frames s \<le> 2 ^ 52 \<and> length (bitmap s) = bitmap_words s
     \<and> list_all (frame_used s) [total_frames s..<64 * length (bitmap s)] \<and> frame_used s 0
     \<and> list_all (frame_used s) [0..<min (64 * (next_free s div 64)) (64 * length (bitmap s))]"
  by (auto simp: pmm_inv_def pmm_wf_def hint_ok_def list_all_iff)

definition demo_pmm :: pmm where
  "demo_pmm = \<lparr>bitmap = [0xFFFFFFFFFFFFFF07], bitmap_addr = 0x2000, total_frames = 8,
     used_frames = 3, next_free = 0, last_mem_top = 0x7FFF, last_saw_mmap = True\<rparr>"

lemma demo_pmm_inv: "pmm_inv demo_pmm"
proof -
  have "list_all (frame_used demo_pmm) [8..<64]" "frame_used demo_pmm 0" by code_simp+
  then show ?thesis by (simp add: pmm_inv_exec bitmap_words_def) (simp add: demo_pmm_def)
qed

lemma demo_pmm_used: "used_set demo_pmm = {0, 1, 2}"
proof -
  have "used_set demo_pmm = set (filter (frame_used demo_pmm) [0..<8])"
    by (auto simp: used_set_def demo_pmm_def)
  also have "\<dots> = {0, 1, 2}" by code_simp
  finally show ?thesis .
qed

text \<open>
  C1. \<^verbatim>\<open>pmm_alloc\<close> refines the abstract allocator: it fails, changing nothing, exactly when every
  frame is in use, and otherwise hands out the lowest free frame of the machine (never frame 0),
  marks that frame and no other, counts it once and keeps the allocator's invariant.
\<close>
theorem pmm_alloc_lowest_free:
  assumes "pmm_inv s"
  defines "free \<equiv> {..<total_frames s} - used_set s"
  shows "case pmm_alloc s of (a, s') \<Rightarrow>
     pmm_inv s' \<and> total_frames s' = total_frames s \<and> debt s' = debt s
     \<and> (if free = {} then a = 0 \<and> s' = s
        else a = FRAME_TO_ADDR (Min free) \<and> a \<noteq> 0 \<and> used_set s' = insert (Min free) (used_set s))"
proof (cases "free = {}")
  case True
  then have "used_set s = {..<total_frames s}" by (auto simp: free_def used_set_def)
  then show ?thesis using assms True by (simp add: pmm_alloc_None)
next
  case False
  then have "used_set s \<noteq> {..<total_frames s}" by (auto simp: free_def)
  with assms(1) obtain f where f: "f < total_frames s" "f \<notin> used_set s" "\<And>g. g < f \<Longrightarrow> g \<in> used_set s"
    "f \<noteq> 0" "pmm_alloc s = (FRAME_TO_ADDR f, (take_frame f s)\<lparr>next_free := f + 1\<rparr>)"
    by (rule pmm_alloc_Some) blast
  have min: "Min free = f"
    unfolding free_def by (rule Min_eqI) (use f(1-3) not_le in auto)
  have wf: "pmm_wf s" "f < 2 ^ 52" using assms(1) f(1) by (auto simp: pmm_inv_def pmm_wf_def)
  show ?thesis
    using pmm_alloc_inv [OF assms(1)] f min False wf
    by (simp add: take_frame_used_set take_frame_debt FRAME_TO_ADDR_0_iff)
qed

theorem pmm_alloc_lowest_free_witness:
  "pmm_inv demo_pmm \<and> fst (pmm_alloc demo_pmm) = 0x3000
   \<and> used_set (snd (pmm_alloc demo_pmm)) = {0, 1, 2, 3}"
proof -
  have "{..<8} - {0, 1, 2} = {3, 4, 5, 6, 7::nat}" by auto
  moreover have "FRAME_TO_ADDR 3 = 0x3000" by (simp add: FRAME_TO_ADDR_def)
  moreover have "total_frames demo_pmm = 8" by (simp add: demo_pmm_def)
  ultimately show ?thesis
    using pmm_alloc_lowest_free [OF demo_pmm_inv] demo_pmm_inv
    by (auto simp: demo_pmm_used split: prod.splits)
qed

text \<open>
  C2. Releasing a frame: \<^verbatim>\<open>pmm_free\<close> removes exactly the frame of the address from the used set
  (never frame 0), so that a double free, a free of an address past the memory and a free of
  address 0 change nothing; the invariant and the distance between counter and bitmap are kept,
  and a frame just allocated can be given back, restoring the used set.
\<close>
theorem pmm_free_exact:
  assumes "pmm_inv s"
  shows "pmm_inv (pmm_free a s) \<and> debt (pmm_free a s) = debt s
     \<and> used_set (pmm_free a s) = used_set s - ({ADDR_TO_FRAME a} - {0})
     \<and> (ADDR_TO_FRAME a \<notin> used_set s \<longrightarrow> pmm_free a s = s)
     \<and> pmm_free a (pmm_free a s) = pmm_free a s
     \<and> (fst (pmm_alloc s) \<noteq> 0 \<longrightarrow>
          used_set (pmm_free (fst (pmm_alloc s)) (snd (pmm_alloc s))) = used_set s)"
proof (intro conjI impI)
  show "pmm_inv (pmm_free a s)" "debt (pmm_free a s) = debt s"
    "used_set (pmm_free a s) = used_set s - ({ADDR_TO_FRAME a} - {0})"
    using assms by (simp_all add: pmm_free_inv pmm_free_used_set)
  show "ADDR_TO_FRAME a \<notin> used_set s \<Longrightarrow> pmm_free a s = s" by (simp add: pmm_free_noop)
  show "pmm_free a (pmm_free a s) = pmm_free a s"
    by (rule pmm_free_noop, cases "ADDR_TO_FRAME a = 0") (simp_all add: pmm_free_used_set(1) [OF assms])
  assume nz: "fst (pmm_alloc s) \<noteq> 0"
  have "used_set s \<noteq> {..<total_frames s}" using nz pmm_alloc_None [OF assms] by force
  with assms obtain f where f: "f < total_frames s" "f \<notin> used_set s" "f \<noteq> 0"
    "pmm_alloc s = (FRAME_TO_ADDR f, (take_frame f s)\<lparr>next_free := f + 1\<rparr>)"
    by (rule pmm_alloc_Some) blast
  have wf: "pmm_wf s" "f < 2 ^ 52" using assms f(1) by (auto simp: pmm_inv_def pmm_wf_def)
  have "pmm_inv (snd (pmm_alloc s))" using assms by (rule pmm_alloc_inv)
  then show "used_set (pmm_free (fst (pmm_alloc s)) (snd (pmm_alloc s))) = used_set s"
    using f wf by (simp add: pmm_free_used_set take_frame_used_set)
qed

theorem pmm_free_exact_witness:
  "pmm_inv demo_pmm \<and> used_set (pmm_free 0x2000 demo_pmm) = {0, 1}
   \<and> pmm_free 0x5000 demo_pmm = demo_pmm \<and> used_set (pmm_free 0x10 demo_pmm) = {0, 1, 2}"
proof -
  have f: "ADDR_TO_FRAME 0x2000 = 2" "ADDR_TO_FRAME 0x5000 = 5" "ADDR_TO_FRAME 0x10 = 0"
    by (simp_all add: ADDR_TO_FRAME_def)
  have "used_set (pmm_free 0x2000 demo_pmm) = {0, 1, 2} - ({2} - {0})"
    "used_set (pmm_free 0x10 demo_pmm) = {0, 1, 2} - ({0} - {0})" "pmm_free 0x5000 demo_pmm = demo_pmm"
    using pmm_free_exact [OF demo_pmm_inv, of "0x2000"] pmm_free_exact [OF demo_pmm_inv, of "0x10"]
      pmm_free_exact [OF demo_pmm_inv, of "0x5000"]
    by (simp_all only: f demo_pmm_used) simp
  moreover have "{0, 1, 2} - ({2} - {0}) = {0, 1::nat}" by auto
  ultimately show ?thesis using demo_pmm_inv by simp
qed

text \<open>
  \<^verbatim>\<open>pmm_alloc_contiguous\<close> for two frames or more finds a run whenever there is one: it fails,
  changing nothing, exactly when no run of \<open>count\<close> free frames exists below \<open>total_frames\<close>; on
  success the frames it marks were all free, lie inside the memory and are the only ones marked.
\<close>
theorem pmm_alloc_contiguous_correct:
  assumes inv: "pmm_inv s" and count: "1 < unat count"
  shows "case pmm_alloc_contiguous count s of (a, s') \<Rightarrow>
    if \<exists>r. r + unat count \<le> total_frames s \<and> free_run (frame_used s) r (unat count)
    then \<exists>r. a = FRAME_TO_ADDR r \<and> r + unat count \<le> total_frames s
           \<and> free_run (frame_used s) r (unat count)
           \<and> used_set s' = used_set s \<union> {r..<r + unat count} \<and> pmm_inv s' \<and> debt s' = debt s
    else a = 0 \<and> s' = s"
proof -
  have c: "count \<noteq> 0" "count \<noteq> 1" using count by auto
  note eq = pmm_alloc_contiguous_def [of count s]
  show ?thesis
  proof (cases "run_scan (frame_used s) (unat count) (\<lambda>_. True) [0..<total_frames s] 0 0")
    case None
    have "\<not> (r + unat count \<le> total_frames s \<and> free_run (frame_used s) r (unat count))" for r
      using run_scan_complete [OF None, of r] count by fastforce
    then have "\<not> (\<exists>r. r + unat count \<le> total_frames s \<and> free_run (frame_used s) r (unat count))"
      by blast
    with None c show ?thesis by (simp only: eq if_False prod.case option.case simp_thms)
  next
    case (Some r)
    have r: "r + unat count \<le> total_frames s" "free_run (frame_used s) r (unat count)"
      using run_scan_sound [OF Some] count by auto
    then have ex: "\<exists>r. r + unat count \<le> total_frames s \<and> free_run (frame_used s) r (unat count)" by blast
    have "pmm_alloc_contiguous count s = (FRAME_TO_ADDR r, take_run r (unat count) s)"
      using Some c by (simp add: eq)
    then show ?thesis using take_run_spec [OF inv r] r ex by (simp only: prod.case if_True) blast
  qed
qed

theorem pmm_alloc_contiguous_correct_witness:
  "fst (pmm_alloc_contiguous 3 demo_pmm) = 0x3000 \<and> fst (pmm_alloc_contiguous 6 demo_pmm) = 0
   \<and> pmm_inv (snd (pmm_alloc_contiguous 3 demo_pmm))"
proof -
  have v: "fst (pmm_alloc_contiguous 3 demo_pmm) = 0x3000" "fst (pmm_alloc_contiguous 6 demo_pmm) = 0"
    by code_simp+
  obtain a s' where p: "pmm_alloc_contiguous 3 demo_pmm = (a, s')" by force
  have "pmm_inv s'"
  proof (cases "\<exists>r. r + 3 \<le> total_frames demo_pmm \<and> free_run (frame_used demo_pmm) r 3")
    case True
    then show ?thesis
      using pmm_alloc_contiguous_correct [OF demo_pmm_inv, of 3] unfolding p by simp blast
  next
    case False
    then show ?thesis
      using pmm_alloc_contiguous_correct [OF demo_pmm_inv, of 3] demo_pmm_inv unfolding p by simp
  qed
  then show ?thesis using v p by simp
qed

text \<open>
  The aligned search \<^verbatim>\<open>pmm_alloc_contiguous_aligned_below\<close>: what it hands out is a run of free
  frames starting on the requested alignment, below the limit, and only that run is marked. The
  search restarts its run at every alignment boundary, so it can never hand out a run longer than
  the alignment: a request for more than \<open>align / 4096\<close> frames always fails, even when the whole
  memory is free (with page alignment that is every request for two frames).
\<close>
theorem pmm_alloc_aligned_sound:
  assumes inv: "pmm_inv s" and eq: "pmm_alloc_contiguous_aligned_below count align max_addr s = (a, s')"
  shows "(a = 0 \<and> s' = s) \<or>
    (\<exists>r. a = FRAME_TO_ADDR r \<and> r + unat count \<le> total_frames s \<and> free_run (frame_used s) r (unat count)
       \<and> r mod max 1 (unat (align div 4096)) = 0 \<and> FRAME_TO_ADDR (r + unat count) \<le> max_addr
       \<and> unat count \<le> max 1 (unat (align div 4096))
       \<and> used_set s' = used_set s \<union> {r..<r + unat count} \<and> pmm_inv s' \<and> debt s' = debt s)"
proof -
  define al where "al = (if align < 4096 then 4096 else align)"
  define af where "af = (if unat (al div 4096) = 0 then 1 else unat (al div 4096))"
  have small: "unat (align div 4096) = 0" if "align < 4096"
    using that by (simp add: unat_div word_less_nat_alt)
  have af: "af = max 1 (unat (align div 4096))" "0 < af"
    using small by (auto simp: af_def al_def max_def)
  show ?thesis
  proof (cases "count = 0 \<or> max_addr = 0 \<or> al AND (al - 1) \<noteq> 0")
    case True
    then show ?thesis
      using eq by (auto simp: pmm_alloc_contiguous_aligned_below_def Let_def al_def split: if_splits)
  next
    case False
    let ?scan = "aligned_scan (frame_used s) (unat count) af max_addr
       (min (ADDR_TO_FRAME max_addr) (total_frames s)) 0 0 0"
    have eq': "(a, s') = (case ?scan of None \<Rightarrow> (0, s) | Some r \<Rightarrow> (FRAME_TO_ADDR r, take_run r (unat count) s))"
      using eq False
      unfolding pmm_alloc_contiguous_aligned_below_def Let_def al_def [symmetric] af_def [symmetric]
      by (simp split: if_splits)
    show ?thesis
    proof (cases ?scan)
      case None
      then show ?thesis using eq' by simp
    next
      case (Some r)
      have pos: "0 < unat count" using False by (simp add: unat_gt_0)
      have r: "r mod af = 0" "r + unat count \<le> total_frames s" "free_run (frame_used s) r (unat count)"
        "FRAME_TO_ADDR (r + unat count) \<le> max_addr" "unat count \<le> af"
        using aligned_scan_sound [OF Some af(2) _ pos] by auto
      then show ?thesis
        using take_run_spec [OF inv r(2,3)] eq' Some af(1) by auto
    qed
  qed
qed

theorem pmm_alloc_aligned_sound_witness:
  "pmm_alloc_contiguous_aligned_below 2 0x4000 0x7FFF demo_pmm
     = (0x4000, snd (pmm_alloc_contiguous_aligned_below 2 0x4000 0x7FFF demo_pmm))
   \<and> pmm_inv (snd (pmm_alloc_contiguous_aligned_below 2 0x4000 0x7FFF demo_pmm))
   \<and> fst (pmm_alloc_contiguous_aligned_below 2 0x1000 0x7FFF demo_pmm) = 0"
proof -
  have v: "fst (pmm_alloc_contiguous_aligned_below 2 0x4000 0x7FFF demo_pmm) = 0x4000"
    "fst (pmm_alloc_contiguous_aligned_below 2 0x1000 0x7FFF demo_pmm) = 0" by code_simp+
  obtain a s' where p: "pmm_alloc_contiguous_aligned_below 2 0x4000 0x7FFF demo_pmm = (a, s')" by force
  have "pmm_inv s'" using pmm_alloc_aligned_sound [OF demo_pmm_inv p] demo_pmm_inv by blast
  then show ?thesis using v p by simp
qed

text \<open>A boot loader's information area for the witnesses, at address 256: one memory-map tag with
  one entry of usable memory, 2 MiB from address 0, and the end tag.\<close>

definition demo_mbi :: bytes where
  "demo_mbi = [56,0,0,0, 0,0,0,0,  6,0,0,0, 40,0,0,0, 24,0,0,0, 0,0,0,0,
     0,0,0,0,0,0,0,0, 0,0,0x20,0,0,0,0,0, 1,0,0,0, 0,0,0,0,  0,0,0,0, 8,0,0,0]"

definition demo_mem :: "nat \<Rightarrow> u8" where
  "demo_mem p = (if 256 \<le> p \<and> p < 312 then demo_mbi ! (p - 256) else 0)"

lemma demo_entry_sizes_ok: "entry_sizes_ok demo_mem 264 312"
  by code_simp

text \<open>The end of the information area, \<^verbatim>\<open>multiboot_info + info->total_size\<close>.\<close>

abbreviation info_end :: "(nat \<Rightarrow> u8) \<Rightarrow> u64 \<Rightarrow> nat" where
  "info_end m info \<equiv> unat info + unat (mem_le m 4 (unat info) :: u32)"

lemma demo_info_end: "unat (mem_le demo_mem 4 256 :: u32) = 56"
  by (simp add: mem_le_def demo_mem_def demo_mbi_def upt_rec)

lemma pmm_init_inv:
  assumes "entry_sizes_ok m (unat info + 8) (info_end m info)"
  shows "\<exists>s. pmm_init m info kernel_end = Some s \<and> pmm_inv s \<and> {..<min 256 (total_frames s)} \<subseteq> used_set s"
proof -
  obtain tags where "walk_tags m (unat info + 8) (info_end m info) = Some tags"
    using walk_tags_returns assms by blast
  then have "pmm_init m info kernel_end \<noteq> None"
    by (simp only: pmm_init_def Let_def option.case option.distinct not_False_eq_True)
  then obtain s where s: "pmm_init m info kernel_end = Some s" by blast
  show ?thesis
  proof (rule pmm_init_state [OF s])
    fix t assume t: "total_frames s = total_frames t" "pmm_wf s" "0 \<in> used_set s" "hint_ok s"
      "{..<min 256 (total_frames t)} \<subseteq> used_set s"
    have "frame_used s 0" using t(3) by (simp add: used_set_def)
    then show ?thesis using s t by (simp add: pmm_inv_def)
  qed
qed

text \<open>
  C5. \<^verbatim>\<open>pmm_init\<close> returns exactly if every memory-map tag its walk over the boot information visits has a
  nonzero entry size or no entries: with an entry size of 0 its loop over the entries runs forever. Where it
  returns it has established the allocator's invariant: frame 0 and the whole first megabyte are reserved,
  the bits past the last frame are set and every word below the search hint is full.
\<close>
theorem pmm_init_establishes_inv:
  "if entry_sizes_ok m (unat info + 8) (info_end m info)
   then \<exists>s. pmm_init m info kernel_end = Some s \<and> pmm_inv s \<and> {..<min 256 (total_frames s)} \<subseteq> used_set s
   else pmm_init m info kernel_end = None"
proof (cases "entry_sizes_ok m (unat info + 8) (info_end m info)")
  case False
  then have "walk_tags m (unat info + 8) (info_end m info) = None"
    using walk_tags_returns [of m "unat info + 8" "info_end m info"] by auto
  then show ?thesis using False by (simp add: pmm_init_def Let_def)
next
  case True
  then show ?thesis using pmm_init_inv [OF True] by simp
qed

theorem pmm_init_establishes_inv_witness:
  "entry_sizes_ok demo_mem 264 312 \<and> (\<exists>s. pmm_init demo_mem 256 0x180000 = Some s \<and> pmm_inv s)"
  using pmm_init_establishes_inv [of demo_mem 256 "0x180000"] demo_entry_sizes_ok by (auto simp: demo_info_end)

text \<open>
  The free-frame counter after \<^verbatim>\<open>pmm_init\<close>: \<^verbatim>\<open>pmm_free_frames\<close> is one more than the number of
  free frames whenever the memory map calls frame 0 usable (as PC firmware does), because frame 0
  is reserved by \<^verbatim>\<open>frame_set(0)\<close>, which does not count it; otherwise it is exact. The other
  operations keep the distance (\<open>debt\<close>), so the counter stays off by one for good.
\<close>
theorem pmm_init_free_count:
  assumes init: "pmm_init m info kernel_end = Some s"
    and tags: "walk_tags m (unat info + 8) (unat info + unat (mem_le m 4 (unat info) :: u32)) = Some tags"
  shows "pmm_free_frames s = of_nat (card ({..<total_frames s} - used_set s))
     + (if \<exists>e \<in> set (concat tags). me_type e = 1 \<and> 0 \<in> usable_frames e (total_frames s) then 1 else 0)"
proof -
  from init obtain es t where t: "total_frames s = total_frames t"
    "used_set t = {..<total_frames t} - (\<Union>e \<in> {e \<in> set es. me_type e = 1}. usable_frames e (total_frames t))"
    "debt s = (if 0 \<in> used_set t then 0 else 1)" "pmm_wf t"
    "\<exists>tags. walk_tags m (unat info + 8) (unat info + unat (mem_le m 4 (unat info) :: u32)) = Some tags
            \<and> es = concat tags"
    by (rule pmm_init_state) blast
  have es: "es = concat tags" using t(5) tags by simp
  have "0 < total_frames t" using t(4) by (simp add: pmm_wf_def)
  then have "0 \<in> used_set t \<longleftrightarrow>
      \<not> (\<exists>e \<in> set (concat tags). me_type e = 1 \<and> 0 \<in> usable_frames e (total_frames s))"
    unfolding t(1,2) es by blast
  then have debt: "debt s = (if \<exists>e \<in> set (concat tags). me_type e = 1 \<and> 0 \<in> usable_frames e (total_frames s) then 1 else 0)"
    using t(3) by simp
  have sub: "used_set s \<subseteq> {..<total_frames s}" by (auto simp: used_set_def)
  then have "card ({..<total_frames s} - used_set s) = total_frames s - card (used_set s)"
    "card (used_set s) \<le> total_frames s"
    using card_mono [OF _ sub] by (simp_all add: card_Diff_subset)
  then show ?thesis unfolding debt [symmetric] by (simp add: pmm_free_frames_def debt_def)
qed

theorem pmm_init_free_count_witness:
  "\<exists>s. pmm_init demo_mem 256 0x180000 = Some s
     \<and> pmm_free_frames s = of_nat (card ({..<total_frames s} - used_set s)) + 1"
proof -
  obtain s where s: "pmm_init demo_mem 256 0x180000 = Some s" "pmm_inv s"
    using pmm_init_inv [of demo_mem 256 "0x180000"] demo_entry_sizes_ok demo_info_end by auto
  define e where "e = \<lparr>me_addr = 0, me_len = 0x200000, me_type = 1\<rparr>"
  have "walk_tags demo_mem 264 312 = Some [[e]]"
    by (simp add: walk_tags.simps mmap_entries.simps mem_le_def demo_mem_def demo_mbi_def upt_rec
        read_entry_def e_def Let_def)
  moreover have "(mem_le demo_mem 4 256 :: u32) = 56"
    by (simp add: mem_le_def demo_mem_def demo_mbi_def upt_rec)
  ultimately have "walk_tags demo_mem (unat (256::u64) + 8)
      (unat (256::u64) + unat (mem_le demo_mem 4 (unat (256::u64)) :: u32)) = Some [[e]]" by simp
  note count = pmm_init_free_count [OF s(1) this]
  have "0 < total_frames s" using s(2) by (simp add: pmm_inv_def pmm_wf_def)
  then have "\<exists>x \<in> set (concat [[e]]). me_type x = 1 \<and> 0 \<in> usable_frames x (total_frames s)"
    by (simp add: e_def ADDR_TO_FRAME_def)
  then show ?thesis using s(1) count by auto
qed

end
