(* ===== verification/Vmm.thy ===== *)
theory Vmm
  imports Pmm
begin

text \<open>
  The virtual memory manager, \<^verbatim>\<open>kernel/memory/vmm.c\<close>: 4-level x86-64 page tables in physical
  memory. A page-table cell is named by its physical address; whether the C code reaches it
  through the identity map or through the direct map (\<^verbatim>\<open>pt_ptr\<close>) changes the pointer, not the
  cell. The TLB (\<^verbatim>\<open>invlpg\<close>) is not modelled.
\<close>

section \<open>State\<close>

text \<open>An \<^verbatim>\<open>addr_space_t *\<close>: the static kernel space, or a descriptor page at an address.\<close>

datatype as_ptr = KernelAS | DescAS u64

record addr_space =
  pml4_phys :: u64
  mapped_pages :: u64

record vmm =
  vpmm :: pmm
  ptmem :: "u64 \<Rightarrow> u64"
  spaces :: "as_ptr \<Rightarrow> addr_space"
  hhdm_limit :: u64
  hhdm_ready :: bool
  cr3 :: u64
  cr4 :: u64

definition PTE_PRESENT :: u64 where "PTE_PRESENT = 0x1"
definition PTE_WRITE :: u64 where "PTE_WRITE = 0x2"
definition PTE_USER :: u64 where "PTE_USER = 0x4"
definition PTE_WRITE_THRU :: u64 where "PTE_WRITE_THRU = 0x8"
definition PTE_NO_CACHE :: u64 where "PTE_NO_CACHE = 0x10"
definition PTE_HUGE :: u64 where "PTE_HUGE = 0x80"
definition PTE_GLOBAL :: u64 where "PTE_GLOBAL = 0x100"
definition VMM_WC :: u64 where "VMM_WC = 0x800000000000000"
definition PTE_ADDR_MASK :: u64 where "PTE_ADDR_MASK = 0x000FFFFFFFFFF000"
definition PHYSICAL_BASE :: u64 where "PHYSICAL_BASE = 0xFFFF800000000000"
definition KERNEL_VMA :: u64 where "KERNEL_VMA = 0xFFFFFFFF80000000"
definition VMM_FLAGS_KERNEL_RW :: u64 where "VMM_FLAGS_KERNEL_RW = PTE_PRESENT OR PTE_WRITE OR PTE_GLOBAL"
definition VMM_FLAGS_USER_RW :: u64 where "VMM_FLAGS_USER_RW = PTE_PRESENT OR PTE_WRITE OR PTE_USER"

lemmas pte_flag_defs = PTE_PRESENT_def PTE_WRITE_def PTE_USER_def PTE_WRITE_THRU_def PTE_NO_CACHE_def
  PTE_HUGE_def PTE_GLOBAL_def VMM_WC_def PTE_ADDR_MASK_def PHYSICAL_BASE_def KERNEL_VMA_def
  VMM_FLAGS_KERNEL_RW_def VMM_FLAGS_USER_RW_def

definition PTE_FRAME :: "u64 \<Rightarrow> u64" where "PTE_FRAME e = e AND PTE_ADDR_MASK"
definition VA_PML4_IDX :: "u64 \<Rightarrow> u64" where "VA_PML4_IDX v = drop_bit 39 v AND 0x1FF"
definition VA_PDPT_IDX :: "u64 \<Rightarrow> u64" where "VA_PDPT_IDX v = drop_bit 30 v AND 0x1FF"
definition VA_PD_IDX :: "u64 \<Rightarrow> u64" where "VA_PD_IDX v = drop_bit 21 v AND 0x1FF"
definition VA_PT_IDX :: "u64 \<Rightarrow> u64" where "VA_PT_IDX v = drop_bit 12 v AND 0x1FF"
definition VA_OFFSET :: "u64 \<Rightarrow> u64" where "VA_OFFSET v = v AND 0xFFF"
definition PHYS_TO_VIRT :: "u64 \<Rightarrow> u64" where "PHYS_TO_VIRT p = p + PHYSICAL_BASE"
definition VIRT_TO_PHYS :: "u64 \<Rightarrow> u64" where "VIRT_TO_PHYS v = v - PHYSICAL_BASE"

definition is_present :: "u64 \<Rightarrow> bool" where "is_present e \<longleftrightarrow> e AND PTE_PRESENT \<noteq> 0"
definition is_huge :: "u64 \<Rightarrow> bool" where "is_huge e \<longleftrightarrow> e AND PTE_HUGE \<noteq> 0"

text \<open>The cell \<^verbatim>\<open>&table[idx]\<close>.\<close>

definition entry_addr :: "u64 \<Rightarrow> u64 \<Rightarrow> u64" where "entry_addr table idx = table + 8 * idx"

section \<open>Page-table walks\<close>

definition zero_table :: "u64 \<Rightarrow> (u64 \<Rightarrow> u64) \<Rightarrow> (u64 \<Rightarrow> u64)" where
  "zero_table p m = (\<lambda>a. if a - p < 4096 then 0 else m a)"

definition alloc_page_table :: "vmm \<Rightarrow> u64 \<times> vmm" where
  "alloc_page_table s =
     (let (phys, pm) = pmm_alloc (vpmm s)
      in if phys = 0 then (0, s\<lparr>vpmm := pm\<rparr>)
         else (phys, s\<lparr>vpmm := pm, ptmem := zero_table phys (ptmem s)\<rparr>))"

text \<open>One level of a walk at the cell \<open>ea\<close>: present, or (if \<open>alloc\<close>) a fresh table entered there.\<close>

definition descend :: "bool \<Rightarrow> u64 \<Rightarrow> vmm \<Rightarrow> bool \<times> vmm" where
  "descend alloc ea s =
     (if is_present (ptmem s ea) then (True, s)
      else if \<not> alloc then (False, s)
      else let (p, s') = alloc_page_table s
           in if p = 0 then (False, s')
              else (True, s'\<lparr>ptmem := (ptmem s')(ea := p OR PTE_PRESENT OR PTE_WRITE OR PTE_USER)\<rparr>))"

definition map_huge_page :: "as_ptr \<Rightarrow> u64 \<Rightarrow> u64 \<Rightarrow> u64 \<Rightarrow> vmm \<Rightarrow> int \<times> vmm" where
  "map_huge_page as virt phys flags0 s =
     (let flags = (if flags0 AND VMM_WC \<noteq> 0
                   then (flags0 AND NOT (VMM_WC OR PTE_NO_CACHE OR PTE_WRITE_THRU)) OR 0x1000 else flags0);
          e4 = entry_addr (pml4_phys (spaces s as)) (VA_PML4_IDX virt);
          (ok4, s4) = descend True e4 s
      in if \<not> ok4 then (-1, s4)
         else let e3 = entry_addr (PTE_FRAME (ptmem s4 e4)) (VA_PDPT_IDX virt);
                  (ok3, s3) = descend True e3 s4
              in if \<not> ok3 then (-1, s3)
                 else let e2 = entry_addr (PTE_FRAME (ptmem s3 e3)) (VA_PD_IDX virt)
                      in (0, s3\<lparr>ptmem := (ptmem s3)(e2 := (phys AND 0x000FFFFFFFE00000) OR flags
                                                            OR PTE_PRESENT OR PTE_HUGE)\<rparr>))"

definition get_pte :: "as_ptr \<Rightarrow> u64 \<Rightarrow> bool \<Rightarrow> vmm \<Rightarrow> u64 option \<times> vmm" where
  "get_pte as virt alloc s =
     (let e4 = entry_addr (pml4_phys (spaces s as)) (VA_PML4_IDX virt);
          (ok4, s4) = descend alloc e4 s
      in if \<not> ok4 then (None, s4)
         else let e3 = entry_addr (PTE_FRAME (ptmem s4 e4)) (VA_PDPT_IDX virt);
                  (ok3, s3) = descend alloc e3 s4
              in if \<not> ok3 then (None, s3)
                 else if is_huge (ptmem s3 e3) then (None, s3)
                 else let e2 = entry_addr (PTE_FRAME (ptmem s3 e3)) (VA_PD_IDX virt);
                          (ok2, s2) = descend alloc e2 s3
                      in if \<not> ok2 then (None, s2)
                         else if is_huge (ptmem s2 e2) then (None, s2)
                         else (Some (entry_addr (PTE_FRAME (ptmem s2 e2)) (VA_PT_IDX virt)), s2))"

section \<open>Mapping and translation\<close>

definition add_mapped :: "as_ptr \<Rightarrow> u64 \<Rightarrow> vmm \<Rightarrow> vmm" where
  "add_mapped as d s =
     s\<lparr>spaces := (spaces s)(as := (spaces s as)\<lparr>mapped_pages := mapped_pages (spaces s as) + d\<rparr>)\<rparr>"

definition vmm_map_page :: "as_ptr \<Rightarrow> u64 \<Rightarrow> u64 \<Rightarrow> u64 \<Rightarrow> vmm \<Rightarrow> int \<times> vmm" where
  "vmm_map_page as virt0 phys0 flags0 s =
     (let flags = (if flags0 AND VMM_WC \<noteq> 0
                   then (flags0 AND NOT (VMM_WC OR PTE_NO_CACHE OR PTE_WRITE_THRU)) OR 0x80 else flags0);
          virt = virt0 AND NOT 0xFFF;
          phys = phys0 AND NOT 0xFFF;
          (pte, s1) = get_pte as virt True s
      in case pte of
           None \<Rightarrow> (-1, s1)
         | Some ea \<Rightarrow>
             let s2 = (if \<not> is_present (ptmem s1 ea) \<and> flags AND PTE_GLOBAL = 0
                       then add_mapped as 1 s1 else s1)
             in (0, s2\<lparr>ptmem := (ptmem s2)(ea := (phys AND PTE_ADDR_MASK) OR flags OR PTE_PRESENT)\<rparr>))"

definition vmm_unmap_page :: "as_ptr \<Rightarrow> u64 \<Rightarrow> bool \<Rightarrow> vmm \<Rightarrow> vmm" where
  "vmm_unmap_page as virt0 free_phys s =
     (let virt = virt0 AND NOT 0xFFF; (pte, s1) = get_pte as virt False s
      in case pte of
           None \<Rightarrow> s1
         | Some ea \<Rightarrow>
             let e = ptmem s1 ea
             in if \<not> is_present e then s1
                else let s2 = (if free_phys then s1\<lparr>vpmm := pmm_free (PTE_FRAME e) (vpmm s1)\<rparr> else s1);
                         s3 = (if e AND PTE_GLOBAL = 0 \<and> mapped_pages (spaces s2 as) > 0
                               then add_mapped as (-1) s2 else s2)
                     in s3\<lparr>ptmem := (ptmem s3)(ea := 0)\<rparr>)"

definition vmm_map_range :: "as_ptr \<Rightarrow> u64 \<Rightarrow> u64 \<Rightarrow> u64 \<Rightarrow> u64 \<Rightarrow> vmm \<Rightarrow> int \<times> vmm" where
  "vmm_map_range as virt phys len flags s =
     (let pages = (len + 4096 - 1) div 4096
      in loop_ok (\<lambda>i. vmm_map_page as (virt + of_nat i * 4096) (phys + of_nat i * 4096) flags)
           [0..<unat pages] s)"

definition vmm_unmap_range :: "as_ptr \<Rightarrow> u64 \<Rightarrow> u64 \<Rightarrow> bool \<Rightarrow> vmm \<Rightarrow> vmm" where
  "vmm_unmap_range as virt len free_phys s =
     (let pages = (len + 4096 - 1) div 4096
      in fold (\<lambda>i. vmm_unmap_page as (virt + of_nat i * 4096) free_phys) [0..<unat pages] s)"

definition vmm_virt_to_phys :: "as_ptr \<Rightarrow> u64 \<Rightarrow> vmm \<Rightarrow> u64" where
  "vmm_virt_to_phys as virt s =
     (case fst (get_pte as virt False s) of
        None \<Rightarrow> 0
      | Some ea \<Rightarrow> if \<not> is_present (ptmem s ea) then 0 else PTE_FRAME (ptmem s ea) OR VA_OFFSET virt)"

definition vmm_page_writable :: "as_ptr \<Rightarrow> u64 \<Rightarrow> vmm \<Rightarrow> bool" where
  "vmm_page_writable as virt s =
     (if virt \<ge> 0x0000800000000000 then False
      else case fst (get_pte as (virt AND NOT 0xFFF) False s) of
             None \<Rightarrow> False
           | Some ea \<Rightarrow> if \<not> is_present (ptmem s ea) then False else ptmem s ea AND PTE_WRITE \<noteq> 0)"

definition vmm_switch_address_space :: "as_ptr \<Rightarrow> vmm \<Rightarrow> vmm" where
  "vmm_switch_address_space as s = s\<lparr>cr3 := pml4_phys (spaces s as)\<rparr>"

definition vmm_map_physical :: "u64 \<Rightarrow> u64 \<Rightarrow> u64 \<Rightarrow> vmm \<Rightarrow> u64 \<times> vmm" where
  "vmm_map_physical phys len flags s =
     (if phys = 0 \<or> len = 0 then (0, s)
      else let aligned = phys AND NOT 0xFFF; off = phys AND 0xFFF;
               stop = (phys + len + 4096 - 1) AND NOT 0xFFF
           in if stop < phys then (0, s)
              else if stop \<le> hhdm_limit s then (PHYS_TO_VIRT phys, s)
              else let (r, s') = loop_ok (\<lambda>i t.
                       let p = aligned + of_nat i * 4096; virt = PHYSICAL_BASE + p
                       in if vmm_virt_to_phys KernelAS virt t = p then (0, t)
                          else vmm_map_page KernelAS virt p (flags OR PTE_GLOBAL) t)
                       [0..<unat (stop - aligned) div 4096] s
                   in if r \<noteq> 0 then (0, s') else (PHYSICAL_BASE + aligned + off, s'))"

section \<open>Creating and destroying address spaces\<close>

text \<open>The descriptor page is not zeroed, so \<open>mapped_pages\<close> of the new space is whatever the
  page held: the field is not assigned.\<close>

definition vmm_create_address_space :: "vmm \<Rightarrow> as_ptr option \<times> vmm" where
  "vmm_create_address_space s =
     (let (desc, pm) = pmm_alloc (vpmm s); s1 = s\<lparr>vpmm := pm\<rparr>
      in if desc = 0 then (None, s1)
         else let (pml4, s2) = alloc_page_table s1
              in if pml4 = 0 then (None, s2\<lparr>vpmm := pmm_free desc (vpmm s2)\<rparr>)
                 else let as = DescAS (PHYS_TO_VIRT desc);
                          ker = pml4_phys (spaces s2 KernelAS);
                          copied = (\<lambda>a. let i = (a - pml4) div 8
                                     in if a - pml4 < 4096 \<and> (i = 0 \<or> 256 \<le> i)
                                        then ptmem s2 (entry_addr ker i) else ptmem s2 a)
                      in (Some as, s2\<lparr>spaces := (spaces s2)(as := (spaces s2 as)\<lparr>pml4_phys := pml4\<rparr>),
                                      ptmem := copied\<rparr>))"

definition free_pt_range :: "u64 \<Rightarrow> vmm \<Rightarrow> vmm" where
  "free_pt_range pd s =
     fold (\<lambda>i t. let ea = entry_addr pd (of_nat i); e = ptmem t ea
            in if \<not> is_present e then t
               else if is_huge e then t\<lparr>ptmem := (ptmem t)(ea := 0)\<rparr>
               else t\<lparr>vpmm := pmm_free (PTE_FRAME e) (vpmm t), ptmem := (ptmem t)(ea := 0)\<rparr>)
       [0..<512] s"

definition free_pdpt :: "u64 \<Rightarrow> vmm \<Rightarrow> vmm" where
  "free_pdpt pdpt s =
     fold (\<lambda>i t. let ea = entry_addr pdpt (of_nat i); e = ptmem t ea
            in if \<not> is_present e then t
               else if is_huge e then t\<lparr>ptmem := (ptmem t)(ea := 0)\<rparr>
               else let t1 = free_pt_range (PTE_FRAME e) t;
                        t2 = t1\<lparr>vpmm := pmm_free (PTE_FRAME (ptmem t1 ea)) (vpmm t1)\<rparr>
                    in t2\<lparr>ptmem := (ptmem t2)(ea := 0)\<rparr>)
       [0..<512] s"

definition vmm_destroy_address_space :: "as_ptr \<Rightarrow> vmm \<Rightarrow> vmm" where
  "vmm_destroy_address_space as s =
     (case as of
        KernelAS \<Rightarrow> s
      | DescAS v \<Rightarrow>
          let pml4 = pml4_phys (spaces s as);
              s1 = fold (\<lambda>i t. let ea = entry_addr pml4 (of_nat i); e = ptmem t ea
                     in if \<not> is_present e then t
                        else let t1 = free_pdpt (PTE_FRAME e) t;
                                 t2 = t1\<lparr>vpmm := pmm_free (PTE_FRAME (ptmem t1 ea)) (vpmm t1)\<rparr>
                             in t2\<lparr>ptmem := (ptmem t2)(ea := 0)\<rparr>)
                     [0..<256] s
          in s1\<lparr>vpmm := pmm_free (VIRT_TO_PHYS v) (pmm_free pml4 (vpmm s1))\<rparr>)"

section \<open>Initialisation\<close>

abbreviation round_2m :: "u64 \<Rightarrow> u64" where
  "round_2m v \<equiv> (v + 0x200000 - 1) AND NOT (0x200000 - 1)"

text \<open>The offsets \<open>lo, lo + step, \<dots>\<close> below \<open>hi\<close>, the iterations of the mapping loops.\<close>

definition offsets :: "u64 \<Rightarrow> u64 \<Rightarrow> u64 \<Rightarrow> u64 list" where
  "offsets lo hi step = (if lo < hi then map (\<lambda>i. lo + of_nat i * step)
                           [0..<(unat (hi - lo) + unat step - 1) div unat step] else [])"

definition vmm_init :: "u64 \<Rightarrow> u64 \<Rightarrow> bool \<Rightarrow> u64 \<Rightarrow> vmm \<Rightarrow> int \<times> vmm" where
  "vmm_init fb_phys fb_size pat_wc kernel_end s =
     (let (pml4, s1) = alloc_page_table (s\<lparr>hhdm_ready := False\<rparr>)
      in if pml4 = 0 then (-1, s1)
         else let s2 = s1\<lparr>spaces := (spaces s1)(KernelAS := (spaces s1 KernelAS)\<lparr>pml4_phys := pml4\<rparr>)\<rparr>;
                  total_phys = round_2m (pmm_total_frames (vpmm s2) * 4096);
                  id_limit = round_2m (if total_phys > 0x20000000 then 0x20000000 else total_phys);
                  s3 = s2\<lparr>hhdm_limit := total_phys\<rparr>;
                  (r4, s4) = loop_ok (\<lambda>off. map_huge_page KernelAS off off (PTE_WRITE OR PTE_GLOBAL))
                               (offsets 0 id_limit 0x200000) s3
              in if r4 \<noteq> 0 then (-1, s4)
                 else let (r5, s5) = loop_ok (\<lambda>off. map_huge_page KernelAS (PHYSICAL_BASE + off) off
                                         (PTE_WRITE OR PTE_GLOBAL)) (offsets 0 total_phys 0x200000) s4
                 in if r5 \<noteq> 0 then (-1, s5)
                 else let fb_start = fb_phys AND NOT (0x200000 - 1);
                          fb_end = round_2m (fb_phys + fb_size);
                          fb_flags = (if pat_wc then PTE_WRITE OR PTE_GLOBAL OR VMM_WC
                                      else PTE_WRITE OR PTE_GLOBAL OR PTE_NO_CACHE OR PTE_WRITE_THRU);
                          (r6, s6) = (if fb_phys \<noteq> 0 \<and> fb_size \<noteq> 0
                             then loop_ok (\<lambda>off t. if off < hhdm_limit t then (0, t)
                                    else map_huge_page KernelAS (PHYSICAL_BASE + off) off fb_flags t)
                                    (offsets fb_start fb_end 0x200000) s5
                             else (0, s5))
                 in if r6 \<noteq> 0 then (-1, s6)
                 else let kstart = 0x100000; ksize = kernel_end - kstart;
                          (r7, s7) = loop_ok (\<lambda>off. vmm_map_page KernelAS (KERNEL_VMA + off) (kstart + off)
                                         VMM_FLAGS_KERNEL_RW) (offsets 0 (ksize + 4096) 4096) s6
                 in if r7 \<noteq> 0 then (-1, s7)
                 else (0, (vmm_switch_address_space KernelAS
                             (s7\<lparr>cr4 := cr4 s7 OR 0x10 OR 0x80\<rparr>))\<lparr>hhdm_ready := True\<rparr>))"

section \<open>The table tree\<close>

text \<open>
  \<open>tbl m r p\<close> is the table that the walk from the root table \<open>r\<close> reaches along the indices \<open>p\<close>
  (at most three: PML4, PDPT, PD), if every entry on the way is present and not a huge page.
  \<open>leaf\<close> is the entry a whole walk ends in, 0 where there is none.
\<close>

definition tstep :: "(u64 \<Rightarrow> u64) \<Rightarrow> u64 \<Rightarrow> u64 \<Rightarrow> u64 option" where
  "tstep m a i = (let e = m (entry_addr a i)
     in if is_present e \<and> \<not> is_huge e then Some (PTE_FRAME e) else None)"

definition tbl :: "(u64 \<Rightarrow> u64) \<Rightarrow> u64 \<Rightarrow> u64 list \<Rightarrow> u64 option" where
  "tbl m r p = foldl (\<lambda>t i. Option.bind t (\<lambda>a. tstep m a i)) (Some r) p"

definition leaf :: "(u64 \<Rightarrow> u64) \<Rightarrow> u64 \<Rightarrow> u64 list \<Rightarrow> u64 \<Rightarrow> u64" where
  "leaf m r p i = (case tbl m r p of None \<Rightarrow> 0 | Some a \<Rightarrow> m (entry_addr a i))"

definition va_path :: "u64 \<Rightarrow> u64 list" where
  "va_path v = [VA_PML4_IDX v, VA_PDPT_IDX v, VA_PD_IDX v]"

abbreviation idx_ok :: "u64 list \<Rightarrow> bool" where
  "idx_ok p \<equiv> \<forall>i \<in> set p. i < 512"

text \<open>
  The tables of a space form a tree of distinct frames in use, and no PML4 entry has the
  huge-page bit (which the walk does not test at that level).
\<close>

definition tree_ok :: "(u64 \<Rightarrow> u64) \<Rightarrow> u64 \<Rightarrow> u64 set \<Rightarrow> bool" where
  "tree_ok m r used \<longleftrightarrow>
     (\<forall>i < 512. \<not> is_huge (m (entry_addr r i)))
     \<and> (\<forall>p a. idx_ok p \<and> length p \<le> 3 \<and> tbl m r p = Some a \<longrightarrow> a \<in> used)
     \<and> (\<forall>p q a. idx_ok p \<and> idx_ok q \<and> length p \<le> 3 \<and> length q \<le> 3
          \<and> tbl m r p = Some a \<and> tbl m r q = Some a \<longrightarrow> p = q)"

text \<open>Physical memory within the architecture's 52 bits, the allocator's invariant and the tree.\<close>

definition vmm_inv :: "as_ptr \<Rightarrow> vmm \<Rightarrow> bool" where
  "vmm_inv as s \<longleftrightarrow> pmm_inv (vpmm s) \<and> total_frames (vpmm s) \<le> 2 ^ 40
     \<and> tree_ok (ptmem s) (pml4_phys (spaces s as)) (owned_addrs (vpmm s))"

lemma tbl_Nil [simp]: "tbl m r [] = Some r"
  by (simp add: tbl_def)

lemma tbl_snoc: "tbl m r (p @ [i]) = Option.bind (tbl m r p) (\<lambda>a. tstep m a i)"
  by (simp add: tbl_def)

lemma tbl_prefix_None: "tbl m r p = None \<Longrightarrow> tbl m r (p @ q) = None"
  by (induction q rule: rev_induct) (simp_all add: tbl_snoc flip: append_assoc)

lemma va_idx_less [simp]:
  "VA_PML4_IDX v < 512" "VA_PDPT_IDX v < 512" "VA_PD_IDX v < 512" "VA_PT_IDX v < 512"
proof -
  have "w AND 0x1FF < 512" for w :: u64
    using word_and_le1 [of w "0x1FF"] by (rule order_le_less_trans) simp
  then show "VA_PML4_IDX v < 512" "VA_PDPT_IDX v < 512" "VA_PD_IDX v < 512" "VA_PT_IDX v < 512"
    by (simp_all add: VA_PML4_IDX_def VA_PDPT_IDX_def VA_PD_IDX_def VA_PT_IDX_def)
qed

lemma va_path_ok [simp]: "idx_ok (va_path v)" "length (va_path v) = 3"
  by (simp_all add: va_path_def)

section \<open>Cells of distinct tables\<close>

lemma unat_entry_addr:
  assumes "f < 2 ^ 40" "i < 512"
  shows "unat (entry_addr (FRAME_TO_ADDR f) i) = f * 4096 + 8 * unat i"
proof -
  have i: "unat i < 512" using assms(2) by (simp add: word_less_nat_alt)
  have f: "unat (FRAME_TO_ADDR f) = f * 4096" using assms(1) by (intro unat_FRAME_TO_ADDR) simp
  have "unat (8 * i) = 8 * unat i" using i by (simp add: unat_word_ariths)
  then show ?thesis using f i assms(1) by (simp add: entry_addr_def unat_word_ariths)
qed

lemma entry_addr_inj:
  assumes "f < 2 ^ 40" "g < 2 ^ 40" "i < 512" "j < 512"
  shows "entry_addr (FRAME_TO_ADDR f) i = entry_addr (FRAME_TO_ADDR g) j \<longleftrightarrow> f = g \<and> i = j"
proof
  assume "entry_addr (FRAME_TO_ADDR f) i = entry_addr (FRAME_TO_ADDR g) j"
  then have eq: "f * 4096 + 8 * unat i = g * 4096 + 8 * unat j"
    using assms by (metis unat_entry_addr)
  have b: "unat i < 512" "unat j < 512" using assms(3,4) by (simp_all add: word_less_nat_alt)
  have "f = (f * 4096 + 8 * unat i) div 4096" "g = (g * 4096 + 8 * unat j) div 4096"
    using b by simp_all
  then have "f = g" using eq by metis
  then show "f = g \<and> i = j" using eq by (simp add: word_unat_eq_iff)
qed simp

lemma entry_in_page:
  assumes "f < 2 ^ 40" "g < 2 ^ 40" "i < 512"
  shows "entry_addr (FRAME_TO_ADDR f) i - FRAME_TO_ADDR g < 4096 \<longleftrightarrow> f = g"
proof -
  have i: "unat i < 512" using assms(3) by (simp add: word_less_nat_alt)
  have g: "unat (FRAME_TO_ADDR g) = g * 4096" using assms(2) by (intro unat_FRAME_TO_ADDR) simp
  note e = unat_entry_addr [OF assms(1,3)]
  show ?thesis
  proof (cases "g \<le> f")
    case True
    then have "FRAME_TO_ADDR g \<le> entry_addr (FRAME_TO_ADDR f) i"
      using e g by (simp add: word_le_nat_alt)
    then have "unat (entry_addr (FRAME_TO_ADDR f) i - FRAME_TO_ADDR g) = f * 4096 + 8 * unat i - g * 4096"
      using e g by (simp add: unat_sub)
    then show ?thesis using i True by (simp add: word_less_nat_alt) arith
  next
    case False
    then have "entry_addr (FRAME_TO_ADDR f) i < FRAME_TO_ADDR g"
      using e g i by (simp add: word_less_nat_alt)
    then have "unat (entry_addr (FRAME_TO_ADDR f) i - FRAME_TO_ADDR g)
        = 2 ^ 64 + (f * 4096 + 8 * unat i) - g * 4096"
      using e g by (simp add: unat_sub_if_size word_size word_less_nat_alt)
    then show ?thesis using False assms(2) by (simp add: word_less_nat_alt)
  qed
qed

lemma owned_frame:
  assumes "pmm_inv pm" "total_frames pm \<le> 2 ^ 40" "a \<in> owned_addrs pm"
  obtains f where "a = FRAME_TO_ADDR f" "f < 2 ^ 40"
  using assms by (auto simp: owned_addrs_def used_set_def)

section \<open>Entry bits\<close>

lemma bit_addr_mask: "bit PTE_ADDR_MASK n \<longleftrightarrow> 12 \<le> n \<and> n < 52"
proof -
  have eq: "PTE_ADDR_MASK = push_bit 12 (mask 40)" by (simp add: PTE_ADDR_MASK_def mask_eq_exp_minus_1)
  show ?thesis unfolding eq by (auto simp: bit_simps)
qed

lemma bit_frame_addr: "f < 2 ^ 40 \<Longrightarrow> bit (FRAME_TO_ADDR f) n \<Longrightarrow> 12 \<le> n \<and> n < 52"
proof -
  assume f: "f < 2 ^ 40" and b: "bit (FRAME_TO_ADDR f) n"
  have "take_bit 40 f = f" using f by (simp add: take_bit_nat_eq_self_iff)
  moreover have n: "12 \<le> n" "n < 64" "bit f (n - 12)"
    using b by (auto simp: FRAME_TO_ADDR_def bit_simps)
  ultimately have "bit (take_bit 40 f) (n - 12)" by simp
  then have "n - 12 < 40" by (simp add: bit_take_bit_iff)
  then show ?thesis using n(1) by simp
qed

lemma is_present_iff: "is_present e \<longleftrightarrow> bit e 0"
  using and_push_bit_1_iff [of e 0] by (simp add: is_present_def PTE_PRESENT_def)

lemma is_huge_iff: "is_huge e \<longleftrightarrow> bit e 7"
  using and_push_bit_1_iff [of e 7] by (simp add: is_huge_def PTE_HUGE_def)

lemma small_flags_bits: "bit (PTE_PRESENT OR (PTE_WRITE OR PTE_USER)) n \<longleftrightarrow> n < 3"
proof -
  have "PTE_PRESENT OR (PTE_WRITE OR PTE_USER) = mask 3"
    by (simp add: pte_flag_defs mask_eq_exp_minus_1)
  then show ?thesis by (simp only: bit_mask_iff) auto
qed

lemma table_entry:
  assumes "f < 2 ^ 40"
  defines "e \<equiv> FRAME_TO_ADDR f OR PTE_PRESENT OR PTE_WRITE OR PTE_USER"
  shows "is_present e" "\<not> is_huge e" "PTE_FRAME e = FRAME_TO_ADDR f"
proof -
  have bit_e: "bit e n \<longleftrightarrow> bit (FRAME_TO_ADDR f) n \<or> n < 3" for n
    unfolding e_def or.assoc by (subst bit_or_iff) (simp only: small_flags_bits)
  show "is_present e" "\<not> is_huge e"
    using bit_frame_addr [OF assms(1), of 7] by (auto simp: is_present_iff is_huge_iff bit_e)
  show "PTE_FRAME e = FRAME_TO_ADDR f"
    using bit_frame_addr [OF assms(1)]
    by (intro bit_word_eqI) (auto simp: PTE_FRAME_def bit_and_iff bit_e bit_addr_mask)
qed

lemma not_present_0 [simp]: "\<not> is_present 0"
  by (simp add: is_present_def)

section \<open>Descending one level\<close>

text \<open>Writing cells outside the tables on the way to \<open>p\<close> does not move the table at \<open>p\<close>.\<close>

lemma tbl_cong:
  assumes "\<And>p a i. length p < n \<Longrightarrow> idx_ok p \<Longrightarrow> i < 512 \<Longrightarrow> tbl m r p = Some a \<Longrightarrow>
             m' (entry_addr a i) = m (entry_addr a i)"
    and "idx_ok q" "length q \<le> n"
  shows "tbl m' r q = tbl m r q"
  using assms(2,3)
proof (induction q rule: rev_induct)
  case (snoc i q)
  then have IH: "tbl m' r q = tbl m r q" by simp
  show ?case
  proof (cases "tbl m r q")
    case None
    then show ?thesis by (simp add: tbl_snoc IH)
  next
    case (Some a)
    then have "m' (entry_addr a i) = m (entry_addr a i)"
      using assms(1) [of q i a] snoc.prems by simp
    then show ?thesis by (simp add: tbl_snoc IH Some tstep_def)
  qed
qed simp

text \<open>
  The state after a table at frame \<open>g\<close> was entered at index \<open>i\<close> of the table at path \<open>p\<close>:
  the walks to existing tables are unchanged, the new table is empty.
\<close>

lemma new_table_walk:
  assumes tree: "tree_ok m (FRAME_TO_ADDR fr) (FRAME_TO_ADDR ` F)" and F: "\<forall>f \<in> F. f < 2 ^ 40"
    and g: "g \<notin> F" "g < 2 ^ 40" and p: "idx_ok p" "length p < 3" "tbl m (FRAME_TO_ADDR fr) p = Some a"
    and i: "i < 512" and np: "\<not> is_present (m (entry_addr a i))"
  defines "m' \<equiv> (zero_table (FRAME_TO_ADDR g) m)
     (entry_addr a i := FRAME_TO_ADDR g OR PTE_PRESENT OR PTE_WRITE OR PTE_USER)"
  shows "\<And>q. idx_ok q \<Longrightarrow> length q \<le> 3 \<Longrightarrow> tbl m' (FRAME_TO_ADDR fr) q =
      (if q = p @ [i] then Some (FRAME_TO_ADDR g) else tbl m (FRAME_TO_ADDR fr) q)"
    and "\<And>b j. b \<in> FRAME_TO_ADDR ` F \<Longrightarrow> j < 512 \<Longrightarrow> (b, j) \<noteq> (a, i) \<Longrightarrow>
      m' (entry_addr b j) = m (entry_addr b j)"
    and "\<And>j. j < 512 \<Longrightarrow> m' (entry_addr (FRAME_TO_ADDR g) j) = 0"
proof -
  let ?r = "FRAME_TO_ADDR fr" and ?g = "FRAME_TO_ADDR g"
  note in_used = tree [unfolded tree_ok_def, THEN conjunct2, THEN conjunct1, rule_format]
  note unique = tree [unfolded tree_ok_def, THEN conjunct2, THEN conjunct2, rule_format]
  have "a \<in> FRAME_TO_ADDR ` F" by (rule in_used [of p]) (use p in auto)
  then obtain fa where fa: "a = FRAME_TO_ADDR fa" "fa \<in> F" "fa < 2 ^ 40" using F by blast
  have ne: "fa \<noteq> g" using fa(2) g(1) by auto
  show frame: "m' (entry_addr b j) = m (entry_addr b j)"
    if b: "b \<in> FRAME_TO_ADDR ` F" "j < 512" "(b, j) \<noteq> (a, i)" for b j
  proof -
    from b(1) obtain fb where fb: "b = FRAME_TO_ADDR fb" "fb \<in> F" "fb < 2 ^ 40" using F by blast
    then have "fb \<noteq> g" using g(1) by auto
    then have "zero_table ?g m (entry_addr b j) = m (entry_addr b j)"
      using entry_in_page [of fb g j] b(2) fb g(2) by (simp add: zero_table_def)
    moreover have "entry_addr b j \<noteq> entry_addr a i"
      using entry_addr_inj [of fb fa j i] fb fa b(2,3) i by auto
    ultimately show ?thesis by (simp add: m'_def)
  qed
  show zero: "m' (entry_addr ?g j) = 0" if j: "j < 512" for j
    using entry_in_page [of g g j] entry_addr_inj [of g fa j i] fa g(2) ne j i
    by (simp add: m'_def zero_table_def)
  note te = table_entry [OF g(2)]
  have new: "tstep m' a i = Some ?g"
    using te by (simp add: tstep_def Let_def m'_def)
  have old_cell: "tbl m ?r (p @ [i]) = None"
    using p(3) np by (simp add: tbl_snoc tstep_def Let_def)
  show "tbl m' ?r q = (if q = p @ [i] then Some ?g else tbl m ?r q)"
    if "idx_ok q" "length q \<le> 3" for q
    using that
  proof (induction q rule: rev_induct)
    case (snoc j q)
    then have IH: "tbl m' ?r q = (if q = p @ [i] then Some ?g else tbl m ?r q)" and q: "idx_ok q" "j < 512"
      by auto
    show ?case
    proof (cases "q = p @ [i]")
      case True
      then have "tbl m' ?r q = Some ?g" using IH by simp
      then have "tbl m' ?r (q @ [j]) = None"
        using zero [OF q(2)] by (simp only: tbl_snoc) (simp add: tstep_def)
      moreover have "tbl m ?r (q @ [j]) = None"
        unfolding True by (rule tbl_prefix_None [OF old_cell])
      ultimately show ?thesis using True by simp
    next
      case False
      then have IH': "tbl m' ?r q = tbl m ?r q" using IH by simp
      show ?thesis
      proof (cases "tbl m ?r q")
        case None
        have "q \<noteq> p" using None p(3) by auto
        then show ?thesis using IH' None by (simp add: tbl_snoc)
      next
        case (Some b)
        have b: "b \<in> FRAME_TO_ADDR ` F" using in_used [of q b] Some q(1) snoc.prems by auto
        show ?thesis
        proof (cases "(b, j) = (a, i)")
          case True
          have "q = p" using unique [of q p a] True Some p q(1) snoc.prems by auto
          then show ?thesis using True IH' Some new by (simp add: tbl_snoc)
        next
          case other: False
          have "q @ [j] \<noteq> p @ [i]" using other Some p(3) by auto
          then show ?thesis
            using IH' Some frame [OF b q(2) other] by (auto simp: tbl_snoc tstep_def)
        qed
      qed
    qed
  qed simp
qed

lemma vmm_inv_D:
  assumes "vmm_inv as s"
  shows "pmm_inv (vpmm s)" "total_frames (vpmm s) \<le> 2 ^ 40"
    "tree_ok (ptmem s) (pml4_phys (spaces s as)) (owned_addrs (vpmm s))"
    "\<And>f. f \<in> used_set (vpmm s) \<Longrightarrow> f < 2 ^ 40"
  using assms by (auto simp: vmm_inv_def used_set_def)

text \<open>The tables of a space, and what a walk with allocation may do: own more frames and enter
  frames that were free as tables.\<close>

definition tables :: "as_ptr \<Rightarrow> vmm \<Rightarrow> u64 set" where
  "tables as s = {c. \<exists>q. idx_ok q \<and> length q \<le> 3 \<and> tbl (ptmem s) (pml4_phys (spaces s as)) q = Some c}"

definition grown :: "as_ptr \<Rightarrow> vmm \<Rightarrow> vmm \<Rightarrow> bool" where
  "grown as s s' \<longleftrightarrow> owned_addrs (vpmm s) \<subseteq> owned_addrs (vpmm s')
     \<and> tables as s' \<subseteq> tables as s \<union> - owned_addrs (vpmm s)"

lemma grown_refl [simp]: "grown as s s"
  by (simp add: grown_def)

lemma grown_trans: "grown as s t \<Longrightarrow> grown as t u \<Longrightarrow> grown as s u"
  by (auto simp: grown_def)

lemma tables_owned: "vmm_inv as s \<Longrightarrow> tables as s \<subseteq> owned_addrs (vpmm s)"
  unfolding vmm_inv_def tree_ok_def tables_def by blast

lemma tree_root_used: "tree_ok m r used \<Longrightarrow> r \<in> used"
  unfolding tree_ok_def by (metis empty_iff list.set(1) list.size(3) tbl_Nil zero_le)

text \<open>What the allocation of a table does to the state.\<close>

lemma alloc_page_table_cases:
  assumes inv: "vmm_inv as s" and eq: "alloc_page_table s = (p, s')"
  obtains (fail) "p = 0" "s' = s"
  | (ok) g where "p = FRAME_TO_ADDR g" "p \<noteq> 0" "g \<notin> used_set (vpmm s)" "g < 2 ^ 40"
      "s' = s\<lparr>vpmm := snd (pmm_alloc (vpmm s)), ptmem := zero_table p (ptmem s)\<rparr>"
      "pmm_inv (vpmm s')" "total_frames (vpmm s') = total_frames (vpmm s)"
      "used_set (vpmm s') = insert g (used_set (vpmm s))"
proof (cases "p = 0")
  case True
  obtain pm where pm: "pmm_alloc (vpmm s) = (0, pm)" "s' = s\<lparr>vpmm := pm\<rparr>"
    using eq True by (auto simp: alloc_page_table_def split: prod.splits if_splits)
  then have "pm = vpmm s" using pmm_frames.alloc_fail vmm_inv_D(1) [OF inv] by blast
  then show ?thesis using True pm(2) fail by simp
next
  case False
  note I = vmm_inv_D [OF inv]
  have s': "p = fst (pmm_alloc (vpmm s))"
    "s' = s\<lparr>vpmm := snd (pmm_alloc (vpmm s)), ptmem := zero_table p (ptmem s)\<rparr>"
    using eq False by (auto simp: alloc_page_table_def split: prod.splits if_splits)
  have "used_set (vpmm s) \<noteq> {..<total_frames (vpmm s)}"
    using pmm_alloc_None [OF I(1)] s'(1) False by force
  with I(1) obtain g where g: "g < total_frames (vpmm s)" "g \<notin> used_set (vpmm s)"
    "pmm_alloc (vpmm s) = (FRAME_TO_ADDR g, (take_frame g (vpmm s))\<lparr>next_free := g + 1\<rparr>)"
    by (rule pmm_alloc_Some) blast
  have wf: "pmm_wf (vpmm s)" using I(1) by (simp add: pmm_inv_def)
  show ?thesis
  proof (rule ok [of g])
    show "pmm_inv (vpmm s')" using pmm_alloc_inv [OF I(1)] s'(2) by simp
    show "g < 2 ^ 40" using g(1) I(2) by simp
  qed (use g s' wf False in \<open>simp_all add: take_frame_used_set\<close>)
qed

lemma descend_spec:
  assumes inv: "vmm_inv as s" and p: "idx_ok p" "length p < 3" "tbl (ptmem s) (pml4_phys (spaces s as)) p = Some a"
    and i: "i < 512" and eq: "descend al (entry_addr a i) s = (b, s')"
  shows "vmm_inv as s'" "spaces s' = spaces s"
    "\<And>q j. idx_ok q \<Longrightarrow> length q = 3 \<Longrightarrow> j < 512 \<Longrightarrow>
       leaf (ptmem s') (pml4_phys (spaces s as)) q j = leaf (ptmem s) (pml4_phys (spaces s as)) q j"
    "b \<Longrightarrow> is_present (ptmem s' (entry_addr a i)) \<and> tbl (ptmem s') (pml4_phys (spaces s as)) p = Some a"
    "\<not> al \<Longrightarrow> s' = s"
    "\<not> b \<Longrightarrow> \<not> is_present (ptmem s (entry_addr a i))"
    "grown as s s'"
proof -
  let ?r = "pml4_phys (spaces s as)" and ?ea = "entry_addr a i"
  note I = vmm_inv_D [OF inv]
  have *: "vmm_inv as s' \<and> spaces s' = spaces s
      \<and> (\<forall>q j. idx_ok q \<and> length q = 3 \<and> j < 512 \<longrightarrow> leaf (ptmem s') ?r q j = leaf (ptmem s) ?r q j)
      \<and> (b \<longrightarrow> is_present (ptmem s' ?ea) \<and> tbl (ptmem s') ?r p = Some a) \<and> (\<not> al \<longrightarrow> s' = s) \<and> grown as s s'"
  proof (cases "is_present (ptmem s ?ea) \<or> \<not> al")
    case True
    then have "s' = s \<and> (b \<longrightarrow> is_present (ptmem s ?ea))"
      using eq by (auto simp: descend_def split: if_splits)
    then show ?thesis using inv p by auto
  next
    case False
    obtain t s1 where t: "alloc_page_table s = (t, s1)" by force
    from inv t show ?thesis
    proof (cases rule: alloc_page_table_cases)
      case fail
      then have "s' = s \<and> \<not> b" using eq t False by (auto simp: descend_def)
      then show ?thesis using inv False by simp
    next
      case (ok g)
      let ?m' = "(zero_table t (ptmem s))(?ea := t OR PTE_PRESENT OR PTE_WRITE OR PTE_USER)"
      have s': "b" "s' = s1\<lparr>ptmem := ?m'\<rparr>" using eq t False ok(2,5) by (auto simp: descend_def)
      have tree: "tree_ok (ptmem s) ?r (FRAME_TO_ADDR ` used_set (vpmm s))"
        using I(3) by (simp add: owned_addrs_def)
      obtain fr where fr: "?r = FRAME_TO_ADDR fr" "fr \<in> used_set (vpmm s)"
        using tree_root_used [OF tree] by auto
      have F: "\<forall>f \<in> used_set (vpmm s). f < 2 ^ 40" using I(4) by blast
      note nt = new_table_walk [OF tree [unfolded fr(1)] F ok(3,4) p(1,2) p(3) [unfolded fr(1)] i,
          folded fr(1) ok(1)]
      have np: "\<not> is_present (ptmem s ?ea)" using False by simp
      note walk = nt(1) [OF np] and cell = nt(2) [OF np] and zero = nt(3) [OF np]
      note in_used = tree [unfolded tree_ok_def, THEN conjunct2, THEN conjunct1, rule_format]
      note unique = tree [unfolded tree_ok_def, THEN conjunct2, THEN conjunct2, rule_format]
      have fresh: "t \<notin> FRAME_TO_ADDR ` used_set (vpmm s)"
      proof
        assume "t \<in> FRAME_TO_ADDR ` used_set (vpmm s)"
        then obtain f where "f \<in> used_set (vpmm s)" "FRAME_TO_ADDR f = FRAME_TO_ADDR g" using ok(1) by auto
        moreover have "f < 2 ^ 52" using I(4) [OF calculation(1)] by simp
        moreover have "g < 2 ^ 52" using ok(4) by simp
        ultimately show False using ok(3) FRAME_TO_ADDR_inj by blast
      qed
      have huge: "\<not> is_huge (?m' (entry_addr ?r j))" if "j < 512" for j
      proof (cases "(?r, j) = (a, i)")
        case True
        then show ?thesis using table_entry(2) [OF ok(4)] ok(1) by simp
      next
        case other: False
        then show ?thesis
          using cell [of ?r j] that fr I(3) by (auto simp: tree_ok_def)
      qed
      have old_path: "q \<noteq> p @ [i]" if "tbl (ptmem s) ?r q = Some c" for q c
        using that p(3) np by (auto simp: tbl_snoc tstep_def Let_def)
      have tree': "tree_ok ?m' ?r (insert t (FRAME_TO_ADDR ` used_set (vpmm s)))"
        unfolding tree_ok_def
      proof (intro conjI allI impI)
        fix q c assume "idx_ok q \<and> length q \<le> 3 \<and> tbl ?m' ?r q = Some c"
        then show "c \<in> insert t (FRAME_TO_ADDR ` used_set (vpmm s))"
          using walk [of q] in_used [of q c] by (auto split: if_splits)
      next
        fix q q' c assume h: "idx_ok q \<and> idx_ok q' \<and> length q \<le> 3 \<and> length q' \<le> 3
            \<and> tbl ?m' ?r q = Some c \<and> tbl ?m' ?r q' = Some c"
        have other: "x \<noteq> p @ [i] \<Longrightarrow> idx_ok x \<Longrightarrow> length x \<le> 3 \<Longrightarrow> tbl ?m' ?r x = Some c \<Longrightarrow>
            tbl (ptmem s) ?r x = Some c \<and> c \<noteq> t" for x
          using walk [of x] in_used [of x c] fresh by auto
        have new: "x = p @ [i] \<Longrightarrow> idx_ok x \<Longrightarrow> length x \<le> 3 \<Longrightarrow> tbl ?m' ?r x = Some c \<Longrightarrow> c = t" for x
          using walk [of x] by simp
        show "q = q'"
        proof (cases "q = p @ [i] \<or> q' = p @ [i]")
          case True
          then show ?thesis using h new [of q] new [of q'] other [of q] other [of q'] by metis
        next
          case False
          then have "tbl (ptmem s) ?r q = Some c" "tbl (ptmem s) ?r q' = Some c"
            using h other [of q] other [of q'] by simp_all
          then show ?thesis using h by (intro unique [of q q' c]) simp
        qed
      qed (rule huge)
      have lf: "leaf ?m' ?r q j = leaf (ptmem s) ?r q j" if q: "idx_ok q" "length q = 3" "j < 512" for q j
      proof (cases "q = p @ [i]")
        case True
        have "tbl (ptmem s) ?r q = None" using old_path True by (cases "tbl (ptmem s) ?r q") auto
        then show ?thesis using walk [of q] zero [of j] q True by (simp add: leaf_def)
      next
        case False
        show ?thesis
        proof (cases "tbl (ptmem s) ?r q")
          case None
          then show ?thesis using walk [of q] q False by (simp add: leaf_def)
        next
          case (Some c)
          have "c \<noteq> a" using unique [of q p c] Some p q by auto
          moreover have "c \<in> FRAME_TO_ADDR ` used_set (vpmm s)" by (rule in_used [of q]) (use q Some in auto)
          ultimately show ?thesis
            using walk [of q] q False Some cell [of c j] by (simp add: leaf_def)
        qed
      qed
      have "p \<noteq> p @ [i]" by simp
      then have "tbl ?m' ?r p = Some a" using walk [of p] p by simp
      moreover have "is_present (?m' ?ea)" using table_entry(1) [OF ok(4)] ok(1) by simp
      moreover have "vmm_inv as s'"
        using ok I(2) tree' s' by (simp add: vmm_inv_def owned_addrs_def)
      moreover have "grown as s s'"
      proof -
        have "tables as s' \<subseteq> insert t (tables as s)"
        proof
          fix c assume "c \<in> tables as s'"
          then obtain q where q: "idx_ok q" "length q \<le> 3" "tbl ?m' ?r q = Some c"
            using s' ok(5) by (auto simp: tables_def)
          then show "c \<in> insert t (tables as s)"
            using walk [of q] by (auto simp: tables_def split: if_splits)
        qed
        moreover have "owned_addrs (vpmm s') = insert t (owned_addrs (vpmm s))"
          using ok(1,8) s'(2) by (simp add: owned_addrs_def)
        ultimately show ?thesis using fresh unfolding grown_def owned_addrs_def by blast
      qed
      ultimately show ?thesis using lf s' ok(5) False by simp
    qed
  qed
  then show "vmm_inv as s'" "spaces s' = spaces s"
    "\<And>q j. idx_ok q \<Longrightarrow> length q = 3 \<Longrightarrow> j < 512 \<Longrightarrow> leaf (ptmem s') ?r q j = leaf (ptmem s) ?r q j"
    "b \<Longrightarrow> is_present (ptmem s' ?ea) \<and> tbl (ptmem s') ?r p = Some a"
    "\<not> al \<Longrightarrow> s' = s" "grown as s s'" by auto
  show "\<not> b \<Longrightarrow> \<not> is_present (ptmem s ?ea)"
    using eq by (auto simp: descend_def split: if_splits)
qed

section \<open>Whole walks\<close>

lemma tree_pml4_not_huge:
  "vmm_inv as s \<Longrightarrow> i < 512 \<Longrightarrow> \<not> is_huge (ptmem s (entry_addr (pml4_phys (spaces s as)) i))"
  by (simp add: vmm_inv_def tree_ok_def)

lemma tbl_step:
  assumes "tbl m r p = Some a" "is_present (m (entry_addr a i))" "\<not> is_huge (m (entry_addr a i))"
  shows "tbl m r (p @ [i]) = Some (PTE_FRAME (m (entry_addr a i)))"
  using assms by (simp add: tbl_snoc tstep_def Let_def)

lemma tbl_step_None:
  assumes "tbl m r p = Some a" "\<not> is_present (m (entry_addr a i)) \<or> is_huge (m (entry_addr a i))"
  shows "tbl m r (p @ [i]) = None"
  using assms by (auto simp: tbl_snoc tstep_def Let_def)

text \<open>A walk with allocation leaves every leaf entry alone; the entry it returns is the leaf.\<close>

lemma get_pte_spec:
  assumes inv: "vmm_inv as s" and eq: "get_pte as v al s = (r, s')"
  shows "vmm_inv as s' \<and> spaces s' = spaces s \<and> (\<not> al \<longrightarrow> s' = s)
     \<and> (\<forall>q j. idx_ok q \<and> length q = 3 \<and> j < 512 \<longrightarrow>
          leaf (ptmem s') (pml4_phys (spaces s as)) q j = leaf (ptmem s) (pml4_phys (spaces s as)) q j)
     \<and> (case r of
          Some ea \<Rightarrow> \<exists>a. tbl (ptmem s') (pml4_phys (spaces s as)) (va_path v) = Some a
                        \<and> ea = entry_addr a (VA_PT_IDX v)
        | None \<Rightarrow> \<not> al \<longrightarrow> tbl (ptmem s) (pml4_phys (spaces s as)) (va_path v) = None)
     \<and> grown as s s'"
proof -
  let ?r = "pml4_phys (spaces s as)"
  let ?i4 = "VA_PML4_IDX v" and ?i3 = "VA_PDPT_IDX v" and ?i2 = "VA_PD_IDX v"
  define e4 where "e4 = entry_addr ?r ?i4"
  obtain b4 s4 where d4: "descend al e4 s = (b4, s4)" by force
  note D4 = descend_spec [OF inv _ _ tbl_Nil _ d4 [unfolded e4_def], simplified, folded e4_def]
  have path: "va_path v = ([?i4] @ [?i3]) @ [?i2]" by (simp add: va_path_def)
  show ?thesis
  proof (cases b4)
    case False
    then have "tbl (ptmem s) ?r ([] @ [?i4]) = None"
      using D4(6) by (intro tbl_step_None) (auto simp: e4_def)
    then have "tbl (ptmem s) ?r (va_path v) = None"
      unfolding path by (intro tbl_prefix_None) simp
    then show ?thesis
      using eq d4 False D4 by (simp add: get_pte_def Let_def e4_def)
  next
    case True
    note I4 = D4(1)
    have sp4: "spaces s4 = spaces s" by (rule D4(2))
    have h4: "\<not> is_huge (ptmem s4 e4)" using tree_pml4_not_huge [OF I4, of ?i4] by (simp add: sp4 e4_def)
    have t4: "tbl (ptmem s4) ?r [?i4] = Some (PTE_FRAME (ptmem s4 e4))"
      using tbl_step [of "ptmem s4" ?r "[]" ?r ?i4] D4(4) True h4 by (simp add: e4_def)
    define e3 where "e3 = entry_addr (PTE_FRAME (ptmem s4 e4)) ?i3"
    obtain b3 s3 where d3: "descend al e3 s4 = (b3, s3)" by force
    note D3 = descend_spec [OF I4 _ _ _ _ d3 [unfolded e3_def], of "[?i4]", simplified sp4, OF _ _ t4,
        simplified, folded e3_def]
    show ?thesis
    proof (cases "b3 \<and> \<not> is_huge (ptmem s3 e3)")
      case False
      have stop: "tbl (ptmem s4) ?r ([?i4] @ [?i3]) = None" if "\<not> al"
        using False D3(5,6) that t4 by (intro tbl_step_None) (auto simp: e3_def)
      have "tbl (ptmem s4) ?r (va_path v) = None" if "\<not> al"
        unfolding path by (rule tbl_prefix_None) (rule stop [OF that])
      moreover have "r = None" "s' = s3"
        using eq d4 d3 \<open>b4\<close> False by (auto simp: get_pte_def Let_def e4_def e3_def split: if_splits)
      ultimately show ?thesis using D4 D3 sp4 grown_trans [OF D4(7) D3(7)] by simp
    next
      case b3: True
      note I3 = D3(1)
      have sp3: "spaces s3 = spaces s" using D3(2) sp4 by simp
      have t3: "tbl (ptmem s3) ?r [?i4, ?i3] = Some (PTE_FRAME (ptmem s3 e3))"
        using tbl_step [of "ptmem s3" ?r "[?i4]" "PTE_FRAME (ptmem s4 e4)" ?i3] D3(4) b3
        by (simp add: e3_def)
      define e2 where "e2 = entry_addr (PTE_FRAME (ptmem s3 e3)) ?i2"
      obtain b2 s2 where d2: "descend al e2 s3 = (b2, s2)" by force
      note D2 = descend_spec [OF I3 _ _ _ _ d2 [unfolded e2_def], of "[?i4, ?i3]", simplified sp3, OF _ _ t3,
          simplified, folded e2_def]
      have s': "s' = s2" "r = (if b2 \<and> \<not> is_huge (ptmem s2 e2)
          then Some (entry_addr (PTE_FRAME (ptmem s2 e2)) (VA_PT_IDX v)) else None)"
        using eq d4 d3 d2 \<open>b4\<close> b3 by (auto simp: get_pte_def Let_def e4_def e3_def e2_def split: if_splits)
      show ?thesis
      proof (cases "b2 \<and> \<not> is_huge (ptmem s2 e2)")
        case False
        have "tbl (ptmem s3) ?r (([?i4] @ [?i3]) @ [?i2]) = None" if "\<not> al"
          using False D2(5,6) that t3 by (intro tbl_step_None) (auto simp: e2_def)
        then show ?thesis using s' False D4 D3 D2 sp3 sp4 grown_trans [OF grown_trans [OF D4(7) D3(7)] D2(7)]
          by (simp add: path del: append.simps)
      next
        case True
        have "tbl (ptmem s2) ?r (([?i4] @ [?i3]) @ [?i2]) = Some (PTE_FRAME (ptmem s2 e2))"
          using tbl_step [of "ptmem s2" ?r "[?i4, ?i3]" "PTE_FRAME (ptmem s3 e3)" ?i2] D2(4) True
          by (simp add: e2_def)
        then show ?thesis using s' True D4 D3 D2 sp3 sp4 grown_trans [OF grown_trans [OF D4(7) D3(7)] D2(7)]
          by (simp add: path)
      qed
    qed
  qed
qed

section \<open>Mapping and unmapping\<close>

text \<open>Writing a leaf cell changes that leaf and no other, and keeps the tree.\<close>

lemma leaf_write:
  fixes e :: u64
  assumes inv: "vmm_inv as s" and a: "tbl (ptmem s) (pml4_phys (spaces s as)) q = Some a"
    and q: "idx_ok q" "length q = 3" "j < 512"
  defines "m' \<equiv> (ptmem s)(entry_addr a j := e)"
  shows "tree_ok m' (pml4_phys (spaces s as)) (owned_addrs (vpmm s))"
    "\<And>q' j'. idx_ok q' \<Longrightarrow> length q' = 3 \<Longrightarrow> j' < 512 \<Longrightarrow>
       leaf m' (pml4_phys (spaces s as)) q' j'
       = (if (q', j') = (q, j) then e else leaf (ptmem s) (pml4_phys (spaces s as)) q' j')"
    "\<And>q'. idx_ok q' \<Longrightarrow> length q' \<le> 3 \<Longrightarrow> tbl m' (pml4_phys (spaces s as)) q' = tbl (ptmem s) (pml4_phys (spaces s as)) q'"
proof -
  let ?r = "pml4_phys (spaces s as)"
  note I = vmm_inv_D [OF inv]
  note in_used = I(3) [unfolded tree_ok_def, THEN conjunct2, THEN conjunct1, rule_format]
  note unique = I(3) [unfolded tree_ok_def, THEN conjunct2, THEN conjunct2, rule_format]
  have au: "a \<in> owned_addrs (vpmm s)" by (rule in_used [of q]) (use a q in auto)
  have cell: "m' (entry_addr b i) = ptmem s (entry_addr b i)"
    if bi: "b \<in> owned_addrs (vpmm s)" "i < 512" "(b, i) \<noteq> (a, j)" for b i
  proof -
    obtain fa where fa: "a = FRAME_TO_ADDR fa" "fa < 2 ^ 40" by (rule owned_frame [OF I(1,2) au])
    obtain fb where fb: "b = FRAME_TO_ADDR fb" "fb < 2 ^ 40" by (rule owned_frame [OF I(1,2) bi(1)])
    have "entry_addr b i \<noteq> entry_addr a j"
      using entry_addr_inj [of fb fa i j] fa fb bi q(3) by auto
    then show ?thesis by (simp add: m'_def)
  qed
  have walk: "tbl m' ?r p = tbl (ptmem s) ?r p" if "idx_ok p" "length p \<le> 3" for p
  proof (rule tbl_cong [where n = 3])
    fix p and i b :: u64 assume p: "length p < 3" "idx_ok p" "i < 512" "tbl (ptmem s) ?r p = Some b"
    have "b \<noteq> a" using unique [of p q a] p a q by auto
    moreover have "b \<in> owned_addrs (vpmm s)" by (rule in_used [of p]) (use p in auto)
    ultimately show "m' (entry_addr b i) = ptmem s (entry_addr b i)" using cell p(3) by simp
  qed (use that in auto)
  have "?r \<noteq> a" using unique [of "[]" q a] a q by auto
  then have "\<not> is_huge (m' (entry_addr ?r i))" if "i < 512" for i
    using cell [of ?r i] that tree_root_used [OF I(3)] tree_pml4_not_huge [OF inv that] by simp
  then show "tree_ok m' ?r (owned_addrs (vpmm s))"
    unfolding tree_ok_def using walk in_used unique by auto
  show "\<And>q'. idx_ok q' \<Longrightarrow> length q' \<le> 3 \<Longrightarrow> tbl m' ?r q' = tbl (ptmem s) ?r q'" by (rule walk)
  fix q' and j' :: u64 assume q': "idx_ok q'" "length q' = 3" "j' < 512"
  show "leaf m' ?r q' j' = (if (q', j') = (q, j) then e else leaf (ptmem s) ?r q' j')"
  proof (cases "tbl (ptmem s) ?r q'")
    case None
    then show ?thesis using walk [of q'] q' a by (auto simp: leaf_def)
  next
    case (Some b)
    have b: "b \<in> owned_addrs (vpmm s)" by (rule in_used [of q']) (use Some q' in auto)
    have "b = a \<longleftrightarrow> q' = q" using unique [of q' q a] Some a q q' by auto
    then show ?thesis using walk [of q'] q' Some cell [OF b q'(3)] a by (auto simp: leaf_def m'_def)
  qed
qed

text \<open>Two addresses on one page of a space (bits 48 and up are not translated).\<close>

definition same_page :: "u64 \<Rightarrow> u64 \<Rightarrow> bool" where
  "same_page v w \<longleftrightarrow> va_path v = va_path w \<and> VA_PT_IDX v = VA_PT_IDX w"

lemma bit_page_mask: "bit (-4096 :: u64) n \<longleftrightarrow> 12 \<le> n \<and> n < 64"
proof -
  have "(-4096 :: u64) = NOT (mask 12)" by (simp add: mask_eq_exp_minus_1)
  then show ?thesis by (simp only: bit_not_iff bit_mask_iff) auto
qed

lemma drop_page_offset:
  assumes "12 \<le> k"
  shows "drop_bit k (v AND -4096) = drop_bit k (v :: u64)"
proof (rule bit_word_eqI)
  fix n
  have "bit (v AND -4096) (k + n) \<longleftrightarrow> bit v (k + n)"
    unfolding bit_and_iff bit_page_mask using assms by (auto dest: bit_imp_le_length)
  then show "bit (drop_bit k (v AND -4096)) n \<longleftrightarrow> bit (drop_bit k v) n"
    by (simp only: bit_drop_bit_eq o_def)
qed

lemma va_of_page [simp]:
  "va_path (v AND -4096) = va_path v" "VA_PT_IDX (v AND -4096) = VA_PT_IDX v"
  unfolding va_path_def VA_PML4_IDX_def VA_PDPT_IDX_def VA_PD_IDX_def VA_PT_IDX_def
  by (subst (1 2 3) drop_page_offset, simp, simp, simp, rule refl) (subst drop_page_offset, simp, rule refl)

lemma virt_to_phys_leaf:
  assumes "vmm_inv as s"
  shows "vmm_virt_to_phys as v s =
    (let e = leaf (ptmem s) (pml4_phys (spaces s as)) (va_path v) (VA_PT_IDX v)
     in if is_present e then PTE_FRAME e OR VA_OFFSET v else 0)"
proof -
  obtain r s' where eq: "get_pte as v False s = (r, s')" by force
  show ?thesis
    using get_pte_spec [OF assms eq] eq
    by (auto simp: vmm_virt_to_phys_def leaf_def Let_def split: option.splits)
qed

text \<open>The flags a 4 KiB entry gets: \<open>VMM_WC\<close> becomes the PAT bit.\<close>

definition pte_flags :: "u64 \<Rightarrow> u64" where
  "pte_flags flags = (if flags AND VMM_WC \<noteq> 0
     then (flags AND NOT (VMM_WC OR PTE_NO_CACHE OR PTE_WRITE_THRU)) OR 0x80 else flags)"

lemma bit_0x80: "bit (0x80 :: u64) n \<longleftrightarrow> n = 7"
proof -
  have "(0x80 :: u64) = push_bit 7 1" by simp
  then show ?thesis by (simp only: bit_push_bit_iff bit_1_iff) auto
qed

lemma and_addr_mask_0: "w AND PTE_ADDR_MASK = 0 \<longleftrightarrow> (\<forall>n. 12 \<le> n \<and> n < 52 \<longrightarrow> \<not> bit w n)"
proof -
  have "w AND PTE_ADDR_MASK = 0 \<longleftrightarrow> (\<forall>n. bit (w AND PTE_ADDR_MASK) n \<longleftrightarrow> bit (0 :: u64) n)"
    by (metis bit_eq_iff)
  then show ?thesis by (auto simp: bit_and_iff bit_addr_mask)
qed

lemma pte_flags_no_addr: "flags AND PTE_ADDR_MASK = 0 \<Longrightarrow> pte_flags flags AND PTE_ADDR_MASK = 0"
  unfolding and_addr_mask_0 pte_flags_def
  by (cases "flags AND VMM_WC = 0") (simp_all only: bit_or_iff bit_and_iff bit_0x80 if_True if_False simp_thms, auto)

lemma new_pte:
  assumes "fl AND PTE_ADDR_MASK = 0"
  shows "is_present (((p AND -4096) AND PTE_ADDR_MASK) OR fl OR PTE_PRESENT)"
    "PTE_FRAME (((p AND -4096) AND PTE_ADDR_MASK) OR fl OR PTE_PRESENT) = p AND PTE_ADDR_MASK"
proof -
  have one: "bit PTE_PRESENT n \<longleftrightarrow> n = 0" for n by (simp add: PTE_PRESENT_def bit_1_iff)
  show "is_present (((p AND -4096) AND PTE_ADDR_MASK) OR fl OR PTE_PRESENT)"
    unfolding is_present_iff bit_or_iff one by simp
  show "PTE_FRAME (((p AND -4096) AND PTE_ADDR_MASK) OR fl OR PTE_PRESENT) = p AND PTE_ADDR_MASK"
    unfolding PTE_FRAME_def using assms [unfolded and_addr_mask_0]
    by (intro bit_word_eqI) (auto simp only: bit_and_iff bit_or_iff bit_addr_mask bit_page_mask one)
qed

lemma add_mapped_simps [simp]:
  "ptmem (add_mapped as d s) = ptmem s" "vpmm (add_mapped as d s) = vpmm s"
  "pml4_phys (spaces (add_mapped as d s) as') = pml4_phys (spaces s as')"
  by (simp_all add: add_mapped_def)

lemma vmm_inv_cong:
  "vpmm t = vpmm s \<Longrightarrow> pml4_phys (spaces t as) = pml4_phys (spaces s as) \<Longrightarrow>
   tree_ok (ptmem t) (pml4_phys (spaces s as)) (owned_addrs (vpmm s)) \<Longrightarrow> vmm_inv as s \<Longrightarrow> vmm_inv as t"
  by (simp add: vmm_inv_def)

text \<open>A map call is a walk with allocation followed by one leaf write.\<close>

lemma vmm_map_page_steps:
  assumes inv: "vmm_inv as s" and eq: "vmm_map_page as v p flags s = (r, s')"
  shows "vmm_inv as s' \<and> pml4_phys (spaces s' as) = pml4_phys (spaces s as)
    \<and> (r = 0 \<or> r = -1)
    \<and> (\<forall>q j. idx_ok q \<and> length q = 3 \<and> j < 512 \<longrightarrow>
         leaf (ptmem s') (pml4_phys (spaces s as)) q j
         = (if r = 0 \<and> (q, j) = (va_path v, VA_PT_IDX v)
            then ((p AND -4096) AND PTE_ADDR_MASK) OR pte_flags flags OR PTE_PRESENT
            else leaf (ptmem s) (pml4_phys (spaces s as)) q j))
    \<and> grown as s s'"
proof -
  let ?r = "pml4_phys (spaces s as)"
  obtain pte s1 where g: "get_pte as (v AND -4096) True s = (pte, s1)" by force
  note G = get_pte_spec [OF inv g]
  have sp: "spaces s1 = spaces s" and I1: "vmm_inv as s1" using G by auto
  show ?thesis
  proof (cases pte)
    case None
    then have "r = -1" "s' = s1" using eq g by (simp_all add: vmm_map_page_def Let_def)
    then show ?thesis using G by simp
  next
    case (Some ea)
    then obtain a where a: "tbl (ptmem s1) (pml4_phys (spaces s1 as)) (va_path v) = Some a"
      "ea = entry_addr a (VA_PT_IDX v)"
      using G sp by auto
    let ?e = "((p AND -4096) AND PTE_ADDR_MASK) OR pte_flags flags OR PTE_PRESENT"
    define s2 where "s2 = (if \<not> is_present (ptmem s1 ea) \<and> pte_flags flags AND PTE_GLOBAL = 0
                       then add_mapped as 1 s1 else s1)"
    have s2: "ptmem s2 = ptmem s1" "vpmm s2 = vpmm s1" "pml4_phys (spaces s2 as) = ?r"
      by (simp_all add: s2_def sp)
    have s': "r = 0" "s' = s2\<lparr>ptmem := (ptmem s1)(ea := ?e)\<rparr>"
      using eq g Some s2(1) by (auto simp: vmm_map_page_def Let_def pte_flags_def s2_def)
    note W = leaf_write [OF I1 a(1) va_path_ok va_idx_less(4) [of v], where e = ?e, folded a(2)]
    have "vmm_inv as s'"
      by (rule vmm_inv_cong [OF _ _ _ I1]) (use W(1) s' s2 sp in simp_all)
    moreover have "tables as s' = tables as s1"
      unfolding tables_def using W(3) s' s2 sp by auto
    then have "grown as s s'" using G s' s2 by (simp add: grown_def)
    ultimately show ?thesis using G W(2) s' s2 sp by simp
  qed
qed

lemma vmm_unmap_page_steps:
  assumes inv: "vmm_inv as s"
  shows "vmm_inv as (vmm_unmap_page as v False s)
    \<and> pml4_phys (spaces (vmm_unmap_page as v False s) as) = pml4_phys (spaces s as)
    \<and> vpmm (vmm_unmap_page as v False s) = vpmm s
    \<and> (\<forall>q j. idx_ok q \<and> length q = 3 \<and> j < 512 \<and> ((q, j) \<noteq> (va_path v, VA_PT_IDX v)) \<longrightarrow>
         leaf (ptmem (vmm_unmap_page as v False s)) (pml4_phys (spaces s as)) q j
         = leaf (ptmem s) (pml4_phys (spaces s as)) q j)
    \<and> \<not> is_present (leaf (ptmem (vmm_unmap_page as v False s)) (pml4_phys (spaces s as)) (va_path v) (VA_PT_IDX v))
    \<and> tables as (vmm_unmap_page as v False s) = tables as s"
proof -
  let ?r = "pml4_phys (spaces s as)" and ?t = "vmm_unmap_page as v False s"
  obtain pte s1 where g: "get_pte as (v AND -4096) False s = (pte, s1)" by force
  have G: "s1 = s" "case pte of Some ea \<Rightarrow> \<exists>a. tbl (ptmem s) ?r (va_path v) = Some a \<and> ea = entry_addr a (VA_PT_IDX v)
      | None \<Rightarrow> tbl (ptmem s) ?r (va_path v) = None"
    using get_pte_spec [OF inv g] by (auto split: option.splits)
  show ?thesis
  proof (cases pte)
    case None
    then have "?t = s" using g G(1) by (simp add: vmm_unmap_page_def Let_def)
    then show ?thesis using inv G(2) None by (simp add: leaf_def)
  next
    case (Some ea)
    then obtain a where a: "tbl (ptmem s) ?r (va_path v) = Some a" "ea = entry_addr a (VA_PT_IDX v)"
      using G(2) by auto
    show ?thesis
    proof (cases "is_present (ptmem s ea)")
      case False
      then have "?t = s" using g G(1) Some by (simp add: vmm_unmap_page_def Let_def)
      then show ?thesis using inv a False by (simp add: leaf_def)
    next
      case True
      define s3 where "s3 = (if ptmem s ea AND PTE_GLOBAL = 0 \<and> mapped_pages (spaces s as) > 0
                               then add_mapped as (-1) s else s)"
      have s3: "ptmem s3 = ptmem s" "vpmm s3 = vpmm s" "pml4_phys (spaces s3 as) = ?r"
        by (simp_all add: s3_def)
      have t: "?t = s3\<lparr>ptmem := (ptmem s)(ea := 0)\<rparr>"
        using g G(1) Some True s3(1) by (simp add: vmm_unmap_page_def Let_def s3_def)
      note W = leaf_write [OF inv a(1) va_path_ok va_idx_less(4) [of v], where e = 0, folded a(2)]
      have "vmm_inv as ?t"
        by (rule vmm_inv_cong [OF _ _ _ inv]) (use W(1) t s3 in simp_all)
      moreover have "tables as ?t = tables as s" unfolding tables_def using W(3) t s3 by auto
      ultimately show ?thesis using W(2) t s3 by simp
    qed
  qed
qed

section \<open>Frames in the hands of clients\<close>

text \<open>
  A client of the page tables takes a frame from the allocator, enters it in a space, and gives it
  back: the invariant of the space survives as long as the frame is none of its tables.
\<close>

lemma tree_ok_mono: "tree_ok m r A \<Longrightarrow> A \<subseteq> B \<Longrightarrow> tree_ok m r B"
  unfolding tree_ok_def by blast

lemma tree_ok_shrink:
  "tree_ok m r A \<Longrightarrow> (\<forall>q c. idx_ok q \<and> length q \<le> 3 \<and> tbl m r q = Some c \<longrightarrow> c \<in> B) \<Longrightarrow> tree_ok m r B"
  unfolding tree_ok_def by blast

lemma pmm_alloc_total [simp]: "total_frames (snd (pmm_alloc s)) = total_frames s"
  by (auto simp: pmm_alloc_def Let_def split: option.splits)

lemma frame_addr_mask: "f < 2 ^ 40 \<Longrightarrow> FRAME_TO_ADDR f AND PTE_ADDR_MASK = FRAME_TO_ADDR f"
  by (rule bit_word_eqI) (simp only: bit_and_iff bit_addr_mask, use bit_frame_addr in blast)

lemma tables_vpmm [simp]: "tables as (s\<lparr>vpmm := pm\<rparr>) = tables as s"
  by (simp add: tables_def)

lemma virt_to_phys_vpmm [simp]: "vmm_virt_to_phys as w (s\<lparr>vpmm := pm\<rparr>) = vmm_virt_to_phys as w s"
  by (simp add: vmm_virt_to_phys_def get_pte_def descend_def Let_def split: option.splits)

lemma vmm_take_frame:
  assumes inv: "vmm_inv as s" and eq: "pmm_alloc (vpmm s) = (p, pm)" and p: "p \<noteq> 0"
  shows "vmm_inv as (s\<lparr>vpmm := pm\<rparr>)" "p \<in> owned_addrs pm" "p \<notin> owned_addrs (vpmm s)" "p \<notin> tables as s"
    "p AND PTE_ADDR_MASK = p"
proof -
  note I = vmm_inv_D [OF inv]
  note F = pmm_frames.alloc_fresh [OF I(1) eq p]
  show own: "p \<in> owned_addrs pm" "p \<notin> owned_addrs (vpmm s)" using F by auto
  then show "p \<notin> tables as s" using tables_owned [OF inv] by blast
  have tot: "total_frames pm = total_frames (vpmm s)" using pmm_alloc_total [of "vpmm s"] eq by simp
  have pi: "pmm_inv pm" using pmm_alloc_inv [OF I(1)] eq by simp
  show "vmm_inv as (s\<lparr>vpmm := pm\<rparr>)"
    unfolding vmm_inv_def using pi tot I(2) F by (auto intro: tree_ok_mono [OF I(3)])
  show "p AND PTE_ADDR_MASK = p"
    using owned_frame [OF pi _ own(1)] tot I(2) frame_addr_mask by auto
qed

lemma vmm_give_frame:
  assumes inv: "vmm_inv as s" and p: "p \<in> owned_addrs (vpmm s)" "p \<noteq> 0" "p \<notin> tables as s"
  shows "vmm_inv as (s\<lparr>vpmm := pmm_free p (vpmm s)\<rparr>)"
proof -
  note I = vmm_inv_D [OF inv]
  have "tree_ok (ptmem s) (pml4_phys (spaces s as)) (owned_addrs (vpmm s) - {p})"
    by (rule tree_ok_shrink [OF I(3)]) (use tables_owned [OF inv] p(3) in \<open>auto simp: tables_def\<close>)
  then show ?thesis
    using pmm_free_inv [OF I(1)] I(2) pmm_free_owned [OF I(1) p(1,2)] by (simp add: vmm_inv_def)
qed

lemma bit_page_offset: "off < (0x1000 :: u64) \<Longrightarrow> bit off n \<Longrightarrow> n < 12"
proof -
  assume "off < 0x1000" and b: "bit off n"
  then have "unat off < 2 ^ 12" by (simp add: word_less_nat_alt)
  then have "take_bit 12 (unat off) = unat off" by (simp add: take_bit_nat_eq_self_iff)
  moreover have "bit (unat off) n" using b by (simp add: bit_unsigned_iff bit_imp_le_length)
  ultimately have "bit (take_bit 12 (unat off)) n" by simp
  then show "n < 12" by (simp add: bit_take_bit_iff)
qed

lemma page_offset:
  assumes "v AND -4096 = v" "off < (0x1000 :: u64)"
  shows "(v + off) AND -4096 = v"
proof -
  have v: "12 \<le> n" if "bit v n" for n
    using that assms(1) by (metis bit_and_iff bit_page_mask)
  have "v AND off = 0"
    by (rule bit_word_eqI) (use v bit_page_offset [OF assms(2)] in \<open>fastforce simp: bit_and_iff\<close>)
  then have "v + off = v OR off" by (rule disjunctive_add_eq_or)
  then show ?thesis
    by (intro bit_word_eqI)
      (simp only: bit_and_iff bit_or_iff bit_page_mask,
        use v bit_page_offset [OF assms(2)] bit_imp_le_length in fastforce)
qed

lemma same_page_refl [simp]: "same_page v v"
  by (simp add: same_page_def)

lemma same_page_offset:
  assumes "v AND -4096 = v" "off < 0x1000"
  shows "same_page (v + off) v"
  using va_of_page [of "v + off"] page_offset [OF assms] by (simp add: same_page_def)

text \<open>Writes to frames that are not tables do not reach the translation.\<close>

lemma vmm_data_write:
  assumes inv: "vmm_inv as s"
    and same: "\<And>b j. b \<in> tables as s \<Longrightarrow> j < 512 \<Longrightarrow> m (entry_addr b j) = ptmem s (entry_addr b j)"
  shows "vmm_inv as (s\<lparr>ptmem := m\<rparr>)" "tables as (s\<lparr>ptmem := m\<rparr>) = tables as s"
    "vmm_virt_to_phys as w (s\<lparr>ptmem := m\<rparr>) = vmm_virt_to_phys as w s"
proof -
  let ?r = "pml4_phys (spaces s as)"
  have walk: "tbl m ?r q = tbl (ptmem s) ?r q" if "idx_ok q" "length q \<le> 3" for q
  proof (rule tbl_cong [where n = 3])
    fix p and i b :: u64 assume p: "length p < 3" "idx_ok p" "i < 512" "tbl (ptmem s) ?r p = Some b"
    then have "b \<in> tables as s" unfolding tables_def by (auto intro!: exI [of _ p])
    then show "m (entry_addr b i) = ptmem s (entry_addr b i)" using same p(3) by blast
  qed (use that in auto)
  show T: "tables as (s\<lparr>ptmem := m\<rparr>) = tables as s"
    unfolding tables_def using walk by auto
  have "?r \<in> tables as s" unfolding tables_def by (auto intro!: exI [of _ "[]"])
  then have "\<not> is_huge (m (entry_addr ?r i))" if "i < 512" for i
    using same that tree_pml4_not_huge [OF inv that] by simp
  then have "tree_ok m ?r (owned_addrs (vpmm s))"
    using vmm_inv_D(3) [OF inv] unfolding tree_ok_def using walk by auto
  then show I: "vmm_inv as (s\<lparr>ptmem := m\<rparr>)" using inv by (simp add: vmm_inv_def)
  have "leaf m ?r (va_path w) (VA_PT_IDX w) = leaf (ptmem s) ?r (va_path w) (VA_PT_IDX w)"
  proof (cases "tbl (ptmem s) ?r (va_path w)")
    case None
    then show ?thesis using walk [of "va_path w"] by (simp add: leaf_def)
  next
    case (Some b)
    then have "b \<in> tables as s" unfolding tables_def by (auto intro!: exI [of _ "va_path w"])
    then show ?thesis using walk [of "va_path w"] Some same by (simp add: leaf_def)
  qed
  then show "vmm_virt_to_phys as w (s\<lparr>ptmem := m\<rparr>) = vmm_virt_to_phys as w s"
    by (simp add: virt_to_phys_leaf [OF I] virt_to_phys_leaf [OF inv])
qed

lemma vmm_zero_frame:
  assumes inv: "vmm_inv as s" and p: "p \<in> owned_addrs (vpmm s)" "p \<notin> tables as s"
  shows "vmm_inv as (s\<lparr>ptmem := zero_table p (ptmem s)\<rparr>)"
    "tables as (s\<lparr>ptmem := zero_table p (ptmem s)\<rparr>) = tables as s"
    "vmm_virt_to_phys as w (s\<lparr>ptmem := zero_table p (ptmem s)\<rparr>) = vmm_virt_to_phys as w s"
proof -
  note I = vmm_inv_D [OF inv]
  have "zero_table p (ptmem s) (entry_addr b j) = ptmem s (entry_addr b j)" if b: "b \<in> tables as s" "j < 512" for b j
  proof -
    have "b \<in> owned_addrs (vpmm s)" "b \<noteq> p" using tables_owned [OF inv] b p by auto
    then obtain f where f: "b = FRAME_TO_ADDR f" "f < 2 ^ 40" using owned_frame [OF I(1,2)] by blast
    obtain g where g: "p = FRAME_TO_ADDR g" "g < 2 ^ 40" by (rule owned_frame [OF I(1,2) p(1)])
    have "f \<noteq> g" using f g \<open>b \<noteq> p\<close> by auto
    then show ?thesis using entry_in_page [OF f(2) g(2) b(2)] f g by (simp add: zero_table_def)
  qed
  from vmm_data_write [OF inv this]
  show "vmm_inv as (s\<lparr>ptmem := zero_table p (ptmem s)\<rparr>)"
    "tables as (s\<lparr>ptmem := zero_table p (ptmem s)\<rparr>) = tables as s"
    "vmm_virt_to_phys as w (s\<lparr>ptmem := zero_table p (ptmem s)\<rparr>) = vmm_virt_to_phys as w s" by auto
qed

text \<open>Two addresses are on one page when bits 12 to 47 agree.\<close>

lemma mask9_bit: "bit (w AND 0x1FF :: u64) n \<longleftrightarrow> n < 9 \<and> bit w n"
proof -
  have "(0x1FF :: u64) = mask 9" by (simp add: mask_eq_exp_minus_1)
  then show ?thesis by (simp only: bit_and_iff bit_mask_iff) (auto dest: bit_imp_le_length)
qed

lemma same_page_bits: "same_page v w \<longleftrightarrow> (\<forall>n. 12 \<le> n \<and> n < 48 \<longrightarrow> bit v n = bit w n)"
proof -
  have idx: "drop_bit k v AND 0x1FF = drop_bit k w AND 0x1FF \<longleftrightarrow> (\<forall>n. k \<le> n \<and> n < k + 9 \<longrightarrow> bit v n = bit w n)"
    if "k + 9 \<le> 64" for k
  proof -
    have "drop_bit k v AND 0x1FF = drop_bit k w AND 0x1FF \<longleftrightarrow> (\<forall>m. m < 9 \<longrightarrow> bit v (k + m) = bit w (k + m))"
    proof
      assume eq: "drop_bit k v AND 0x1FF = drop_bit k w AND 0x1FF"
      have "bit (drop_bit k v AND 0x1FF) m = bit (drop_bit k w AND 0x1FF) m" for m by (simp add: eq)
      then show "\<forall>m. m < 9 \<longrightarrow> bit v (k + m) = bit w (k + m)" by (auto simp: mask9_bit bit_drop_bit_eq)
    next
      assume "\<forall>m. m < 9 \<longrightarrow> bit v (k + m) = bit w (k + m)"
      then show "drop_bit k v AND 0x1FF = drop_bit k w AND 0x1FF"
        by (intro bit_word_eqI) (auto simp: mask9_bit bit_drop_bit_eq)
    qed
    also have "\<dots> \<longleftrightarrow> (\<forall>n. k \<le> n \<and> n < k + 9 \<longrightarrow> bit v n = bit w n)"
    proof (rule iffI; intro allI impI)
      fix n assume h: "\<forall>m<9. bit v (k + m) = bit w (k + m)" "k \<le> n \<and> n < k + 9"
      have "n - k < 9" using h(2) by auto
      then show "bit v n = bit w n" using h(1) [rule_format, of "n - k"] h(2) by simp
    qed auto
    finally show ?thesis .
  qed
  have "same_page v w \<longleftrightarrow> (\<forall>n. 39 \<le> n \<and> n < 48 \<longrightarrow> bit v n = bit w n) \<and> (\<forall>n. 30 \<le> n \<and> n < 39 \<longrightarrow> bit v n = bit w n)
     \<and> (\<forall>n. 21 \<le> n \<and> n < 30 \<longrightarrow> bit v n = bit w n) \<and> (\<forall>n. 12 \<le> n \<and> n < 21 \<longrightarrow> bit v n = bit w n)"
    unfolding same_page_def va_path_def VA_PML4_IDX_def VA_PDPT_IDX_def VA_PD_IDX_def VA_PT_IDX_def
    using idx [of 39] idx [of 30] idx [of 21] idx [of 12] by simp
  also have "\<dots> \<longleftrightarrow> (\<forall>n. 12 \<le> n \<and> n < 48 \<longrightarrow> bit v n = bit w n)"
  proof -
    have split: "(\<forall>n. a \<le> n \<and> n < c \<longrightarrow> P n) \<longleftrightarrow> (\<forall>n. b \<le> n \<and> n < c \<longrightarrow> P n) \<and> (\<forall>n. a \<le> n \<and> n < b \<longrightarrow> P n)"
      if "a \<le> b" "b \<le> c" for a b c and P :: "nat \<Rightarrow> bool"
      using that by (metis le_trans less_le_trans not_le)
    have "(12::nat) \<le> 39" "(39::nat) \<le> 48" "(12::nat) \<le> 30" "(30::nat) \<le> 39" "(12::nat) \<le> 21" "(21::nat) \<le> 30"
      by simp_all
    then show ?thesis
      using split [of 12 39 48] split [of 12 30 39] split [of 12 21 30] by (simp only: simp_thms)
  qed
  finally show ?thesis .
qed

lemma same_page_nat:
  assumes "same_page v w" "unat v < 2 ^ 48" "unat w < 2 ^ 48"
  shows "unat v div 4096 = unat w div 4096"
proof -
  have hi: "\<not> bit u n" if "unat u < 2 ^ 48" "48 \<le> n" for u :: u64 and n
  proof
    assume b: "bit u n"
    have "take_bit 48 (unat u) = unat u" using that(1) by (simp add: take_bit_nat_eq_self_iff)
    moreover have "bit (unat u) n" using b by (simp add: bit_unsigned_iff bit_imp_le_length)
    ultimately have "bit (take_bit 48 (unat u)) n" by simp
    then show False using that(2) by (simp add: bit_take_bit_iff)
  qed
  have "drop_bit 12 v = drop_bit 12 w"
  proof (rule bit_word_eqI)
    fix n
    show "bit (drop_bit 12 v) n = bit (drop_bit 12 w) n"
    proof (cases "12 + n < 48")
      case True
      then show ?thesis using assms(1) by (simp add: bit_drop_bit_eq same_page_bits)
    next
      case False
      then show ?thesis using hi assms(2,3) by (simp add: bit_drop_bit_eq)
    qed
  qed
  then have "drop_bit 12 (unat v) = drop_bit 12 (unat w)" by (metis unat_drop_bit_eq)
  then show ?thesis by (simp add: drop_bit_eq_div)
qed

section \<open>Correctness of mapping\<close>

text \<open>A space with an empty PML4 in frame 2 of the demonstration memory.\<close>

definition demo_vmm :: vmm where
  "demo_vmm = \<lparr>vpmm = demo_pmm, ptmem = (\<lambda>_. 0), spaces = (\<lambda>_. \<lparr>pml4_phys = 0x2000, mapped_pages = 0\<rparr>),
     hhdm_limit = 0x8000, hhdm_ready = True, cr3 = 0x2000, cr4 = 0\<rparr>"

lemma tbl_empty_mem: "tbl (\<lambda>_. 0) r p = (if p = [] then Some r else None)"
  by (induction p rule: rev_induct) (auto simp: tbl_snoc tstep_def)

lemma demo_vmm_inv: "vmm_inv as demo_vmm"
proof -
  have "0x2000 \<in> owned_addrs demo_pmm"
    unfolding owned_addrs_def demo_pmm_used by (simp add: FRAME_TO_ADDR_def)
  moreover have "total_frames demo_pmm = 8" by (simp add: demo_pmm_def)
  ultimately show ?thesis
    using demo_pmm_inv by (simp add: vmm_inv_def demo_vmm_def tree_ok_def tbl_empty_mem is_huge_def)
qed

text \<open>The same space on a machine of 64 frames, the first three in use.\<close>

definition demo_vmm64 :: vmm where
  "demo_vmm64 = demo_vmm\<lparr>vpmm := demo_pmm\<lparr>bitmap := [7], total_frames := 64\<rparr>\<rparr>"

lemma demo_vmm64_inv: "vmm_inv as demo_vmm64"
proof -
  let ?d = "demo_pmm\<lparr>bitmap := [7], total_frames := 64\<rparr>"
  have "used_set ?d = set (filter (frame_used ?d) [0..<64])"
    by (auto simp: used_set_def demo_pmm_def)
  also have "\<dots> = {0, 1, 2}" by code_simp
  finally have "0x2000 \<in> owned_addrs ?d"
    unfolding owned_addrs_def by (simp add: FRAME_TO_ADDR_def)
  moreover have "list_all (frame_used ?d) [64..<64]" "frame_used ?d 0" by code_simp+
  then have "pmm_inv ?d" by (simp add: pmm_inv_exec bitmap_words_def) (simp add: demo_pmm_def)
  ultimately show ?thesis
    by (simp add: demo_vmm64_def vmm_inv_def demo_vmm_def tree_ok_def tbl_empty_mem is_huge_def)
qed

lemma map_translation:
  assumes inv: "vmm_inv as s" and eq: "vmm_map_page as v p flags s = (r, s')"
    and flags: "flags AND PTE_ADDR_MASK = 0"
  shows "vmm_virt_to_phys as w s' = (if r = 0 \<and> same_page w v then (p AND PTE_ADDR_MASK) OR VA_OFFSET w
     else vmm_virt_to_phys as w s)"
proof -
  note S = vmm_map_page_steps [OF inv eq]
  note N = new_pte [OF pte_flags_no_addr [OF flags], of p]
  have "vmm_inv as s'" "pml4_phys (spaces s' as) = pml4_phys (spaces s as)" using S by auto
  moreover have "leaf (ptmem s') (pml4_phys (spaces s as)) (va_path w) (VA_PT_IDX w)
     = (if r = 0 \<and> same_page w v then ((p AND -4096) AND PTE_ADDR_MASK) OR pte_flags flags OR PTE_PRESENT
        else leaf (ptmem s) (pml4_phys (spaces s as)) (va_path w) (VA_PT_IDX w))"
    using S by (simp add: same_page_def)
  ultimately show ?thesis
    using N inv by (simp add: virt_to_phys_leaf Let_def)
qed

text \<open>
  C3. \<^verbatim>\<open>vmm_map_page\<close> changes the translation of one page and of no other: when it succeeds,
  \<^verbatim>\<open>vmm_virt_to_phys\<close> of every address of the page gives the frame and the page offset; every other
  address of the space, and every address when it fails for lack of frames, translates as before.
  The tables stay a tree of distinct frames in use, whatever tables had to be allocated.
\<close>
theorem vmm_map_page_translation:
  assumes "vmm_inv as s" "flags AND PTE_ADDR_MASK = 0"
  shows "case vmm_map_page as v p flags s of (r, s') \<Rightarrow>
     vmm_inv as s' \<and> (r = 0 \<or> r = -1)
     \<and> (\<forall>w. vmm_virt_to_phys as w s' =
           (if r = 0 \<and> same_page w v then (p AND PTE_ADDR_MASK) OR VA_OFFSET w else vmm_virt_to_phys as w s))"
proof -
  obtain r s' where eq: "vmm_map_page as v p flags s = (r, s')" by force
  show ?thesis
    unfolding eq prod.case using vmm_map_page_steps [OF assms(1) eq] map_translation [OF assms(1) eq assms(2)]
    by blast
qed

theorem vmm_map_page_translation_witness:
  "vmm_inv KernelAS demo_vmm \<and>
   vmm_virt_to_phys KernelAS 0x400123 (snd (vmm_map_page KernelAS 0x400000 0x9000 VMM_FLAGS_USER_RW demo_vmm)) = 0x9123
   \<and> vmm_virt_to_phys KernelAS 0x401000 (snd (vmm_map_page KernelAS 0x400000 0x9000 VMM_FLAGS_USER_RW demo_vmm)) = 0"
proof -
  have fl: "VMM_FLAGS_USER_RW AND PTE_ADDR_MASK = 0" by (simp add: pte_flag_defs)
  have ok: "fst (vmm_map_page KernelAS 0x400000 0x9000 VMM_FLAGS_USER_RW demo_vmm) = 0" by code_simp
  obtain r s' where eq: "vmm_map_page KernelAS 0x400000 0x9000 VMM_FLAGS_USER_RW demo_vmm = (r, s')" by force
  have page: "same_page 0x400123 0x400000" "\<not> same_page 0x401000 0x400000" by code_simp+
  have zero: "vmm_virt_to_phys KernelAS 0x401000 demo_vmm = 0"
    by (simp add: virt_to_phys_leaf [OF demo_vmm_inv]) (simp add: demo_vmm_def leaf_def tbl_empty_mem va_path_def)
  have val: "(0x9000 AND PTE_ADDR_MASK) OR VA_OFFSET 0x400123 = 0x9123"
    by (simp add: PTE_ADDR_MASK_def VA_OFFSET_def)
  show ?thesis
    using vmm_map_page_translation [OF demo_vmm_inv fl, of KernelAS "0x400000" "0x9000"] ok page zero val
      demo_vmm_inv
    by (simp add: eq)
qed

lemma unmap_translation:
  assumes "vmm_inv as s"
  shows "vmm_virt_to_phys as w (vmm_unmap_page as v False s) = (if same_page w v then 0 else vmm_virt_to_phys as w s)"
proof -
  note S = vmm_unmap_page_steps [OF assms, of v]
  show ?thesis
  proof (cases "same_page w v")
    case True
    then show ?thesis using S by (simp add: virt_to_phys_leaf [of as "vmm_unmap_page as v False s"] same_page_def)
  next
    case False
    then have "(va_path w, VA_PT_IDX w) \<noteq> (va_path v, VA_PT_IDX v)" by (simp add: same_page_def)
    then have "leaf (ptmem (vmm_unmap_page as v False s)) (pml4_phys (spaces s as)) (va_path w) (VA_PT_IDX w)
        = leaf (ptmem s) (pml4_phys (spaces s as)) (va_path w) (VA_PT_IDX w)"
      using S by simp
    then show ?thesis using False S by (simp add: virt_to_phys_leaf assms)
  qed
qed

text \<open>Releasing the frame comes on top: the entry is read before it is cleared.\<close>

lemma unmap_release:
  assumes inv: "vmm_inv as s" and e_def: "e = leaf (ptmem s) (pml4_phys (spaces s as)) (va_path v) (VA_PT_IDX v)"
  shows "vmm_unmap_page as v True s = (vmm_unmap_page as v False s)
     \<lparr>vpmm := if is_present e then pmm_free (PTE_FRAME e) (vpmm s) else vpmm s\<rparr>"
proof -
  obtain pte s1 where g: "get_pte as (v AND -4096) False s = (pte, s1)" by force
  have "s1 = s" and e: "case pte of None \<Rightarrow> e = 0 | Some ea \<Rightarrow> ptmem s ea = e"
    using get_pte_spec [OF inv g] by (auto simp: e_def leaf_def split: option.splits)
  then show ?thesis
    using g by (cases pte) (auto simp: vmm_unmap_page_def Let_def add_mapped_def is_present_def)
qed

lemma frame_addr_round:
  assumes "p AND PTE_ADDR_MASK = p"
  shows "FRAME_TO_ADDR (ADDR_TO_FRAME p) = p"
proof -
  have "p AND -4096 = p"
    by (subst (1 2) assms [symmetric], rule bit_word_eqI)
      (simp only: bit_and_iff bit_addr_mask bit_page_mask, auto)
  then have "unat p mod 4096 = 0" by (simp only: page_aligned_iff)
  then have u: "ADDR_TO_FRAME p * 4096 = unat p" by (auto simp: ADDR_TO_FRAME_eq)
  then have "ADDR_TO_FRAME p < 2 ^ 52" using unat_less_power [of p] by simp
  then have "unat (FRAME_TO_ADDR (ADDR_TO_FRAME p)) = unat p" using u by (simp add: unat_FRAME_TO_ADDR)
  then show ?thesis by (simp only: word_unat_eq_iff)
qed

lemma vmm_free_data:
  assumes inv: "vmm_inv as s" and p: "p AND PTE_ADDR_MASK = p" "p \<notin> tables as s"
  shows "vmm_inv as (s\<lparr>vpmm := pmm_free p (vpmm s)\<rparr>)"
proof (cases "p \<in> owned_addrs (vpmm s) \<and> p \<noteq> 0")
  case True
  then show ?thesis using vmm_give_frame [OF inv] p(2) by blast
next
  case False
  then have "pmm_free p (vpmm s) = vpmm s"
  proof (cases "p = 0")
    case nz: False
    then have "ADDR_TO_FRAME p \<notin> used_set (vpmm s)"
      using False frame_addr_round [OF p(1)] by (force simp: owned_addrs_def)
    then show ?thesis by (simp add: pmm_free_noop)
  qed (simp add: pmm_free_def)
  then show ?thesis using inv by simp
qed

text \<open>
  C4. \<^verbatim>\<open>vmm_unmap_page\<close> undoes a mapping, whether it is to release the frame or not: afterwards no address of
  the page translates and every other address translates as before. The frame goes back to the allocator
  exactly if that was asked for and the page was mapped; the allocator is otherwise as it was. The tables
  stay a tree of frames in use, provided that a frame that is released is none of them.
\<close>
theorem vmm_unmap_page_translation:
  assumes "vmm_inv as s" "s' = vmm_unmap_page as v free_phys s"
    "e = leaf (ptmem s) (pml4_phys (spaces s as)) (va_path v) (VA_PT_IDX v)"
  shows "(\<forall>w. vmm_virt_to_phys as w s' = (if same_page w v then 0 else vmm_virt_to_phys as w s))
     \<and> vpmm s' = (if free_phys \<and> is_present e then pmm_free (PTE_FRAME e) (vpmm s) else vpmm s)
     \<and> ((free_phys \<longrightarrow> is_present e \<longrightarrow> PTE_FRAME e \<notin> tables as s) \<longrightarrow> vmm_inv as s')"
proof -
  let ?u = "vmm_unmap_page as v False s"
  note S = vmm_unmap_page_steps [OF assms(1), of v] and T = unmap_translation [OF assms(1), of _ v]
  show ?thesis
  proof (cases "free_phys \<and> is_present e")
    case False
    then have "s' = ?u" using unmap_release [OF assms(1,3)] S assms(2) by (cases free_phys) simp_all
    then show ?thesis using S T False by auto
  next
    case True
    then have s': "s' = ?u\<lparr>vpmm := pmm_free (PTE_FRAME e) (vpmm ?u)\<rparr>"
      using unmap_release [OF assms(1,3)] S assms(2) by simp
    have "vmm_inv as s'" if "PTE_FRAME e \<notin> tables as s"
      unfolding s' by (rule vmm_free_data) (use S that in \<open>simp_all add: PTE_FRAME_def and.assoc\<close>)
    then show ?thesis using s' S T True by simp
  qed
qed

theorem vmm_unmap_page_translation_witness:
  "\<exists>s. vmm_inv KernelAS s \<and> vmm_virt_to_phys KernelAS 0x400123 s = 0x9123
     \<and> vmm_virt_to_phys KernelAS 0x400123 (vmm_unmap_page KernelAS 0x400000 True s) = 0"
proof -
  let ?s = "snd (vmm_map_page KernelAS 0x400000 0x9000 VMM_FLAGS_USER_RW demo_vmm)"
  have fl: "VMM_FLAGS_USER_RW AND PTE_ADDR_MASK = 0" by (simp add: pte_flag_defs)
  have ok: "fst (vmm_map_page KernelAS 0x400000 0x9000 VMM_FLAGS_USER_RW demo_vmm) = 0" by code_simp
  obtain r s' where eq: "vmm_map_page KernelAS 0x400000 0x9000 VMM_FLAGS_USER_RW demo_vmm = (r, s')" by force
  have page: "same_page 0x400123 0x400000" by code_simp
  have val: "(0x9000 AND PTE_ADDR_MASK) OR VA_OFFSET 0x400123 = 0x9123"
    by (simp add: PTE_ADDR_MASK_def VA_OFFSET_def)
  have inv: "vmm_inv KernelAS s'" using vmm_map_page_steps [OF demo_vmm_inv eq] by simp
  have "vmm_virt_to_phys KernelAS 0x400123 s' = 0x9123"
    using map_translation [OF demo_vmm_inv eq fl] ok page val eq by simp
  then show ?thesis using inv page vmm_unmap_page_translation [OF inv refl refl, of "0x400000" True] by auto
qed

end
