(* ===== verification/Heap.thy ===== *)
theory Heap
  imports Vmm "HOL-Library.Monad_Syntax"
begin

text \<open>
  The kernel heap, \<^verbatim>\<open>kernel/memory/heap.c\<close>: a doubly linked list of blocks with in-line headers, first
  fit with splitting, coalescing on release, growth by whole pages mapped into the kernel space.
  A \<^verbatim>\<open>heap_block_t *\<close> is the address of the header, NULL is 0, and \<open>blocks\<close> gives the header found
  at an address. The bytes outside headers are \<open>payload\<close>; that no client range overlaps a header
  or another client's range is part of what is proved. A loop over the list is a
  \<open>partial_function\<close>: None would be a walk that never ends.
\<close>

section \<open>State\<close>

record heap_block =
  blk_size :: u64
  blk_next :: u64
  blk_prev :: u64
  blk_free :: bool

record heap =
  hvmm :: vmm
  blocks :: "u64 \<Rightarrow> heap_block"
  payload :: "u64 \<Rightarrow> u8"
  heap_head :: u64
  heap_top :: u64
  heap_total :: u64
  heap_used :: u64
  heap_ready :: bool

definition KERNEL_HEAP_BASE :: u64 where "KERNEL_HEAP_BASE = 0xFFFFFFFF90000000"
definition KERNEL_HEAP_LIMIT :: u64 where "KERNEL_HEAP_LIMIT = 0xFFFFFFFF98000000"
definition HEAP_GROW_PAGES :: u64 where "HEAP_GROW_PAGES = 4"
definition HEAP_ALIGN :: u64 where "HEAP_ALIGN = 16"
definition sizeof_heap_block :: u64 where "sizeof_heap_block = 32"
definition PAGE_SIZE_4K :: u64 where "PAGE_SIZE_4K = 0x1000"

lemmas heap_const_defs = KERNEL_HEAP_BASE_def KERNEL_HEAP_LIMIT_def HEAP_GROW_PAGES_def HEAP_ALIGN_def
  sizeof_heap_block_def PAGE_SIZE_4K_def

section \<open>Blocks\<close>

definition align_up :: "u64 \<Rightarrow> u64 \<Rightarrow> u64" where
  "align_up value align = (value + align - 1) AND NOT (align - 1)"

definition zero_bytes :: "u64 \<Rightarrow> u64 \<Rightarrow> (u64 \<Rightarrow> u8) \<Rightarrow> (u64 \<Rightarrow> u8)" where
  "zero_bytes p n m = (\<lambda>a. if a - p < n then 0 else m a)"

definition copy_bytes :: "u64 \<Rightarrow> u64 \<Rightarrow> u64 \<Rightarrow> (u64 \<Rightarrow> u8) \<Rightarrow> (u64 \<Rightarrow> u8)" where
  "copy_bytes dst src n m = fold (\<lambda>i m. m(dst + of_nat i := m (src + of_nat i))) [0..<unat n] m"

definition block_from_ptr :: "u64 \<Rightarrow> u64" where "block_from_ptr ptr = ptr - sizeof_heap_block"

definition set_prev :: "u64 \<Rightarrow> u64 \<Rightarrow> (u64 \<Rightarrow> heap_block) \<Rightarrow> (u64 \<Rightarrow> heap_block)" where
  "set_prev b p B = (if b = 0 then B else B(b := (B b)\<lparr>blk_prev := p\<rparr>))"

definition split_block :: "u64 \<Rightarrow> u64 \<Rightarrow> (u64 \<Rightarrow> heap_block) \<Rightarrow> (u64 \<Rightarrow> heap_block)" where
  "split_block block n B =
     (let remaining = blk_size (B block) - n
      in if remaining \<le> sizeof_heap_block + HEAP_ALIGN then B
         else let next = block + sizeof_heap_block + n;
                  B1 = B(next := \<lparr>blk_size = remaining - sizeof_heap_block, blk_next = blk_next (B block),
                                   blk_prev = block, blk_free = True\<rparr>);
                  B2 = set_prev (blk_next (B1 next)) next B1
              in B2(block := (B2 block)\<lparr>blk_next := next, blk_size := n\<rparr>))"

text \<open>\<^verbatim>\<open>coalesce_block\<close> lets a block absorb its successor, and then its predecessor absorb it.\<close>

definition absorb :: "u64 \<Rightarrow> u64 \<Rightarrow> (u64 \<Rightarrow> heap_block) \<Rightarrow> (u64 \<Rightarrow> heap_block)" where
  "absorb a c B =
     (let B1 = B(a := (B a)\<lparr>blk_size := blk_size (B a) + (sizeof_heap_block + blk_size (B c)),
                             blk_next := blk_next (B c)\<rparr>)
      in set_prev (blk_next (B1 a)) a B1)"

definition coalesce_block :: "u64 \<Rightarrow> (u64 \<Rightarrow> heap_block) \<Rightarrow> (u64 \<Rightarrow> heap_block)" where
  "coalesce_block block B =
     (let B1 = (let n = blk_next (B block) in if n \<noteq> 0 \<and> blk_free (B n) then absorb block n B else B);
          p = blk_prev (B1 block)
      in if p \<noteq> 0 \<and> blk_free (B1 p) then absorb p block B1 else B1)"

section \<open>Growth\<close>

definition grow_page :: "heap \<Rightarrow> int \<times> heap" where
  "grow_page s =
     (let (phys, pm) = pmm_alloc (vpmm (hvmm s));
          v1 = (hvmm s)\<lparr>vpmm := pm\<rparr>
      in if phys = 0 then (-1, s\<lparr>hvmm := v1\<rparr>)
         else let (r, v2) = vmm_map_page KernelAS (heap_top s) phys VMM_FLAGS_KERNEL_RW v1
              in if r \<noteq> 0 then (-1, s\<lparr>hvmm := v2\<lparr>vpmm := pmm_free phys (vpmm v2)\<rparr>\<rparr>)
                 else (0, s\<lparr>hvmm := v2, payload := zero_bytes (heap_top s) PAGE_SIZE_4K (payload s),
                            heap_top := heap_top s + PAGE_SIZE_4K\<rparr>))"

partial_function (option) last_block :: "(u64 \<Rightarrow> heap_block) \<Rightarrow> u64 \<Rightarrow> u64 option" where
  "last_block B tail = (if blk_next (B tail) = 0 then Some tail else last_block B (blk_next (B tail)))"

text \<open>The new block at \<open>base\<close> enters the list after \<open>tail\<close>, or is merged into a free \<open>tail\<close>.\<close>

definition append_block :: "u64 \<Rightarrow> u64 \<Rightarrow> (u64 \<Rightarrow> heap_block) \<Rightarrow> (u64 \<Rightarrow> heap_block)" where
  "append_block tail block B =
     (let B1 = B(tail := (B tail)\<lparr>blk_next := block\<rparr>);
          B2 = B1(block := (B1 block)\<lparr>blk_prev := tail\<rparr>)
      in if blk_free (B2 tail)
         then B2(tail := (B2 tail)\<lparr>blk_size := blk_size (B2 tail) + (sizeof_heap_block + blk_size (B2 block)),
                                    blk_next := 0\<rparr>)
         else B2)"

definition heap_grow :: "u64 \<Rightarrow> heap \<Rightarrow> (int \<times> heap) option" where
  "heap_grow min_payload s =
     (let bytes = align_up (min_payload + sizeof_heap_block) PAGE_SIZE_4K;
          pages = bytes div PAGE_SIZE_4K;
          grow_pages = (if pages > HEAP_GROW_PAGES then pages else HEAP_GROW_PAGES);
          grow_size = grow_pages * PAGE_SIZE_4K;
          base = heap_top s
      in if heap_top s + grow_size > KERNEL_HEAP_LIMIT then Some (-1, s)
         else let (r, s1) = loop_ok (\<lambda>_. grow_page) [0..<unat grow_pages] s
              in if r \<noteq> 0 then Some (-1, s1)
                 else let B = (blocks s1)(base := \<lparr>blk_size = grow_size - sizeof_heap_block, blk_next = 0,
                                                   blk_prev = 0, blk_free = True\<rparr>)
                      in do {
                           s2 \<leftarrow> (if heap_head s1 = 0 then Some (s1\<lparr>blocks := B, heap_head := base\<rparr>)
                                 else do {
                                   tail \<leftarrow> last_block B (heap_head s1);
                                   Some (s1\<lparr>blocks := append_block tail base B\<rparr>)
                                 });
                           Some (0, s2\<lparr>heap_total := heap_total s2 + grow_size\<rparr>)
                         })"

definition heap_init :: "heap \<Rightarrow> (int \<times> heap) option" where
  "heap_init s = heap_grow PAGE_SIZE_4K
     (s\<lparr>heap_head := 0, heap_top := KERNEL_HEAP_BASE, heap_total := 0, heap_used := 0, heap_ready := True\<rparr>)"

section \<open>Allocation and release\<close>

partial_function (option) find_fit :: "(u64 \<Rightarrow> heap_block) \<Rightarrow> u64 \<Rightarrow> u64 \<Rightarrow> u64 option" where
  "find_fit B need block =
     (if block = 0 then Some 0
      else if blk_free (B block) \<and> blk_size (B block) \<ge> need then Some block
      else find_fit B need (blk_next (B block)))"

definition take_block :: "u64 \<Rightarrow> u64 \<Rightarrow> heap \<Rightarrow> heap" where
  "take_block block need s =
     (let B1 = split_block block need (blocks s);
          B2 = B1(block := (B1 block)\<lparr>blk_free := False\<rparr>)
      in s\<lparr>blocks := B2, heap_used := heap_used s + blk_size (B2 block)\<rparr>)"

text \<open>The label \<^verbatim>\<open>retry\<close>: search, and after a successful growth search again.\<close>

partial_function (option) kmalloc_retry :: "u64 \<Rightarrow> heap \<Rightarrow> (u64 \<times> heap) option" where
  "kmalloc_retry need s =
     do {
       block \<leftarrow> find_fit (blocks s) need (heap_head s);
       if block \<noteq> 0 then Some (block + sizeof_heap_block, take_block block need s)
       else do {
         (r, s1) \<leftarrow> heap_grow need s;
         if r \<noteq> 0 then Some (0, s1) else kmalloc_retry need s1
       }
     }"

definition kmalloc :: "u64 \<Rightarrow> heap \<Rightarrow> (u64 \<times> heap) option" where
  "kmalloc sz s =
     (if \<not> heap_ready s \<or> sz = 0 then Some (0, s) else kmalloc_retry (align_up sz HEAP_ALIGN) s)"

definition kfree :: "u64 \<Rightarrow> heap \<Rightarrow> heap" where
  "kfree ptr s =
     (if ptr = 0 then s
      else let block = block_from_ptr ptr
           in if blk_free (blocks s block) then s
              else let B1 = (blocks s)(block := (blocks s block)\<lparr>blk_free := True\<rparr>)
                   in s\<lparr>blocks := coalesce_block block B1, heap_used := heap_used s - blk_size (B1 block)\<rparr>)"

definition kcalloc :: "u64 \<Rightarrow> u64 \<Rightarrow> heap \<Rightarrow> (u64 \<times> heap) option" where
  "kcalloc count sz s =
     do {
       (ptr, s1) \<leftarrow> kmalloc (count * sz) s;
       if ptr = 0 then Some (0, s1)
       else Some (ptr, s1\<lparr>payload := zero_bytes ptr (count * sz) (payload s1)\<rparr>)
     }"

definition krealloc :: "u64 \<Rightarrow> u64 \<Rightarrow> heap \<Rightarrow> (u64 \<times> heap) option" where
  "krealloc ptr sz s =
     (if ptr = 0 then kmalloc sz s
      else if sz = 0 then Some (0, kfree ptr s)
      else let block = block_from_ptr ptr; need = align_up sz HEAP_ALIGN
           in if blk_size (blocks s block) \<ge> need
              then Some (ptr, s\<lparr>blocks := split_block block need (blocks s)\<rparr>)
              else do {
                (new_ptr, s1) \<leftarrow> kmalloc sz s;
                if new_ptr = 0 then Some (0, s1)
                else let s2 = s1\<lparr>payload := copy_bytes new_ptr ptr (blk_size (blocks s1 block)) (payload s1)\<rparr>
                     in Some (new_ptr, kfree ptr s2)
              })"

declare last_block.simps [code] find_fit.simps [code] kmalloc_retry.simps [code]

definition heap_bytes_total :: "heap \<Rightarrow> u64" where "heap_bytes_total s = heap_total s"
definition heap_bytes_used :: "heap \<Rightarrow> u64" where "heap_bytes_used s = heap_used s"

section \<open>The block list\<close>

text \<open>
  The abstract heap is the list of blocks in list order: header address, size, free. \<open>lseg\<close> and
  \<open>links\<close> say that the headers implement such a list (a segment, and a whole tail), \<open>spaced\<close> that
  the blocks lie in ascending order between two addresses without overlap, aligned.
\<close>

type_synonym ablock = "u64 \<times> u64 \<times> bool"

declare heap_const_defs [simp]

definition node :: "(u64 \<Rightarrow> heap_block) \<Rightarrow> u64 \<Rightarrow> ablock \<Rightarrow> bool" where
  "node B p x = (case x of (a, n, f) \<Rightarrow> a \<noteq> 0 \<and> blk_size (B a) = n \<and> blk_free (B a) = f \<and> blk_prev (B a) = p)"

fun lseg :: "(u64 \<Rightarrow> heap_block) \<Rightarrow> u64 \<Rightarrow> u64 \<Rightarrow> ablock list \<Rightarrow> u64 \<Rightarrow> u64 \<Rightarrow> bool" where
  "lseg B p b [] q c = (p = q \<and> b = c)"
| "lseg B p b (x # xs) q c = (b = fst x \<and> node B p x \<and> lseg B b (blk_next (B b)) xs q c)"

fun links :: "(u64 \<Rightarrow> heap_block) \<Rightarrow> u64 \<Rightarrow> u64 \<Rightarrow> ablock list \<Rightarrow> bool" where
  "links B p b [] = (b = 0)"
| "links B p b (x # xs) = (b = fst x \<and> node B p x \<and> links B b (blk_next (B b)) xs)"

fun spaced :: "nat \<Rightarrow> nat \<Rightarrow> ablock list \<Rightarrow> bool" where
  "spaced lo hi [] = (lo \<le> hi)"
| "spaced lo hi ((a, n, f) # xs) = (lo \<le> unat a \<and> unat a mod 16 = 0 \<and> unat n mod 16 = 0 \<and> 0 < unat n
     \<and> spaced (unat a + 32 + unat n) hi xs)"

abbreviation addrs :: "ablock list \<Rightarrow> u64 set" where "addrs xs \<equiv> fst ` set xs"

definition live :: "ablock list \<Rightarrow> (u64 \<times> u64) set" where
  "live bs = {(a + 32, n) | a n. (a, n, False) \<in> set bs}"

lemma links_append: "links B p b (xs @ ys) \<longleftrightarrow> (\<exists>q c. lseg B p b xs q c \<and> links B q c ys)"
  by (induction xs arbitrary: p b) auto

lemma lseg_cong: "(\<And>a. a \<in> addrs xs \<Longrightarrow> B' a = B a) \<Longrightarrow> lseg B' p b xs q c = lseg B p b xs q c"
  by (induction xs arbitrary: p b) (auto simp: node_def split: prod.splits)

lemma links_cong: "(\<And>a. a \<in> addrs xs \<Longrightarrow> B' a = B a) \<Longrightarrow> links B' p b xs = links B p b xs"
  by (induction xs arbitrary: p b) (auto simp: node_def split: prod.splits)

lemma links_nonzero: "links B p b xs \<Longrightarrow> 0 \<notin> addrs xs"
  by (induction xs arbitrary: p b) (auto simp: node_def split: prod.splits)

lemma links_set_prev:
  assumes "links B p b xs" "distinct (map fst xs)"
  shows "links (set_prev b p' B) p' b xs"
proof (cases xs)
  case (Cons x ys)
  have "links (set_prev b p' B) b (blk_next (B b)) ys = links B b (blk_next (B b)) ys"
    by (rule links_cong) (use Cons assms in \<open>auto simp: set_prev_def image_iff\<close>)
  then show ?thesis using assms Cons by (auto simp: set_prev_def node_def split: prod.splits)
qed (use assms in \<open>simp add: set_prev_def\<close>)

lemma spaced_append: "spaced lo hi (xs @ ys) \<longleftrightarrow> (\<exists>mid. spaced lo mid xs \<and> spaced mid hi ys)"
proof (induction xs arbitrary: lo)
  case Nil
  show ?case by (cases ys) (auto intro: exI [of _ lo] order_trans)
qed auto

lemma spaced_le: "spaced lo hi xs \<Longrightarrow> lo \<le> hi"
  by (induction lo hi xs rule: spaced.induct) auto

lemma spaced_weaken: "spaced lo hi xs \<Longrightarrow> lo' \<le> lo \<Longrightarrow> hi \<le> hi' \<Longrightarrow> spaced lo' hi' xs"
  by (induction lo hi xs arbitrary: lo' rule: spaced.induct) auto

lemma spaced_mem:
  "spaced lo hi xs \<Longrightarrow> (a, n, f) \<in> set xs \<Longrightarrow>
     lo \<le> unat a \<and> unat a + 32 + unat n \<le> hi \<and> unat a mod 16 = 0 \<and> unat n mod 16 = 0 \<and> 0 < unat n"
proof (induction lo hi xs rule: spaced.induct)
  case (2 lo hi b m g xs)
  then show ?case using spaced_le [of "unat b + 32 + unat m" hi xs] by auto
qed simp

lemma spaced_distinct: "spaced lo hi xs \<Longrightarrow> distinct (map fst xs)"
proof (induction lo hi xs rule: spaced.induct)
  case (2 lo hi a n f xs)
  have "a \<notin> addrs xs"
  proof
    assume "a \<in> addrs xs"
    then obtain m g where "(a, m, g) \<in> set xs" by force
    moreover have "spaced (unat a + 32 + unat n) hi xs" using 2(2) by simp
    ultimately show False using spaced_mem [of "unat a + 32 + unat n" hi xs a m g] by simp
  qed
  then show ?case using 2 by auto
qed simp

text \<open>Where the other blocks lie, seen from a block in the middle.\<close>

lemma spaced_around:
  assumes "spaced lo hi (xs @ (a, n, f) # ys)"
  shows "\<And>b. b \<in> addrs xs \<Longrightarrow> unat b + 32 \<le> unat a" "\<And>b. b \<in> addrs ys \<Longrightarrow> unat a + 32 + unat n \<le> unat b"
    "distinct (map fst ys)" "unat a + 32 + unat n \<le> hi" "lo \<le> unat a"
proof -
  obtain mid where m: "spaced lo mid xs" "spaced mid hi ((a, n, f) # ys)"
    using assms by (auto simp: spaced_append)
  fix b
  show "b \<in> addrs xs \<Longrightarrow> unat b + 32 \<le> unat a" using spaced_mem [OF m(1)] m(2) by fastforce
  show "b \<in> addrs ys \<Longrightarrow> unat a + 32 + unat n \<le> unat b" using m(2) spaced_mem [of _ hi ys] by fastforce
  show "distinct (map fst ys)" using m(2) spaced_distinct by auto
  show "unat a + 32 + unat n \<le> hi" using m(2) spaced_le by auto
  show "lo \<le> unat a" using m spaced_le [OF m(1)] by auto
qed

lemma live_simps [simp]:
  "live [] = {}" "live ((a, n, f) # xs) = (if f then {} else {(a + 32, n)}) \<union> live xs"
  "live (xs @ ys) = live xs \<union> live ys"
  by (auto simp: live_def)

section \<open>The block operations on the list\<close>

lemma split_links:
  assumes L: "links B p b (xs @ (a, n, f) # ys)" and S: "spaced lo hi (xs @ (a, n, f) # ys)"
    and hi: "hi < 2 ^ 64" and need: "need \<le> n" "0 < unat need" "unat need mod 16 = 0"
  obtains m zs where "links (split_block a need B) p b (xs @ (a, m, f) # zs)"
    "spaced lo hi (xs @ (a, m, f) # zs)" "need \<le> m" "zs = ys \<or> (\<exists>c k. zs = (c, k, True) # ys)"
proof (cases "n - need \<le> 48")
  case True
  obtain q where "node B q (a, n, f)" using L by (auto simp: links_append)
  then have "split_block a need B = B" using True by (simp add: split_block_def node_def)
  then show ?thesis using L S need that by simp
next
  case False
  obtain q where q: "lseg B p b xs q a" "node B q (a, n, f)" "links B a (blk_next (B a)) ys"
    using L by (auto simp: links_append)
  note A = spaced_around [OF S]
  define c where "c = a + 32 + need"
  have diff: "unat (n - need) = unat n - unat need" using need(1) by (rule unat_sub_le)
  have le: "unat need \<le> unat n" using need(1) by (simp add: word_le_nat_alt)
  have big: "48 < unat n - unat need" using False diff by (simp add: word_le_nat_alt not_le)
  have a32: "unat (a + 32) = unat a + 32" using A(4) hi by (simp add: unat_add_u64)
  have c: "unat c = unat a + 32 + unat need"
    unfolding c_def using A(4) hi le a32 by (simp add: unat_add_u64)
  have cy: "c \<notin> addrs ys" "c \<noteq> a" "c \<notin> addrs xs" "c \<noteq> 0" "a \<notin> addrs ys" "a \<notin> addrs xs"
    using A(1,2) c big by fastforce+
  have head: "blk_next (B a) = 0 \<or> blk_next (B a) \<in> addrs ys" using q(3) by (cases ys) auto
  have a0: "a \<noteq> 0" using q(2) by (simp add: node_def)
  then have hn: "blk_next (B a) \<noteq> a" "blk_next (B a) \<noteq> c"
    using head cy by metis+
  have xy: "addrs xs \<inter> addrs ys = {}" using A(1,2) by fastforce
  let ?k = "n - need - 32"
  let ?B1 = "B(c := \<lparr>blk_size = ?k, blk_next = blk_next (B a), blk_prev = a, blk_free = True\<rparr>)"
  let ?B2 = "set_prev (blk_next (B a)) c ?B1"
  let ?B' = "?B2(a := (?B2 a)\<lparr>blk_next := c, blk_size := need\<rparr>)"
  have eq: "split_block a need B = ?B'"
    using False q(2) by (simp add: split_block_def Let_def node_def c_def)
  have other: "?B' x = B x" if "x \<noteq> a" "x \<noteq> c" "x \<noteq> blk_next (B a)" for x
    using that by (simp add: set_prev_def)
  have "lseg ?B' p b xs q a = lseg B p b xs q a"
  proof (rule lseg_cong)
    fix x assume x: "x \<in> addrs xs"
    have "0 \<notin> addrs xs" using links_nonzero [OF L] by (simp add: image_Un)
    then have "x \<noteq> blk_next (B a)" using x head xy by (metis disjoint_iff)
    moreover have "x \<noteq> a" "x \<noteq> c" using x cy by blast+
    ultimately show "?B' x = B x" by (rule other [rotated 2])
  qed
  moreover have "node ?B' q (a, need, f)"
    using q(2) cy hn by (simp add: node_def set_prev_def)
  moreover have "blk_next (?B' a) = c" by simp
  moreover have "node ?B' a (c, ?k, True)" "blk_next (?B' c) = blk_next (B a)"
    using cy hn by (simp_all add: node_def set_prev_def)
  moreover have "links ?B' c (blk_next (B a)) ys"
  proof -
    have "links ?B1 a (blk_next (B a)) ys"
      using q(3) by (subst links_cong [where B = B]) (use cy in auto)
    then have "links ?B2 c (blk_next (B a)) ys" by (rule links_set_prev) (rule A(3))
    then show ?thesis by (subst links_cong [where B = ?B2]) (use cy in auto)
  qed
  ultimately have links': "links ?B' p b (xs @ (a, need, f) # (c, ?k, True) # ys)"
    using q(1) by (auto simp: links_append)
  have k: "unat ?k = unat n - unat need - 32"
    using big diff by (subst unat_sub_le) (auto simp: word_le_nat_alt)
  have dv: "16 dvd unat need" "16 dvd unat n" "16 dvd unat a"
    using S need(3) by (auto simp: spaced_append mod_eq_0_iff_dvd)
  then have "16 dvd unat n - unat need - 32" "16 dvd unat a + 32 + unat need"
    by (auto intro!: dvd_diff_nat dvd_add)
  moreover obtain mid where mid: "spaced lo mid xs" "mid \<le> unat a" "spaced (unat a + 32 + unat n) hi ys"
    using S by (auto simp: spaced_append)
  moreover have ce: "unat c + 32 + unat ?k = unat a + 32 + unat n" using big c k by simp
  have "spaced (unat c + 32 + unat ?k) hi ys" unfolding ce by (rule mid(3))
  ultimately have "spaced mid hi ((a, need, f) # (c, ?k, True) # ys)"
    using need(2) big dv c k by (simp add: mod_eq_0_iff_dvd)
  then have "spaced lo hi (xs @ (a, need, f) # (c, ?k, True) # ys)"
    using mid(1) by (auto simp: spaced_append)
  then show ?thesis using links' eq that by auto
qed

lemma absorb_links:
  assumes L: "links B p b (xs @ (a, n, f) # (c, m, g) # ys)"
    and S: "spaced lo hi (xs @ (a, n, f) # (c, m, g) # ys)" and hi: "hi < 2 ^ 64"
  shows "links (absorb a c B) p b (xs @ (a, n + (32 + m), f) # ys)"
    "spaced lo hi (xs @ (a, n + (32 + m), f) # ys)"
proof -
  let ?n = "n + (32 + m)"
  obtain q where q: "lseg B p b xs q a" "node B q (a, n, f)" "blk_next (B a) = c" "node B a (c, m, g)"
    "links B c (blk_next (B c)) ys"
    using L by (auto simp: links_append)
  note A = spaced_around [OF S]
  have S2: "spaced lo hi ((xs @ [(a, n, f)]) @ (c, m, g) # ys)" using S by simp
  note C = spaced_around [OF S2]
  have ca: "unat a + 32 + unat n \<le> unat c" using A(2) [of c] by simp
  have cy: "a \<notin> addrs ys" "c \<notin> addrs ys" "c \<noteq> a" "a \<notin> addrs xs"
    using A(1) [of a] A(2) [of a] A(3) ca by auto
  have nz: "a \<noteq> 0" "0 \<notin> addrs xs" "addrs xs \<inter> addrs ys = {}"
  proof -
    show "a \<noteq> 0" using q(2) by (simp add: node_def)
    show "0 \<notin> addrs xs" using links_nonzero [OF L] by (simp add: image_Un)
    show "addrs xs \<inter> addrs ys = {}" using A(1) A(2) by fastforce
  qed
  have head: "blk_next (B c) = 0 \<or> blk_next (B c) \<in> addrs ys" using q(5) by (cases ys) auto
  have hn: "blk_next (B c) \<noteq> a" "blk_next (B c) \<notin> addrs xs"
    using head cy nz by (metis, metis disjoint_iff)
  have sz: "blk_size (B a) = n" "blk_size (B c) = m" using q by (simp_all add: node_def)
  define B1 where "B1 = B(a := (B a)\<lparr>blk_size := ?n, blk_next := blk_next (B c)\<rparr>)"
  have eq: "absorb a c B = set_prev (blk_next (B c)) a B1"
    by (simp add: absorb_def Let_def sz B1_def)
  have same: "absorb a c B x = B1 x" if "x \<noteq> blk_next (B c)" for x
    using that by (simp add: eq set_prev_def)
  have "lseg (absorb a c B) p b xs q a = lseg B p b xs q a"
  proof (rule lseg_cong)
    fix x assume x: "x \<in> addrs xs"
    then have "x \<noteq> blk_next (B c)" "x \<noteq> a" using hn(2) cy(4) by blast+
    then show "absorb a c B x = B x" using same by (simp add: B1_def)
  qed
  moreover have "absorb a c B a = B1 a" by (rule same) (use hn in metis)
  then have "node (absorb a c B) q (a, ?n, f)" "blk_next (absorb a c B a) = blk_next (B c)"
    using q(2) by (simp_all add: node_def B1_def)
  moreover have "links (absorb a c B) a (blk_next (B c)) ys"
  proof -
    have "links B1 c (blk_next (B c)) ys"
      using q(5) by (subst links_cong [where B = B]) (use cy in \<open>auto simp: B1_def\<close>)
    then show ?thesis unfolding eq by (rule links_set_prev) (use A(3) in simp)
  qed
  ultimately show "links (absorb a c B) p b (xs @ (a, ?n, f) # ys)"
    using q(1) by (auto simp: links_append)
  have s1: "unat (32 + m) = 32 + unat m" using C(4) hi by (subst unat_add_u64) simp_all
  then have un: "unat ?n = unat n + (32 + unat m)"
    using C(4) ca hi by (subst unat_add_u64) simp_all
  obtain mid where mid: "spaced lo mid xs" "mid \<le> unat a" "spaced (unat c + 32 + unat m) hi ys"
    using S by (auto simp: spaced_append)
  have "16 dvd unat a" "16 dvd unat n" "16 dvd unat m" using S by (auto simp: spaced_append mod_eq_0_iff_dvd)
  moreover have "spaced (unat a + 32 + unat ?n) hi ys"
    by (rule spaced_weaken [OF mid(3)]) (use un ca in simp_all)
  ultimately have "spaced mid hi ((a, ?n, f) # ys)" using mid(2) un by (simp add: mod_eq_0_iff_dvd)
  then show "spaced lo hi (xs @ (a, ?n, f) # ys)" using mid(1) by (auto simp: spaced_append)
qed

lemma links_mem: "links B p b xs \<Longrightarrow> (a, n, f) \<in> set xs \<Longrightarrow> blk_size (B a) = n \<and> blk_free (B a) = f"
  by (induction xs arbitrary: p b) (auto simp: node_def split: prod.splits)

lemma lseg_last: "lseg B p b xs q c \<Longrightarrow> q = (if xs = [] then p else fst (last xs))"
  by (induction xs arbitrary: p b) auto

lemma coalesce_links:
  assumes L: "links B 0 b (xs @ (a, n, True) # ys)" and S: "spaced lo hi (xs @ (a, n, True) # ys)"
    and hi: "hi < 2 ^ 64"
  obtains bs where "links (coalesce_block a B) 0 b bs" "spaced lo hi bs" "live bs = live (xs @ ys)"
proof -
  obtain q where q: "lseg B 0 b xs q a" "node B q (a, n, True)" "links B a (blk_next (B a)) ys"
    using L by (auto simp: links_append)
  define B1 where "B1 = (let c = blk_next (B a) in if c \<noteq> 0 \<and> blk_free (B c) then absorb a c B else B)"
  obtain m zs where one: "links B1 0 b (xs @ (a, m, True) # zs)" "spaced lo hi (xs @ (a, m, True) # zs)"
    "live zs = live ys"
  proof (cases "blk_next (B a) \<noteq> 0 \<and> blk_free (B (blk_next (B a)))")
    case True
    then obtain c k zs where "ys = (c, k, True) # zs" "blk_next (B a) = c"
      using q(3) by (cases ys) (auto simp: node_def split: prod.splits)
    moreover from this have "B1 = absorb a c B" using True by (simp add: B1_def)
    ultimately show ?thesis
      using absorb_links [of B 0 b xs a n True c k True zs lo hi] L S hi
      by (intro that [of "n + (32 + k)" zs]) simp_all
  next
    case False
    then have "B1 = B" by (auto simp: B1_def Let_def)
    then show ?thesis using L S that by simp
  qed
  have q1: "q = blk_prev (B1 a)" "lseg B1 0 b xs (blk_prev (B1 a)) a"
    using one(1) lseg_last lseg_last [OF q(1)] by (auto simp: links_append node_def) metis+
  have co: "coalesce_block a B = (let p = blk_prev (B1 a) in if p \<noteq> 0 \<and> blk_free (B1 p) then absorb p a B1 else B1)"
    by (simp add: coalesce_block_def B1_def Let_def)
  show ?thesis
  proof (cases "q \<noteq> 0 \<and> blk_free (B1 q)")
    case True
    have "xs \<noteq> []" using True lseg_last [OF q(1)] by auto
    then obtain ws y where "xs = ws @ [y]" by (metis append_butlast_last_id)
    moreover obtain p k g where "y = (p, k, g)" by (cases y)
    ultimately have xs: "xs = ws @ [(p, k, g)]" by simp
    then have p: "q = p" using lseg_last [OF q(1)] by simp
    have g: "g" using links_mem [OF one(1), of p k g] True xs p by simp
    have "coalesce_block a B = absorb p a B1" using co True q1 p by simp
    then show ?thesis
      using absorb_links [of B1 0 b ws p k True a m True zs lo hi] one hi xs g
      by (intro that [of "ws @ (p, k + (32 + m), True) # zs"]) simp_all
  next
    case False
    then have "coalesce_block a B = B1" using co q1 by (auto simp: Let_def)
    then show ?thesis using one that by simp
  qed
qed

lemma append_links:
  assumes L: "links B p b (xs @ [(t, n, f)])" and S: "spaced lo hi (xs @ [(t, n, f)])"
    and new: "B base = \<lparr>blk_size = k, blk_next = 0, blk_prev = 0, blk_free = True\<rparr>" "hi \<le> unat base" "base \<noteq> 0"
    and al: "unat base mod 16 = 0" "unat k mod 16 = 0" "0 < unat k"
    and hi': "unat base + 32 + unat k \<le> hi'" "hi' < 2 ^ 64"
  obtains bs where "links (append_block t base B) p b bs" "spaced lo hi' bs" "live bs = live (xs @ [(t, n, f)])"
proof -
  obtain q where q: "lseg B p b xs q t" "node B q (t, n, f)" "blk_next (B t) = 0"
    using L by (auto simp: links_append)
  obtain mid where mid: "spaced lo mid xs" "mid \<le> unat t" "unat t + 32 + unat n \<le> hi"
    using S by (auto simp: spaced_append)
  note A = spaced_around [OF S]
  have ne: "base \<noteq> t" "t \<noteq> base" using mid new(2) by auto
  have out: "base \<notin> addrs xs" "t \<notin> addrs xs" using A(1) [of base] A(1) [of t] mid new(2) by auto
  have seg: "lseg (append_block t base B) p b xs q t"
    using q(1) by (subst lseg_cong [where B = B]) (use out in \<open>auto simp: append_block_def Let_def\<close>)
  show ?thesis
  proof (cases f)
    case True
    have "node (append_block t base B) q (t, n + (32 + k), True) \<and> blk_next (append_block t base B t) = 0"
      using q True new(1) ne by (simp add: node_def append_block_def Let_def)
    then have "links (append_block t base B) p b (xs @ [(t, n + (32 + k), True)])"
      using seg by (auto simp: links_append)
    moreover have "unat (n + (32 + k)) = unat n + (32 + unat k)"
    proof -
      have "unat (32 + k) = 32 + unat k" using hi' by (subst unat_add_u64) simp_all
      then show ?thesis using hi' mid(3) new(2) by (subst unat_add_u64) simp_all
    qed
    then have "spaced lo hi' (xs @ [(t, n + (32 + k), True)])"
      using mid S al hi' new(2) by (auto simp: spaced_append mod_eq_0_iff_dvd)
    ultimately show ?thesis using True by (intro that [of "xs @ [(t, n + (32 + k), True)]"]) simp_all
  next
    case False
    have "node (append_block t base B) q (t, n, f) \<and> blk_next (append_block t base B t) = base
        \<and> node (append_block t base B) t (base, k, True) \<and> blk_next (append_block t base B base) = 0"
      using q False new ne by (simp add: node_def append_block_def Let_def)
    then have "links (append_block t base B) p b (xs @ [(t, n, f), (base, k, True)])"
      using seg by (auto simp: links_append)
    moreover have "spaced lo hi' (xs @ [(t, n, f), (base, k, True)])"
      using mid S al hi' new(2) by (auto simp: spaced_append)
    ultimately show ?thesis using False by (intro that [of "xs @ [(t, n, f), (base, k, True)]"]) simp_all
  qed
qed

lemma find_fit_links:
  "links B p b bs \<Longrightarrow> find_fit B need b =
     Some (case find (\<lambda>(a, n, f). f \<and> need \<le> n) bs of None \<Rightarrow> 0 | Some x \<Rightarrow> fst x)"
proof (induction bs arbitrary: p b)
  case Nil
  then show ?case by (subst find_fit.simps) simp
next
  case (Cons x bs)
  then show ?case by (subst find_fit.simps) (auto simp: node_def split: prod.splits)
qed

lemma last_block_links: "links B p b (xs @ [x]) \<Longrightarrow> last_block B b = Some (fst x)"
proof (induction xs arbitrary: p b)
  case Nil
  then show ?case by (subst last_block.simps) auto
next
  case (Cons y xs)
  have "blk_next (B b) \<noteq> 0" using Cons.prems by (cases xs) (auto simp: node_def split: prod.splits)
  moreover have "last_block B (blk_next (B b)) = Some (fst x)"
    by (rule Cons.IH [of b]) (use Cons.prems in auto)
  ultimately show ?case by (subst last_block.simps) simp
qed

section \<open>The representation of the heap\<close>

text \<open>Every address of the managed range is mapped in the kernel space.\<close>

definition heap_core :: "heap \<Rightarrow> bool" where
  "heap_core s \<longleftrightarrow> vmm_inv KernelAS (hvmm s) \<and> heap_top s AND -4096 = heap_top s
     \<and> KERNEL_HEAP_BASE \<le> heap_top s \<and> heap_top s \<le> KERNEL_HEAP_LIMIT
     \<and> (\<forall>a. KERNEL_HEAP_BASE \<le> a \<and> a < heap_top s \<longrightarrow> vmm_virt_to_phys KernelAS a (hvmm s) \<noteq> 0)"

definition heap_repr :: "heap \<Rightarrow> ablock list \<Rightarrow> bool" where
  "heap_repr s bs \<longleftrightarrow> heap_ready s \<and> heap_core s \<and> links (blocks s) 0 (heap_head s) bs
     \<and> spaced (unat KERNEL_HEAP_BASE) (unat (heap_top s)) bs"

text \<open>What growing pages leaves alone.\<close>

definition grows :: "heap \<Rightarrow> heap \<Rightarrow> bool" where
  "grows s s' \<longleftrightarrow> heap_ready s' = heap_ready s \<and> heap_used s' = heap_used s \<and> heap_top s \<le> heap_top s'
     \<and> (\<forall>a < heap_top s. payload s' a = payload s a)"

lemma grows_refl [simp]: "grows s s"
  by (simp add: grows_def)

lemma grows_trans: "grows s t \<Longrightarrow> grows t u \<Longrightarrow> grows s u"
  unfolding grows_def by (auto intro: order_trans dest: order_less_le_trans)

lemma zero_bytes_outside: "a < p \<Longrightarrow> unat p + unat n \<le> 2 ^ 64 \<Longrightarrow> zero_bytes p n m a = m a"
proof -
  assume "a < p" "unat p + unat n \<le> 2 ^ 64"
  then have "unat (a - p) = 2 ^ 64 + unat a - unat p"
    by (simp add: unat_sub_if' word_less_nat_alt not_le)
  then have "\<not> a - p < n" using \<open>unat p + unat n \<le> 2 ^ 64\<close> by (simp add: word_less_nat_alt)
  then show ?thesis by (simp add: zero_bytes_def)
qed

text \<open>One page of growth: mapped to a fresh frame, or everything given back.\<close>

lemma page_cases:
  fixes a top :: u64
  assumes "top AND -4096 = top" "a < top + 0x1000" "unat top + 4096 < 2 ^ 64"
  shows "a < top \<or> same_page a top"
proof (cases "a < top")
  case False
  have t: "unat (top + 0x1000) = unat top + 4096" using assms(3) by (subst unat_add_u64) simp_all
  have "unat (a - top) = unat a - unat top" using False by (intro unat_sub_le) simp
  then have "a - top < 0x1000" using assms(2) t False by (simp add: word_less_nat_alt)
  then show ?thesis using same_page_offset [OF assms(1), of "a - top"] by simp
qed simp

lemma or_nonzero: "(a :: u64) \<noteq> 0 \<Longrightarrow> a OR b \<noteq> 0"
  by (simp add: or_eq_0_iff)

lemma grow_page_spec:
  assumes core: "heap_core s" and room: "unat (heap_top s) + 4096 \<le> unat KERNEL_HEAP_LIMIT"
    and eq: "grow_page s = (r, s')"
  shows "heap_core s' \<and> grows s s' \<and> blocks s' = blocks s \<and> heap_head s' = heap_head s \<and> heap_total s' = heap_total s
     \<and> (r = 0 \<and> unat (heap_top s') = unat (heap_top s) + 4096 \<or> r = -1 \<and> heap_top s' = heap_top s)"
proof -
  have C: "vmm_inv KernelAS (hvmm s)" "heap_top s AND -4096 = heap_top s" "KERNEL_HEAP_BASE \<le> heap_top s"
    "heap_top s \<le> KERNEL_HEAP_LIMIT"
    "\<And>a. KERNEL_HEAP_BASE \<le> a \<Longrightarrow> a < heap_top s \<Longrightarrow> vmm_virt_to_phys KernelAS a (hvmm s) \<noteq> 0"
    using core by (auto simp: heap_core_def)
  obtain phys pm where al: "pmm_alloc (vpmm (hvmm s)) = (phys, pm)" by force
  show ?thesis
  proof (cases "phys = 0")
    case True
    then have "pm = vpmm (hvmm s)" using pmm_frames.alloc_fail vmm_inv_D(1) [OF C(1)] al by blast
    then have "s' = s" "r = -1" using eq al True by (auto simp: grow_page_def)
    then show ?thesis using core by simp
  next
    case False
    let ?v1 = "(hvmm s)\<lparr>vpmm := pm\<rparr>"
    note F = vmm_take_frame [OF C(1) al False]
    obtain r2 v2 where m: "vmm_map_page KernelAS (heap_top s) phys VMM_FLAGS_KERNEL_RW ?v1 = (r2, v2)" by force
    note M = vmm_map_page_steps [OF F(1) m]
    have fl: "VMM_FLAGS_KERNEL_RW AND PTE_ADDR_MASK = 0" by (simp add: pte_flag_defs)
    have T: "vmm_virt_to_phys KernelAS w v2 = (if r2 = 0 \<and> same_page w (heap_top s)
        then phys OR VA_OFFSET w else vmm_virt_to_phys KernelAS w (hvmm s))" for w
      using map_translation [OF F(1) m fl] F(5) by simp
    have mapped: "vmm_virt_to_phys KernelAS a v2 \<noteq> 0" if "KERNEL_HEAP_BASE \<le> a" "a < heap_top s" for a
      using T [of a] C(5) [OF that] False or_nonzero by auto
    show ?thesis
    proof (cases "r2 = 0")
      case False2: False
      have "phys \<in> owned_addrs (vpmm v2)" "phys \<notin> tables KernelAS v2"
        using M F(2,4) by (auto simp: grown_def)
      then have "vmm_inv KernelAS (v2\<lparr>vpmm := pmm_free phys (vpmm v2)\<rparr>)"
        using vmm_give_frame [OF _ _ False] M by blast
      moreover have "r = -1" "s' = s\<lparr>hvmm := v2\<lparr>vpmm := pmm_free phys (vpmm v2)\<rparr>\<rparr>"
        using eq al False False2 m by (auto simp: grow_page_def)
      ultimately show ?thesis using C mapped by (auto simp: heap_core_def grows_def)
    next
      case True
      have s': "r = 0" "s' = s\<lparr>hvmm := v2, payload := zero_bytes (heap_top s) 0x1000 (payload s),
          heap_top := heap_top s + 0x1000\<rparr>"
        using eq al False True m by (auto simp: grow_page_def)
      have top: "unat (heap_top s + 0x1000) = unat (heap_top s) + 4096"
        using room by (subst unat_add_u64) simp_all
      have "(heap_top s + 0x1000) AND -4096 = heap_top s + 0x1000"
        using C(2) top by (simp add: page_aligned_iff)
      moreover have "vmm_virt_to_phys KernelAS a v2 \<noteq> 0" if "KERNEL_HEAP_BASE \<le> a" "a < heap_top s + 0x1000" for a
        using page_cases [OF C(2) that(2)] mapped [OF that(1)] T [of a] True False room or_nonzero by auto
      moreover have "payload s' a = payload s a" if "a < heap_top s" for a
        using zero_bytes_outside [OF that, of "0x1000"] room s' by simp
      ultimately show ?thesis
        using s' top M C room by (auto simp: heap_core_def grows_def word_le_nat_alt)
    qed
  qed
qed

lemma grow_loop_spec:
  assumes "heap_core s" "unat (heap_top s) + 4096 * length xs \<le> unat KERNEL_HEAP_LIMIT"
    "loop_ok (\<lambda>_. grow_page) xs s = (r, s')"
  shows "heap_core s' \<and> grows s s' \<and> blocks s' = blocks s \<and> heap_head s' = heap_head s \<and> heap_total s' = heap_total s
     \<and> (r = 0 \<longrightarrow> unat (heap_top s') = unat (heap_top s) + 4096 * length xs)"
  using assms
proof (induction xs arbitrary: s)
  case (Cons x xs)
  obtain r1 s1 where g: "grow_page s = (r1, s1)" by force
  have "unat (heap_top s) + 4096 \<le> unat KERNEL_HEAP_LIMIT" using Cons.prems(2) by simp
  note G = grow_page_spec [OF Cons.prems(1) this g]
  show ?case
  proof (cases "r1 = 0")
    case True
    then have "heap_core s1" "loop_ok (\<lambda>_. grow_page) xs s1 = (r, s')"
      "unat (heap_top s1) + 4096 * length xs \<le> unat KERNEL_HEAP_LIMIT"
      using G Cons.prems g by auto
    note IH = Cons.IH [OF this(1,3,2)]
    have "grows s s'" using G IH grows_trans by blast
    then show ?thesis using G IH True by auto
  next
    case False
    then have "s' = s1" "r = -1" using Cons.prems(3) g by auto
    then show ?thesis using G by auto
  qed
qed simp

lemma unat_align_up_4096:
  assumes "unat v + 4095 < 2 ^ 64"
  shows "unat (align_up v 0x1000) = (unat v + 4095) div 4096 * 4096"
proof -
  have "v + 0x1000 - 1 = v + 0xFFF" by simp
  moreover have "unat (0xFFF + v) = unat v + 4095" using assms by (subst unat_add_u64) simp_all
  ultimately show ?thesis by (simp add: align_up_def unat_and_m4096)
qed

lemma unat_align_up_16:
  assumes "unat v + 15 < 2 ^ 64"
  shows "unat (align_up v 16) = (unat v + 15) div 16 * 16"
proof -
  have "v + 16 - 1 = v + 15" by simp
  moreover have "unat (15 + v) = unat v + 15" using assms by (subst unat_add_u64) simp_all
  ultimately show ?thesis by (simp add: align_up_def unat_and_m16)
qed

text \<open>The largest request the limit check is sound for: beyond it \<^verbatim>\<open>heap_top + grow_size\<close> may wrap.\<close>

definition heap_request_max :: u64 where "heap_request_max = 0x60000000"

lemma grow_size_unat:
  assumes "need \<le> heap_request_max"
  defines "gp \<equiv> let pages = align_up (need + 32) 0x1000 div 0x1000 in if pages > 4 then pages else 4"
  shows "4 \<le> unat gp" "unat gp \<le> 0x60001" "unat (gp * 0x1000) = 4096 * unat gp" "unat need + 32 \<le> 4096 * unat gp"
proof -
  have n: "unat need \<le> 0x60000000" using assms(1) by (simp add: heap_request_max_def word_le_nat_alt)
  then have a: "unat (need + 32) = unat need + 32" by (subst unat_add_u64) simp_all
  have p: "unat (align_up (need + 32) 0x1000 div 0x1000) = (unat need + 32 + 4095) div 4096"
    using n a by (simp add: unat_div unat_align_up_4096)
  then show "4 \<le> unat gp" by (auto simp: gp_def Let_def word_less_nat_alt word_le_nat_alt)
  have g: "unat gp = max 4 ((unat need + 32 + 4095) div 4096)"
    using p by (auto simp: gp_def Let_def word_less_nat_alt max_def)
  have "(unat need + 32 + 4095) div 4096 \<le> (0x60000000 + 32 + 4095) div 4096" using n by (intro div_le_mono) simp
  then show le: "unat gp \<le> 0x60001" unfolding g by simp
  then show "unat (gp * 0x1000) = 4096 * unat gp" using unat_mult_lem [of gp "0x1000"] by simp
  have "unat need + 32 \<le> 4096 * ((unat need + 32 + 4095) div 4096)" by linarith
  also have "\<dots> \<le> 4096 * unat gp" unfolding g by simp
  finally show "unat need + 32 \<le> 4096 * unat gp" .
qed

text \<open>Growth keeps every block in use and either fails or moves the end of the heap up.\<close>

lemma heap_grow_spec:
  assumes R: "heap_repr s bs" and need: "need \<le> heap_request_max"
  obtains r s' bs' where "heap_grow need s = Some (r, s')" "heap_repr s' bs'" "grows s s'" "live bs' = live bs"
    "r = -1 \<or> r = 0 \<and> heap_top s < heap_top s'"
proof -
  define gp where "gp = (let pages = align_up (need + 32) 0x1000 div 0x1000 in if pages > 4 then pages else 4)"
  note G = grow_size_unat [OF need, folded gp_def]
  have core: "heap_core s" and L: "links (blocks s) 0 (heap_head s) bs"
    and S: "spaced (unat KERNEL_HEAP_BASE) (unat (heap_top s)) bs" using R by (auto simp: heap_repr_def)
  have eq: "heap_grow need s = (if heap_top s + gp * 0x1000 > KERNEL_HEAP_LIMIT then Some (-1, s)
         else let (r, s1) = loop_ok (\<lambda>_. grow_page) [0..<unat gp] s
              in if r \<noteq> 0 then Some (-1, s1)
                 else let B = (blocks s1)(heap_top s := \<lparr>blk_size = gp * 0x1000 - 32, blk_next = 0,
                                                   blk_prev = 0, blk_free = True\<rparr>)
                      in Option.bind (if heap_head s1 = 0 then Some (s1\<lparr>blocks := B, heap_head := heap_top s\<rparr>)
                                 else Option.bind (last_block B (heap_head s1))
                                   (\<lambda>tail. Some (s1\<lparr>blocks := append_block tail (heap_top s) B\<rparr>)))
                         (\<lambda>s2. Some (0, s2\<lparr>heap_total := heap_total s2 + gp * 0x1000\<rparr>)))"
    unfolding heap_grow_def Let_def gp_def heap_const_defs by (rule refl)
  show ?thesis
  proof (cases "heap_top s + gp * 0x1000 > KERNEL_HEAP_LIMIT")
    case True
    then show ?thesis using eq R that by simp
  next
    case False
    have top: "heap_top s \<le> KERNEL_HEAP_LIMIT" "KERNEL_HEAP_BASE \<le> heap_top s" "heap_top s AND -4096 = heap_top s"
      using core by (auto simp: heap_core_def)
    have "unat (heap_top s) \<le> 0xFFFFFFFF98000000" using top(1) by (simp add: word_le_nat_alt)
    then have "unat (heap_top s + gp * 0x1000) = unat (heap_top s) + 4096 * unat gp"
      using G(2,3) by (subst unat_add_u64) simp_all
    then have room: "unat (heap_top s) + 4096 * length [0..<unat gp] \<le> unat KERNEL_HEAP_LIMIT"
      using False by (simp add: word_less_nat_alt not_less)
    obtain r s1 where loop: "loop_ok (\<lambda>_. grow_page) [0..<unat gp] s = (r, s1)" by force
    note P = grow_loop_spec [OF core room loop]
    show ?thesis
    proof (cases "r = 0")
      case False2: False
      have le: "unat (heap_top s) \<le> unat (heap_top s1)" using P by (auto simp: grows_def word_le_nat_alt)
      have "heap_repr s1 bs" using P R spaced_weaken [OF S order_refl le] by (auto simp: heap_repr_def grows_def)
      then show ?thesis using eq False False2 loop P that by simp
    next
      case True
      define base where "base = heap_top s"
      let ?k = "gp * 0x1000 - 32"
      define B where "B = (blocks s1)(base := \<lparr>blk_size = ?k, blk_next = 0, blk_prev = 0, blk_free = True\<rparr>)"
      have k: "unat ?k = 4096 * unat gp - 32" using G(1,3) by (subst unat_sub_le) (simp_all add: word_le_nat_alt)
      have top1: "unat (heap_top s1) = unat base + 4096 * unat gp" using P True by (simp add: base_def)
      have al: "unat base mod 16 = 0" "base \<noteq> 0"
      proof -
        have "16 dvd (4096 :: nat)" by simp
        moreover have "4096 dvd unat base" using top(3) by (simp add: page_aligned_iff base_def mod_eq_0_iff_dvd)
        ultimately have "16 dvd unat base" by (rule dvd_trans)
        then show "unat base mod 16 = 0" by (simp add: mod_eq_0_iff_dvd)
        show "base \<noteq> 0" using top(2) by (auto simp: base_def)
      qed
      have kal: "unat ?k mod 16 = 0" "0 < unat ?k"
      proof -
        have "16 dvd 4096 * unat gp - 32" by (intro dvd_diff_nat dvd_mult2) simp_all
        then show "unat ?k mod 16 = 0" using k by (simp add: mod_eq_0_iff_dvd)
        show "0 < unat ?k" using k G(1) by simp
      qed
      have fit: "unat base + 32 + unat ?k \<le> unat (heap_top s1)" using k top1 G(1) by simp
      have fresh: "base \<notin> addrs bs"
      proof
        assume "base \<in> addrs bs"
        then obtain n f where "(base, n, f) \<in> set bs" by force
        then show False using spaced_mem [OF S] by (fastforce simp: base_def)
      qed
      have LB: "links B 0 (heap_head s1) bs"
        using L P by (subst links_cong [where B = "blocks s"]) (use fresh in \<open>auto simp: B_def\<close>)
      obtain s2 bs' where s2: "links (blocks s2) 0 (heap_head s2) bs'" "spaced (unat KERNEL_HEAP_BASE) (unat (heap_top s1)) bs'"
        "live bs' = live bs" "heap_grow need s = Some (0, s2)" "heap_core s2" "grows s1 s2" "heap_top s2 = heap_top s1"
      proof (cases "bs = []")
        case True2: True
        let ?s2 = "s1\<lparr>blocks := B, heap_head := base, heap_total := heap_total s1 + gp * 0x1000\<rparr>"
        have "heap_head s1 = 0" using LB True2 by simp
        then have "heap_grow need s = Some (0, ?s2)"
          using eq False loop True by (simp add: B_def base_def)
        moreover have "links B 0 base [(base, ?k, True)]" using al by (simp add: node_def B_def)
        moreover have "spaced (unat KERNEL_HEAP_BASE) (unat (heap_top s1)) [(base, ?k, True)]"
          using al kal fit top(2) by (simp add: base_def word_le_nat_alt)
        ultimately show ?thesis
          using P True2 by (intro that [of ?s2 "[(base, ?k, True)]"]) (simp_all add: heap_core_def grows_def)
      next
        case False2: False
        then obtain xs t n f where bs: "bs = xs @ [(t, n, f)]" by (metis append_butlast_last_id prod_cases3)
        have tail: "last_block B (heap_head s1) = Some t" using last_block_links LB bs by force
        have "0 \<notin> addrs bs" by (rule links_nonzero [OF LB])
        then have "heap_head s1 \<noteq> 0" using LB False2 by (cases bs) auto
        let ?s2 = "s1\<lparr>blocks := append_block t base B, heap_total := heap_total s1 + gp * 0x1000\<rparr>"
        have e: "heap_grow need s = Some (0, ?s2)"
          using eq False loop True tail \<open>heap_head s1 \<noteq> 0\<close> by (simp add: B_def base_def)
        have "B base = \<lparr>blk_size = ?k, blk_next = 0, blk_prev = 0, blk_free = True\<rparr>" by (simp add: B_def)
        moreover have "unat (heap_top s) \<le> unat base" "unat (heap_top s1) < 2 ^ 64"
          using unat_u64_less [of "heap_top s1"] by (simp_all add: base_def)
        ultimately obtain bs' where "links (append_block t base B) 0 (heap_head s1) bs'"
          "spaced (unat KERNEL_HEAP_BASE) (unat (heap_top s1)) bs'" "live bs' = live bs"
          using append_links [OF LB [unfolded bs] S [unfolded bs] _ _ al(2,1) kal fit, folded bs] by blast
        then show ?thesis using e P by (intro that [of ?s2 bs']) (simp_all add: heap_core_def grows_def)
      qed
      have "heap_ready s2" using s2(6) P R by (simp add: grows_def heap_repr_def)
      then have "heap_repr s2 bs'" using s2 by (simp add: heap_repr_def)
      moreover have "heap_top s < heap_top s2" using top1 s2(7) G(1) by (simp add: base_def word_less_nat_alt)
      moreover have "grows s s2" using P s2(6) grows_trans by blast
      ultimately show ?thesis using s2 that by blast
    qed
  qed
qed

section \<open>Allocation\<close>

definition keeps :: "heap \<Rightarrow> heap \<Rightarrow> bool" where
  "keeps s s' \<longleftrightarrow> heap_top s \<le> heap_top s' \<and> (\<forall>a < heap_top s. payload s' a = payload s a)"

lemma grows_keeps: "grows s s' \<Longrightarrow> keeps s s'"
  by (simp add: grows_def keeps_def)

lemma keeps_trans: "keeps s t \<Longrightarrow> keeps t u \<Longrightarrow> keeps s u"
  unfolding keeps_def by (auto intro: order_trans dest: order_less_le_trans)

lemma links_set_free:
  assumes "links B p b (xs @ (a, n, f) # ys)" "spaced lo hi (xs @ (a, n, f) # ys)"
  shows "links (B(a := (B a)\<lparr>blk_free := g\<rparr>)) p b (xs @ (a, n, g) # ys)"
proof -
  let ?B = "B(a := (B a)\<lparr>blk_free := g\<rparr>)"
  obtain q where q: "lseg B p b xs q a" "node B q (a, n, f)" "links B a (blk_next (B a)) ys"
    using assms(1) by (auto simp: links_append)
  note A = spaced_around [OF assms(2)]
  have out: "a \<notin> addrs xs" "a \<notin> addrs ys" using A(1) [of a] A(2) [of a] by auto
  have "lseg ?B p b xs q a" using q(1) by (subst lseg_cong [where B = B]) (use out in auto)
  moreover have "links ?B a (blk_next (B a)) ys" using q(3) by (subst links_cong [where B = B]) (use out in auto)
  moreover have "node ?B q (a, n, g)" using q(2) by (simp add: node_def)
  ultimately show ?thesis by (auto simp: links_append)
qed

lemma spaced_set_free: "spaced lo hi (xs @ (a, n, f) # ys) \<Longrightarrow> spaced lo hi (xs @ (a, n, g) # ys)"
  by (auto simp: spaced_append)

lemma live_fresh:
  assumes "spaced lo hi (xs @ (a, n, f) # ys)"
  shows "(a + 32, m) \<notin> live xs \<union> live ys"
proof
  assume "(a + 32, m) \<in> live xs \<union> live ys"
  then have "a \<in> addrs xs \<union> addrs ys" by (auto simp: live_def) force+
  then show False using spaced_around(1,2) [OF assms, of a] by auto
qed

lemma take_block_spec:
  assumes R: "heap_repr s (xs @ (a, n, True) # ys)" and need: "need \<le> n" "0 < unat need" "unat need mod 16 = 0"
  obtains m zs where "heap_repr (take_block a need s) (xs @ (a, m, False) # zs)" "need \<le> m" "live zs = live ys"
    "keeps s (take_block a need s)" "heap_used (take_block a need s) = heap_used s + m"
proof -
  have L: "links (blocks s) 0 (heap_head s) (xs @ (a, n, True) # ys)"
    and S: "spaced (unat KERNEL_HEAP_BASE) (unat (heap_top s)) (xs @ (a, n, True) # ys)"
    using R by (auto simp: heap_repr_def)
  have "unat (heap_top s) < 2 ^ 64" using unat_u64_less [of "heap_top s"] by simp
  from split_links [OF L S this need] obtain m zs where
    M: "links (split_block a need (blocks s)) 0 (heap_head s) (xs @ (a, m, True) # zs)"
    "spaced (unat KERNEL_HEAP_BASE) (unat (heap_top s)) (xs @ (a, m, True) # zs)" "need \<le> m"
    "zs = ys \<or> (\<exists>c k. zs = (c, k, True) # ys)" by blast
  let ?B = "split_block a need (blocks s)"
  have "links (?B(a := (?B a)\<lparr>blk_free := False\<rparr>)) 0 (heap_head s) (xs @ (a, m, False) # zs)"
    by (rule links_set_free [OF M(1,2)])
  moreover have "spaced (unat KERNEL_HEAP_BASE) (unat (heap_top s)) (xs @ (a, m, False) # zs)"
    by (rule spaced_set_free [OF M(2)])
  moreover have "blk_size (?B a) = m" using links_mem [OF M(1), of a m True] by simp
  ultimately show ?thesis
    using M(3,4) R
    by (intro that [of m zs]) (auto simp: heap_repr_def take_block_def Let_def heap_core_def keeps_def)
qed

text \<open>The search with retries ends, since every retry moves the end of the heap up to its limit.\<close>

lemma kmalloc_retry_spec:
  assumes "heap_repr s bs" "need \<le> heap_request_max" "0 < unat need" "unat need mod 16 = 0"
  shows "\<exists>p s' bs'. kmalloc_retry need s = Some (p, s') \<and> heap_repr s' bs' \<and> keeps s s'
     \<and> (p = 0 \<and> live bs' = live bs \<and> heap_used s' = heap_used s
        \<or> p \<noteq> 0 \<and> (\<exists>m \<ge> need. (p, m) \<notin> live bs \<and> live bs' = insert (p, m) (live bs) \<and> heap_used s' = heap_used s + m))"
  using assms(1)
proof (induction "unat KERNEL_HEAP_LIMIT - unat (heap_top s)" arbitrary: s bs rule: less_induct)
  case less
  have L: "links (blocks s) 0 (heap_head s) bs" and S: "spaced (unat KERNEL_HEAP_BASE) (unat (heap_top s)) bs"
    using less.prems by (auto simp: heap_repr_def)
  note fit = find_fit_links [OF L, of need]
  show ?case
  proof (cases "find (\<lambda>(a, n, f). f \<and> need \<le> n) bs")
    case (Some y)
    obtain xs a n ys where bs: "bs = xs @ (a, n, True) # ys" "need \<le> n" "y = (a, n, True)"
      by (rule find_split [OF Some]) (auto split: prod.splits)
    have a: "unat KERNEL_HEAP_BASE \<le> unat a" "unat a + 32 + unat n \<le> unat (heap_top s)"
      using spaced_mem [OF S, of a n True] bs by auto
    have "unat (a + 32) = unat a + 32" using a unat_u64_less [of "heap_top s"] by (subst unat_add_u64) simp_all
    then have p: "a \<noteq> 0" "a + 32 \<noteq> 0" using a(1) by auto
    have "kmalloc_retry need s = Some (a + 32, take_block a need s)"
      by (subst kmalloc_retry.simps) (simp add: fit Some bs(3) p)
    moreover obtain m zs where "heap_repr (take_block a need s) (xs @ (a, m, False) # zs)" "need \<le> m"
      "live zs = live ys" "keeps s (take_block a need s)" "heap_used (take_block a need s) = heap_used s + m"
      using take_block_spec [OF less.prems [unfolded bs(1)] bs(2) assms(3,4)] by blast
    moreover have "(a + 32, m) \<notin> live bs" using live_fresh [OF S [unfolded bs(1)], of m] bs(1) by simp
    moreover have "live (xs @ (a, m, False) # zs) = insert (a + 32, m) (live bs)" using calculation bs by auto
    ultimately show ?thesis using p by blast
  next
    case None
    obtain r s1 bs1 where g: "heap_grow need s = Some (r, s1)" "heap_repr s1 bs1" "grows s s1" "live bs1 = live bs"
      "r = -1 \<or> r = 0 \<and> heap_top s < heap_top s1"
      using heap_grow_spec [OF less.prems assms(2)] by blast
    have step: "kmalloc_retry need s = (if r \<noteq> 0 then Some (0, s1) else kmalloc_retry need s1)"
      by (subst kmalloc_retry.simps) (simp add: fit None g(1))
    have used: "heap_used s1 = heap_used s" using g(3) by (simp add: grows_def)
    show ?thesis
    proof (cases "r = 0")
      case False
      then show ?thesis using step g grows_keeps used by auto
    next
      case True
      have "unat (heap_top s1) \<le> unat KERNEL_HEAP_LIMIT"
        using g(2) by (simp add: heap_repr_def heap_core_def word_le_nat_alt)
      then have lt: "unat KERNEL_HEAP_LIMIT - unat (heap_top s1) < unat KERNEL_HEAP_LIMIT - unat (heap_top s)"
        using g(5) True by (simp add: word_less_nat_alt)
      from less.hyps [OF lt g(2)] show ?thesis
        using step True used g(4) keeps_trans [OF grows_keeps [OF g(3)]] by auto
    qed
  qed
qed

lemma request_align:
  assumes "sz \<noteq> 0" "sz \<le> heap_request_max"
  shows "align_up sz 16 \<le> heap_request_max" "0 < unat (align_up sz 16)" "unat (align_up sz 16) mod 16 = 0"
    "sz \<le> align_up sz 16"
proof -
  have sz: "0 < unat sz" "unat sz \<le> 0x60000000"
    using assms by (simp_all add: heap_request_max_def word_le_nat_alt unat_gt_0)
  have u: "unat (align_up sz 16) = (unat sz + 15) div 16 * 16" using sz(2) by (intro unat_align_up_16) simp
  have "(unat sz + 15) div 16 \<le> (0x60000000 + 15) div 16" using sz(2) by (intro div_le_mono) simp
  then show "align_up sz 16 \<le> heap_request_max" by (simp add: word_le_nat_alt u heap_request_max_def)
  show "0 < unat (align_up sz 16)" "unat (align_up sz 16) mod 16 = 0" using sz(1) by (simp_all add: u div_greater_zero_iff)
  show "sz \<le> align_up sz 16" unfolding word_le_nat_alt u by linarith
qed

lemma kmalloc_spec:
  assumes "heap_repr s bs" "sz \<noteq> 0" "sz \<le> heap_request_max"
  shows "\<exists>p s' bs'. kmalloc sz s = Some (p, s') \<and> heap_repr s' bs' \<and> keeps s s'
     \<and> (p = 0 \<and> live bs' = live bs \<and> heap_used s' = heap_used s
        \<or> p \<noteq> 0 \<and> (\<exists>m \<ge> align_up sz 16. (p, m) \<notin> live bs \<and> live bs' = insert (p, m) (live bs) \<and> heap_used s' = heap_used s + m))"
proof -
  note A = request_align [OF assms(2,3)]
  have eq: "kmalloc sz s = kmalloc_retry (align_up sz 16) s"
    using assms by (simp add: kmalloc_def heap_repr_def)
  show ?thesis
    unfolding eq by (rule kmalloc_retry_spec [OF assms(1) A(1-3)])
qed

section \<open>Live allocations\<close>

lemma spaced_pair:
  "spaced lo hi xs \<Longrightarrow> (a, n, f) \<in> set xs \<Longrightarrow> (b, m, g) \<in> set xs \<Longrightarrow> (a, n, f) \<noteq> (b, m, g) \<Longrightarrow>
   unat a + 32 + unat n \<le> unat b \<or> unat b + 32 + unat m \<le> unat a"
proof (induction lo hi xs rule: spaced.induct)
  case (2 lo hi c k h xs)
  have S: "spaced (unat c + 32 + unat k) hi xs" using 2(2) by simp
  have first: "unat c + 32 + unat k \<le> unat d" if "(d, l, i) \<in> set xs" for d l i
    using spaced_mem [OF S that] by simp
  show ?case
  proof (cases "(a, n, f) \<in> set xs \<and> (b, m, g) \<in> set xs")
    case True
    then show ?thesis using 2(1) [OF S] 2(5) by blast
  next
    case False
    then show ?thesis using 2(3-5) first by auto
  qed
qed simp

lemma live_mem:
  assumes "heap_repr s bs" "(p, m) \<in> live bs"
  obtains a where "p = a + 32" "(a, m, False) \<in> set bs" "unat p = unat a + 32" "unat KERNEL_HEAP_BASE + 32 \<le> unat p"
    "unat p + unat m \<le> unat (heap_top s)" "unat p mod 16 = 0" "0 < unat m" "p - 32 = a"
proof -
  obtain a where a: "p = a + 32" "(a, m, False) \<in> set bs" using assms(2) by (auto simp: live_def)
  have S: "spaced (unat KERNEL_HEAP_BASE) (unat (heap_top s)) bs" using assms(1) by (simp add: heap_repr_def)
  note M = spaced_mem [OF S a(2)]
  have u: "unat p = unat a + 32"
    unfolding a(1) using M unat_u64_less [of "heap_top s"] by (subst unat_add_u64) simp_all
  then have "unat p mod 16 = 0" using M by (auto simp: mod_eq_0_iff_dvd)
  then show ?thesis using that [of a] a u M by simp
qed

lemma live_disjoint:
  assumes "heap_repr s bs" "(p, m) \<in> live bs" "(q, k) \<in> live bs" "(p, m) \<noteq> (q, k)"
  shows "unat p + unat m + 32 \<le> unat q \<or> unat q + unat k + 32 \<le> unat p"
proof -
  obtain a where a: "p = a + 32" "(a, m, False) \<in> set bs" "unat p = unat a + 32" by (rule live_mem [OF assms(1,2)])
  obtain b where b: "q = b + 32" "(b, k, False) \<in> set bs" "unat q = unat b + 32" by (rule live_mem [OF assms(1,3)])
  have S: "spaced (unat KERNEL_HEAP_BASE) (unat (heap_top s)) bs" using assms(1) by (simp add: heap_repr_def)
  show ?thesis using spaced_pair [OF S a(2) b(2)] a b assms(4) by auto
qed

lemma live_mapped:
  assumes "heap_repr s bs" "(p, m) \<in> live bs" "i < m"
  shows "vmm_virt_to_phys KernelAS (p + i) (hvmm s) \<noteq> 0"
proof -
  obtain a where a: "unat KERNEL_HEAP_BASE + 32 \<le> unat p" "unat p + unat m \<le> unat (heap_top s)"
    by (rule live_mem [OF assms(1,2)])
  have i: "unat i < unat m" using assms(3) by (simp add: word_less_nat_alt)
  then have "unat (p + i) = unat p + unat i"
    using a unat_u64_less [of "heap_top s"] by (subst unat_add_u64) simp_all
  then have "KERNEL_HEAP_BASE \<le> p + i" "p + i < heap_top s"
    using a i by (simp_all add: word_le_nat_alt word_less_nat_alt)
  then show ?thesis using assms(1) by (simp add: heap_repr_def heap_core_def)
qed

section \<open>Release\<close>

lemma kfree_spec:
  assumes R: "heap_repr s bs" and p: "(p, m) \<in> live bs"
  obtains bs' where "heap_repr (kfree p s) bs'" "live bs' = live bs - {(p, m)}"
    "heap_used (kfree p s) = heap_used s - m" "payload (kfree p s) = payload s" "heap_top (kfree p s) = heap_top s"
proof -
  obtain a where a: "p = a + 32" "(a, m, False) \<in> set bs" "unat KERNEL_HEAP_BASE + 32 \<le> unat p" "p - 32 = a"
    by (rule live_mem [OF R p])
  obtain xs ys where bs: "bs = xs @ (a, m, False) # ys" using a(2) by (auto dest: split_list)
  have L: "links (blocks s) 0 (heap_head s) (xs @ (a, m, False) # ys)"
    and S: "spaced (unat KERNEL_HEAP_BASE) (unat (heap_top s)) (xs @ (a, m, False) # ys)"
    using R bs by (auto simp: heap_repr_def)
  have node: "blk_size (blocks s a) = m" "\<not> blk_free (blocks s a)" using links_mem [OF L, of a m False] by auto
  let ?B = "(blocks s)(a := (blocks s a)\<lparr>blk_free := True\<rparr>)"
  have hi: "unat (heap_top s) < 2 ^ 64" using unat_u64_less [of "heap_top s"] by simp
  obtain bs' where bs': "links (coalesce_block a ?B) 0 (heap_head s) bs'"
    "spaced (unat KERNEL_HEAP_BASE) (unat (heap_top s)) bs'" "live bs' = live (xs @ ys)"
    using coalesce_links [OF links_set_free [OF L S] spaced_set_free [OF S] hi] by blast
  have "p \<noteq> 0" using a(3) by auto
  then have k: "kfree p s = s\<lparr>blocks := coalesce_block a ?B, heap_used := heap_used s - m\<rparr>"
    using node by (simp add: kfree_def block_from_ptr_def a(4) Let_def)
  have "live bs' = live bs - {(p, m)}"
    using bs'(3) live_fresh [OF S, of m] by (auto simp: bs a(1))
  then show ?thesis using bs' R by (intro that [of bs']) (auto simp: k heap_repr_def heap_core_def)
qed

section \<open>Reallocation\<close>

lemma copy_bytes_loop:
  assumes dis: "\<And>i j. i < n \<Longrightarrow> j < n \<Longrightarrow> dst + of_nat i \<noteq> src + of_nat j" and n: "n \<le> 2 ^ 64"
  shows "fold (\<lambda>i m. m(dst + of_nat i := m (src + of_nat i))) [0..<n] m
       = (\<lambda>a. if unat (a - dst) < n then m (src + (a - dst)) else m (a :: u64))"
  using assms
proof (induction n)
  case (Suc n)
  let ?f = "\<lambda>a. if unat (a - dst) < n then m (src + (a - dst)) else m a"
  have IH: "fold (\<lambda>i m. m(dst + of_nat i := m (src + of_nat i))) [0..<n] m = ?f"
    using Suc.prems by (intro Suc.IH) auto
  have n: "unat (of_nat n :: u64) = n" using Suc.prems(2) by (intro unat_of_nat_small) simp
  have src: "?f (src + of_nat n) = m (src + of_nat n)"
  proof -
    have "\<not> unat (src + of_nat n - dst) < n"
    proof
      assume lt: "unat (src + of_nat n - dst) < n"
      have "dst + of_nat (unat (src + of_nat n - dst)) = src + of_nat n" by simp
      then show False using Suc.prems(1) [of "unat (src + of_nat n - dst)" n] lt by simp
    qed
    then show ?thesis by simp
  qed
  have *: "unat (a - dst) < Suc n \<longleftrightarrow> unat (a - dst) < n \<or> a = dst + of_nat n" for a
  proof -
    have "unat (a - dst) = n \<longleftrightarrow> a - dst = of_nat n" using n by (metis word_unat_eq_iff)
    then show ?thesis by (auto simp: less_Suc_eq)
  qed
  have step: "fold (\<lambda>i m. m(dst + of_nat i := m (src + of_nat i))) [0..<Suc n] m
      = ?f(dst + of_nat n := ?f (src + of_nat n))"
    by (simp only: upt_Suc_append [OF le0] fold_append IH o_apply fold_simps)
  show ?case unfolding step src by (rule ext) (auto simp: *)
qed simp

lemma copy_bytes_spec:
  assumes n: "unat dst + unat n \<le> 2 ^ 64" "unat src + unat n \<le> 2 ^ 64"
    and dis: "unat dst + unat n \<le> unat src \<or> unat src + unat n \<le> unat dst"
  shows "copy_bytes dst src n m a = (if a - dst < n then m (src + (a - dst)) else m a)"
proof -
  have u: "unat (b + of_nat i) = unat b + i" if "unat b + unat n \<le> 2 ^ 64" "i < unat n" for b :: u64 and i
  proof -
    have "unat (of_nat i :: u64) = i" using that unat_u64_less [of n] by (intro unat_of_nat_small) simp
    then show ?thesis using that by (subst unat_add_u64) simp_all
  qed
  have "dst + of_nat i \<noteq> src + of_nat j" if "i < unat n" "j < unat n" for i j
  proof
    assume "dst + of_nat i = src + of_nat j"
    then have "unat dst + i = unat src + j" using u [OF n(1) that(1)] u [OF n(2) that(2)] by metis
    then show False using dis that by auto
  qed
  then show ?thesis
    unfolding copy_bytes_def using unat_u64_less [of n] by (subst copy_bytes_loop) (auto simp: word_less_nat_alt)
qed

lemma shrink_spec:
  assumes R: "heap_repr s bs" and p: "(p, m) \<in> live bs" and need: "need \<le> m" "0 < unat need" "unat need mod 16 = 0"
  obtains k bs' where "heap_repr (s\<lparr>blocks := split_block (p - 32) need (blocks s)\<rparr>) bs'" "need \<le> k"
    "live bs' = insert (p, k) (live bs - {(p, m)})"
proof -
  obtain a where a: "p = a + 32" "(a, m, False) \<in> set bs" "p - 32 = a" by (rule live_mem [OF R p])
  obtain xs ys where bs: "bs = xs @ (a, m, False) # ys" using a(2) by (auto dest: split_list)
  have L: "links (blocks s) 0 (heap_head s) (xs @ (a, m, False) # ys)"
    and S: "spaced (unat KERNEL_HEAP_BASE) (unat (heap_top s)) (xs @ (a, m, False) # ys)"
    using R bs by (auto simp: heap_repr_def)
  have hi: "unat (heap_top s) < 2 ^ 64" using unat_u64_less [of "heap_top s"] by simp
  from split_links [OF L S hi need] obtain k zs where
    M: "links (split_block a need (blocks s)) 0 (heap_head s) (xs @ (a, k, False) # zs)"
    "spaced (unat KERNEL_HEAP_BASE) (unat (heap_top s)) (xs @ (a, k, False) # zs)" "need \<le> k"
    "zs = ys \<or> (\<exists>c k. zs = (c, k, True) # ys)" by blast
  have "live (xs @ (a, k, False) # zs) = insert (p, k) (live bs - {(p, m)})"
    using M(4) live_fresh [OF S, of m] by (auto simp: bs a(1))
  then show ?thesis
    using M R by (intro that [of "xs @ (a, k, False) # zs" k]) (simp_all add: heap_repr_def heap_core_def a(3))
qed

lemma krealloc_spec:
  assumes R: "heap_repr s bs" and p: "(p, m) \<in> live bs" and sz: "sz \<noteq> 0" "sz \<le> heap_request_max"
  obtains q s' bs' where "krealloc p sz s = Some (q, s')" "heap_repr s' bs'"
    "\<forall>(a, n) \<in> live bs - {(p, m)}. \<forall>i < n. payload s' (a + i) = payload s (a + i)"
    "q = 0 \<and> live bs' = live bs \<and> (\<forall>i < m. payload s' (p + i) = payload s (p + i))
     \<or> q \<noteq> 0 \<and> (\<exists>k \<ge> sz. live bs' = insert (q, k) (live bs - {(p, m)})
                    \<and> (\<forall>i. i < m \<and> i < k \<longrightarrow> payload s' (q + i) = payload s (p + i)))"
proof -
  note A = request_align [OF sz]
  obtain a where a: "p = a + 32" "(a, m, False) \<in> set bs" "unat p = unat a + 32" "unat KERNEL_HEAP_BASE + 32 \<le> unat p"
    "unat p + unat m \<le> unat (heap_top s)" "p - 32 = a"
    by (rule live_mem [OF R p])
  have p0: "p \<noteq> 0" using a(4) by auto
  have L: "links (blocks s) 0 (heap_head s) bs" using R by (simp add: heap_repr_def)
  have m: "blk_size (blocks s a) = m" using links_mem [OF L a(2)] by simp
  show ?thesis
  proof (cases "align_up sz 16 \<le> m")
    case True
    obtain k bs' where K: "heap_repr (s\<lparr>blocks := split_block (p - 32) (align_up sz 16) (blocks s)\<rparr>) bs'"
      "align_up sz 16 \<le> k" "live bs' = insert (p, k) (live bs - {(p, m)})"
      using shrink_spec [OF R p True A(2,3)] by blast
    have "krealloc p sz s = Some (p, s\<lparr>blocks := split_block (p - 32) (align_up sz 16) (blocks s)\<rparr>)"
      using p0 sz(1) True m by (simp add: krealloc_def block_from_ptr_def a(6) Let_def)
    then show ?thesis using K p0 order_trans [OF A(4) K(2)] by (intro that) auto
  next
    case False
    obtain q s1 bs1 where K: "kmalloc sz s = Some (q, s1)" "heap_repr s1 bs1" "keeps s s1"
      "q = 0 \<and> live bs1 = live bs \<and> heap_used s1 = heap_used s
        \<or> q \<noteq> 0 \<and> (\<exists>k \<ge> align_up sz 16. (q, k) \<notin> live bs \<and> live bs1 = insert (q, k) (live bs) \<and> heap_used s1 = heap_used s + k)"
      using kmalloc_spec [OF R sz] by blast
    have keep: "payload s1 (b + i) = payload s (b + i)" if "(b, n) \<in> live bs" "i < n" for b n i
    proof -
      have b: "unat b + unat n \<le> unat (heap_top s)" by (rule live_mem [OF R that(1)])
      have "unat i < unat n" using that(2) by (simp add: word_less_nat_alt)
      then have "unat (b + i) = unat b + unat i" using b unat_u64_less [of "heap_top s"] by (subst unat_add_u64) simp_all
      then have "b + i < heap_top s" using b \<open>unat i < unat n\<close> by (simp add: word_less_nat_alt)
      then show ?thesis using K(3) by (simp add: keeps_def)
    qed
    show ?thesis
    proof (cases "q = 0")
      case True
      have "krealloc p sz s = Some (0, s1)"
        using p0 sz(1) False m K(1) True by (simp add: krealloc_def block_from_ptr_def a(6) Let_def)
      then show ?thesis using K True keep p by (intro that [of 0 s1 bs1]) auto
    next
      case q0: False
      then obtain k where k: "align_up sz 16 \<le> k" "(q, k) \<notin> live bs" "live bs1 = insert (q, k) (live bs)" using K(4) by blast
      have p1: "(p, m) \<in> live bs1" "(q, k) \<in> live bs1" "(q, k) \<noteq> (p, m)" using k p by auto
      obtain a1 where "(a1, m, False) \<in> set bs1" "p - 32 = a1" by (rule live_mem [OF K(2) p1(1)])
      then have m1: "blk_size (blocks s1 a) = m" using K(2) links_mem [of "blocks s1" 0 "heap_head s1" bs1] a(6)
        by (auto simp: heap_repr_def)
      let ?s2 = "s1\<lparr>payload := copy_bytes q p m (payload s1)\<rparr>"
      have "heap_repr ?s2 bs1" using K(2) by (simp add: heap_repr_def heap_core_def)
      then obtain bs' where F: "heap_repr (kfree p ?s2) bs'" "live bs' = live bs1 - {(p, m)}"
        "payload (kfree p ?s2) = payload ?s2" using kfree_spec [OF _ p1(1)] by blast
      have eq: "krealloc p sz s = Some (q, kfree p ?s2)"
        using p0 sz(1) False m K(1) q0 m1 by (simp add: krealloc_def block_from_ptr_def a(6) Let_def)
      have mk: "m \<le> k" using False k(1) by (meson less_imp_le less_le_trans not_le)
      obtain bp where bp: "unat p + unat m \<le> unat (heap_top s1)" by (rule live_mem [OF K(2) p1(1)])
      obtain bq where bq: "unat q + unat k \<le> unat (heap_top s1)" by (rule live_mem [OF K(2) p1(2)])
      have top: "unat (heap_top s1) < 2 ^ 64" using unat_u64_less [of "heap_top s1"] by simp
      have mk': "unat m \<le> unat k" using mk by (simp add: word_le_nat_alt)
      have pay: "payload (kfree p ?s2) b = (if b - q < m then payload s1 (p + (b - q)) else payload s1 b)" for b
      proof -
        have "unat p + unat m + 32 \<le> unat q \<or> unat q + unat k + 32 \<le> unat p"
          by (rule live_disjoint [OF K(2) p1(1,2)]) (use p1(3) in auto)
        then have dis: "unat q + unat m \<le> unat p \<or> unat p + unat m \<le> unat q" using mk' by linarith
        have "copy_bytes q p m (payload s1) b = (if b - q < m then payload s1 (p + (b - q)) else payload s1 b)"
          by (rule copy_bytes_spec [OF _ _ dis]) (use bp bq mk' top in simp_all)
        then show ?thesis by (simp add: F(3))
      qed
      have other: "payload (kfree p ?s2) (b + i) = payload s (b + i)"
        if b: "(b, n) \<in> live bs - {(p, m)}" "i < n" for b n i
      proof -
        have b1: "(b, n) \<in> live bs1" "(b, n) \<noteq> (q, k)" using b k by auto
        obtain bb where bb: "unat b + unat n \<le> unat (heap_top s1)" by (rule live_mem [OF K(2) b1(1)])
        have i: "unat i < unat n" using b(2) by (simp add: word_less_nat_alt)
        then have u: "unat (b + i) = unat b + unat i" using bb top by (subst unat_add_u64) simp_all
        have "\<not> b + i - q < m"
        proof
          assume "b + i - q < m"
          then have lt: "unat (b + i - q) < unat m" by (simp add: word_less_nat_alt)
          have "unat (q + (b + i - q)) = unat q + unat (b + i - q)"
            using lt mk' bq top by (intro unat_add_u64) simp_all
          then have "unat b + unat i = unat q + unat (b + i - q)" using u by simp
          then show False using live_disjoint [OF K(2) b1(1) p1(2) b1(2)] lt mk' i by auto
        qed
        then have "payload (kfree p ?s2) (b + i) = payload s1 (b + i)" using pay by simp
        then show ?thesis using keep [of b n i] b by simp
      qed
      show ?thesis
      proof (rule that [OF eq F(1)])
        show "\<forall>(a, n) \<in> live bs - {(p, m)}. \<forall>i < n. payload (kfree p ?s2) (a + i) = payload s (a + i)"
          using other by blast
        have "live bs' = insert (q, k) (live bs - {(p, m)})" using F(2) k(3) p1(3) by auto
        moreover have "payload (kfree p ?s2) (q + i) = payload s (p + i)" if "i < m" for i
          using pay [of "q + i"] keep [OF p that] that by simp
        ultimately show "q = 0 \<and> live bs' = live bs \<and> (\<forall>i < m. payload (kfree p ?s2) (p + i) = payload s (p + i))
     \<or> q \<noteq> 0 \<and> (\<exists>k \<ge> sz. live bs' = insert (q, k) (live bs - {(p, m)})
                    \<and> (\<forall>i. i < m \<and> i < k \<longrightarrow> payload (kfree p ?s2) (q + i) = payload s (p + i)))"
          using q0 order_trans [OF A(4) k(1)] by blast
      qed
    qed
  qed
qed

section \<open>Initialisation\<close>

lemma heap_init_spec:
  assumes "vmm_inv KernelAS (hvmm s)"
  obtains r s' bs where "heap_init s = Some (r, s')" "heap_repr s' bs" "live bs = {}" "r = -1 \<or> r = 0"
proof -
  let ?s = "s\<lparr>heap_head := 0, heap_top := KERNEL_HEAP_BASE, heap_total := 0, heap_used := 0, heap_ready := True\<rparr>"
  have "heap_repr ?s []" using assms by (auto simp: heap_repr_def heap_core_def simp del: heap_const_defs) simp_all
  then obtain r s' bs where "heap_grow 0x1000 ?s = Some (r, s')" "heap_repr s' bs" "live bs = live []" "r = -1 \<or> r = 0"
    by (rule heap_grow_spec [where need = "0x1000"]) (auto simp: heap_request_max_def)
  then show ?thesis using that by (simp add: heap_init_def)
qed

definition demo_heap :: heap where
  "demo_heap = \<lparr>hvmm = demo_vmm64,
     blocks = (\<lambda>_. \<lparr>blk_size = 0, blk_next = 0, blk_prev = 0, blk_free = False\<rparr>), payload = (\<lambda>_. 1),
     heap_head = 0, heap_top = 0, heap_total = 0, heap_used = 0, heap_ready = False\<rparr>"

definition heap0 :: heap where "heap0 = snd (the (heap_init demo_heap))"

lemma demo_heap_vmm: "vmm_inv KernelAS (hvmm demo_heap)"
  by (simp add: demo_heap_def demo_vmm64_inv)

lemma heap0_init: "heap_init demo_heap = Some (0, heap0)"
proof -
  have "map_option fst (heap_init demo_heap) = Some 0" by code_simp
  then show ?thesis by (auto simp: heap0_def)
qed

lemma heap0_repr: obtains bs where "heap_repr heap0 bs" "live bs = {}"
  using heap_init_spec [OF demo_heap_vmm] heap0_init by (metis option.inject prod.inject)

section \<open>Correctness of the heap\<close>

text \<open>
  \<^verbatim>\<open>heap_init\<close> followed by allocation: initialisation over a sound kernel space always returns,
  with a well-formed heap that has no live allocation, whether or not memory sufficed to grow it.
\<close>
theorem heap_init_correct:
  assumes "vmm_inv KernelAS (hvmm s)"
  shows "\<exists>r s' bs. heap_init s = Some (r, s') \<and> (r = 0 \<or> r = -1) \<and> heap_repr s' bs \<and> live bs = {}
     \<and> vmm_inv KernelAS (hvmm s')"
proof -
  obtain r s' bs where "heap_init s = Some (r, s')" "heap_repr s' bs" "live bs = {}" "r = -1 \<or> r = 0"
    by (rule heap_init_spec [OF assms])
  then show ?thesis by (auto simp: heap_repr_def heap_core_def)
qed

theorem heap_init_correct_witness:
  "vmm_inv KernelAS (hvmm demo_heap) \<and> (\<exists>bs. heap_repr heap0 bs \<and> live bs = {}) \<and> heap_total heap0 = 0x4000"
proof -
  have "heap_total heap0 = 0x4000" by code_simp
  then show ?thesis using heap_init_correct [OF demo_heap_vmm] heap0_init demo_heap_vmm by auto
qed

text \<open>
  C6. \<^verbatim>\<open>kmalloc\<close> on a well-formed heap returns for every request of 1 byte to \<open>heap_request_max\<close> (1.5 GiB):
  the search, the growth and the retries end. It gives NULL, with the live allocations and the count of
  bytes in use as they were (not with nothing changed: the heap may have grown, and a growth that failed
  half-way leaves pages mapped that no block covers), or a 16-byte aligned pointer to a block of at least the requested size, all of it mapped in the kernel
  space and at least a header apart from every live allocation, and counts the block in the
  bytes used. The contents of all memory handed out before are as they were.
\<close>
theorem kmalloc_correct:
  assumes "heap_repr s bs" "sz \<noteq> 0" "sz \<le> heap_request_max"
  shows "\<exists>p s' bs'. kmalloc sz s = Some (p, s') \<and> heap_repr s' bs'
     \<and> (\<forall>a < heap_top s. payload s' a = payload s a)
     \<and> (p = 0 \<and> live bs' = live bs \<and> heap_bytes_used s' = heap_bytes_used s
        \<or> p \<noteq> 0 \<and> (\<exists>m. sz \<le> m \<and> live bs' = insert (p, m) (live bs) \<and> heap_bytes_used s' = heap_bytes_used s + m
             \<and> unat p mod 16 = 0
             \<and> (\<forall>i < m. vmm_virt_to_phys KernelAS (p + i) (hvmm s') \<noteq> 0)
             \<and> (\<forall>(q, k) \<in> live bs. unat p + unat m + 32 \<le> unat q \<or> unat q + unat k + 32 \<le> unat p)))"
proof -
  note A = request_align [OF assms(2,3)]
  obtain p s' bs' where K: "kmalloc sz s = Some (p, s')" "heap_repr s' bs'" "keeps s s'"
    "p = 0 \<and> live bs' = live bs \<and> heap_used s' = heap_used s
     \<or> p \<noteq> 0 \<and> (\<exists>m \<ge> align_up sz 16. (p, m) \<notin> live bs \<and> live bs' = insert (p, m) (live bs)
                     \<and> heap_used s' = heap_used s + m)"
    using kmalloc_spec [OF assms] by blast
  have "unat p mod 16 = 0 \<and> (\<forall>i < m. vmm_virt_to_phys KernelAS (p + i) (hvmm s') \<noteq> 0)
      \<and> (\<forall>(q, k) \<in> live bs. unat p + unat m + 32 \<le> unat q \<or> unat q + unat k + 32 \<le> unat p)"
    if m: "live bs' = insert (p, m) (live bs)" "(p, m) \<notin> live bs" for m
  proof (intro conjI allI impI ballI)
    have pm: "(p, m) \<in> live bs'" using m by simp
    show "unat p mod 16 = 0" by (rule live_mem [OF K(2) pm])
    fix i assume "i < m"
    then show "vmm_virt_to_phys KernelAS (p + i) (hvmm s') \<noteq> 0" by (rule live_mapped [OF K(2) pm])
  next
    fix x assume "x \<in> live bs"
    then show "case x of (q, k) \<Rightarrow> unat p + unat m + 32 \<le> unat q \<or> unat q + unat k + 32 \<le> unat p"
      using live_disjoint [OF K(2), of p m] m by (cases x) auto
  qed
  then show ?thesis
    using K A(4) by (auto simp: heap_bytes_used_def keeps_def intro: order_trans)
qed

theorem kmalloc_correct_witness:
  "\<exists>bs bs'. heap_repr heap0 bs \<and> heap_repr (snd (the (kmalloc 100 heap0))) bs'
     \<and> fst (the (kmalloc 100 heap0)) = 0xFFFFFFFF90000020
     \<and> (\<exists>m \<ge> 100. live bs' = {(0xFFFFFFFF90000020, m)})"
proof -
  obtain bs where bs: "heap_repr heap0 bs" "live bs = {}" by (rule heap0_repr)
  have "map_option fst (kmalloc 100 heap0) = Some 0xFFFFFFFF90000020" by code_simp
  then show ?thesis
    using kmalloc_correct [OF bs(1), of 100] bs by (auto simp: heap_request_max_def)
qed

text \<open>
  C7. \<^verbatim>\<open>kfree\<close> of a live allocation removes it and no other: the heap stays well-formed through
  coalescing on both sides, the bytes used go down by the size of the block and no byte of memory
  changes. Freeing NULL does nothing.
\<close>
theorem kfree_correct:
  assumes "heap_repr s bs" "(p, m) \<in> live bs"
  shows "(\<exists>bs'. heap_repr (kfree p s) bs' \<and> live bs' = live bs - {(p, m)})
     \<and> heap_bytes_used (kfree p s) = heap_bytes_used s - m \<and> payload (kfree p s) = payload s \<and> kfree 0 s = s"
  using kfree_spec [OF assms] by (metis heap_bytes_used_def kfree_def)

theorem kfree_correct_witness:
  "\<exists>bs. heap_repr (kfree 0xFFFFFFFF90000020 (snd (the (kmalloc 100 heap0)))) bs \<and> live bs = {}"
proof -
  obtain bs where bs: "heap_repr heap0 bs" "live bs = {}" by (rule heap0_repr)
  have p: "map_option fst (kmalloc 100 heap0) = Some 0xFFFFFFFF90000020" by code_simp
  obtain s' bs' m where "kmalloc 100 heap0 = Some (0xFFFFFFFF90000020, s')" "heap_repr s' bs'"
    "live bs' = {(0xFFFFFFFF90000020, m)}"
    using kmalloc_spec [OF bs(1), of 100] bs p by (auto simp: heap_request_max_def)
  then show ?thesis using kfree_correct [of s' bs'] by auto
qed

text \<open>
  C8. \<^verbatim>\<open>krealloc\<close> of a live allocation to a nonzero size returns. On failure (NULL) the allocation is
  still live and unchanged; otherwise it is replaced by one of at least the new size, and the bytes
  both have in common are those of the old one. In every case no byte of another live
  allocation changes.
\<close>
theorem krealloc_correct:
  assumes "heap_repr s bs" "(p, m) \<in> live bs" "sz \<noteq> 0" "sz \<le> heap_request_max"
  shows "\<exists>q s' bs'. krealloc p sz s = Some (q, s') \<and> heap_repr s' bs'
     \<and> (\<forall>(a, n) \<in> live bs - {(p, m)}. \<forall>i < n. payload s' (a + i) = payload s (a + i))
     \<and> (q = 0 \<and> live bs' = live bs \<and> (\<forall>i < m. payload s' (p + i) = payload s (p + i))
        \<or> q \<noteq> 0 \<and> (\<exists>k \<ge> sz. live bs' = insert (q, k) (live bs - {(p, m)})
                      \<and> (\<forall>i. i < m \<and> i < k \<longrightarrow> payload s' (q + i) = payload s (p + i))))"
  by (rule krealloc_spec [OF assms]) blast

theorem krealloc_correct_witness:
  "\<exists>bs. heap_repr (snd (the (krealloc 0xFFFFFFFF90000020 200 (snd (the (kmalloc 100 heap0)))))) bs \<and> card (live bs) = 1"
proof -
  obtain bs where bs: "heap_repr heap0 bs" "live bs = {}" by (rule heap0_repr)
  have p: "map_option fst (kmalloc 100 heap0) = Some 0xFFFFFFFF90000020" by code_simp
  obtain s' bs' m where k: "kmalloc 100 heap0 = Some (0xFFFFFFFF90000020, s')" "heap_repr s' bs'"
    "live bs' = {(0xFFFFFFFF90000020, m)}"
    using kmalloc_spec [OF bs(1), of 100] bs p by (auto simp: heap_request_max_def)
  show ?thesis
    using krealloc_correct [OF k(2), of "0xFFFFFFFF90000020" m 200] k by (auto simp: heap_request_max_def)
qed

end
