(* ===== verification/Fifo.thy ===== *)
theory Fifo
  imports Icda_Prelude
begin

text \<open>
  Ring buffers and the contract of a bounded first-in first-out queue. The message queues of
  \<^verbatim>\<open>kernel/ipc/msgq.c\<close> and the input buffers of the drivers keep their elements in a circular array;
  \<open>ring_list\<close> is the list such an array holds. The locale \<open>bounded_fifo\<close> is what their clients rely
  on: what goes in comes out once, in order, as long as it fits.
\<close>

section \<open>Ring buffers\<close>

definition ring_list :: "'a list \<Rightarrow> nat \<Rightarrow> nat \<Rightarrow> nat \<Rightarrow> 'a list" where
  "ring_list buf n tail cnt = map (\<lambda>k. buf ! ((tail + k) mod n)) [0..<cnt]"

lemma length_ring_list [simp]: "length (ring_list buf n t c) = c"
  by (simp add: ring_list_def)

lemma ring_list_0 [simp]: "ring_list buf n t 0 = []"
  by (simp add: ring_list_def)

lemma mod_add_inj:
  assumes "(t + i) mod n = (t + j) mod n" "i < n" "j < (n::nat)"
  shows "i = j"
proof (rule ccontr)
  assume ne: "i \<noteq> j"
  have "\<exists>d. 0 < d \<and> d < n \<and> n dvd d"
  proof (cases "i < j")
    case True
    then have "n dvd (t + j) - (t + i)" using assms(1) by (metis mod_eq_dvd_iff_nat nat_add_left_cancel_le less_imp_le)
    then show ?thesis using True assms(3) by (intro exI [of _ "j - i"]) auto
  next
    case False
    then have "n dvd (t + i) - (t + j)" using assms(1) by (metis mod_eq_dvd_iff_nat nat_add_left_cancel_le not_le less_imp_le)
    then show ?thesis using False ne assms(2) by (intro exI [of _ "i - j"]) auto
  qed
  then show False by (auto dest: dvd_imp_le)
qed

lemma ring_push:
  assumes "length buf = n" "c < n"
  shows "ring_list (buf[(t + c) mod n := x]) n t (Suc c) = ring_list buf n t c @ [x]"
proof -
  have "buf[(t + c) mod n := x] ! ((t + k) mod n) = buf ! ((t + k) mod n)" if "k < c" for k
    using mod_add_inj [of t k n c] that assms by (auto simp: nth_list_update)
  moreover have "buf[(t + c) mod n := x] ! ((t + c) mod n) = x" using assms by simp
  ultimately show ?thesis by (simp add: ring_list_def)
qed

lemma ring_pop:
  assumes "0 < c" "0 < n" "t < n"
  shows "ring_list buf n t c = buf ! t # ring_list buf n ((t + 1) mod n) (c - 1)"
proof -
  obtain d where d: "c = Suc d" using assms(1) by (cases c) auto
  have "((t + 1) mod n + k) mod n = (t + Suc k) mod n" for k
    by (simp add: mod_add_left_eq)
  then show ?thesis
    using assms by (simp add: ring_list_def d upt_conv_Cons del: upt_Suc)
      (simp add: map_Suc_upt [symmetric] del: upt_Suc)
qed

section \<open>The queue contract\<close>

locale bounded_fifo =
  fixes put :: "'m \<Rightarrow> 's \<Rightarrow> bool \<times> 's"
    and take_first :: "'s \<Rightarrow> 'm option \<times> 's"
    and contents :: "'s \<Rightarrow> 'm list"
    and inv :: "'s \<Rightarrow> bool"
    and ok :: "'m \<Rightarrow> bool"
    and capacity :: nat
  assumes put_ok: "inv s \<Longrightarrow> ok m \<Longrightarrow> length (contents s) < capacity \<Longrightarrow>
      fst (put m s) \<and> inv (snd (put m s)) \<and> contents (snd (put m s)) = contents s @ [m]"
    and put_full: "inv s \<Longrightarrow> length (contents s) = capacity \<Longrightarrow> put m s = (False, s)"
    and take_ok: "inv s \<Longrightarrow> contents s = m # ms \<Longrightarrow>
      fst (take_first s) = Some m \<and> inv (snd (take_first s)) \<and> contents (snd (take_first s)) = ms"
    and take_empty: "inv s \<Longrightarrow> contents s = [] \<Longrightarrow> take_first s = (None, s)"
    and bounded: "inv s \<Longrightarrow> length (contents s) \<le> capacity"
begin

primrec put_all :: "'m list \<Rightarrow> 's \<Rightarrow> 's" where
  "put_all [] s = s"
| "put_all (m # ms) s = put_all ms (snd (put m s))"

primrec take_n :: "nat \<Rightarrow> 's \<Rightarrow> 'm list \<times> 's" where
  "take_n 0 s = ([], s)"
| "take_n (Suc n) s = (case take_first s of (None, s') \<Rightarrow> ([], s')
     | (Some m, s') \<Rightarrow> (let (ms, s'') = take_n n s' in (m # ms, s'')))"

lemma put_all_contents:
  "inv s \<Longrightarrow> list_all ok ms \<Longrightarrow> length (contents s) + length ms \<le> capacity \<Longrightarrow>
     inv (put_all ms s) \<and> contents (put_all ms s) = contents s @ ms"
proof (induction ms arbitrary: s)
  case (Cons m ms)
  note P = put_ok [of s m]
  show ?case using Cons.IH [of "snd (put m s)"] P Cons.prems by auto
qed simp

lemma take_n_contents:
  "inv s \<Longrightarrow> n \<le> length (contents s) \<Longrightarrow>
     fst (take_n n s) = take n (contents s) \<and> inv (snd (take_n n s)) \<and> contents (snd (take_n n s)) = drop n (contents s)"
proof (induction n arbitrary: s)
  case (Suc n)
  then obtain m ms where c: "contents s = m # ms" by (cases "contents s") auto
  note T = take_ok [OF Suc.prems(1) c]
  obtain s' where s': "take_first s = (Some m, s')" using T by (cases "take_first s") auto
  show ?case using Suc.IH [of s'] T Suc.prems c s' by (simp add: split_beta)
qed simp

text \<open>What was put in comes out in order, and leaves the queue as it was.\<close>

lemma fifo_order:
  assumes "inv s" "contents s = []" "list_all ok ms" "length ms \<le> capacity"
  shows "fst (take_n (length ms) (put_all ms s)) = ms \<and> contents (snd (take_n (length ms) (put_all ms s))) = []"
  using put_all_contents [of s ms] take_n_contents [of "put_all ms s" "length ms"] assms by simp

end

end
