(* ===== verification/Msgq.thy ===== *)
theory Msgq
  imports Fifo
begin

text \<open>
  Message queues, \<^verbatim>\<open>kernel/ipc/msgq.c\<close>: a table of 32 named ring buffers of 64 messages of 64 bytes.
  A C string is the list of its characters before the NUL, a pointer argument that may be NULL an
  option. While a receiver sleeps other threads run: what they do to the table during its \<open>i\<close>-th
  sleep is the parameter \<open>env i\<close> of the blocking receive.
\<close>

section \<open>State\<close>

definition MSGQ_MAX_QUEUES :: nat where "MSGQ_MAX_QUEUES = 32"
definition MSGQ_MAX_MSGS :: u32 where "MSGQ_MAX_MSGS = 64"
definition MSGQ_MSG_SIZE :: nat where "MSGQ_MSG_SIZE = 64"
definition MSGQ_NAME_MAX :: nat where "MSGQ_NAME_MAX = 64"

declare MSGQ_MAX_QUEUES_def [simp] MSGQ_MAX_MSGS_def [simp] MSGQ_MSG_SIZE_def [simp] MSGQ_NAME_MAX_def [simp]

record msgq =
  mq_valid :: bool
  mq_name :: string
  mq_buffer :: "bytes list"
  mq_head :: u32
  mq_tail :: u32
  mq_count :: u32

type_synonym msgq_table = "msgq list"

fun msgq_name_eq :: "string \<Rightarrow> string \<Rightarrow> bool" where
  "msgq_name_eq (a # as) (b # bs) = (a = b \<and> msgq_name_eq as bs)"
| "msgq_name_eq [] [] = True"
| "msgq_name_eq _ _ = False"

definition msgq_copy_name :: "string \<Rightarrow> string" where
  "msgq_copy_name src = take (MSGQ_NAME_MAX - 1) src"

section \<open>Operations\<close>

definition msgq_open :: "string option \<Rightarrow> msgq_table \<Rightarrow> u64 \<times> msgq_table" where
  "msgq_open name t =
     (case name of None \<Rightarrow> (0, t) | Some n \<Rightarrow>
        if n = [] then (0, t)
        else case find (\<lambda>i. mq_valid (t ! i) \<and> msgq_name_eq (mq_name (t ! i)) n) [0..<MSGQ_MAX_QUEUES] of
          Some i \<Rightarrow> (of_nat i + 1, t)
        | None \<Rightarrow>
            (case find (\<lambda>i. \<not> mq_valid (t ! i)) [0..<MSGQ_MAX_QUEUES] of
               Some i \<Rightarrow> (of_nat i + 1, t[i := (t ! i)\<lparr>mq_valid := True, mq_head := 0, mq_tail := 0, mq_count := 0,
                                                   mq_name := msgq_copy_name n\<rparr>])
             | None \<Rightarrow> (0, t)))"

text \<open>The tail of \<^verbatim>\<open>msgq_send\<close> and of \<^verbatim>\<open>msgq_recv\<close>: one message in, one message out.\<close>

definition mq_put :: "bytes \<Rightarrow> msgq \<Rightarrow> bool \<times> msgq" where
  "mq_put msg q =
     (if mq_count q \<ge> MSGQ_MAX_MSGS then (False, q)
      else (True, q\<lparr>mq_buffer := (mq_buffer q)[unat (mq_head q) := map ((!) msg) [0..<MSGQ_MSG_SIZE]],
                     mq_head := (mq_head q + 1) mod MSGQ_MAX_MSGS, mq_count := mq_count q + 1\<rparr>))"

definition mq_take :: "msgq \<Rightarrow> bytes option \<times> msgq" where
  "mq_take q =
     (if mq_count q = 0 then (None, q)
      else (Some (map ((!) (mq_buffer q ! unat (mq_tail q))) [0..<MSGQ_MSG_SIZE]),
            q\<lparr>mq_tail := (mq_tail q + 1) mod MSGQ_MAX_MSGS, mq_count := mq_count q - 1\<rparr>))"

definition bad_handle :: "u64 \<Rightarrow> bool" where
  "bad_handle h \<longleftrightarrow> h = 0 \<or> h > of_nat MSGQ_MAX_QUEUES"

definition msgq_send :: "u64 \<Rightarrow> bytes option \<Rightarrow> msgq_table \<Rightarrow> int \<times> msgq_table" where
  "msgq_send handle msg t =
     (case msg of None \<Rightarrow> (-1, t) | Some m \<Rightarrow>
        if bad_handle handle then (-1, t)
        else let i = unat (handle - 1)
             in if \<not> mq_valid (t ! i) then (-1, t)
                else let (ok, q) = mq_put m (t ! i) in if ok then (0, t[i := q]) else (-1, t))"

text \<open>The wait of a blocking receive: at most 10000000 sleeps, then it gives up.\<close>

function recv_wait :: "(u64 \<Rightarrow> msgq_table \<Rightarrow> msgq_table) \<Rightarrow> nat \<Rightarrow> u64 \<Rightarrow> msgq_table \<Rightarrow> bool \<times> msgq_table" where
  "recv_wait env i spin t =
     (if mq_count (t ! i) \<noteq> 0 then (True, t)
      else if spin + 1 > 10000000 then (False, env spin t)
      else recv_wait env i (spin + 1) (env spin t))"
  by pat_completeness auto
termination
proof (relation "measure (\<lambda>(env, i, spin, t). unat (10000000 - spin))")
  fix env :: "u64 \<Rightarrow> msgq_table \<Rightarrow> msgq_table" and i t and spin :: u64
  assume "\<not> 10000000 < spin + 1"
  then have "10000000 - spin \<noteq> 0" by auto
  then have "unat (10000000 - spin - 1) < unat (10000000 - spin)" by (rule measure_unat)
  then show "((env, i, spin + 1, env spin t), env, i, spin, t) \<in> measure (\<lambda>(env, i, spin, t). unat (10000000 - spin))"
    by (simp add: diff_diff_eq)
qed simp

declare recv_wait.simps [simp del]

definition msgq_recv :: "u64 \<Rightarrow> bool \<Rightarrow> bool \<Rightarrow> (u64 \<Rightarrow> msgq_table \<Rightarrow> msgq_table) \<Rightarrow> msgq_table
    \<Rightarrow> int \<times> bytes option \<times> msgq_table" where
  "msgq_recv handle out block env t =
     (if bad_handle handle \<or> \<not> out then (-1, None, t)
      else let i = unat (handle - 1)
           in if \<not> mq_valid (t ! i) then (-1, None, t)
              else let (ready, t1) = (if block then recv_wait env i 0 t else (True, t))
                   in if \<not> ready then (-1, None, t1)
                      else case mq_take (t1 ! i) of
                        (None, q) \<Rightarrow> (-1, None, t1)
                      | (Some m, q) \<Rightarrow> (0, Some m, t1[i := q]))"

definition msgq_poll :: "u64 \<Rightarrow> msgq_table \<Rightarrow> int" where
  "msgq_poll handle t =
     (if bad_handle handle then -1
      else let q = t ! unat (handle - 1)
           in if \<not> mq_valid q then -1 else if mq_count q > 0 then 1 else 0)"

definition msgq_close :: "u64 \<Rightarrow> msgq_table \<Rightarrow> msgq_table" where
  "msgq_close handle t = t"

text \<open>The table at boot.\<close>

definition msgq_boot :: msgq_table where
  "msgq_boot = replicate MSGQ_MAX_QUEUES \<lparr>mq_valid = False, mq_name = [], mq_buffer = replicate 64 (replicate 64 0),
     mq_head = 0, mq_tail = 0, mq_count = 0\<rparr>"

section \<open>A queue is a bounded fifo\<close>

definition mq_contents :: "msgq \<Rightarrow> bytes list" where
  "mq_contents q = ring_list (mq_buffer q) 64 (unat (mq_tail q)) (unat (mq_count q))"

definition mq_inv :: "msgq \<Rightarrow> bool" where
  "mq_inv q \<longleftrightarrow> length (mq_buffer q) = 64 \<and> list_all (\<lambda>m. length m = 64) (mq_buffer q)
     \<and> unat (mq_tail q) < 64 \<and> unat (mq_count q) \<le> 64
     \<and> unat (mq_head q) = (unat (mq_tail q) + unat (mq_count q)) mod 64"

lemma unat_next_64: "unat i < 64 \<Longrightarrow> unat ((i + 1) mod 64 :: u32) = (unat i + 1) mod 64"
proof -
  assume "unat i < 64"
  then have "unat (i + 1) = unat i + 1" by (subst unat_add_small) simp_all
  then show ?thesis by (simp add: unat_mod)
qed

lemma map_nth_64: "length m = 64 \<Longrightarrow> map ((!) m) [0..<64] = m"
  using map_nth [of m] by simp

lemma mq_put_full: "mq_inv q \<Longrightarrow> length (mq_contents q) = 64 \<Longrightarrow> mq_put m q = (False, q)"
  by (simp add: mq_put_def mq_contents_def word_le_nat_alt)

lemma mq_put_ok:
  assumes inv: "mq_inv q" and len: "length m = 64" and room: "length (mq_contents q) < 64"
  shows "fst (mq_put m q) \<and> mq_inv (snd (mq_put m q)) \<and> mq_contents (snd (mq_put m q)) = mq_contents q @ [m]"
proof -
  have c: "unat (mq_count q) < 64" using room by (simp add: mq_contents_def)
  have c1: "unat (mq_count q + 1) = unat (mq_count q) + 1" using c by (subst unat_add_small) simp_all
  have b: "\<not> mq_count q \<ge> 64" using c by (simp add: word_le_nat_alt)
  have h: "unat (mq_head q) = (unat (mq_tail q) + unat (mq_count q)) mod 64" using inv by (simp add: mq_inv_def)
  then have "unat (mq_head q) < 64" by simp
  note h1 = unat_next_64 [OF this]
  have "list_all (\<lambda>m. length m = 64) ((mq_buffer q)[unat (mq_head q) := m])"
    using inv len by (auto simp: mq_inv_def list_all_iff dest!: set_update_subset_insert [THEN subsetD])
  then show ?thesis
    using inv b c1 h h1 c len ring_push [of "mq_buffer q" 64 "unat (mq_count q)" "unat (mq_tail q)" m]
    by (simp add: mq_put_def mq_inv_def mq_contents_def map_nth_64 mod_Suc_eq)
qed

lemma mq_take_ok:
  assumes inv: "mq_inv q" and c: "mq_contents q = m # ms"
  shows "fst (mq_take q) = Some m \<and> mq_inv (snd (mq_take q)) \<and> mq_contents (snd (mq_take q)) = ms"
proof -
  have pos: "0 < unat (mq_count q)" using c by (metis length_Cons length_ring_list mq_contents_def zero_less_Suc)
  then have nz: "mq_count q \<noteq> 0" by auto
  have c1: "unat (mq_count q - 1) = unat (mq_count q) - 1" using pos by (simp add: unat_minus_one nz)
  have t: "unat (mq_tail q) < 64" using inv by (simp add: mq_inv_def)
  note t1 = unat_next_64 [OF t]
  have "mq_buffer q ! unat (mq_tail q) \<in> set (mq_buffer q)" using inv t by (simp add: mq_inv_def)
  then have len: "length (mq_buffer q ! unat (mq_tail q)) = 64" using inv by (auto simp: mq_inv_def list_all_iff)
  have r: "m = mq_buffer q ! unat (mq_tail q)"
    "ms = ring_list (mq_buffer q) 64 ((unat (mq_tail q) + 1) mod 64) (unat (mq_count q) - 1)"
    using c ring_pop [OF pos, of 64 "unat (mq_tail q)" "mq_buffer q"] t by (simp_all add: mq_contents_def)
  have "((unat (mq_tail q) + 1) mod 64 + (unat (mq_count q) - 1)) mod 64 = (unat (mq_tail q) + unat (mq_count q)) mod 64"
    using pos mod_add_left_eq [of "unat (mq_tail q) + 1" 64 "unat (mq_count q) - 1"] by simp
  moreover have "unat (mq_count q) - Suc 0 \<le> 64" using inv by (auto simp: mq_inv_def)
  ultimately show ?thesis
    using inv nz c1 t1 r len by (simp add: mq_take_def mq_inv_def mq_contents_def map_nth_64)
qed

lemma mq_take_empty: "mq_inv q \<Longrightarrow> mq_contents q = [] \<Longrightarrow> mq_take q = (None, q)"
proof -
  assume "mq_contents q = []"
  then have "unat (mq_count q) = 0" by (metis length_ring_list list.size(3) mq_contents_def)
  then show ?thesis by (simp add: mq_take_def unat_eq_zero)
qed

interpretation mq_fifo: bounded_fifo mq_put mq_take mq_contents mq_inv "\<lambda>m. length m = 64" 64
proof
  show "mq_inv q \<Longrightarrow> length (mq_contents q) \<le> 64" for q by (simp add: mq_inv_def mq_contents_def)
qed (rule mq_put_ok mq_put_full mq_take_ok mq_take_empty; assumption)+

section \<open>The table as named queues\<close>

text \<open>
  The specification: each slot is free or holds a name and a list of messages. The ring buffers,
  their indices and the handles are gone.
\<close>

type_synonym queues = "(string \<times> bytes list) option list"

definition msgq_abs :: "msgq_table \<Rightarrow> queues" where
  "msgq_abs t = map (\<lambda>q. if mq_valid q then Some (mq_name q, mq_contents q) else None) t"

definition msgq_inv :: "msgq_table \<Rightarrow> bool" where
  "msgq_inv t \<longleftrightarrow> length t = 32 \<and> (\<forall>q \<in> set t. mq_inv q \<and> (\<not> mq_valid q \<longrightarrow> mq_count q = 0)
     \<and> length (mq_name q) < 64)"

definition slot_of :: "u64 \<Rightarrow> queues \<Rightarrow> (string \<times> bytes list) option" where
  "slot_of h A = (if h = 0 \<or> h > 32 then None else A ! unat (h - 1))"

definition spec_send :: "u64 \<Rightarrow> bytes \<Rightarrow> queues \<Rightarrow> int \<times> queues" where
  "spec_send h m A = (case slot_of h A of
     Some (n, ms) \<Rightarrow> if length ms < 64 then (0, A[unat (h - 1) := Some (n, ms @ [m])]) else (-1, A)
   | None \<Rightarrow> (-1, A))"

definition spec_recv :: "u64 \<Rightarrow> queues \<Rightarrow> int \<times> bytes option \<times> queues" where
  "spec_recv h A = (case slot_of h A of
     Some (n, m # ms) \<Rightarrow> (0, Some m, A[unat (h - 1) := Some (n, ms)])
   | _ \<Rightarrow> (-1, None, A))"

definition spec_open :: "string \<Rightarrow> queues \<Rightarrow> u64 \<times> queues" where
  "spec_open n A =
     (case find (\<lambda>i. case A ! i of Some (n', ms) \<Rightarrow> n' = n | None \<Rightarrow> False) [0..<32] of
        Some i \<Rightarrow> (of_nat i + 1, A)
      | None \<Rightarrow> (case find (\<lambda>i. A ! i = None) [0..<32] of
          Some i \<Rightarrow> (of_nat i + 1, A[i := Some (take 63 n, [])])
        | None \<Rightarrow> (0, A)))"

lemma msgq_name_eq_iff [simp]: "msgq_name_eq a b \<longleftrightarrow> a = b"
  by (induction a b rule: msgq_name_eq.induct) auto

lemma handle_index:
  assumes "\<not> bad_handle h" shows "unat (h - 1) < 32"
proof -
  have "h \<noteq> 0" "unat h \<le> 32" using assms by (auto simp: bad_handle_def word_le_nat_alt not_less)
  then show ?thesis using unat_minus_one [of h] unat_gt_0 [of h] by simp
qed

lemma msgq_inv_nth:
  assumes "msgq_inv t" "i < 32"
  shows "mq_inv (t ! i)" "\<not> mq_valid (t ! i) \<Longrightarrow> mq_count (t ! i) = 0" "i < length t"
    "length (mq_name (t ! i)) < 64"
  using assms by (auto simp: msgq_inv_def)

lemma msgq_inv_update:
  "msgq_inv t \<Longrightarrow> mq_inv q \<Longrightarrow> mq_valid q \<Longrightarrow> length (mq_name q) < 64 \<Longrightarrow> msgq_inv (t[i := q])"
  by (auto simp: msgq_inv_def dest!: set_update_subset_insert [THEN subsetD])

lemma slot_abs:
  assumes "msgq_inv t" "\<not> bad_handle h"
  shows "slot_of h (msgq_abs t) = (let q = t ! unat (h - 1) in if mq_valid q then Some (mq_name q, mq_contents q) else None)"
  using assms handle_index [OF assms(2)] by (simp add: slot_of_def msgq_abs_def msgq_inv_def bad_handle_def Let_def)

lemma slot_bad: "bad_handle h \<Longrightarrow> slot_of h A = None"
  by (simp add: slot_of_def bad_handle_def)

lemma mq_fields [simp]:
  "mq_valid (snd (mq_put m q)) = mq_valid q" "mq_name (snd (mq_put m q)) = mq_name q"
  "mq_valid (snd (mq_take q)) = mq_valid q" "mq_name (snd (mq_take q)) = mq_name q"
  by (simp_all add: mq_put_def mq_take_def)

lemma send_refines:
  assumes inv: "msgq_inv t" and len: "length m = 64"
  shows "msgq_inv (snd (msgq_send h (Some m) t))
     \<and> (fst (msgq_send h (Some m) t), msgq_abs (snd (msgq_send h (Some m) t))) = spec_send h m (msgq_abs t)"
proof (cases "bad_handle h \<or> \<not> mq_valid (t ! unat (h - 1))")
  case True
  then show ?thesis
    using inv slot_abs [OF inv, of h] slot_bad by (auto simp: msgq_send_def spec_send_def Let_def)
next
  case False
  let ?i = "unat (h - 1)"
  have i: "?i < 32" using False handle_index by simp
  note Q = msgq_inv_nth [OF inv i]
  have le: "length (mq_contents (t ! ?i)) \<le> 64" by (rule mq_fifo.bounded [OF Q(1)])
  show ?thesis
  proof (cases "length (mq_contents (t ! ?i)) = 64")
    case True
    then show ?thesis
      using mq_put_full [OF Q(1) True] False slot_abs [OF inv, of h] inv
      by (simp add: msgq_send_def spec_send_def Let_def)
  next
    case room: False
    then have "length (mq_contents (t ! ?i)) < 64" using le by simp
    note P = mq_put_ok [OF Q(1) len this]
    obtain q where q: "mq_put m (t ! ?i) = (True, q)" using P by (cases "mq_put m (t ! ?i)") auto
    then have "mq_valid q" "mq_name q = mq_name (t ! ?i)" using False mq_fields(1,2) [of m "t ! ?i"] by auto
    then show ?thesis
      using P q False slot_abs [OF inv, of h] le room msgq_inv_update [OF inv] Q(4)
      by (simp add: msgq_send_def spec_send_def Let_def msgq_abs_def map_update)
  qed
qed

lemma recv_refines:
  assumes inv: "msgq_inv t"
  shows "case msgq_recv h True False env t of (r, m, t') \<Rightarrow>
     msgq_inv t' \<and> (r, m, msgq_abs t') = spec_recv h (msgq_abs t)"
proof (cases "bad_handle h \<or> \<not> mq_valid (t ! unat (h - 1))")
  case True
  then show ?thesis
    using inv slot_abs [OF inv, of h] slot_bad by (auto simp: msgq_recv_def spec_recv_def Let_def)
next
  case False
  let ?i = "unat (h - 1)"
  have i: "?i < 32" using False handle_index by simp
  note Q = msgq_inv_nth [OF inv i]
  show ?thesis
  proof (cases "mq_contents (t ! ?i)")
    case Nil
    then show ?thesis
      using mq_take_empty [OF Q(1) Nil] False slot_abs [OF inv, of h] inv
      by (simp add: msgq_recv_def spec_recv_def Let_def)
  next
    case (Cons m ms)
    note T = mq_take_ok [OF Q(1) Cons]
    obtain q where q: "mq_take (t ! ?i) = (Some m, q)" using T by (cases "mq_take (t ! ?i)") auto
    then have "mq_valid q" "mq_name q = mq_name (t ! ?i)" using False mq_fields(3,4) [of "t ! ?i"] by auto
    then show ?thesis
      using T q False slot_abs [OF inv, of h] Cons msgq_inv_update [OF inv] Q(4)
      by (simp add: msgq_recv_def spec_recv_def Let_def msgq_abs_def map_update)
  qed
qed

lemma open_refines:
  assumes inv: "msgq_inv t" and n: "n \<noteq> []"
  shows "msgq_inv (snd (msgq_open (Some n) t))
     \<and> (fst (msgq_open (Some n) t), msgq_abs (snd (msgq_open (Some n) t))) = spec_open n (msgq_abs t)"
proof -
  have len: "length t = 32" using inv by (simp add: msgq_inv_def)
  have f1: "find (\<lambda>i. case msgq_abs t ! i of Some (n', ms) \<Rightarrow> n' = n | None \<Rightarrow> False) [0..<32] = find (\<lambda>i. mq_valid (t ! i) \<and> mq_name (t ! i) = n) [0..<32]"
    by (rule find_cong) (auto simp: msgq_abs_def len)
  have f2: "find (\<lambda>i. msgq_abs t ! i = None) [0..<32] = find (\<lambda>i. \<not> mq_valid (t ! i)) [0..<32]"
    by (rule find_cong) (auto simp: msgq_abs_def len)
  show ?thesis
  proof (cases "find (\<lambda>i. mq_valid (t ! i) \<and> mq_name (t ! i) = n) [0..<32]")
    case (Some i)
    then show ?thesis using inv n f1 by (simp add: msgq_open_def spec_open_def)
  next
    case None
    show ?thesis
    proof (cases "find (\<lambda>i. \<not> mq_valid (t ! i)) [0..<32]")
      case None2: None
      then show ?thesis using inv n f1 f2 None by (simp add: msgq_open_def spec_open_def)
    next
      case (Some i)
      then have i: "i < 32" using find_upt_Some(2) by blast
      let ?q = "(t ! i)\<lparr>mq_valid := True, mq_head := 0, mq_tail := 0, mq_count := 0, mq_name := take 63 n\<rparr>"
      have "mq_inv ?q" "mq_contents ?q = []"
        using msgq_inv_nth(1) [OF inv i] by (simp_all add: mq_inv_def mq_contents_def)
      moreover from this have "msgq_inv (t[i := ?q])" by (intro msgq_inv_update [OF inv]) simp_all
      ultimately show ?thesis
        using n f1 f2 None Some
        by (simp add: msgq_open_def spec_open_def msgq_copy_name_def msgq_abs_def map_update)
    qed
  qed
qed

lemma boot_inv: "msgq_inv msgq_boot"
  by (simp add: msgq_inv_def msgq_boot_def mq_inv_def list_all_iff)

section \<open>Interleaved histories\<close>

text \<open>Any interleaving of the calls of any number of threads, from any table.\<close>

datatype msgq_op = Open string | Send u64 bytes | Recv u64 | Poll u64 | Close u64

definition msgq_step :: "msgq_op \<Rightarrow> msgq_table \<Rightarrow> msgq_table" where
  "msgq_step op t = (case op of
     Open n \<Rightarrow> snd (msgq_open (Some n) t) | Send h m \<Rightarrow> snd (msgq_send h (Some m) t)
   | Recv h \<Rightarrow> snd (snd (msgq_recv h True False (\<lambda>_ t. t) t)) | Poll h \<Rightarrow> t | Close h \<Rightarrow> msgq_close h t)"

text \<open>The messages a history puts into queue \<open>h\<close> (sends that return 0) and gets out of it.\<close>

fun sent :: "u64 \<Rightarrow> msgq_op list \<Rightarrow> msgq_table \<Rightarrow> bytes list" where
  "sent h [] t = []"
| "sent h (op # ops) t = (case op of
     Send h' m \<Rightarrow> if h' = h \<and> fst (msgq_send h' (Some m) t) = 0 then [m] else [] | _ \<Rightarrow> []) @ sent h ops (msgq_step op t)"

fun received :: "u64 \<Rightarrow> msgq_op list \<Rightarrow> msgq_table \<Rightarrow> bytes list" where
  "received h [] t = []"
| "received h (op # ops) t = (case op of
     Recv h' \<Rightarrow> if h' = h then (case fst (snd (msgq_recv h' True False (\<lambda>_ t. t) t)) of Some m \<Rightarrow> [m] | None \<Rightarrow> []) else []
   | _ \<Rightarrow> []) @ received h ops (msgq_step op t)"

definition op_ok :: "msgq_op \<Rightarrow> bool" where
  "op_ok op = (case op of Send h m \<Rightarrow> length m = 64 | Open n \<Rightarrow> n \<noteq> [] | _ \<Rightarrow> True)"

definition pending :: "u64 \<Rightarrow> msgq_table \<Rightarrow> bytes list" where
  "pending h t = (case slot_of h (msgq_abs t) of None \<Rightarrow> [] | Some (n, ms) \<Rightarrow> ms)"

lemma slot_of_update:
  assumes "length A = 32" "slot_of h A = Some x"
  shows "slot_of h' (A[unat (h - 1) := y]) = (if h' = h then y else slot_of h' A)"
proof -
  have h: "h \<noteq> 0" "\<not> h > 32" using assms(2) by (auto simp: slot_of_def split: if_splits)
  then have "unat (h - 1) < 32" by (intro handle_index) (simp add: bad_handle_def)
  moreover have "unat (h' - 1) = unat (h - 1) \<longleftrightarrow> h' - 1 = h - 1" by (simp only: word_unat_eq_iff)
  then have "unat (h' - 1) = unat (h - 1) \<longleftrightarrow> h' = h" by simp
  ultimately show ?thesis using h assms(1) by (auto simp: slot_of_def nth_list_update)
qed

lemma msgq_abs_length: "msgq_inv t \<Longrightarrow> length (msgq_abs t) = 32"
  by (simp add: msgq_abs_def msgq_inv_def)

lemma spec_open_cases:
  "snd (spec_open n A) = A \<or> (\<exists>i < 32. A ! i = None \<and> snd (spec_open n A) = A[i := Some (take 63 n, [])])"
proof (cases "find (\<lambda>i. case A ! i of Some (n', ms) \<Rightarrow> n' = n | None \<Rightarrow> False) [0..<32]")
  case None
  then show ?thesis
    by (cases "find (\<lambda>i. A ! i = None) [0..<32]") (auto simp: spec_open_def dest: find_upt_Some)
qed (simp add: spec_open_def)

lemma step_history:
  assumes "msgq_inv t" "op_ok op"
  shows "msgq_inv (msgq_step op t)" "pending h t @ sent h [op] t = received h [op] t @ pending h (msgq_step op t)"
proof -
  note len = msgq_abs_length [OF assms(1)]
  have "msgq_inv (msgq_step op t) \<and> pending h t @ sent h [op] t = received h [op] t @ pending h (msgq_step op t)"
  proof (cases op)
    case (Open n)
    then have O: "msgq_inv (msgq_step op t)" "msgq_abs (msgq_step op t) = snd (spec_open n (msgq_abs t))"
      using open_refines [OF assms(1), of n] assms(2) by (auto simp: op_ok_def msgq_step_def dest: arg_cong [where f = snd])
    have "pending h (msgq_step op t) = pending h t"
      using spec_open_cases [of n "msgq_abs t"]
      by (auto simp: pending_def O(2) slot_of_def nth_list_update len)
    then show ?thesis using O Open by simp
  next
    case (Send h' m)
    then show ?thesis
      using send_refines [OF assms(1), of m h'] assms(2) slot_of_update [OF len]
      by (auto simp: op_ok_def msgq_step_def pending_def spec_send_def split: option.splits prod.splits if_splits)
  next
    case (Recv h')
    then show ?thesis
      using recv_refines [OF assms(1), of h' "\<lambda>_ t. t"] slot_of_update [OF len]
      by (auto simp: msgq_step_def pending_def spec_recv_def split: option.splits prod.splits list.splits if_splits)
  next
    case (Poll h') then show ?thesis using assms by (simp add: msgq_step_def)
  next
    case (Close h') then show ?thesis using assms by (simp add: msgq_step_def msgq_close_def)
  qed
  then show "msgq_inv (msgq_step op t)" "pending h t @ sent h [op] t = received h [op] t @ pending h (msgq_step op t)"
    by auto
qed

lemma history_inv: "msgq_inv t \<Longrightarrow> list_all op_ok ops \<Longrightarrow> msgq_inv (fold msgq_step ops t)"
  by (induction ops arbitrary: t) (auto simp: step_history)

section \<open>Blocking receive\<close>

abbreviation asleep :: "(u64 \<Rightarrow> msgq_table \<Rightarrow> msgq_table) \<Rightarrow> nat \<Rightarrow> nat \<Rightarrow> msgq_table \<Rightarrow> msgq_table" where
  "asleep env a n t \<equiv> fold (\<lambda>k. env (of_nat k)) [a..<a + n] t"

lemma recv_wait_spec:
  "recv_wait env i spin t = (ok, t') \<Longrightarrow> unat spin \<le> 10000000 \<Longrightarrow>
   \<exists>n. unat spin + n \<le> 10000001 \<and> t' = asleep env (unat spin) n t
     \<and> (\<forall>k < n. mq_count (asleep env (unat spin) k t ! i) = 0)
     \<and> (if ok then mq_count (t' ! i) \<noteq> 0 else unat spin + n = 10000001)"
proof (induction env i spin t arbitrary: ok t' rule: recv_wait.induct)
  case (1 env i spin t)
  have s1: "unat (spin + 1) = unat spin + 1" using 1(3) by (subst unat_add_u64) simp_all
  show ?case
  proof (cases "mq_count (t ! i) \<noteq> 0")
    case True
    then have "ok" "t' = t" using 1(2) by (simp_all add: recv_wait.simps [of env i spin t])
    then show ?thesis using True 1(3) by (intro exI [of _ 0]) simp
  next
    case zero: False
    show ?thesis
    proof (cases "spin + 1 > 10000000")
      case True
      then have "\<not> ok" "t' = env spin t" using 1(2) zero by (simp_all add: recv_wait.simps [of env i spin t])
      moreover have "unat spin = 10000000" using True s1 1(3) by (simp add: word_less_nat_alt)
      moreover have "of_nat (unat spin) = spin" by simp
      ultimately show ?thesis using zero by (intro exI [of _ 1]) simp
    next
      case False
      have "unat (spin + 1) \<le> 10000000" using False by (simp add: word_less_nat_alt)
      moreover have "recv_wait env i (spin + 1) (env spin t) = (ok, t')"
        using 1(2) zero False by (simp add: recv_wait.simps [of env i spin t])
      moreover have nz: "\<not> mq_count (t ! i) \<noteq> 0" using zero by simp
      ultimately obtain n where n: "unat (spin + 1) + n \<le> 10000001" "t' = asleep env (unat (spin + 1)) n (env spin t)"
        "\<forall>k < n. mq_count (asleep env (unat (spin + 1)) k (env spin t) ! i) = 0"
        "if ok then mq_count (t' ! i) \<noteq> 0 else unat (spin + 1) + n = 10000001"
        using 1(1) [OF nz False] by blast
      have step: "asleep env (unat spin) (Suc k) t = asleep env (unat (spin + 1)) k (env spin t)" for k
        by (simp add: s1 upt_conv_Cons del: upt_Suc)
      have "\<forall>k < Suc n. mq_count (asleep env (unat spin) k t ! i) = 0"
      proof (intro allI impI)
        fix k assume "k < Suc n"
        then show "mq_count (asleep env (unat spin) k t ! i) = 0"
          using n(3) zero step by (cases k) auto
      qed
      then show ?thesis using n s1 step by (intro exI [of _ "Suc n"]) (auto split: if_splits)
    qed
  qed
qed

lemma asleep_inv: "(\<And>k t. msgq_inv t \<Longrightarrow> msgq_inv (env k t)) \<Longrightarrow> msgq_inv t \<Longrightarrow> msgq_inv (asleep env a n t)"
proof (induction n)
  case (Suc n) then show ?case by (simp add: fold_append)
qed simp

section \<open>A table with one queue holding one message\<close>

definition demo_msgq :: msgq_table where
  "demo_msgq = snd (msgq_open (Some ''a'') msgq_boot)"

definition demo_msgq1 :: msgq_table where
  "demo_msgq1 = snd (msgq_send 1 (Some (replicate 64 7)) demo_msgq)"

lemma boot_abs: "msgq_abs msgq_boot = replicate 32 None"
  by (simp add: msgq_abs_def msgq_boot_def)

lemma demo_msgq: "msgq_inv demo_msgq" "msgq_abs demo_msgq = (replicate 32 None)[0 := Some (''a'', [])]"
proof -
  have "snd (spec_open ''a'' (replicate 32 None)) = (replicate 32 None)[0 := Some (''a'', [])]" by code_simp
  then show "msgq_inv demo_msgq" "msgq_abs demo_msgq = (replicate 32 None)[0 := Some (''a'', [])]"
    using open_refines [OF boot_inv, of "''a''"] unfolding demo_msgq_def boot_abs by (simp_all, metis snd_conv)
qed

lemma demo_msgq1: "msgq_inv demo_msgq1" "msgq_abs demo_msgq1 = (replicate 32 None)[0 := Some (''a'', [replicate 64 7])]"
  "fst (msgq_send 1 (Some (replicate 64 7)) demo_msgq) = 0"
proof -
  have "spec_send 1 (replicate 64 7) (msgq_abs demo_msgq) = (0, (replicate 32 None)[0 := Some (''a'', [replicate 64 7])])"
    unfolding demo_msgq(2) by code_simp
  then show "msgq_inv demo_msgq1" "msgq_abs demo_msgq1 = (replicate 32 None)[0 := Some (''a'', [replicate 64 7])]"
    "fst (msgq_send 1 (Some (replicate 64 7)) demo_msgq) = 0"
    using send_refines [OF demo_msgq(1), of "replicate 64 7" 1] unfolding demo_msgq1_def by simp_all
qed

section \<open>Correctness of message passing\<close>

text \<open>
  C9. The ring buffers refine named queues: opening, sending and receiving through a handle do to
  the abstract table exactly what the specification does, with the same result (a full, empty,
  unknown or out-of-range queue included), and keep the representation well-formed.
\<close>
theorem msgq_refines:
  assumes "msgq_inv t" "length m = 64" "n \<noteq> []"
  shows "(case msgq_send h (Some m) t of (r, t') \<Rightarrow> msgq_inv t' \<and> (r, msgq_abs t') = spec_send h m (msgq_abs t))
    \<and> (case msgq_recv h True False env t of (r, x, t') \<Rightarrow> msgq_inv t' \<and> (r, x, msgq_abs t') = spec_recv h (msgq_abs t))
    \<and> (case msgq_open (Some n) t of (g, t') \<Rightarrow> msgq_inv t' \<and> (g, msgq_abs t') = spec_open n (msgq_abs t))"
  using send_refines [OF assms(1,2)] recv_refines [OF assms(1)] open_refines [OF assms(1,3)]
  by (auto split: prod.splits) (metis fst_conv snd_conv)+

theorem msgq_refines_witness:
  "\<exists>t'. msgq_recv 1 True False (\<lambda>_ u. u) demo_msgq1 = (0, Some (replicate 64 7), t')
     \<and> msgq_abs t' = (replicate 32 None)[0 := Some (''a'', [])]"
proof -
  obtain r x t' where e: "msgq_recv 1 True False (\<lambda>_ u. u) demo_msgq1 = (r, x, t')" by (metis prod_cases3)
  have "length (replicate 64 (0 :: u8)) = 64" "''a'' \<noteq> []" by simp_all
  from msgq_refines [OF demo_msgq1(1) this, of 1 "\<lambda>_ u. u"] e have "(r, x, msgq_abs t') = spec_recv 1 (msgq_abs demo_msgq1)"
    by simp
  moreover have "spec_recv 1 ((replicate 32 None)[0 := Some (''a'', [replicate 64 7])])
      = (0, Some (replicate 64 7), (replicate 32 None)[0 := Some (''a'', [])])" by code_simp
  ultimately show ?thesis using e by (simp add: demo_msgq1(2))
qed

text \<open>
  For every history of opens, sends and receives by any threads, and every queue: what was
  pending before followed by what was sent is what was received followed by what is pending after.
  No message is lost, duplicated or reordered, and none moves to another queue.
\<close>
theorem msgq_history:
  assumes "msgq_inv t" "list_all op_ok ops"
  shows "pending h t @ sent h ops t = received h ops t @ pending h (fold msgq_step ops t)"
  using assms
proof (induction ops arbitrary: t)
  case (Cons op ops)
  note S = step_history(1) [of t op] step_history(2) [of t op h]
  have "pending h (msgq_step op t) @ sent h ops (msgq_step op t)
      = received h ops (msgq_step op t) @ pending h (fold msgq_step ops (msgq_step op t))"
    using Cons S(1) by simp
  moreover have "pending h t @ sent h [op] t = received h [op] t @ pending h (msgq_step op t)"
    using S(2) Cons.prems by simp
  moreover have "sent h (op # ops) t = sent h [op] t @ sent h ops (msgq_step op t)"
    "received h (op # ops) t = received h [op] t @ received h ops (msgq_step op t)" by simp_all
  ultimately show ?case by (metis append.assoc fold_simps(2))
qed simp

theorem msgq_history_witness:
  "received 1 [Send 1 (replicate 64 7), Recv 1] demo_msgq @ pending 1 (fold msgq_step [Send 1 (replicate 64 7), Recv 1] demo_msgq)
     = [replicate 64 7]"
proof -
  have p: "pending 1 demo_msgq = []" unfolding pending_def demo_msgq(2) by code_simp
  have s: "sent 1 [Send 1 (replicate 64 7), Recv 1] demo_msgq = [replicate 64 7]"
    using demo_msgq1(3) by (simp add: msgq_step_def)
  have "list_all op_ok [Send 1 (replicate 64 7), Recv 1]" by (simp add: op_ok_def)
  from msgq_history [OF demo_msgq(1) this, of 1] show ?thesis unfolding p s by simp
qed

text \<open>
  C10. A blocking receive returns whatever the other threads do while it sleeps: after at most
  10000001 sleeps, during which its queue was empty at every look, it either has the oldest
  message of the queue and takes exactly that one, or gives up with -1 after the last sleep. This is not
  what \<^verbatim>\<open>msgq.h\<close> says of a blocking receive, that it waits until a message arrives and returns 0.
\<close>
theorem msgq_recv_blocking:
  assumes "msgq_inv t" "\<And>k u. msgq_inv u \<Longrightarrow> msgq_inv (env k u)" "\<not> bad_handle h" "mq_valid (t ! unat (h - 1))"
  shows "case msgq_recv h True True env t of (r, x, t') \<Rightarrow> msgq_inv t' \<and>
     (\<exists>n \<le> 10000001. \<exists>u. u = asleep env 0 n t \<and> (\<forall>k < n. mq_contents (asleep env 0 k t ! unat (h - 1)) = [])
        \<and> (if r = 0 then \<exists>m. x = Some m \<and> mq_contents (u ! unat (h - 1)) = m # mq_contents (t' ! unat (h - 1))
                        \<and> (\<forall>j. j \<noteq> unat (h - 1) \<longrightarrow> t' ! j = u ! j)
            else r = -1 \<and> n = 10000001 \<and> x = None \<and> t' = u))"
proof -
  let ?i = "unat (h - 1)"
  have i: "?i < 32" by (rule handle_index [OF assms(3)])
  obtain ok u where w: "recv_wait env ?i 0 t = (ok, u)" by force
  obtain n where n: "n \<le> 10000001" "u = asleep env 0 n t" "\<forall>k < n. mq_count (asleep env 0 k t ! ?i) = 0"
    "if ok then mq_count (u ! ?i) \<noteq> 0 else n = 10000001"
    using recv_wait_spec [OF w] unfolding unat_0 add_0_left by blast
  have inv: "msgq_inv (asleep env 0 k t)" for k by (rule asleep_inv [OF assms(2,1)])
  have empty: "mq_contents (asleep env 0 k t ! ?i) = []" if "k < n" for k
    using n(3) that by (simp add: mq_contents_def)
  have E: "\<exists>n \<le> 10000001. \<exists>u. u = asleep env 0 n t \<and> (\<forall>k < n. mq_contents (asleep env 0 k t ! ?i) = []) \<and> P u n"
    if "P u n" for P using that n empty by blast
  show ?thesis
  proof (cases ok)
    case False
    then have r: "msgq_recv h True True env t = (-1, None, u)"
      using assms(3,4) w by (simp add: msgq_recv_def Let_def)
    have "msgq_inv u" using inv n(2) by simp
    moreover have "n = 10000001" using n(4) False by simp
    ultimately show ?thesis unfolding r prod.case by (intro conjI E) auto
  next
    case True
    note Q = msgq_inv_nth(1) [OF inv i, of n, folded n(2)]
    have "mq_contents (u ! ?i) \<noteq> []" using n(4) True by (simp add: mq_contents_def ring_list_def unat_eq_zero)
    then obtain m ms where c: "mq_contents (u ! ?i) = m # ms" by (meson list.exhaust)
    note T = mq_take_ok [OF Q c]
    obtain q where q: "mq_take (u ! ?i) = (Some m, q)" using T by (cases "mq_take (u ! ?i)") auto
    have r: "msgq_recv h True True env t = (0, Some m, u[?i := q])"
      using assms(3,4) w True q by (simp add: msgq_recv_def Let_def)
    have len: "?i < length u" using inv [of n] i n(2) by (simp add: msgq_inv_def)
    have U: "msgq_inv u" using inv n(2) by simp
    have "mq_count (u ! ?i) \<noteq> 0" using n(4) True by simp
    then have "mq_valid (u ! ?i)" using msgq_inv_nth(2) [OF U i] by blast
    then have "msgq_inv (u[?i := q])"
      using T q mq_fields(3,4) [of "u ! ?i"] msgq_inv_nth(4) [OF U i] by (intro msgq_inv_update [OF U]) auto
    moreover have "mq_contents (u ! ?i) = m # mq_contents (u[?i := q] ! ?i)" using T q c len by simp
    moreover have "\<forall>j. j \<noteq> ?i \<longrightarrow> u[?i := q] ! j = u ! j" by simp
    ultimately show ?thesis unfolding r prod.case by (intro conjI E) auto
  qed
qed

theorem msgq_recv_blocking_witness:
  "\<exists>t'. msgq_recv 1 True True (\<lambda>_ u. u) demo_msgq1 = (0, Some (replicate 64 7), t') \<and> msgq_inv t'"
proof -
  have h: "\<not> bad_handle 1" by (simp add: bad_handle_def)
  have c: "mq_valid (demo_msgq1 ! unat (1 - 1 :: u64)) \<and> mq_contents (demo_msgq1 ! unat (1 - 1 :: u64)) = [replicate 64 7]"
    using slot_abs [OF demo_msgq1(1) h] demo_msgq1(2) by (auto simp: slot_of_def Let_def split: if_splits)
  obtain r x t' where e: "msgq_recv 1 True True (\<lambda>_ u. u) demo_msgq1 = (r, x, t')" by (metis prod_cases3)
  from msgq_recv_blocking [OF demo_msgq1(1) _ h, of "\<lambda>_ u. u"] c e
  obtain n u where n: "msgq_inv t'" "u = asleep (\<lambda>_ u. u) 0 n demo_msgq1"
    "\<forall>k < n. mq_contents (asleep (\<lambda>_ u. u) 0 k demo_msgq1 ! 0) = []"
    "if r = 0 then \<exists>m. x = Some m \<and> mq_contents (u ! 0) = m # mq_contents (t' ! 0) else n = 10000001"
    by (auto split: if_splits)
  have "n = 0" using n(3) c by (cases n) auto
  then show ?thesis using n c e by (auto split: if_splits)
qed

text \<open>
  Opening by name: a name of at most 63 characters opened again gives the same handle and
  changes nothing. A longer name is cut when it is stored and compared in full when it is looked
  up, so opening it again never gives the queue it was given before.
\<close>
theorem msgq_reopen:
  assumes "msgq_inv t" "n \<noteq> []" "msgq_open (Some n) t = (h, t')" "h \<noteq> 0"
  shows "if length n < 64 then msgq_open (Some n) t' = (h, t') else fst (msgq_open (Some n) t') \<noteq> h"
proof (cases "find (\<lambda>i. mq_valid (t ! i) \<and> mq_name (t ! i) = n) [0..<32]")
  case (Some i)
  note F = find_upt_Some [OF Some]
  have "length n < 64" using F(2,3) msgq_inv_nth(4) [OF assms(1), of i] by auto
  moreover have "h = of_nat i + 1" "t' = t" using assms(2,3) Some by (simp_all add: msgq_open_def)
  ultimately show ?thesis using assms(3) by simp
next
  case None
  then have no: "\<not> (mq_valid (t ! j) \<and> mq_name (t ! j) = n)" if "j < 32" for j
    using that by (simp add: find_upt_None)
  obtain i where i: "find (\<lambda>i. \<not> mq_valid (t ! i)) [0..<32] = Some i"
    using assms None by (cases "find (\<lambda>i. \<not> mq_valid (t ! i)) [0..<32]") (auto simp: msgq_open_def)
  note F = find_upt_Some [OF i]
  let ?q = "(t ! i)\<lparr>mq_valid := True, mq_head := 0, mq_tail := 0, mq_count := 0, mq_name := take 63 n\<rparr>"
  have e: "h = of_nat i + 1" "t' = t[i := ?q]"
    using assms(2,3) None i by (simp_all add: msgq_open_def msgq_copy_name_def)
  have len: "length t = 32" using assms(1) by (simp add: msgq_inv_def)
  have nth: "t' ! j = (if j = i then ?q else t ! j)" if "j < 32" for j
    using that len by (simp add: e(2) nth_list_update)
  show ?thesis
  proof (cases "length n < 64")
    case True
    have "find (\<lambda>j. mq_valid (t' ! j) \<and> mq_name (t' ! j) = n) [0..<32] = Some i"
      using F(2) nth no True by (intro find_upt_eq_Some) auto
    then show ?thesis using True assms(2) e(1) by (simp add: msgq_open_def)
  next
    case False
    have "\<not> (mq_valid (t' ! j) \<and> mq_name (t' ! j) = n)" if "j < 32" for j
      using nth [OF that] no [OF that] False by auto
    then have none: "find (\<lambda>j. mq_valid (t' ! j) \<and> mq_name (t' ! j) = n) [0..<32] = None"
      by (simp add: find_upt_None)
    show ?thesis
    proof (cases "find (\<lambda>j. \<not> mq_valid (t' ! j)) [0..<32]")
      case None
      then show ?thesis using False none assms(2,4) by (simp add: msgq_open_def)
    next
      case (Some j)
      note J = find_upt_Some(2,3) [OF Some]
      then have "j \<noteq> i" using nth [of j] by auto
      moreover have "(of_nat j :: u64) = of_nat i \<longleftrightarrow> j = i"
        using J(1) F(2) by (simp add: word_of_nat_eq_iff take_bit_nat_eq_self)
      ultimately show ?thesis using False none Some assms(2) e(1) by (simp add: msgq_open_def)
    qed
  qed
qed

theorem msgq_reopen_witness:
  "fst (msgq_open (Some ''a'') demo_msgq) = 1 \<and> fst (msgq_open (Some (replicate 70 CHR ''x'')) demo_msgq) = 2"
proof -
  have o: "spec_open ''a'' (msgq_abs demo_msgq) = (1, msgq_abs demo_msgq)"
    "fst (spec_open (replicate 70 CHR ''x'') (msgq_abs demo_msgq)) = 2"
    unfolding demo_msgq(2) by code_simp+
  have first: "msgq_open (Some ''a'') msgq_boot = (1, demo_msgq)"
  proof -
    have "fst (spec_open ''a'' (replicate 32 None)) = 1" by code_simp
    then have "fst (msgq_open (Some ''a'') msgq_boot) = 1"
      using open_refines [OF boot_inv, of "''a''"] unfolding boot_abs by (metis fst_conv list.distinct(1))
    then show ?thesis by (simp add: demo_msgq_def prod_eq_iff)
  qed
  have one: "(1 :: u64) \<noteq> 0" "''a'' \<noteq> []" "length ''a'' < 64" by simp_all
  have r: "fst (msgq_open (Some ''a'') demo_msgq) = 1"
    using msgq_reopen [OF boot_inv one(2) first one(1)] one(3) by (simp only: if_True fst_conv)
  define l where "l = replicate 70 CHR ''x''"
  have "l \<noteq> []" by (simp add: l_def)
  note O = open_refines [OF demo_msgq(1) this, THEN conjunct2]
  have "fst (msgq_open (Some l) demo_msgq) = fst (spec_open l (msgq_abs demo_msgq))"
    by (simp only: O [symmetric] fst_conv)
  then show ?thesis using r o(2) unfolding l_def by (simp only: simp_thms)
qed

end
