(* ===== verification/Shm.thy ===== *)
theory Shm
  imports Vmm
begin

text \<open>
  Shared memory regions, \<^verbatim>\<open>kernel/ipc/shm.c\<close>: a table of 32 regions, each a list of physical frames
  that processes map into their own space at an address fixed by the handle. The calling process
  is a parameter: the address space of \<^verbatim>\<open>sched_current_process()\<close>, None when there is no process or
  it has no space.
\<close>

section \<open>State\<close>

definition SHM_MAX_REGIONS :: nat where "SHM_MAX_REGIONS = 32"
definition SHM_MAX_PAGES :: u64 where "SHM_MAX_PAGES = 4096"
definition SHM_PAGE_SZ :: u64 where "SHM_PAGE_SZ = 4096"
definition SHM_VIRT_BASE :: u64 where "SHM_VIRT_BASE = 0x10000000000"
definition SHM_SLOT_SIZE :: u64 where "SHM_SLOT_SIZE = 16 * 1024 * 1024"

lemmas shm_const_defs = SHM_MAX_REGIONS_def SHM_MAX_PAGES_def SHM_PAGE_SZ_def SHM_VIRT_BASE_def SHM_SLOT_SIZE_def

record shm_region =
  sh_valid :: bool
  sh_size :: u64
  sh_num_pages :: u64
  sh_phys_pages :: "nat \<Rightarrow> u64"
  sh_ref_count :: u32

record shm =
  sh_vmm :: vmm
  sh_table :: "shm_region list"

section \<open>Operations\<close>

text \<open>One frame, zeroed through the direct map.\<close>

definition shm_new_page :: "vmm \<Rightarrow> u64 \<times> vmm" where
  "shm_new_page v =
     (let (phys, pm) = pmm_alloc (vpmm v)
      in if phys = 0 then (0, v\<lparr>vpmm := pm\<rparr>)
         else (phys, v\<lparr>vpmm := pm, ptmem := zero_table phys (ptmem v)\<rparr>))"

definition shm_free_page :: "u64 \<Rightarrow> vmm \<Rightarrow> vmm" where
  "shm_free_page p v = v\<lparr>vpmm := pmm_free p (vpmm v)\<rparr>"

definition shm_create :: "u64 \<Rightarrow> shm \<Rightarrow> u64 \<times> shm" where
  "shm_create sz s =
     (if sz = 0 \<or> sz > SHM_MAX_PAGES * SHM_PAGE_SZ then (0, s)
      else case find (\<lambda>i. \<not> sh_valid (sh_table s ! i)) [0..<SHM_MAX_REGIONS] of
        None \<Rightarrow> (0, s)
      | Some idx \<Rightarrow>
          let num_pages = (sz + SHM_PAGE_SZ - 1) div SHM_PAGE_SZ;
              (ps, v) = alloc_loop shm_new_page (unat num_pages) (sh_vmm s);
              r = sh_table s ! idx;
              phys = (\<lambda>i. if i < length ps then ps ! i else sh_phys_pages r i)
          in if length ps < unat num_pages
             then (0, s\<lparr>sh_vmm := fold shm_free_page ps v, sh_table := (sh_table s)[idx := r\<lparr>sh_phys_pages := phys\<rparr>]\<rparr>)
             else (of_nat idx + 1,
                   s\<lparr>sh_vmm := v, sh_table := (sh_table s)[idx := \<lparr>sh_valid = True, sh_size = sz,
                       sh_num_pages = num_pages, sh_phys_pages = phys, sh_ref_count = 0\<rparr>]\<rparr>))"

definition shm_bad :: "u64 \<Rightarrow> bool" where
  "shm_bad handle \<longleftrightarrow> handle = 0 \<or> handle > of_nat SHM_MAX_REGIONS"

definition shm_virt :: "u64 \<Rightarrow> u64" where
  "shm_virt handle = SHM_VIRT_BASE + (handle - 1) * SHM_SLOT_SIZE"

text \<open>The mapping loop: None when every page is mapped, otherwise the index that failed.\<close>

fun shm_map_pages :: "as_ptr \<Rightarrow> u64 \<Rightarrow> (nat \<Rightarrow> u64) \<Rightarrow> nat list \<Rightarrow> vmm \<Rightarrow> nat option \<times> vmm" where
  "shm_map_pages as base phys [] v = (None, v)"
| "shm_map_pages as base phys (i # is) v =
     (let (r, v') = vmm_map_page as (base + of_nat i * SHM_PAGE_SZ) (phys i) VMM_FLAGS_USER_RW v
      in if r \<noteq> 0 then (Some i, v') else shm_map_pages as base phys is v')"

definition shm_unmap_pages :: "as_ptr \<Rightarrow> u64 \<Rightarrow> nat \<Rightarrow> vmm \<Rightarrow> vmm" where
  "shm_unmap_pages as base n v =
     fold (\<lambda>j. vmm_unmap_page as (base + of_nat j * SHM_PAGE_SZ) False) [0..<n] v"

definition shm_map :: "as_ptr option \<Rightarrow> u64 \<Rightarrow> shm \<Rightarrow> u64 \<times> shm" where
  "shm_map cur handle s =
     (if shm_bad handle then (0, s)
      else let i = unat (handle - 1); r = sh_table s ! i
           in if \<not> sh_valid r then (0, s)
              else case cur of None \<Rightarrow> (0, s) | Some as \<Rightarrow>
                let (failed, v) = shm_map_pages as (shm_virt handle) (sh_phys_pages r) [0..<unat (sh_num_pages r)] (sh_vmm s)
                in case failed of
                     Some j \<Rightarrow> (0, s\<lparr>sh_vmm := shm_unmap_pages as (shm_virt handle) j v\<rparr>)
                   | None \<Rightarrow> (shm_virt handle,
                       s\<lparr>sh_vmm := v, sh_table := (sh_table s)[i := r\<lparr>sh_ref_count := sh_ref_count r + 1\<rparr>]\<rparr>))"

definition drop_ref :: "shm_region \<Rightarrow> shm_region" where
  "drop_ref r = (if sh_ref_count r > 0 then r\<lparr>sh_ref_count := sh_ref_count r - 1\<rparr> else r)"

definition shm_unmap :: "as_ptr option \<Rightarrow> u64 \<Rightarrow> shm \<Rightarrow> int \<times> shm" where
  "shm_unmap cur handle s =
     (if shm_bad handle then (-1, s)
      else let i = unat (handle - 1); r = sh_table s ! i
           in if \<not> sh_valid r then (-1, s)
              else case cur of None \<Rightarrow> (-1, s) | Some as \<Rightarrow>
                (0, s\<lparr>sh_vmm := shm_unmap_pages as (shm_virt handle) (unat (sh_num_pages r)) (sh_vmm s),
                      sh_table := (sh_table s)[i := drop_ref r]\<rparr>))"

definition shm_close :: "u64 \<Rightarrow> shm \<Rightarrow> int \<times> shm" where
  "shm_close handle s =
     (if shm_bad handle then (-1, s)
      else let i = unat (handle - 1); r = sh_table s ! i
           in if \<not> sh_valid r then (-1, s)
              else let r1 = drop_ref r
                   in if sh_ref_count r1 = 0
                      then (0, s\<lparr>sh_vmm := fold (\<lambda>j. shm_free_page (sh_phys_pages r1 j)) [0..<unat (sh_num_pages r1)] (sh_vmm s),
                                 sh_table := (sh_table s)[i := r1\<lparr>sh_valid := False, sh_size := 0, sh_num_pages := 0\<rparr>]\<rparr>)
                      else (0, s\<lparr>sh_table := (sh_table s)[i := r1]\<rparr>))"

definition shm_size :: "u64 \<Rightarrow> shm \<Rightarrow> u64" where
  "shm_size handle s =
     (if shm_bad handle then 0
      else let r = sh_table s ! unat (handle - 1) in if sh_valid r then sh_size r else 0)"

section \<open>Frames of a region\<close>

text \<open>Taking zeroed frames is an instance of the frame-allocator contract.\<close>

interpretation shm_frames: frame_allocator shm_new_page shm_free_page "\<lambda>v. owned_addrs (vpmm v)" "\<lambda>v. pmm_inv (vpmm v)"
proof
  fix v v' :: vmm and a
  assume inv: "pmm_inv (vpmm v)"
  show "pmm_inv (vpmm (snd (shm_new_page v)))"
    using pmm_frames.alloc_inv [OF inv] by (auto simp: shm_new_page_def split: prod.splits)
  show "pmm_inv (vpmm (shm_free_page a v))"
    using pmm_frames.free_inv [OF inv] by (simp add: shm_free_page_def)
  show "owned_addrs (vpmm (shm_free_page a v)) = owned_addrs (vpmm v) - {a}"
    if "a \<in> owned_addrs (vpmm v)" "a \<noteq> 0"
    using pmm_frames.free_owned [OF inv that] by (simp add: shm_free_page_def)
  show "a \<notin> owned_addrs (vpmm v) \<and> owned_addrs (vpmm v') = insert a (owned_addrs (vpmm v))"
    if new: "shm_new_page v = (a, v')" "a \<noteq> 0"
  proof -
    obtain pm where "pmm_alloc (vpmm v) = (a, pm)" "vpmm v' = pm"
      using new by (auto simp: shm_new_page_def split: prod.splits if_splits)
    then show ?thesis using pmm_frames.alloc_fresh [OF inv, of a pm] new(2) by simp
  qed
  show "v' = v" if new: "shm_new_page v = (0, v')"
  proof -
    obtain pm where "pmm_alloc (vpmm v) = (0, pm)" "v' = v\<lparr>vpmm := pm\<rparr>"
      using new by (auto simp: shm_new_page_def split: prod.splits if_splits)
    then show ?thesis using pmm_frames.alloc_fail [OF inv, of pm] by simp
  qed
qed

text \<open>Regions own their frames: distinct, allocated, not shared with another region.\<close>

definition region_frames :: "shm_region \<Rightarrow> u64 set" where
  "region_frames r = (if sh_valid r then sh_phys_pages r ` {..<unat (sh_num_pages r)} else {})"

definition region_ok :: "u64 set \<Rightarrow> shm_region \<Rightarrow> bool" where
  "region_ok owned r \<longleftrightarrow> (sh_valid r \<longrightarrow> 0 < unat (sh_num_pages r) \<and> unat (sh_num_pages r) \<le> 4096
     \<and> inj_on (sh_phys_pages r) {..<unat (sh_num_pages r)} \<and> region_frames r \<subseteq> owned - {0})"

definition shm_inv :: "shm \<Rightarrow> bool" where
  "shm_inv s \<longleftrightarrow> length (sh_table s) = 32 \<and> pmm_inv (vpmm (sh_vmm s)) \<and> total_frames (vpmm (sh_vmm s)) \<le> 2 ^ 40
     \<and> (\<forall>r \<in> set (sh_table s). region_ok (owned_addrs (vpmm (sh_vmm s))) r)
     \<and> (\<forall>i < 32. \<forall>j < 32. i \<noteq> j \<longrightarrow> region_frames (sh_table s ! i) \<inter> region_frames (sh_table s ! j) = {})"

section \<open>Loops over the pages\<close>

abbreviation page_at :: "u64 \<Rightarrow> nat \<Rightarrow> u64" where "page_at base i \<equiv> base + of_nat i * SHM_PAGE_SZ"

text \<open>The pages of a slot are distinct pages of the space.\<close>

lemma unat_shm_page:
  assumes "\<not> shm_bad h" "i < 4096"
  shows "unat (page_at (shm_virt h) i) = 0x10000000000 + (unat h - 1) * 0x1000000 + i * 4096"
    "unat (page_at (shm_virt h) i) < 2 ^ 48"
proof -
  have h: "h \<noteq> 0" "unat h \<le> 32" "0 < unat h"
    using assms(1) by (auto simp: shm_bad_def SHM_MAX_REGIONS_def word_le_nat_alt not_less unat_gt_0)
  then have h1: "unat (h - 1) = unat h - 1" by (simp add: unat_minus_one)
  have a: "unat ((h - 1) * SHM_SLOT_SIZE) = (unat h - 1) * 0x1000000"
  proof -
    have "unat h - Suc 0 < 1099511627776" using h by simp
    then show ?thesis using h1 unat_mult_lem [of "h - 1" "0x1000000"] by (simp add: SHM_SLOT_SIZE_def)
  qed
  have b: "unat (of_nat i * SHM_PAGE_SZ :: u64) = i * 4096"
  proof -
    have "unat (of_nat i :: u64) = i" using assms(2) by (intro unat_of_nat_small) simp
    then show ?thesis using assms(2) unat_mult_lem [of "of_nat i :: u64" "0x1000"] by (simp add: SHM_PAGE_SZ_def)
  qed
  have v: "unat (shm_virt h) = 0x10000000000 + (unat h - 1) * 0x1000000"
    unfolding shm_virt_def using a h by (subst unat_add_u64) (simp_all add: SHM_VIRT_BASE_def)
  show "unat (page_at (shm_virt h) i) = 0x10000000000 + (unat h - 1) * 0x1000000 + i * 4096"
    using v b h assms(2) by (subst unat_add_u64) simp_all
  then show "unat (page_at (shm_virt h) i) < 2 ^ 48" using h assms(2) by simp
qed

lemma shm_page_inj:
  assumes "\<not> shm_bad h" "i < 4096" "j < 4096"
  shows "same_page (page_at (shm_virt h) i) (page_at (shm_virt h) j) \<longleftrightarrow> i = j"
proof
  assume s: "same_page (page_at (shm_virt h) i) (page_at (shm_virt h) j)"
  note I = unat_shm_page [OF assms(1,2)] and J = unat_shm_page [OF assms(1,3)]
  have "unat (page_at (shm_virt h) i) div 4096 = unat (page_at (shm_virt h) j) div 4096"
    by (rule same_page_nat [OF s I(2) J(2)])
  then have "(0x10000000000 + (unat h - 1) * 0x1000000 + i * 4096) div 4096
      = (0x10000000000 + (unat h - 1) * 0x1000000 + j * 4096) div 4096" unfolding I(1) J(1) .
  moreover have "(0x10000000000 + (unat h - 1) * 0x1000000 + k * 4096) div 4096 = 0x10000000 + (unat h - 1) * 4096 + k" for k
    by simp
  ultimately show "i = j" by simp
qed simp

lemma same_page_sym: "same_page v w = same_page w v"
  by (auto simp: same_page_def)

lemma same_page_trans: "same_page u v \<Longrightarrow> same_page v w \<Longrightarrow> same_page u w"
  by (simp add: same_page_def)

definition pages_distinct :: "u64 \<Rightarrow> bool" where
  "pages_distinct base \<longleftrightarrow> (\<forall>i < 4096. \<forall>j < 4096. same_page (page_at base i) (page_at base j) \<longleftrightarrow> i = j)"

lemma pages_distinctD:
  "pages_distinct base \<Longrightarrow> same_page w (page_at base i) \<Longrightarrow> same_page w (page_at base j) \<Longrightarrow> i < 4096 \<Longrightarrow> j < 4096 \<Longrightarrow> i = j"
  unfolding pages_distinct_def using same_page_trans [of "page_at base i" w "page_at base j"]
    same_page_sym [of w "page_at base i"] by blast

lemma user_flags: "VMM_FLAGS_USER_RW AND PTE_ADDR_MASK = 0"
  by (simp add: pte_flag_defs)

lemma shm_map_pages_spec:
  assumes "vmm_inv as v" "pages_distinct base" "distinct is" "\<forall>i \<in> set is. i < 4096"
    "shm_map_pages as base phys is v = (f, v')"
  shows "vmm_inv as v' \<and> grown as v v' \<and> (\<exists>xs. (case f of None \<Rightarrow> xs = is | Some j \<Rightarrow> \<exists>ys. is = xs @ j # ys)
     \<and> (\<forall>w. (\<forall>i \<in> set xs. same_page w (page_at base i) \<longrightarrow>
                vmm_virt_to_phys as w v' = (phys i AND PTE_ADDR_MASK) OR VA_OFFSET w)
          \<and> ((\<forall>i \<in> set xs. \<not> same_page w (page_at base i)) \<longrightarrow> vmm_virt_to_phys as w v' = vmm_virt_to_phys as w v)))"
  using assms(1,3-)
proof (induction "is" arbitrary: v)
  case Nil
  then show ?case by simp
next
  case (Cons i "is")
  obtain r v1 where m: "vmm_map_page as (page_at base i) (phys i) VMM_FLAGS_USER_RW v = (r, v1)" by force
  note M = vmm_map_page_steps [OF Cons.prems(1) m]
  note T = map_translation [OF Cons.prems(1) m user_flags]
  show ?case
  proof (cases "r = 0")
    case False
    then have "f = Some i" "v' = v1" using Cons.prems(4) m by auto
    then show ?thesis using M T False by (intro conjI exI [of _ "[] :: nat list"]) simp_all
  next
    case True
    then have e: "shm_map_pages as base phys is v1 = (f, v')" using Cons.prems(4) m by simp
    have I1: "vmm_inv as v1" "distinct is" "\<forall>i \<in> set is. i < 4096" using M Cons.prems by auto
    from Cons.IH [OF I1 e] obtain xs where X: "vmm_inv as v'" "grown as v1 v'"
      "case f of None \<Rightarrow> xs = is | Some j \<Rightarrow> \<exists>ys. is = xs @ j # ys"
      "\<forall>w. (\<forall>i \<in> set xs. same_page w (page_at base i) \<longrightarrow>
                vmm_virt_to_phys as w v' = (phys i AND PTE_ADDR_MASK) OR VA_OFFSET w)
          \<and> ((\<forall>i \<in> set xs. \<not> same_page w (page_at base i)) \<longrightarrow> vmm_virt_to_phys as w v' = vmm_virt_to_phys as w v1)"
      by blast
    have sub: "set xs \<subseteq> set is" using X(3) by (auto split: option.splits)
    have other: "\<not> same_page w (page_at base k)" if "same_page w (page_at base i)" "k \<in> set xs" for w k
      using pages_distinctD [OF assms(2) that(1), of k] that(2) sub Cons.prems(2,3) by auto
    have "case f of None \<Rightarrow> i # xs = i # is | Some j \<Rightarrow> \<exists>ys. i # is = (i # xs) @ j # ys"
      using X(3) by (cases f) auto
    moreover have "grown as v v'" using M X(2) grown_trans by blast
    moreover have "(\<forall>k \<in> set (i # xs). same_page w (page_at base k) \<longrightarrow>
                vmm_virt_to_phys as w v' = (phys k AND PTE_ADDR_MASK) OR VA_OFFSET w)
          \<and> ((\<forall>k \<in> set (i # xs). \<not> same_page w (page_at base k)) \<longrightarrow> vmm_virt_to_phys as w v' = vmm_virt_to_phys as w v)" for w
      using X(4) [rule_format, of w] T [of w] True other [of w] by auto
    ultimately show ?thesis using X(1) by blast
  qed
qed

lemma shm_unmap_pages_spec:
  assumes "vmm_inv as v"
  shows "vmm_inv as (shm_unmap_pages as base n v) \<and> vpmm (shm_unmap_pages as base n v) = vpmm v
     \<and> (\<forall>w. vmm_virt_to_phys as w (shm_unmap_pages as base n v)
           = (if \<exists>j < n. same_page w (page_at base j) then 0 else vmm_virt_to_phys as w v))"
proof (induction n)
  case (Suc n)
  let ?u = "shm_unmap_pages as base n v"
  have e: "shm_unmap_pages as base (Suc n) v = vmm_unmap_page as (page_at base n) False ?u"
    by (simp add: shm_unmap_pages_def)
  have inv: "vmm_inv as ?u" using Suc by simp
  show ?case
    unfolding e using vmm_unmap_page_steps [OF inv, of "page_at base n"] unmap_translation [OF inv] Suc
    by (auto simp: less_Suc_eq)
qed (simp add: shm_unmap_pages_def assms)

lemma va_offset_page:
  assumes "v AND -4096 = v" "off < (0x1000 :: u64)"
  shows "VA_OFFSET (v + off) = off"
proof -
  have "v + off = ((v + off) AND -4096) + VA_OFFSET (v + off)"
  proof -
    have "(-4096 :: u64) = NOT 0xFFF" by simp
    then have "((v + off) AND -4096) AND VA_OFFSET (v + off) = 0"
      by (simp add: VA_OFFSET_def and.assoc and.left_commute)
    then have "((v + off) AND -4096) + VA_OFFSET (v + off) = ((v + off) AND -4096) OR VA_OFFSET (v + off)"
      by (rule disjunctive_add_eq_or)
    also have "\<dots> = v + off" unfolding VA_OFFSET_def
      by (simp flip: bit.conj_disj_distrib)
    finally show ?thesis by simp
  qed
  then show ?thesis using page_offset [OF assms] by simp
qed

section \<open>Creation\<close>

lemma new_pages_zero:
  "alloc_loop shm_new_page n v = (ps, v') \<Longrightarrow> (\<forall>p \<in> set ps. \<forall>a. a - p < 4096 \<longrightarrow> ptmem v' a = 0)
     \<and> (\<forall>a. ptmem v a = 0 \<longrightarrow> ptmem v' a = 0) \<and> total_frames (vpmm v') = total_frames (vpmm v)"
proof (induction n arbitrary: v ps v')
  case (Suc n)
  obtain p v1 where p: "shm_new_page v = (p, v1)" by force
  have keep: "ptmem v a = 0 \<Longrightarrow> ptmem v1 a = 0" for a
    using p by (auto simp: shm_new_page_def zero_table_def split: prod.splits if_splits)
  have tot: "total_frames (vpmm v1) = total_frames (vpmm v)"
  proof -
    have "vpmm v1 = snd (pmm_alloc (vpmm v))"
      using p by (auto simp: shm_new_page_def split: prod.splits if_splits)
    then show ?thesis by simp
  qed
  show ?case
  proof (cases "p = 0")
    case True
    then show ?thesis using Suc.prems p keep tot by auto
  next
    case False
    then have zero: "a - p < 4096 \<Longrightarrow> ptmem v1 a = 0" for a
      using p by (auto simp: shm_new_page_def zero_table_def split: prod.splits if_splits)
    obtain qs v2 where q: "alloc_loop shm_new_page n v1 = (qs, v2)" by force
    then have "ps = p # qs" "v' = v2" using Suc.prems p False by auto
    then show ?thesis using Suc.IH [OF q] zero keep tot by auto
  qed
qed simp

lemma region_ok_mono: "region_ok A r \<Longrightarrow> A \<subseteq> B \<Longrightarrow> region_ok B r"
  by (auto simp: region_ok_def)

lemma fold_free_total: "total_frames (vpmm (fold shm_free_page ps v)) = total_frames (vpmm v)"
  by (induction ps arbitrary: v) (simp_all add: shm_free_page_def)

lemma num_pages:
  assumes "sz \<noteq> 0" "\<not> sz > SHM_MAX_PAGES * SHM_PAGE_SZ"
  shows "unat ((sz + SHM_PAGE_SZ - 1) div SHM_PAGE_SZ) = (unat sz + 4095) div 4096"
    "0 < (unat sz + 4095) div 4096" "(unat sz + 4095) div 4096 \<le> 4096"
proof -
  have sz: "unat sz \<le> 0x1000000" "0 < unat sz"
    using assms by (simp_all add: SHM_MAX_PAGES_def SHM_PAGE_SZ_def word_less_nat_alt not_less unat_gt_0)
  have "sz + SHM_PAGE_SZ - 1 = 0xFFF + sz" by (simp add: SHM_PAGE_SZ_def)
  moreover have "unat (0xFFF + sz) = unat sz + 4095" using sz by (subst unat_add_u64) simp_all
  ultimately show "unat ((sz + SHM_PAGE_SZ - 1) div SHM_PAGE_SZ) = (unat sz + 4095) div 4096"
    by (simp add: unat_div SHM_PAGE_SZ_def)
  show "0 < (unat sz + 4095) div 4096" using sz(2) by (simp add: div_greater_zero_iff)
  have "(unat sz + 4095) div 4096 \<le> (0x1000000 + 4095) div 4096" using sz(1) by (intro div_le_mono) simp
  then show "(unat sz + 4095) div 4096 \<le> 4096" by simp
qed

lemma region_frames_phys [simp]:
  "\<not> sh_valid r \<Longrightarrow> region_frames (r\<lparr>sh_phys_pages := f\<rparr>) = {}"
  by (simp add: region_frames_def)

lemma shm_inv_update:
  assumes inv: "shm_inv s" and pm: "pmm_inv (vpmm v)" "total_frames (vpmm v) \<le> 2 ^ 40"
    and own: "owned_addrs (vpmm (sh_vmm s)) \<subseteq> owned_addrs (vpmm v)"
    and r: "region_ok (owned_addrs (vpmm v)) r"
    and new: "\<forall>j < 32. j \<noteq> i \<longrightarrow> region_frames r \<inter> region_frames (sh_table s ! j) = {}"
  shows "shm_inv (s\<lparr>sh_vmm := v, sh_table := (sh_table s)[i := r]\<rparr>)"
proof -
  let ?t = "(sh_table s)[i := r]"
  have old: "region_frames (sh_table s ! a) \<inter> region_frames (sh_table s ! b) = {}" if "a < 32" "b < 32" "a \<noteq> b" for a b
    using inv that by (simp add: shm_inv_def)
  have nth: "?t ! a = (if a = i then r else sh_table s ! a)" if "a < 32" for a
    using that inv by (simp add: shm_inv_def nth_list_update)
  have "region_frames (?t ! a) \<inter> region_frames (?t ! b) = {}" if "a < 32" "b < 32" "a \<noteq> b" for a b
    using nth [OF that(1)] nth [OF that(2)] old [OF that] new that by (simp add: Int_commute)
  moreover have "\<forall>q \<in> set ?t. region_ok (owned_addrs (vpmm v)) q"
    using inv r region_ok_mono [OF _ own] by (auto simp: shm_inv_def dest!: set_update_subset_insert [THEN subsetD])
  ultimately show ?thesis using inv pm by (simp add: shm_inv_def)
qed

lemma shm_create_spec:
  assumes inv: "shm_inv s" and eq: "shm_create sz s = (h, s')"
  shows "shm_inv s' \<and>
    (if h = 0
     then owned_addrs (vpmm (sh_vmm s')) = owned_addrs (vpmm (sh_vmm s))
       \<and> (\<forall>i < 32. sh_valid (sh_table s' ! i) = sh_valid (sh_table s ! i)
                \<and> (sh_valid (sh_table s ! i) \<longrightarrow> sh_table s' ! i = sh_table s ! i))
     else \<exists>i < 32. h = of_nat i + 1 \<and> \<not> sh_valid (sh_table s ! i) \<and> (let r = sh_table s' ! i in
         sh_valid r \<and> sh_size r = sz \<and> sh_ref_count r = 0 \<and> unat (sh_num_pages r) = (unat sz + 4095) div 4096
         \<and> region_frames r \<inter> owned_addrs (vpmm (sh_vmm s)) = {}
         \<and> owned_addrs (vpmm (sh_vmm s')) = owned_addrs (vpmm (sh_vmm s)) \<union> region_frames r
         \<and> (\<forall>p \<in> region_frames r. \<forall>a. a - p < 4096 \<longrightarrow> ptmem (sh_vmm s') a = 0))
       \<and> (\<forall>j. j \<noteq> i \<longrightarrow> sh_table s' ! j = sh_table s ! j))"
proof -
  note I = inv [unfolded shm_inv_def]
  show ?thesis
  proof (cases "sz = 0 \<or> sz > SHM_MAX_PAGES * SHM_PAGE_SZ
      \<or> find (\<lambda>i. \<not> sh_valid (sh_table s ! i)) [0..<SHM_MAX_REGIONS] = None")
    case True
    then have "h = 0" "s' = s" using eq by (auto simp: shm_create_def split: if_splits option.splits)
    then show ?thesis using inv by simp
  next
    case False
    then obtain i where f: "find (\<lambda>i. \<not> sh_valid (sh_table s ! i)) [0..<SHM_MAX_REGIONS] = Some i" by auto
    have i: "i < 32" "\<not> sh_valid (sh_table s ! i)"
      using find_upt_Some(2,3) [OF f] by (simp_all add: SHM_MAX_REGIONS_def)
    have sz: "sz \<noteq> 0" "\<not> sz > SHM_MAX_PAGES * SHM_PAGE_SZ" using False by auto
    note N = num_pages [OF sz]
    define n where "n = (unat sz + 4095) div 4096"
    define r where "r = sh_table s ! i"
    obtain ps v where a: "alloc_loop shm_new_page n (sh_vmm s) = (ps, v)" by force
    note A = shm_frames.alloc_loop_spec [OF _ a] and Z = new_pages_zero [OF a]
    have A: "pmm_inv (vpmm v)" "distinct ps" "set ps \<inter> owned_addrs (vpmm (sh_vmm s)) = {}"
      "owned_addrs (vpmm v) = owned_addrs (vpmm (sh_vmm s)) \<union> set ps" "0 \<notin> set ps" "length ps \<le> n"
      using A I by auto
    define phys where "phys = (\<lambda>i. if i < length ps then ps ! i else sh_phys_pages r i)"
    have res: "(h, s') = (if length ps < n
             then (0, s\<lparr>sh_vmm := fold shm_free_page ps v, sh_table := (sh_table s)[i := r\<lparr>sh_phys_pages := phys\<rparr>]\<rparr>)
             else (of_nat i + 1, s\<lparr>sh_vmm := v, sh_table := (sh_table s)[i := \<lparr>sh_valid = True, sh_size = sz,
                       sh_num_pages = (sz + SHM_PAGE_SZ - 1) div SHM_PAGE_SZ, sh_phys_pages = phys, sh_ref_count = 0\<rparr>]\<rparr>))"
      using eq sz f a N(1) unfolding phys_def r_def by (simp add: shm_create_def n_def Let_def)
    have len: "length (sh_table s) = 32" using I by simp
    show ?thesis
    proof (cases "length ps < n")
      case True
      note RB = shm_frames.rollback [OF _ a]
      let ?v = "fold shm_free_page ps v" and ?r = "r\<lparr>sh_phys_pages := phys\<rparr>"
      have rb: "pmm_inv (vpmm ?v)" "owned_addrs (vpmm ?v) = owned_addrs (vpmm (sh_vmm s))" using RB I by auto
      have "\<not> sh_valid r" using i by (simp add: r_def)
      then have "shm_inv (s\<lparr>sh_vmm := ?v, sh_table := (sh_table s)[i := ?r]\<rparr>)"
        by (intro shm_inv_update [OF inv rb(1)]) (use rb Z I in \<open>auto simp: fold_free_total region_ok_def\<close>)
      then show ?thesis
        using res True rb i len by (auto simp: nth_list_update r_def)
    next
      case full: False
      then have l: "length ps = n" using A(6) by simp
      let ?r = "\<lparr>sh_valid = True, sh_size = sz, sh_num_pages = (sz + SHM_PAGE_SZ - 1) div SHM_PAGE_SZ,
          sh_phys_pages = phys, sh_ref_count = 0\<rparr>"
      have ph: "phys k = ps ! k" if "k < n" for k using that l by (simp add: phys_def)
      have fr: "region_frames ?r = set ps"
      proof -
        have "region_frames ?r = phys ` {..<n}" using N(1) by (simp add: region_frames_def n_def)
        also have "\<dots> = (!) ps ` {..<n}" using ph by (intro image_cong) auto
        also have "\<dots> = set ps" using l by (auto simp: set_conv_nth)
        finally show ?thesis .
      qed
      have "inj_on phys {..<n}" using ph A(2) l by (auto simp: inj_on_def nth_eq_iff_index_eq)
      then have ok: "region_ok (owned_addrs (vpmm v)) ?r"
        using N fr A(4,5) by (auto simp: region_ok_def n_def)
      have "region_frames (sh_table s ! j) \<subseteq> owned_addrs (vpmm (sh_vmm s))" if "j < 32" for j
      proof -
        have "region_ok (owned_addrs (vpmm (sh_vmm s))) (sh_table s ! j)" using I that len by simp
        then show ?thesis by (auto simp: region_ok_def region_frames_def)
      qed
      then have dis: "\<forall>j < 32. j \<noteq> i \<longrightarrow> region_frames ?r \<inter> region_frames (sh_table s ! j) = {}"
        using A(3) fr by blast
      have "shm_inv (s\<lparr>sh_vmm := v, sh_table := (sh_table s)[i := ?r]\<rparr>)"
        by (intro shm_inv_update [OF inv A(1) _ _ ok dis]) (use A(4) Z I in auto)
      moreover have "(of_nat i + 1 :: u64) \<noteq> 0"
      proof -
        have "unat (of_nat i + 1 :: u64) = i + 1"
          using i(1) by (subst unat_add_u64) (simp_all add: unat_of_nat take_bit_nat_eq_self)
        then show ?thesis by force
      qed
      moreover have "h = of_nat i + 1" "s' = s\<lparr>sh_vmm := v, sh_table := (sh_table s)[i := ?r]\<rparr>"
        using res full by auto
      ultimately show ?thesis
        using i N fr A(3,4) Z len by (auto intro!: exI [of _ i] simp: Let_def)
    qed
  qed
qed

section \<open>Correctness of shared memory\<close>

definition demo_shm :: shm where
  "demo_shm = \<lparr>sh_vmm = demo_vmm64, sh_table = replicate 32 \<lparr>sh_valid = False, sh_size = 0, sh_num_pages = 0,
     sh_phys_pages = (\<lambda>_. 0), sh_ref_count = 0\<rparr>\<rparr>"

lemma demo_shm_inv: "shm_inv demo_shm"
  using demo_vmm64_inv [of KernelAS]
  by (simp add: shm_inv_def demo_shm_def vmm_inv_def region_ok_def region_frames_def)

text \<open>
  C11. \<^verbatim>\<open>shm_create\<close> either hands out a handle whose region has one zeroed frame for every started page of
  the size, all of them new to the system and shared with nothing, or returns 0, with every frame it
  had taken given back and every region as it was.
\<close>
theorem shm_create_correct:
  assumes "shm_inv s" "shm_create sz s = (h, s')"
  shows "shm_inv s' \<and>
    (if h = 0
     then owned_addrs (vpmm (sh_vmm s')) = owned_addrs (vpmm (sh_vmm s))
       \<and> (\<forall>i < 32. sh_valid (sh_table s' ! i) = sh_valid (sh_table s ! i)
                \<and> (sh_valid (sh_table s ! i) \<longrightarrow> sh_table s' ! i = sh_table s ! i))
     else \<exists>i < 32. h = of_nat i + 1 \<and> \<not> sh_valid (sh_table s ! i) \<and> (let r = sh_table s' ! i in
         sh_valid r \<and> sh_size r = sz \<and> sh_ref_count r = 0 \<and> unat (sh_num_pages r) = (unat sz + 4095) div 4096
         \<and> region_frames r \<inter> owned_addrs (vpmm (sh_vmm s)) = {}
         \<and> owned_addrs (vpmm (sh_vmm s')) = owned_addrs (vpmm (sh_vmm s)) \<union> region_frames r
         \<and> (\<forall>p \<in> region_frames r. \<forall>a. a - p < 4096 \<longrightarrow> ptmem (sh_vmm s') a = 0))
       \<and> (\<forall>j. j \<noteq> i \<longrightarrow> sh_table s' ! j = sh_table s ! j))"
  by (rule shm_create_spec [OF assms])

theorem shm_create_correct_witness:
  "fst (shm_create 5000 demo_shm) = 1 \<and> shm_inv (snd (shm_create 5000 demo_shm))"
proof -
  have "fst (shm_create 5000 demo_shm) = 1" by code_simp
  then show ?thesis
    using shm_create_correct [OF demo_shm_inv, of 5000] by (metis prod.collapse)
qed

text \<open>The call that maps a region, on its branches.\<close>

lemma shm_map_spec:
  assumes inv: "vmm_inv as (sh_vmm s)" and h: "\<not> shm_bad h" and r: "r = sh_table s ! unat (h - 1)"
    "sh_valid r" "unat (sh_num_pages r) \<le> 4096"
    and eq: "shm_map (Some as) h s = (b, s')"
  shows "vmm_inv as (sh_vmm s') \<and> owned_addrs (vpmm (sh_vmm s)) \<subseteq> owned_addrs (vpmm (sh_vmm s'))
    \<and> (\<exists>n \<le> unat (sh_num_pages r).
     (if b = 0 then sh_table s' = sh_table s
      else b = shm_virt h \<and> n = unat (sh_num_pages r)
         \<and> sh_table s' = (sh_table s)[unat (h - 1) := r\<lparr>sh_ref_count := sh_ref_count r + 1\<rparr>])
     \<and> (\<forall>w. (\<forall>i < n. same_page w (page_at (shm_virt h) i) \<longrightarrow> vmm_virt_to_phys as w (sh_vmm s') =
              (if b = 0 then 0 else (sh_phys_pages r i AND PTE_ADDR_MASK) OR VA_OFFSET w))
          \<and> ((\<forall>i < n. \<not> same_page w (page_at (shm_virt h) i)) \<longrightarrow>
               vmm_virt_to_phys as w (sh_vmm s') = vmm_virt_to_phys as w (sh_vmm s))))"
proof -
  let ?base = "shm_virt h" and ?n = "unat (sh_num_pages r)"
  have dis: "pages_distinct ?base" using shm_page_inj [OF h] by (simp add: pages_distinct_def)
  obtain f v where m: "shm_map_pages as ?base (sh_phys_pages r) [0..<?n] (sh_vmm s) = (f, v)" by force
  have "\<forall>i \<in> set [0..<?n]. i < 4096" using r(3) by auto
  from shm_map_pages_spec [OF inv dis distinct_upt this m] obtain xs where X: "vmm_inv as v"
    "case f of None \<Rightarrow> xs = [0..<?n] | Some j \<Rightarrow> \<exists>ys. [0..<?n] = xs @ j # ys"
    "\<forall>w. (\<forall>i \<in> set xs. same_page w (page_at ?base i) \<longrightarrow>
                vmm_virt_to_phys as w v = (sh_phys_pages r i AND PTE_ADDR_MASK) OR VA_OFFSET w)
          \<and> ((\<forall>i \<in> set xs. \<not> same_page w (page_at ?base i)) \<longrightarrow>
               vmm_virt_to_phys as w v = vmm_virt_to_phys as w (sh_vmm s))"
    and own: "owned_addrs (vpmm (sh_vmm s)) \<subseteq> owned_addrs (vpmm v)" unfolding grown_def by blast
  show ?thesis
  proof (cases f)
    case None
    have base: "?base \<noteq> 0" using unat_shm_page(1) [OF h, of 0] by force
    have e: "b = ?base" "s' = s\<lparr>sh_vmm := v, sh_table := (sh_table s)[unat (h - 1) := r\<lparr>sh_ref_count := sh_ref_count r + 1\<rparr>]\<rparr>"
      using eq h r m None by (simp_all add: shm_map_def Let_def)
    then show ?thesis using X None base own by (intro conjI exI [of _ ?n]) auto
  next
    case (Some j)
    then obtain ys where ys: "[0..<?n] = xs @ j # ys" using X(2) by auto
    from arg_cong [OF ys, where f = length] have len: "length xs < ?n" by simp
    have "xs = take (length xs) [0..<?n]" using ys by simp
    then have xs: "xs = [0..<length xs]" using len by simp
    have "j = [0..<?n] ! length xs" using ys by simp
    then have j: "j = length xs" using len by simp
    have e: "b = 0" "s' = s\<lparr>sh_vmm := shm_unmap_pages as ?base j v\<rparr>"
      using eq h r m Some by (simp_all add: shm_map_def Let_def)
    have m: "i \<in> set xs \<longleftrightarrow> i < j" for i using xs j by (metis atLeastLessThan_iff set_upt zero_le)
    note U = shm_unmap_pages_spec [OF X(1), of ?base j]
    show ?thesis
      using U X(3) e len j own by (intro conjI exI [of _ j]) (auto simp: m)
  qed
qed

lemma shm_map_inv:
  assumes inv: "shm_inv s" and i: "i < 32" and v: "pmm_inv (vpmm (sh_vmm s'))" "total_frames (vpmm (sh_vmm s')) \<le> 2 ^ 40"
    and own: "owned_addrs (vpmm (sh_vmm s)) \<subseteq> owned_addrs (vpmm (sh_vmm s'))"
    and t: "sh_table s' = sh_table s \<or> sh_table s' = (sh_table s)[i := (sh_table s ! i)\<lparr>sh_ref_count := c\<rparr>]"
  shows "shm_inv s'"
proof -
  define r where "r = (sh_table s ! i)\<lparr>sh_ref_count := (if sh_table s' = sh_table s then sh_ref_count (sh_table s ! i) else c)\<rparr>"
  have len: "length (sh_table s) = 32" using inv by (simp add: shm_inv_def)
  have t': "sh_table s' = (sh_table s)[i := r]" using t by (auto simp: r_def)
  have fr: "region_frames r = region_frames (sh_table s ! i)" by (simp add: region_frames_def r_def)
  have "region_ok (owned_addrs (vpmm (sh_vmm s))) (sh_table s ! i)" using inv i by (simp add: shm_inv_def)
  then have "region_ok (owned_addrs (vpmm (sh_vmm s))) r" by (simp add: region_ok_def fr) (simp add: r_def)
  then have "shm_inv (s\<lparr>sh_vmm := sh_vmm s', sh_table := (sh_table s)[i := r]\<rparr>)"
    by (intro shm_inv_update [OF inv v own region_ok_mono [OF _ own]]) (use inv i fr in \<open>auto simp: shm_inv_def\<close>)
  moreover have "s' = s\<lparr>sh_vmm := sh_vmm s', sh_table := (sh_table s)[i := r]\<rparr>" using t' by (cases s, cases s') simp
  ultimately show ?thesis by simp
qed

lemma handle_region:
  assumes "shm_inv s" "\<not> shm_bad h" "sh_valid (sh_table s ! unat (h - 1))"
  shows "unat (h - 1) < 32" "region_ok (owned_addrs (vpmm (sh_vmm s))) (sh_table s ! unat (h - 1))"
    "unat (sh_num_pages (sh_table s ! unat (h - 1))) \<le> 4096"
proof -
  show i: "unat (h - 1) < 32" using assms(2) unfolding shm_bad_def SHM_MAX_REGIONS_def
    by (auto simp: word_le_nat_alt not_less unat_minus_one)
  show ok: "region_ok (owned_addrs (vpmm (sh_vmm s))) (sh_table s ! unat (h - 1))"
    using i assms(1) by (simp add: shm_inv_def)
  show "unat (sh_num_pages (sh_table s ! unat (h - 1))) \<le> 4096" using ok assms(3) by (simp add: region_ok_def)
qed

lemma shm_map_keeps:
  assumes "vmm_inv as (sh_vmm s)" "shm_inv s" "\<not> shm_bad h" "sh_valid (sh_table s ! unat (h - 1))"
    "shm_map (Some as) h s = (b, s')"
  shows "shm_inv s'"
proof -
  note H = handle_region [OF assms(2-4)]
  note M = shm_map_spec [OF assms(1,3) refl assms(4) H(3) assms(5)]
  let ?c = "sh_ref_count (sh_table s ! unat (h - 1)) + 1"
  have "sh_table s' = sh_table s \<or> sh_table s' = (sh_table s)[unat (h - 1) := (sh_table s ! unat (h - 1))\<lparr>sh_ref_count := ?c\<rparr>]"
    using M by (cases "b = 0") auto
  then show ?thesis
    by (rule shm_map_inv [OF assms(2) H(1), rotated -1]) (use M in \<open>auto simp: vmm_inv_def\<close>)
qed

text \<open>
  C12. \<^verbatim>\<open>shm_map\<close> gives the calling process the whole region at the address of its slot: every byte
  of it translates to the frame of the region, every other address as before, and the reference is
  counted. When a page table cannot be allocated it returns 0, no page it entered stays mapped, and
  the count is as it was. Every process that maps the handle gets the same frames.
\<close>
theorem shm_map_correct:
  assumes "vmm_inv as (sh_vmm s)" "shm_inv s" "\<not> shm_bad h" "sh_valid (sh_table s ! unat (h - 1))"
  shows "case shm_map (Some as) h s of (b, s') \<Rightarrow> let r = sh_table s ! unat (h - 1); n = unat (sh_num_pages r) in
     vmm_inv as (sh_vmm s') \<and> shm_inv s' \<and>
     (if b = 0
      then sh_table s' = sh_table s
        \<and> (\<exists>k \<le> n. \<forall>w. vmm_virt_to_phys as w (sh_vmm s') =
             (if \<exists>i < k. same_page w (page_at (shm_virt h) i) then 0 else vmm_virt_to_phys as w (sh_vmm s)))
      else b = shm_virt h \<and> sh_table s' = (sh_table s)[unat (h - 1) := r\<lparr>sh_ref_count := sh_ref_count r + 1\<rparr>]
        \<and> (\<forall>i < n. \<forall>off < 0x1000. vmm_virt_to_phys as (page_at b i + off) (sh_vmm s') = sh_phys_pages r i OR off)
        \<and> (\<forall>w. (\<forall>i < n. \<not> same_page w (page_at b i)) \<longrightarrow>
              vmm_virt_to_phys as w (sh_vmm s') = vmm_virt_to_phys as w (sh_vmm s)))"
proof -
  define r where "r = sh_table s ! unat (h - 1)"
  define n where "n = unat (sh_num_pages r)"
  obtain b s' where eq: "shm_map (Some as) h s = (b, s')" by force
  note H = handle_region [OF assms(2-4), folded r_def, folded n_def]
  have ok: "region_ok (owned_addrs (vpmm (sh_vmm s))) r" and n: "n \<le> 4096" by (rule H(2), rule H(3))
  note M = shm_map_spec [OF assms(1,3) r_def assms(4) [folded r_def] n [unfolded n_def] eq, folded n_def]
  have inv': "shm_inv s'" by (rule shm_map_keeps [OF assms eq])
  have frame: "sh_phys_pages r i AND PTE_ADDR_MASK = sh_phys_pages r i" if "i < n" for i
  proof -
    have "sh_phys_pages r i \<in> region_frames r" using that assms(4) by (simp add: region_frames_def r_def n_def)
    then have "sh_phys_pages r i \<in> owned_addrs (vpmm (sh_vmm s))"
      using ok assms(4) by (auto simp: region_ok_def r_def)
    then show ?thesis using owned_frame vmm_inv_D(1,2) [OF assms(1)] frame_addr_mask by metis
  qed
  have off: "same_page (page_at (shm_virt h) i + off) (page_at (shm_virt h) i)" "VA_OFFSET (page_at (shm_virt h) i + off) = off"
    if "i < n" "off < 0x1000" for i off
  proof -
    have i: "i < 4096" using that(1) n by simp
    have "page_at (shm_virt h) i AND -4096 = page_at (shm_virt h) i"
    proof -
      have "unat (page_at (shm_virt h) i) = (0x10000000 + (unat h - 1) * 4096 + i) * 4096"
        unfolding unat_shm_page(1) [OF assms(3) i] by (simp only: distrib_right mult.assoc)
      then show ?thesis by (simp only: page_aligned_iff mod_mult_self2_is_0)
    qed
    from same_page_offset [OF this that(2)] va_offset_page [OF this that(2)]
    show "same_page (page_at (shm_virt h) i + off) (page_at (shm_virt h) i)" "VA_OFFSET (page_at (shm_virt h) i + off) = off" .
  qed
  show ?thesis
  proof (cases "b = 0")
    case True
    obtain k where k: "k \<le> n" "sh_table s' = sh_table s"
      "\<forall>w. (\<forall>i < k. same_page w (page_at (shm_virt h) i) \<longrightarrow> vmm_virt_to_phys as w (sh_vmm s') = 0)
         \<and> ((\<forall>i < k. \<not> same_page w (page_at (shm_virt h) i)) \<longrightarrow>
               vmm_virt_to_phys as w (sh_vmm s') = vmm_virt_to_phys as w (sh_vmm s))"
      using M True by auto
    then have "\<forall>w. vmm_virt_to_phys as w (sh_vmm s') =
             (if \<exists>i < k. same_page w (page_at (shm_virt h) i) then 0 else vmm_virt_to_phys as w (sh_vmm s))" by auto
    then show ?thesis unfolding eq prod.case Let_def r_def [symmetric] n_def [symmetric] using True k(1,2) M inv' by auto
  next
    case False
    then have B: "b = shm_virt h" "sh_table s' = (sh_table s)[unat (h - 1) := r\<lparr>sh_ref_count := sh_ref_count r + 1\<rparr>]"
      "\<forall>w. (\<forall>i < n. same_page w (page_at (shm_virt h) i) \<longrightarrow>
              vmm_virt_to_phys as w (sh_vmm s') = (sh_phys_pages r i AND PTE_ADDR_MASK) OR VA_OFFSET w)
         \<and> ((\<forall>i < n. \<not> same_page w (page_at (shm_virt h) i)) \<longrightarrow>
               vmm_virt_to_phys as w (sh_vmm s') = vmm_virt_to_phys as w (sh_vmm s))"
      using M by auto
    have "vmm_virt_to_phys as (page_at b i + off) (sh_vmm s') = sh_phys_pages r i OR off"
      if "i < n" "off < 0x1000" for i off
      using B(3) off [OF that] frame [OF that(1)] that(1) unfolding B(1) by metis
    then show ?thesis
      unfolding eq prod.case Let_def r_def [symmetric] n_def [symmetric] using False B M inv' by simp
  qed
qed

text \<open>Creation does not disturb the page tables of any space.\<close>

lemma new_page_vmm:
  assumes inv: "vmm_inv as v" and eq: "shm_new_page v = (p, v')"
  shows "vmm_inv as v'"
proof (cases "p = 0")
  case True
  then have "v' = v" using shm_frames.alloc_fail eq vmm_inv_D(1) [OF inv] by blast
  then show ?thesis using inv by simp
next
  case False
  then obtain pm where pm: "pmm_alloc (vpmm v) = (p, pm)" "v' = v\<lparr>vpmm := pm, ptmem := zero_table p (ptmem v)\<rparr>"
    using eq by (auto simp: shm_new_page_def split: prod.splits if_splits)
  note F = vmm_take_frame [OF inv pm(1) False]
  have "p \<in> owned_addrs (vpmm (v\<lparr>vpmm := pm\<rparr>))" "p \<notin> tables as (v\<lparr>vpmm := pm\<rparr>)" using F by simp_all
  from vmm_zero_frame(1) [OF F(1) this] show ?thesis using pm(2) by simp
qed

lemma new_pages_vmm: "alloc_loop shm_new_page n v = (ps, v') \<Longrightarrow> vmm_inv as v \<Longrightarrow> vmm_inv as v'"
proof (induction n arbitrary: v ps)
  case (Suc n)
  obtain p v1 where p: "shm_new_page v = (p, v1)" by force
  note N = new_page_vmm [OF Suc.prems(2) p]
  show ?case using Suc p N by (auto split: if_splits prod.splits)
qed simp

lemma demo_shm_region:
  "vmm_inv as (sh_vmm (snd (shm_create 5000 demo_shm)))" "shm_inv (snd (shm_create 5000 demo_shm))"
  "sh_valid (sh_table (snd (shm_create 5000 demo_shm)) ! unat (1 - 1 :: u64))" "\<not> shm_bad 1"
proof -
  have f: "find (\<lambda>i. \<not> sh_valid (sh_table demo_shm ! i)) [0..<SHM_MAX_REGIONS] = Some 0" by code_simp
  have n: "unat ((5000 + SHM_PAGE_SZ - 1) div SHM_PAGE_SZ) = 2" "\<not> 5000 > SHM_MAX_PAGES * SHM_PAGE_SZ" by code_simp+
  obtain ps v where a: "alloc_loop shm_new_page 2 demo_vmm64 = (ps, v)" by force
  have "length (fst (alloc_loop shm_new_page 2 demo_vmm64)) = 2" by code_simp
  then have "sh_vmm (snd (shm_create 5000 demo_shm)) = v"
    using f n a by (simp add: shm_create_def demo_shm_def Let_def)
  then show "vmm_inv as (sh_vmm (snd (shm_create 5000 demo_shm)))"
    using new_pages_vmm [OF a demo_vmm64_inv] by simp
  show "shm_inv (snd (shm_create 5000 demo_shm))"
    using shm_create_spec [OF demo_shm_inv] by (metis prod.collapse)
  show "sh_valid (sh_table (snd (shm_create 5000 demo_shm)) ! unat (1 - 1 :: u64))" by code_simp
  show "\<not> shm_bad 1" by code_simp
qed

theorem shm_map_correct_witness:
  "let s = snd (shm_create 5000 demo_shm); (b, s') = shm_map (Some KernelAS) 1 s
   in b = 0x10000000000 \<and> vmm_virt_to_phys KernelAS (b + 0x1123) (sh_vmm s') = 0x4123"
proof -
  let ?s = "snd (shm_create 5000 demo_shm)"
  obtain b s' where m: "shm_map (Some KernelAS) 1 ?s = (b, s')" by force
  have v: "shm_virt 1 = 0x10000000000" by code_simp
  have "fst (shm_map (Some KernelAS) 1 ?s) = 0x10000000000" by code_simp
  then have b: "b = 0x10000000000" using m by simp
  have r: "unat (sh_num_pages (sh_table ?s ! unat (1 - 1 :: u64))) = 2"
    "sh_phys_pages (sh_table ?s ! unat (1 - 1 :: u64)) 1 = 0x4000" by code_simp+
  have b0: "b \<noteq> 0" using b by simp
  note M = shm_map_correct [OF demo_shm_region(1,2,4,3), of KernelAS, unfolded m prod.case Let_def r(1) if_not_P [OF b0],
      THEN conjunct2, THEN conjunct2, THEN conjunct2, THEN conjunct2, THEN conjunct1]
  from M [rule_format, of 1 "0x123"] have "vmm_virt_to_phys KernelAS (b + 0x1123) (sh_vmm s') = 0x4123"
    using r(2) by (simp add: SHM_PAGE_SZ_def add.assoc)
  then show ?thesis using m b by (simp add: Let_def)
qed

lemma free_region:
  assumes "inj_on f {..<n}" "f ` {..<n} \<subseteq> owned_addrs (vpmm v) - {0}" "pmm_inv (vpmm v)"
  shows "pmm_inv (vpmm (fold (\<lambda>j. shm_free_page (f j)) [0..<n] v))
    \<and> owned_addrs (vpmm (fold (\<lambda>j. shm_free_page (f j)) [0..<n] v)) = owned_addrs (vpmm v) - f ` {..<n}"
proof -
  have "fold (\<lambda>j. shm_free_page (f j)) [0..<n] v = fold shm_free_page (map f [0..<n]) v"
    by (simp add: fold_map o_def)
  moreover have "distinct (map f [0..<n])" "set (map f [0..<n]) = f ` {..<n}"
    using assms(1) by (auto simp: distinct_map atLeast0LessThan)
  ultimately show ?thesis using shm_frames.release_all [of v "map f [0..<n]"] assms by auto
qed

lemma free_pages_translation:
  "vmm_virt_to_phys as w (fold (\<lambda>j. shm_free_page (f j)) js v) = vmm_virt_to_phys as w v"
  by (induction js arbitrary: v) (simp_all add: shm_free_page_def)

text \<open>
  C13. \<^verbatim>\<open>shm_close\<close> drops one reference; the last one releases exactly the frames of the region and
  the slot. It never looks at who has the region mapped: no translation of any space changes, so a
  process that closes a handle it created and mapped (count 1) keeps addresses that translate to
  frames the allocator now considers free.
\<close>
theorem shm_close_correct:
  assumes "shm_inv s" "\<not> shm_bad h" "sh_valid (sh_table s ! unat (h - 1))"
  shows "case shm_close h s of (r, s') \<Rightarrow> let R = sh_table s ! unat (h - 1) in
     r = 0 \<and> (\<forall>as w. vmm_virt_to_phys as w (sh_vmm s') = vmm_virt_to_phys as w (sh_vmm s))
     \<and> (if 1 < sh_ref_count R
        then sh_vmm s' = sh_vmm s \<and> sh_table s' = (sh_table s)[unat (h - 1) := R\<lparr>sh_ref_count := sh_ref_count R - 1\<rparr>]
        else owned_addrs (vpmm (sh_vmm s')) = owned_addrs (vpmm (sh_vmm s)) - region_frames R
          \<and> \<not> sh_valid (sh_table s' ! unat (h - 1)) \<and> shm_size h s' = 0)"
proof -
  define R where "R = sh_table s ! unat (h - 1)"
  note H = handle_region [OF assms, folded R_def]
  have ok: "region_ok (owned_addrs (vpmm (sh_vmm s))) R" and i: "unat (h - 1) < 32" by (rule H(2), rule H(1))
  have V: "sh_valid R" using assms(3) by (simp add: R_def)
  have len: "unat (h - 1) < length (sh_table s)" using i assms(1) by (simp add: shm_inv_def)
  show ?thesis
  proof (cases "1 < sh_ref_count R")
    case True
    then have "0 < sh_ref_count R" by (auto intro: less_trans [of 0 1])
    moreover have "sh_ref_count R - 1 \<noteq> 0" using True by auto
    ultimately have "shm_close h s = (0, s\<lparr>sh_table := (sh_table s)[unat (h - 1) := R\<lparr>sh_ref_count := sh_ref_count R - 1\<rparr>]\<rparr>)"
      using assms(2) V by (simp add: shm_close_def drop_ref_def Let_def R_def)
    then show ?thesis using True by (simp add: Let_def flip: R_def)
  next
    case False
    have "unat (sh_ref_count R) \<le> 1" using False by (simp add: word_less_nat_alt)
    then have "sh_ref_count R = 0 \<or> sh_ref_count R = 1"
      by (metis le_eq_less_or_eq less_one unat_1 unat_eq_zero word_unat_eq_iff)
    then have z: "sh_ref_count (drop_ref R) = 0" by (auto simp: drop_ref_def)
    have d: "sh_phys_pages (drop_ref R) = sh_phys_pages R" "sh_num_pages (drop_ref R) = sh_num_pages R"
      by (simp_all add: drop_ref_def)
    define n where "n = unat (sh_num_pages R)"
    have e: "shm_close h s = (0, s\<lparr>sh_vmm := fold (\<lambda>j. shm_free_page (sh_phys_pages R j)) [0..<n] (sh_vmm s),
        sh_table := (sh_table s)[unat (h - 1) := (drop_ref R)\<lparr>sh_valid := False, sh_size := 0, sh_num_pages := 0\<rparr>]\<rparr>)"
      using assms(2) V z d by (simp add: shm_close_def Let_def R_def n_def)
    have "owned_addrs (vpmm (fold (\<lambda>j. shm_free_page (sh_phys_pages R j)) [0..<n] (sh_vmm s)))
        = owned_addrs (vpmm (sh_vmm s)) - region_frames R"
      using free_region [of "sh_phys_pages R" n "sh_vmm s"] ok V assms(1)
      by (simp add: region_ok_def region_frames_def shm_inv_def n_def)
    then show ?thesis
      using e False len assms(2) by (simp add: Let_def free_pages_translation shm_size_def flip: R_def)
  qed
qed

theorem shm_close_correct_witness:
  "let s = snd (shm_create 5000 demo_shm); s' = snd (shm_close 1 (snd (shm_map (Some KernelAS) 1 s)))
   in shm_size 1 s' = 0 \<and> vmm_virt_to_phys KernelAS 0x10000000000 (sh_vmm s') = 0x3000"
proof -
  let ?s1 = "snd (shm_map (Some KernelAS) 1 (snd (shm_create 5000 demo_shm)))"
  have r: "sh_valid (sh_table ?s1 ! unat (1 - 1 :: u64))" "\<not> 1 < sh_ref_count (sh_table ?s1 ! unat (1 - 1 :: u64))"
    "vmm_virt_to_phys KernelAS 0x10000000000 (sh_vmm ?s1) = 0x3000" by code_simp+
  have "shm_inv ?s1"
    using shm_map_keeps [OF demo_shm_region(1,2,4,3), of KernelAS] by (metis prod.collapse)
  from shm_close_correct [OF this demo_shm_region(4) r(1)] show ?thesis
    using r(2,3) by (auto simp: Let_def split: prod.splits)
qed

end
