(* ===== verification/Hash.thy ===== *)
theory Hash
  imports Icda_Prelude
begin

text \<open>
  The part the hash functions of \<^verbatim>\<open>kernel/crypto\<close> have in common: a context with a 64-byte buffer that
  compresses a block whenever it is full, and a last step that pads. \<^verbatim>\<open>sha256.c\<close> and \<^verbatim>\<open>sha1.c\<close> spell
  out the same code around their own \<^verbatim>\<open>transform\<close>; here the transform is an argument. The
  specification side is the padded message cut into blocks, as the standard has it.
\<close>

record hash_ctx =
  h_data :: bytes
  h_datalen :: u32
  h_bitlen :: u64
  h_state :: "u32 list"

section \<open>Words and rotations\<close>

text \<open>Four message bytes as a word, most significant first, as both transforms read the block.\<close>

definition block_word :: "bytes \<Rightarrow> nat \<Rightarrow> u32" where
  "block_word block j = push_bit 24 (ucast (block ! j)) OR push_bit 16 (ucast (block ! (j + 1)))
     OR push_bit 8 (ucast (block ! (j + 2))) OR ucast (block ! (j + 3))"

definition rot_r :: "u32 \<Rightarrow> nat \<Rightarrow> u32" where
  "rot_r x n = drop_bit n x OR push_bit (32 - n) x"

definition rol32 :: "u32 \<Rightarrow> nat \<Rightarrow> u32" where
  "rol32 x n = push_bit n x OR drop_bit (32 - n) x"

lemma rot_r_rotr:
  assumes "0 < n" "n < 32"
  shows "rot_r x n = word_rotr n x"
proof (rule bit_word_eqI)
  fix k assume "k < LENGTH(32)"
  then have k: "k < 32" by simp
  show "bit (rot_r x n) k = bit (word_rotr n x) k"
  proof (cases "k + n < 32")
    case True
    then have "\<not> 32 - n \<le> k" by simp
    then show ?thesis using True k assms by (simp add: rot_r_def bit_simps add.commute)
  next
    case False
    then have "(k + n) mod 32 = k + n - 32" using k assms by (simp add: le_mod_geq)
    moreover have "k - (32 - n) = k + n - 32" "32 - n \<le> k" using False assms by simp_all
    moreover have "\<not> bit x (n + k)" using False bit_imp_le_length [of x "n + k"] by auto
    ultimately show ?thesis using k assms by (simp add: rot_r_def bit_simps)
  qed
qed

lemma rol32_rotl:
  assumes "0 < n" "n < 32"
  shows "rol32 x n = word_rotl n x"
proof (rule bit_word_eqI)
  fix k assume "k < LENGTH(32)"
  then have k: "k < 32" by simp
  have r: "bit (word_rotl n x) k = bit x ((k + (32 - n)) mod 32)"
    using k assms by (simp add: bit_word_rotl_iff)
  show "bit (rol32 x n) k = bit (word_rotl n x) k"
  proof (cases "k < n")
    case True
    then show ?thesis unfolding r using k assms by (simp add: rol32_def bit_simps add.commute)
  next
    case False
    then have "(k + (32 - n)) mod 32 = k - n" using k assms by (simp add: le_mod_geq)
    moreover have "\<not> bit x (32 - n + k)" using False assms bit_imp_le_length [of x "32 - n + k"] by auto
    ultimately show ?thesis unfolding r using k False assms by (simp add: rol32_def bit_simps)
  qed
qed

text \<open>A list grown one element at a time, each computed from the ones before.\<close>

lemma fold_grow:
  assumes "\<And>i. k \<le> i \<Longrightarrow> i < n \<Longrightarrow> g i (map f [0..<i]) = f i" "k \<le> n"
  shows "fold (\<lambda>i m. m @ [g i m]) [k..<n] (map f [0..<k]) = map f [0..<n]"
  using assms
proof (induction n)
  case (Suc n)
  then show ?case by (cases "k = Suc n") (simp_all add: Suc.IH)
qed simp

section \<open>The code\<close>

definition hash_push :: "(u32 list \<Rightarrow> bytes \<Rightarrow> u32 list) \<Rightarrow> u8 \<Rightarrow> hash_ctx \<Rightarrow> hash_ctx" where
  "hash_push transform b ctx =
     (let d = (h_data ctx)[unat (h_datalen ctx) := b]; n = h_datalen ctx + 1
      in if n = 64
         then ctx\<lparr>h_data := d, h_state := transform (h_state ctx) d, h_bitlen := h_bitlen ctx + 512, h_datalen := 0\<rparr>
         else ctx\<lparr>h_data := d, h_datalen := n\<rparr>)"

definition hash_update :: "(u32 list \<Rightarrow> bytes \<Rightarrow> u32 list) \<Rightarrow> bytes \<Rightarrow> hash_ctx \<Rightarrow> hash_ctx" where
  "hash_update transform dat ctx = fold (hash_push transform) dat ctx"

text \<open>\<^verbatim>\<open>while (i < n) data[i++] = 0;\<close>\<close>

definition zero_from :: "nat \<Rightarrow> nat \<Rightarrow> bytes \<Rightarrow> bytes" where
  "zero_from i n d = fold (\<lambda>k d. d[k := 0]) [i..<n] d"

definition put_be64 :: "u64 \<Rightarrow> bytes \<Rightarrow> bytes" where
  "put_be64 w d = d[56 := ucast (drop_bit 56 w), 57 := ucast (drop_bit 48 w), 58 := ucast (drop_bit 40 w),
     59 := ucast (drop_bit 32 w), 60 := ucast (drop_bit 24 w), 61 := ucast (drop_bit 16 w),
     62 := ucast (drop_bit 8 w), 63 := ucast w]"

text \<open>The padding. (\<^verbatim>\<open>sha256_final\<close> stores the byte 0x80 only if \<^verbatim>\<open>datalen\<close> is below 64; it always is after
  \<^verbatim>\<open>sha256_update\<close>, which empties a full buffer, and the store outside a list is no store here.)\<close>

definition hash_pad :: "(u32 list \<Rightarrow> bytes \<Rightarrow> u32 list) \<Rightarrow> hash_ctx \<Rightarrow> hash_ctx" where
  "hash_pad transform ctx =
     (let n = unat (h_datalen ctx);
          d = (h_data ctx)[n := 0x80]; i = n + 1;
          (d1, i1, st) = (if i > 56 then let d' = zero_from i 64 d in (d', 0, transform (h_state ctx) d')
                          else (d, i, h_state ctx));
          d2 = zero_from i1 56 d1;
          bl = h_bitlen ctx + ucast (h_datalen ctx * 8);
          d3 = put_be64 bl d2
      in ctx\<lparr>h_data := d3, h_bitlen := bl, h_state := transform st d3\<rparr>)"

section \<open>The standard\<close>

definition be64 :: "u64 \<Rightarrow> bytes" where
  "be64 w = map (\<lambda>k. ucast (drop_bit (56 - 8 * k) w)) [0..<8]"

definition be32 :: "u32 \<Rightarrow> bytes" where
  "be32 w = map (\<lambda>k. ucast (drop_bit (24 - 8 * k) w)) [0..<4]"

definition md_pad :: "bytes \<Rightarrow> bytes" where
  "md_pad m = m @ [0x80] @ replicate ((119 - length m mod 64) mod 64) 0 @ be64 (8 * of_nat (length m))"

fun chunks :: "nat \<Rightarrow> 'a list \<Rightarrow> 'a list list" where
  "chunks n xs = (if n = 0 \<or> length xs < n then [] else take n xs # chunks n (drop n xs))"

declare chunks.simps [simp del]

definition md_state :: "(u32 list \<Rightarrow> bytes \<Rightarrow> u32 list) \<Rightarrow> u32 list \<Rightarrow> bytes \<Rightarrow> u32 list" where
  "md_state transform st m = foldl transform st (chunks 64 m)"

section \<open>Blocks\<close>

lemma chunks_append:
  "0 < n \<Longrightarrow> length xs mod n = 0 \<Longrightarrow> chunks n (xs @ ys) = chunks n xs @ chunks n ys"
proof (induction n xs rule: chunks.induct)
  case (1 n xs)
  show ?case
  proof (cases "length xs < n")
    case True
    then have "xs = []" using 1(3) by simp
    then show ?thesis using 1(2) by (simp add: chunks.simps [of n "[]"])
  next
    case False
    then have "(length xs - n) mod n = 0" using 1(3) by (simp add: le_mod_geq)
    then have "chunks n (drop n xs @ ys) = chunks n (drop n xs) @ chunks n ys"
      using 1 False by simp
    then show ?thesis using False 1(2) by (simp add: chunks.simps [of n "xs @ ys"] chunks.simps [of n xs])
  qed
qed

lemma chunks_one: "0 < n \<Longrightarrow> length xs = n \<Longrightarrow> chunks n xs = [xs]"
  by (simp add: chunks.simps [of n xs] chunks.simps [of n "[]"])

lemma chunks_short: "length xs < n \<Longrightarrow> chunks n xs = []"
  by (simp add: chunks.simps)

lemma md_state_append:
  "length xs mod 64 = 0 \<Longrightarrow> md_state tf st (xs @ ys) = md_state tf (md_state tf st xs) ys"
  by (simp add: md_state_def chunks_append)

lemma md_state_block: "length b = 64 \<Longrightarrow> md_state tf st b = tf st b"
  by (simp add: md_state_def chunks_one)

section \<open>What the context holds\<close>

text \<open>After the bytes \<open>m\<close>: the full blocks are compressed, the rest is in the buffer.\<close>

definition absorbed :: "(u32 list \<Rightarrow> bytes \<Rightarrow> u32 list) \<Rightarrow> u32 list \<Rightarrow> bytes \<Rightarrow> hash_ctx \<Rightarrow> bool" where
  "absorbed tf st m ctx \<longleftrightarrow> (\<exists>full rest. m = full @ rest \<and> length full mod 64 = 0 \<and> length rest < 64
     \<and> length (h_data ctx) = 64 \<and> take (length rest) (h_data ctx) = rest \<and> h_datalen ctx = of_nat (length rest)
     \<and> h_bitlen ctx = 8 * of_nat (length full) \<and> h_state ctx = md_state tf st full)"

lemma push_absorbed:
  assumes "absorbed tf st m ctx"
  shows "absorbed tf st (m @ [b]) (hash_push tf b ctx)"
proof -
  obtain full rest where A: "m = full @ rest" "length full mod 64 = 0" "length rest < 64"
    "length (h_data ctx) = 64" "take (length rest) (h_data ctx) = rest" "h_datalen ctx = of_nat (length rest)"
    "h_bitlen ctx = 8 * of_nat (length full)" "h_state ctx = md_state tf st full"
    using assms by (auto simp: absorbed_def)
  have n: "unat (h_datalen ctx) = length rest" using A(3,6) by (simp add: unat_of_nat take_bit_nat_eq_self)
  have n1: "h_datalen ctx + 1 = of_nat (Suc (length rest))" using A(6) by simp
  have full_iff: "h_datalen ctx + 1 = 64 \<longleftrightarrow> Suc (length rest) = 64"
  proof -
    have "unat (of_nat (Suc (length rest)) :: u32) = Suc (length rest)"
      using A(3) by (intro unat_of_nat_small) simp
    moreover have "unat (64 :: u32) = 64" by simp
    ultimately have "h_datalen ctx + 1 = 64 \<Longrightarrow> Suc (length rest) = 64" unfolding n1 by metis
    then show ?thesis using n1 by (metis of_nat_numeral)
  qed
  let ?d = "(h_data ctx)[length rest := b]"
  have d: "take (Suc (length rest)) ?d = rest @ [b]" "length ?d = 64"
    using A(3-5) by (simp_all add: take_Suc_conv_app_nth)
  show ?thesis
  proof (cases "Suc (length rest) = 64")
    case True
    then have "?d = rest @ [b]" using d by simp
    moreover have "md_state tf st (full @ (rest @ [b])) = tf (h_state ctx) (rest @ [b])"
      using True A by (simp only: md_state_append) (simp add: md_state_block)
    ultimately show ?thesis
      unfolding absorbed_def using A True full_iff n d
      by (intro exI [of _ "full @ rest @ [b]"] exI [of _ "[]"]) (auto simp: hash_push_def Let_def)
  next
    case False
    then show ?thesis
      unfolding absorbed_def using A full_iff n d n1
      by (intro exI [of _ full] exI [of _ "rest @ [b]"]) (auto simp: hash_push_def Let_def)
  qed
qed

lemma update_absorbed: "absorbed tf st m ctx \<Longrightarrow> absorbed tf st (m @ b) (hash_update tf b ctx)"
proof (induction b arbitrary: m ctx)
  case (Cons x b)
  then show ?case using push_absorbed [OF Cons.prems, of x] Cons.IH [of "m @ [x]"]
    by (simp add: hash_update_def)
qed (simp add: hash_update_def)

section \<open>Padding\<close>

lemma zero_from_eq: "i \<le> n \<Longrightarrow> n \<le> length d \<Longrightarrow> zero_from i n d = take i d @ replicate (n - i) 0 @ drop n d"
proof (induction n)
  case 0
  then show ?case by (simp add: zero_from_def)
next
  case (Suc n)
  show ?case
  proof (cases "i = Suc n")
    case True
    then show ?thesis by (simp add: zero_from_def)
  next
    case False
    then have le: "i \<le> n" using Suc.prems by simp
    have d: "drop n d = d ! n # drop (Suc n) d" using Suc.prems by (simp add: Cons_nth_drop_Suc)
    have l: "length (take i d @ replicate (n - i) 0) = n" using le Suc.prems by simp
    have "zero_from i (Suc n) d = (take i d @ replicate (n - i) 0 @ drop n d)[n := 0]"
      using Suc le by (simp add: zero_from_def)
    also have "\<dots> = take i d @ replicate (n - i) 0 @ 0 # drop (Suc n) d"
      using list_update_length [of "take i d @ replicate (n - i) 0" "d ! n" "drop (Suc n) d" 0]
      unfolding l d by simp
    also have "\<dots> = take i d @ replicate (Suc n - i) 0 @ drop (Suc n) d"
      using le by (simp add: Suc_diff_le replicate_app_Cons_same)
    finally show ?thesis .
  qed
qed

lemma length_be64 [simp]: "length (be64 w) = 8"
  by (simp add: be64_def)

lemma put_be64_eq: "length d = 64 \<Longrightarrow> put_be64 w d = take 56 d @ be64 w"
proof (rule nth_equalityI)
  assume l: "length d = 64"
  then show "length (put_be64 w d) = length (take 56 d @ be64 w)" by (simp add: put_be64_def)
  fix i assume "i < length (put_be64 w d)"
  then have i: "i < 64" using l by (simp add: put_be64_def)
  show "put_be64 w d ! i = (take 56 d @ be64 w) ! i"
  proof (cases "i < 56")
    case True
    then show ?thesis using l by (simp add: put_be64_def nth_append)
  next
    case False
    define k where "k = i - 56"
    then have k: "i = 56 + k" "k < 8" using i False by simp_all
    then have "k = 0 \<or> k = 1 \<or> k = 2 \<or> k = 3 \<or> k = 4 \<or> k = 5 \<or> k = 6 \<or> k = 7" by auto
    then show ?thesis using k l by (elim disjE) (simp_all add: put_be64_def nth_append be64_def)
  qed
qed

text \<open>Padding the buffer compresses exactly the blocks that pad the whole message.\<close>

lemma pad_absorbed:
  assumes A: "absorbed tf st m ctx" and m: "length m < 2 ^ 61"
  shows "h_state (hash_pad tf ctx) = md_state tf st (md_pad m)"
proof -
  obtain full rest where B: "m = full @ rest" "length full mod 64 = 0" "length rest < 64"
    "length (h_data ctx) = 64" "take (length rest) (h_data ctx) = rest" "h_datalen ctx = of_nat (length rest)"
    "h_bitlen ctx = 8 * of_nat (length full)" "h_state ctx = md_state tf st full"
    using A by (auto simp: absorbed_def)
  let ?r = "length rest"
  have n: "unat (h_datalen ctx) = ?r" using B(3,6) by (simp add: unat_of_nat take_bit_nat_eq_self)
  let ?d = "(h_data ctx)[?r := 0x80]"
  have d: "take (Suc ?r) ?d = rest @ [0x80]" "length ?d = 64"
    using B(3-5) by (simp_all add: take_Suc_conv_app_nth)
  have bits: "h_bitlen ctx + ucast (h_datalen ctx * 8) = 8 * of_nat (length m)"
  proof -
    have "ucast (h_datalen ctx * 8) = (of_nat (?r * 8) :: u64)"
    proof -
      have "h_datalen ctx * 8 = of_nat (?r * 8)" using B(6) by simp
      then have "unat (h_datalen ctx * 8) = ?r * 8" using B(3) by (simp only: unat_of_nat take_bit_nat_eq_self) simp
      moreover have "unat (of_nat (?r * 8) :: u64) = ?r * 8" using B(3) by (intro unat_of_nat_small) simp
      ultimately show ?thesis
        using B(3) by (simp only: word_unat_eq_iff unsigned_ucast_eq) (simp add: take_bit_nat_eq_self)
    qed
    then show ?thesis using B(1,7) by (simp add: algebra_simps)
  qed
  have "(length full + ?r) mod 64 = (length full mod 64 + ?r) mod 64" by (simp only: mod_add_left_eq)
  then have mm: "length m mod 64 = ?r" using B(1-3) by simp
  let ?len = "be64 (8 * of_nat (length m))"
  show ?thesis
  proof (cases "Suc ?r > 56")
    case True
    let ?z = "rest @ [0x80] @ replicate (63 - ?r) 0"
    have z: "zero_from (Suc ?r) 64 ?d = ?z" using d B(3) by (subst zero_from_eq) simp_all
    have z2: "zero_from 0 56 ?z = replicate 56 0 @ drop 56 ?z"
      using B(3) by (subst zero_from_eq) simp_all
    have lz: "length ?z = 64" using B(3) by simp
    have be: "put_be64 w (replicate 56 0 @ drop 56 ?z) = replicate 56 0 @ be64 w" for w
      using lz by (subst put_be64_eq) simp_all
    have "hash_pad tf ctx = (let d3 = put_be64 (8 * of_nat (length m)) (zero_from 0 56 ?z) in
        ctx\<lparr>h_data := d3, h_bitlen := 8 * of_nat (length m), h_state := tf (tf (h_state ctx) ?z) d3\<rparr>)"
      using True unfolding hash_pad_def Let_def n bits by (simp add: z)
    then have st: "h_state (hash_pad tf ctx) = tf (tf (h_state ctx) ?z) (replicate 56 0 @ ?len)"
      unfolding z2 be by (simp add: Let_def)
    have k: "(119 - ?r) mod 64 = (63 - ?r) + 56" using True B(3) by (simp add: mod_if)
    have "md_pad m = m @ [0x80] @ replicate ((63 - ?r) + 56) 0 @ ?len" by (simp only: md_pad_def mm k)
    then have pad: "md_pad m = full @ ?z @ (replicate 56 0 @ ?len)" by (simp add: B(1) replicate_add)
    have lz': "length ?z mod 64 = 0" using lz by simp
    have ll: "length (replicate 56 0 @ ?len) = 64" by simp
    show ?thesis
      unfolding st B(8) pad md_state_append [OF B(2)] md_state_append [OF lz'] md_state_block [OF lz] md_state_block [OF ll] ..
  next
    case False
    let ?z = "rest @ [0x80] @ replicate (55 - ?r) 0"
    have z: "zero_from (Suc ?r) 56 ?d = ?z @ drop 56 ?d" using d False by (subst zero_from_eq) simp_all
    have lz: "length ?z = 56" using False by simp
    have "put_be64 w (?z @ drop 56 ?d) = take 56 (?z @ drop 56 ?d) @ be64 w" for w
      using lz d(2) by (intro put_be64_eq) (simp only: length_append length_drop)
    moreover have "take 56 (?z @ drop 56 ?d) = ?z" using lz by (simp only: take_append) simp
    ultimately have be: "put_be64 w (?z @ drop 56 ?d) = ?z @ be64 w" for w by simp
    have "hash_pad tf ctx = (let d3 = put_be64 (8 * of_nat (length m)) (zero_from (Suc ?r) 56 ?d) in
        ctx\<lparr>h_data := d3, h_bitlen := 8 * of_nat (length m), h_state := tf (h_state ctx) d3\<rparr>)"
      using False unfolding hash_pad_def Let_def n bits by simp
    then have st: "h_state (hash_pad tf ctx) = tf (h_state ctx) (?z @ ?len)"
      unfolding z be by (simp add: Let_def)
    have k: "(119 - ?r) mod 64 = 55 - ?r" using False B(3) by (simp add: mod_if)
    have "md_pad m = m @ [0x80] @ replicate (55 - ?r) 0 @ ?len" by (simp only: md_pad_def mm k)
    then have pad: "md_pad m = full @ (?z @ ?len)" by (simp add: B(1))
    have ll: "length (?z @ ?len) = 64" using lz by simp
    show ?thesis unfolding st B(8) pad md_state_append [OF B(2)] md_state_block [OF ll] ..
  qed
qed

section \<open>Digests\<close>

text \<open>The last loop of the \<^verbatim>\<open>final\<close> functions: the first \<open>n\<close> state words, most significant byte first.\<close>

definition state_bytes :: "nat \<Rightarrow> u32 list \<Rightarrow> bytes" where
  "state_bytes n st = concat (map (\<lambda>k. map (\<lambda>i. ucast (drop_bit (24 - i * 8) (st ! k))) [0..<4]) [0..<n])"

definition md_hash :: "(u32 list \<Rightarrow> bytes \<Rightarrow> u32 list) \<Rightarrow> u32 list \<Rightarrow> bytes \<Rightarrow> bytes" where
  "md_hash tf iv m = concat (map be32 (md_state tf iv (md_pad m)))"

lemma length_md_state:
  assumes "\<And>st b. length st = n \<Longrightarrow> length (tf st b) = n" "length st = n"
  shows "length (md_state tf st m) = n"
proof -
  have "length st = n \<Longrightarrow> length (foldl tf st bs) = n" for bs
    by (induction bs arbitrary: st) (simp_all add: assms(1))
  then show ?thesis by (simp add: md_state_def assms(2))
qed

lemma length_be32 [simp]: "length (be32 w) = 4"
  by (simp add: be32_def)

lemma length_concat_be32: "length (concat (map be32 st)) = 4 * length st"
  by (induction st) simp_all

lemma state_bytes_eq: "length st = n \<Longrightarrow> state_bytes n st = concat (map be32 st)"
proof -
  assume n: "length st = n"
  have "map be32 st = map (\<lambda>k. be32 (st ! k)) [0..<n]"
    using n by (intro nth_equalityI) simp_all
  then show ?thesis by (simp add: state_bytes_def be32_def mult.commute)
qed

definition pristine :: "u32 list \<Rightarrow> hash_ctx \<Rightarrow> bool" where
  "pristine iv ctx \<longleftrightarrow> length (h_data ctx) = 64 \<and> h_datalen ctx = 0 \<and> h_bitlen ctx = 0 \<and> h_state ctx = iv"

lemma updates_absorbed:
  "absorbed tf iv m ctx \<Longrightarrow> absorbed tf iv (m @ concat parts) (fold (hash_update tf) parts ctx)"
proof (induction parts arbitrary: m ctx)
  case (Cons p parts)
  from Cons.IH [OF update_absorbed [OF Cons.prems, of p]] show ?case by simp
qed simp

lemma md_stream:
  assumes "pristine iv ctx" "length (concat parts) < 2 ^ 61" "\<And>st b. length st = n \<Longrightarrow> length (tf st b) = n" "length iv = n"
  shows "state_bytes n (h_state (hash_pad tf (fold (hash_update tf) parts ctx))) = md_hash tf iv (concat parts)"
proof -
  have "absorbed tf iv [] ctx" using assms(1) by (simp add: pristine_def absorbed_def md_state_def chunks_short)
  from updates_absorbed [OF this, of parts]
  have "absorbed tf iv (concat parts) (fold (hash_update tf) parts ctx)" by simp
  from pad_absorbed [OF this assms(2)] show ?thesis
    unfolding md_hash_def by (simp add: state_bytes_eq [OF length_md_state [OF assms(3,4)]])
qed

lemma length_md_hash:
  "(\<And>st b. length st = n \<Longrightarrow> length (tf st b) = n) \<Longrightarrow> length iv = n \<Longrightarrow> length (md_hash tf iv m) = 4 * n"
  by (simp add: md_hash_def length_concat_be32 length_md_state)

lemma length_pad_data: "length (h_data ctx) = 64 \<Longrightarrow> length (h_data (hash_pad tf ctx)) = 64"
proof -
  have "length (fold (\<lambda>k d. d[k := 0]) ks d) = length d" for ks and d :: bytes
    by (induction ks arbitrary: d) simp_all
  then have z: "length (zero_from i n d) = length d" for i n d by (simp add: zero_from_def)
  show "length (h_data ctx) = 64 \<Longrightarrow> length (h_data (hash_pad tf ctx)) = 64"
    by (simp add: hash_pad_def Let_def put_be64_def z)
qed

lemma length_update_data: "length (h_data ctx) = 64 \<Longrightarrow> length (h_data (hash_update tf d ctx)) = 64"
proof (unfold hash_update_def, induction d arbitrary: ctx)
  case (Cons b d)
  have "length (h_data (hash_push tf b ctx)) = 64" using Cons.prems by (simp add: hash_push_def Let_def)
  then show ?case using Cons.IH by simp
qed simp

lemma length_chunks: "b \<in> set (chunks n xs) \<Longrightarrow> length b = n"
proof (induction n xs rule: chunks.induct)
  case (1 n xs)
  show ?case
  proof (cases "n = 0 \<or> length xs < n")
    case True
    then show ?thesis using 1(2) by (simp add: chunks.simps [of n xs])
  next
    case False
    then have "b = take n xs \<or> b \<in> set (chunks n (drop n xs))" using 1(2) by (simp add: chunks.simps [of n xs])
    then show ?thesis using False 1(1) by auto
  qed
qed

lemma md_hash_cong:
  assumes "\<And>st b. length st = n \<Longrightarrow> length (tf st b) = n"
    "\<And>st b. length st = n \<Longrightarrow> length b = 64 \<Longrightarrow> tf' st b = tf st b" "length iv = n"
  shows "md_hash tf' iv m = md_hash tf iv m"
proof -
  have "(\<And>b. b \<in> set bs \<Longrightarrow> length b = 64) \<Longrightarrow> length st = n \<Longrightarrow> foldl tf' st bs = foldl tf st bs" for st bs
    by (induction bs arbitrary: st) (simp_all add: assms(1,2))
  from this [OF length_chunks assms(3)] show ?thesis by (simp add: md_hash_def md_state_def)
qed

section \<open>The keyed hash\<close>

text \<open>
  \<^verbatim>\<open>hmac.h\<close> has the same body twice, over the two hash functions; \<open>close_ctx\<close> is what \<open>final\<close> leaves in
  the context it is given, which the second half of the code starts from.
\<close>

definition hmac_key :: "(bytes \<Rightarrow> bytes) \<Rightarrow> bytes \<Rightarrow> bytes" where
  "hmac_key h key = (if length key > 64 then let tk = h key in tk @ replicate (64 - length tk) 0
                     else key @ replicate (64 - length key) 0)"

definition fresh_ctx :: hash_ctx where
  "fresh_ctx = \<lparr>h_data = replicate 64 0, h_datalen = 0, h_bitlen = 0, h_state = []\<rparr>"

definition hmac_body :: "(bytes \<Rightarrow> bytes) \<Rightarrow> (hash_ctx \<Rightarrow> hash_ctx) \<Rightarrow> (bytes \<Rightarrow> hash_ctx \<Rightarrow> hash_ctx)
    \<Rightarrow> (hash_ctx \<Rightarrow> bytes) \<Rightarrow> (hash_ctx \<Rightarrow> hash_ctx) \<Rightarrow> bytes \<Rightarrow> bytes \<Rightarrow> bytes" where
  "hmac_body h init update final close_ctx key dat =
     (let k = hmac_key h key;
          k_ipad = map (\<lambda>b. b XOR 0x36) k;
          k_opad = map (\<lambda>b. b XOR 0x5c) k;
          ctx1 = update dat (update k_ipad (init fresh_ctx));
          inner = final ctx1;
          ctx2 = update inner (update k_opad (init (close_ctx ctx1)))
      in final ctx2)"

text \<open>RFC 2104 over a hash function \<open>h\<close> with 64-byte blocks.\<close>

definition hmac_spec :: "(bytes \<Rightarrow> bytes) \<Rightarrow> bytes \<Rightarrow> bytes \<Rightarrow> bytes" where
  "hmac_spec h key m =
     (let k0 = (if length key > 64 then h key else key); k = k0 @ replicate (64 - length k0) 0
      in h (map (\<lambda>b. b XOR 0x5c) k @ h (map (\<lambda>b. b XOR 0x36) k @ m)))"

text \<open>What a hash function with contexts promises: it digests the concatenation of the updates.\<close>

locale streaming_hash =
  fixes h :: "bytes \<Rightarrow> bytes"
    and init :: "hash_ctx \<Rightarrow> hash_ctx"
    and update :: "bytes \<Rightarrow> hash_ctx \<Rightarrow> hash_ctx"
    and final :: "hash_ctx \<Rightarrow> bytes"
    and close_ctx :: "hash_ctx \<Rightarrow> hash_ctx"
    and digest :: "bytes \<Rightarrow> bytes"
  assumes stream: "length (h_data ctx) = 64 \<Longrightarrow> length (concat parts) < 2 ^ 61 \<Longrightarrow>
      final (fold update parts (init ctx)) = digest (concat parts)"
    and one_shot: "length m < 2 ^ 61 \<Longrightarrow> h m = digest m"
    and digest_short: "length (digest m) \<le> 64"
    and buffer_init: "length (h_data (init ctx)) = length (h_data ctx)"
    and buffer_update: "length (h_data ctx) = 64 \<Longrightarrow> length (h_data (update d ctx)) = 64"
    and buffer_close: "length (h_data ctx) = 64 \<Longrightarrow> length (h_data (close_ctx ctx)) = 64"
begin

lemma hmac:
  assumes "length key < 2 ^ 32" "length dat < 2 ^ 32"
  shows "hmac_body h init update final close_ctx key dat = hmac_spec digest key dat"
proof -
  have "length key < 2 ^ 61" using assms(1) by simp
  then have hk: "h key = digest key" by (rule one_shot)
  let ?k = "hmac_key h key"
  have k: "?k = (let k0 = (if length key > 64 then digest key else key) in k0 @ replicate (64 - length k0) 0)"
    by (simp add: hmac_key_def hk Let_def)
  have lk: "length ?k = 64" using digest_short [of key] by (simp add: k Let_def)
  have f: "length (h_data fresh_ctx) = 64" by (simp add: fresh_ctx_def)
  let ?i = "map (\<lambda>b. b XOR 0x36) ?k" and ?o = "map (\<lambda>b. b XOR 0x5c) ?k"
  let ?c = "update dat (update ?i (init fresh_ctx))"
  have inner: "final ?c = digest (?i @ dat)"
    using stream [OF f, of "[?i, dat]"] lk assms(2) by simp
  have c: "length (h_data (close_ctx ?c)) = 64"
    by (intro buffer_close buffer_update) (simp add: buffer_init f)
  have outer: "final (update (digest (?i @ dat)) (update ?o (init (close_ctx ?c)))) = digest (?o @ digest (?i @ dat))"
    using stream [OF c, of "[?o, digest (?i @ dat)]"] lk digest_short [of "?i @ dat"] by simp
  show ?thesis
    unfolding hmac_body_def hmac_spec_def Let_def inner outer k [unfolded Let_def, symmetric] ..
qed

end

end
