(* ===== verification/Sha256.thy ===== *)
theory Sha256
  imports Hash
begin

text \<open>
  SHA-256, \<^verbatim>\<open>kernel/crypto/sha256.c\<close>, and the keyed hash over it of \<^verbatim>\<open>hmac.h\<close>. The arrays \<^verbatim>\<open>state\<close>,
  \<^verbatim>\<open>w\<close> and \<^verbatim>\<open>m\<close> of the transform are lists; \<^verbatim>\<open>(data, len)\<close> is the list of the bytes, so its length is
  below \<^verbatim>\<open>2^32\<close>.
\<close>

section \<open>The compression function\<close>

definition sha256_K :: "u32 list" where
  "sha256_K = concat
    [[0x428a2f98, 0x71374491, 0xb5c0fbcf, 0xe9b5dba5],
     [0x3956c25b, 0x59f111f1, 0x923f82a4, 0xab1c5ed5],
     [0xd807aa98, 0x12835b01, 0x243185be, 0x550c7dc3],
     [0x72be5d74, 0x80deb1fe, 0x9bdc06a7, 0xc19bf174],
     [0xe49b69c1, 0xefbe4786, 0x0fc19dc6, 0x240ca1cc],
     [0x2de92c6f, 0x4a7484aa, 0x5cb0a9dc, 0x76f988da],
     [0x983e5152, 0xa831c66d, 0xb00327c8, 0xbf597fc7],
     [0xc6e00bf3, 0xd5a79147, 0x06ca6351, 0x14292967],
     [0x27b70a85, 0x2e1b2138, 0x4d2c6dfc, 0x53380d13],
     [0x650a7354, 0x766a0abb, 0x81c2c92e, 0x92722c85],
     [0xa2bfe8a1, 0xa81a664b, 0xc24b8b70, 0xc76c51a3],
     [0xd192e819, 0xd6990624, 0xf40e3585, 0x106aa070],
     [0x19a4c116, 0x1e376c08, 0x2748774c, 0x34b0bcb5],
     [0x391c0cb3, 0x4ed8aa4a, 0x5b9cca4f, 0x682e6ff3],
     [0x748f82ee, 0x78a5636f, 0x84c87814, 0x8cc70208],
     [0x90befffa, 0xa4506ceb, 0xbef9a3f7, 0xc67178f2]]"

definition ch :: "u32 \<Rightarrow> u32 \<Rightarrow> u32 \<Rightarrow> u32" where "ch x y z = (x AND y) XOR (NOT x AND z)"
definition maj :: "u32 \<Rightarrow> u32 \<Rightarrow> u32 \<Rightarrow> u32" where "maj x y z = (x AND y) XOR (x AND z) XOR (y AND z)"
definition ep0 :: "u32 \<Rightarrow> u32" where "ep0 x = rot_r x 2 XOR rot_r x 13 XOR rot_r x 22"
definition ep1 :: "u32 \<Rightarrow> u32" where "ep1 x = rot_r x 6 XOR rot_r x 11 XOR rot_r x 25"
definition sig0 :: "u32 \<Rightarrow> u32" where "sig0 x = rot_r x 7 XOR rot_r x 18 XOR drop_bit 3 x"
definition sig1 :: "u32 \<Rightarrow> u32" where "sig1 x = rot_r x 17 XOR rot_r x 19 XOR drop_bit 10 x"

definition sha256_schedule :: "bytes \<Rightarrow> u32 list" where
  "sha256_schedule block =
     fold (\<lambda>i m. m @ [sig1 (m ! (i - 2)) + m ! (i - 7) + sig0 (m ! (i - 15)) + m ! (i - 16)])
       [16..<64] (map (\<lambda>i. block_word block (4 * i)) [0..<16])"

definition sha256_round :: "u32 list \<Rightarrow> nat \<Rightarrow> u32 list \<Rightarrow> u32 list" where
  "sha256_round m i w =
     (let t1 = w ! 7 + ep1 (w ! 4) + ch (w ! 4) (w ! 5) (w ! 6) + sha256_K ! i + m ! i;
          t2 = ep0 (w ! 0) + maj (w ! 0) (w ! 1) (w ! 2)
      in [t1 + t2, w ! 0, w ! 1, w ! 2, w ! 3 + t1, w ! 4, w ! 5, w ! 6])"

definition sha256_transform :: "u32 list \<Rightarrow> bytes \<Rightarrow> u32 list" where
  "sha256_transform st block =
     (let m = sha256_schedule block; w = fold (sha256_round m) [0..<64] st
      in map (\<lambda>i. st ! i + w ! i) [0..<8])"

section \<open>Contexts\<close>

definition sha256_init :: "hash_ctx \<Rightarrow> hash_ctx" where
  "sha256_init ctx = ctx\<lparr>h_datalen := 0, h_bitlen := 0,
     h_state := [0x6a09e667, 0xbb67ae85, 0x3c6ef372, 0xa54ff53a] @ [0x510e527f, 0x9b05688c, 0x1f83d9ab, 0x5be0cd19]\<rparr>"

definition sha256_update :: "bytes \<Rightarrow> hash_ctx \<Rightarrow> hash_ctx" where
  "sha256_update dat ctx = hash_update sha256_transform dat ctx"

definition sha256_final :: "hash_ctx \<Rightarrow> bytes" where
  "sha256_final ctx = state_bytes 8 (h_state (hash_pad sha256_transform ctx))"

definition sha256_hash :: "bytes \<Rightarrow> bytes" where
  "sha256_hash dat = sha256_final (sha256_update dat (sha256_init fresh_ctx))"

section \<open>The standard\<close>

text \<open>FIPS 180-4: the schedule as the recurrence for \<open>W\<close>, the working variables after \<open>t\<close> rounds.\<close>

fun sha256_W :: "bytes \<Rightarrow> nat \<Rightarrow> u32" where
  "sha256_W M t = (if t < 16 then block_word M (4 * t)
     else (let \<sigma>0 = (\<lambda>x. word_rotr 7 x XOR word_rotr 18 x XOR drop_bit 3 x);
               \<sigma>1 = (\<lambda>x. word_rotr 17 x XOR word_rotr 19 x XOR drop_bit 10 x)
           in \<sigma>1 (sha256_W M (t - 2)) + sha256_W M (t - 7) + \<sigma>0 (sha256_W M (t - 15)) + sha256_W M (t - 16)))"

declare sha256_W.simps [simp del]

text \<open>
  The constants come from the primes: the first 32 bits of the fractional parts of the cube roots of the first
  64 primes are the round constants, those of the square roots of the first eight the initial hash value.
  \<open>iroot k b x\<close> is the integer part of the \<open>k\<close>-th root of a number of at most \<open>k * b\<close> bits, bit by bit.
\<close>

fun iroot :: "nat \<Rightarrow> nat \<Rightarrow> int \<Rightarrow> int" where
  "iroot k 0 x = 0"
| "iroot k (Suc b) x = (let r = 2 * iroot k b (x div 2 ^ k) in if (r + 1) ^ k \<le> x then r + 1 else r)"

definition fips_primes :: "int list" where
  "fips_primes = [2, 3, 5, 7, 11, 13, 17, 19, 23, 29, 31, 37, 41, 43, 47, 53, 59, 61, 67, 71, 73, 79, 83, 89, 97, 101,
     103, 107, 109, 113, 127, 131, 137, 139, 149, 151, 157, 163, 167, 173, 179, 181, 191, 193, 197, 199, 211, 223, 227,
     229, 233, 239, 241, 251, 257, 263, 269, 271, 277, 281, 283, 293, 307, 311]"

definition root_bits :: "nat \<Rightarrow> int \<Rightarrow> u32" where
  "root_bits k p = word_of_int (iroot k 40 (p * 2 ^ (32 * k)))"

definition fips_K :: "u32 list" where "fips_K = map (root_bits 3) fips_primes"

fun sha256_vars :: "u32 list \<Rightarrow> bytes \<Rightarrow> nat \<Rightarrow> u32 list" where
  "sha256_vars H M 0 = H"
| "sha256_vars H M (Suc t) = (case sha256_vars H M t of [a, b, c, d, e, f, g, h] \<Rightarrow>
     let T1 = h + (word_rotr 6 e XOR word_rotr 11 e XOR word_rotr 25 e) + ((e AND f) XOR (NOT e AND g))
              + fips_K ! t + sha256_W M t;
         T2 = (word_rotr 2 a XOR word_rotr 13 a XOR word_rotr 22 a) + ((a AND b) XOR (a AND c) XOR (b AND c))
     in [T1 + T2, a, b, c, d + T1, e, f, g] | _ \<Rightarrow> [])"

definition sha256_compress :: "u32 list \<Rightarrow> bytes \<Rightarrow> u32 list" where
  "sha256_compress H M = map2 (+) H (sha256_vars H M 64)"

definition sha256_iv :: "u32 list" where
  "sha256_iv = map (root_bits 2) (take 8 fips_primes)"

definition sha256_spec :: "bytes \<Rightarrow> bytes" where
  "sha256_spec m = md_hash sha256_compress sha256_iv m"

text \<open>The tables of the code hold these constants.\<close>

lemma sha256_K_fips: "sha256_K = fips_K"
  by code_simp

lemma sha256_init_iv: "[0x6a09e667, 0xbb67ae85, 0x3c6ef372, 0xa54ff53a, 0x510e527f, 0x9b05688c, 0x1f83d9ab, 0x5be0cd19] = sha256_iv"
  by code_simp

lemma sha256_init_state [simp]: "h_state (sha256_init ctx) = sha256_iv"
  by (simp add: sha256_init_def flip: sha256_init_iv)

text \<open>The primes are all those up to 311, by trial division, and \<open>iroot\<close> is the integer root.\<close>

lemma fips_primes_sieve: "fips_primes = filter (\<lambda>p. list_all (\<lambda>d. d = p \<or> p mod d \<noteq> 0) [2..17]) [2..311]"
  by code_simp

lemma iroot_root:
  assumes "0 < k" "0 \<le> x" "x < 2 ^ (k * b)"
  shows "0 \<le> iroot k b x \<and> iroot k b x ^ k \<le> x \<and> x < (iroot k b x + 1) ^ k"
  using assms(2,3)
proof (induction b arbitrary: x)
  case 0
  then have "x = 0" by simp
  then show ?case using assms(1) by (simp add: power_0_left)
next
  case (Suc b)
  let ?r = "iroot k b (x div 2 ^ k)"
  have "x < 2 ^ (k * b) * 2 ^ k" using Suc.prems(2) by (simp add: power_add [symmetric] add.commute)
  moreover have le: "x div 2 ^ k * 2 ^ k \<le> x" by (simp add: minus_mod_eq_div_mult [symmetric])
  ultimately have lt: "x div 2 ^ k * 2 ^ k < 2 ^ (k * b) * 2 ^ k" by (rule order_le_less_trans [rotated])
  have q: "0 \<le> x div 2 ^ k" "x div 2 ^ k < 2 ^ (k * b)"
    using Suc.prems(1) mult_right_less_imp_less [OF lt] by (simp_all add: pos_imp_zdiv_nonneg_iff)
  note I = Suc.IH [OF q]
  have "(2 * ?r) ^ k \<le> x"
  proof -
    have "?r ^ k * 2 ^ k \<le> x div 2 ^ k * 2 ^ k" using I by (intro mult_right_mono) simp_all
    also note le
    finally show ?thesis by (simp add: power_mult_distrib mult.commute)
  qed
  moreover have "x < (2 * ?r + 1 + 1) ^ k"
  proof -
    have "x div 2 ^ k + 1 \<le> (?r + 1) ^ k" using I by simp
    then have "(x div 2 ^ k + 1) * 2 ^ k \<le> (?r + 1) ^ k * 2 ^ k" by (intro mult_right_mono) simp_all
    moreover have "x < (x div 2 ^ k + 1) * 2 ^ k"
      using mod_pos_pos_trivial pos_mod_bound [of "2 ^ k" x] by (simp add: distrib_right minus_mod_eq_div_mult [symmetric])
    moreover have "(?r + 1) ^ k * 2 ^ k = (2 * ?r + 1 + 1) ^ k" by (simp add: power_mult_distrib [symmetric] algebra_simps)
    ultimately show ?thesis by simp
  qed
  ultimately show ?case using I by (simp add: Let_def)
qed

lemma rot_rs:
  "rot_r x 2 = word_rotr 2 x" "rot_r x 6 = word_rotr 6 x" "rot_r x 7 = word_rotr 7 x" "rot_r x 11 = word_rotr 11 x"
  "rot_r x 13 = word_rotr 13 x" "rot_r x 17 = word_rotr 17 x" "rot_r x 18 = word_rotr 18 x" "rot_r x 19 = word_rotr 19 x"
  "rot_r x 22 = word_rotr 22 x" "rot_r x 25 = word_rotr 25 x"
  by (simp_all add: rot_r_rotr)

lemma sha256_schedule_W:
  "sha256_schedule M = map (sha256_W M) [0..<64]"
proof -
  let ?g = "\<lambda>i m. sig1 (m ! (i - 2)) + m ! (i - 7) + sig0 (m ! (i - 15)) + m ! (i - 16)"
  have init: "map (\<lambda>i. block_word M (4 * i)) [0..<16] = map (sha256_W M) [0..<16]"
    by (intro map_cong refl) (simp add: sha256_W.simps)
  have "?g i (map (sha256_W M) [0..<i]) = sha256_W M i" if "16 \<le> i" for i
  proof -
    have "map (sha256_W M) [0..<i] ! (i - k) = sha256_W M (i - k)" if "0 < k" for k
      using that \<open>16 \<le> i\<close> by (subst nth_map) simp_all
    then show ?thesis using that
      by (simp add: sha256_W.simps [of M i] sig0_def sig1_def rot_rs Let_def)
  qed
  then show ?thesis unfolding sha256_schedule_def init by (intro fold_grow) simp_all
qed

lemma list8: "length xs = 8 \<Longrightarrow> \<exists>a b c d e f g h. xs = [a, b, c, d, e, f, g, h]"
  by (simp add: length_Suc_conv eval_nat_numeral) metis

lemma sha256_rounds:
  assumes "length H = 8" "n \<le> 64"
  shows "fold (sha256_round (sha256_schedule M)) [0..<n] H = sha256_vars H M n \<and> length (sha256_vars H M n) = 8"
  using assms(2)
proof (induction n)
  case (Suc n)
  then have IH: "fold (sha256_round (sha256_schedule M)) [0..<n] H = sha256_vars H M n" "length (sha256_vars H M n) = 8"
    by simp_all
  obtain a b c d e f g h where v: "sha256_vars H M n = [a, b, c, d, e, f, g, h]" using list8 [OF IH(2)] by blast
  have m: "sha256_schedule M ! n = sha256_W M n"
    using Suc.prems by (simp add: sha256_schedule_W del: upt_conv_Cons)
  have st: "fold (sha256_round (sha256_schedule M)) [0..<Suc n] H = sha256_round (sha256_schedule M) n [a, b, c, d, e, f, g, h]"
    by (simp add: IH(1) v)
  show ?case
    unfolding st by (simp add: v sha256_round_def m Let_def ep0_def ep1_def ch_def maj_def rot_rs sha256_K_fips)
qed (simp add: assms(1))

lemma transform_compress:
  assumes "length H = 8"
  shows "sha256_transform H M = sha256_compress H M"
proof -
  have "length (sha256_vars H M 64) = 8" "fold (sha256_round (sha256_schedule M)) [0..<64] H = sha256_vars H M 64"
    using sha256_rounds [OF assms] by simp_all
  then show ?thesis
    unfolding sha256_transform_def sha256_compress_def Let_def
    by (intro nth_equalityI) (simp_all add: assms del: upt_conv_Cons)
qed

lemma length_transform: "length (sha256_transform st b) = 8"
  unfolding sha256_transform_def Let_def by (simp only: length_map length_upt)

lemma length_iv: "length sha256_iv = 8"
  by (simp add: sha256_iv_def fips_primes_def)

lemma md_sha256: "md_hash sha256_transform sha256_iv m = sha256_spec m"
  unfolding sha256_spec_def
  by (rule md_hash_cong [OF length_transform _ length_iv, symmetric]) (simp add: transform_compress)

lemma length_sha256_spec [simp]: "length (sha256_spec m) = 32"
  using length_md_hash [of 8 sha256_transform sha256_iv m, OF length_transform length_iv] by (simp add: md_sha256)

lemma sha256_update_eq: "sha256_update = hash_update sha256_transform"
  by (intro ext) (simp add: sha256_update_def)

interpretation sha256: streaming_hash sha256_hash sha256_init sha256_update sha256_final "hash_pad sha256_transform" sha256_spec
proof
  show st: "sha256_final (fold sha256_update parts (sha256_init ctx)) = sha256_spec (concat parts)"
    if "length (h_data ctx) = 64" "length (concat parts) < 2 ^ 61" for ctx parts
  proof -
    have "pristine sha256_iv (sha256_init ctx)" using that(1) by (simp add: pristine_def) (simp add: sha256_init_def)
    from md_stream [OF this that(2) length_transform length_iv] show ?thesis
      by (simp add: sha256_final_def sha256_update_eq md_sha256)
  qed
  show "sha256_hash m = sha256_spec m" if "length m < 2 ^ 61" for m
    using st [of fresh_ctx "[m]"] that by (simp add: sha256_hash_def fresh_ctx_def)
  show "length (sha256_spec m) \<le> 64" for m by simp
qed (simp_all add: sha256_init_def sha256_update_eq length_update_data length_pad_data)

section \<open>Properties\<close>



end
