(* ===== verification/Sha1.thy ===== *)
theory Sha1
  imports Hash
begin

text \<open>
  SHA-1, \<^verbatim>\<open>kernel/crypto/sha1.c\<close>, over the contexts of theory \<open>Hash\<close>, and its proof against the
  recurrences of FIPS 180-4.
\<close>

section \<open>The code\<close>

definition sha1_schedule :: "bytes \<Rightarrow> u32 list" where
  "sha1_schedule block =
     fold (\<lambda>i w. w @ [rol32 (w ! (i - 3) XOR w ! (i - 8) XOR w ! (i - 14) XOR w ! (i - 16)) 1])
       [16..<80] (map (\<lambda>i. block_word block (i * 4)) [0..<16])"

definition sha1_round :: "u32 list \<Rightarrow> nat \<Rightarrow> u32 \<times> u32 \<times> u32 \<times> u32 \<times> u32 \<Rightarrow> u32 \<times> u32 \<times> u32 \<times> u32 \<times> u32" where
  "sha1_round w i = (\<lambda>(a, b, c, d, e).
     let (f, k) = (if i < 20 then ((b AND c) OR (NOT b AND d), 0x5A827999)
                   else if i < 40 then (b XOR c XOR d, 0x6ED9EBA1)
                   else if i < 60 then ((b AND c) OR (b AND d) OR (c AND d), 0x8F1BBCDC)
                   else (b XOR c XOR d, 0xCA62C1D6));
         temp = rol32 a 5 + f + e + k + w ! i
     in (temp, a, rol32 b 30, c, d))"

definition sha1_transform :: "u32 list \<Rightarrow> bytes \<Rightarrow> u32 list" where
  "sha1_transform st block =
     (let (a, b, c, d, e) = fold (sha1_round (sha1_schedule block)) [0..<80] (st ! 0, st ! 1, st ! 2, st ! 3, st ! 4)
      in [st ! 0 + a, st ! 1 + b, st ! 2 + c, st ! 3 + d, st ! 4 + e])"

definition sha1_init :: "hash_ctx \<Rightarrow> hash_ctx" where
  "sha1_init ctx = ctx\<lparr>h_datalen := 0, h_bitlen := 0,
     h_state := [0x67452301, 0xEFCDAB89, 0x98BADCFE, 0x10325476, 0xC3D2E1F0]\<rparr>"

definition sha1_update :: "bytes \<Rightarrow> hash_ctx \<Rightarrow> hash_ctx" where
  "sha1_update dat ctx = hash_update sha1_transform dat ctx"

definition sha1_final :: "hash_ctx \<Rightarrow> bytes" where
  "sha1_final ctx = state_bytes 5 (h_state (hash_pad sha1_transform ctx))"

definition sha1_hash :: "bytes \<Rightarrow> bytes" where
  "sha1_hash dat = sha1_final (sha1_update dat (sha1_init fresh_ctx))"

section \<open>The standard\<close>

fun sha1_W :: "bytes \<Rightarrow> nat \<Rightarrow> u32" where
  "sha1_W M t = (if t < 16 then block_word M (4 * t)
     else word_rotl 1 (sha1_W M (t - 3) XOR sha1_W M (t - 8) XOR sha1_W M (t - 14) XOR sha1_W M (t - 16)))"

declare sha1_W.simps [simp del]

text \<open>The round functions \<open>Ch\<close>, \<open>Parity\<close>, \<open>Maj\<close>, \<open>Parity\<close> and their constants, as the standard writes them.\<close>

definition sha1_f :: "nat \<Rightarrow> u32 \<Rightarrow> u32 \<Rightarrow> u32 \<Rightarrow> u32" where
  "sha1_f t x y z = (if t \<le> 19 then (x AND y) XOR (NOT x AND z)
     else if t \<le> 39 then x XOR y XOR z
     else if t \<le> 59 then (x AND y) XOR (x AND z) XOR (y AND z)
     else x XOR y XOR z)"

definition sha1_K :: "nat \<Rightarrow> u32" where
  "sha1_K t = [0x5a827999, 0x6ed9eba1, 0x8f1bbcdc, 0xca62c1d6] ! (t div 20)"

fun sha1_vars :: "u32 list \<Rightarrow> bytes \<Rightarrow> nat \<Rightarrow> u32 list" where
  "sha1_vars H M 0 = H"
| "sha1_vars H M (Suc t) = (case sha1_vars H M t of [a, b, c, d, e] \<Rightarrow>
     [word_rotl 5 a + sha1_f t b c d + e + sha1_K t + sha1_W M t, a, word_rotl 30 b, c, d] | _ \<Rightarrow> [])"

definition sha1_compress :: "u32 list \<Rightarrow> bytes \<Rightarrow> u32 list" where
  "sha1_compress H M = map2 (+) H (sha1_vars H M 80)"

text \<open>The initial hash value of section 5.3.1 of the standard.\<close>

definition sha1_iv :: "u32 list" where
  "sha1_iv = [0x67452301, 0xefcdab89, 0x98badcfe, 0x10325476, 0xc3d2e1f0]"

definition sha1_spec :: "bytes \<Rightarrow> bytes" where
  "sha1_spec m = md_hash sha1_compress sha1_iv m"

section \<open>The transform is the compression function\<close>

lemma sha1_schedule_W: "sha1_schedule M = map (sha1_W M) [0..<80]"
proof -
  let ?g = "\<lambda>i w. rol32 (w ! (i - 3) XOR w ! (i - 8) XOR w ! (i - 14) XOR w ! (i - 16)) 1"
  have init: "map (\<lambda>i. block_word M (i * 4)) [0..<16] = map (sha1_W M) [0..<16]"
    by (intro map_cong refl) (simp add: sha1_W.simps mult.commute)
  have "?g i (map (sha1_W M) [0..<i]) = sha1_W M i" if "16 \<le> i" for i
  proof -
    have "map (sha1_W M) [0..<i] ! (i - k) = sha1_W M (i - k)" if "0 < k" for k
      using that \<open>16 \<le> i\<close> by (subst nth_map) simp_all
    then show ?thesis using that by (simp add: sha1_W.simps [of M i] rol32_rotl)
  qed
  then show ?thesis unfolding sha1_schedule_def init by (intro fold_grow) simp_all
qed

lemma bits_ch: "(b AND c) OR (NOT b AND d) = (b AND c) XOR (NOT b AND (d :: u32))"
  by (rule bit_word_eqI) (auto simp: bit_simps)

lemma bits_maj: "(b AND c) OR (b AND d) OR (c AND d) = (b AND c) XOR (b AND d) XOR (c AND (d :: u32))"
  by (rule bit_word_eqI) (auto simp: bit_simps)

lemma sha1_round_eq:
  assumes "i < 80"
  shows "sha1_round w i (a, b, c, d, e) =
    (word_rotl 5 a + sha1_f i b c d + e + sha1_K i + w ! i, a, word_rotl 30 b, c, d)"
proof -
  have r: "rol32 a 5 = word_rotl 5 a" "rol32 b 30 = word_rotl 30 b" by (simp_all add: rol32_rotl)
  consider "i < 20" "i div 20 = 0" | "20 \<le> i" "i < 40" "i div 20 = 1" | "40 \<le> i" "i < 60" "i div 20 = 2"
    | "60 \<le> i" "i div 20 = 3"
    using assms by linarith
  then show ?thesis
    by cases (simp_all add: sha1_round_def sha1_f_def sha1_K_def r bits_ch bits_maj)
qed

lemma sha1_rounds:
  assumes "n \<le> 80"
  shows "\<exists>a b c d e. fold (sha1_round (sha1_schedule M)) [0..<n] (h0, h1, h2, h3, h4) = (a, b, c, d, e)
    \<and> sha1_vars [h0, h1, h2, h3, h4] M n = [a, b, c, d, e]"
  using assms
proof (induction n)
  case (Suc n)
  then obtain a b c d e where
    IH: "fold (sha1_round (sha1_schedule M)) [0..<n] (h0, h1, h2, h3, h4) = (a, b, c, d, e)"
      "sha1_vars [h0, h1, h2, h3, h4] M n = [a, b, c, d, e]" by auto
  have m: "sha1_schedule M ! n = sha1_W M n" using Suc.prems by (simp add: sha1_schedule_W del: upt_conv_Cons)
  have "fold (sha1_round (sha1_schedule M)) [0..<Suc n] (h0, h1, h2, h3, h4) = sha1_round (sha1_schedule M) n (a, b, c, d, e)"
    by (simp add: IH(1))
  then show ?case using Suc.prems by (simp add: IH(2) sha1_round_eq m)
qed simp

lemma list5: "length xs = 5 \<Longrightarrow> \<exists>a b c d e. xs = [a, b, c, d, e]"
  by (auto simp: length_Suc_conv eval_nat_numeral)

lemma sha1_transform_compress: "length H = 5 \<Longrightarrow> sha1_transform H M = sha1_compress H M"
proof -
  assume "length H = 5"
  then obtain h0 h1 h2 h3 h4 where H: "H = [h0, h1, h2, h3, h4]" using list5 by blast
  have "80 \<le> (80 :: nat)" by simp
  from sha1_rounds [OF this, of M h0 h1 h2 h3 h4] obtain a b c d e where
    A: "fold (sha1_round (sha1_schedule M)) [0..<80] (h0, h1, h2, h3, h4) = (a, b, c, d, e)"
      "sha1_vars [h0, h1, h2, h3, h4] M 80 = [a, b, c, d, e]" by blast
  have h: "H ! 0 = h0" "H ! 1 = h1" "H ! 2 = h2" "H ! 3 = h3" "H ! 4 = h4" by (simp_all add: H)
  have "sha1_transform H M = [h0 + a, h1 + b, h2 + c, h3 + d, h4 + e]"
    unfolding sha1_transform_def Let_def h A(1) by simp
  also have "\<dots> = sha1_compress H M" unfolding sha1_compress_def H A(2) by simp
  finally show ?thesis .
qed

lemma length_sha1_transform: "length (sha1_transform st b) = 5"
  unfolding sha1_transform_def Let_def by (simp only: split_beta list.size)

lemma length_sha1_iv: "length sha1_iv = 5"
  by (simp add: sha1_iv_def)

lemma md_sha1: "md_hash sha1_transform sha1_iv m = sha1_spec m"
  unfolding sha1_spec_def
  by (rule md_hash_cong [OF length_sha1_transform _ length_sha1_iv, symmetric]) (simp add: sha1_transform_compress)

lemma length_sha1_spec [simp]: "length (sha1_spec m) = 20"
  using length_md_hash [of 5 sha1_transform sha1_iv m, OF length_sha1_transform length_sha1_iv] by (simp add: md_sha1)

lemma sha1_update_eq: "sha1_update = hash_update sha1_transform"
  by (intro ext) (simp add: sha1_update_def)

interpretation sha1: streaming_hash sha1_hash sha1_init sha1_update sha1_final "hash_pad sha1_transform" sha1_spec
proof
  show st: "sha1_final (fold sha1_update parts (sha1_init ctx)) = sha1_spec (concat parts)"
    if "length (h_data ctx) = 64" "length (concat parts) < 2 ^ 61" for ctx parts
  proof -
    have "pristine sha1_iv (sha1_init ctx)" using that(1) by (simp add: pristine_def sha1_init_def sha1_iv_def)
    from md_stream [OF this that(2) length_sha1_transform length_sha1_iv] show ?thesis
      by (simp add: sha1_final_def sha1_update_eq md_sha1)
  qed
  show "sha1_hash m = sha1_spec m" if "length m < 2 ^ 61" for m
    using st [of fresh_ctx "[m]"] that by (simp add: sha1_hash_def fresh_ctx_def)
  show "length (sha1_spec m) \<le> 64" for m by simp
qed (simp_all add: sha1_init_def sha1_update_eq length_update_data length_pad_data)

section \<open>Properties\<close>

text \<open>
  However the message is cut into calls of \<^verbatim>\<open>sha1_update\<close>, and whatever the context held before
  \<^verbatim>\<open>sha1_init\<close>, the 20-byte digest is the one FIPS 180-4 defines for the whole message: its initial hash
  value and round constants, written out here from the standard, the recurrence for the schedule, 80 rounds
  on the working variables and padding with the bit length.
\<close>
theorem sha1_correct:
  assumes "length (h_data ctx) = 64" "length (concat parts) < 2 ^ 61"
  shows "sha1_final (fold sha1_update parts (sha1_init ctx)) = sha1_spec (concat parts)
     \<and> sha1_hash (concat parts) = sha1_spec (concat parts) \<and> length (sha1_hash (concat parts)) = 20"
  using sha1.stream [OF assms] sha1.one_shot [OF assms(2)] by simp

theorem sha1_correct_witness:
  "sha1_final (sha1_update [0x63] (sha1_update [0x61, 0x62] (sha1_init fresh_ctx))) = sha1_spec [0x61, 0x62, 0x63]"
  using sha1_correct [of fresh_ctx "[[0x61, 0x62], [0x63]]"] by (simp add: fresh_ctx_def)

end
