(* ===== verification/Hmac.thy ===== *)
theory Hmac
  imports Sha256 Sha1
begin

text \<open>
  The keyed hashes of \<^verbatim>\<open>kernel/crypto/hmac.h\<close> over the two hash functions.
\<close>

definition hmac_sha256 :: "bytes \<Rightarrow> bytes \<Rightarrow> bytes" where
  "hmac_sha256 key dat =
     hmac_body sha256_hash sha256_init sha256_update sha256_final (hash_pad sha256_transform) key dat"

definition hmac_sha1 :: "bytes \<Rightarrow> bytes \<Rightarrow> bytes" where
  "hmac_sha1 key dat = hmac_body sha1_hash sha1_init sha1_update sha1_final (hash_pad sha1_transform) key dat"

text \<open>
  C15. Both keyed hashes are RFC 2104 over the standard's hash function, for keys of any length: a
  long key is hashed first, a short one padded with zeros, and reusing the context of the inner hash for
  the outer one leaves nothing of it behind.
\<close>
theorem hmac_correct:
  assumes "length key < 2 ^ 32" "length dat < 2 ^ 32"
  shows "hmac_sha256 key dat = hmac_spec sha256_spec key dat \<and> hmac_sha1 key dat = hmac_spec sha1_spec key dat"
  using sha256.hmac [OF assms] sha1.hmac [OF assms] by (simp add: hmac_sha256_def hmac_sha1_def)

theorem hmac_correct_witness:
  "hmac_sha1 [0x4a, 0x65] [1, 2, 3] = hmac_spec sha1_spec [0x4a, 0x65] [1, 2, 3]"
  using hmac_correct [of "[0x4a, 0x65]" "[1, 2, 3]"] by simp

end
