(* ===== verification/Aes.thy ===== *)
theory Aes
  imports Icda_Prelude
begin

text \<open>
  AES-128, \<^verbatim>\<open>kernel/crypto/aes.c\<close>: the key schedule, the two block transforms and the chained modes. A
  state, a block and a round-key array are lists of bytes, updated by index where the code assigns.
\<close>

section \<open>Tables and field arithmetic\<close>

definition SBOX :: "u8 list" where
  "SBOX = concat
    [[0x63, 0x7c, 0x77, 0x7b, 0xf2, 0x6b, 0x6f, 0xc5],
     [0x30, 0x01, 0x67, 0x2b, 0xfe, 0xd7, 0xab, 0x76],
     [0xca, 0x82, 0xc9, 0x7d, 0xfa, 0x59, 0x47, 0xf0],
     [0xad, 0xd4, 0xa2, 0xaf, 0x9c, 0xa4, 0x72, 0xc0],
     [0xb7, 0xfd, 0x93, 0x26, 0x36, 0x3f, 0xf7, 0xcc],
     [0x34, 0xa5, 0xe5, 0xf1, 0x71, 0xd8, 0x31, 0x15],
     [0x04, 0xc7, 0x23, 0xc3, 0x18, 0x96, 0x05, 0x9a],
     [0x07, 0x12, 0x80, 0xe2, 0xeb, 0x27, 0xb2, 0x75],
     [0x09, 0x83, 0x2c, 0x1a, 0x1b, 0x6e, 0x5a, 0xa0],
     [0x52, 0x3b, 0xd6, 0xb3, 0x29, 0xe3, 0x2f, 0x84],
     [0x53, 0xd1, 0x00, 0xed, 0x20, 0xfc, 0xb1, 0x5b],
     [0x6a, 0xcb, 0xbe, 0x39, 0x4a, 0x4c, 0x58, 0xcf],
     [0xd0, 0xef, 0xaa, 0xfb, 0x43, 0x4d, 0x33, 0x85],
     [0x45, 0xf9, 0x02, 0x7f, 0x50, 0x3c, 0x9f, 0xa8],
     [0x51, 0xa3, 0x40, 0x8f, 0x92, 0x9d, 0x38, 0xf5],
     [0xbc, 0xb6, 0xda, 0x21, 0x10, 0xff, 0xf3, 0xd2],
     [0xcd, 0x0c, 0x13, 0xec, 0x5f, 0x97, 0x44, 0x17],
     [0xc4, 0xa7, 0x7e, 0x3d, 0x64, 0x5d, 0x19, 0x73],
     [0x60, 0x81, 0x4f, 0xdc, 0x22, 0x2a, 0x90, 0x88],
     [0x46, 0xee, 0xb8, 0x14, 0xde, 0x5e, 0x0b, 0xdb],
     [0xe0, 0x32, 0x3a, 0x0a, 0x49, 0x06, 0x24, 0x5c],
     [0xc2, 0xd3, 0xac, 0x62, 0x91, 0x95, 0xe4, 0x79],
     [0xe7, 0xc8, 0x37, 0x6d, 0x8d, 0xd5, 0x4e, 0xa9],
     [0x6c, 0x56, 0xf4, 0xea, 0x65, 0x7a, 0xae, 0x08],
     [0xba, 0x78, 0x25, 0x2e, 0x1c, 0xa6, 0xb4, 0xc6],
     [0xe8, 0xdd, 0x74, 0x1f, 0x4b, 0xbd, 0x8b, 0x8a],
     [0x70, 0x3e, 0xb5, 0x66, 0x48, 0x03, 0xf6, 0x0e],
     [0x61, 0x35, 0x57, 0xb9, 0x86, 0xc1, 0x1d, 0x9e],
     [0xe1, 0xf8, 0x98, 0x11, 0x69, 0xd9, 0x8e, 0x94],
     [0x9b, 0x1e, 0x87, 0xe9, 0xce, 0x55, 0x28, 0xdf],
     [0x8c, 0xa1, 0x89, 0x0d, 0xbf, 0xe6, 0x42, 0x68],
     [0x41, 0x99, 0x2d, 0x0f, 0xb0, 0x54, 0xbb, 0x16]]"

definition RSBOX :: "u8 list" where
  "RSBOX = concat
    [[0x52, 0x09, 0x6a, 0xd5, 0x30, 0x36, 0xa5, 0x38],
     [0xbf, 0x40, 0xa3, 0x9e, 0x81, 0xf3, 0xd7, 0xfb],
     [0x7c, 0xe3, 0x39, 0x82, 0x9b, 0x2f, 0xff, 0x87],
     [0x34, 0x8e, 0x43, 0x44, 0xc4, 0xde, 0xe9, 0xcb],
     [0x54, 0x7b, 0x94, 0x32, 0xa6, 0xc2, 0x23, 0x3d],
     [0xee, 0x4c, 0x95, 0x0b, 0x42, 0xfa, 0xc3, 0x4e],
     [0x08, 0x2e, 0xa1, 0x66, 0x28, 0xd9, 0x24, 0xb2],
     [0x76, 0x5b, 0xa2, 0x49, 0x6d, 0x8b, 0xd1, 0x25],
     [0x72, 0xf8, 0xf6, 0x64, 0x86, 0x68, 0x98, 0x16],
     [0xd4, 0xa4, 0x5c, 0xcc, 0x5d, 0x65, 0xb6, 0x92],
     [0x6c, 0x70, 0x48, 0x50, 0xfd, 0xed, 0xb9, 0xda],
     [0x5e, 0x15, 0x46, 0x57, 0xa7, 0x8d, 0x9d, 0x84],
     [0x90, 0xd8, 0xab, 0x00, 0x8c, 0xbc, 0xd3, 0x0a],
     [0xf7, 0xe4, 0x58, 0x05, 0xb8, 0xb3, 0x45, 0x06],
     [0xd0, 0x2c, 0x1e, 0x8f, 0xca, 0x3f, 0x0f, 0x02],
     [0xc1, 0xaf, 0xbd, 0x03, 0x01, 0x13, 0x8a, 0x6b],
     [0x3a, 0x91, 0x11, 0x41, 0x4f, 0x67, 0xdc, 0xea],
     [0x97, 0xf2, 0xcf, 0xce, 0xf0, 0xb4, 0xe6, 0x73],
     [0x96, 0xac, 0x74, 0x22, 0xe7, 0xad, 0x35, 0x85],
     [0xe2, 0xf9, 0x37, 0xe8, 0x1c, 0x75, 0xdf, 0x6e],
     [0x47, 0xf1, 0x1a, 0x71, 0x1d, 0x29, 0xc5, 0x89],
     [0x6f, 0xb7, 0x62, 0x0e, 0xaa, 0x18, 0xbe, 0x1b],
     [0xfc, 0x56, 0x3e, 0x4b, 0xc6, 0xd2, 0x79, 0x20],
     [0x9a, 0xdb, 0xc0, 0xfe, 0x78, 0xcd, 0x5a, 0xf4],
     [0x1f, 0xdd, 0xa8, 0x33, 0x88, 0x07, 0xc7, 0x31],
     [0xb1, 0x12, 0x10, 0x59, 0x27, 0x80, 0xec, 0x5f],
     [0x60, 0x51, 0x7f, 0xa9, 0x19, 0xb5, 0x4a, 0x0d],
     [0x2d, 0xe5, 0x7a, 0x9f, 0x93, 0xc9, 0x9c, 0xef],
     [0xa0, 0xe0, 0x3b, 0x4d, 0xae, 0x2a, 0xf5, 0xb0],
     [0xc8, 0xeb, 0xbb, 0x3c, 0x83, 0x53, 0x99, 0x61],
     [0x17, 0x2b, 0x04, 0x7e, 0xba, 0x77, 0xd6, 0x26],
     [0xe1, 0x69, 0x14, 0x63, 0x55, 0x21, 0x0c, 0x7d]]"

definition RCON :: "u8 list" where
  "RCON = [0x00, 0x01, 0x02, 0x04, 0x08, 0x10, 0x20, 0x40, 0x80, 0x1b, 0x36]"

definition xtime :: "u8 \<Rightarrow> u8" where
  "xtime a = push_bit 1 a XOR ((drop_bit 7 a AND 1) * 0x1b)"

text \<open>One turn of the loop of \<^verbatim>\<open>gf_mul\<close>, on \<open>(r, a, b)\<close>.\<close>

definition gf_mul_step :: "u8 \<times> u8 \<times> u8 \<Rightarrow> u8 \<times> u8 \<times> u8" where
  "gf_mul_step = (\<lambda>(r, a, b).
     let r = (if b AND 1 \<noteq> 0 then r XOR a else r);
         h = a AND 0x80;
         a = push_bit 1 a;
         a = (if h \<noteq> 0 then a XOR 0x1b else a)
     in (r, a, drop_bit 1 b))"

definition gf_mul :: "u8 \<Rightarrow> u8 \<Rightarrow> u8" where
  "gf_mul a b = fst ((gf_mul_step ^^ 8) (0, a, b))"

section \<open>The key schedule\<close>

definition sub_word :: "bytes \<Rightarrow> bytes" where
  "sub_word w = [SBOX ! unat (w ! 0), SBOX ! unat (w ! 1), SBOX ! unat (w ! 2), SBOX ! unat (w ! 3)]"

definition rot_word :: "bytes \<Rightarrow> bytes" where
  "rot_word w = [w ! 1, w ! 2, w ! 3, w ! 0]"

definition expand_step :: "nat \<Rightarrow> bytes \<Rightarrow> bytes" where
  "expand_step i rk =
     (let prev = map (\<lambda>k. rk ! ((i - 1) * 4 + k)) [0..<4];
          tmp = (if i mod 4 = 0 then let t = sub_word (rot_word prev) in t[0 := t ! 0 XOR RCON ! (i div 4)] else prev)
      in fold (\<lambda>k rk. rk[i * 4 + k := rk ! ((i - 4) * 4 + k) XOR tmp ! k]) [0..<4] rk)"

definition aes128_expand_key :: "bytes \<Rightarrow> bytes \<Rightarrow> bytes" where
  "aes128_expand_key key rk =
     (let rk = fold (\<lambda>i rk. rk[i := key ! i]) [0..<16] rk
      in fold expand_step [4..<44] rk)"

section \<open>The rounds\<close>

definition add_round_key :: "bytes \<Rightarrow> bytes \<Rightarrow> nat \<Rightarrow> bytes" where
  "add_round_key st rk r = map (\<lambda>i. st ! i XOR rk ! (r * 16 + i)) [0..<16]"

definition sub_bytes :: "bytes \<Rightarrow> bytes" where
  "sub_bytes st = map (\<lambda>i. SBOX ! unat (st ! i)) [0..<16]"

definition inv_sub_bytes :: "bytes \<Rightarrow> bytes" where
  "inv_sub_bytes st = map (\<lambda>i. RSBOX ! unat (st ! i)) [0..<16]"

definition shift_rows :: "bytes \<Rightarrow> bytes" where
  "shift_rows st =
     (let t = st ! 1; st = st[1 := st ! 5]; st = st[5 := st ! 9]; st = st[9 := st ! 13]; st = st[13 := t];
          t = st ! 2; st = st[2 := st ! 10]; st = st[10 := t];
          t = st ! 6; st = st[6 := st ! 14]; st = st[14 := t];
          t = st ! 3; st = st[3 := st ! 15]; st = st[15 := st ! 11]; st = st[11 := st ! 7]; st = st[7 := t]
      in st)"

definition inv_shift_rows :: "bytes \<Rightarrow> bytes" where
  "inv_shift_rows st =
     (let t = st ! 13; st = st[13 := st ! 9]; st = st[9 := st ! 5]; st = st[5 := st ! 1]; st = st[1 := t];
          t = st ! 2; st = st[2 := st ! 10]; st = st[10 := t];
          t = st ! 6; st = st[6 := st ! 14]; st = st[14 := t];
          t = st ! 7; st = st[7 := st ! 11]; st = st[11 := st ! 15]; st = st[15 := st ! 3]; st = st[3 := t]
      in st)"

definition mix_column :: "nat \<Rightarrow> bytes \<Rightarrow> bytes" where
  "mix_column i st =
     (let j = i * 4; a0 = st ! j; a1 = st ! (j + 1); a2 = st ! (j + 2); a3 = st ! (j + 3)
      in st[j := xtime a0 XOR (xtime a1 XOR a1) XOR a2 XOR a3,
            j + 1 := a0 XOR xtime a1 XOR (xtime a2 XOR a2) XOR a3,
            j + 2 := a0 XOR a1 XOR xtime a2 XOR (xtime a3 XOR a3),
            j + 3 := (xtime a0 XOR a0) XOR a1 XOR a2 XOR xtime a3])"

definition mix_columns :: "bytes \<Rightarrow> bytes" where
  "mix_columns st = fold mix_column [0..<4] st"

definition inv_mix_column :: "nat \<Rightarrow> bytes \<Rightarrow> bytes" where
  "inv_mix_column i st =
     (let j = i * 4; a0 = st ! j; a1 = st ! (j + 1); a2 = st ! (j + 2); a3 = st ! (j + 3)
      in st[j := gf_mul a0 14 XOR gf_mul a1 11 XOR gf_mul a2 13 XOR gf_mul a3 9,
            j + 1 := gf_mul a0 9 XOR gf_mul a1 14 XOR gf_mul a2 11 XOR gf_mul a3 13,
            j + 2 := gf_mul a0 13 XOR gf_mul a1 9 XOR gf_mul a2 14 XOR gf_mul a3 11,
            j + 3 := gf_mul a0 11 XOR gf_mul a1 13 XOR gf_mul a2 9 XOR gf_mul a3 14])"

definition inv_mix_columns :: "bytes \<Rightarrow> bytes" where
  "inv_mix_columns st = fold inv_mix_column [0..<4] st"

section \<open>Blocks\<close>

definition enc_round :: "bytes \<Rightarrow> nat \<Rightarrow> bytes \<Rightarrow> bytes" where
  "enc_round rk r st = add_round_key (mix_columns (shift_rows (sub_bytes st))) rk r"

definition aes128_encrypt_block :: "bytes \<Rightarrow> bytes \<Rightarrow> bytes" where
  "aes128_encrypt_block rk blk =
     (let st = add_round_key blk rk 0; st = fold (enc_round rk) [1..<10] st
      in add_round_key (shift_rows (sub_bytes st)) rk 10)"

definition dec_round :: "bytes \<Rightarrow> nat \<Rightarrow> bytes \<Rightarrow> bytes" where
  "dec_round rk r st = inv_mix_columns (add_round_key (inv_sub_bytes (inv_shift_rows st)) rk r)"

definition aes128_decrypt_block :: "bytes \<Rightarrow> bytes \<Rightarrow> bytes" where
  "aes128_decrypt_block rk blk =
     (let st = add_round_key blk rk 10; st = fold (dec_round rk) (rev [1..<10]) st
      in add_round_key (inv_sub_bytes (inv_shift_rows st)) rk 0)"

section \<open>Chained blocks\<close>

text \<open>
  \<^verbatim>\<open>in\<close> is the whole buffer, \<^verbatim>\<open>len\<close> below \<^verbatim>\<open>2^32 - 16\<close>, the result the bytes written at \<^verbatim>\<open>out\<close>, which is
  another buffer. A last partial block is read and written as a whole, as in the code.
\<close>

definition block_offsets :: "nat \<Rightarrow> nat list" where
  "block_offsets len = map (\<lambda>k. k * 16) [0..<(len + 15) div 16]"

definition cbc_enc_step :: "bytes \<Rightarrow> bytes \<Rightarrow> nat \<Rightarrow> bytes \<times> bytes \<Rightarrow> bytes \<times> bytes" where
  "cbc_enc_step rk inp off = (\<lambda>(block, out).
     let block = map (\<lambda>i. block ! i XOR inp ! (off + i)) [0..<16];
         c = aes128_encrypt_block rk block
     in (c, out @ c))"

definition aes128_cbc_encrypt :: "bytes \<Rightarrow> bytes \<Rightarrow> bytes \<Rightarrow> nat \<Rightarrow> bytes" where
  "aes128_cbc_encrypt rk iv inp len =
     snd (fold (cbc_enc_step rk inp) (block_offsets len) (map (\<lambda>i. iv ! i) [0..<16], []))"

definition cbc_dec_step :: "bytes \<Rightarrow> bytes \<Rightarrow> bytes \<Rightarrow> nat \<Rightarrow> bytes \<Rightarrow> bytes" where
  "cbc_dec_step rk iv inp off out =
     (let p = aes128_decrypt_block rk (map (\<lambda>i. inp ! (off + i)) [0..<16])
      in out @ (if off = 0 then map (\<lambda>i. p ! i XOR iv ! i) [0..<16]
                else map (\<lambda>i. p ! i XOR inp ! (off - 16 + i)) [0..<16]))"

definition aes128_cbc_decrypt :: "bytes \<Rightarrow> bytes \<Rightarrow> bytes \<Rightarrow> nat \<Rightarrow> bytes" where
  "aes128_cbc_decrypt rk iv inp len = fold (cbc_dec_step rk iv inp) (block_offsets len) []"

section \<open>The key schedule of the standard\<close>

text \<open>FIPS 197, figure 11: the words of the schedule, each four bytes.\<close>

fun aes_W :: "bytes \<Rightarrow> nat \<Rightarrow> bytes" where
  "aes_W key i = (if i < 4 then [key ! (4 * i), key ! (4 * i + 1), key ! (4 * i + 2), key ! (4 * i + 3)]
     else let t = aes_W key (i - 1);
              t = (if i mod 4 = 0 then map2 (XOR) (map (\<lambda>b. SBOX ! unat b) (rotate1 t)) [RCON ! (i div 4), 0, 0, 0] else t)
          in map2 (XOR) (aes_W key (i - 4)) t)"

declare aes_W.simps [simp del]

lemma length_aes_W [simp]: "length (aes_W key i) = 4"
  by (induction key i rule: aes_W.induct) (simp add: aes_W.simps Let_def)

lemma nth_aes_words: "k < 4 \<Longrightarrow> i < n \<Longrightarrow> concat (map (aes_W key) [0..<n]) ! (i * 4 + k) = aes_W key i ! k"
proof (induction n)
  case (Suc n)
  have l: "length (concat (map (aes_W key) [0..<m])) = m * 4" for m
    by (induction m) simp_all
  show ?case
  proof (cases "i = n")
    case True
    then show ?thesis using Suc.prems by (simp add: nth_append l)
  next
    case False
    then have i: "i < n" using Suc.prems by simp
    then have "i * 4 + k < n * 4" using Suc.prems(1) by simp
    then show ?thesis using Suc.IH [OF Suc.prems(1) i] by (simp add: nth_append l)
  qed
qed simp

lemma length_aes_words: "length (concat (map (aes_W key) [0..<m])) = m * 4"
  by (induction m) simp_all

lemma list4: "length xs = 4 \<Longrightarrow> xs = [xs ! 0, xs ! 1, xs ! 2, xs ! 3]"
  by (intro nth_equalityI) (auto simp: less_Suc_eq eval_nat_numeral)

lemma upt_4: "[0..<4] = [0, 1, 2, 3]"
  by (simp add: upt_rec)

lemma expand_step_word:
  assumes "take (i * 4) rk = concat (map (aes_W key) [0..<i])" "4 \<le> i" "i < 44" "length rk = 176"
  shows "take (Suc i * 4) (expand_step i rk) = concat (map (aes_W key) [0..<Suc i]) \<and> length (expand_step i rk) = 176"
proof -
  have nth: "rk ! (m * 4 + k) = aes_W key m ! k" if "m < i" "k < 4" for m k
  proof -
    have "m * 4 + k < i * 4" using that by simp
    then have "rk ! (m * 4 + k) = take (i * 4) rk ! (m * 4 + k)" by simp
    then show ?thesis unfolding assms(1) using nth_aes_words [OF that(2,1)] by simp
  qed
  let ?p = "aes_W key (i - 1)"
  have prev: "map (\<lambda>k. rk ! ((i - 1) * 4 + k)) [0..<4] = ?p"
    using nth [of "i - 1"] assms(2) by (intro nth_equalityI) (simp_all del: upt_rec_numeral)
  define t where "t = (if i mod 4 = 0 then let t = sub_word (rot_word ?p) in t[0 := t ! 0 XOR RCON ! (i div 4)] else ?p)"
  have lt: "length t = 4" by (simp add: t_def sub_word_def Let_def)
  obtain a b c d where p: "?p = [a, b, c, d]" using list4 [OF length_aes_W] by blast
  have "t = (if i mod 4 = 0 then map2 (XOR) (map (\<lambda>b. SBOX ! unat b) (rotate1 ?p)) [RCON ! (i div 4), 0, 0, 0] else ?p)"
    unfolding t_def p by (simp add: sub_word_def rot_word_def Let_def)
  then have W: "aes_W key i = map2 (XOR) (aes_W key (i - 4)) t"
    using assms(2) by (simp add: aes_W.simps [of key i] Let_def)
  have step: "expand_step i rk = rk[i * 4 := aes_W key i ! 0, i * 4 + 1 := aes_W key i ! 1,
      i * 4 + 2 := aes_W key i ! 2, i * 4 + 3 := aes_W key i ! 3]"
  proof -
    have w: "aes_W key i ! k = rk ! ((i - 4) * 4 + k) XOR t ! k" if "k < 4" for k
      using that lt nth [of "i - 4" k] assms(2) by (simp add: W)
    have i4: "(i - 4) * 4 + 3 < i * 4" using assms(2) by simp
    show ?thesis
      unfolding expand_step_def prev unfolding Let_def unfolding t_def [unfolded Let_def, symmetric] upt_4
      using i4 by (simp add: w w [of 0, simplified])
  qed
  have "take (Suc i * 4) (expand_step i rk) = take (i * 4) rk @ aes_W key i"
  proof (rule nth_equalityI)
    show "length (take (Suc i * 4) (expand_step i rk)) = length (take (i * 4) rk @ aes_W key i)"
      using assms(3,4) by (simp add: step)
    fix j assume "j < length (take (Suc i * 4) (expand_step i rk))"
    then have j: "j < i * 4 + 4" by simp
    then consider "j < i * 4" | "j = i * 4" | "j = i * 4 + 1" | "j = i * 4 + 2" | "j = i * 4 + 3" by linarith
    then show "take (Suc i * 4) (expand_step i rk) ! j = (take (i * 4) rk @ aes_W key i) ! j"
      using assms(3,4) by cases (simp_all add: step nth_append)
  qed
  then show ?thesis by (simp add: assms(1,4) step)
qed

lemma list16:
  assumes "length (st :: 'a list) = 16"
  shows "st = [st ! 0, st ! 1, st ! 2, st ! 3, st ! 4, st ! 5, st ! 6, st ! 7] @
    [st ! 8, st ! 9, st ! 10, st ! 11, st ! 12, st ! 13, st ! 14, st ! 15]"
  using assms by (intro nth_equalityI) (auto simp: less_Suc_eq eval_nat_numeral)

lemma expand_steps:
  assumes "length key = 16" "length rk = 176" "n \<le> 44" "4 \<le> n"
  shows "take (n * 4) (fold expand_step [4..<n] (fold (\<lambda>i rk. rk[i := key ! i]) [0..<16] rk)) = concat (map (aes_W key) [0..<n])
    \<and> length (fold expand_step [4..<n] (fold (\<lambda>i rk. rk[i := key ! i]) [0..<16] rk)) = 176"
  using assms(4,3)
proof (induction n rule: dec_induct)
  case base
  have c: "fold (\<lambda>i rk. rk[i := key ! i]) [0..<m] rk = take m key @ drop m rk" if "m \<le> 16" for m
    using that
  proof (induction m)
    case (Suc m)
    have "drop m rk = rk ! m # drop (Suc m) rk" using Suc.prems assms(2) by (simp add: Cons_nth_drop_Suc)
    then show ?case using Suc assms(1) list_update_length [of "take m key" "rk ! m" "drop (Suc m) rk" "key ! m"]
      by (simp add: take_Suc_conv_app_nth)
  qed simp
  have "take 16 key = concat (map (aes_W key) [0, 1, 2, 3])"
  proof -
    have "concat (map (aes_W key) [0, 1, 2, 3]) = [key ! 0, key ! 1, key ! 2, key ! 3, key ! 4, key ! 5, key ! 6, key ! 7] @
        [key ! 8, key ! 9, key ! 10, key ! 11, key ! 12, key ! 13, key ! 14, key ! 15]"
      by (simp add: aes_W.simps numeral_2_eq_2)
    also have "\<dots> = key" by (rule list16 [OF assms(1), symmetric])
    finally show ?thesis using assms(1) by simp
  qed
  then show ?case using assms(1,2) c [of 16] by (simp add: upt_4)
next
  case (step n)
  then show ?case using expand_step_word [of n _ key] by simp
qed

lemma expand_key_words:
  assumes "length key = 16" "length rk = 176"
  shows "aes128_expand_key key rk = concat (map (aes_W key) [0..<44])"
proof -
  have "44 \<le> (44 :: nat)" "4 \<le> (44 :: nat)" by simp_all
  note st = expand_steps [OF assms this]
  have "take (44 * 4) (aes128_expand_key key rk) = aes128_expand_key key rk"
    using conjunct2 [OF st] by (intro take_all) (simp add: aes128_expand_key_def del: upt_rec_numeral)
  then show ?thesis using conjunct1 [OF st] by (simp only: aes128_expand_key_def Let_def)
qed

section \<open>The transforms are bijections\<close>

lemma sbox_table: "map (\<lambda>x. RSBOX ! unat x) SBOX = map word_of_nat [0..<256] \<and> length SBOX = 256"
  by code_simp

lemma rsbox_sbox: "RSBOX ! unat (SBOX ! unat x) = x"
proof -
  have x: "unat x < 256" using unsigned_less [of x] by simp
  have l: "length SBOX = 256" and t: "map (\<lambda>x. RSBOX ! unat x) SBOX = map word_of_nat [0..<256]"
    using sbox_table by blast+
  have "RSBOX ! unat (SBOX ! unat x) = map (\<lambda>x. RSBOX ! unat x) SBOX ! unat x"
    using x l by (subst nth_map) (simp_all only:)
  also have "\<dots> = word_of_nat (unat x)"
    unfolding t using x by (subst nth_map) (simp_all only: length_upt nth_upt, simp_all)
  finally show ?thesis by simp
qed

lemma length_rounds [simp]:
  "length (add_round_key st rk r) = 16" "length (sub_bytes st) = 16" "length (inv_sub_bytes st) = 16"
  by (simp_all add: add_round_key_def sub_bytes_def inv_sub_bytes_def)

lemma length_shift_rows [simp]: "length (shift_rows st) = length st" "length (inv_shift_rows st) = length st"
  by (simp_all add: shift_rows_def inv_shift_rows_def Let_def)

lemma length_mix_columns [simp]: "length (mix_columns st) = length st" "length (inv_mix_columns st) = length st"
proof -
  have "length (fold mix_column ks st) = length st" "length (fold inv_mix_column ks st) = length st" for ks
    by (induction ks arbitrary: st) (simp_all add: mix_column_def inv_mix_column_def Let_def)
  then show "length (mix_columns st) = length st" "length (inv_mix_columns st) = length st"
    by (simp_all add: mix_columns_def inv_mix_columns_def)
qed

lemma inv_sub_bytes_sub_bytes: "length st = 16 \<Longrightarrow> inv_sub_bytes (sub_bytes st) = st"
  by (intro nth_equalityI) (simp_all add: inv_sub_bytes_def sub_bytes_def rsbox_sbox del: upt_rec_numeral)

lemma add_round_key_twice: "length st = 16 \<Longrightarrow> add_round_key (add_round_key st rk r) rk r = st"
  by (intro nth_equalityI) (simp_all add: add_round_key_def xor.assoc del: upt_rec_numeral)

lemma list16_cases:
  assumes "length (st :: 'a list) = 16"
  obtains a0 a1 a2 a3 a4 a5 a6 a7 a8 a9 a10 a11 a12 a13 a14 a15 where "st = [a0, a1, a2, a3, a4, a5, a6, a7] @ [a8, a9, a10, a11, a12, a13, a14, a15]"
  using list16 [OF assms] by blast

lemma inv_shift_rows_shift_rows: "length st = 16 \<Longrightarrow> inv_shift_rows (shift_rows st) = st"
  by (erule list16_cases) (simp add: shift_rows_def inv_shift_rows_def Let_def)

text \<open>Multiplication by the constants of the inverse transform, as repeated doubling.\<close>

lemma xtime_bit: "xtime a = push_bit 1 a XOR (if bit a 7 then 0x1b else 0)"
  by (simp add: xtime_def and_one_eq mod_2_eq_odd bit_iff_odd_drop_bit)

lemma gf_mul_step_eq:
  "gf_mul_step (r, a, b) = (if b AND 1 \<noteq> 0 then r XOR a else r, xtime a, drop_bit 1 b)"
proof -
  have "a AND 0x80 = 0 \<longleftrightarrow> \<not> bit a 7" using and_exp_eq_0_iff_not_bit [of a 7] by simp
  then show ?thesis by (simp add: gf_mul_step_def xtime_bit Let_def)
qed

lemma funpow_8: "(f ^^ 8) x = f (f (f (f (f (f (f (f x)))))))"
  by (simp add: eval_nat_numeral)

lemma gf_mul_consts:
  "gf_mul a 9 = a XOR xtime (xtime (xtime a))"
  "gf_mul a 11 = a XOR xtime a XOR xtime (xtime (xtime a))"
  "gf_mul a 13 = a XOR xtime (xtime a) XOR xtime (xtime (xtime a))"
  "gf_mul a 14 = xtime a XOR xtime (xtime a) XOR xtime (xtime (xtime a))"
  by (simp_all add: gf_mul_def funpow_8 gf_mul_step_eq xor.assoc)

lemma xtime_xor: "xtime (a XOR b) = xtime a XOR xtime b"
proof -
  have "push_bit 1 (a XOR b) = push_bit 1 a XOR push_bit 1 b" by (rule push_bit_xor)
  then show ?thesis by (simp add: xtime_bit bit_xor_iff xor.assoc xor.left_commute xor.commute)
qed

lemma xor_left_self: "x XOR (x XOR y) = (y :: u8)"
  by (simp add: xor.assoc [symmetric])

lemmas xor_ac = xor.assoc xor.commute xor.left_commute xor_left_self

definition mix4 :: "u8 \<Rightarrow> u8 \<Rightarrow> u8 \<Rightarrow> u8 \<Rightarrow> bytes" where
  "mix4 a0 a1 a2 a3 = [xtime a0 XOR (xtime a1 XOR a1) XOR a2 XOR a3, a0 XOR xtime a1 XOR (xtime a2 XOR a2) XOR a3,
     a0 XOR a1 XOR xtime a2 XOR (xtime a3 XOR a3), (xtime a0 XOR a0) XOR a1 XOR a2 XOR xtime a3]"

definition inv_mix4 :: "u8 \<Rightarrow> u8 \<Rightarrow> u8 \<Rightarrow> u8 \<Rightarrow> bytes" where
  "inv_mix4 a0 a1 a2 a3 =
     [gf_mul a0 14 XOR gf_mul a1 11 XOR gf_mul a2 13 XOR gf_mul a3 9,
      gf_mul a0 9 XOR gf_mul a1 14 XOR gf_mul a2 11 XOR gf_mul a3 13,
      gf_mul a0 13 XOR gf_mul a1 9 XOR gf_mul a2 14 XOR gf_mul a3 11,
      gf_mul a0 11 XOR gf_mul a1 13 XOR gf_mul a2 9 XOR gf_mul a3 14]"

lemma mix_columns_cols: "mix_columns ([a0, a1, a2, a3, a4, a5, a6, a7] @ [a8, a9, a10, a11, a12, a13, a14, a15]) = mix4 a0 a1 a2 a3 @ mix4 a4 a5 a6 a7 @ mix4 a8 a9 a10 a11 @ mix4 a12 a13 a14 a15"
  by (simp add: mix_columns_def upt_4 mix_column_def mix4_def Let_def)

lemma inv_mix_columns_cols: "inv_mix_columns ([a0, a1, a2, a3, a4, a5, a6, a7] @ [a8, a9, a10, a11, a12, a13, a14, a15]) = inv_mix4 a0 a1 a2 a3 @ inv_mix4 a4 a5 a6 a7 @ inv_mix4 a8 a9 a10 a11 @ inv_mix4 a12 a13 a14 a15"
  by (simp add: inv_mix_columns_def upt_4 inv_mix_column_def inv_mix4_def Let_def)

lemma inv_mix4_mix4:
  "mix4 a0 a1 a2 a3 = [b0, b1, b2, b3] \<Longrightarrow> inv_mix4 b0 b1 b2 b3 = [a0, a1, a2, a3]"
  by (auto simp: mix4_def inv_mix4_def gf_mul_consts xtime_xor xor_ac)

lemma mix4_cases: obtains b0 b1 b2 b3 where "mix4 a0 a1 a2 a3 = [b0, b1, b2, b3]"
  by (simp add: mix4_def)

lemma inv_mix_columns_mix_columns: "length st = 16 \<Longrightarrow> inv_mix_columns (mix_columns st) = st"
proof (erule list16_cases)
  fix a0 a1 a2 a3 a4 a5 a6 a7 a8 a9 a10 a11 a12 a13 a14 a15
  assume st: "st = [a0, a1, a2, a3, a4, a5, a6, a7] @ [a8, a9, a10, a11, a12, a13, a14, a15]"
  obtain b0 b1 b2 b3 where b: "mix4 a0 a1 a2 a3 = [b0, b1, b2, b3]" by (rule mix4_cases)
  obtain c0 c1 c2 c3 where c: "mix4 a4 a5 a6 a7 = [c0, c1, c2, c3]" by (rule mix4_cases)
  obtain d0 d1 d2 d3 where d: "mix4 a8 a9 a10 a11 = [d0, d1, d2, d3]" by (rule mix4_cases)
  obtain e0 e1 e2 e3 where e: "mix4 a12 a13 a14 a15 = [e0, e1, e2, e3]" by (rule mix4_cases)
  have "mix_columns st = [b0, b1, b2, b3, c0, c1, c2, c3] @ [d0, d1, d2, d3, e0, e1, e2, e3]"
    unfolding st mix_columns_cols b c d e by simp
  then show "inv_mix_columns (mix_columns st) = st"
    unfolding st by (simp only: inv_mix_columns_cols inv_mix4_mix4 [OF b] inv_mix4_mix4 [OF c]
      inv_mix4_mix4 [OF d] inv_mix4_mix4 [OF e]) simp
qed

section \<open>A block round trip\<close>

lemma dec_round_enc_round:
  assumes "length st = 16"
  shows "inv_mix_columns (add_round_key (enc_round rk r st) rk r) = shift_rows (sub_bytes st)"
  by (simp add: enc_round_def add_round_key_twice inv_mix_columns_mix_columns)

lemma length_enc_round [simp]: "length (enc_round rk r st) = 16"
  by (simp add: enc_round_def)

text \<open>Undoing the rounds \<open>1..n\<close> in reverse leaves what entered round 1, with its S-box and row shift applied.\<close>

lemma rounds_undone:
  "length st = 16 \<Longrightarrow>
   fold (dec_round rk) (rev [1..<Suc n]) (shift_rows (sub_bytes (fold (enc_round rk) [1..<Suc n] st))) = shift_rows (sub_bytes st)"
proof (induction n)
  case (Suc n)
  let ?s = "fold (enc_round rk) [1..<Suc n] st"
  have l: "length ?s = 16"
  proof -
    have "length (fold (enc_round rk) ks st) = 16" for ks using Suc.prems by (induction ks arbitrary: st) simp_all
    then show ?thesis .
  qed
  have e: "fold (enc_round rk) [1..<Suc (Suc n)] st = enc_round rk (Suc n) ?s" by simp
  have d: "fold (dec_round rk) (rev [1..<Suc (Suc n)]) x = fold (dec_round rk) (rev [1..<Suc n]) (dec_round rk (Suc n) x)" for x
    by simp
  have "dec_round rk (Suc n) (shift_rows (sub_bytes (enc_round rk (Suc n) ?s))) = shift_rows (sub_bytes ?s)"
    unfolding dec_round_def using l
    by (simp add: inv_shift_rows_shift_rows inv_sub_bytes_sub_bytes dec_round_enc_round)
  then show ?case unfolding e d using Suc by simp
qed simp

lemma decrypt_encrypt_block:
  assumes "length blk = 16"
  shows "aes128_decrypt_block rk (aes128_encrypt_block rk blk) = blk"
proof -
  let ?s = "fold (enc_round rk) [1..<10] (add_round_key blk rk 0)"
  have "aes128_decrypt_block rk (aes128_encrypt_block rk blk)
      = add_round_key (inv_sub_bytes (inv_shift_rows (fold (dec_round rk) (rev [1..<10]) (shift_rows (sub_bytes ?s))))) rk 0"
    unfolding aes128_decrypt_block_def aes128_encrypt_block_def Let_def
    by (subst add_round_key_twice) simp_all
  also have "\<dots> = add_round_key (inv_sub_bytes (inv_shift_rows (shift_rows (sub_bytes (add_round_key blk rk 0))))) rk 0"
    using rounds_undone [of "add_round_key blk rk 0" rk 9] by simp
  also have "\<dots> = blk"
    using assms by (simp add: inv_shift_rows_shift_rows inv_sub_bytes_sub_bytes add_round_key_twice)
  finally show ?thesis .
qed

lemma length_encrypt_block [simp]: "length (aes128_encrypt_block rk blk) = 16"
  by (simp add: aes128_encrypt_block_def Let_def)

section \<open>Chaining round trip\<close>

lemma cbc_round_trip_blocks:
  assumes "length iv = 16" "take (n * 16) ct = snd (fold (cbc_enc_step rk inp) (map (\<lambda>k. k * 16) [0..<n]) (iv, []))"
    "n * 16 \<le> length ct" "n * 16 \<le> length inp"
  shows "fold (cbc_dec_step rk iv ct) (map (\<lambda>k. k * 16) [0..<n]) [] = take (n * 16) inp
    \<and> length (snd (fold (cbc_enc_step rk inp) (map (\<lambda>k. k * 16) [0..<n]) (iv, []))) = n * 16
    \<and> fst (fold (cbc_enc_step rk inp) (map (\<lambda>k. k * 16) [0..<n]) (iv, []))
      = (if n = 0 then iv else map (\<lambda>i. ct ! (n * 16 - 16 + i)) [0..<16])"
  using assms(2-4)
proof (induction n)
  case (Suc n)
  let ?e = "fold (cbc_enc_step rk inp) (map (\<lambda>k. k * 16) [0..<n]) (iv, [])"
  let ?b = "map (\<lambda>i. fst ?e ! i XOR inp ! (n * 16 + i)) [0..<16]"
  let ?c = "aes128_encrypt_block rk ?b"
  have e: "fold (cbc_enc_step rk inp) (map (\<lambda>k. k * 16) [0..<Suc n]) (iv, []) = (?c, snd ?e @ ?c)"
    by (simp add: cbc_enc_step_def split_beta Let_def del: upt_rec_numeral)
  then have ct: "take (Suc n * 16) ct = snd ?e @ ?c" using Suc.prems(1) by simp
  have "length (take (Suc n * 16) ct) = Suc n * 16" using Suc.prems(2) by simp
  then have le: "length (snd ?e) = n * 16" unfolding ct by simp
  have "take (n * 16) ct = take (n * 16) (take (Suc n * 16) ct)" by (simp add: min_def)
  then have p: "take (n * 16) ct = snd ?e" unfolding ct using le by simp
  have "drop (n * 16) (take (Suc n * 16) ct) = ?c" unfolding ct using le by simp
  moreover have "drop (n * 16) (take (Suc n * 16) ct) = map (\<lambda>i. ct ! (n * 16 + i)) [0..<16]"
    using Suc.prems(2) by (intro nth_equalityI) (simp_all del: upt_rec_numeral)
  ultimately have c: "map (\<lambda>i. ct ! (n * 16 + i)) [0..<16] = ?c" by simp
  note IH = Suc.IH [OF p]
  have IHs: "fold (cbc_dec_step rk iv ct) (map (\<lambda>k. k * 16) [0..<n]) [] = take (n * 16) inp"
    "fst ?e = (if n = 0 then iv else map (\<lambda>i. ct ! (n * 16 - 16 + i)) [0..<16])"
    using IH Suc.prems(2,3) by simp_all
  have pl: "aes128_decrypt_block rk ?c = ?b" by (rule decrypt_encrypt_block) simp
  have x: "(a XOR b) XOR a = (b :: u8)" for a b by (simp add: xor_ac)
  have "(if n * 16 = 0 then map (\<lambda>i. ?b ! i XOR iv ! i) [0..<16]
     else map (\<lambda>i. ?b ! i XOR ct ! (n * 16 - 16 + i)) [0..<16]) = map (\<lambda>i. inp ! (n * 16 + i)) [0..<16]"
    unfolding IHs(2) by (auto simp: x simp del: upt_rec_numeral)
  then have "cbc_dec_step rk iv ct (n * 16) (take (n * 16) inp) = take (n * 16) inp @ map (\<lambda>i. inp ! (n * 16 + i)) [0..<16]"
    unfolding cbc_dec_step_def c pl Let_def by simp
  also have "\<dots> = take (Suc n * 16) inp"
    using Suc.prems(3) by (intro nth_equalityI) (auto simp: nth_append simp del: upt_rec_numeral)
  finally have "fold (cbc_dec_step rk iv ct) (map (\<lambda>k. k * 16) [0..<Suc n]) [] = take (Suc n * 16) inp"
    by (simp add: IHs(1) del: upt_rec_numeral)
  then show ?case unfolding e using le c by simp
qed simp

lemma iv_copy: "length iv = 16 \<Longrightarrow> map (\<lambda>i. iv ! i) [0..<16] = iv"
  by (metis map_nth)

lemma cbc_round_trip:
  assumes "length iv = 16" "length msg = n * 16"
  shows "length (aes128_cbc_encrypt rk iv msg (length msg)) = length msg
    \<and> aes128_cbc_decrypt rk iv (aes128_cbc_encrypt rk iv msg (length msg)) (length msg) = msg"
proof -
  have o: "block_offsets (length msg) = map (\<lambda>k. k * 16) [0..<n]" by (simp add: block_offsets_def assms(2))
  let ?ct = "snd (fold (cbc_enc_step rk msg) (map (\<lambda>k. k * 16) [0..<n]) (iv, []))"
  have l: "length (snd (fold (cbc_enc_step rk msg) (map (\<lambda>k. k * 16) [0..<m]) s)) = length (snd s) + m * 16" for m s
    by (induction m) (simp_all add: cbc_enc_step_def split_beta Let_def del: upt_rec_numeral)
  have ct: "aes128_cbc_encrypt rk iv msg (length msg) = ?ct"
    unfolding aes128_cbc_encrypt_def o iv_copy [OF assms(1)] ..
  have "take (n * 16) ?ct = ?ct" "n * 16 \<le> length ?ct" using l [of n "(iv, [])"] by simp_all
  from cbc_round_trip_blocks [OF assms(1) this] show ?thesis
    unfolding ct aes128_cbc_decrypt_def o using assms(2) by simp
qed

section \<open>Properties\<close>

text \<open>
  The round keys \<^verbatim>\<open>aes128_expand_key\<close> computes in place are the words of the schedule of FIPS
  197, in order, whatever the array held, and \<^verbatim>\<open>aes128_decrypt_block\<close> undoes \<^verbatim>\<open>aes128_encrypt_block\<close> on
  every block, for every array of round keys.
\<close>
theorem aes_block_correct:
  assumes "length key = 16" "length rk = 176" "length blk = 16"
  shows "aes128_expand_key key rk = concat (map (aes_W key) [0..<44])
    \<and> aes128_decrypt_block rk' (aes128_encrypt_block rk' blk) = blk \<and> length (aes128_encrypt_block rk' blk) = 16"
  using expand_key_words [OF assms(1,2)] decrypt_encrypt_block [OF assms(3)] by simp

theorem aes_block_correct_witness:
  "aes128_decrypt_block (replicate 176 7) (aes128_encrypt_block (replicate 176 7) (replicate 16 9)) = replicate 16 9"
  using aes_block_correct [of "replicate 16 1" "replicate 176 0" "replicate 16 9" "replicate 176 7"] by simp

text \<open>
  C16. The chained modes are inverse to each other on messages of whole blocks: decrypting what
  \<^verbatim>\<open>aes128_cbc_encrypt\<close> wrote, with the same keys and the same initial block, gives the message back, and
  the ciphertext is as long as the message.
\<close>
theorem aes_cbc_roundtrip:
  assumes "length iv = 16" "length msg mod 16 = 0"
  shows "length (aes128_cbc_encrypt rk iv msg (length msg)) = length msg
    \<and> aes128_cbc_decrypt rk iv (aes128_cbc_encrypt rk iv msg (length msg)) (length msg) = msg"
proof -
  obtain n where "length msg = n * 16" using assms(2) by (auto simp: mod_eq_0_iff_dvd dvd_def mult.commute)
  then show ?thesis by (rule cbc_round_trip [OF assms(1)])
qed

theorem aes_cbc_roundtrip_witness:
  "aes128_cbc_decrypt (replicate 176 5) (replicate 16 1) (aes128_cbc_encrypt (replicate 176 5) (replicate 16 1) (replicate 32 8) 32) 32
     = replicate 32 8"
  using aes_cbc_roundtrip [of "replicate 16 1" "replicate 32 8" "replicate 176 5"] by simp

end
