(* ===== verification/Gcm.thy ===== *)
theory Gcm
  imports Aes
begin

text \<open>
  AES-128 in counter mode with its authentication tag, \<^verbatim>\<open>kernel/crypto/gcm.c\<close>. Buffers are lists of bytes,
  a length is the length of its list.
\<close>

section \<open>The field of the tag\<close>

definition shift_right_block :: "bytes \<Rightarrow> bytes" where
  "shift_right_block v =
     (let v = fold (\<lambda>j v. v[j := drop_bit 1 (v ! j) OR push_bit 7 (v ! (j - 1) AND 1)]) (rev [1..<16]) v
      in v[0 := drop_bit 1 (v ! 0)])"

definition gcm_mul_step :: "bytes \<Rightarrow> nat \<Rightarrow> bytes \<times> bytes \<Rightarrow> bytes \<times> bytes" where
  "gcm_mul_step x i = (\<lambda>(z, v).
     let z = (if drop_bit (7 - i mod 8) (x ! (i div 8)) AND 1 \<noteq> 0 then map (\<lambda>j. z ! j XOR v ! j) [0..<16] else z);
         lsb = v ! 15 AND 1;
         v = shift_right_block v;
         v = (if lsb \<noteq> 0 then v[0 := v ! 0 XOR 0xE1] else v)
     in (z, v))"

definition gcm_gf_mul :: "bytes \<Rightarrow> bytes \<Rightarrow> bytes" where
  "gcm_gf_mul x y = fst (fold (gcm_mul_step x) [0..<128] (replicate 16 0, map (\<lambda>i. y ! i) [0..<16]))"

section \<open>The hash of the two streams\<close>

definition xor_block :: "bytes \<Rightarrow> bytes \<Rightarrow> bytes" where
  "xor_block x b = map (\<lambda>i. x ! i XOR b ! i) [0..<16]"

definition ghash_step :: "bytes \<Rightarrow> bytes \<Rightarrow> nat \<Rightarrow> bytes \<Rightarrow> bytes" where
  "ghash_step h d off x =
     (let n = min 16 (length d - off);
          block = fold (\<lambda>i b. b[i := d ! (off + i)]) [0..<n] (replicate 16 0)
      in gcm_gf_mul (xor_block x block) h)"

definition ghash_stream :: "bytes \<Rightarrow> bytes \<Rightarrow> bytes \<Rightarrow> bytes" where
  "ghash_stream h d x = fold (ghash_step h d) (block_offsets (length d)) x"

definition length_block :: "nat \<Rightarrow> nat \<Rightarrow> bytes" where
  "length_block aad_len ct_len =
     map (\<lambda>i. ucast (drop_bit (56 - i * 8) (word_of_nat aad_len * 8 :: u64))) [0..<8]
     @ map (\<lambda>i. ucast (drop_bit (56 - i * 8) (word_of_nat ct_len * 8 :: u64))) [0..<8]"

definition gcm_ghash :: "bytes \<Rightarrow> bytes \<Rightarrow> bytes \<Rightarrow> bytes" where
  "gcm_ghash h aad ct =
     (let x = ghash_stream h ct (ghash_stream h aad (replicate 16 0))
      in gcm_gf_mul (xor_block x (length_block (length aad) (length ct))) h)"

section \<open>Counter mode\<close>

text \<open>\<^verbatim>\<open>for (i = 15; i >= 12; i--) if (++ctr[i]) break;\<close>\<close>

fun bump :: "nat list \<Rightarrow> bytes \<Rightarrow> bytes" where
  "bump [] c = c"
| "bump (i # is) c = (let c' = c[i := c ! i + 1] in if c' ! i \<noteq> 0 then c' else bump is c')"

definition incr_ctr :: "bytes \<Rightarrow> bytes" where
  "incr_ctr c = bump [15, 14, 13, 12] c"

definition gcm_ctr_step :: "bytes \<Rightarrow> bytes \<Rightarrow> nat \<Rightarrow> bytes \<times> bytes \<Rightarrow> bytes \<times> bytes" where
  "gcm_ctr_step rk inp off = (\<lambda>(ctr, out).
     let ks = aes128_encrypt_block rk ctr; n = min 16 (length inp - off)
     in (incr_ctr ctr, out @ map (\<lambda>i. inp ! (off + i) XOR ks ! i) [0..<n]))"

definition gcm_ctr :: "bytes \<Rightarrow> bytes \<Rightarrow> bytes \<Rightarrow> bytes" where
  "gcm_ctr rk ctr inp = snd (fold (gcm_ctr_step rk inp) (block_offsets (length inp)) (ctr, []))"

definition gcm_j0 :: "bytes \<Rightarrow> bytes" where
  "gcm_j0 nonce = map (\<lambda>i. nonce ! i) [0..<12] @ [0, 0, 0, 1]"

section \<open>Sealing and opening\<close>

definition aes128_gcm_encrypt :: "bytes \<Rightarrow> bytes \<Rightarrow> bytes \<Rightarrow> bytes \<Rightarrow> bytes \<times> bytes" where
  "aes128_gcm_encrypt rk nonce aad pt =
     (let h = aes128_encrypt_block rk (replicate 16 0);
          j0 = gcm_j0 nonce;
          ct = gcm_ctr rk (incr_ctr j0) pt;
          s = gcm_ghash h aad ct;
          ej0 = aes128_encrypt_block rk j0
      in (ct, xor_block s ej0))"

definition aes128_gcm_decrypt :: "bytes \<Rightarrow> bytes \<Rightarrow> bytes \<Rightarrow> bytes \<Rightarrow> bytes \<Rightarrow> bytes option" where
  "aes128_gcm_decrypt rk nonce aad ct tag =
     (let h = aes128_encrypt_block rk (replicate 16 0);
          j0 = gcm_j0 nonce;
          s = gcm_ghash h aad ct;
          ej0 = aes128_encrypt_block rk j0;
          diff = fold (\<lambda>i d. d OR (s ! i XOR ej0 ! i XOR tag ! i)) [0..<16] 0
      in if diff \<noteq> 0 then None else Some (gcm_ctr rk (incr_ctr j0) ct))"

section \<open>Counter mode is its own inverse\<close>

text \<open>The key stream: the block at offset \<open>16 * k\<close> is the encryption of the \<open>k\<close>-th counter.\<close>

definition key_stream :: "bytes \<Rightarrow> bytes \<Rightarrow> nat \<Rightarrow> u8" where
  "key_stream rk ctr i = aes128_encrypt_block rk ((incr_ctr ^^ (i div 16)) ctr) ! (i mod 16)"

lemma ctr_prefix:
  "n \<le> (length inp + 15) div 16 \<Longrightarrow>
   fold (gcm_ctr_step rk inp) (map (\<lambda>k. k * 16) [0..<n]) (ctr, [])
   = ((incr_ctr ^^ n) ctr, map (\<lambda>i. inp ! i XOR key_stream rk ctr i) [0..<min (n * 16) (length inp)])"
proof (induction n)
  case (Suc n)
  let ?m = "min 16 (length inp - n * 16)"
  have n: "n * 16 < length inp" using Suc.prems by simp
  have "map (\<lambda>i. inp ! (n * 16 + i) XOR aes128_encrypt_block rk ((incr_ctr ^^ n) ctr) ! i) [0..<?m]
      = map (\<lambda>i. inp ! i XOR key_stream rk ctr i) [n * 16..<n * 16 + ?m]"
    by (intro nth_equalityI) (simp_all add: key_stream_def)
  moreover have "min (n * 16) (length inp) = n * 16" "n * 16 + ?m = min (Suc n * 16) (length inp)" using n by simp_all
  moreover have "gcm_ctr_step rk inp (n * 16) ((incr_ctr ^^ n) ctr, out) = ((incr_ctr ^^ Suc n) ctr,
      out @ map (\<lambda>i. inp ! (n * 16 + i) XOR aes128_encrypt_block rk ((incr_ctr ^^ n) ctr) ! i) [0..<?m])" for out
    by (simp add: gcm_ctr_step_def Let_def)
  moreover have "[0..<n * 16 + ?m] = [0..<n * 16] @ [n * 16..<n * 16 + ?m]" by (rule upt_add_eq_append) simp
  moreover have "[0..<Suc n] = [0..<n] @ [n]" by simp
  ultimately show ?case
    using Suc by (simp only: map_append fold_append list.map fold.simps comp_apply id_apply)
qed simp

lemma gcm_ctr_stream: "gcm_ctr rk ctr inp = map (\<lambda>i. inp ! i XOR key_stream rk ctr i) [0..<length inp]"
proof -
  have "length inp \<le> (length inp + 15) div 16 * 16" by linarith
  then have "min ((length inp + 15) div 16 * 16) (length inp) = length inp" by simp
  then show ?thesis unfolding gcm_ctr_def block_offsets_def by (simp add: ctr_prefix)
qed

lemma length_gcm_ctr [simp]: "length (gcm_ctr rk ctr inp) = length inp"
  by (simp add: gcm_ctr_stream)

lemma gcm_ctr_twice: "gcm_ctr rk ctr (gcm_ctr rk ctr inp) = inp"
  unfolding gcm_ctr_stream by (intro nth_equalityI) (simp_all add: xor.assoc)

section \<open>The tag\<close>

lemma fold_or_zero: "fold (\<lambda>i d. d OR f i) is (d :: u8) = 0 \<longleftrightarrow> d = 0 \<and> (\<forall>i \<in> set is. f i = 0)"
  by (induction "is" arbitrary: d) (auto simp: or_eq_0_iff)

lemma xor_zero_iff: "a XOR b XOR c = 0 \<longleftrightarrow> c = a XOR (b :: u8)"
proof
  assume "a XOR b XOR c = 0"
  then have "(a XOR b) XOR ((a XOR b) XOR c) = a XOR b" by (simp add: xor.assoc)
  then show "c = a XOR b" by (simp only: xor_left_self)
next
  assume "c = a XOR b"
  then show "a XOR b XOR c = 0" by (simp add: xor_ac)
qed

lemma decrypt_iff_tag:
  assumes "length tag = 16"
  shows "aes128_gcm_decrypt rk nonce aad ct tag =
    (if tag = xor_block (gcm_ghash (aes128_encrypt_block rk (replicate 16 0)) aad ct) (aes128_encrypt_block rk (gcm_j0 nonce))
     then Some (gcm_ctr rk (incr_ctr (gcm_j0 nonce)) ct) else None)"
proof -
  let ?s = "gcm_ghash (aes128_encrypt_block rk (replicate 16 0)) aad ct"
  let ?e = "aes128_encrypt_block rk (gcm_j0 nonce)"
  have "fold (\<lambda>i d. d OR (?s ! i XOR ?e ! i XOR tag ! i)) [0..<16] 0 = 0 \<longleftrightarrow> (\<forall>i < 16. ?s ! i XOR ?e ! i XOR tag ! i = 0)"
    by (subst fold_or_zero) (auto simp del: upt_rec_numeral)
  also have "\<dots> \<longleftrightarrow> (\<forall>i < 16. tag ! i = ?s ! i XOR ?e ! i)"
    by (simp add: xor_zero_iff)
  also have "\<dots> \<longleftrightarrow> tag = xor_block ?s ?e"
    using assms by (auto simp: xor_block_def list_eq_iff_nth_eq simp del: upt_rec_numeral)
  finally show ?thesis by (simp add: aes128_gcm_decrypt_def Let_def del: upt_rec_numeral)
qed

lemma length_xor_block [simp]: "length (xor_block a b) = 16"
  by (simp add: xor_block_def)

section \<open>Properties\<close>

text \<open>
  C17. What \<^verbatim>\<open>aes128_gcm_encrypt\<close> seals, \<^verbatim>\<open>aes128_gcm_decrypt\<close> opens to the same text under the same
  key, nonce and associated data, for texts of every length; and a tag that differs from the one computed
  over the ciphertext and the associated data in any byte is refused before any plaintext is written.
\<close>
theorem gcm_roundtrip:
  assumes "aes128_gcm_encrypt rk nonce aad pt = (ct, tag)"
  shows "aes128_gcm_decrypt rk nonce aad ct tag = Some pt \<and> length ct = length pt
    \<and> (\<forall>tag'. length tag' = 16 \<and> tag' \<noteq> tag \<longrightarrow> aes128_gcm_decrypt rk nonce aad ct tag' = None)"
proof -
  have ct: "ct = gcm_ctr rk (incr_ctr (gcm_j0 nonce)) pt"
    and tag: "tag = xor_block (gcm_ghash (aes128_encrypt_block rk (replicate 16 0)) aad ct) (aes128_encrypt_block rk (gcm_j0 nonce))"
    using assms by (auto simp: aes128_gcm_encrypt_def Let_def)
  have l: "length tag = 16" using tag by simp
  show ?thesis
    using decrypt_iff_tag [OF l, of rk nonce aad ct] tag by (auto simp: decrypt_iff_tag ct gcm_ctr_twice)
qed

theorem gcm_roundtrip_witness:
  "let (ct, tag) = aes128_gcm_encrypt (replicate 176 3) (replicate 12 1) [7] [1, 2, 3]
   in aes128_gcm_decrypt (replicate 176 3) (replicate 12 1) [7] ct tag = Some [1, 2, 3]"
  using gcm_roundtrip [OF surjective_pairing, of "replicate 176 3" "replicate 12 1" "[7]" "[1, 2, 3]"]
  by (simp add: split_beta)

end
