(* ===== verification/Field25519.thy ===== *)
theory Field25519
  imports Icda_Prelude
begin

text \<open>
  The field of \<^verbatim>\<open>kernel/crypto/x25519.c\<close>: integers modulo \<open>2^255 - 19\<close> in five 51-bit limbs. The C array
  \<^verbatim>\<open>fe\<close> is a tuple of five 64-bit words and \<^verbatim>\<open>unsigned __int128\<close> a 128-bit word, so that every wrap-around
  of the code is one of the model.
\<close>

type_synonym u128 = "128 word"
type_synonym fe = "u64 \<times> u64 \<times> u64 \<times> u64 \<times> u64"

section \<open>The code\<close>

definition FE_MASK :: "'a::len word" where
  "FE_MASK = 0x0007FFFFFFFFFFFF"

definition ld8 :: "bytes \<Rightarrow> nat \<Rightarrow> u64" where
  "ld8 s p = fold (\<lambda>i r. push_bit 8 r OR ucast (s ! (p + i))) (rev [0..<8]) 0"

definition st8 :: "u64 \<Rightarrow> bytes" where
  "st8 v = fst (fold (\<lambda>_ (out, v). (out @ [ucast (v AND 0xFF)], drop_bit 8 v)) [0..<8] ([], v))"

definition fe_frombytes :: "bytes \<Rightarrow> fe" where
  "fe_frombytes s =
     (ld8 s 0 AND FE_MASK,
      drop_bit 3 (ld8 s 6) AND FE_MASK,
      drop_bit 6 (ld8 s 12) AND FE_MASK,
      drop_bit 1 (ld8 s 19) AND FE_MASK,
      drop_bit 12 (ld8 s 24) AND FE_MASK)"

definition fe_carry :: "u64 \<Rightarrow> u64 \<Rightarrow> u64 \<times> u64" where
  "fe_carry a b = (let c = drop_bit 51 a in (a AND FE_MASK, b + c))"

definition fe_tobytes :: "fe \<Rightarrow> bytes" where
  "fe_tobytes = (\<lambda>(h0, h1, h2, h3, h4).
     let (h1, h2) = fe_carry h1 h2;
         (h2, h3) = fe_carry h2 h3;
         (h3, h4) = fe_carry h3 h4;
         c = drop_bit 51 h4; h4 = h4 AND FE_MASK; h0 = h0 + c * 19;
         (h0, h1) = fe_carry h0 h1;
         q = drop_bit 51 (h0 + 19);
         q = drop_bit 51 (h1 + q);
         q = drop_bit 51 (h2 + q);
         q = drop_bit 51 (h3 + q);
         q = drop_bit 51 (h4 + q);
         h0 = h0 + 19 * q;
         (h0, h1) = fe_carry h0 h1;
         (h1, h2) = fe_carry h1 h2;
         (h2, h3) = fe_carry h2 h3;
         (h3, h4) = fe_carry h3 h4;
         h4 = h4 AND FE_MASK
     in st8 (h0 OR push_bit 51 h1) @ st8 (drop_bit 13 h1 OR push_bit 38 h2)
        @ st8 (drop_bit 26 h2 OR push_bit 25 h3) @ st8 (drop_bit 39 h3 OR push_bit 12 h4))"

definition fe_add :: "fe \<Rightarrow> fe \<Rightarrow> fe" where
  "fe_add = (\<lambda>(f0, f1, f2, f3, f4) (g0, g1, g2, g3, g4). (f0 + g0, f1 + g1, f2 + g2, f3 + g3, f4 + g4))"

definition fe_sub :: "fe \<Rightarrow> fe \<Rightarrow> fe" where
  "fe_sub = (\<lambda>(f0, f1, f2, f3, f4) (g0, g1, g2, g3, g4).
     (f0 + 0xFFFFFFFFFFFDA - g0, f1 + 0xFFFFFFFFFFFFE - g1, f2 + 0xFFFFFFFFFFFFE - g2,
      f3 + 0xFFFFFFFFFFFFE - g3, f4 + 0xFFFFFFFFFFFFE - g4))"

definition fe_reduce :: "u128 \<Rightarrow> u128 \<Rightarrow> u128 \<Rightarrow> u128 \<Rightarrow> u128 \<Rightarrow> fe" where
  "fe_reduce t0 t1 t2 t3 t4 =
     (let c = ucast (drop_bit 51 t0) :: u64; t1 = t1 + ucast c; t0 = t0 AND FE_MASK;
          c = ucast (drop_bit 51 t1) :: u64; t2 = t2 + ucast c; t1 = t1 AND FE_MASK;
          c = ucast (drop_bit 51 t2) :: u64; t3 = t3 + ucast c; t2 = t2 AND FE_MASK;
          c = ucast (drop_bit 51 t3) :: u64; t4 = t4 + ucast c; t3 = t3 AND FE_MASK;
          c = ucast (drop_bit 51 t4) :: u64; t0 = t0 + ucast c * 19; t4 = t4 AND FE_MASK;
          c = ucast (drop_bit 51 t0) :: u64; t1 = t1 + ucast c; t0 = t0 AND FE_MASK
      in (ucast t0, ucast t1, ucast t2, ucast t3, ucast t4))"

definition fe_mul :: "fe \<Rightarrow> fe \<Rightarrow> fe" where
  "fe_mul = (\<lambda>(f0, f1, f2, f3, f4) (g0, g1, g2, g3, g4).
     let m = (\<lambda>a b :: u64. ucast a * ucast b :: u128);
         t0 = m f0 g0 + 19 * (m f1 g4 + m f2 g3 + m f3 g2 + m f4 g1);
         t1 = m f0 g1 + m f1 g0 + 19 * (m f2 g4 + m f3 g3 + m f4 g2);
         t2 = m f0 g2 + m f1 g1 + m f2 g0 + 19 * (m f3 g4 + m f4 g3);
         t3 = m f0 g3 + m f1 g2 + m f2 g1 + m f3 g0 + 19 * m f4 g4;
         t4 = m f0 g4 + m f1 g3 + m f2 g2 + m f3 g1 + m f4 g0
     in fe_reduce t0 t1 t2 t3 t4)"

definition fe_sqr :: "fe \<Rightarrow> fe" where
  "fe_sqr = (\<lambda>(f0, f1, f2, f3, f4).
     let m = (\<lambda>a b :: u64. ucast a * ucast b :: u128);
         d0 = f0 * 2; d1 = f1 * 2; d2 = f2 * 2; d3 = f3 * 2;
         t0 = m f0 f0 + 19 * (m d1 f4 + m d2 f3);
         t1 = m d0 f1 + 19 * (m d2 f4 + m f3 f3);
         t2 = m d0 f2 + m f1 f1 + 19 * m d3 f4;
         t3 = m d0 f3 + m d1 f2 + 19 * m f4 f4;
         t4 = m d0 f4 + m d1 f3 + m f2 f2
     in fe_reduce t0 t1 t2 t3 t4)"

definition fe_mul121665 :: "fe \<Rightarrow> fe" where
  "fe_mul121665 = (\<lambda>(f0, f1, f2, f3, f4).
     let m = (\<lambda>a :: u64. ucast a * 121665 :: u128) in fe_reduce (m f0) (m f1) (m f2) (m f3) (m f4))"

definition fe_inv :: "fe \<Rightarrow> fe" where
  "fe_inv z =
     (let t0 = fe_sqr z;
          t1 = fe_sqr t0;
          t1 = fe_sqr t1;
          t1 = fe_mul z t1;
          t0 = fe_mul t0 t1;
          t2 = fe_sqr t0;
          t1 = fe_mul t1 t2;
          t2 = fe_sqr t1; t2 = (fe_sqr ^^ 4) t2;
          t1 = fe_mul t2 t1;
          t2 = fe_sqr t1; t2 = (fe_sqr ^^ 9) t2;
          t2 = fe_mul t2 t1;
          t3 = fe_sqr t2; t3 = (fe_sqr ^^ 19) t3;
          t2 = fe_mul t3 t2;
          t2 = fe_sqr t2; t2 = (fe_sqr ^^ 9) t2;
          t1 = fe_mul t2 t1;
          t2 = fe_sqr t1; t2 = (fe_sqr ^^ 49) t2;
          t2 = fe_mul t2 t1;
          t3 = fe_sqr t2; t3 = (fe_sqr ^^ 99) t3;
          t2 = fe_mul t3 t2;
          t2 = fe_sqr t2; t2 = (fe_sqr ^^ 49) t2;
          t1 = fe_mul t2 t1;
          t1 = fe_sqr t1; t1 = fe_sqr t1; t1 = fe_sqr t1; t1 = fe_sqr t1; t1 = fe_sqr t1
      in fe_mul t1 t0)"

definition fe_cswap :: "fe \<Rightarrow> fe \<Rightarrow> u32 \<Rightarrow> fe \<times> fe" where
  "fe_cswap = (\<lambda>(f0, f1, f2, f3, f4) (g0, g1, g2, g3, g4) swap.
     let mask = 0 - (ucast swap :: u64);
         x = (\<lambda>a b. let t = mask AND (a XOR b) in (a XOR t, b XOR t));
         (f0, g0) = x f0 g0; (f1, g1) = x f1 g1; (f2, g2) = x f2 g2; (f3, g3) = x f3 g3; (f4, g4) = x f4 g4
     in ((f0, f1, f2, f3, f4), (g0, g1, g2, g3, g4)))"

section \<open>What the limbs stand for\<close>

definition P25519 :: int where
  "P25519 = 2 ^ 255 - 19"

definition fe_val :: "fe \<Rightarrow> int" where
  "fe_val = (\<lambda>(h0, h1, h2, h3, h4). uint h0 + 2 ^ 51 * uint h1 + 2 ^ 102 * uint h2 + 2 ^ 153 * uint h3 + 2 ^ 204 * uint h4)"

definition limbs_below :: "int \<Rightarrow> fe \<Rightarrow> bool" where
  "limbs_below b = (\<lambda>(h0, h1, h2, h3, h4). uint h0 < b \<and> uint h1 < b \<and> uint h2 < b \<and> uint h3 < b \<and> uint h4 < b)"

text \<open>Reduced elements, results of a multiplication; loose ones, sums and differences of two.\<close>

definition reduced :: "fe \<Rightarrow> bool" where "reduced f \<longleftrightarrow> limbs_below (2 ^ 51 + 2 ^ 18) f"
definition loose :: "fe \<Rightarrow> bool" where "loose f \<longleftrightarrow> limbs_below (2 ^ 53) f"

lemmas limbs_defs = reduced_def loose_def limbs_below_def

lemma reduced_loose: "reduced f \<Longrightarrow> loose f"
  by (cases f) (auto simp: limbs_defs)

section \<open>Reduction\<close>

lemma uint_and_mask: "uint (t AND mask n :: 'a::len word) = uint t mod 2 ^ n"
  by (simp flip: take_bit_eq_mask take_bit_eq_mod unsigned_take_bit_eq)

lemma uint_mask51_128: "uint (t AND FE_MASK :: u128) = uint t mod 2 ^ 51"
  using uint_and_mask [of t 51] by (simp add: FE_MASK_def mask_eq_exp_minus_1)

lemma uint_mask51: "uint (t AND FE_MASK :: u64) = uint t mod 2 ^ 51"
  using uint_and_mask [of t 51] by (simp add: FE_MASK_def mask_eq_exp_minus_1)

lemma uint_less_power: "uint (w :: 'a::len word) < 2 ^ LENGTH('a)"
  by (rule unsigned_less)

lemma uint_drop: "uint (drop_bit n (t :: 'a::len word)) = uint t div 2 ^ n"
proof -
  have "take_bit LENGTH('a) (uint t) = uint t"
    by (rule take_bit_int_eq_self) (simp_all add: uint_less_power)
  then show ?thesis by (simp only: unsigned_drop_bit_eq) (simp only: drop_bit_eq_div)
qed

lemma uint_ucast_small: "uint w < 2 ^ LENGTH('b) \<Longrightarrow> uint (ucast (w :: 'a::len word) :: 'b::len word) = uint w"
  by (simp only: unsigned_ucast_eq) (simp add: take_bit_int_eq_self)

lemma uint_add_small: "uint a + uint b < 2 ^ LENGTH('a) \<Longrightarrow> uint (a + b :: 'a::len word) = uint a + uint b"
  by (simp add: uint_add_lem)

lemma uint_carry:
  assumes "uint (t :: u128) < 2 ^ 115"
  shows "uint (ucast (ucast (drop_bit 51 t) :: u64) :: u128) = uint t div 2 ^ 51" "uint t div 2 ^ 51 < 2 ^ 64"
proof -
  have d: "uint (drop_bit 51 t) = uint t div 2 ^ 51" by (rule uint_drop)
  show lt: "uint t div 2 ^ 51 < 2 ^ 64" using assms by simp
  then have "uint (ucast (drop_bit 51 t) :: u64) = uint t div 2 ^ 51"
    using d by (subst uint_ucast_small) simp_all
  then show "uint (ucast (ucast (drop_bit 51 t) :: u64) :: u128) = uint t div 2 ^ 51"
    using lt by (subst uint_ucast_small) simp_all
qed

lemma uint_add_carry:
  assumes "uint (s :: u128) < 2 ^ 114" "uint (t :: u128) < 2 ^ 115"
  shows "uint (s + ucast (ucast (drop_bit 51 t) :: u64)) = uint s + uint t div 2 ^ 51"
    "uint s + uint t div 2 ^ 51 < 2 ^ 115"
proof -
  note c = uint_carry [OF assms(2)]
  show b: "uint s + uint t div 2 ^ 51 < 2 ^ 115" using assms(1) c(2) by simp
  show "uint (s + ucast (ucast (drop_bit 51 t) :: u64)) = uint s + uint t div 2 ^ 51"
    using b by (subst uint_add_small) (simp_all add: c(1))
qed

lemma carry_identity:
  fixes t0 t1 t2 t3 t4 q0 q1 q2 q3 q4 q5 r0 r1 r2 r3 r4 s0 :: int
  assumes "t0 = 2 ^ 51 * q0 + r0" "t1 + q0 = 2 ^ 51 * q1 + r1" "t2 + q1 = 2 ^ 51 * q2 + r2"
    "t3 + q2 = 2 ^ 51 * q3 + r3" "t4 + q3 = 2 ^ 51 * q4 + r4" "r0 + q4 * 19 = 2 ^ 51 * q5 + s0"
  shows "s0 + 2 ^ 51 * (r1 + q5) + 2 ^ 102 * r2 + 2 ^ 153 * r3 + 2 ^ 204 * r4 + (2 ^ 255 - 19) * q4
    = t0 + 2 ^ 51 * t1 + 2 ^ 102 * t2 + 2 ^ 153 * t3 + 2 ^ 204 * t4"
proof -
  have t: "t4 = 2 ^ 51 * q4 + r4 - q3" "t3 = 2 ^ 51 * q3 + r3 - q2" "t2 = 2 ^ 51 * q2 + r2 - q1"
    "t1 = 2 ^ 51 * q1 + r1 - q0" "t0 = 2 ^ 51 * q0 + (2 ^ 51 * q5 + s0 - q4 * 19)"
    using assms by simp_all
  show ?thesis unfolding t by (simp add: algebra_simps)
qed

text \<open>Carrying once round the limbs keeps the value modulo the prime and leaves reduced limbs.\<close>

lemma fe_reduce_val:
  assumes "uint t0 < 2 ^ 114" "uint t1 < 2 ^ 114" "uint t2 < 2 ^ 114" "uint t3 < 2 ^ 114" "uint t4 < 2 ^ 114"
  shows "reduced (fe_reduce t0 t1 t2 t3 t4)
    \<and> fe_val (fe_reduce t0 t1 t2 t3 t4) mod P25519
      = (uint t0 + 2 ^ 51 * uint t1 + 2 ^ 102 * uint t2 + 2 ^ 153 * uint t3 + 2 ^ 204 * uint t4) mod P25519"
proof -
  define a0 where "a0 = t0"
  define a1 where "a1 = t1 + ucast (ucast (drop_bit 51 a0) :: u64)"
  define a2 where "a2 = t2 + ucast (ucast (drop_bit 51 a1) :: u64)"
  define a3 where "a3 = t3 + ucast (ucast (drop_bit 51 a2) :: u64)"
  define a4 where "a4 = t4 + ucast (ucast (drop_bit 51 a3) :: u64)"
  define b0 where "b0 = (a0 AND FE_MASK) + ucast (ucast (drop_bit 51 a4) :: u64) * 19"
  define b1 where "b1 = (a1 AND FE_MASK) + ucast (ucast (drop_bit 51 b0) :: u64)"
  have r: "fe_reduce t0 t1 t2 t3 t4 = (ucast (b0 AND FE_MASK), ucast b1, ucast (a2 AND FE_MASK), ucast (a3 AND FE_MASK), ucast (a4 AND FE_MASK))"
    by (simp add: fe_reduce_def Let_def b0_def b1_def a4_def a3_def a2_def a1_def a0_def)
  have u0: "uint a0 = uint t0" "uint a0 < 2 ^ 115" using assms(1) by (simp_all add: a0_def)
  have u1: "uint a1 = uint t1 + uint a0 div 2 ^ 51" "uint a1 < 2 ^ 115"
    using uint_add_carry [OF assms(2) u0(2)] by (simp_all add: a1_def)
  have u2: "uint a2 = uint t2 + uint a1 div 2 ^ 51" "uint a2 < 2 ^ 115"
    using uint_add_carry [OF assms(3) u1(2)] by (simp_all add: a2_def)
  have u3: "uint a3 = uint t3 + uint a2 div 2 ^ 51" "uint a3 < 2 ^ 115"
    using uint_add_carry [OF assms(4) u2(2)] by (simp_all add: a3_def)
  have u4: "uint a4 = uint t4 + uint a3 div 2 ^ 51" "uint a4 < 2 ^ 115"
    using uint_add_carry [OF assms(5) u3(2)] by (simp_all add: a4_def)
  have m0: "uint (a0 AND FE_MASK) = uint a0 mod 2 ^ 51" by (rule uint_mask51_128)
  have c4: "uint (ucast (ucast (drop_bit 51 a4) :: u64) :: u128) = uint a4 div 2 ^ 51" "uint a4 div 2 ^ 51 < 2 ^ 64"
    using uint_carry [OF u4(2)] by simp_all
  have w19: "uint (ucast (ucast (drop_bit 51 a4) :: u64) * 19 :: u128) = uint a4 div 2 ^ 51 * 19"
  proof -
    have "uint (ucast (ucast (drop_bit 51 a4) :: u64) :: u128) * uint (19 :: u128) < 2 ^ 128"
      using c4(2) unfolding c4(1) by simp
    then have "uint (ucast (ucast (drop_bit 51 a4) :: u64) * 19 :: u128) = uint (ucast (ucast (drop_bit 51 a4) :: u64) :: u128) * uint (19 :: u128)"
      by (intro iffD1 [OF uint_mult_lem]) simp
    then show ?thesis unfolding c4(1) by simp
  qed
  have m: "uint (a AND FE_MASK) < 2 ^ 51" for a :: u128 by (simp add: uint_mask51_128)
  have v0: "uint b0 = uint a0 mod 2 ^ 51 + uint a4 div 2 ^ 51 * 19" "uint b0 < 2 ^ 69"
  proof -
    have lt: "uint a0 mod 2 ^ 51 + uint a4 div 2 ^ 51 * 19 < 2 ^ 69"
      using c4(2) m [of a0] unfolding uint_mask51_128 by simp
    then show v: "uint b0 = uint a0 mod 2 ^ 51 + uint a4 div 2 ^ 51 * 19"
      unfolding b0_def by (subst uint_add_small) (simp_all add: w19 uint_mask51_128)
    then show "uint b0 < 2 ^ 69" using lt by simp
  qed
  have b0d: "uint b0 div 2 ^ 51 < 2 ^ 18" using v0(2) by simp
  have v1: "uint b1 = uint a1 mod 2 ^ 51 + uint b0 div 2 ^ 51"
    using uint_add_carry [of "a1 AND FE_MASK" b0] m [of a1] v0(2) by (simp add: b1_def uint_mask51_128)
  have b1lt: "uint b1 < 2 ^ 51 + 2 ^ 18"
    using v1 b0d m [of a1] unfolding uint_mask51_128 by simp
  have low: "uint (ucast (a AND FE_MASK) :: u64) = uint a mod 2 ^ 51" for a :: u128
    using m [of a] by (subst uint_ucast_small) (simp_all add: uint_mask51_128)
  have b1u: "uint (ucast b1 :: u64) = uint b1" using b1lt by (subst uint_ucast_small) simp_all
  have red: "reduced (fe_reduce t0 t1 t2 t3 t4)"
    unfolding r limbs_defs using b1lt by (simp add: low b1u add_increasing2 pos_mod_bound [THEN less_le_trans])
  let ?c = "uint a4 div 2 ^ 51"
  have d: "x = 2 ^ 51 * (x div 2 ^ 51) + x mod 2 ^ 51" for x :: int by (rule mult_div_mod_eq [symmetric])
  have val: "fe_val (fe_reduce t0 t1 t2 t3 t4) + P25519 * ?c
      = uint t0 + 2 ^ 51 * uint t1 + 2 ^ 102 * uint t2 + 2 ^ 153 * uint t3 + 2 ^ 204 * uint t4"
  proof -
    have e: "fe_val (fe_reduce t0 t1 t2 t3 t4) = uint b0 mod 2 ^ 51 + 2 ^ 51 * (uint a1 mod 2 ^ 51 + uint b0 div 2 ^ 51)
        + 2 ^ 102 * (uint a2 mod 2 ^ 51) + 2 ^ 153 * (uint a3 mod 2 ^ 51) + 2 ^ 204 * (uint a4 mod 2 ^ 51)"
      unfolding r fe_val_def by (simp only: prod.case low b1u v1)
    show ?thesis unfolding e P25519_def
      by (rule carry_identity [where ?q0.0 = "uint a0 div 2 ^ 51" and ?q1.0 = "uint a1 div 2 ^ 51" and ?q2.0 = "uint a2 div 2 ^ 51"
            and ?q3.0 = "uint a3 div 2 ^ 51" and ?r0.0 = "uint a0 mod 2 ^ 51"])
        (simp_all only: u0(1) [symmetric] u1(1) [symmetric] u2(1) [symmetric] u3(1) [symmetric] u4(1) [symmetric]
            v0(1) [symmetric] mult_div_mod_eq)
  qed
  show ?thesis using red val by (metis mod_mult_self2)
qed

section \<open>Products\<close>

lemma mul_u128: "ucast a * ucast b = (word_of_int (uint (a :: u64) * uint (b :: u64)) :: u128)"
  by simp

lemma uint_u128: "0 \<le> n \<Longrightarrow> n < 2 ^ 114 \<Longrightarrow> uint (word_of_int n :: u128) = n"
  by (simp add: uint_word_of_int_eq take_bit_int_eq_self)

lemma limb_product:
  assumes "uint (a :: u64) < 2 ^ 54" "uint (b :: u64) < 2 ^ 54"
  shows "0 \<le> uint a * uint b" "uint a * uint b < 2 ^ 108"
proof -
  have "uint a * uint b < 2 ^ 54 * 2 ^ 54"
    using assms by (intro mult_strict_mono) simp_all
  then show "uint a * uint b < 2 ^ 108" by simp
qed simp

lemma fe_mul_val:
  assumes "loose f" "loose g"
  shows "reduced (fe_mul f g) \<and> fe_val (fe_mul f g) mod P25519 = fe_val f * fe_val g mod P25519"
proof -
  obtain f0 f1 f2 f3 f4 where f: "f = (f0, f1, f2, f3, f4)" by (cases f)
  obtain g0 g1 g2 g3 g4 where g: "g = (g0, g1, g2, g3, g4)" by (cases g)
  define T0 where "T0 = uint f0 * uint g0 + 19 * (uint f1 * uint g4 + uint f2 * uint g3 + uint f3 * uint g2 + uint f4 * uint g1)"
  define T1 where "T1 = uint f0 * uint g1 + uint f1 * uint g0 + 19 * (uint f2 * uint g4 + uint f3 * uint g3 + uint f4 * uint g2)"
  define T2 where "T2 = uint f0 * uint g2 + uint f1 * uint g1 + uint f2 * uint g0 + 19 * (uint f3 * uint g4 + uint f4 * uint g3)"
  define T3 where "T3 = uint f0 * uint g3 + uint f1 * uint g2 + uint f2 * uint g1 + uint f3 * uint g0 + 19 * (uint f4 * uint g4)"
  define T4 where "T4 = uint f0 * uint g4 + uint f1 * uint g3 + uint f2 * uint g2 + uint f3 * uint g1 + uint f4 * uint g0"
  have "fe_mul f g = fe_reduce (word_of_int T0) (word_of_int T1) (word_of_int T2) (word_of_int T3) (word_of_int T4)"
    unfolding f g fe_mul_def T0_def T1_def T2_def T3_def T4_def by (simp add: Let_def)
  note r = this
  have bs: "0 \<le> uint a * uint b \<and> uint a * uint b < 2 ^ 106"
    if "a \<in> {f0, f1, f2, f3, f4}" "b \<in> {g0, g1, g2, g3, g4}" for a b
  proof -
    have "uint a < 2 ^ 53" "uint b < 2 ^ 53" using that assms by (auto simp: f g limbs_defs)
    then have "uint a * uint b < 2 ^ 53 * 2 ^ 53" by (intro mult_strict_mono) simp_all
    then show ?thesis by simp
  qed
  have T0: "0 \<le> T0 \<and> T0 < 2 ^ 114"
    using bs [of f0 g0] bs [of f1 g4] bs [of f2 g3] bs [of f3 g2] bs [of f4 g1]
    unfolding T0_def by simp
  have T1: "0 \<le> T1 \<and> T1 < 2 ^ 114"
    using bs [of f0 g1] bs [of f1 g0] bs [of f2 g4] bs [of f3 g3] bs [of f4 g2]
    unfolding T1_def by simp
  have T2: "0 \<le> T2 \<and> T2 < 2 ^ 114"
    using bs [of f0 g2] bs [of f1 g1] bs [of f2 g0] bs [of f3 g4] bs [of f4 g3]
    unfolding T2_def by simp
  have T3: "0 \<le> T3 \<and> T3 < 2 ^ 114"
    using bs [of f0 g3] bs [of f1 g2] bs [of f2 g1] bs [of f3 g0] bs [of f4 g4]
    unfolding T3_def by simp
  have T4: "0 \<le> T4 \<and> T4 < 2 ^ 114"
    using bs [of f0 g4] bs [of f1 g3] bs [of f2 g2] bs [of f3 g1] bs [of f4 g0]
    unfolding T4_def by simp
  have v: "fe_val f * fe_val g mod P25519 = (T0 + 2 ^ 51 * T1 + 2 ^ 102 * T2 + 2 ^ 153 * T3 + 2 ^ 204 * T4) mod P25519"
  proof -
    define c where "c = uint f1 * uint g4 + uint f2 * uint g3 + uint f3 * uint g2 + uint f4 * uint g1
      + 2 ^ 51 * (uint f2 * uint g4 + uint f3 * uint g3 + uint f4 * uint g2)
      + 2 ^ 102 * (uint f3 * uint g4 + uint f4 * uint g3) + 2 ^ 153 * (uint f4 * uint g4)"
    have "fe_val f * fe_val g = (T0 + 2 ^ 51 * T1 + 2 ^ 102 * T2 + 2 ^ 153 * T3 + 2 ^ 204 * T4) + P25519 * c"
      unfolding f g fe_val_def T0_def T1_def T2_def T3_def T4_def P25519_def c_def by (simp add: algebra_simps)
    then show ?thesis by (simp only: mod_mult_self2)
  qed
  show ?thesis
    unfolding r v using fe_reduce_val [of "word_of_int T0" "word_of_int T1" "word_of_int T2" "word_of_int T3" "word_of_int T4"]
      T0 T1 T2 T3 T4 by (simp only: uint_u128)
qed

lemma uint_double: "uint (a :: u64) < 2 ^ 53 \<Longrightarrow> uint (a * 2) = uint a * 2"
  by (subst uint_mult_lem [THEN iffD1]) simp_all

lemma fe_sqr_val:
  assumes "loose f"
  shows "reduced (fe_sqr f) \<and> fe_val (fe_sqr f) mod P25519 = fe_val f * fe_val f mod P25519"
proof -
  obtain f0 f1 f2 f3 f4 where f: "f = (f0, f1, f2, f3, f4)" by (cases f)
  have b: "uint f0 < 2 ^ 53" "uint f1 < 2 ^ 53" "uint f2 < 2 ^ 53" "uint f3 < 2 ^ 53" "uint f4 < 2 ^ 53"
    using assms by (simp_all add: f limbs_defs)
  have "fe_sqr f = fe_mul f f"
    unfolding f fe_sqr_def fe_mul_def prod.case Let_def mul_u128
    by (simp only: uint_double [OF b(1)] uint_double [OF b(2)] uint_double [OF b(3)] uint_double [OF b(4)])
      (simp add: algebra_simps)
  then show ?thesis using fe_mul_val [OF assms assms] by simp
qed

lemma fe_mul121665_val:
  assumes "loose f"
  shows "reduced (fe_mul121665 f) \<and> fe_val (fe_mul121665 f) mod P25519 = 121665 * fe_val f mod P25519"
proof -
  obtain f0 f1 f2 f3 f4 where f: "f = (f0, f1, f2, f3, f4)" by (cases f)
  have u: "uint (ucast a * 121665 :: u128) = uint a * 121665 \<and> uint a * 121665 < 2 ^ 114" if "uint (a :: u64) < 2 ^ 53" for a
  proof -
    have e: "ucast a * 121665 = (word_of_int (uint a * 121665) :: u128)" by simp
    have lt: "uint a * 121665 < 2 ^ 114" using that by simp
    moreover have "uint (word_of_int (uint a * 121665) :: u128) = uint a * 121665" by (rule uint_u128 [OF _ lt]) simp
    ultimately show ?thesis unfolding e by blast
  qed
  have b: "uint f0 < 2 ^ 53" "uint f1 < 2 ^ 53" "uint f2 < 2 ^ 53" "uint f3 < 2 ^ 53" "uint f4 < 2 ^ 53"
    using assms by (simp_all add: f limbs_defs)
  have "fe_mul121665 f = fe_reduce (ucast f0 * 121665) (ucast f1 * 121665) (ucast f2 * 121665) (ucast f3 * 121665) (ucast f4 * 121665)"
    by (simp add: f fe_mul121665_def)
  moreover have "uint f0 * 121665 + 2 ^ 51 * (uint f1 * 121665) + 2 ^ 102 * (uint f2 * 121665) + 2 ^ 153 * (uint f3 * 121665)
      + 2 ^ 204 * (uint f4 * 121665) = 121665 * fe_val f"
    unfolding f fe_val_def by (simp add: algebra_simps)
  ultimately show ?thesis
    using fe_reduce_val [of "ucast f0 * 121665" "ucast f1 * 121665" "ucast f2 * 121665" "ucast f3 * 121665" "ucast f4 * 121665"]
      u [OF b(1)] u [OF b(2)] u [OF b(3)] u [OF b(4)] u [OF b(5)] by metis
qed

section \<open>Sums, differences and the swap\<close>

lemma fe_add_val:
  assumes "reduced f" "reduced g"
  shows "loose (fe_add f g) \<and> fe_val (fe_add f g) = fe_val f + fe_val g"
proof -
  obtain f0 f1 f2 f3 f4 where f: "f = (f0, f1, f2, f3, f4)" by (cases f)
  obtain g0 g1 g2 g3 g4 where g: "g = (g0, g1, g2, g3, g4)" by (cases g)
  have u: "uint (a + b) = uint a + uint b" if "uint (a :: u64) < 2 ^ 51 + 2 ^ 18" "uint (b :: u64) < 2 ^ 51 + 2 ^ 18" for a b
    using that by (subst uint_add_small) simp_all
  show ?thesis
    using assms by (simp add: f g fe_add_def limbs_defs fe_val_def u algebra_simps)
qed

lemma fe_sub_val:
  assumes "reduced f" "reduced g"
  shows "loose (fe_sub f g) \<and> fe_val (fe_sub f g) mod P25519 = (fe_val f - fe_val g) mod P25519"
proof -
  obtain f0 f1 f2 f3 f4 where f: "f = (f0, f1, f2, f3, f4)" by (cases f)
  obtain g0 g1 g2 g3 g4 where g: "g = (g0, g1, g2, g3, g4)" by (cases g)
  have u: "uint (a + k - b) = uint a + uint k - uint b"
    if "uint (a :: u64) < 2 ^ 51 + 2 ^ 18" "uint (b :: u64) < 2 ^ 51 + 2 ^ 18" "2 ^ 51 + 2 ^ 18 \<le> uint k" "uint k < 2 ^ 52" for a b k
  proof -
    have "uint (a + k) = uint a + uint k" using that by (subst uint_add_small) simp_all
    moreover have "uint b \<le> uint (a + k)" proof -
      have "0 \<le> uint a" by simp
      then show ?thesis using \<open>uint (a + k) = uint a + uint k\<close> that by linarith
    qed
    ultimately show ?thesis by (simp add: uint_sub_lem [THEN iffD1])
  qed
  have l: "uint (a + k - b) < 2 ^ 53"
    if "uint (a :: u64) < 2 ^ 51 + 2 ^ 18" "uint (b :: u64) < 2 ^ 51 + 2 ^ 18" "2 ^ 51 + 2 ^ 18 \<le> uint k" "uint k < 2 ^ 52" for a b k
  proof -
    have "0 \<le> uint b" by simp
    then have "uint (a + k - b) \<le> uint a + uint k" using u [OF that] by linarith
    then show ?thesis using that by simp
  qed
  have k: "uint (0xFFFFFFFFFFFDA :: u64) = 2 ^ 52 - 38" "uint (0xFFFFFFFFFFFFE :: u64) = 2 ^ 52 - 2" by simp_all
  have "loose (fe_sub f g)"
    using assms l [of f0 g0 "0xFFFFFFFFFFFDA"] l [of f1 g1 "0xFFFFFFFFFFFFE"] l [of f2 g2 "0xFFFFFFFFFFFFE"]
      l [of f3 g3 "0xFFFFFFFFFFFFE"] l [of f4 g4 "0xFFFFFFFFFFFFE"]
    by (simp add: f g fe_sub_def limbs_defs)
  moreover have "fe_val (fe_sub f g) = fe_val f - fe_val g + P25519 * 2"
  proof -
    have "fe_val (fe_sub f g) = (uint f0 + (2 ^ 52 - 38) - uint g0) + 2 ^ 51 * (uint f1 + (2 ^ 52 - 2) - uint g1)
        + 2 ^ 102 * (uint f2 + (2 ^ 52 - 2) - uint g2) + 2 ^ 153 * (uint f3 + (2 ^ 52 - 2) - uint g3)
        + 2 ^ 204 * (uint f4 + (2 ^ 52 - 2) - uint g4)"
      using assms by (simp add: f g fe_sub_def limbs_defs u fe_val_def)
    then show ?thesis by (simp add: f g fe_val_def P25519_def algebra_simps)
  qed
  ultimately show ?thesis by (simp only: mod_mult_self2)
qed

lemma fe_cswap_val: "fe_cswap f g (if b then 1 else 0) = (if b then (g, f) else (f, g))"
proof -
  have x: "a XOR a XOR b = b" "b XOR a XOR b = a" for a b :: u64
    by (simp_all add: xor.assoc [symmetric]) (simp add: xor.commute [of b a] xor.assoc)
  show ?thesis by (cases f; cases g) (simp add: fe_cswap_def x)
qed

section \<open>Powers\<close>

text \<open>\<open>powers z f n\<close>: \<open>f\<close> is a reduced element that stands for the \<open>n\<close>-th power of \<open>z\<close>.\<close>

definition powers :: "fe \<Rightarrow> fe \<Rightarrow> nat \<Rightarrow> bool" where
  "powers z f n \<longleftrightarrow> reduced f \<and> fe_val f mod P25519 = fe_val z ^ n mod P25519"

lemma powers_mul: "powers z f m \<Longrightarrow> powers z g n \<Longrightarrow> powers z (fe_mul f g) (m + n)"
  using fe_mul_val [of f g] by (auto simp: powers_def reduced_loose power_add intro: mod_mult_cong)

lemma powers_sqr: "powers z f m \<Longrightarrow> powers z (fe_sqr f) (2 * m)"
  using fe_sqr_val [of f] by (auto simp: powers_def reduced_loose mult_2 power_add intro: mod_mult_cong)

lemma powers_sqrs: "powers z f m \<Longrightarrow> powers z ((fe_sqr ^^ k) f) (2 ^ k * m)"
proof (induction k)
  case (Suc k)
  then show ?case using powers_sqr [of z "(fe_sqr ^^ k) f" "2 ^ k * m"] by (simp add: mult.assoc)
qed simp

lemma fe_inv_val:
  assumes "reduced z"
  shows "reduced (fe_inv z) \<and> fe_val (fe_inv z) mod P25519 = fe_val z ^ (2 ^ 255 - 21) mod P25519"
proof -
  have z: "powers z z 1" using assms by (simp add: powers_def)
  define a0 where "a0 = fe_sqr z"
  have a0: "powers z a0 2" using powers_sqr [OF z] by (simp add: a0_def)
  define a1 where "a1 = fe_mul z (fe_sqr (fe_sqr a0))"
  have a1: "powers z a1 9" using powers_mul [OF z powers_sqr [OF powers_sqr [OF a0]]] by (simp add: a1_def)
  define b0 where "b0 = fe_mul a0 a1"
  have b0: "powers z b0 11" using powers_mul [OF a0 a1] by (simp add: b0_def)
  define b1 where "b1 = fe_mul a1 (fe_sqr b0)"
  have b1: "powers z b1 (2 ^ 5 - 1)" using powers_mul [OF a1 powers_sqr [OF b0]] by (simp add: b1_def)
  define c1 where "c1 = fe_mul ((fe_sqr ^^ 4) (fe_sqr b1)) b1"
  have c1: "powers z c1 (2 ^ 10 - 1)"
    using powers_mul [OF powers_sqrs [OF powers_sqr [OF b1], of 4] b1] by (simp add: c1_def)
  define d2 where "d2 = fe_mul ((fe_sqr ^^ 9) (fe_sqr c1)) c1"
  have d2: "powers z d2 (2 ^ 20 - 1)"
    using powers_mul [OF powers_sqrs [OF powers_sqr [OF c1], of 9] c1] by (simp add: d2_def)
  define e2 where "e2 = fe_mul ((fe_sqr ^^ 19) (fe_sqr d2)) d2"
  have e2: "powers z e2 (2 ^ 40 - 1)"
    using powers_mul [OF powers_sqrs [OF powers_sqr [OF d2], of 19] d2] by (simp add: e2_def)
  define f1 where "f1 = fe_mul ((fe_sqr ^^ 9) (fe_sqr e2)) c1"
  have f1: "powers z f1 (2 ^ 50 - 1)"
    using powers_mul [OF powers_sqrs [OF powers_sqr [OF e2], of 9] c1] by (simp add: f1_def)
  define g2 where "g2 = fe_mul ((fe_sqr ^^ 49) (fe_sqr f1)) f1"
  have g2: "powers z g2 (2 ^ 100 - 1)"
    using powers_mul [OF powers_sqrs [OF powers_sqr [OF f1], of 49] f1] by (simp add: g2_def)
  define h2 where "h2 = fe_mul ((fe_sqr ^^ 99) (fe_sqr g2)) g2"
  have h2: "powers z h2 (2 ^ 200 - 1)"
    using powers_mul [OF powers_sqrs [OF powers_sqr [OF g2], of 99] g2] by (simp add: h2_def)
  define i1 where "i1 = fe_mul ((fe_sqr ^^ 49) (fe_sqr h2)) f1"
  have i1: "powers z i1 (2 ^ 250 - 1)"
    using powers_mul [OF powers_sqrs [OF powers_sqr [OF h2], of 49] f1] by (simp add: i1_def)
  have "fe_inv z = fe_mul (fe_sqr (fe_sqr (fe_sqr (fe_sqr (fe_sqr i1))))) b0"
    unfolding fe_inv_def Let_def a0_def [symmetric] a1_def [symmetric] unfolding b0_def [symmetric]
    unfolding b1_def [symmetric] unfolding c1_def [symmetric] unfolding d2_def [symmetric] unfolding e2_def [symmetric]
    unfolding f1_def [symmetric] unfolding g2_def [symmetric] unfolding h2_def [symmetric] unfolding i1_def [symmetric] ..
  then have "powers z (fe_inv z) (2 ^ 255 - 21)"
    using powers_mul [OF powers_sqr [OF powers_sqr [OF powers_sqr [OF powers_sqr [OF powers_sqr [OF i1]]]]] b0] by simp
  then show ?thesis by (simp only: powers_def)
qed

section \<open>Bytes\<close>

text \<open>The little-endian number a byte string encodes, and the encoding of a number.\<close>

fun le_val :: "bytes \<Rightarrow> nat" where
  "le_val [] = 0"
| "le_val (b # bs) = unat b + 256 * le_val bs"

definition le_bytes :: "nat \<Rightarrow> nat \<Rightarrow> bytes" where
  "le_bytes k n = map (\<lambda>i. word_of_nat (n div 256 ^ i)) [0..<k]"

lemma le_val_append: "le_val (xs @ ys) = le_val xs + 256 ^ length xs * le_val ys"
  by (induction xs) (simp_all add: algebra_simps)

lemma le_val_less: "le_val xs < 256 ^ length xs"
proof (induction xs)
  case (Cons b xs)
  then show ?case using unat_u8_less [of b] by simp
qed simp

lemma le_bytes_Suc: "le_bytes (Suc k) n = word_of_nat n # le_bytes k (n div 256)"
  by (simp add: le_bytes_def upt_conv_Cons map_Suc_upt [symmetric] div_mult2_eq del: upt_Suc)

lemma le_bytes_le_val: "le_bytes (length bs) (le_val bs) = bs"
proof (induction bs)
  case (Cons b bs)
  have "(unat b + 256 * le_val bs) div 256 = le_val bs" using unat_u8_less [of b] by simp
  moreover have "word_of_nat (unat b + 256 * le_val bs) = b"
  proof -
    have "(256 :: u8) = 0" by simp
    then show ?thesis by (simp only: of_nat_add of_nat_mult of_nat_numeral mult_zero_left add_0_right) simp
  qed
  ultimately show ?case using Cons by (simp add: le_bytes_Suc)
qed (simp add: le_bytes_def)

lemma le_val_take: "n \<le> length s \<Longrightarrow> le_val (take n s) = le_val s mod 256 ^ n"
proof -
  assume n: "n \<le> length s"
  have "le_val s = le_val (take n s) + 256 ^ n * le_val (drop n s)"
    using le_val_append [of "take n s" "drop n s"] n by simp
  moreover have "le_val (take n s) < 256 ^ n" using le_val_less [of "take n s"] n by simp
  ultimately show ?thesis by simp
qed

lemma le_val_drop: "n \<le> length s \<Longrightarrow> le_val (drop n s) = le_val s div 256 ^ n"
proof -
  assume n: "n \<le> length s"
  have "le_val s = le_val (take n s) + 256 ^ n * le_val (drop n s)"
    using le_val_append [of "take n s" "drop n s"] n by simp
  moreover have "le_val (take n s) < 256 ^ n" using le_val_less [of "take n s"] n by simp
  ultimately show ?thesis by simp
qed

text \<open>Shifting a byte in from below.\<close>

lemma unat_shift_in: "unat r < 2 ^ 56 \<Longrightarrow> unat (push_bit 8 r OR ucast (b :: u8) :: u64) = 256 * unat r + unat b"
proof -
  assume r: "unat r < 2 ^ 56"
  have "push_bit 8 r AND ucast b = (0 :: u64)"
    by (rule bit_word_eqI) (auto simp: bit_simps dest: bit_imp_le_length)
  then have "push_bit 8 r OR ucast b = push_bit 8 r + (ucast b :: u64)" by (rule disjunctive_add_eq_or [symmetric])
  moreover have "unat (push_bit 8 r) = 256 * unat r"
    using r unat_mult_lem [of r 256, THEN iffD1] by (simp add: push_bit_eq_mult)
  moreover have "unat (ucast b :: u64) = unat b"
    using unat_u8_less [of b] by (simp add: unsigned_ucast_eq take_bit_nat_eq_self)
  ultimately show ?thesis using r unat_u8_less [of b] by (simp add: unat_add_u64)
qed

lemma upt_8: "rev [0..<8] = [7, 6, 5, 4, 3, 2, 1, 0]"
  by (simp add: upt_rec)

lemma ld8_val:
  assumes "p + 8 \<le> length s"
  shows "unat (ld8 s p) = le_val s div 256 ^ p mod 2 ^ 64"
proof -
  let ?x = "\<lambda>i. s ! (p + i)"
  have "take 8 (drop p s) = [?x 0, ?x 1, ?x 2, ?x 3, ?x 4, ?x 5, ?x 6, ?x 7]"
    using assms by (intro nth_equalityI) (auto simp: less_Suc_eq eval_nat_numeral)
  then have v: "le_val (take 8 (drop p s)) = unat (?x 0) + 256 * (unat (?x 1) + 256 * (unat (?x 2) + 256 * (unat (?x 3)
      + 256 * (unat (?x 4) + 256 * (unat (?x 5) + 256 * (unat (?x 6) + 256 * unat (?x 7)))))))" by simp
  define r1 where "r1 = (push_bit 8 0 OR ucast (?x 7) :: u64)"
  define r2 where "r2 = push_bit 8 r1 OR ucast (?x 6)"
  define r3 where "r3 = push_bit 8 r2 OR ucast (?x 5)"
  define r4 where "r4 = push_bit 8 r3 OR ucast (?x 4)"
  define r5 where "r5 = push_bit 8 r4 OR ucast (?x 3)"
  define r6 where "r6 = push_bit 8 r5 OR ucast (?x 2)"
  define r7 where "r7 = push_bit 8 r6 OR ucast (?x 1)"
  have b: "unat (?x i) < 256" for i by (rule unat_u8_less)
  have r1: "unat r1 = unat (?x 7)" using unat_shift_in [of 0 "?x 7"] by (simp add: r1_def)
  have r2: "unat r2 = 256 * unat r1 + unat (?x 6)" unfolding r2_def using b [of 7] r1 by (intro unat_shift_in) simp
  have l2: "unat r2 < 2 ^ 16" using b [of 7] b [of 6] r1 r2 by simp
  have r3: "unat r3 = 256 * unat r2 + unat (?x 5)" unfolding r3_def using l2 by (intro unat_shift_in) simp
  have l3: "unat r3 < 2 ^ 24" using l2 b [of 5] r3 by simp
  have r4: "unat r4 = 256 * unat r3 + unat (?x 4)" unfolding r4_def using l3 by (intro unat_shift_in) simp
  have l4: "unat r4 < 2 ^ 32" using l3 b [of 4] r4 by simp
  have r5: "unat r5 = 256 * unat r4 + unat (?x 3)" unfolding r5_def using l4 by (intro unat_shift_in) simp
  have l5: "unat r5 < 2 ^ 40" using l4 b [of 3] r5 by simp
  have r6: "unat r6 = 256 * unat r5 + unat (?x 2)" unfolding r6_def using l5 by (intro unat_shift_in) simp
  have l6: "unat r6 < 2 ^ 48" using l5 b [of 2] r6 by simp
  have r7: "unat r7 = 256 * unat r6 + unat (?x 1)" unfolding r7_def using l6 by (intro unat_shift_in) simp
  have l7: "unat r7 < 2 ^ 56" using l6 b [of 1] r7 by simp
  have "ld8 s p = push_bit 8 r7 OR ucast (?x 0)"
    unfolding ld8_def upt_8 r7_def r6_def r5_def r4_def r3_def r2_def r1_def by simp
  then have "unat (ld8 s p) = 256 * unat r7 + unat (?x 0)" using unat_shift_in [OF l7] by simp
  then have "unat (ld8 s p) = le_val (take 8 (drop p s))" unfolding v r7 r6 r5 r4 r3 r2 r1 by simp
  also have "\<dots> = le_val s div 256 ^ p mod 256 ^ 8"
    using assms by (subst le_val_take) (simp_all add: le_val_drop)
  finally show ?thesis by simp
qed

text \<open>Reading: the five limbs are the digits to the base \<open>2^51\<close> of the low 255 bits.\<close>

lemma shift_window: "b + 51 \<le> 64 \<Longrightarrow> (v div 2 ^ a mod 2 ^ 64) div 2 ^ b mod 2 ^ 51 = v div 2 ^ (a + b) mod (2 ^ 51 :: nat)"
proof -
  assume b: "b + 51 \<le> 64"
  have "take_bit 51 (drop_bit b (take_bit 64 (drop_bit a v))) = take_bit 51 (drop_bit (a + b) v)"
    using b by (intro bit_eqI) (auto simp: bit_simps add_ac)
  then show ?thesis by (simp only: take_bit_eq_mod drop_bit_eq_div)
qed

lemma limb_window:
  assumes "p + 8 \<le> length s" "b + 51 \<le> 64" "k = 8 * p + b"
  shows "uint (drop_bit b (ld8 s p) AND FE_MASK) = int (le_val s div 2 ^ k mod 2 ^ 51)"
proof -
  have "(256 :: nat) ^ p = 2 ^ (8 * p)" by (simp add: power_mult)
  then have "unat (ld8 s p) = le_val s div 2 ^ (8 * p) mod 2 ^ 64" using ld8_val [OF assms(1)] by simp
  then have "uint (ld8 s p) = int (le_val s div 2 ^ (8 * p) mod 2 ^ 64)" by (metis unsigned_of_nat uint_nat)
  then have "uint (drop_bit b (ld8 s p) AND FE_MASK) = int ((le_val s div 2 ^ (8 * p) mod 2 ^ 64) div 2 ^ b mod 2 ^ 51)"
    by (simp add: uint_mask51 uint_drop zmod_int zdiv_int)
  then show ?thesis by (simp only: shift_window [OF assms(2)] assms(3))
qed

lemma digits_51:
  "v mod 2 ^ 51 + 2 ^ 51 * (v div 2 ^ 51 mod 2 ^ 51) + 2 ^ 102 * (v div 2 ^ 102 mod 2 ^ 51)
   + 2 ^ 153 * (v div 2 ^ 153 mod 2 ^ 51) + 2 ^ 204 * (v div 2 ^ 204 mod 2 ^ 51) = v mod (2 ^ 255 :: nat)"
proof -
  have s: "v mod 2 ^ (a + 51) = v mod 2 ^ a + 2 ^ a * (v div 2 ^ a mod 2 ^ 51)" for a
    using mod_mult2_eq [of v "2 ^ a" "2 ^ 51"] by (simp only: power_add)
  show ?thesis using s [of 51] s [of 102] s [of 153] s [of 204] by simp
qed

lemma fe_frombytes_val:
  assumes "length s = 32"
  shows "reduced (fe_frombytes s) \<and> fe_val (fe_frombytes s) = int (le_val s mod 2 ^ 255)"
proof -
  have "uint (drop_bit 0 (ld8 s 0) AND FE_MASK) = int (le_val s div 2 ^ 0 mod 2 ^ 51)"
    by (rule limb_window) (simp_all add: assms)
  then have l0: "uint (ld8 s 0 AND FE_MASK) = int (le_val s mod 2 ^ 51)" by simp
  have l:
    "uint (drop_bit 3 (ld8 s 6) AND FE_MASK) = int (le_val s div 2 ^ 51 mod 2 ^ 51)"
    "uint (drop_bit 6 (ld8 s 12) AND FE_MASK) = int (le_val s div 2 ^ 102 mod 2 ^ 51)"
    "uint (drop_bit 1 (ld8 s 19) AND FE_MASK) = int (le_val s div 2 ^ 153 mod 2 ^ 51)"
    "uint (drop_bit 12 (ld8 s 24) AND FE_MASK) = int (le_val s div 2 ^ 204 mod 2 ^ 51)"
    by (rule limb_window; simp add: assms)+
  have "uint (a AND FE_MASK) < 2 ^ 51" for a :: u64 by (simp add: uint_mask51)
  then have "uint (a AND FE_MASK) < 2 ^ 51 + 2 ^ 18" for a :: u64 by (rule less_le_trans) simp
  then have "reduced (fe_frombytes s)" by (simp add: fe_frombytes_def limbs_defs)
  moreover have "fe_val (fe_frombytes s) = int (le_val s mod 2 ^ 51 + 2 ^ 51 * (le_val s div 2 ^ 51 mod 2 ^ 51)
      + 2 ^ 102 * (le_val s div 2 ^ 102 mod 2 ^ 51) + 2 ^ 153 * (le_val s div 2 ^ 153 mod 2 ^ 51)
      + 2 ^ 204 * (le_val s div 2 ^ 204 mod 2 ^ 51))"
    unfolding fe_frombytes_def fe_val_def prod.case l l0 by simp
  ultimately show ?thesis by (simp only: digits_51)
qed

text \<open>Writing: eight bytes of a word.\<close>

lemma st8_bytes: "st8 v = [ucast v, ucast (drop_bit 8 v), ucast (drop_bit 16 v), ucast (drop_bit 24 v),
   ucast (drop_bit 32 v), ucast (drop_bit 40 v), ucast (drop_bit 48 v), ucast (drop_bit 56 v)]"
proof -
  have u: "ucast (x AND 0xFF) = (ucast x :: u8)" for x :: u64
  proof -
    have "(0xFF :: u64) = mask 8" by (simp add: mask_eq_exp_minus_1)
    moreover have "ucast (x AND mask 8) = (ucast x :: u8)" by (rule bit_word_eqI) (simp add: bit_simps)
    ultimately show ?thesis by (simp only:)
  qed
  have "[0..<8] = [0, 1, 2, 3, 4, 5, 6, 7]" by (simp add: upt_rec)
  then show ?thesis by (simp add: st8_def u)
qed

lemma length_st8 [simp]: "length (st8 v) = 8"
  by (simp add: st8_bytes)

lemma le_val_st8: "le_val (st8 v) = unat v"
proof -
  have b: "unat (ucast (drop_bit k v) :: u8) = unat v div 2 ^ k mod 256" for k
  proof -
    have "unat (ucast (drop_bit k v) :: u8) = take_bit 8 (unat (drop_bit k v))" by (simp add: unsigned_ucast_eq)
    then show ?thesis by (simp only: unat_drop_bit_eq take_bit_eq_mod) (simp only: drop_bit_eq_div, simp)
  qed
  have s: "l = k + 8 \<Longrightarrow> unat v div 2 ^ k mod 256 + 256 * (unat v div 2 ^ l) = unat v div 2 ^ k" for k l
    by (simp add: power_add div_mult2_eq)
  have s0: "unat v div 2 ^ 0 mod 256 + 256 * (unat v div 2 ^ 8) = unat v div 2 ^ 0" by (rule s) simp
  have s8: "unat v div 2 ^ 8 mod 256 + 256 * (unat v div 2 ^ 16) = unat v div 2 ^ 8" by (rule s) simp
  have s16: "unat v div 2 ^ 16 mod 256 + 256 * (unat v div 2 ^ 24) = unat v div 2 ^ 16" by (rule s) simp
  have s24: "unat v div 2 ^ 24 mod 256 + 256 * (unat v div 2 ^ 32) = unat v div 2 ^ 24" by (rule s) simp
  have s32: "unat v div 2 ^ 32 mod 256 + 256 * (unat v div 2 ^ 40) = unat v div 2 ^ 32" by (rule s) simp
  have s40: "unat v div 2 ^ 40 mod 256 + 256 * (unat v div 2 ^ 48) = unat v div 2 ^ 40" by (rule s) simp
  have s48: "unat v div 2 ^ 48 mod 256 + 256 * (unat v div 2 ^ 56) = unat v div 2 ^ 48" by (rule s) simp
  have "unat v div 2 ^ 56 < 256" using unat_u64_less [of v] by simp
  then have t: "unat v div 2 ^ 56 mod 256 = unat v div 2 ^ 56" by (rule mod_less)
  have "st8 v = [ucast (drop_bit 0 v), ucast (drop_bit 8 v), ucast (drop_bit 16 v), ucast (drop_bit 24 v),
   ucast (drop_bit 32 v), ucast (drop_bit 40 v), ucast (drop_bit 48 v), ucast (drop_bit 56 v)]"
    by (simp only: st8_bytes drop_bit_0 id_apply)
  then have "le_val (st8 v) = unat v div 2 ^ 0"
    by (simp only: le_val.simps b t mult_0_right add_0_right s0 s8 s16 s24 s32 s40 s48)
  then show ?thesis by simp
qed

text \<open>The canonical form: subtract the prime once if the value is not below it.\<close>

lemma fe_carry_val:
  assumes "uint a < 2 ^ 52" "uint b < 2 ^ 52"
  shows "fe_carry a b = (a AND FE_MASK, snd (fe_carry a b))"
    "uint (snd (fe_carry a b)) = uint b + uint a div 2 ^ 51"
proof -
  show "fe_carry a b = (a AND FE_MASK, snd (fe_carry a b))" by (simp add: fe_carry_def)
  have "uint (drop_bit 51 a) = uint a div 2 ^ 51" by (rule uint_drop)
  moreover have "uint b + uint a div 2 ^ 51 < 2 ^ 64" using assms by simp
  ultimately show "uint (snd (fe_carry a b)) = uint b + uint a div 2 ^ 51"
    by (simp add: fe_carry_def uint_add_small)
qed

lemma uint_or_shift:
  assumes "uint (a :: u64) < 2 ^ k" "k \<le> 64"
  shows "uint (a OR push_bit k b) = uint a + 2 ^ k * (uint b mod 2 ^ (64 - k))"
proof -
  have t: "take_bit k (uint a) = uint a" using assms(1) by (intro take_bit_int_eq_self) simp_all
  have bit: "\<not> bit a n" if "k \<le> n" for n
  proof
    assume "bit a n"
    then have "bit (take_bit k (uint a)) n" using bit_imp_le_length [of a n] unfolding t by (simp add: bit_uint_iff)
    then show False using that by (simp add: bit_simps)
  qed
  have "a AND push_bit k b = 0" by (rule bit_word_eqI) (auto simp: bit_simps bit)
  then have or: "a OR push_bit k b = a + push_bit k b" by (rule disjunctive_add_eq_or [symmetric])
  have "uint (push_bit k b) = take_bit 64 (push_bit k (uint b))" by (simp add: unsigned_push_bit_eq)
  also have "\<dots> = push_bit k (take_bit (64 - k) (uint b))" using assms(2) by (simp add: take_bit_push_bit)
  finally have p: "uint (push_bit k b) = 2 ^ k * (uint b mod 2 ^ (64 - k))"
    by (simp only: push_bit_eq_mult take_bit_eq_mod mult.commute)
  have "uint b mod 2 ^ (64 - k) \<le> 2 ^ (64 - k) - 1" by simp
  then have "2 ^ k * (uint b mod 2 ^ (64 - k)) \<le> 2 ^ k * (2 ^ (64 - k) - 1)" by (intro mult_left_mono) simp_all
  also have "\<dots> = 2 ^ 64 - 2 ^ k" using assms(2) by (simp add: right_diff_distrib power_add [symmetric])
  finally have "uint a + 2 ^ k * (uint b mod 2 ^ (64 - k)) < 2 ^ 64" using assms(1) by linarith
  then show ?thesis unfolding or by (subst uint_add_small) (simp_all add: p)
qed

lemma div_carry: "0 < b \<Longrightarrow> 0 \<le> n \<Longrightarrow> (x + b * y) div (b * n) = (y + x div b) div (n :: int)"
  by (simp add: zdiv_zmult2_eq)

lemma quotient_chain:
  fixes a0 a1 a2 a3 a4 b :: int
  assumes "0 < b"
  shows "(a4 + (a3 + (a2 + (a1 + a0 div b) div b) div b) div b) div b
    = (a0 + b * (a1 + b * (a2 + b * (a3 + b * a4)))) div (b * (b * (b * (b * b))))"
proof -
  let ?y3 = "a3 + b * a4" and ?n3 = "b * (b * b)"
  let ?y2 = "a2 + b * ?y3" and ?n4 = "b * ?n3"
  let ?y1 = "a1 + b * ?y2"
  define c1 where "c1 = a1 + a0 div b"
  define c2 where "c2 = a2 + c1 div b"
  define c3 where "c3 = a3 + c2 div b"
  have n: "0 \<le> b * b" "0 \<le> ?n3" "0 \<le> ?n4" using assms by simp_all
  have "(a0 + b * ?y1) div (b * ?n4) = (c1 + b * ?y2) div (b * ?n3)"
    using div_carry [OF assms n(3), of a0 ?y1] by (simp add: c1_def algebra_simps)
  also have "\<dots> = (c2 + b * ?y3) div (b * (b * b))"
    using div_carry [OF assms n(2), of c1 ?y2] by (simp add: c2_def algebra_simps)
  also have "\<dots> = (c3 + b * a4) div (b * b)"
    using div_carry [OF assms n(1), of c2 ?y3] by (simp add: c3_def algebra_simps)
  also have "\<dots> = (a4 + c3 div b) div b"
    using div_carry [OF assms, of b c3 a4] assms by simp
  finally show ?thesis by (simp add: c3_def c2_def c1_def)
qed

text \<open>The last carry chain: five limbs become the digits of their sum.\<close>

lemma digit_chain:
  fixes x0 x1 x2 x3 x4 b :: int
  defines "e1 \<equiv> x1 + x0 div b" and "e2 \<equiv> x2 + (x1 + x0 div b) div b"
  assumes "0 < b"
  shows "x0 mod b + b * (e1 mod b + b * (e2 mod b + b * ((x3 + e2 div b) mod b + b * ((x4 + (x3 + e2 div b) div b) mod b))))
    = (x0 + b * (x1 + b * (x2 + b * (x3 + b * x4)))) mod (b * (b * (b * (b * b))))"
proof -
  have s: "x mod b + b * ((y + x div b) mod n) = (x + b * y) mod (b * n)" if "0 < n" for x y n
  proof -
    have "(x + b * y) mod (b * n) = b * ((x + b * y) div b mod n) + (x + b * y) mod b"
      using that by (intro zmod_zmult2_eq) simp
    then show ?thesis using assms(3) by (simp add: add.commute)
  qed
  let ?n1 = "b" and ?n2 = "b * b" and ?n3 = "b * (b * b)" and ?n4 = "b * (b * (b * b))"
  have n: "0 < ?n2" "0 < ?n3" "0 < ?n4" using assms(3) by simp_all
  define e3 where "e3 = x3 + e2 div b"
  have "e3 mod b + b * ((x4 + e3 div b) mod b) = (e3 + b * x4) mod ?n2" by (rule s [OF assms(3)])
  then have 1: "e3 mod b + b * ((x4 + e3 div b) mod b) = ((x3 + b * x4) + e2 div b) mod ?n2" by (simp add: e3_def algebra_simps)
  have 2: "e2 mod b + b * (((x3 + b * x4) + e2 div b) mod ?n2) = ((x2 + b * (x3 + b * x4)) + e1 div b) mod ?n3"
    using s [OF n(1), of e2 "x3 + b * x4"] by (simp add: e2_def e1_def algebra_simps)
  have 3: "e1 mod b + b * (((x2 + b * (x3 + b * x4)) + e1 div b) mod ?n3) = ((x1 + b * (x2 + b * (x3 + b * x4))) + x0 div b) mod ?n4"
    using s [OF n(2), of e1 "x2 + b * (x3 + b * x4)"] by (simp add: e1_def algebra_simps)
  have 4: "x0 mod b + b * (((x1 + b * (x2 + b * (x3 + b * x4))) + x0 div b) mod ?n4) = (x0 + b * (x1 + b * (x2 + b * (x3 + b * x4)))) mod (b * ?n4)"
    by (rule s [OF n(3)])
  show ?thesis unfolding e3_def [symmetric] 1 2 3 4 ..
qed

lemma pack_identity:
  fixes f0 f1 f2 f3 f4 q1 q2 q3 r1 r2 r3 :: int
  assumes "f1 = 2 ^ 13 * q1 + r1" "f2 = 2 ^ 26 * q2 + r2" "f3 = 2 ^ 39 * q3 + r3"
  shows "f0 + 2 ^ 51 * r1 + 2 ^ 64 * (q1 + 2 ^ 38 * r2 + 2 ^ 64 * (q2 + 2 ^ 25 * r3 + 2 ^ 64 * (q3 + 2 ^ 12 * f4)))
    = f0 + 2 ^ 51 * f1 + 2 ^ 102 * f2 + 2 ^ 153 * f3 + 2 ^ 204 * f4"
  unfolding assms by (simp add: algebra_simps)

lemma fe_tobytes_val:
  assumes "reduced h"
  shows "fe_tobytes h = le_bytes 32 (nat (fe_val h mod P25519))"
proof -
  obtain h0 h1 h2 h3 h4 where h: "h = (h0, h1, h2, h3, h4)" by (cases h)
  let ?B = "2 ^ 51 :: int"
  have bd: "uint h0 < ?B + 2 ^ 18" "uint h1 < ?B + 2 ^ 18" "uint h2 < ?B + 2 ^ 18" "uint h3 < ?B + 2 ^ 18" "uint h4 < ?B + 2 ^ 18"
    using assms by (simp_all add: h limbs_defs)
  have M: "uint (x AND FE_MASK) = uint x mod ?B" for x :: u64 by (rule uint_mask51)
  have Mlt: "0 \<le> uint (x AND FE_MASK)" "uint (x AND FE_MASK) < ?B" for x :: u64 by (simp_all add: M)
  have D: "uint (drop_bit 51 x) = uint x div ?B" for x :: u64 by (rule uint_drop)
  have add: "uint (x + drop_bit 51 y) = uint x + uint y div ?B" "uint x + uint y div ?B \<le> uint x + 1"
    if "uint x < 2 ^ 52 - 1" "uint y < 2 ^ 52" for x y :: u64
  proof -
    show "uint x + uint y div ?B \<le> uint x + 1" using that by simp
    then show "uint (x + drop_bit 51 y) = uint x + uint y div ?B"
      using that by (subst uint_add_small) (simp_all add: D)
  qed
  define b2 where "b2 = h2 + drop_bit 51 h1"
  define b3 where "b3 = h3 + drop_bit 51 b2"
  define b4 where "b4 = h4 + drop_bit 51 b3"
  define b0 where "b0 = h0 + drop_bit 51 b4 * 19"
  define d1 where "d1 = (h1 AND FE_MASK) + drop_bit 51 b0"
  define a0 where "a0 = b0 AND FE_MASK"
  define a2 where "a2 = b2 AND FE_MASK"
  define a3 where "a3 = b3 AND FE_MASK"
  define a4 where "a4 = b4 AND FE_MASK"
  have b2: "uint b2 = uint h2 + uint h1 div ?B" "uint b2 \<le> uint h2 + 1" using add [of h2 h1] bd by (simp_all add: b2_def)
  have b3: "uint b3 = uint h3 + uint b2 div ?B" "uint b3 \<le> uint h3 + 1" using add [of h3 b2] b2 bd by (simp_all add: b3_def)
  have b4: "uint b4 = uint h4 + uint b3 div ?B" "uint b4 \<le> uint h4 + 1" using add [of h4 b3] b3 bd by (simp_all add: b4_def)
  have c: "uint b4 div ?B \<le> 1" using b4 bd by simp
  have b0: "uint b0 = uint h0 + uint b4 div ?B * 19"
  proof -
    have "uint (drop_bit 51 b4 * 19) = uint b4 div ?B * 19" using c by (subst uint_mult_lem [THEN iffD1]) (simp_all add: D)
    then show ?thesis unfolding b0_def using c bd by (subst uint_add_small) simp_all
  qed
  have b0lt: "uint b0 < 2 ^ 52 - 1" using b0 c bd by simp
  have d1: "uint d1 = uint h1 mod ?B + uint b0 div ?B" "uint d1 \<le> ?B"
    using add [of "h1 AND FE_MASK" b0] Mlt [of h1] b0lt by (simp_all add: d1_def M)
  let ?V = "uint a0 + ?B * uint d1 + 2 ^ 102 * uint a2 + 2 ^ 153 * uint a3 + 2 ^ 204 * uint a4"
  have V: "?V + P25519 * (uint b4 div ?B) = fe_val h"
    unfolding h fe_val_def prod.case P25519_def a0_def a2_def a3_def a4_def M d1(1)
    by (rule carry_identity [where ?q0.0 = 0 and ?r0.0 = "uint h0" and ?q1.0 = "uint h1 div ?B" and ?q2.0 = "uint b2 div ?B"
        and ?q3.0 = "uint b3 div ?B"])
      (simp_all only: b2(1) [symmetric] b3(1) [symmetric] b4(1) [symmetric] b0 [symmetric] mult_div_mod_eq add_0_right mult_zero_right add_0_left)
  have lt: "uint a0 < ?B" "uint a2 < ?B" "uint a3 < ?B" "uint a4 < ?B" unfolding a0_def a2_def a3_def a4_def by (rule Mlt)+
  define q0 where "q0 = drop_bit 51 (a0 + 19)"
  define q1 where "q1 = drop_bit 51 (d1 + q0)"
  define q2 where "q2 = drop_bit 51 (a2 + q1)"
  define q3 where "q3 = drop_bit 51 (a3 + q2)"
  define q where "q = drop_bit 51 (a4 + q3)"
  have q0: "uint q0 = (uint a0 + 19) div ?B" "uint q0 \<le> 1"
  proof -
    have "uint (a0 + 19) = uint a0 + 19" using lt(1) by (subst uint_add_small) simp_all
    then show "uint q0 = (uint a0 + 19) div ?B" by (simp add: q0_def D)
    then show "uint q0 \<le> 1" using lt(1) by simp
  qed
  have qs: "uint (drop_bit 51 (x + y)) = (uint x + uint y) div ?B \<and> uint (drop_bit 51 (x + y)) \<le> 1"
    if "uint x \<le> ?B" "uint y \<le> 1" for x y :: u64
  proof -
    have "uint (x + y) = uint x + uint y" using that by (subst uint_add_small) simp_all
    then show ?thesis using that by (simp add: D)
  qed
  have q1: "uint q1 = (uint d1 + uint q0) div ?B" "uint q1 \<le> 1" using qs [OF d1(2) q0(2)] by (simp_all add: q1_def)
  have q2: "uint q2 = (uint a2 + uint q1) div ?B" "uint q2 \<le> 1" using qs [of a2 q1] lt q1(2) by (simp_all add: q2_def)
  have q3: "uint q3 = (uint a3 + uint q2) div ?B" "uint q3 \<le> 1" using qs [of a3 q2] lt q2(2) by (simp_all add: q3_def)
  have q4: "uint q = (uint a4 + uint q3) div ?B" "uint q \<le> 1" using qs [of a4 q3] lt q3(2) by (simp_all add: q_def)
  have q: "uint q = (?V + 19) div 2 ^ 255"
  proof -
    have e: "(uint a0 + 19) + ?B * (uint d1 + ?B * (uint a2 + ?B * (uint a3 + ?B * uint a4))) = ?V + 19" by simp
    have n: "?B * (?B * (?B * (?B * ?B))) = 2 ^ 255" by simp
    have "uint q = (uint a4 + (uint a3 + (uint a2 + (uint d1 + (uint a0 + 19) div ?B) div ?B) div ?B) div ?B) div ?B"
      by (simp only: q4(1) q3(1) q2(1) q1(1) q0(1))
    also have "\<dots> = (?V + 19) div 2 ^ 255" unfolding e [symmetric] n [symmetric] by (rule quotient_chain) simp
    finally show ?thesis .
  qed
  define e0 where "e0 = a0 + 19 * q"
  define e1 where "e1 = d1 + drop_bit 51 e0"
  define e2 where "e2 = a2 + drop_bit 51 e1"
  define e3 where "e3 = a3 + drop_bit 51 e2"
  define e4 where "e4 = a4 + drop_bit 51 e3"
  have e0: "uint e0 = uint a0 + 19 * uint q"
  proof -
    have "uint (19 * q) = 19 * uint q" using q4(2) by (subst uint_mult_lem [THEN iffD1]) simp_all
    then show ?thesis unfolding e0_def using q4(2) lt by (subst uint_add_small) simp_all
  qed
  have e1: "uint e1 = uint d1 + uint e0 div ?B" "uint e1 \<le> uint d1 + 1"
    using add [of d1 e0] e0 lt d1(2) q4(2) by (simp_all add: e1_def)
  have e2: "uint e2 = uint a2 + uint e1 div ?B" "uint e2 \<le> uint a2 + 1"
    using add [of a2 e1] e1 lt d1(2) by (simp_all add: e2_def)
  have e3: "uint e3 = uint a3 + uint e2 div ?B" "uint e3 \<le> uint a3 + 1"
    using add [of a3 e2] e2 lt by (simp_all add: e3_def)
  have e4: "uint e4 = uint a4 + uint e3 div ?B"
    using add [of a4 e3] e3 lt by (simp_all add: e4_def)
  define f0 where "f0 = e0 AND FE_MASK"
  define f1 where "f1 = e1 AND FE_MASK"
  define f2 where "f2 = e2 AND FE_MASK"
  define f3 where "f3 = e3 AND FE_MASK"
  define f4 where "f4 = e4 AND FE_MASK"
  let ?F = "uint f0 + ?B * uint f1 + 2 ^ 102 * uint f2 + 2 ^ 153 * uint f3 + 2 ^ 204 * uint f4"
  have F: "?F = (?V + 19 * uint q) mod 2 ^ 255"
  proof -
    have n: "?B * (?B * (?B * (?B * ?B))) = 2 ^ 255" by simp
    have "?F = uint f0 + ?B * (uint f1 + ?B * (uint f2 + ?B * (uint f3 + ?B * uint f4)))" by simp
    also have "\<dots> = (uint e0 + ?B * (uint d1 + ?B * (uint a2 + ?B * (uint a3 + ?B * uint a4)))) mod 2 ^ 255"
      unfolding f0_def f1_def f2_def f3_def f4_def M e4 e3(1) e2(1) e1(1) n [symmetric] by (rule digit_chain) simp
    also have "uint e0 + ?B * (uint d1 + ?B * (uint a2 + ?B * (uint a3 + ?B * uint a4))) = ?V + 19 * uint q" by (simp add: e0)
    finally show ?thesis .
  qed
  have vm: "fe_val h mod P25519 = ?V mod P25519" using V by (metis mod_mult_self2)
  have V0: "0 \<le> ?V" by simp
  have Vlt: "?V < 2 ^ 255 + 2 ^ 52"
    using lt d1(2) by simp
  have canon: "?F = ?V mod P25519"
  proof (cases "?V + 19 < 2 ^ 255")
    case True
    then have "uint q = 0" using V0 unfolding q by (intro div_pos_pos_trivial) simp_all
    then have "?F = ?V" using True V0 unfolding F by (simp add: mod_pos_pos_trivial)
    moreover have "?V mod P25519 = ?V" using True V0 by (intro mod_pos_pos_trivial) (simp_all add: P25519_def)
    ultimately show ?thesis by simp
  next
    case False
    have "0 < uint q" unfolding q using False by (simp add: pos_imp_zdiv_pos_iff)
    then have q1: "uint q = 1" using q4(2) by simp
    have "(?V + 19) mod 2 ^ 255 = (?V + 19 - 2 ^ 255) mod 2 ^ 255" using False by (intro mod_pos_geq) simp_all
    also have "\<dots> = ?V + 19 - 2 ^ 255" using False Vlt by (intro mod_pos_pos_trivial) simp_all
    finally have "?F = ?V - P25519" unfolding F q1 P25519_def by simp
    moreover have "?V mod P25519 = (?V - P25519) mod P25519" using False by (intro mod_pos_geq) (simp_all add: P25519_def)
    moreover have "(?V - P25519) mod P25519 = ?V - P25519"
      using False Vlt by (intro mod_pos_pos_trivial) (simp_all add: P25519_def)
    ultimately show ?thesis by simp
  qed
  have flt: "uint f0 < ?B" "uint f1 < ?B" "uint f2 < ?B" "uint f3 < ?B" "uint f4 < ?B"
    unfolding f0_def f1_def f2_def f3_def f4_def by (rule Mlt)+
  define bs where "bs = st8 (f0 OR push_bit 51 f1) @ st8 (drop_bit 13 f1 OR push_bit 38 f2)
      @ st8 (drop_bit 26 f2 OR push_bit 25 f3) @ st8 (drop_bit 39 f3 OR push_bit 12 f4)"
  have "fe_tobytes h = bs"
    unfolding h fe_tobytes_def prod.case fe_carry_def Let_def bs_def b2_def [symmetric] unfolding b3_def [symmetric]
    unfolding b4_def [symmetric] unfolding b0_def [symmetric] a2_def [symmetric] a3_def [symmetric] a4_def [symmetric]
    unfolding d1_def [symmetric] a0_def [symmetric] unfolding q0_def [symmetric] unfolding q1_def [symmetric]
    unfolding q2_def [symmetric] unfolding q3_def [symmetric] unfolding q_def [symmetric] unfolding e0_def [symmetric]
    unfolding e1_def [symmetric] unfolding e2_def [symmetric] unfolding e3_def [symmetric] unfolding e4_def [symmetric]
    unfolding f0_def [symmetric] f1_def [symmetric] f2_def [symmetric] f3_def [symmetric] f4_def [symmetric] ..
  moreover have "int (le_val bs) = ?F"
  proof -
    have w0: "uint (f0 OR push_bit 51 f1) = uint f0 + 2 ^ 51 * (uint f1 mod 2 ^ 13)"
      using uint_or_shift [of f0 51 f1] flt by simp
    have w1: "uint (drop_bit 13 f1 OR push_bit 38 f2) = uint f1 div 2 ^ 13 + 2 ^ 38 * (uint f2 mod 2 ^ 26)"
      using uint_or_shift [of "drop_bit 13 f1" 38 f2] flt by (simp add: uint_drop)
    have w2: "uint (drop_bit 26 f2 OR push_bit 25 f3) = uint f2 div 2 ^ 26 + 2 ^ 25 * (uint f3 mod 2 ^ 39)"
      using uint_or_shift [of "drop_bit 26 f2" 25 f3] flt by (simp add: uint_drop)
    have w3: "uint (drop_bit 39 f3 OR push_bit 12 f4) = uint f3 div 2 ^ 39 + 2 ^ 12 * (uint f4 mod 2 ^ 52)"
      using uint_or_shift [of "drop_bit 39 f3" 12 f4] flt by (simp add: uint_drop)
    have f4m: "uint f4 mod 2 ^ 52 = uint f4" using flt(5) by (intro mod_pos_pos_trivial) simp_all
    have d: "x = 2 ^ k * (x div 2 ^ k) + x mod 2 ^ k" for x :: int and k by (rule mult_div_mod_eq [symmetric])
    have "int (le_val bs) = uint (f0 OR push_bit 51 f1) + 2 ^ 64 * (uint (drop_bit 13 f1 OR push_bit 38 f2)
        + 2 ^ 64 * (uint (drop_bit 26 f2 OR push_bit 25 f3) + 2 ^ 64 * uint (drop_bit 39 f3 OR push_bit 12 f4)))"
      unfolding bs_def le_val_append le_val_st8 length_st8 by simp
    also have "\<dots> = ?F"
      unfolding w0 w1 w2 w3 f4m by (rule pack_identity [OF d d d])
    finally show ?thesis .
  qed
  moreover have "length bs = 32" by (simp add: bs_def)
  moreover have "bs = le_bytes (length bs) (le_val bs)" by (rule le_bytes_le_val [symmetric])
  ultimately show ?thesis unfolding vm canon [symmetric] by (metis nat_int)
qed

end
