(* ===== verification/X25519.thy ===== *)
theory X25519
  imports Field25519
begin

text \<open>
  The Diffie-Hellman function of \<^verbatim>\<open>kernel/crypto/x25519.c\<close>: the ladder with its delayed conditional
  swaps on limbs, against the ladder of RFC 7748 on integers modulo the prime.
\<close>

section \<open>The code\<close>

definition clamp :: "bytes \<Rightarrow> bytes" where
  "clamp scalar =
     (let k = map (\<lambda>i. scalar ! i) [0..<32];
          k = k[0 := k ! 0 AND 248];
          k = k[31 := k ! 31 AND 127]
      in k[31 := k ! 31 OR 64])"

type_synonym ladder = "fe \<times> fe \<times> fe \<times> fe \<times> u32"

text \<open>The field operations of one turn, on the operands the swaps have put in place.\<close>

definition ladder_ops :: "fe \<Rightarrow> fe \<Rightarrow> fe \<Rightarrow> fe \<Rightarrow> fe \<Rightarrow> fe \<times> fe \<times> fe \<times> fe" where
  "ladder_ops x1 x2 z2 x3 z3 =
     (let a = fe_add x2 z2;
          aa = fe_sqr a;
          b = fe_sub x2 z2;
          bb = fe_sqr b;
          e = fe_sub aa bb;
          c = fe_add x3 z3;
          d = fe_sub x3 z3;
          da = fe_mul d a;
          cb = fe_mul c b;
          t0 = fe_add da cb;
          x3 = fe_sqr t0;
          t1 = fe_sub da cb;
          t1 = fe_sqr t1;
          z3 = fe_mul x1 t1;
          x2 = fe_mul aa bb;
          t0 = fe_mul121665 e;
          t0 = fe_add aa t0;
          z2 = fe_mul e t0
      in (x2, z2, x3, z3))"

definition ladder_step :: "bytes \<Rightarrow> fe \<Rightarrow> nat \<Rightarrow> ladder \<Rightarrow> ladder" where
  "ladder_step k x1 t = (\<lambda>(x2, z2, x3, z3, swap).
     let kt = ucast (drop_bit (t mod 8) (k ! (t div 8)) AND 1) :: u32;
         swap = swap XOR kt;
         (x2, x3) = fe_cswap x2 x3 swap;
         (z2, z3) = fe_cswap z2 z3 swap;
         (x2, z2, x3, z3) = ladder_ops x1 x2 z2 x3 z3
     in (x2, z2, x3, z3, kt))"

definition x25519_scalarmult :: "bytes \<Rightarrow> bytes \<Rightarrow> bytes" where
  "x25519_scalarmult scalar_in u_in =
     (let k = clamp scalar_in;
          x1 = fe_frombytes u_in;
          (x2, z2, x3, z3, swap) =
            fold (ladder_step k x1) (rev [0..<255]) ((1, 0, 0, 0, 0), (0, 0, 0, 0, 0), x1, (1, 0, 0, 0, 0), 0);
          (x2, x3) = fe_cswap x2 x3 swap;
          (z2, z3) = fe_cswap z2 z3 swap
      in fe_tobytes (fe_mul x2 (fe_inv z2)))"

definition x25519_public :: "bytes \<Rightarrow> bytes" where
  "x25519_public priv = x25519_scalarmult priv ((replicate 32 0)[0 := 9])"

definition x25519_shared :: "bytes \<Rightarrow> bytes \<Rightarrow> int \<times> bytes" where
  "x25519_shared priv peer_pub =
     (let out = x25519_scalarmult priv peer_pub;
          acc = fold (\<lambda>i acc. acc OR out ! i) [0..<32] 0
      in (if acc = 0 then -1 else 0, out))"

section \<open>RFC 7748\<close>

text \<open>The decoded scalar: a multiple of 8 between \<open>2^254\<close> and \<open>2^255\<close>.\<close>

definition rfc_scalar :: "bytes \<Rightarrow> nat" where
  "rfc_scalar k = 2 ^ 254 + 8 * (le_val k div 8 mod 2 ^ 251)"

definition rfc_u :: "bytes \<Rightarrow> int" where
  "rfc_u u = int (le_val u mod 2 ^ 255)"

text \<open>One differential double-and-add, on the projective \<open>(x2 : z2)\<close> and \<open>(x3 : z3)\<close>.\<close>

definition rfc_double_add :: "int \<Rightarrow> (int \<times> int) \<times> (int \<times> int) \<Rightarrow> (int \<times> int) \<times> (int \<times> int)" where
  "rfc_double_add x1 = (\<lambda>((x2, z2), (x3, z3)).
     let A = (x2 + z2) mod P25519; B = (x2 - z2) mod P25519;
         AA = A ^ 2 mod P25519; BB = B ^ 2 mod P25519; E = (AA - BB) mod P25519;
         DA = (x3 - z3) * A mod P25519; CB = (x3 + z3) * B mod P25519
     in ((AA * BB mod P25519, E * (AA + 121665 * E) mod P25519),
         ((DA + CB) ^ 2 mod P25519, x1 * (DA - CB) ^ 2 mod P25519)))"

text \<open>The ladder without swaps in flight: the bit says which point is doubled.\<close>

definition rfc_bit :: "int \<Rightarrow> bool \<Rightarrow> (int \<times> int) \<times> (int \<times> int) \<Rightarrow> (int \<times> int) \<times> (int \<times> int)" where
  "rfc_bit x1 b s = (if b then prod.swap (rfc_double_add x1 (prod.swap s)) else rfc_double_add x1 s)"

definition rfc_x25519 :: "bytes \<Rightarrow> bytes \<Rightarrow> bytes" where
  "rfc_x25519 k u =
     (let n = rfc_scalar k; x1 = rfc_u u;
          ((x2, z2), _) = fold (\<lambda>t. rfc_bit x1 (bit n t)) (rev [0..<255]) ((1, 0), (x1, 1))
      in le_bytes 32 (nat (x2 * z2 ^ (2 ^ 255 - 21) mod P25519)))"

section \<open>Field elements that stand for a number\<close>

definition rep :: "fe \<Rightarrow> int \<Rightarrow> bool" where
  "rep f a \<longleftrightarrow> reduced f \<and> fe_val f mod P25519 = a mod P25519"

definition lrep :: "fe \<Rightarrow> int \<Rightarrow> bool" where
  "lrep f a \<longleftrightarrow> loose f \<and> fe_val f mod P25519 = a mod P25519"

lemma rep_lrep: "rep f a \<Longrightarrow> lrep f a"
  by (simp add: rep_def lrep_def reduced_loose)

lemma rep_mod [simp]: "rep f (a mod P25519) \<longleftrightarrow> rep f a"
  by (simp add: rep_def)

lemma lrep_mod [simp]: "lrep f (a mod P25519) \<longleftrightarrow> lrep f a"
  by (simp add: lrep_def)

lemma rep_cong: "rep f a \<Longrightarrow> a mod P25519 = b mod P25519 \<Longrightarrow> rep f b"
  by (simp add: rep_def)

lemma rep_add: "rep f a \<Longrightarrow> rep g b \<Longrightarrow> lrep (fe_add f g) (a + b)"
  using fe_add_val [of f g] by (auto simp: rep_def lrep_def intro: mod_add_cong)

lemma rep_sub: "rep f a \<Longrightarrow> rep g b \<Longrightarrow> lrep (fe_sub f g) (a - b)"
  using fe_sub_val [of f g] mod_diff_cong [of "fe_val f" P25519 a "fe_val g" b] by (simp add: rep_def lrep_def)

lemma lrep_mul: "lrep f a \<Longrightarrow> lrep g b \<Longrightarrow> rep (fe_mul f g) (a * b)"
  using fe_mul_val [of f g] mod_mult_cong [of "fe_val f" P25519 a "fe_val g" b] by (simp add: rep_def lrep_def)

lemma lrep_sqr: "lrep f a \<Longrightarrow> rep (fe_sqr f) (a ^ 2)"
  using fe_sqr_val [of f] mod_mult_cong [of "fe_val f" P25519 a "fe_val f" a] by (simp add: rep_def lrep_def power2_eq_square)

lemma lrep_mul121665: "lrep f a \<Longrightarrow> rep (fe_mul121665 f) (121665 * a)"
  using fe_mul121665_val [of f] mod_mult_cong [of 121665 P25519 121665 "fe_val f" a] by (simp add: rep_def lrep_def)

lemma rep_inv: "rep f a \<Longrightarrow> rep (fe_inv f) (a ^ (2 ^ 255 - 21))"
  using fe_inv_val [of f] power_mod [of "fe_val f" P25519 "2 ^ 255 - 21"] power_mod [of a P25519 "2 ^ 255 - 21"]
  by (auto simp only: rep_def)

lemmas rep_intros = rep_add rep_sub lrep_mul lrep_sqr lrep_mul121665 rep_lrep

lemma ladder_ops_rep:
  assumes "rep x1 u" "rep x2 a" "rep z2 b" "rep x3 c" "rep z3 d"
    "ladder_ops x1 x2 z2 x3 z3 = (y2, w2, y3, w3)" "rfc_double_add u ((a, b), (c, d)) = ((a', b'), (c', d'))"
  shows "rep y2 a' \<and> rep w2 b' \<and> rep y3 c' \<and> rep w3 d'"
proof -
  note in' = assms(1-5)
  define A where "A = (a + b) mod P25519"
  define B where "B = (a - b) mod P25519"
  define AA where "AA = A ^ 2 mod P25519"
  define BB where "BB = B ^ 2 mod P25519"
  define E where "E = (AA - BB) mod P25519"
  define DA where "DA = (c - d) * A mod P25519"
  define CB where "CB = (c + d) * B mod P25519"
  define fa where "fa = fe_add x2 z2"
  define fb where "fb = fe_sub x2 z2"
  define faa where "faa = fe_sqr fa"
  define fbb where "fbb = fe_sqr fb"
  define e where "e = fe_sub faa fbb"
  define da where "da = fe_mul (fe_sub x3 z3) fa"
  define cb where "cb = fe_mul (fe_add x3 z3) fb"
  have A: "lrep fa A" and B: "lrep fb B"
    using rep_add [OF in'(2,3)] rep_sub [OF in'(2,3)] by (simp_all add: fa_def fb_def A_def B_def)
  have AA: "rep faa AA" and BB: "rep fbb BB"
    using lrep_sqr [OF A] lrep_sqr [OF B] by (simp_all add: faa_def fbb_def AA_def BB_def)
  have E: "lrep e E" using rep_sub [OF AA BB] by (simp add: e_def E_def)
  have DA: "rep da DA" and CB: "rep cb CB"
    using lrep_mul [OF rep_sub [OF in'(4,5)] A] lrep_mul [OF rep_add [OF in'(4,5)] B]
    by (simp_all add: da_def cb_def DA_def CB_def)
  have y: "y2 = fe_mul faa fbb" "w2 = fe_mul e (fe_add faa (fe_mul121665 e))" "y3 = fe_sqr (fe_add da cb)"
    "w3 = fe_mul x1 (fe_sqr (fe_sub da cb))"
    using assms(6) by (simp_all add: ladder_ops_def Let_def fa_def fb_def faa_def fbb_def e_def da_def cb_def)
  have v: "a' = AA * BB mod P25519" "b' = E * (AA + 121665 * E) mod P25519" "c' = (DA + CB) ^ 2 mod P25519"
    "d' = u * (DA - CB) ^ 2 mod P25519"
    using assms(7) unfolding rfc_double_add_def prod.case Let_def A_def [symmetric] B_def [symmetric]
    unfolding AA_def [symmetric] BB_def [symmetric] DA_def [symmetric] CB_def [symmetric]
    unfolding E_def [symmetric] by blast+
  have "rep y2 a'" unfolding y v rep_mod by (intro lrep_mul rep_lrep AA BB)
  moreover have "rep w2 b'" unfolding y v rep_mod by (intro lrep_mul E rep_add AA lrep_mul121665)
  moreover have "rep y3 c'" unfolding y v rep_mod by (intro lrep_sqr rep_add DA CB)
  moreover have "rep w3 d'" unfolding y v rep_mod
    by (rule lrep_mul [OF rep_lrep [OF in'(1)] rep_lrep [OF lrep_sqr [OF rep_sub [OF DA CB]]]])
  ultimately show ?thesis by blast
qed

text \<open>The swap in flight: with \<open>s\<close> pending, the code holds the two points exchanged.\<close>

definition ladder_rep :: "ladder \<Rightarrow> (int \<times> int) \<times> (int \<times> int) \<Rightarrow> bool" where
  "ladder_rep = (\<lambda>(x2, z2, x3, z3, swap) s. \<exists>sw. swap = (if sw then 1 else 0) \<and>
     (case (if sw then prod.swap s else s) of ((a, b), (c, d)) \<Rightarrow> rep x2 a \<and> rep z2 b \<and> rep x3 c \<and> rep z3 d))"

lemma points_cases: obtains a b c d where "s = ((a, b), (c, d))"
  by (cases s) auto

lemma ladder_step_rep:
  assumes "rep x1 u" "ladder_rep l s"
  shows "ladder_rep (ladder_step k x1 t l) (rfc_bit u (bit (k ! (t div 8)) (t mod 8)) s)"
proof -
  obtain x2 z2 x3 z3 swap where l: "l = (x2, z2, x3, z3, swap)" by (cases l)
  obtain sw a b c d where sw: "swap = (if sw then 1 else 0)" "(if sw then prod.swap s else s) = ((a, b), (c, d))"
    "rep x2 a" "rep z2 b" "rep x3 c" "rep z3 d"
  proof -
    obtain sw where w: "swap = (if sw then 1 else 0)" "case (if sw then prod.swap s else s) of ((a, b), (c, d)) \<Rightarrow>
        rep x2 a \<and> rep z2 b \<and> rep x3 c \<and> rep z3 d"
      using assms(2) unfolding l ladder_rep_def prod.case by (elim exE conjE) (rule that)
    obtain a b c d where "(if sw then prod.swap s else s) = ((a, b), (c, d))" by (rule points_cases)
    then show ?thesis using w by (intro that [of sw a b c d]) simp_all
  qed
  let ?b = "bit (k ! (t div 8)) (t mod 8)"
  have kt: "ucast (drop_bit (t mod 8) (k ! (t div 8)) AND 1) = (if ?b then 1 else 0 :: u32)"
    by (simp add: and_one_eq mod_2_eq_odd bit_iff_odd_drop_bit)
  have xor: "swap XOR (if ?b then 1 else 0) = (if sw \<noteq> ?b then 1 else 0)" by (simp add: sw(1))
  define p where "p = (if sw \<noteq> ?b then (x3, z3, x2, z2) else (x2, z2, x3, z3))"
  obtain y2 w2 y3 w3 where p: "p = (y2, w2, y3, w3)" by (cases p)
  obtain v2 n2 v3 n3 where o: "ladder_ops x1 y2 w2 y3 w3 = (v2, n2, v3, n3)" by (cases "ladder_ops x1 y2 w2 y3 w3")
  have step: "ladder_step k x1 t l = (v2, n2, v3, n3, if ?b then 1 else 0)"
    using p o unfolding l ladder_step_def prod.case Let_def kt xor fe_cswap_val p_def
    by (cases "sw \<noteq> ?b") simp_all
  obtain e f g h where q: "(if ?b then prod.swap s else s) = ((e, f), (g, h))" by (rule points_cases)
  have r: "rep y2 e" "rep w2 f" "rep y3 g" "rep w3 h"
    using sw(2-6) p q unfolding p_def by (cases sw; cases ?b; auto)+
  obtain e' f' g' h' where d: "rfc_double_add u ((e, f), (g, h)) = ((e', f'), (g', h'))" by (rule points_cases)
  have "rep v2 e' \<and> rep n2 f' \<and> rep v3 g' \<and> rep n3 h'" by (rule ladder_ops_rep [OF assms(1) r o d])
  moreover have "rfc_bit u ?b s = (if ?b then prod.swap ((e', f'), (g', h')) else ((e', f'), (g', h')))"
    using q d by (simp add: rfc_bit_def split: if_splits)
  ultimately show ?thesis unfolding step ladder_rep_def by auto
qed

lemma ladder_rep_fold:
  assumes "rep x1 u" "ladder_rep l s"
  shows "ladder_rep (fold (ladder_step k x1) ts l) (fold (\<lambda>t. rfc_bit u (bit (k ! (t div 8)) (t mod 8))) ts s)"
  using assms(2)
proof (induction ts arbitrary: l s)
  case (Cons t ts)
  then show ?case using ladder_step_rep [OF assms(1) Cons.prems] by simp
qed simp

section \<open>The scalar\<close>

lemma bit_le_val: "t < 8 * length bs \<Longrightarrow> bit (le_val bs) t = bit (bs ! (t div 8)) (t mod 8)"
proof (induction bs arbitrary: t)
  case (Cons b bs)
  have u: "unat b < 2 ^ 8" using unat_u8_less [of b] by simp
  show ?case
  proof (cases "t < 8")
    case True
    have "take_bit 8 (unat b + 256 * le_val bs) = unat b" using u by (simp add: take_bit_eq_mod)
    then have "bit (unat b) t = bit (le_val (b # bs)) t" using True by (metis bit_take_bit_iff le_val.simps(2))
    then show ?thesis using True by (simp add: bit_unsigned_iff)
  next
    case False
    have "drop_bit 8 (unat b + 256 * le_val bs) = le_val bs" using u by (simp add: drop_bit_eq_div)
    then have "bit (le_val (b # bs)) t = bit (le_val bs) (t - 8)"
      using False by (metis bit_drop_bit_eq comp_apply le_add_diff_inverse le_val.simps(2) linorder_not_less)
    moreover have "t div 8 = Suc ((t - 8) div 8)" "t mod 8 = (t - 8) mod 8"
      using False by (simp_all add: le_div_geq le_mod_geq)
    ultimately show ?thesis using Cons False by simp
  qed
qed simp

lemma clamped_bits:
  assumes "3 \<le> m"
  shows "push_bit m 1 AND push_bit 3 (take_bit (m - 3) x) = (0 :: nat)"
    "bit (push_bit m 1 OR push_bit 3 (take_bit (m - 3) (drop_bit 3 (x :: nat)))) t \<longleftrightarrow> t = m \<or> 3 \<le> t \<and> t < m \<and> bit x t"
  using assms by (auto simp: bit_simps intro: bit_eqI)

lemma rfc_scalar_bit: "bit (rfc_scalar k) t \<longleftrightarrow> t = 254 \<or> 3 \<le> t \<and> t < 254 \<and> bit (le_val k) t"
proof -
  let ?a = "push_bit 254 1 :: nat" and ?b = "push_bit 3 (take_bit (254 - 3) (drop_bit 3 (le_val k)))"
  have "rfc_scalar k = ?a + ?b"
    by (simp only: rfc_scalar_def push_bit_eq_mult take_bit_eq_mod drop_bit_eq_div) simp
  also have "?a + ?b = ?a OR ?b"
    by (rule disjunctive_add_eq_or) (rule clamped_bits, simp)
  finally show ?thesis using clamped_bits(2) [of 254 "le_val k" t] by simp
qed

lemma byte_masks:
  assumes "j < 8"
  shows "bit (248 :: u8) j \<longleftrightarrow> 3 \<le> j" "bit (127 :: u8) j \<longleftrightarrow> j < 7" "bit (64 :: u8) j \<longleftrightarrow> j = 6"
proof -
  have "j = 0 \<or> j = 1 \<or> j = 2 \<or> j = 3 \<or> j = 4 \<or> j = 5 \<or> j = 6 \<or> j = 7" using assms by auto
  then show "bit (248 :: u8) j \<longleftrightarrow> 3 \<le> j" "bit (127 :: u8) j \<longleftrightarrow> j < 7" "bit (64 :: u8) j \<longleftrightarrow> j = 6"
    by (elim disjE; simp)+
qed

lemma clamp_bit:
  assumes "length scalar = 32" "t < 255"
  shows "bit (clamp scalar ! (t div 8)) (t mod 8) = bit (rfc_scalar scalar) t"
proof -
  have c: "clamp scalar ! i = (if i = 0 then scalar ! 0 AND 248 else if i = 31 then (scalar ! 31 AND 127) OR 64 else scalar ! i)"
    if "i < 32" for i
    using that assms(1) by (simp add: clamp_def Let_def nth_list_update del: upt_rec_numeral)
  have v: "bit (le_val scalar) t = bit (scalar ! (t div 8)) (t mod 8)" using assms by (intro bit_le_val) simp
  have j: "t mod 8 < 8" "t div 8 < 32" using assms(2) by simp_all
  consider "t < 8" "t div 8 = 0" "t mod 8 = t" | "248 \<le> t" "t div 8 = 31" "t mod 8 = t - 248" | "8 \<le> t" "t < 248"
    using assms(2) by (cases "t < 8"; cases "248 \<le> t") (auto simp: le_mod_geq)
  then show ?thesis
  proof cases
    case 1
    then show ?thesis using byte_masks [OF j(1)] v by (auto simp: c rfc_scalar_bit bit_simps)
  next
    case 2
    then show ?thesis using byte_masks [OF j(1)] v assms(2) by (auto simp: c rfc_scalar_bit bit_simps)
  next
    case 3
    then have "t div 8 \<noteq> 0" "t div 8 \<noteq> 31" by auto
    then show ?thesis using 3 v j by (simp add: c rfc_scalar_bit)
  qed
qed

section \<open>Agreement with the standard\<close>

lemma x25519_rfc:
  assumes "length scalar = 32" "length u = 32"
  shows "x25519_scalarmult scalar u = rfc_x25519 scalar u"
proof -
  let ?x1 = "fe_frombytes u" and ?u = "rfc_u u"
  let ?one = "(1, 0, 0, 0, 0) :: fe" and ?zero = "(0, 0, 0, 0, 0) :: fe"
  let ?ts = "rev [0..<255]"
  have x1: "rep ?x1 ?u" using fe_frombytes_val [OF assms(2)] by (simp add: rep_def rfc_u_def)
  have c: "rep ?one 1" "rep ?zero 0" by (simp_all add: rep_def limbs_defs fe_val_def)
  have init: "ladder_rep (?one, ?zero, ?x1, ?one, 0) ((1, 0), (?u, 1))"
    unfolding ladder_rep_def prod.case using x1 c by (intro exI [of _ False]) simp
  have bits: "fold (\<lambda>t. rfc_bit ?u (bit (clamp scalar ! (t div 8)) (t mod 8))) ?ts s
      = fold (\<lambda>t. rfc_bit ?u (bit (rfc_scalar scalar) t)) ?ts s" for s
    by (rule fold_cong) (simp_all add: clamp_bit [OF assms(1)] del: upt_rec_numeral)
  obtain x2 z2 x3 z3 swap where l: "fold (ladder_step (clamp scalar) ?x1) ?ts (?one, ?zero, ?x1, ?one, 0) = (x2, z2, x3, z3, swap)"
    by (metis prod.exhaust)
  obtain a b c d where s: "fold (\<lambda>t. rfc_bit ?u (bit (rfc_scalar scalar) t)) ?ts ((1, 0), (?u, 1)) = ((a, b), (c, d))"
    by (rule points_cases)
  have "ladder_rep (x2, z2, x3, z3, swap) ((a, b), (c, d))"
    using ladder_rep_fold [OF x1 init, of "clamp scalar" ?ts] unfolding l bits s .
  then obtain sw where sw: "swap = (if sw then 1 else 0)"
    "case (if sw then prod.swap ((a, b), (c, d)) else ((a, b), (c, d))) of ((a, b), (c, d)) \<Rightarrow> rep x2 a \<and> rep z2 b \<and> rep x3 c \<and> rep z3 d"
    unfolding ladder_rep_def prod.case by (elim exE conjE) (rule that)
  define y where "y = (if sw then x3 else x2)"
  define w where "w = (if sw then z3 else z2)"
  have yw: "rep y a" "rep w b" using sw(2) by (cases sw; simp add: y_def w_def)+
  have code: "x25519_scalarmult scalar u = fe_tobytes (fe_mul y (fe_inv w))"
    unfolding x25519_scalarmult_def Let_def l prod.case sw(1) fe_cswap_val y_def w_def by (cases sw) simp_all
  have r: "rep (fe_mul y (fe_inv w)) (a * b ^ (2 ^ 255 - 21))"
    by (rule lrep_mul [OF rep_lrep [OF yw(1)] rep_lrep [OF rep_inv [OF yw(2)]]])
  then have "fe_tobytes (fe_mul y (fe_inv w)) = le_bytes 32 (nat (a * b ^ (2 ^ 255 - 21) mod P25519))"
    using fe_tobytes_val [of "fe_mul y (fe_inv w)"] by (simp only: rep_def)
  then show ?thesis unfolding code rfc_x25519_def Let_def s prod.case .
qed

lemma length_rfc_x25519: "length (rfc_x25519 k u) = 32"
  by (simp add: rfc_x25519_def le_bytes_def split_beta Let_def)

section \<open>Properties\<close>

text \<open>
  C18. The limb arithmetic with its lazy carries and delayed swaps computes the X25519 function of
  RFC 7748: on every scalar and every \<open>u\<close>-coordinate, bit for bit, with no overflow on the way and the
  result in canonical form. The public key is the function at 9, and the shared secret is refused exactly
  when it is zero.
\<close>
theorem x25519_correct:
  assumes "length priv = 32" "length peer = 32"
  shows "x25519_scalarmult priv peer = rfc_x25519 priv peer
    \<and> x25519_public priv = rfc_x25519 priv (le_bytes 32 9)
    \<and> x25519_shared priv peer = (if rfc_x25519 priv peer = replicate 32 0 then -1 else 0, rfc_x25519 priv peer)"
proof -
  have nine: "(replicate 32 0)[0 := 9] = le_bytes 32 9"
  proof (rule nth_equalityI)
    fix i assume "i < length ((replicate 32 (0 :: u8))[0 := 9])"
    then have i: "i < 32" by simp
    have "9 div 256 ^ i = (if i = 0 then 9 else 0 :: nat)"
    proof (cases i)
      case (Suc j)
      have "(256 :: nat) ^ j \<ge> 1" by simp
      then have "9 < (256 :: nat) ^ i" unfolding Suc power_Suc by linarith
      then show ?thesis using Suc by simp
    qed simp
    then show "(replicate 32 0)[0 := 9] ! i = le_bytes 32 9 ! i" using i by (simp add: le_bytes_def del: upt_rec_numeral)
  qed (simp add: le_bytes_def)
  have or: "fold (\<lambda>i acc. acc OR f i) is acc = 0 \<longleftrightarrow> acc = 0 \<and> (\<forall>i \<in> set is. f i = 0)" for f "is" and acc :: u8
    by (induction "is" arbitrary: acc) (auto simp: or_eq_0_iff)
  have z: "(\<forall>i \<in> set [0..<32]. out ! i = 0) \<longleftrightarrow> out = replicate 32 0" if "length out = 32" for out :: bytes
    using that by (auto simp: list_eq_iff_nth_eq simp del: upt_rec_numeral)
  have m: "x25519_scalarmult priv peer = rfc_x25519 priv peer" by (rule x25519_rfc [OF assms])
  have pub: "x25519_public priv = rfc_x25519 priv (le_bytes 32 9)"
    unfolding x25519_public_def nine by (rule x25519_rfc [OF assms(1)]) (simp only: le_bytes_def length_map length_upt)
  have "x25519_shared priv peer = (if rfc_x25519 priv peer = replicate 32 0 then -1 else 0, rfc_x25519 priv peer)"
    unfolding x25519_shared_def m Let_def or z [OF length_rfc_x25519] by (simp only: simp_thms)
  with m pub show ?thesis by (intro conjI)
qed

theorem x25519_correct_witness:
  "x25519_scalarmult (replicate 32 7) (replicate 32 9) = rfc_x25519 (replicate 32 7) (replicate 32 9)"
  using x25519_correct [of "replicate 32 7" "replicate 32 9"] by simp

end
