(* ===== verification/Bn.thy ===== *)
theory Bn
  imports Icda_Prelude "HOL-Library.Monad_Syntax"
begin

text \<open>
  The big numbers of \<^verbatim>\<open>kernel/crypto/bn.c\<close>: 256 words of 32 bits and a length. A number that a C function
  leaves on the stack without initialising it is an argument (\<open>junk\<close>) of the definition; the loops that
  stop when a number has become small are \<open>partial_function (option)\<close>, and a write behind the 256th word
  is \<open>None\<close>.
\<close>

record bn =
  bn_d :: "u32 list"
  bn_len :: nat

section \<open>The code\<close>

definition BN_MAX_WORDS :: nat where "BN_MAX_WORDS = 256"

definition bn_zero :: bn where
  "bn_zero = \<lparr>bn_d = replicate BN_MAX_WORDS 0, bn_len = 0\<rparr>"

text \<open>\<^verbatim>\<open>while (len > k && d[len - 1] == 0) len--;\<close>\<close>

fun trim_len :: "nat \<Rightarrow> u32 list \<Rightarrow> nat \<Rightarrow> nat" where
  "trim_len k d n = (if n > k \<and> d ! (n - 1) = 0 then trim_len k d (n - 1) else n)"

declare trim_len.simps [simp del]

definition bn_trim :: "bn \<Rightarrow> bn" where
  "bn_trim r = (let n = trim_len 0 (bn_d r) (bn_len r) in r\<lparr>bn_len := if n = 0 then 1 else n\<rparr>)"

definition be_word :: "bytes \<Rightarrow> nat \<Rightarrow> u32" where
  "be_word bs i = push_bit 24 (ucast (bs ! i)) OR push_bit 16 (ucast (bs ! (i + 1)))
     OR push_bit 8 (ucast (bs ! (i + 2))) OR ucast (bs ! (i + 3))"

text \<open>A negative length (of a malformed certificate) reads nothing, like 0.\<close>

definition bn_from_bytes :: "bytes \<Rightarrow> int \<Rightarrow> int \<times> bn" where
  "bn_from_bytes bs len =
     (if len > int (BN_MAX_WORDS * 4) then (-1, bn_zero)
      else let n = nat len;
               d = fold (\<lambda>k d. d[k := be_word bs (n - 4 * (k + 1))]) [0..<n div 4] (bn_d bn_zero);
               idx = n div 4;
               (d, idx) = (if n mod 4 \<noteq> 0
                 then (d[idx := fold (\<lambda>j v. push_bit 8 v OR ucast (bs ! j)) [0..<n mod 4] 0], idx + 1)
                 else (d, idx))
           in (0, bn_trim \<lparr>bn_d = d, bn_len = idx\<rparr>))"

definition bn_from_uint32 :: "u32 \<Rightarrow> bn" where
  "bn_from_uint32 v = bn_zero\<lparr>bn_d := (bn_d bn_zero)[0 := v], bn_len := 1\<rparr>"

definition bn_is_zero :: "bn \<Rightarrow> bool" where
  "bn_is_zero a \<longleftrightarrow> list_all (\<lambda>i. bn_d a ! i = 0) [0..<bn_len a]"

definition bn_cmp :: "bn \<Rightarrow> bn \<Rightarrow> int" where
  "bn_cmp a b =
     (if bn_len a \<noteq> bn_len b then int (bn_len a) - int (bn_len b)
      else case find (\<lambda>i. bn_d a ! i \<noteq> bn_d b ! i) (rev [0..<bn_len a]) of
        None \<Rightarrow> 0 | Some i \<Rightarrow> if bn_d a ! i > bn_d b ! i then 1 else -1)"

function add_loop :: "bn \<Rightarrow> bn \<Rightarrow> nat \<Rightarrow> u64 \<Rightarrow> bn \<Rightarrow> bn option" where
  "add_loop a b i carry r =
     (if i < max (bn_len a) (bn_len b) \<or> carry \<noteq> 0
      then if i \<ge> BN_MAX_WORDS then None
           else let s = carry;
                    s = (if i < bn_len a then s + ucast (bn_d a ! i) else s);
                    s = (if i < bn_len b then s + ucast (bn_d b ! i) else s)
                in add_loop a b (i + 1) (drop_bit 32 s) \<lparr>bn_d = (bn_d r)[i := ucast s], bn_len = i + 1\<rparr>
      else Some r)"
  by pat_completeness auto
termination by (relation "measure (\<lambda>(a, b, i, c, r). BN_MAX_WORDS - i)") auto

declare add_loop.simps [simp del]

definition bn_add :: "bn \<Rightarrow> bn \<Rightarrow> bn option" where
  "bn_add a b = add_loop a b 0 0 bn_zero"

text \<open>One word of a difference: the word and the new borrow.\<close>

definition sub_word64 :: "u64 \<Rightarrow> u64 \<Rightarrow> u64 \<Rightarrow> u32 \<times> u64" where
  "sub_word64 va vb borrow =
     (let diff = va - vb - borrow;
          diff = (if va < vb + borrow then diff + push_bit 32 1 else diff)
      in (ucast (diff AND 0xFFFFFFFF), if va < vb + borrow then 1 else 0))"

definition sub_step :: "bn \<Rightarrow> bn \<Rightarrow> nat \<Rightarrow> bn \<times> u64 \<Rightarrow> bn \<times> u64" where
  "sub_step a b i = (\<lambda>(r, borrow).
     let va = (if i < bn_len a then ucast (bn_d a ! i) else 0);
         vb = (if i < bn_len b then ucast (bn_d b ! i) else 0);
         (w, borrow) = sub_word64 va vb borrow
     in (\<lparr>bn_d = (bn_d r)[i := w], bn_len = i + 1\<rparr>, borrow))"

definition bn_sub :: "bn \<Rightarrow> bn \<Rightarrow> bn" where
  "bn_sub a b = bn_trim (fst (fold (sub_step a b) [0..<max (bn_len a) (bn_len b)] (bn_zero, 0)))"

text \<open>\<^verbatim>\<open>bn_sub(r, a, r)\<close>: the result is the subtrahend, so \<^verbatim>\<open>bn_zero(r)\<close> clears it and every turn reads it back.\<close>

definition bn_sub_into_subtrahend :: "bn \<Rightarrow> bn" where
  "bn_sub_into_subtrahend a =
     bn_trim (fst (fold (\<lambda>i (r, borrow). sub_step a r i (r, borrow)) [0..<max (bn_len a) (bn_len bn_zero)] (bn_zero, 0)))"

text \<open>The inner loop of the product; \<open>True\<close> when it left the function at the 256th word.\<close>

function mul_inner :: "u32 \<Rightarrow> bn \<Rightarrow> nat \<Rightarrow> nat \<Rightarrow> u64 \<Rightarrow> bn \<Rightarrow> bool \<times> bn" where
  "mul_inner ai b i j carry r =
     (if j < bn_len b \<or> carry \<noteq> 0
      then if i + j \<ge> BN_MAX_WORDS then (True, r)
           else let s = ucast (bn_d r ! (i + j)) + carry;
                    s = (if j < bn_len b then s + ucast ai * ucast (bn_d b ! j) else s)
                in mul_inner ai b i (j + 1) (drop_bit 32 s)
                     \<lparr>bn_d = (bn_d r)[i + j := ucast (s AND 0xFFFFFFFF)], bn_len = max (i + j + 1) (bn_len r)\<rparr>
      else (False, r))"
  by pat_completeness auto
termination by (relation "measure (\<lambda>(ai, b, i, j, c, r). BN_MAX_WORDS - (i + j))") auto

declare mul_inner.simps [simp del]

fun mul_outer :: "bn \<Rightarrow> bn \<Rightarrow> nat list \<Rightarrow> bn \<Rightarrow> bool \<times> bn" where
  "mul_outer a b [] r = (False, r)"
| "mul_outer a b (i # is) r =
     (let (ret, r) = mul_inner (bn_d a ! i) b i 0 0 r in if ret then (True, r) else mul_outer a b is r)"

definition bn_mul :: "bn \<Rightarrow> bn \<Rightarrow> bn" where
  "bn_mul a b =
     (if bn_is_zero a \<or> bn_is_zero b then bn_zero
      else let (ret, r) = mul_outer a b [0..<bn_len a] bn_zero in if ret then r else bn_trim r)"

text \<open>\<^verbatim>\<open>for (i = 0; i < len; i++) dst->d[i] = src->d[i];\<close> into a number that keeps its other words.\<close>

definition copy_words :: "bn \<Rightarrow> bn \<Rightarrow> bn" where
  "copy_words dst src =
     \<lparr>bn_d = fold (\<lambda>i d. d[i := bn_d src ! i]) [0..<bn_len src] (bn_d dst), bn_len = bn_len src\<rparr>"

definition bn_copy :: "bn \<Rightarrow> bn" where
  "bn_copy src = copy_words bn_zero src"

function bit_count :: "u32 \<Rightarrow> nat" where
  "bit_count w = (if w \<noteq> 0 then 1 + bit_count (drop_bit 1 w) else 0)"
  by pat_completeness auto
termination
proof (relation "measure unat")
  fix w :: u32
  assume "w \<noteq> 0"
  then have "0 < unat w" by (simp add: unat_gt_0)
  moreover have "unat (drop_bit 1 w) = unat w div 2" by (simp only: unat_drop_bit_eq) (simp only: drop_bit_eq_div power_one_right)
  ultimately show "(drop_bit 1 w, w) \<in> measure unat" by simp
qed simp

declare bit_count.simps [simp del]

definition bn_bit_length :: "bn \<Rightarrow> int" where
  "bn_bit_length a =
     (if bn_is_zero a then 0 else (int (bn_len a) - 1) * 32 + int (bit_count (bn_d a ! (bn_len a - 1))))"

definition shift_step :: "bn \<Rightarrow> nat \<Rightarrow> nat \<Rightarrow> nat \<Rightarrow> u32 list \<times> u32 \<Rightarrow> u32 list \<times> u32" where
  "shift_step a word_shift bit_shift i = (\<lambda>(d, carry).
     let v = push_bit bit_shift (ucast (bn_d a ! i) :: u64) OR ucast carry;
         out_idx = i + word_shift
     in (if out_idx < BN_MAX_WORDS then d[out_idx := ucast (v AND 0xFFFFFFFF)] else d, ucast (drop_bit 32 v)))"

definition bn_shift_left_bits :: "bn \<Rightarrow> int \<Rightarrow> bn" where
  "bn_shift_left_bits a bits =
     (if bn_is_zero a \<or> bits < 0 then bn_from_uint32 0
      else let word_shift = nat bits div 32; bit_shift = nat bits mod 32
           in if word_shift \<ge> BN_MAX_WORDS then bn_from_uint32 0
              else let (d, carry) = fold (shift_step a word_shift bit_shift) [0..<bn_len a] (bn_d bn_zero, 0);
                       n = bn_len a + word_shift;
                       (d, n) = (if carry \<noteq> 0 \<and> n < BN_MAX_WORDS then (d[n := carry], n + 1) else (d, n))
                   in \<lparr>bn_d = d, bn_len = trim_len 1 d n\<rparr>)"

partial_function (option) mod_loop :: "bn \<Rightarrow> bn \<Rightarrow> bn option" where
  "mod_loop m tmp =
     (if bn_cmp tmp m \<ge> 0
      then let shift = bn_bit_length tmp - bn_bit_length m;
               shifted = bn_shift_left_bits m shift;
               shifted = (if bn_cmp tmp shifted < 0 \<and> shift > 0 then bn_shift_left_bits m (shift - 1) else shifted)
           in mod_loop m (bn_copy (bn_sub tmp shifted))
      else Some tmp)"

definition set_empty_zero :: "bn \<Rightarrow> bn" where
  "set_empty_zero r = (if bn_len r = 0 then \<lparr>bn_d = (bn_d r)[0 := 0], bn_len = 1\<rparr> else r)"

definition bn_mod :: "bn \<Rightarrow> bn \<Rightarrow> bn \<Rightarrow> bn option" where
  "bn_mod r a m =
     (if bn_is_zero m \<or> bn_cmp a m < 0 then Some (set_empty_zero (copy_words r a))
      else do { t \<leftarrow> mod_loop m (bn_copy a); Some (set_empty_zero (bn_copy t)) })"

text \<open>\<^verbatim>\<open>exp >>= 1\<close>, from the top word down.\<close>

definition halve_step :: "nat \<Rightarrow> u32 list \<times> u32 \<Rightarrow> u32 list \<times> u32" where
  "halve_step i = (\<lambda>(d, carry).
     let v = push_bit 32 (ucast carry :: u64) OR ucast (d ! i)
     in (d[i := ucast (drop_bit 1 v)], ucast (v AND 1)))"

definition bn_halve :: "bn \<Rightarrow> bn" where
  "bn_halve e = (let (d, _) = fold halve_step (rev [0..<bn_len e]) (bn_d e, 0) in bn_trim (e\<lparr>bn_d := d\<rparr>))"

partial_function (option) exp_loop :: "bn \<Rightarrow> bn \<Rightarrow> bn \<Rightarrow> bn \<Rightarrow> bn option" where
  "exp_loop m result base e =
     (if bn_is_zero e then Some result
      else do {
        result \<leftarrow> (if bn_d e ! 0 AND 1 \<noteq> 0 then bn_mod result (bn_mul result base) m else Some result);
        base \<leftarrow> bn_mod base (bn_mul base base) m;
        exp_loop m result base (bn_halve e)
      })"

definition bn_mod_exp :: "bn \<Rightarrow> bn \<Rightarrow> bn \<Rightarrow> bn \<Rightarrow> bn \<Rightarrow> bn \<Rightarrow> bn option" where
  "bn_mod_exp junk_base junk_exp r a e m =
     do { result \<leftarrow> exp_loop m (bn_from_uint32 1) (copy_words junk_base a) (copy_words junk_exp e);
          Some (copy_words r result) }"

definition bn_sub_mod :: "bn \<Rightarrow> bn \<Rightarrow> bn \<Rightarrow> bn \<Rightarrow> bn" where
  "bn_sub_mod r a b m =
     (if bn_cmp a b \<ge> 0 then copy_words r (bn_sub a b)
      else copy_words r (bn_sub_into_subtrahend m))"

definition bn_to_bytes :: "bn \<Rightarrow> bytes" where
  "bn_to_bytes a =
     (let out = concat (map (\<lambda>i. [ucast (drop_bit 24 (bn_d a ! i)), ucast (drop_bit 16 (bn_d a ! i) AND 0xFF),
            ucast (drop_bit 8 (bn_d a ! i) AND 0xFF), ucast (bn_d a ! i AND 0xFF)]) (rev [0..<bn_len a]))
      in dropWhile (\<lambda>b. b = 0) out)"

declare mod_loop.simps [code] exp_loop.simps [code]

section \<open>Values\<close>

fun wval :: "u32 list \<Rightarrow> nat" where
  "wval [] = 0"
| "wval (w # ws) = unat w + 2 ^ 32 * wval ws"

definition bn_val :: "bn \<Rightarrow> nat" where
  "bn_val a = wval (take (bn_len a) (bn_d a))"

text \<open>Well-formed numbers: room for 256 words, the top word of the length not zero unless it is the only one.\<close>

definition bn_ok :: "bn \<Rightarrow> bool" where
  "bn_ok a \<longleftrightarrow> length (bn_d a) = 256 \<and> bn_len a \<le> 256 \<and> (bn_len a > 1 \<longrightarrow> bn_d a ! (bn_len a - 1) \<noteq> 0)"

lemma wval_append: "wval (xs @ ys) = wval xs + 2 ^ (32 * length xs) * wval ys"
  by (induction xs) (simp_all add: algebra_simps power_add)

lemma wval_less: "wval xs < 2 ^ (32 * length xs)"
proof (induction xs)
  case (Cons w xs)
  have "unat w + 2 ^ 32 * wval xs < 2 ^ 32 + 2 ^ 32 * wval xs" using unat_u32_less [of w] by simp
  also have "\<dots> = 2 ^ 32 * (wval xs + 1)" by simp
  also have "\<dots> \<le> 2 ^ 32 * 2 ^ (32 * length xs)" using Cons by (intro mult_left_mono) simp_all
  finally show ?case by (simp add: power_add)
qed simp

lemma wval_update: "k < length d \<Longrightarrow> wval (d[k := w]) + 2 ^ (32 * k) * unat (d ! k) = wval d + 2 ^ (32 * k) * unat w"
proof -
  assume k: "k < length d"
  have d: "d = take k d @ d ! k # drop (Suc k) d" using k by (simp add: id_take_nth_drop)
  have u: "d[k := w] = take k d @ w # drop (Suc k) d" using k by (simp add: upd_conv_take_nth_drop)
  have "wval d = wval (take k d) + 2 ^ (32 * k) * (unat (d ! k) + 2 ^ 32 * wval (drop (Suc k) d))"
    using k by (subst d) (simp only: wval_append wval.simps length_take min_absorb2 less_imp_le)
  moreover have "wval (d[k := w]) = wval (take k d) + 2 ^ (32 * k) * (unat w + 2 ^ 32 * wval (drop (Suc k) d))"
    using k unfolding u by (simp only: wval_append wval.simps length_take min_absorb2 less_imp_le)
  ultimately show ?thesis by (simp add: algebra_simps)
qed

lemma wval_zero_iff: "wval xs = 0 \<longleftrightarrow> (\<forall>w \<in> set xs. w = 0)"
  by (induction xs) (auto simp: unat_eq_0)

lemma wval_zeros: "wval (replicate n 0) = 0"
  by (simp add: wval_zero_iff)

text \<open>Words above the length that are zero do not count.\<close>

lemma wval_take_zeros: "(\<And>i. n \<le> i \<Longrightarrow> i < length d \<Longrightarrow> d ! i = 0) \<Longrightarrow> wval (take n d) = wval d"
proof -
  assume z: "\<And>i. n \<le> i \<Longrightarrow> i < length d \<Longrightarrow> d ! i = 0"
  have "\<forall>w \<in> set (drop n d). w = 0"
    using z by (auto simp: in_set_conv_nth)
  then have "wval (drop n d) = 0" by (simp add: wval_zero_iff)
  then show ?thesis using wval_append [of "take n d" "drop n d"] by simp
qed

section \<open>Trimming, zero test, comparison\<close>

lemma trim_len_props:
  "trim_len k d n \<le> n \<and> (\<forall>i. trim_len k d n \<le> i \<and> i < n \<longrightarrow> d ! i = 0)
   \<and> (trim_len k d n > k \<longrightarrow> d ! (trim_len k d n - 1) \<noteq> 0) \<and> (k \<le> n \<longrightarrow> k \<le> trim_len k d n)"
proof (induction n)
  case 0
  then show ?case by (simp add: trim_len.simps)
next
  case (Suc n)
  show ?case
  proof (cases "Suc n > k \<and> d ! n = 0")
    case True
    then have "trim_len k d (Suc n) = trim_len k d n" by (simp add: trim_len.simps [of k d "Suc n"])
    then show ?thesis using Suc True by (auto simp: less_Suc_eq)
  next
    case False
    then have "trim_len k d (Suc n) = Suc n" by (auto simp: trim_len.simps [of k d "Suc n"])
    then show ?thesis using False by auto
  qed
qed

lemma wval_take_trim: "n \<le> length d \<Longrightarrow> wval (take (trim_len k d n) d) = wval (take n d)"
proof -
  assume n: "n \<le> length d"
  note P = trim_len_props [of k d n]
  have "wval (take (trim_len k d n) (take n d)) = wval (take n d)"
    using P n by (intro wval_take_zeros) simp
  then show ?thesis using P by (simp add: min_absorb1)
qed

lemma bn_trim_ok:
  assumes "length (bn_d r) = 256" "bn_len r \<le> 256" "bn_len r = 0 \<longrightarrow> bn_d r ! 0 = 0"
  shows "bn_ok (bn_trim r)" "bn_val (bn_trim r) = bn_val r" "bn_len (bn_trim r) \<le> max 1 (bn_len r)" "0 < bn_len (bn_trim r)"
proof -
  let ?n = "trim_len 0 (bn_d r) (bn_len r)"
  note P = trim_len_props [of 0 "bn_d r" "bn_len r"]
  show "bn_ok (bn_trim r)" using assms P by (auto simp: bn_ok_def bn_trim_def Let_def)
  show "bn_len (bn_trim r) \<le> max 1 (bn_len r)" "0 < bn_len (bn_trim r)" using P by (auto simp: bn_trim_def Let_def)
  have v: "wval (take ?n (bn_d r)) = bn_val r" using assms by (simp add: bn_val_def wval_take_trim)
  show "bn_val (bn_trim r) = bn_val r"
  proof (cases "?n = 0")
    case True
    have "bn_d r ! 0 = 0" using P True assms(3) by (cases "bn_len r = 0") auto
    then have "wval (take 1 (bn_d r)) = 0" using assms(1) by (cases "bn_d r") simp_all
    then show ?thesis using v True by (simp add: bn_trim_def bn_val_def)
  next
    case False
    then show ?thesis using v by (simp add: bn_trim_def bn_val_def Let_def)
  qed
qed

lemma bn_is_zero_iff: "bn_len a \<le> length (bn_d a) \<Longrightarrow> bn_is_zero a \<longleftrightarrow> bn_val a = 0"
  by (auto simp: bn_is_zero_def bn_val_def wval_zero_iff list_all_iff nth_image [symmetric])

lemma bn_val_less: "bn_val a < 2 ^ (32 * bn_len a)"
proof -
  have "bn_val a < 2 ^ (32 * length (take (bn_len a) (bn_d a)))" unfolding bn_val_def by (rule wval_less)
  also have "(2 :: nat) ^ (32 * length (take (bn_len a) (bn_d a))) \<le> 2 ^ (32 * bn_len a)" by (intro power_increasing) simp_all
  finally show ?thesis .
qed

lemma bn_val_top:
  assumes "bn_ok a" "bn_len a = Suc n"
  shows "bn_val a = wval (take n (bn_d a)) + 2 ^ (32 * n) * unat (bn_d a ! n)"
proof -
  have n: "n < length (bn_d a)" using assms by (simp add: bn_ok_def)
  then have "bn_val a = wval (take n (bn_d a) @ [bn_d a ! n])" using assms(2) by (simp add: bn_val_def take_Suc_conv_app_nth)
  then show ?thesis using n by (simp add: wval_append)
qed

lemma bn_val_ge:
  assumes "bn_ok a" "0 < bn_val a" "bn_len a = Suc n"
  shows "2 ^ (32 * n) \<le> bn_val a" "bn_d a ! n \<noteq> 0"
proof -
  show nz: "bn_d a ! n \<noteq> 0"
  proof (cases n)
    case 0
    then show ?thesis using assms(2) bn_val_top [OF assms(1,3)] by (auto simp: unat_eq_0)
  next
    case (Suc m)
    then show ?thesis using assms(1,3) by (simp add: bn_ok_def)
  qed
  then have "1 \<le> unat (bn_d a ! n)" by (simp add: unat_gt_0 Suc_le_eq)
  then have "(2 :: nat) ^ (32 * n) \<le> 2 ^ (32 * n) * unat (bn_d a ! n)" by simp
  then show "2 ^ (32 * n) \<le> bn_val a" unfolding bn_val_top [OF assms(1,3)] by (rule trans_le_add2)
qed

text \<open>Words that differ first (from the top) at \<open>i\<close> decide the comparison.\<close>

lemma wval_first_diff:
  assumes "i < n" "n \<le> length x" "n \<le> length y" "x ! i < y ! i" "\<And>j. i < j \<Longrightarrow> j < n \<Longrightarrow> x ! j = y ! j"
  shows "wval (take n x) < wval (take n (y :: u32 list))"
proof -
  have d: "wval (take n z) = wval (take i z) + 2 ^ (32 * i) * (unat (z ! i) + 2 ^ 32 * wval (take (n - Suc i) (drop (Suc i) z)))"
    if "n \<le> length z" for z :: "u32 list"
  proof -
    have "take n z = take i z @ z ! i # take (n - Suc i) (drop (Suc i) z)"
    proof -
      have "take n z = take i (take n z) @ take n z ! i # drop (Suc i) (take n z)"
        using that assms(1) by (intro id_take_nth_drop) simp
      then show ?thesis using assms(1) by (simp add: drop_take min_def)
    qed
    then show ?thesis using that assms(1) by (simp add: wval_append min_def)
  qed
  have "take (n - Suc i) (drop (Suc i) x) = take (n - Suc i) (drop (Suc i) y)"
    using assms by (intro nth_equalityI) simp_all
  moreover have "unat (x ! i) < unat (y ! i)" using assms(4) by (simp add: word_less_nat_alt)
  moreover have "wval (take i x) < 2 ^ (32 * i)" using wval_less [of "take i x"] assms(1,2) by (simp add: min_def)
  ultimately have "wval (take i x) + 2 ^ (32 * i) * (unat (x ! i) + k) < 2 ^ (32 * i) * (unat (y ! i) + k)" for k
  proof -
    assume u: "unat (x ! i) < unat (y ! i)" and l: "wval (take i x) < 2 ^ (32 * i)"
    have "wval (take i x) + 2 ^ (32 * i) * (unat (x ! i) + k) < 2 ^ (32 * i) * (Suc (unat (x ! i)) + k)" using l by simp
    also have "\<dots> \<le> 2 ^ (32 * i) * (unat (y ! i) + k)" using u by (intro mult_left_mono) simp_all
    finally show ?thesis .
  qed
  then show ?thesis
    using \<open>take (n - Suc i) (drop (Suc i) x) = take (n - Suc i) (drop (Suc i) y)\<close>
    unfolding d [OF assms(2)] d [OF assms(3)] by (simp add: trans_less_add2)
qed

lemma bn_cmp_sign:
  assumes "bn_ok a" "bn_ok b" "0 < bn_val b"
  shows "bn_cmp a b < 0 \<longleftrightarrow> bn_val a < bn_val b"
proof -
  obtain nb where nb: "bn_len b = Suc nb" using assms(3) by (cases "bn_len b") (simp_all add: bn_val_def)
  show ?thesis
  proof (cases "bn_len a = bn_len b")
    case False
    then have c: "bn_cmp a b = int (bn_len a) - int (bn_len b)" by (simp add: bn_cmp_def)
    show ?thesis
    proof (cases "bn_len a < bn_len b")
      case True
      then have "(2 :: nat) ^ (32 * bn_len a) \<le> 2 ^ (32 * nb)" using nb by (intro power_increasing) simp_all
      also have "\<dots> \<le> bn_val b" by (rule bn_val_ge [OF assms(2,3) nb])
      finally have "bn_val a < bn_val b" using bn_val_less [of a] by linarith
      then show ?thesis using c True by simp
    next
      case gt: False
      then obtain na where na: "bn_len a = Suc na" "Suc nb \<le> na" using False nb by (cases "bn_len a") auto
      then have "bn_d a ! na \<noteq> 0" using assms(1) by (simp add: bn_ok_def)
      then have "0 < bn_val a" using bn_val_top [OF assms(1) na(1)] by (simp add: unat_gt_0)
      have "(2 :: nat) ^ (32 * bn_len b) \<le> 2 ^ (32 * na)" using na nb by (intro power_increasing) simp_all
      also have "\<dots> \<le> bn_val a" by (rule bn_val_ge [OF assms(1) \<open>0 < bn_val a\<close> na(1)])
      finally have "\<not> bn_val a < bn_val b" using bn_val_less [of b] by linarith
      then show ?thesis using c gt by simp
    qed
  next
    case len: True
    let ?P = "\<lambda>i. bn_d a ! i \<noteq> bn_d b ! i"
    have l: "bn_len a \<le> length (bn_d a)" "bn_len a \<le> length (bn_d b)" using assms(1,2) len by (simp_all add: bn_ok_def)
    show ?thesis
    proof (cases "find ?P (rev [0..<bn_len a])")
      case None
      then have "take (bn_len a) (bn_d a) = take (bn_len a) (bn_d b)"
        using l by (intro nth_equalityI) (auto simp: find_None_iff)
      then have "bn_val a = bn_val b" by (simp add: bn_val_def len)
      then show ?thesis using None len by (simp add: bn_cmp_def)
    next
      case (Some i)
      then obtain k where k: "k < bn_len a" "?P (rev [0..<bn_len a] ! k)" "i = rev [0..<bn_len a] ! k"
        "\<forall>j < k. \<not> ?P (rev [0..<bn_len a] ! j)"
        by (auto simp: find_Some_iff)
      have i: "i = bn_len a - Suc k" using k(1,3) by (simp add: rev_nth)
      have eq: "bn_d a ! j = bn_d b ! j" if "i < j" "j < bn_len a" for j
      proof -
        have "bn_len a - Suc j < k" using that i k(1) by simp
        moreover have "rev [0..<bn_len a] ! (bn_len a - Suc j) = j" using that by (simp add: rev_nth)
        ultimately show ?thesis using k(4) by auto
      qed
      have il: "i < bn_len a" using i k(1) by simp
      have ne: "bn_d a ! i \<noteq> bn_d b ! i" using k by simp
      show ?thesis
      proof (cases "bn_d a ! i > bn_d b ! i")
        case True
        then have "bn_val b < bn_val a"
          unfolding bn_val_def len [symmetric] using eq by (intro wval_first_diff [OF il l(2,1)]) simp_all
        then show ?thesis using Some len True by (simp add: bn_cmp_def)
      next
        case False
        then have "bn_d a ! i < bn_d b ! i" using ne by simp
        then have "bn_val a < bn_val b"
          unfolding bn_val_def len [symmetric] using eq by (intro wval_first_diff [OF il l]) simp_all
        then show ?thesis using Some len False by (simp add: bn_cmp_def)
      qed
    qed
  qed
qed

section \<open>Subtraction\<close>

lemma sub_word64_val:
  assumes "unat va < 2 ^ 32" "unat vb < 2 ^ 32" "borrow \<le> 1" "sub_word64 va vb borrow = (w, borrow')"
  shows "unat w + unat vb + unat borrow = unat va + 2 ^ 32 * unat borrow'" "borrow' \<le> 1"
proof -
  show b': "borrow' \<le> 1" using assms(4) by (auto simp: sub_word64_def Let_def split: if_splits)
  have b: "unat borrow \<le> 1" using assms(3) by (simp add: word_le_nat_alt)
  have vb: "unat (vb + borrow) = unat vb + unat borrow" using assms(2) b by (intro unat_add_small) simp
  have m: "unat (ucast (x AND 0xFFFFFFFF) :: u32) = unat x mod 2 ^ 32" for x :: u64
  proof -
    have "(0xFFFFFFFF :: u64) = mask 32" by (simp add: mask_eq_exp_minus_1)
    moreover have "ucast (x AND mask 32) = (ucast x :: u32)" by (rule bit_word_eqI) (simp add: bit_simps)
    ultimately show ?thesis by (simp add: unsigned_ucast_eq take_bit_eq_mod)
  qed
  show "unat w + unat vb + unat borrow = unat va + 2 ^ 32 * unat borrow'"
  proof (cases "va < vb + borrow")
    case True
    then have lt: "unat va < unat vb + unat borrow" by (simp add: word_less_nat_alt vb)
    have "va - vb - borrow + push_bit 32 1 = (va + 2 ^ 32) - (vb + borrow)" by (simp add: algebra_simps)
    moreover have "unat (va + 2 ^ 32) = unat va + 2 ^ 32" using assms(1) by (subst unat_add_small) simp_all
    moreover have "vb + borrow \<le> va + 2 ^ 32"
      using assms(2) b calculation(2) by (simp add: word_le_nat_alt vb)
    ultimately have "unat (va - vb - borrow + push_bit 32 1) = unat va + 2 ^ 32 - (unat vb + unat borrow)"
      by (simp only: unat_sub_le vb)
    moreover have "w = ucast ((va - vb - borrow + push_bit 32 1) AND 0xFFFFFFFF)" "borrow' = 1"
      using assms(4) True by (auto simp: sub_word64_def Let_def)
    ultimately have "unat w = (unat va + 2 ^ 32 - (unat vb + unat borrow)) mod 2 ^ 32" by (simp only: m)
    also have "\<dots> = unat va + 2 ^ 32 - (unat vb + unat borrow)" using lt by (intro mod_less) auto
    finally show ?thesis using \<open>borrow' = 1\<close> assms(2) b by simp
  next
    case False
    then have ge: "unat vb + unat borrow \<le> unat va" by (simp add: word_less_nat_alt vb)
    have "unat (va - vb - borrow) = unat va - (unat vb + unat borrow)"
      using ge False vb by (simp only: diff_diff_eq) (simp add: unat_sub_le)
    moreover have "w = ucast ((va - vb - borrow) AND 0xFFFFFFFF)" "borrow' = 0"
      using assms(4) False by (auto simp: sub_word64_def Let_def)
    ultimately have "unat w = (unat va - (unat vb + unat borrow)) mod 2 ^ 32" by (simp only: m)
    also have "\<dots> = unat va - (unat vb + unat borrow)" using assms(1) by (intro mod_less) linarith
    finally show ?thesis using \<open>borrow' = 0\<close> ge by simp
  qed
qed

text \<open>A number's words past its length read as 0.\<close>

definition word_at :: "bn \<Rightarrow> nat \<Rightarrow> nat" where
  "word_at a i = (if i < bn_len a then unat (bn_d a ! i) else 0)"

fun digits_val :: "(nat \<Rightarrow> nat) \<Rightarrow> nat \<Rightarrow> nat" where
  "digits_val f 0 = 0"
| "digits_val f (Suc n) = digits_val f n + 2 ^ (32 * n) * f n"

lemma digits_val_take: "n \<le> length d \<Longrightarrow> digits_val (\<lambda>i. unat (d ! i)) n = wval (take n d)"
  by (induction n) (simp_all add: take_Suc_conv_app_nth wval_append)

lemma digits_val_word_at: "bn_len a \<le> length (bn_d a) \<Longrightarrow> bn_len a \<le> n \<Longrightarrow> digits_val (word_at a) n = bn_val a"
proof (induction n)
  case 0
  then show ?case by (simp add: bn_val_def)
next
  case (Suc n)
  show ?case
  proof (cases "bn_len a = Suc n")
    case True
    have e: "k \<le> bn_len a \<Longrightarrow> digits_val (word_at a) k = digits_val (\<lambda>i. unat (bn_d a ! i)) k" for k
      by (induction k) (simp_all add: word_at_def)
    have "digits_val (word_at a) (bn_len a) = wval (take (bn_len a) (bn_d a))"
      unfolding e [OF order_refl] using Suc.prems(1) by (rule digits_val_take)
    then show ?thesis unfolding True [symmetric] bn_val_def .
  next
    case False
    then show ?thesis using Suc by (simp add: word_at_def)
  qed
qed

lemma sub_steps:
  assumes "n \<le> 256" "fold (sub_step a b) [0..<n] (bn_zero, 0) = (r, borrow)"
  shows "digits_val (\<lambda>i. unat (bn_d r ! i)) n + digits_val (word_at b) n = digits_val (word_at a) n + 2 ^ (32 * n) * unat borrow
    \<and> borrow \<le> 1 \<and> length (bn_d r) = 256 \<and> bn_len r = n \<and> (n = 0 \<longrightarrow> bn_d r ! 0 = 0)"
  using assms
proof (induction n arbitrary: r borrow)
  case 0
  then show ?case by (auto simp: bn_zero_def BN_MAX_WORDS_def)
next
  case (Suc n)
  obtain r0 b0 where st: "fold (sub_step a b) [0..<n] (bn_zero, 0) = (r0, b0)" by force
  have n: "n \<le> 256" using Suc.prems(1) by simp
  note IH = Suc.IH [OF n st]
  let ?va = "if n < bn_len a then ucast (bn_d a ! n) else 0 :: u64" and ?vb = "if n < bn_len b then ucast (bn_d b ! n) else 0 :: u64"
  obtain w b1 where sw: "sub_word64 ?va ?vb b0 = (w, b1)" by force
  have "sub_step a b n (r0, b0) = (r, borrow)" using Suc.prems(2) st by simp
  then have r: "r = \<lparr>bn_d = (bn_d r0)[n := w], bn_len = n + 1\<rparr>" "borrow = b1"
    using sw by (simp_all add: sub_step_def Let_def)
  have u: "unat (if i < bn_len c then ucast (bn_d c ! i) else 0 :: u64) = word_at c i" for c i
    using unat_u32_less [of "bn_d c ! i"] by (simp add: word_at_def unsigned_ucast_eq take_bit_nat_eq_self)
  have lt: "word_at c i < 2 ^ 32" for c i using unat_u32_less [of "bn_d c ! i"] by (simp add: word_at_def)
  have W: "unat w + word_at b n + unat b0 = word_at a n + 2 ^ 32 * unat b1" "b1 \<le> 1"
    using sub_word64_val [OF _ _ _ sw, unfolded u, OF lt lt] IH by blast+
  have low: "digits_val (\<lambda>i. unat ((bn_d r0)[n := w] ! i)) n = digits_val (\<lambda>i. unat (bn_d r0 ! i)) n"
  proof -
    have "k \<le> n \<Longrightarrow> digits_val (\<lambda>i. unat ((bn_d r0)[n := w] ! i)) k = digits_val (\<lambda>i. unat (bn_d r0 ! i)) k" for k
      by (induction k) simp_all
    then show ?thesis by simp
  qed
  have top: "unat ((bn_d r0)[n := w] ! n) = unat w" using IH Suc.prems(1) by simp
  have "2 ^ (32 * n) * unat b0 + 2 ^ (32 * n) * (unat w + word_at b n) = 2 ^ (32 * n) * word_at a n + 2 ^ (32 * Suc n) * unat b1"
    using arg_cong [OF W(1), of "\<lambda>x. 2 ^ (32 * n) * x"] by (simp add: power_add algebra_simps)
  then show ?case using IH W(2) by (simp add: r low top algebra_simps)
qed

lemma bn_sub_val:
  assumes "bn_ok a" "bn_ok b" "bn_val b \<le> bn_val a"
  shows "bn_ok (bn_sub a b)" "bn_val (bn_sub a b) = bn_val a - bn_val b"
proof -
  let ?n = "max (bn_len a) (bn_len b)"
  have n: "?n \<le> 256" using assms(1,2) by (simp add: bn_ok_def)
  obtain r borrow where st: "fold (sub_step a b) [0..<?n] (bn_zero, 0) = (r, borrow)" by force
  note S = sub_steps [OF n st]
  have va: "digits_val (word_at a) ?n = bn_val a" "digits_val (word_at b) ?n = bn_val b"
    using assms(1,2) by (simp_all add: digits_val_word_at bn_ok_def)
  have vr: "digits_val (\<lambda>i. unat (bn_d r ! i)) ?n = bn_val r"
    using S n by (simp add: digits_val_take bn_val_def)
  have "bn_val r < 2 ^ (32 * ?n)" using bn_val_less [of r] S by simp
  then have "unat borrow = 0"
  proof -
    assume lt: "bn_val r < 2 ^ (32 * ?n)"
    have "2 ^ (32 * ?n) * unat borrow \<le> bn_val r" using S va vr assms(3) by linarith
    then show ?thesis using lt by (cases "unat borrow") auto
  qed
  moreover have "bn_val r + bn_val b = bn_val a + 2 ^ (32 * ?n) * unat borrow" using conjunct1 [OF S] unfolding va vr .
  ultimately have v: "bn_val r = bn_val a - bn_val b" by simp
  have e: "bn_sub a b = bn_trim r" by (simp add: bn_sub_def st)
  show "bn_ok (bn_sub a b)" "bn_val (bn_sub a b) = bn_val a - bn_val b"
    unfolding e using S n v by (simp_all add: bn_trim_ok)
qed

section \<open>Product\<close>

lemma unat_low32: "unat (ucast (x AND 0xFFFFFFFF) :: u32) = unat (x :: u64) mod 2 ^ 32"
proof -
  have "(0xFFFFFFFF :: u64) = mask 32" by (simp add: mask_eq_exp_minus_1)
  moreover have "ucast (x AND mask 32) = (ucast x :: u32)" by (rule bit_word_eqI) (simp add: bit_simps)
  ultimately show ?thesis by (simp add: unsigned_ucast_eq take_bit_eq_mod)
qed

lemma unat_high32: "unat (drop_bit 32 (x :: u64)) = unat x div 2 ^ 32"
  by (simp only: unat_drop_bit_eq) (simp only: drop_bit_eq_div)

lemma unat_ucast_up: "unat (ucast (x :: u32) :: u64) = unat x"
  using unat_u32_less [of x] by (simp add: unsigned_ucast_eq take_bit_nat_eq_self)

text \<open>A partial product: 256 words, the words above the length zero.\<close>

definition open_num :: "bn \<Rightarrow> bool" where
  "open_num r \<longleftrightarrow> length (bn_d r) = 256 \<and> bn_len r \<le> 256 \<and> (\<forall>i. bn_len r \<le> i \<and> i < 256 \<longrightarrow> bn_d r ! i = 0)"

lemma mac_no_overflow:
  assumes "unat r < 2 ^ 32" "unat c < 2 ^ 32" "unat x < 2 ^ 32" "unat y < 2 ^ 32"
  shows "unat r + unat c + unat (x :: u64) * unat (y :: u64) < 2 ^ 64"
    "(unat r + unat c + unat x * unat y) div 2 ^ 32 < 2 ^ 32"
proof -
  have "unat x * unat y \<le> (2 ^ 32 - 1) * (2 ^ 32 - 1)" using assms(3,4) by (intro mult_le_mono) simp_all
  then show "unat r + unat c + unat x * unat y < 2 ^ 64" using assms(1,2) by simp
  then show "(unat r + unat c + unat x * unat y) div 2 ^ 32 < 2 ^ 32" by simp
qed

definition rest_val :: "bn \<Rightarrow> nat \<Rightarrow> nat" where
  "rest_val b j = digits_val (word_at b) (bn_len b) - digits_val (word_at b) j"

lemma digits_val_mono: "i \<le> j \<Longrightarrow> digits_val f i \<le> digits_val f j"
proof (induction j)
  case (Suc j)
  show ?case
  proof (cases "i = Suc j")
    case False
    then have "digits_val f i \<le> digits_val f j" using Suc by simp
    then show ?thesis unfolding digits_val.simps by (rule trans_le_add1)
  qed simp
qed simp

lemma digits_val_beyond: "bn_len b \<le> j \<Longrightarrow> digits_val (word_at b) j = digits_val (word_at b) (bn_len b)"
proof (induction j)
  case (Suc j)
  show ?case
  proof (cases "bn_len b = Suc j")
    case True
    then show ?thesis by (simp only:)
  next
    case False
    then have "bn_len b \<le> j" using Suc.prems by simp
    moreover from this have "word_at b j = 0" by (simp add: word_at_def)
    ultimately show ?thesis by (simp only: digits_val.simps Suc.IH mult_0_right add_0_right)
  qed
qed simp

lemma rest_val_beyond: "bn_len b \<le> j \<Longrightarrow> rest_val b j = 0"
  unfolding rest_val_def using digits_val_beyond [of b j] by simp

lemma rest_val_step: "rest_val b j = 2 ^ (32 * j) * word_at b j + rest_val b (Suc j)"
proof (cases "j < bn_len b")
  case True
  then have "digits_val (word_at b) (Suc j) \<le> digits_val (word_at b) (bn_len b)" by (intro digits_val_mono) simp
  then show ?thesis by (simp add: rest_val_def)
next
  case False
  then show ?thesis by (simp add: rest_val_beyond word_at_def)
qed

text \<open>The first number that does not fit 256 words.\<close>

definition bn_cap :: nat where "bn_cap = 2 ^ (32 * 256)"

lemma mul_inner_val:
  assumes "open_num r" "unat carry < 2 ^ 32" "bn_len b \<le> 256"
    "wval (bn_d r) + 2 ^ (32 * (i + j)) * unat carry + 2 ^ (32 * i) * unat ai * rest_val b j = V"
    "V < bn_cap" "i + bn_len b \<le> 256" "i + j \<le> 256"
  shows "\<exists>r'. mul_inner ai b i j carry r = (False, r') \<and> open_num r' \<and> wval (bn_d r') = V"
  using assms
proof (induction ai b i j carry r rule: mul_inner.induct)
  case (1 ai b i j carry r)
  show ?case
  proof (cases "j < bn_len b \<or> carry \<noteq> 0")
    case False
    then have "mul_inner ai b i j carry r = (False, r)" by (subst mul_inner.simps) simp
    then show ?thesis using "1.prems"(1,4) False by (simp add: rest_val_beyond)
  next
    case go: True
    have lt: "i + j < 256"
    proof (rule ccontr)
      assume "\<not> i + j < 256"
      then have e: "i + j = 256" "\<not> j < bn_len b" using "1.prems"(6,7) by simp_all
      then have "1 \<le> unat carry" using go by (simp add: unat_gt_0 Suc_le_eq)
      then have "bn_cap \<le> 2 ^ (32 * (i + j)) * unat carry" unfolding e(1) bn_cap_def [symmetric] by simp
      then show False using "1.prems"(4,5) by linarith
    qed
    let ?k = "i + j"
    define s0 where "s0 = ucast (bn_d r ! ?k) + carry"
    define s where "s = (if j < bn_len b then s0 + ucast ai * ucast (bn_d b ! j) else s0)"
    let ?X = "unat (bn_d r ! ?k) + unat carry + unat ai * word_at b j"
    have s: "unat s = ?X \<and> ?X div 2 ^ 32 < 2 ^ 32"
    proof -
      note M = mac_no_overflow [of "ucast (bn_d r ! ?k) :: u64" carry "ucast ai :: u64" "ucast (bn_d b ! j) :: u64", unfolded unat_ucast_up]
      have b: "unat (w :: u32) < 2 ^ 32" for w using unat_u32_less [of w] by simp
      have s0: "unat s0 = unat (bn_d r ! ?k) + unat carry"
        using b [of "bn_d r ! ?k"] "1.prems"(2) unfolding s0_def by (subst unat_add_small) (simp_all add: unat_ucast_up)
      have m: "unat (ucast ai * ucast (bn_d b ! j) :: u64) = unat ai * unat (bn_d b ! j)"
        using M(1) [OF b "1.prems"(2) b b] by (subst unat_mult_lem [THEN iffD1]) (simp_all add: unat_ucast_up)
      show ?thesis
      proof (cases "j < bn_len b")
        case True
        have "unat (s0 + ucast ai * ucast (bn_d b ! j)) = unat s0 + unat (ucast ai * ucast (bn_d b ! j) :: u64)"
          using M(1) [OF b "1.prems"(2) b b] by (intro unat_add_small) (simp add: s0 m)
        then show ?thesis using True s0 m M(2) [OF b "1.prems"(2) b b] by (simp add: s_def word_at_def)
      next
        case False
        then show ?thesis using s0 b [of "bn_d r ! ?k"] "1.prems"(2) by (simp add: s_def word_at_def)
      qed
    qed
    let ?r' = "\<lparr>bn_d = (bn_d r)[?k := ucast (s AND 0xFFFFFFFF)], bn_len = max (?k + 1) (bn_len r)\<rparr>"
    have step: "mul_inner ai b i j carry r = mul_inner ai b i (j + 1) (drop_bit 32 s) ?r'"
      by (subst mul_inner.simps) (use go lt in \<open>simp add: BN_MAX_WORDS_def s_def s0_def Let_def\<close>)
    have len: "length (bn_d r) = 256" using "1.prems"(1) by (simp add: open_num_def)
    have o: "open_num ?r'" using "1.prems"(1) lt by (auto simp: open_num_def nth_list_update)
    have c: "unat (drop_bit 32 s) = ?X div 2 ^ 32" using s by (simp add: unat_high32)
    have w: "unat (ucast (s AND 0xFFFFFFFF) :: u32) = ?X mod 2 ^ 32" using s by (simp only: unat_low32)
    have "wval (bn_d ?r') + 2 ^ (32 * ?k) * unat (bn_d r ! ?k) = wval (bn_d r) + 2 ^ (32 * ?k) * (?X mod 2 ^ 32)"
      using wval_update [of ?k "bn_d r" "ucast (s AND 0xFFFFFFFF)"] lt len by (simp only: w bn.simps)
    moreover have "2 ^ (32 * ?k) * ?X = 2 ^ (32 * ?k) * (?X mod 2 ^ 32) + 2 ^ (32 * Suc ?k) * (?X div 2 ^ 32)"
    proof -
      have "2 ^ (32 * ?k) * ?X = 2 ^ (32 * ?k) * (?X mod 2 ^ 32 + 2 ^ 32 * (?X div 2 ^ 32))" by simp
      then show ?thesis by (simp only: distrib_left mult_Suc_right power_add mult.assoc mult.left_commute)
    qed
    moreover have "2 ^ (32 * i) * unat ai * rest_val b j
        = 2 ^ (32 * ?k) * (unat ai * word_at b j) + 2 ^ (32 * i) * unat ai * rest_val b (Suc j)"
      unfolding rest_val_step [of b j] by (simp add: algebra_simps power_add)
    ultimately have "wval (bn_d ?r') + 2 ^ (32 * (i + (j + 1))) * unat (drop_bit 32 s) + 2 ^ (32 * i) * unat ai * rest_val b (j + 1) = V"
      using "1.prems"(4) unfolding c by (simp add: distrib_left)
    moreover have "unat (drop_bit 32 s) < 2 ^ 32" using c s by simp
    ultimately have "\<exists>r'. mul_inner ai b i (j + 1) (drop_bit 32 s) ?r' = (False, r') \<and> open_num r' \<and> wval (bn_d r') = V"
      using "1.IH" [OF go _ s0_def s_def] o "1.prems"(3,5,6) lt by (simp add: BN_MAX_WORDS_def)
    then show ?thesis unfolding step .
  qed
qed

lemma mul_outer_val:
  assumes "open_num r" "bn_len b \<le> 256" "bn_len a + bn_len b \<le> 256" "n \<le> bn_len a" "bn_len b \<le> length (bn_d b)"
    "bn_len a \<le> length (bn_d a)" "wval (bn_d r) + rest_val a n * bn_val b = bn_val a * bn_val b"
  shows "\<exists>r'. mul_outer a b [n..<bn_len a] r = (False, r') \<and> open_num r' \<and> wval (bn_d r') = bn_val a * bn_val b"
  using assms
proof (induction "bn_len a - n" arbitrary: n r)
  case 0
  then show ?case by (simp add: rest_val_beyond)
next
  case (Suc k)
  then have n: "n < bn_len a" by simp
  have vb: "rest_val b 0 = bn_val b" using Suc.prems(5) by (simp add: rest_val_def digits_val_word_at)
  have wa: "word_at a n = unat (bn_d a ! n)" using n by (simp add: word_at_def)
  have "bn_val a * bn_val b < 2 ^ (32 * bn_len a) * 2 ^ (32 * bn_len b)"
    by (intro mult_strict_mono bn_val_less) simp_all
  also have "\<dots> = 2 ^ (32 * (bn_len a + bn_len b))" by (simp add: power_add distrib_left)
  also have "\<dots> \<le> bn_cap" using Suc.prems(3) unfolding bn_cap_def by (intro power_increasing) simp_all
  finally have lt: "bn_val a * bn_val b < bn_cap" .
  let ?V = "wval (bn_d r) + 2 ^ (32 * n) * unat (bn_d a ! n) * bn_val b"
  have V: "?V + rest_val a (Suc n) * bn_val b = bn_val a * bn_val b"
    using Suc.prems(7) unfolding rest_val_step [of a n] wa by (simp add: algebra_simps)
  have "\<exists>r'. mul_inner (bn_d a ! n) b n 0 0 r = (False, r') \<and> open_num r' \<and> wval (bn_d r') = ?V"
    using Suc.prems(1-3) n lt V by (intro mul_inner_val) (simp_all add: vb)
  then obtain r' where r': "mul_inner (bn_d a ! n) b n 0 0 r = (False, r')" "open_num r'" "wval (bn_d r') = ?V" by blast
  have "\<exists>r''. mul_outer a b [Suc n..<bn_len a] r' = (False, r'') \<and> open_num r'' \<and> wval (bn_d r'') = bn_val a * bn_val b"
    using Suc.hyps(2) n V by (intro Suc.hyps(1)) (simp_all add: r' Suc.prems)
  then show ?case using n r'(1) by (simp add: upt_conv_Cons)
qed

lemma bn_ok_zero: "bn_ok bn_zero" "bn_val bn_zero = 0"
  by (simp_all add: bn_ok_def bn_zero_def BN_MAX_WORDS_def bn_val_def)

lemma open_num_zero: "open_num bn_zero" "wval (bn_d bn_zero) = 0"
  by (simp_all add: open_num_def bn_zero_def BN_MAX_WORDS_def wval_zeros)

lemma bn_mul_val:
  assumes "bn_ok a" "bn_ok b" "bn_len a + bn_len b \<le> 256"
  shows "bn_ok (bn_mul a b) \<and> bn_val (bn_mul a b) = bn_val a * bn_val b"
proof (cases "bn_is_zero a \<or> bn_is_zero b")
  case True
  then have "bn_val a * bn_val b = 0" using assms(1,2) by (auto simp: bn_is_zero_iff bn_ok_def)
  then show ?thesis using True by (simp add: bn_mul_def bn_ok_zero)
next
  case False
  have "rest_val a 0 = bn_val a" using assms(1) by (simp add: rest_val_def digits_val_word_at bn_ok_def)
  then have "\<exists>r'. mul_outer a b [0..<bn_len a] bn_zero = (False, r') \<and> open_num r' \<and> wval (bn_d r') = bn_val a * bn_val b"
    using assms by (intro mul_outer_val) (simp_all add: open_num_zero bn_ok_def)
  then obtain r' where r': "mul_outer a b [0..<bn_len a] bn_zero = (False, r')" "open_num r'" "wval (bn_d r') = bn_val a * bn_val b"
    by blast
  have "bn_mul a b = bn_trim r'" using False r'(1) by (simp add: bn_mul_def)
  moreover have "bn_val r' = wval (bn_d r')" unfolding bn_val_def using r'(2) by (intro wval_take_zeros) (simp add: open_num_def)
  ultimately show ?thesis using bn_trim_ok [of r'] r'(2,3) by (simp add: open_num_def)
qed

section \<open>Bit length and shifts\<close>

lemma bit_count_val: "w \<noteq> 0 \<Longrightarrow> 0 < bit_count w \<and> 2 ^ (bit_count w - 1) \<le> unat w \<and> unat w < 2 ^ bit_count w"
proof (induction w rule: bit_count.induct)
  case (1 w)
  have h: "unat (drop_bit 1 w) = unat w div 2" by (simp only: unat_drop_bit_eq) (simp only: drop_bit_eq_div power_one_right)
  have c: "bit_count w = 1 + bit_count (drop_bit 1 w)" using "1.prems" by (subst bit_count.simps) simp
  show ?case
  proof (cases "drop_bit 1 w = 0")
    case True
    then have "unat w div 2 = 0" using h by simp
    moreover have "0 < unat w" using "1.prems" by (simp add: unat_gt_0)
    ultimately have "unat w = 1" by simp
    moreover have "bit_count w = 1" using c True by (simp add: bit_count.simps)
    ultimately show ?thesis by simp
  next
    case False
    note IH = "1.IH" [OF "1.prems" False, unfolded h]
    then obtain n where n: "bit_count (drop_bit 1 w) = Suc n" by (cases "bit_count (drop_bit 1 w)") simp_all
    have "2 ^ n \<le> unat w div 2" "unat w div 2 < 2 ^ Suc n" using IH n by simp_all
    then have "2 * 2 ^ n \<le> unat w" "unat w < 2 * 2 ^ Suc n" by linarith+
    then show ?thesis using n unfolding c by simp
  qed
qed

lemma bn_bit_length_val:
  assumes "bn_ok a" "0 < bn_val a"
  obtains l where "bn_bit_length a = int l" "0 < l" "2 ^ (l - 1) \<le> bn_val a" "bn_val a < 2 ^ l" "l \<le> 32 * bn_len a"
proof -
  obtain n where n: "bn_len a = Suc n" using assms(2) by (cases "bn_len a") (simp_all add: bn_val_def)
  let ?w = "bn_d a ! n"
  have w: "?w \<noteq> 0" by (rule bn_val_ge [OF assms n])
  note B = bit_count_val [OF w]
  have nl: "n < length (bn_d a)" using assms(1) n by (simp add: bn_ok_def)
  have low: "wval (take n (bn_d a)) < 2 ^ (32 * n)" using wval_less [of "take n (bn_d a)"] nl by simp
  have v: "bn_val a = wval (take n (bn_d a)) + 2 ^ (32 * n) * unat ?w" by (rule bn_val_top [OF assms(1) n])
  have z: "\<not> bn_is_zero a" using assms by (simp add: bn_is_zero_iff bn_ok_def)
  let ?l = "32 * n + bit_count ?w"
  have "bn_bit_length a = int ?l" using z n by (simp add: bn_bit_length_def)
  moreover have "2 ^ (?l - 1) \<le> bn_val a"
  proof -
    have "(2 :: nat) ^ (?l - 1) = 2 ^ (32 * n) * 2 ^ (bit_count ?w - 1)" using B by (simp add: power_add [symmetric])
    also have "\<dots> \<le> 2 ^ (32 * n) * unat ?w" using B by (intro mult_left_mono) simp_all
    finally show ?thesis unfolding v by (rule trans_le_add2)
  qed
  moreover have "bn_val a < 2 ^ ?l"
  proof -
    have "bn_val a < 2 ^ (32 * n) * (1 + unat ?w)" unfolding v using low by simp
    also have "\<dots> \<le> 2 ^ (32 * n) * 2 ^ bit_count ?w" using B by (intro mult_left_mono) simp_all
    finally show ?thesis by (simp add: power_add)
  qed
  moreover have "bit_count ?w \<le> 32"
  proof (rule ccontr)
    assume "\<not> bit_count ?w \<le> 32"
    then have "(2 :: nat) ^ 32 \<le> 2 ^ (bit_count ?w - 1)" by (intro power_increasing) simp_all
    then show False using B unat_u32_less [of ?w] by simp
  qed
  ultimately show ?thesis using B n by (intro that [of ?l]) simp_all
qed

lemma shift_word_val:
  assumes "bs < 32" "unat carry < 2 ^ bs"
  shows "unat (push_bit bs (ucast (w :: u32) :: u64) OR ucast (carry :: u32)) = 2 ^ bs * unat w + unat carry"
    "2 ^ bs * unat w + unat carry < 2 ^ (32 + bs)"
proof -
  have w: "unat w < 2 ^ 32" using unat_u32_less [of w] by simp
  have "2 ^ bs * unat w + unat carry < 2 ^ bs * Suc (unat w)" using assms(2) by simp
  also have "\<dots> \<le> 2 ^ bs * 2 ^ 32" using w by (intro mult_left_mono) simp_all
  finally show lt: "2 ^ bs * unat w + unat carry < 2 ^ (32 + bs)" by (simp add: power_add mult.commute)
  also have "(2 :: nat) ^ (32 + bs) \<le> 2 ^ 64" using assms(1) by (intro power_increasing) simp_all
  finally have lt64: "2 ^ bs * unat w + unat carry < 2 ^ 64" .
  have p: "unat (push_bit bs (ucast w :: u64)) = 2 ^ bs * unat w"
  proof -
    have "unat (push_bit bs (ucast w :: u64)) = take_bit 64 (push_bit bs (unat (ucast w :: u64)))" by (simp add: unsigned_push_bit_eq)
    also have "\<dots> = take_bit 64 (2 ^ bs * unat w)" by (simp only: unat_ucast_up) (simp add: push_bit_eq_mult mult.commute)
    also have "\<dots> = 2 ^ bs * unat w" using lt64 by (intro take_bit_nat_eq_self) linarith
    finally show ?thesis .
  qed
  have tb: "take_bit bs carry = carry"
  proof -
    have "take_bit bs (unat carry) = unat carry" using assms(2) by (intro take_bit_nat_eq_self)
    then have "unat (take_bit bs carry) = unat carry" by (simp only: unsigned_take_bit_eq)
    then show ?thesis by (simp only: word_unat_eq_iff)
  qed
  have nb: "\<not> bit carry n" if "bs \<le> n" for n
    using that by (subst tb [symmetric]) (simp add: bit_simps)
  have "push_bit bs (ucast w :: u64) AND ucast carry = 0"
    by (rule bit_word_eqI) (auto simp: bit_simps nb)
  then have "push_bit bs (ucast w :: u64) OR ucast carry = push_bit bs (ucast w) + ucast carry"
    by (rule disjunctive_add_eq_or [symmetric])
  then show "unat (push_bit bs (ucast (w :: u32) :: u64) OR ucast (carry :: u32)) = 2 ^ bs * unat w + unat carry"
    using lt64 by (simp only:) (subst unat_add_small, simp_all add: p unat_ucast_up)
qed

lemma shift_steps:
  assumes "n + ws \<le> 256" "bs < 32" "n \<le> length (bn_d a)" "fold (shift_step a ws bs) [0..<n] (bn_d bn_zero, 0) = (d, carry)"
  shows "wval d + 2 ^ (32 * (n + ws)) * unat carry = 2 ^ (32 * ws + bs) * wval (take n (bn_d a))
    \<and> unat carry < 2 ^ bs \<and> length d = 256 \<and> (\<forall>i. n + ws \<le> i \<and> i < 256 \<longrightarrow> d ! i = 0)"
  using assms
proof (induction n arbitrary: d carry)
  case 0
  then show ?case by (auto simp: bn_zero_def BN_MAX_WORDS_def wval_zeros)
next
  case (Suc n)
  obtain d0 c0 where st: "fold (shift_step a ws bs) [0..<n] (bn_d bn_zero, 0) = (d0, c0)" by force
  have IH: "wval d0 + 2 ^ (32 * (n + ws)) * unat c0 = 2 ^ (32 * ws + bs) * wval (take n (bn_d a))"
    "unat c0 < 2 ^ bs" "length d0 = 256" "\<forall>i. n + ws \<le> i \<and> i < 256 \<longrightarrow> d0 ! i = 0"
    using Suc.IH [OF _ _ _ st] Suc.prems(1-3) by simp_all
  let ?w = "bn_d a ! n" and ?k = "n + ws"
  define v where "v = push_bit bs (ucast ?w :: u64) OR ucast c0"
  note V = shift_word_val [OF Suc.prems(2) IH(2), of ?w, folded v_def]
  have k: "?k < 256" using Suc.prems(1) by simp
  have "shift_step a ws bs n (d0, c0) = (d, carry)" using Suc.prems(4) st by simp
  then have d: "d = d0[?k := ucast (v AND 0xFFFFFFFF)]" and c: "carry = ucast (drop_bit 32 v)"
    using k by (simp_all add: shift_step_def v_def BN_MAX_WORDS_def Let_def)
  let ?X = "2 ^ bs * unat ?w + unat c0"
  have "?X div 2 ^ 32 < 2 ^ bs" using V(2) by (simp add: power_add less_mult_imp_div_less mult.commute)
  moreover have "(2 :: nat) ^ bs \<le> 2 ^ 32" using Suc.prems(2) by (intro power_increasing) simp_all
  ultimately have cv: "unat carry = ?X div 2 ^ 32" "unat carry < 2 ^ bs"
    using V(1) unat_high32 [of v] unfolding c by (simp_all add: unsigned_ucast_eq take_bit_nat_eq_self)
  have wv: "unat (ucast (v AND 0xFFFFFFFF) :: u32) = ?X mod 2 ^ 32" using V(1) by (simp only: unat_low32)
  have "d0 ! ?k = 0" using IH(4) k by simp
  then have "wval d = wval d0 + 2 ^ (32 * ?k) * (?X mod 2 ^ 32)"
    using wval_update [of ?k d0 "ucast (v AND 0xFFFFFFFF)"] k IH(3) by (simp add: d wv del: power_mult)
  moreover have "2 ^ (32 * ?k) * ?X = 2 ^ (32 * ?k) * (?X mod 2 ^ 32) + 2 ^ (32 * Suc ?k) * (?X div 2 ^ 32)"
  proof -
    have "2 ^ (32 * ?k) * ?X = 2 ^ (32 * ?k) * (?X mod 2 ^ 32 + 2 ^ 32 * (?X div 2 ^ 32))" by simp
    then show ?thesis by (simp only: distrib_left mult_Suc_right power_add mult.assoc mult.left_commute)
  qed
  moreover have "2 ^ (32 * ?k) * ?X = 2 ^ (32 * ?k) * unat c0 + 2 ^ (32 * ws + bs) * (2 ^ (32 * n) * unat ?w)"
    by (simp add: power_add distrib_left algebra_simps)
  moreover have "wval (take (Suc n) (bn_d a)) = wval (take n (bn_d a)) + 2 ^ (32 * n) * unat ?w"
    using Suc.prems(3) by (simp add: take_Suc_conv_app_nth wval_append)
  ultimately have "wval d + 2 ^ (32 * (Suc n + ws)) * unat carry = 2 ^ (32 * ws + bs) * wval (take (Suc n) (bn_d a))"
    using IH(1) unfolding cv(1) by (simp add: distrib_left)
  then show ?case using cv(2) IH(3,4) k by (simp add: d)
qed

lemma bn_shift_val:
  assumes "bn_ok a" "0 < bn_val a" "bn_val a * 2 ^ k < bn_cap"
  shows "bn_ok (bn_shift_left_bits a (int k)) \<and> bn_val (bn_shift_left_bits a (int k)) = bn_val a * 2 ^ k"
proof -
  let ?ws = "k div 32" and ?bs = "k mod 32"
  obtain n where n: "bn_len a = Suc n" using assms(2) by (cases "bn_len a") (simp_all add: bn_val_def)
  have len: "bn_len a \<le> length (bn_d a)" using assms(1) by (simp add: bn_ok_def)
  have fits: "bn_len a + ?ws \<le> 256"
  proof (rule ccontr)
    assume "\<not> bn_len a + ?ws \<le> 256"
    then have "32 * 256 \<le> 32 * n + k" using n by linarith
    then have "bn_cap \<le> 2 ^ (32 * n + k)" unfolding bn_cap_def by (intro power_increasing) simp_all
    also have "\<dots> = 2 ^ (32 * n) * 2 ^ k" by (rule power_add)
    also have "\<dots> \<le> bn_val a * 2 ^ k" using bn_val_ge(1) [OF assms(1,2) n] by (intro mult_right_mono) simp_all
    finally show False using assms(3) by simp
  qed
  obtain d carry where st: "fold (shift_step a ?ws ?bs) [0..<bn_len a] (bn_d bn_zero, 0) = (d, carry)" by force
  have "2 ^ (32 * ?ws + ?bs) * wval (take (bn_len a) (bn_d a)) = bn_val a * 2 ^ k" by (simp add: bn_val_def)
  then have S: "wval d + 2 ^ (32 * (bn_len a + ?ws)) * unat carry = bn_val a * 2 ^ k" "length d = 256"
    "\<forall>i. bn_len a + ?ws \<le> i \<and> i < 256 \<longrightarrow> d ! i = 0"
    using shift_steps [OF fits _ len st] by simp_all
  define p where "p = (if carry \<noteq> 0 \<and> bn_len a + ?ws < 256 then (d[bn_len a + ?ws := carry], bn_len a + ?ws + 1) else (d, bn_len a + ?ws))"
  obtain d' m where p: "p = (d', m)" by force
  have z: "\<not> bn_is_zero a" using assms(1,2) by (simp add: bn_is_zero_iff bn_ok_def)
  have "\<not> 256 \<le> ?ws" using fits n by simp
  then have r: "bn_shift_left_bits a (int k) = \<lparr>bn_d = d', bn_len = trim_len 1 d' m\<rparr>"
    using z st p by (simp add: bn_shift_left_bits_def BN_MAX_WORDS_def p_def Let_def)
  have D: "length d' = 256" "m \<le> 256" "1 \<le> m" "\<forall>i. m \<le> i \<and> i < 256 \<longrightarrow> d' ! i = 0" "wval d' = bn_val a * 2 ^ k"
  proof -
    have c0: "carry = 0" if "\<not> bn_len a + ?ws < 256"
    proof (rule ccontr)
      assume "carry \<noteq> 0"
      then have "1 \<le> unat carry" by (simp add: unat_gt_0 Suc_le_eq)
      moreover have "bn_len a + ?ws = 256" using that fits by simp
      ultimately have "bn_cap \<le> 2 ^ (32 * (bn_len a + ?ws)) * unat carry" by (simp only: bn_cap_def) simp
      then show False using S(1) assms(3) by linarith
    qed
    have "wval d' = bn_val a * 2 ^ k"
    proof (cases "carry \<noteq> 0 \<and> bn_len a + ?ws < 256")
      case True
      then have "wval d' = wval d + 2 ^ (32 * (bn_len a + ?ws)) * unat carry"
        using p wval_update [of "bn_len a + ?ws" d carry] S(2,3) by (auto simp: p_def)
      then show ?thesis using S(1) by simp
    next
      case False
      then have "carry = 0" using c0 by blast
      then show ?thesis using p S(1) by (simp add: p_def)
    qed
    then show "length d' = 256" "m \<le> 256" "1 \<le> m" "\<forall>i. m \<le> i \<and> i < 256 \<longrightarrow> d' ! i = 0" "wval d' = bn_val a * 2 ^ k"
      using p S(2,3) fits n by (auto simp: p_def nth_list_update split: if_splits)
  qed
  note P = trim_len_props [of 1 d' m]
  have v: "wval (take (trim_len 1 d' m) d') = bn_val a * 2 ^ k"
    using wval_take_trim [of m d' 1] wval_take_zeros [of m d'] D by simp
  show ?thesis unfolding r using P D v by (auto simp: bn_ok_def bn_val_def)
qed

section \<open>Remainder\<close>

lemma copy_words_val:
  assumes "bn_ok src" "length (bn_d dst) = 256"
  shows "bn_ok (copy_words dst src) \<and> bn_val (copy_words dst src) = bn_val src \<and> bn_len (copy_words dst src) = bn_len src"
proof -
  have c: "n \<le> 256 \<Longrightarrow> fold (\<lambda>i d. d[i := bn_d src ! i]) [0..<n] (bn_d dst) = take n (bn_d src) @ drop n (bn_d dst)" for n
  proof (induction n)
    case (Suc n)
    have "drop n (bn_d dst) = bn_d dst ! n # drop (Suc n) (bn_d dst)" using Suc.prems assms(2) by (simp add: Cons_nth_drop_Suc)
    then show ?case using Suc assms list_update_length [of "take n (bn_d src)" "bn_d dst ! n" "drop (Suc n) (bn_d dst)" "bn_d src ! n"]
      by (simp add: take_Suc_conv_app_nth bn_ok_def)
  qed simp
  have "copy_words dst src = \<lparr>bn_d = take (bn_len src) (bn_d src) @ drop (bn_len src) (bn_d dst), bn_len = bn_len src\<rparr>"
    using assms(1) by (simp add: copy_words_def c bn_ok_def)
  then show ?thesis using assms by (auto simp: bn_ok_def bn_val_def nth_append)
qed

lemma bn_copy_val: "bn_ok a \<Longrightarrow> bn_ok (bn_copy a) \<and> bn_val (bn_copy a) = bn_val a"
  using copy_words_val [of a bn_zero] by (simp add: bn_copy_def bn_zero_def BN_MAX_WORDS_def)

text \<open>One turn subtracts a positive multiple of the modulus.\<close>

lemma mod_step:
  assumes "bn_ok t" "bn_ok m" "0 < bn_val m" "bn_val m \<le> bn_val t"
  defines "shift \<equiv> bn_bit_length t - bn_bit_length m"
  defines "s0 \<equiv> bn_shift_left_bits m shift"
  defines "s \<equiv> (if bn_cmp t s0 < 0 \<and> shift > 0 then bn_shift_left_bits m (shift - 1) else s0)"
  shows "bn_ok s \<and> (\<exists>k. bn_val s = bn_val m * 2 ^ k) \<and> bn_val s \<le> bn_val t"
proof -
  have t0: "0 < bn_val t" using assms(3,4) by simp
  obtain lt where lt: "bn_bit_length t = int lt" "0 < lt" "2 ^ (lt - 1) \<le> bn_val t" "bn_val t < 2 ^ lt" "lt \<le> 32 * bn_len t"
    by (rule bn_bit_length_val [OF assms(1) t0])
  obtain lm where lm: "bn_bit_length m = int lm" "0 < lm" "2 ^ (lm - 1) \<le> bn_val m" "bn_val m < 2 ^ lm"
    by (rule bn_bit_length_val [OF assms(2,3)]) blast
  have "lm \<le> lt"
  proof (rule ccontr)
    assume "\<not> lm \<le> lt"
    then have "(2 :: nat) ^ lt \<le> 2 ^ (lm - 1)" by (intro power_increasing) simp_all
    then show False using lt(4) lm(3) assms(4) by linarith
  qed
  then obtain k where k: "lt = lm + k" by (metis le_iff_add)
  then have sh: "shift = int k" by (simp add: shift_def lt(1) lm(1))
  have small: "bn_val m * 2 ^ i < 2 ^ (lm + i)" for i using lm(4) by (simp add: power_add)
  have "(2 :: nat) ^ (32 * bn_len t) \<le> bn_cap" unfolding bn_cap_def using assms(1) by (intro power_increasing) (simp_all add: bn_ok_def)
  moreover have "(2 :: nat) ^ lt \<le> 2 ^ (32 * bn_len t)" using lt(5) by (intro power_increasing) simp_all
  ultimately have cap: "(2 :: nat) ^ lt \<le> bn_cap" by (rule order_trans [rotated])
  have S0: "bn_ok s0 \<and> bn_val s0 = bn_val m * 2 ^ k"
    unfolding s0_def sh using small [of k] cap k by (intro bn_shift_val assms(2,3)) simp
  show ?thesis
  proof (cases "bn_cmp t s0 < 0")
    case True
    have pos: "0 < bn_val s0" using S0 assms(3) by simp
    have lt': "bn_val t < bn_val s0" using bn_cmp_sign [OF assms(1) conjunct1 [OF S0] pos] True by simp
    then have "k \<noteq> 0" using S0 assms(4) by (cases k) simp_all
    then obtain j where j: "k = Suc j" by (cases k) simp_all
    have "bn_val m * 2 ^ j < 2 ^ (lm + j)" by (rule small)
    also have "\<dots> = 2 ^ (lt - 1)" using k j by simp
    finally have b: "bn_val m * 2 ^ j < 2 ^ (lt - 1)" .
    have "s = bn_shift_left_bits m (int j)" unfolding s_def using True sh j by simp
    moreover have "bn_val m * 2 ^ j < bn_cap" using b lt(3) cap lt(4) by linarith
    ultimately have "bn_ok s \<and> bn_val s = bn_val m * 2 ^ j" using bn_shift_val [OF assms(2,3)] by simp
    then show ?thesis using b lt(3) by auto
  next
    case False
    have pos: "0 < bn_val s0" using S0 assms(3) by simp
    have "s = s0" using False by (simp add: s_def)
    moreover have "bn_val s0 \<le> bn_val t" using bn_cmp_sign [OF assms(1) conjunct1 [OF S0] pos] False by simp
    ultimately show ?thesis using S0 by blast
  qed
qed

lemma mod_loop_val:
  assumes "bn_ok t" "bn_ok m" "0 < bn_val m"
  shows "\<exists>r. mod_loop m t = Some r \<and> bn_ok r \<and> bn_val r = bn_val t mod bn_val m"
  using assms(1)
proof (induction "bn_val t" arbitrary: t rule: less_induct)
  case less
  show ?case
  proof (cases "bn_cmp t m \<ge> 0")
    case False
    then have "bn_val t < bn_val m" using bn_cmp_sign [OF less.prems assms(2,3)] by simp
    then show ?thesis using False less.prems by (subst mod_loop.simps) simp
  next
    case True
    then have ge: "bn_val m \<le> bn_val t" using bn_cmp_sign [OF less.prems assms(2,3)] by simp
    let ?shift = "bn_bit_length t - bn_bit_length m"
    let ?s0 = "bn_shift_left_bits m ?shift"
    define s where "s = (if bn_cmp t ?s0 < 0 \<and> ?shift > 0 then bn_shift_left_bits m (?shift - 1) else ?s0)"
    have S: "bn_ok s" "bn_val s \<le> bn_val t" and "\<exists>k. bn_val s = bn_val m * 2 ^ k"
      using mod_step [OF less.prems assms(2,3) ge] by (simp_all only: s_def)
    then obtain k where k: "bn_val s = bn_val m * 2 ^ k" by blast
    let ?t' = "bn_copy (bn_sub t s)"
    have t': "bn_ok ?t'" "bn_val ?t' = bn_val t - bn_val s"
      using bn_copy_val [OF bn_sub_val(1)] bn_sub_val(2) less.prems S by simp_all
    have "bn_val ?t' < bn_val t" using t'(2) k assms(3) ge by simp
    then obtain r where r: "mod_loop m ?t' = Some r" "bn_ok r" "bn_val r = bn_val ?t' mod bn_val m"
      using less.hyps t'(1) by blast
    have "(bn_val t - bn_val s) mod bn_val m = bn_val t mod bn_val m"
      unfolding k using S(2) by (metis k mod_mult_self2 le_add_diff_inverse2)
    moreover have "mod_loop m t = mod_loop m ?t'"
      using True by (subst mod_loop.simps) (simp add: s_def Let_def)
    ultimately show ?thesis using r t'(2) by simp
  qed
qed

lemma set_empty_zero_val: "bn_ok r \<Longrightarrow> bn_ok (set_empty_zero r) \<and> bn_val (set_empty_zero r) = bn_val r \<and> 0 < bn_len (set_empty_zero r)"
proof -
  assume r: "bn_ok r"
  show ?thesis
  proof (cases "bn_len r = 0")
    case True
    obtain x xs where "bn_d r = x # xs" using r by (cases "bn_d r") (simp_all add: bn_ok_def)
    then show ?thesis using r True by (simp add: set_empty_zero_def bn_ok_def bn_val_def)
  qed (use r in \<open>simp add: set_empty_zero_def\<close>)
qed

lemma bn_mod_val:
  assumes "bn_ok a" "bn_ok m" "0 < bn_val m" "length (bn_d r) = 256"
  shows "\<exists>x. bn_mod r a m = Some x \<and> bn_ok x \<and> bn_val x = bn_val a mod bn_val m \<and> 0 < bn_len x"
proof -
  have z: "\<not> bn_is_zero m" using assms(2,3) by (simp add: bn_is_zero_iff bn_ok_def)
  show ?thesis
  proof (cases "bn_cmp a m < 0")
    case True
    then have "bn_val a < bn_val m" using bn_cmp_sign [OF assms(1-3)] by simp
    then show ?thesis
      using True z copy_words_val [OF assms(1,4)] set_empty_zero_val [of "copy_words r a"] by (simp add: bn_mod_def)
  next
    case False
    have ca: "bn_ok (bn_copy a)" "bn_val (bn_copy a) = bn_val a" using bn_copy_val [OF assms(1)] by simp_all
    obtain t where t: "mod_loop m (bn_copy a) = Some t" "bn_ok t" "bn_val t = bn_val a mod bn_val m"
      using mod_loop_val [OF ca(1) assms(2,3)] ca(2) by auto
    have "bn_mod r a m = Some (set_empty_zero (bn_copy t))" using False z t(1) by (simp add: bn_mod_def)
    then show ?thesis using set_empty_zero_val [of "bn_copy t"] bn_copy_val [OF t(2)] t(3) by simp
  qed
qed

section \<open>Modular exponentiation\<close>

lemma halve_word:
  fixes w carry :: u32
  assumes "carry \<le> 1"
  defines "v \<equiv> push_bit 32 (ucast carry :: u64) OR ucast w"
  shows "unat (ucast (drop_bit 1 v) :: u32) = (2 ^ 32 * unat carry + unat w) div 2"
    "unat (ucast (v AND 1) :: u32) = (2 ^ 32 * unat carry + unat w) mod 2"
proof -
  have c: "unat carry \<le> 1" using assms(1) by (simp add: word_le_nat_alt)
  have w: "unat w < 2 ^ 32" using unat_u32_less [of w] by simp
  have "unat (ucast carry :: u64) = unat carry" by (rule unat_ucast_up)
  have "push_bit 32 (ucast carry :: u64) AND ucast w = 0"
    by (rule bit_word_eqI) (auto simp: bit_simps dest: bit_imp_le_length)
  then have "v = push_bit 32 (ucast carry) + ucast w" unfolding v_def by (rule disjunctive_add_eq_or [symmetric])
  moreover have "unat (push_bit 32 (ucast carry :: u64)) = 2 ^ 32 * unat carry"
    using c unat_mult_lem [of "ucast carry :: u64" "2 ^ 32", THEN iffD1] by (simp add: push_bit_eq_mult unat_ucast_up)
  ultimately have v: "unat v = 2 ^ 32 * unat carry + unat w"
    using c w by (simp only:) (subst unat_add_small, simp_all add: unat_ucast_up)
  have "unat (drop_bit 1 v) = unat v div 2" by (simp only: unat_drop_bit_eq) (simp only: drop_bit_eq_div power_one_right)
  then show "unat (ucast (drop_bit 1 v) :: u32) = (2 ^ 32 * unat carry + unat w) div 2"
    using v c w by (simp add: unsigned_ucast_eq take_bit_nat_eq_self)
  have "unat (v AND 1) = unat v mod 2" by (simp add: and_one_eq unat_mod_distrib)
  then show "unat (ucast (v AND 1) :: u32) = (2 ^ 32 * unat carry + unat w) mod 2"
    using v by (simp add: unsigned_ucast_eq take_bit_nat_eq_self)
qed

lemma halve_steps:
  assumes "k \<le> n" "n \<le> length d0" "fold halve_step (rev [k..<n]) (d0, 0) = (d, carry)"
  shows "2 * wval (drop k (take n d)) + unat carry = wval (drop k (take n d0)) \<and> carry \<le> 1 \<and> length d = length d0
    \<and> take k d = take k d0"
  using assms
proof (induction "n - k" arbitrary: k d carry)
  case 0
  then show ?case by simp
next
  case (Suc j)
  then have k: "k < n" by simp
  obtain d1 c1 where st: "fold halve_step (rev [Suc k..<n]) (d0, 0) = (d1, c1)" by force
  have IH: "2 * wval (drop (Suc k) (take n d1)) + unat c1 = wval (drop (Suc k) (take n d0))" "c1 \<le> 1" "length d1 = length d0"
    "take (Suc k) d1 = take (Suc k) d0"
    using Suc.hyps(1) [of "Suc k" d1 c1] Suc.hyps(2) k Suc.prems(2) st by simp_all
  have "rev [k..<n] = rev [Suc k..<n] @ [k]" using k by (simp add: upt_conv_Cons)
  then have "halve_step k (d1, c1) = (d, carry)" using Suc.prems(3) st by simp
  define v where "v = push_bit 32 (ucast c1 :: u64) OR ucast (d1 ! k)"
  have d: "d = d1[k := ucast (drop_bit 1 v)]" and c: "carry = ucast (v AND 1)"
    using \<open>halve_step k (d1, c1) = (d, carry)\<close> by (simp_all add: halve_step_def v_def Let_def)
  note H = halve_word [OF IH(2), of "d1 ! k", folded v_def]
  have kl: "k < length d0" using k Suc.prems(2) by simp
  have dk: "d1 ! k = d0 ! k" using arg_cong [OF IH(4), of "\<lambda>x. x ! k"] by simp
  have dr: "drop k (take n x) = x ! k # drop (Suc k) (take n x)" if "length x = length d0" for x :: "u32 list"
    using that k Suc.prems(2) by (simp add: Cons_nth_drop_Suc [symmetric])
  have "drop (Suc k) (take n d) = drop (Suc k) (take n d1)" by (simp add: d take_update_swap drop_update_cancel)
  then have w: "wval (drop k (take n d)) = (2 ^ 32 * unat c1 + unat (d0 ! k)) div 2 + 2 ^ 32 * wval (drop (Suc k) (take n d1))"
    using IH(3) kl H(1) dk by (subst dr) (simp_all add: d)
  have w0: "wval (drop k (take n d0)) = unat (d0 ! k) + 2 ^ 32 * (2 * wval (drop (Suc k) (take n d1)) + unat c1)"
    by (subst dr) (simp_all add: IH(1))
  let ?X = "2 ^ 32 * unat c1 + unat (d0 ! k)"
  have cu: "unat carry = ?X mod 2" using H(2) by (simp add: c dk)
  have "2 * (?X div 2) + ?X mod 2 = ?X" by simp
  then have "2 * wval (drop k (take n d)) + unat carry = wval (drop k (take n d0))"
    unfolding w w0 cu by (simp only: distrib_left)
  moreover have "carry \<le> 1" using cu by (simp add: word_le_nat_alt)
  moreover have "take k d = take k d0" using arg_cong [OF IH(4), of "take k"] by (simp add: d)
  ultimately show ?case using IH(3) by (simp add: d)
qed

lemma bn_halve_val:
  assumes "bn_ok e" "0 < bn_len e"
  shows "bn_ok (bn_halve e) \<and> bn_val (bn_halve e) = bn_val e div 2 \<and> 0 < bn_len (bn_halve e)"
proof -
  obtain d carry where st: "fold halve_step (rev [0..<bn_len e]) (bn_d e, 0) = (d, carry)" by force
  have H: "2 * wval (take (bn_len e) d) + unat carry = bn_val e" "carry \<le> 1" "length d = 256"
    using halve_steps [OF _ _ st] assms(1) by (simp_all add: bn_ok_def bn_val_def)
  have "unat carry \<le> 1" using H(2) by (simp add: word_le_nat_alt)
  then have v: "bn_val (e\<lparr>bn_d := d\<rparr>) = bn_val e div 2" using H(1) by (simp add: bn_val_def)
  have "bn_halve e = bn_trim (e\<lparr>bn_d := d\<rparr>)" by (simp add: bn_halve_def st)
  then show ?thesis using bn_trim_ok [of "e\<lparr>bn_d := d\<rparr>"] H(3) assms v by (simp add: bn_ok_def)
qed

lemma bn_odd:
  assumes "bn_ok e" "0 < bn_len e"
  shows "bn_d e ! 0 AND 1 \<noteq> 0 \<longleftrightarrow> odd (bn_val e)"
proof -
  obtain w ws where d: "bn_d e = w # ws" using assms by (cases "bn_d e") (simp_all add: bn_ok_def)
  obtain n where n: "bn_len e = Suc n" using assms(2) by (cases "bn_len e") simp_all
  have "bn_val e = unat w + 2 ^ 32 * wval (take n ws)" by (simp add: bn_val_def d n)
  then have "odd (bn_val e) \<longleftrightarrow> odd (unat w)" by simp
  moreover have "w AND 1 = 0 \<longleftrightarrow> even (unat w)"
  proof -
    have "unat (w AND 1) = unat w mod 2" by (simp add: and_one_eq unat_mod_distrib)
    then show ?thesis by (metis even_iff_mod_2_eq_zero unat_eq_0)
  qed
  ultimately show ?thesis by (simp add: d)
qed

text \<open>A value below the modulus needs no more words than the modulus.\<close>

lemma bn_len_mono: "bn_ok a \<Longrightarrow> bn_val a < bn_val b \<Longrightarrow> bn_len a \<le> max 1 (bn_len b)"
proof (rule ccontr)
  assume a: "bn_ok a" "bn_val a < bn_val b" and "\<not> bn_len a \<le> max 1 (bn_len b)"
  then obtain n where n: "bn_len a = Suc n" "bn_len b \<le> n" "0 < n" by (cases "bn_len a") auto
  then have "bn_d a ! n \<noteq> 0" using a(1) by (simp add: bn_ok_def)
  then have "0 < bn_val a" using bn_val_top [OF a(1) n(1)] by (simp add: unat_gt_0)
  have "(2 :: nat) ^ (32 * bn_len b) \<le> 2 ^ (32 * n)" using n(2) by (intro power_increasing) simp_all
  also have "\<dots> \<le> bn_val a" by (rule bn_val_ge [OF a(1) \<open>0 < bn_val a\<close> n(1)])
  finally show False using a(2) bn_val_less [of b] by linarith
qed

lemma exp_loop_val:
  assumes "bn_ok m" "0 < bn_val m" "bn_len m \<le> 128" "bn_ok res" "bn_len res \<le> 128" "bn_ok base" "bn_len base \<le> 128"
    "bn_ok e" "0 < bn_len e" "0 < bn_len res"
  shows "\<exists>r. exp_loop m res base e = Some r \<and> bn_ok r \<and> 0 < bn_len r
    \<and> bn_val r mod bn_val m = (bn_val res * bn_val base ^ bn_val e) mod bn_val m
    \<and> (0 < bn_val e \<or> bn_val res < bn_val m \<longrightarrow> bn_val r < bn_val m) \<and> (bn_val e = 0 \<longrightarrow> r = res)"
  using assms(4-10)
proof (induction "bn_val e" arbitrary: res base e rule: less_induct)
  case less
  have z: "bn_is_zero e \<longleftrightarrow> bn_val e = 0" using less.prems(5) by (simp add: bn_is_zero_iff bn_ok_def)
  have len256: "length (bn_d x) = 256" if "bn_ok x" for x using that by (simp add: bn_ok_def)
  have small: "bn_len x \<le> 128" if "bn_ok x" "bn_val x < bn_val m" for x using bn_len_mono [OF that] assms(3) by simp
  show ?case
  proof (cases "bn_val e = 0")
    case True
    then have "exp_loop m res base e = Some res" using z by (subst exp_loop.simps) simp
    then show ?thesis using True less.prems by simp
  next
    case False
    let ?odd = "bn_d e ! 0 AND 1 \<noteq> 0"
    have odd: "?odd \<longleftrightarrow> odd (bn_val e)" by (rule bn_odd [OF less.prems(5,6)])
    obtain res' where res': "(if ?odd then bn_mod res (bn_mul res base) m else Some res) = Some res'" "bn_ok res'" "0 < bn_len res'"
      "bn_len res' \<le> 128" "?odd \<longrightarrow> bn_val res' < bn_val m" "\<not> ?odd \<longrightarrow> bn_val res' = bn_val res"
      "bn_val res' mod bn_val m = (if ?odd then bn_val res * bn_val base else bn_val res) mod bn_val m"
    proof (cases ?odd)
      case True
      have mu: "bn_ok (bn_mul res base)" "bn_val (bn_mul res base) = bn_val res * bn_val base"
        using bn_mul_val [OF less.prems(1,3)] less.prems(2,4) by simp_all
      obtain x where x: "bn_mod res (bn_mul res base) m = Some x" "bn_ok x" "bn_val x = bn_val res * bn_val base mod bn_val m" "0 < bn_len x"
        using bn_mod_val [OF mu(1) assms(1,2) len256 [OF less.prems(1)]] mu(2) by auto
      have "bn_val x < bn_val m" using x(3) assms(2) by simp
      then show ?thesis using x True small by (intro that [of x]) simp_all
    next
      case False
      then show ?thesis using less.prems by (intro that [of res]) simp_all
    qed
    have sq: "bn_ok (bn_mul base base)" "bn_val (bn_mul base base) = bn_val base * bn_val base"
      using bn_mul_val [OF less.prems(3,3)] less.prems(4) by simp_all
    obtain base' where base': "bn_mod base (bn_mul base base) m = Some base'" "bn_ok base'" "bn_val base' = bn_val base * bn_val base mod bn_val m"
      using bn_mod_val [OF sq(1) assms(1,2) len256 [OF less.prems(3)]] sq(2) by auto
    have bl: "bn_len base' \<le> 128" using small [OF base'(2)] base'(3) assms(2) by simp
    have h: "bn_ok (bn_halve e)" "bn_val (bn_halve e) = bn_val e div 2" "0 < bn_len (bn_halve e)"
      using bn_halve_val [OF less.prems(5,6)] by simp_all
    have "bn_val (bn_halve e) < bn_val e" using h(2) False by simp
    then obtain r where r: "exp_loop m res' base' (bn_halve e) = Some r" "bn_ok r" "0 < bn_len r"
      "bn_val r mod bn_val m = (bn_val res' * bn_val base' ^ bn_val (bn_halve e)) mod bn_val m"
      "0 < bn_val (bn_halve e) \<or> bn_val res' < bn_val m \<longrightarrow> bn_val r < bn_val m"
      using less.hyps [of "bn_halve e" res' base'] res'(2-4) base'(2) bl h by blast
    have step: "exp_loop m res base e = Some r"
      using False z res'(1) base'(1) r(1) by (subst exp_loop.simps) simp
    have lt: "bn_val r < bn_val m"
    proof (cases ?odd)
      case True
      then show ?thesis using r(5) res'(5) by simp
    next
      case ev: False
      then have "0 < bn_val e div 2" using odd False by (auto elim: evenE)
      then show ?thesis using r(5) h(2) by simp
    qed
    have md: "bn_val r mod bn_val m = (bn_val res * bn_val base ^ bn_val e) mod bn_val m"
    proof -
      let ?M = "bn_val m" and ?b = "bn_val base" and ?h = "bn_val e div 2"
      have "bn_val res' * (?b * ?b mod ?M) ^ ?h mod ?M = (if ?odd then bn_val res * ?b else bn_val res) * (?b * ?b) ^ ?h mod ?M"
        using res'(7) by (metis mod_mult_cong power_mod)
      also have "(if ?odd then bn_val res * ?b else bn_val res) * (?b * ?b) ^ ?h = bn_val res * ?b ^ bn_val e"
      proof (cases "odd (bn_val e)")
        case True
        then have "bn_val e = Suc (2 * ?h)" using odd_two_times_div_two_succ [OF True] by simp
        then have "?b ^ bn_val e = ?b ^ Suc (2 * ?h)" by (rule arg_cong [where f = "\<lambda>n. ?b ^ n"])
        also have "\<dots> = ?b * (?b * ?b) ^ ?h" by (simp only: power_Suc power_mult power2_eq_square)
        finally have "?b ^ bn_val e = ?b * (?b * ?b) ^ ?h" .
        then show ?thesis using True odd by simp
      next
        case ev: False
        then have "bn_val e = 2 * ?h" by simp
        then have "?b ^ bn_val e = ?b ^ (2 * ?h)" by (rule arg_cong [where f = "\<lambda>n. ?b ^ n"])
        also have "\<dots> = (?b * ?b) ^ ?h" by (simp only: power_mult power2_eq_square)
        finally have "?b ^ bn_val e = (?b * ?b) ^ ?h" .
        then show ?thesis using ev odd by simp
      qed
      finally show ?thesis using r(4) base'(3) h(2) by simp
    qed
    have "bn_val e = 0 \<longrightarrow> r = res" using False by simp
    then show ?thesis by (intro exI [of _ r] conjI impI step r(2) r(3) md lt) (erule mp)
  qed
qed

lemma bn_from_uint32_val: "bn_ok (bn_from_uint32 v)" "bn_val (bn_from_uint32 v) = unat v" "bn_len (bn_from_uint32 v) = 1"
proof -
  have "BN_MAX_WORDS = Suc 255" by (simp add: BN_MAX_WORDS_def)
  then have "replicate BN_MAX_WORDS (0 :: u32) = 0 # replicate 255 0" by (metis replicate_Suc)
  then show "bn_ok (bn_from_uint32 v)" "bn_val (bn_from_uint32 v) = unat v" "bn_len (bn_from_uint32 v) = 1"
    by (simp_all add: bn_ok_def bn_from_uint32_def bn_zero_def bn_val_def)
qed

lemma bn_mod_exp_val:
  assumes "bn_ok a" "bn_ok e" "bn_ok m" "0 < bn_val m" "bn_len m \<le> 128" "bn_len a \<le> 128" "0 < bn_len e"
    "length (bn_d jb) = 256" "length (bn_d je) = 256" "length (bn_d r) = 256"
  shows "\<exists>x. bn_mod_exp jb je r a e m = Some x \<and> bn_ok x
    \<and> bn_val x = (if bn_val e = 0 then 1 else bn_val a ^ bn_val e mod bn_val m)"
proof -
  note ca = copy_words_val [OF assms(1,8)] and ce = copy_words_val [OF assms(2,9)]
  obtain t where t: "exp_loop m (bn_from_uint32 1) (copy_words jb a) (copy_words je e) = Some t" "bn_ok t" "0 < bn_len t"
    "bn_val t mod bn_val m = bn_val a ^ bn_val e mod bn_val m" "0 < bn_val e \<longrightarrow> bn_val t < bn_val m"
    "bn_val e = 0 \<longrightarrow> t = bn_from_uint32 1"
    using exp_loop_val [OF assms(3-5), of "bn_from_uint32 1" "copy_words jb a" "copy_words je e"] ca ce assms(6,7)
    by (auto simp: bn_from_uint32_val)
  have "bn_val t = (if bn_val e = 0 then 1 else bn_val a ^ bn_val e mod bn_val m)"
    using t(4-6) by (auto simp: bn_from_uint32_val)
  moreover have "bn_mod_exp jb je r a e m = Some (copy_words r t)" using t(1) by (simp add: bn_mod_exp_def)
  ultimately show ?thesis using copy_words_val [OF t(2) assms(10)] by simp
qed

section \<open>Bytes\<close>

text \<open>The number a byte string is, most significant byte first.\<close>

definition be_val :: "bytes \<Rightarrow> nat" where
  "be_val bs = foldl (\<lambda>v b. 256 * v + unat b) 0 bs"

lemma be_val_append: "be_val (xs @ ys) = 256 ^ length ys * be_val xs + be_val ys"
  by (induction ys rule: rev_induct) (simp_all add: be_val_def algebra_simps)

lemma be_val_less: "be_val bs < 256 ^ length bs"
proof (induction bs rule: rev_induct)
  case (snoc b bs)
  have "256 * be_val bs + unat b < 256 * (be_val bs + 1)" using unat_u8_less [of b] by simp
  also have "\<dots> \<le> 256 * 256 ^ length bs" using snoc by (intro mult_left_mono) simp_all
  finally show ?case by (simp add: be_val_def)
qed (simp add: be_val_def)

text \<open>Up to four bytes as the code shifts them into a word.\<close>

lemma shift_in_byte:
  assumes "unat v < 2 ^ 24"
  shows "unat (push_bit 8 v OR ucast (b :: u8) :: u32) = 256 * unat v + unat b"
proof -
  have "push_bit 8 v AND ucast b = (0 :: u32)"
    by (rule bit_word_eqI) (auto simp: bit_simps dest: bit_imp_le_length)
  then have "push_bit 8 v OR ucast b = push_bit 8 v + (ucast b :: u32)" by (rule disjunctive_add_eq_or [symmetric])
  moreover have "unat (push_bit 8 v) = 256 * unat v"
    using assms unat_mult_lem [of v 256, THEN iffD1] by (simp add: push_bit_eq_mult)
  moreover have "unat (ucast b :: u32) = unat b"
    using unat_u8_less [of b] by (simp add: unsigned_ucast_eq take_bit_nat_eq_self)
  ultimately show ?thesis using assms unat_u8_less [of b] by (simp only:) (subst unat_add_small, simp_all)
qed

lemma be_short:
  assumes "n \<le> 3" "n \<le> length bs"
  shows "unat (fold (\<lambda>j v. push_bit 8 v OR ucast (bs ! j)) [0..<n] (0 :: u32)) = be_val (take n bs)"
  using assms
proof (induction n)
  case (Suc n)
  then have IH: "unat (fold (\<lambda>j v. push_bit 8 v OR ucast (bs ! j)) [0..<n] (0 :: u32)) = be_val (take n bs)" by simp
  have "be_val (take n bs) < 256 ^ n" using be_val_less [of "take n bs"] Suc.prems by simp
  also have "(256 :: nat) ^ n \<le> 256 ^ 2" using Suc.prems by (intro power_increasing) simp_all
  finally have "be_val (take n bs) < 2 ^ 24" by simp
  then show ?case using shift_in_byte [of _ "bs ! n"] IH Suc.prems by (simp add: take_Suc_conv_app_nth be_val_append) (simp add: be_val_def)
qed (simp add: be_val_def)

lemma be_word_val:
  assumes "i + 4 \<le> length bs"
  shows "unat (be_word bs i) = be_val (take 4 (drop i bs))"
proof -
  let ?b = "\<lambda>k. bs ! (i + k)"
  have bytes: "take 4 (drop i bs) = [?b 0, ?b 1, ?b 2, ?b 3]"
    using assms by (intro nth_equalityI) (auto simp: less_Suc_eq eval_nat_numeral)
  define v1 where "v1 = (push_bit 8 0 OR ucast (?b 0) :: u32)"
  define v2 where "v2 = push_bit 8 v1 OR ucast (?b 1)"
  define v3 where "v3 = push_bit 8 v2 OR ucast (?b 2)"
  have b: "unat (?b k) < 256" for k by (rule unat_u8_less)
  have u1: "unat v1 = unat (?b 0)" using shift_in_byte [of 0 "?b 0"] by (simp add: v1_def)
  have u2: "unat v2 = 256 * unat v1 + unat (?b 1)" unfolding v2_def using b [of 0] u1 by (intro shift_in_byte) simp
  have l2: "unat v2 < 2 ^ 16" using u1 u2 b [of 0] b [of 1] by simp
  have u3: "unat v3 = 256 * unat v2 + unat (?b 2)" unfolding v3_def using l2 by (intro shift_in_byte) simp
  have l3: "unat v3 < 2 ^ 24" using u3 l2 b [of 2] by simp
  have "be_word bs i = push_bit 8 v3 OR ucast (?b 3)"
    by (rule bit_word_eqI) (auto simp: be_word_def v3_def v2_def v1_def bit_simps diff_diff_eq)
  then have "unat (be_word bs i) = 256 * unat v3 + unat (?b 3)" using shift_in_byte [OF l3] by simp
  then show ?thesis unfolding bytes u3 u2 u1 be_val_def by simp
qed

lemma from_bytes_words:
  assumes "n = length bs" "n \<le> 1024" "k \<le> n div 4"
  shows "length (fold (\<lambda>k d. d[k := be_word bs (n - 4 * (k + 1))]) [0..<k] (bn_d bn_zero)) = 256
    \<and> wval (take k (fold (\<lambda>k d. d[k := be_word bs (n - 4 * (k + 1))]) [0..<k] (bn_d bn_zero))) = be_val (drop (n - 4 * k) bs)"
  using assms(3)
proof (induction k)
  case 0
  then show ?case using assms(1) by (simp add: bn_zero_def BN_MAX_WORDS_def be_val_def)
next
  case (Suc k)
  let ?d = "fold (\<lambda>k d. d[k := be_word bs (n - 4 * (k + 1))]) [0..<k] (bn_d bn_zero)"
  let ?p = "n - 4 * (k + 1)"
  have IH: "length ?d = 256" "wval (take k ?d) = be_val (drop (n - 4 * k) bs)" using Suc by simp_all
  have "4 * (k + 1) \<le> n" using Suc.prems by simp
  then have p: "?p + 4 \<le> length bs" "?p + 4 = n - 4 * k" using assms(1) by auto
  have k: "k < 256" using Suc.prems assms(2) by linarith
  have "drop ?p bs = take 4 (drop ?p bs) @ drop (n - 4 * k) bs"
    using p(2) by (metis append_take_drop_id drop_drop add.commute)
  then have "be_val (drop ?p bs) = 256 ^ length (drop (n - 4 * k) bs) * be_val (take 4 (drop ?p bs)) + be_val (drop (n - 4 * k) bs)"
    by (metis be_val_append)
  moreover have "length (drop (n - 4 * k) bs) = 4 * k" using assms(1) Suc.prems by simp
  moreover have "(256 :: nat) ^ (4 * k) = 2 ^ (32 * k)" by (simp add: power_mult)
  ultimately have "be_val (drop ?p bs) = be_val (drop (n - 4 * k) bs) + 2 ^ (32 * k) * unat (be_word bs ?p)"
    using be_word_val [OF p(1)] by simp
  moreover have "take (Suc k) (?d[k := be_word bs ?p]) = take k ?d @ [be_word bs ?p]"
    using k IH(1) by (simp add: take_Suc_conv_app_nth)
  ultimately show ?case using IH k by (simp add: wval_append)
qed

lemma bn_from_bytes_val:
  assumes "length bs \<le> 1024"
  shows "fst (bn_from_bytes bs (int (length bs))) = 0 \<and> bn_ok (snd (bn_from_bytes bs (int (length bs))))
    \<and> bn_val (snd (bn_from_bytes bs (int (length bs)))) = be_val bs \<and> 0 < bn_len (snd (bn_from_bytes bs (int (length bs))))"
proof -
  let ?n = "length bs"
  let ?k = "?n div 4" and ?r = "?n mod 4"
  let ?d = "fold (\<lambda>k d. d[k := be_word bs (?n - 4 * (k + 1))]) [0..<?k] (bn_d bn_zero)"
  define v where "v = fold (\<lambda>j v. push_bit 8 v OR ucast (bs ! j)) [0..<?r] (0 :: u32)"
  have D: "length ?d = 256" "wval (take ?k ?d) = be_val (drop (?n - 4 * ?k) bs)"
    using from_bytes_words [OF refl assms order_refl] by simp_all
  have r: "?n - 4 * ?k = ?r" by (simp add: minus_mult_div_eq_mod)
  define b where "b = (if ?r \<noteq> 0 then \<lparr>bn_d = ?d[?k := v], bn_len = ?k + 1\<rparr> else \<lparr>bn_d = ?d, bn_len = ?k\<rparr>)"
  have e: "bn_from_bytes bs (int ?n) = (0, bn_trim b)"
    using assms by (simp add: bn_from_bytes_def BN_MAX_WORDS_def b_def v_def Let_def)
  have le: "be_val bs = 256 ^ (4 * ?k) * be_val (take ?r bs) + be_val (drop ?r bs)"
  proof -
    have "length (drop ?r bs) = 4 * ?k" using r by (simp add: minus_mod_eq_mult_div)
    then show ?thesis using be_val_append [of "take ?r bs" "drop ?r bs"] by (simp only: append_take_drop_id)
  qed
  have p: "(256 :: nat) ^ (4 * ?k) = 2 ^ (32 * ?k)" by (simp add: power_mult)
  have B: "length (bn_d b) = 256" "bn_len b \<le> 256" "bn_val b = be_val bs" "bn_len b = 0 \<longrightarrow> bn_d b ! 0 = 0"
  proof -
    show "length (bn_d b) = 256" using D by (simp add: b_def)
    show "bn_len b \<le> 256"
    proof (cases "?r = 0")
      case True
      then show ?thesis using assms by (simp add: b_def)
    next
      case False
      then have "?k < 256" using assms div_mult_mod_eq [of ?n 4] by linarith
      then show ?thesis using False by (simp add: b_def)
    qed
    show "bn_val b = be_val bs"
    proof (cases "?r = 0")
      case True
      then show ?thesis using D r by (simp add: b_def bn_val_def)
    next
      case False
      then have k: "?k < 256" using assms div_mult_mod_eq [of ?n 4] by linarith
      have "take (Suc ?k) (?d[?k := v]) = take ?k ?d @ [v]" using k D(1) by (simp add: take_Suc_conv_app_nth)
      moreover have "unat v = be_val (take ?r bs)"
      proof -
        have "?r < 4" by simp
        then show ?thesis unfolding v_def by (intro be_short) simp_all
      qed
      ultimately show ?thesis using False D k r p le by (simp add: b_def bn_val_def wval_append)
    qed
    show "bn_len b = 0 \<longrightarrow> bn_d b ! 0 = 0"
      by (auto simp: b_def bn_zero_def BN_MAX_WORDS_def)
  qed
  show ?thesis unfolding e using bn_trim_ok [OF B(1,2,4)] B(3) by simp
qed

text \<open>The big-endian form of a number has no leading zero byte, and there is only one.\<close>

lemma be_val_Cons: "be_val (b # bs) = 256 ^ length bs * unat b + be_val bs"
  using be_val_append [of "[b]" bs] by (simp add: be_val_def)

lemma be_val_strip: "be_val (dropWhile (\<lambda>b. b = 0) bs) = be_val bs"
  by (induction bs) (simp_all add: be_val_Cons)

lemma be_val_inj: "length xs = length ys \<Longrightarrow> be_val xs = be_val ys \<Longrightarrow> xs = ys"
proof (induction xs ys rule: list_induct2)
  case (Cons x xs y ys)
  have d: "(256 ^ length zs * unat z + be_val zs) div 256 ^ length zs = unat z" for z zs
    using be_val_less [of zs] by simp
  have "unat x = unat y" using Cons.prems Cons.hyps d [of xs x] d [of ys y] by (simp add: be_val_Cons)
  then have "x = y" by (simp add: word_unat_eq_iff)
  then show ?case using Cons by (simp add: be_val_Cons)
qed simp

lemma be_val_ge: "x \<noteq> 0 \<Longrightarrow> 256 ^ length xs \<le> be_val (x # xs)"
proof -
  assume "x \<noteq> 0"
  then have "1 \<le> unat x" by (simp add: unat_gt_0 Suc_le_eq)
  then have "(256 :: nat) ^ length xs \<le> 256 ^ length xs * unat x" by simp
  then show ?thesis unfolding be_val_Cons by (rule trans_le_add1)
qed

lemma stripped_unique:
  assumes "be_val xs = be_val ys" "xs = [] \<or> hd xs \<noteq> 0" "ys = [] \<or> hd ys \<noteq> 0"
  shows "xs = ys"
proof -
  have le: "length us \<le> length vs" if "be_val us = be_val vs" "us = [] \<or> hd us \<noteq> 0" for us vs :: bytes
  proof (rule ccontr)
    assume "\<not> length us \<le> length vs"
    then obtain u us' where u: "us = u # us'" "length vs \<le> length us'" by (cases us) auto
    have "(256 :: nat) ^ length vs \<le> 256 ^ length us'" using u(2) by (intro power_increasing) simp_all
    also have "\<dots> \<le> be_val us" using that(2) u(1) be_val_ge [of u us'] by simp
    finally show False using be_val_less [of vs] that(1) by simp
  qed
  show ?thesis using le [OF assms(1,2)] le [OF assms(1) [symmetric] assms(3)] assms(1) by (intro be_val_inj) simp_all
qed

lemma strip_hd: "dropWhile (\<lambda>b. b = (0 :: u8)) bs = [] \<or> hd (dropWhile (\<lambda>b. b = 0) bs) \<noteq> 0"
  by (induction bs) auto

definition word_be :: "u32 \<Rightarrow> bytes" where
  "word_be w = [ucast (drop_bit 24 w), ucast (drop_bit 16 w AND 0xFF), ucast (drop_bit 8 w AND 0xFF), ucast (w AND 0xFF)]"

lemma be_val_word: "be_val (word_be w) = unat w"
proof -
  have m: "ucast (x AND 0xFF) = (ucast x :: u8)" for x :: u32
  proof -
    have "(0xFF :: u32) = mask 8" by (simp add: mask_eq_exp_minus_1)
    moreover have "ucast (x AND mask 8) = (ucast x :: u8)" by (rule bit_word_eqI) (simp add: bit_simps)
    ultimately show ?thesis by (simp only:)
  qed
  have b: "unat (ucast (drop_bit k w) :: u8) = unat w div 2 ^ k mod 256" for k
  proof -
    have "unat (ucast (drop_bit k w) :: u8) = take_bit 8 (unat (drop_bit k w))" by (simp add: unsigned_ucast_eq)
    then show ?thesis by (simp only: unat_drop_bit_eq take_bit_eq_mod) (simp only: drop_bit_eq_div, simp)
  qed
  have b0: "unat (ucast w :: u8) = unat w mod 256" using b [of 0] by simp
  have s: "256 * (x div 256) + x mod 256 = x" for x :: nat by simp
  have "unat w div 2 ^ 24 < 256" using unat_u32_less [of w] by simp
  then have t: "unat w div 2 ^ 24 mod 256 = unat w div 2 ^ 24" by (rule mod_less)
  have d: "unat w div 2 ^ 24 = unat w div 2 ^ 16 div 256" "unat w div 2 ^ 16 = unat w div 2 ^ 8 div 256" "unat w div 2 ^ 8 = unat w div 256"
    by (simp_all add: div_mult2_eq [symmetric])
  have "be_val (word_be w) = 256 * (256 * (256 * (unat w div 2 ^ 24) + unat w div 2 ^ 16 mod 256) + unat w div 2 ^ 8 mod 256) + unat w mod 256"
    unfolding word_be_def m be_val_def by (simp only: foldl.simps b b0 t mult_0_right add_0_left)
  also have "\<dots> = unat w" by (simp only: d s)
  finally show ?thesis .
qed

lemma be_val_words: "be_val (concat (map word_be (rev ws))) = wval ws"
proof (induction ws)
  case Nil
  then show ?case by (simp add: be_val_def)
next
  case (Cons w ws)
  have "length (word_be w) = 4" by (simp add: word_be_def)
  then show ?case using Cons by (simp add: be_val_append be_val_word)
qed

lemma bn_to_bytes_val:
  assumes "bn_len a \<le> length (bn_d a)"
  shows "be_val (bn_to_bytes a) = bn_val a" "bn_to_bytes a = [] \<or> hd (bn_to_bytes a) \<noteq> 0"
proof -
  have "map (\<lambda>i. bn_d a ! i) (rev [0..<bn_len a]) = rev (take (bn_len a) (bn_d a))"
    using assms by (intro nth_equalityI) (simp_all add: rev_nth)
  then have "concat (map (\<lambda>i. word_be (bn_d a ! i)) (rev [0..<bn_len a])) = concat (map word_be (rev (take (bn_len a) (bn_d a))))"
    by (simp only: map_map comp_def flip: \<open>map (\<lambda>i. bn_d a ! i) (rev [0..<bn_len a]) = rev (take (bn_len a) (bn_d a))\<close>)
  then have e: "bn_to_bytes a = dropWhile (\<lambda>b. b = 0) (concat (map word_be (rev (take (bn_len a) (bn_d a)))))"
    by (simp add: bn_to_bytes_def word_be_def Let_def)
  show "be_val (bn_to_bytes a) = bn_val a" by (simp only: e be_val_strip be_val_words bn_val_def)
  show "bn_to_bytes a = [] \<or> hd (bn_to_bytes a) \<noteq> 0" unfolding e by (rule strip_hd)
qed

lemma bytes_round_trip:
  assumes "length bs \<le> 1024"
  shows "bn_to_bytes (snd (bn_from_bytes bs (int (length bs)))) = dropWhile (\<lambda>b. b = 0) bs"
proof (rule stripped_unique)
  let ?a = "snd (bn_from_bytes bs (int (length bs)))"
  have "bn_ok ?a" "bn_val ?a = be_val bs" using bn_from_bytes_val [OF assms] by simp_all
  then show "be_val (bn_to_bytes ?a) = be_val (dropWhile (\<lambda>b. b = 0) bs)" "bn_to_bytes ?a = [] \<or> hd (bn_to_bytes ?a) \<noteq> 0"
    using bn_to_bytes_val [of ?a] by (simp_all add: bn_ok_def be_val_strip)
qed (rule strip_hd)

section \<open>Sums\<close>

lemma add_loop_val:
  assumes "length (bn_d r) = 256" "bn_len r = i" "unat carry \<le> 1" "bn_len a \<le> 256" "bn_len b \<le> 256" "i \<le> 256"
    "wval (take i (bn_d r)) + 2 ^ (32 * i) * unat carry + rest_val a i + rest_val b i = V"
  shows "case add_loop a b i carry r of None \<Rightarrow> bn_cap \<le> V | Some r' \<Rightarrow> bn_val r' = V \<and> V < bn_cap"
  using assms
proof (induction a b i carry r rule: add_loop.induct)
  case (1 a b i carry r)
  show ?case
  proof (cases "i < max (bn_len a) (bn_len b) \<or> carry \<noteq> 0")
    case False
    then have "add_loop a b i carry r = Some r" by (subst add_loop.simps) simp
    moreover have "bn_val r = V" using "1.prems"(2,7) False by (auto simp: rest_val_beyond bn_val_def not_less)
    moreover have "bn_val r < bn_cap"
    proof -
      have "(2 :: nat) ^ (32 * bn_len r) \<le> bn_cap" unfolding bn_cap_def using "1.prems"(2,6) by (intro power_increasing) simp_all
      then show ?thesis using bn_val_less [of r] by linarith
    qed
    ultimately show ?thesis by simp
  next
    case go: True
    show ?thesis
    proof (cases "256 \<le> i")
      case True
      then have i: "i = 256" "carry \<noteq> 0" using go "1.prems"(4-6) by auto
      then have "1 \<le> unat carry" by (simp add: unat_gt_0 Suc_le_eq)
      then have "bn_cap \<le> 2 ^ (32 * i) * unat carry" unfolding bn_cap_def i(1) by simp
      then have "bn_cap \<le> V" using "1.prems"(7) by linarith
      moreover have "add_loop a b i carry r = None" using go True by (subst add_loop.simps) (simp add: BN_MAX_WORDS_def)
      ultimately show ?thesis by simp
    next
      case False
      define s1 where "s1 = (if i < bn_len a then carry + ucast (bn_d a ! i) else carry)"
      define s where "s = (if i < bn_len b then s1 + ucast (bn_d b ! i) else s1)"
      have w: "unat (x :: u32) < 4294967296" for x by (rule unat_u32_less)
      have s1: "unat s1 = unat carry + word_at a i"
      proof (cases "i < bn_len a")
        case True
        then show ?thesis using "1.prems"(3) w [of "bn_d a ! i"] unfolding s1_def
          by (simp add: word_at_def unat_add_small unat_ucast_up)
      qed (simp add: s1_def word_at_def)
      have lta: "word_at c i < 4294967296" for c using w [of "bn_d c ! i"] by (simp add: word_at_def)
      have s: "unat s = unat carry + word_at a i + word_at b i"
      proof (cases "i < bn_len b")
        case True
        then show ?thesis using "1.prems"(3) s1 lta [of a] w [of "bn_d b ! i"] unfolding s_def
          by (simp add: word_at_def [of b] unat_add_small unat_ucast_up)
      qed (simp add: s_def s1 word_at_def [of b])
      let ?X = "unat carry + word_at a i + word_at b i"
      let ?r' = "\<lparr>bn_d = (bn_d r)[i := ucast s], bn_len = i + 1\<rparr>"
      have step: "add_loop a b i carry r = add_loop a b (i + 1) (drop_bit 32 s) ?r'"
        by (subst add_loop.simps) (use go False in \<open>simp add: BN_MAX_WORDS_def s_def s1_def Let_def\<close>)
      have c: "unat (drop_bit 32 s) = ?X div 2 ^ 32" using s by (simp only: unat_high32)
      have "?X div 2 ^ 32 \<le> 1" using "1.prems"(3) lta [of a] lta [of b] by simp
      then have c1: "unat (drop_bit 32 s) \<le> 1" using c by simp
      have u: "unat (ucast s :: u32) = ?X mod 2 ^ 32" using s by (simp add: unsigned_ucast_eq take_bit_eq_mod)
      have "take (i + 1) (bn_d ?r') = take i (bn_d r) @ [ucast s]"
        using False "1.prems"(1) by (simp add: take_Suc_conv_app_nth)
      then have "wval (take (i + 1) (bn_d ?r')) = wval (take i (bn_d r)) + 2 ^ (32 * i) * (?X mod 2 ^ 32)"
        using False "1.prems"(1) u by (simp add: wval_append)
      moreover have "2 ^ (32 * i) * ?X = 2 ^ (32 * i) * (?X mod 2 ^ 32) + 2 ^ (32 * (i + 1)) * (?X div 2 ^ 32)"
      proof -
        have "2 ^ (32 * i) * ?X = 2 ^ (32 * i) * (?X mod 2 ^ 32 + 2 ^ 32 * (?X div 2 ^ 32))" by simp
        then show ?thesis by (simp only: distrib_left power_add mult.assoc mult.left_commute mult_1_right)
      qed
      ultimately have "wval (take (i + 1) (bn_d ?r')) + 2 ^ (32 * (i + 1)) * unat (drop_bit 32 s) + rest_val a (i + 1) + rest_val b (i + 1) = V"
        using "1.prems"(7) unfolding c rest_val_step [of a i] rest_val_step [of b i] by (simp add: distrib_left)
      then have "case add_loop a b (i + 1) (drop_bit 32 s) ?r' of None \<Rightarrow> bn_cap \<le> V | Some r' \<Rightarrow> bn_val r' = V \<and> V < bn_cap"
        using "1.IH" [OF go _ refl s1_def s_def] False "1.prems"(1,4,5) c1 by (simp add: BN_MAX_WORDS_def)
      then show ?thesis unfolding step .
    qed
  qed
qed

lemma bn_add_val:
  assumes "bn_ok a" "bn_ok b"
  shows "case bn_add a b of None \<Rightarrow> bn_cap \<le> bn_val a + bn_val b | Some r \<Rightarrow> bn_val r = bn_val a + bn_val b \<and> bn_val a + bn_val b < bn_cap"
proof -
  have v: "rest_val a 0 = bn_val a" "rest_val b 0 = bn_val b"
    using assms by (simp_all add: rest_val_def digits_val_word_at bn_ok_def)
  show ?thesis unfolding bn_add_def
    by (rule add_loop_val) (use assms v in \<open>simp_all add: bn_zero_def BN_MAX_WORDS_def bn_ok_def\<close>)
qed

section \<open>Properties\<close>

text \<open>
  C19. For a modulus above 0 of at most 128 words (4096 bits) and a base of at most 128 words, \<^verbatim>\<open>bn_mod_exp\<close>
  terminates and computes \<open>a ^ e mod m\<close>, whatever its stack variables and its result held before:
  square-and-multiply over schoolbook products and a remainder by shifted subtraction, with no carry lost.
  For the exponent 0 it answers 1, also modulo 1, where the remainder would be 0. The bound on the base is
  needed: the code does not reduce it first, and the product of a longer base with itself need not fit the
  256 words of its result.
\<close>
theorem bn_mod_exp_correct:
  assumes "bn_ok a" "bn_ok e" "bn_ok m" "0 < bn_val m" "bn_len m \<le> 128" "bn_len a \<le> 128" "0 < bn_len e"
    "length (bn_d jb) = 256" "length (bn_d je) = 256" "length (bn_d r) = 256"
  shows "\<exists>x. bn_mod_exp jb je r a e m = Some x \<and> bn_ok x
    \<and> bn_val x = (if bn_val e = 0 then 1 else bn_val a ^ bn_val e mod bn_val m)"
  by (rule bn_mod_exp_val [OF assms])

theorem bn_mod_exp_correct_witness:
  "\<exists>x. bn_mod_exp bn_zero bn_zero bn_zero (bn_from_uint32 7) (bn_from_uint32 5) (bn_from_uint32 33) = Some x \<and> bn_val x = 10"
proof -
  have z: "length (bn_d bn_zero) = 256" by (simp add: bn_zero_def BN_MAX_WORDS_def)
  have "\<exists>x. bn_mod_exp bn_zero bn_zero bn_zero (bn_from_uint32 7) (bn_from_uint32 5) (bn_from_uint32 33) = Some x \<and> bn_ok x
    \<and> bn_val x = (if bn_val (bn_from_uint32 5) = 0 then 1 else bn_val (bn_from_uint32 7) ^ bn_val (bn_from_uint32 5) mod bn_val (bn_from_uint32 33))"
    by (rule bn_mod_exp_correct) (simp_all add: bn_from_uint32_val z)
  then show ?thesis by (auto simp: bn_from_uint32_val)
qed

text \<open>
  Reading a big-endian string of at most 1024 bytes into a number and writing it back gives the
  string without its leading zero bytes, and the number read is the one the string denotes.
\<close>
theorem bn_bytes_roundtrip:
  assumes "length bs \<le> 1024"
  shows "fst (bn_from_bytes bs (int (length bs))) = 0
    \<and> bn_val (snd (bn_from_bytes bs (int (length bs)))) = be_val bs
    \<and> bn_to_bytes (snd (bn_from_bytes bs (int (length bs)))) = dropWhile (\<lambda>b. b = 0) bs"
  using bn_from_bytes_val [OF assms] bytes_round_trip [OF assms] by simp

theorem bn_bytes_roundtrip_witness:
  "bn_to_bytes (snd (bn_from_bytes [0, 0, 1, 2, 3] 5)) = [1, 2, 3]"
  using bn_bytes_roundtrip [of "[0, 0, 1, 2, 3]"] by simp

text \<open>
  C20. \<^verbatim>\<open>bn_add\<close> writes behind the 256th word exactly when the sum does not fit 256 words, and is the sum
  otherwise. \<^verbatim>\<open>bn_sub_mod\<close> is the difference when \<open>b\<close> is not above \<open>a\<close>; otherwise it passes its
  temporary to \<^verbatim>\<open>bn_sub\<close> as result and subtrahend at once, which clears it first: the answer is the
  modulus itself, whatever the operands are.
\<close>
theorem bn_add_sub_mod:
  assumes "bn_ok a" "bn_ok b" "bn_ok m" "length (bn_d r) = 256"
  shows "(bn_add a b = None \<longleftrightarrow> bn_cap \<le> bn_val a + bn_val b)
    \<and> (\<forall>s. bn_add a b = Some s \<longrightarrow> bn_val s = bn_val a + bn_val b)
    \<and> (0 < bn_val b \<longrightarrow> bn_val (bn_sub_mod r a b m) = (if bn_val b \<le> bn_val a then bn_val a - bn_val b else bn_val m))"
proof -
  have sub: "bn_sub_into_subtrahend m = bn_sub m bn_zero"
  proof -
    have s: "sub_step m x i (x, borrow) = sub_step m bn_zero i (x, borrow)" if "bn_len x \<le> i" for x i borrow
      using that by (simp add: sub_step_def bn_zero_def)
    have "fold (\<lambda>i (r, borrow). sub_step m r i (r, borrow)) [0..<n] (bn_zero, 0) = fold (sub_step m bn_zero) [0..<n] (bn_zero, 0)
      \<and> bn_len (fst (fold (sub_step m bn_zero) [0..<n] (bn_zero, 0))) \<le> n" for n
    proof (induction n)
      case (Suc n)
      obtain x c where x: "fold (sub_step m bn_zero) [0..<n] (bn_zero, 0) = (x, c)" by force
      have "bn_len (fst (sub_step m bn_zero n (x, c))) \<le> Suc n" by (simp add: sub_step_def Let_def split_beta)
      then show ?case using Suc s [of x n c] x by simp
    qed (simp add: bn_zero_def)
    then show ?thesis by (simp add: bn_sub_into_subtrahend_def bn_sub_def)
  qed
  have m: "bn_ok (bn_sub m bn_zero)" "bn_val (bn_sub m bn_zero) = bn_val m"
    using bn_sub_val [OF assms(3) bn_ok_zero(1)] by (simp_all add: bn_ok_zero)
  have "bn_val (bn_sub_mod r a b m) = (if bn_val b \<le> bn_val a then bn_val a - bn_val b else bn_val m)" if "0 < bn_val b"
    using bn_cmp_sign [OF assms(1,2) that] bn_sub_val [OF assms(1,2)] copy_words_val [OF m(1) assms(4)]
      copy_words_val [of "bn_sub a b" r] assms(4) m(2)
    by (auto simp: bn_sub_mod_def sub)
  then show ?thesis using bn_add_val [OF assms(1,2)] by (auto split: option.splits)
qed

theorem bn_add_sub_mod_witness:
  "bn_val (bn_sub_mod bn_zero (bn_from_uint32 2) (bn_from_uint32 5) (bn_from_uint32 7)) = 7"
proof -
  have z: "length (bn_d bn_zero) = 256" by (simp add: bn_zero_def BN_MAX_WORDS_def)
  show ?thesis
    using bn_add_sub_mod [OF bn_from_uint32_val(1) bn_from_uint32_val(1) bn_from_uint32_val(1) z, of 2 5 7]
    by (simp add: bn_from_uint32_val)
qed

end
