(* ===== verification/Rsa.thy ===== *)
theory Rsa
  imports Bn
begin

text \<open>
  RSA with the padding of PKCS 1, \<^verbatim>\<open>kernel/crypto/rsa.c\<close>: the reader of certificates and public keys in
  DER, and the encryption of the pre-master secret. Offsets and lengths are C \<^verbatim>\<open>int\<close>s, so a length from
  the wire can be negative; an access outside a buffer and a loop that does not end are results of their own.
\<close>

section \<open>Results\<close>

datatype 'a res = Ok 'a | Fail | Oob | Hang

fun and_then :: "'a res \<Rightarrow> ('a \<Rightarrow> 'b res) \<Rightarrow> 'b res" where
  "and_then (Ok x) f = f x"
| "and_then Fail f = Fail"
| "and_then Oob f = Oob"
| "and_then Hang f = Hang"

definition wrap32 :: "int \<Rightarrow> int" where
  "wrap32 x = sint (word_of_int x :: 32 word)"

text \<open>\<open>der\<close> is the memory the caller's buffer points into, \<open>base\<close> the offset of \<^verbatim>\<open>der[0]\<close>.\<close>

definition rd :: "bytes \<Rightarrow> int \<Rightarrow> u8 res" where
  "rd der i = (if 0 \<le> i \<and> i < int (length der) then Ok (der ! nat i) else Oob)"

section \<open>DER\<close>

fun len_bytes :: "bytes \<Rightarrow> int \<Rightarrow> int \<Rightarrow> nat \<Rightarrow> int \<Rightarrow> u32 \<Rightarrow> (int \<times> u32) res" where
  "len_bytes der base n 0 pos l = Ok (pos, l)"
| "len_bytes der base n (Suc k) pos l =
     (if pos \<ge> n then Fail
      else and_then (rd der (base + pos)) (\<lambda>b. len_bytes der base n k (pos + 1) (push_bit 8 l OR ucast b)))"

definition der_read_tag :: "bytes \<Rightarrow> int \<Rightarrow> int \<Rightarrow> int \<Rightarrow> (int \<times> u8 \<times> int) res" where
  "der_read_tag der base n pos =
     (if pos \<ge> n then Fail
      else and_then (rd der (base + pos)) (\<lambda>tag.
        if pos + 1 \<ge> n then Fail
        else and_then (rd der (base + (pos + 1))) (\<lambda>l.
          if l AND 0x80 \<noteq> 0
          then let num_bytes = unat (l AND 0x7F)
               in if num_bytes > 4 then Fail
                  else and_then (len_bytes der base n num_bytes (pos + 2) 0) (\<lambda>(pos, l). Ok (pos, tag, sint l))
          else Ok (pos + 2, tag, uint l))))"

text \<open>Read a header that must have the tag \<open>t\<close>: where the contents start, and their length.\<close>

definition der_expect :: "bytes \<Rightarrow> int \<Rightarrow> int \<Rightarrow> u8 \<Rightarrow> int \<Rightarrow> (int \<times> int) res" where
  "der_expect der base n t pos =
     and_then (der_read_tag der base n pos) (\<lambda>(pos, tag, len). if tag \<noteq> t then Fail else Ok (pos, len))"

definition der_skip_field :: "bytes \<Rightarrow> int \<Rightarrow> int \<Rightarrow> u8 \<Rightarrow> int \<Rightarrow> int res" where
  "der_skip_field der n tbs_end t pos =
     (if pos \<ge> tbs_end then Fail
      else and_then (der_expect der 0 n t pos) (\<lambda>(pos, len). Ok (wrap32 (pos + len))))"

record rsa_pubkey =
  key_n :: bn
  key_e :: bn

text \<open>\<^verbatim>\<open>while (len > 1 && der[start] == 0) { start++; len--; }\<close>\<close>

fun skip_zeros :: "bytes \<Rightarrow> int \<Rightarrow> nat \<Rightarrow> int \<Rightarrow> (int \<times> int) res" where
  "skip_zeros der base 0 start = Ok (start, 0)"
| "skip_zeros der base (Suc 0) start = Ok (start, 1)"
| "skip_zeros der base (Suc (Suc k)) start =
     and_then (rd der (base + start)) (\<lambda>b. if b = 0 then skip_zeros der base (Suc k) (start + 1) else Ok (start, int (Suc (Suc k))))"

definition read_number :: "bytes \<Rightarrow> int \<Rightarrow> int \<Rightarrow> bn res" where
  "read_number der start len =
     (if len > 1024 then Fail
      else if len > 0 \<and> (start < 0 \<or> start + len > int (length der)) then Oob
      else let (r, x) = bn_from_bytes (drop (nat start) der) len in if r \<noteq> 0 then Fail else Ok x)"

definition strip_integer :: "bytes \<Rightarrow> int \<Rightarrow> int \<Rightarrow> int \<Rightarrow> (int \<times> int) res" where
  "strip_integer der base start len = (if len > 1 then skip_zeros der base (nat len) start else Ok (start, len))"

definition rsa_pubkey_from_der :: "bytes \<Rightarrow> int \<Rightarrow> int \<Rightarrow> rsa_pubkey res" where
  "rsa_pubkey_from_der der base n =
     and_then (der_expect der base n 0x30 0) (\<lambda>(pos, len).
     let seq_end = wrap32 (pos + len)
     in if pos + 2 > seq_end then Fail
     else and_then (rd der (base + pos)) (\<lambda>first.
     and_then (if first = 0x30
               then and_then (der_read_tag der base n pos) (\<lambda>(pos, _, alg_len). Ok (wrap32 (pos + alg_len)))
               else if first = 0x02 then Ok pos else Fail) (\<lambda>pos.
     if pos \<ge> seq_end then Fail
     else and_then (der_expect der base n 0x03 pos) (\<lambda>(pos, bs_len).
     if pos \<ge> seq_end then Fail
     else and_then (rd der (base + pos)) (\<lambda>_.
     let bitstring_start = pos + 1
     in and_then (der_expect der (base + bitstring_start) (wrap32 (bs_len - 1)) 0x30 0) (\<lambda>(inner_pos, _).
     let rpos = bitstring_start + inner_pos
     in and_then (der_expect der base n 0x02 rpos) (\<lambda>(n_start, n_len).
     let rpos = wrap32 (n_start + n_len)
     in and_then (der_expect der base n 0x02 rpos) (\<lambda>(e_start, e_len).
     and_then (strip_integer der base n_start n_len) (\<lambda>(n_start, n_len).
     and_then (strip_integer der base e_start e_len) (\<lambda>(e_start, e_len).
     and_then (read_number der (base + n_start) n_len) (\<lambda>kn.
     and_then (read_number der (base + e_start) e_len) (\<lambda>ke.
     Ok \<lparr>key_n = kn, key_e = ke\<rparr>))))))))))))"

text \<open>The optional fields \<^verbatim>\<open>[1]\<close>, \<^verbatim>\<open>[2]\<close>, \<^verbatim>\<open>[3]\<close>; \<open>None\<close> when the loop never leaves them.\<close>

partial_function (option) optional_fields :: "bytes \<Rightarrow> int \<Rightarrow> int \<Rightarrow> int \<Rightarrow> int res option" where
  "optional_fields der n tbs_end pos =
     (if pos < tbs_end
      then case rd der pos of
          Ok next \<Rightarrow>
            if next = 0xA1 \<or> next = 0xA2 \<or> next = 0xA3
            then case der_read_tag der 0 n pos of
                Ok (pos, _, len) \<Rightarrow> optional_fields der n tbs_end (wrap32 (pos + len))
              | Fail \<Rightarrow> Some Fail
              | Oob \<Rightarrow> Some Oob
              | Hang \<Rightarrow> Some Hang
            else Some (Ok pos)
        | _ \<Rightarrow> Some Oob
      else Some (Ok pos))"

declare optional_fields.simps [code]

definition rsa_pubkey_from_cert_der :: "bytes \<Rightarrow> int \<Rightarrow> rsa_pubkey res" where
  "rsa_pubkey_from_cert_der der n =
     and_then (der_expect der 0 n 0x30 0) (\<lambda>(pos, len).
     let cert_end = wrap32 (pos + len)
     in if pos \<ge> cert_end then Fail
     else and_then (der_expect der 0 n 0x30 pos) (\<lambda>(pos, len).
     let tbs_end = wrap32 (pos + len)
     in and_then (if pos < tbs_end
                  then and_then (rd der pos) (\<lambda>b.
                    if b = 0xA0 then and_then (der_read_tag der 0 n pos) (\<lambda>(pos, _, len). Ok (wrap32 (pos + len)))
                    else Ok pos)
                  else Ok pos) (\<lambda>pos.
     and_then (der_skip_field der n tbs_end 0x02 pos) (\<lambda>pos.
     and_then (der_skip_field der n tbs_end 0x30 pos) (\<lambda>pos.
     and_then (der_skip_field der n tbs_end 0x30 pos) (\<lambda>pos.
     and_then (der_skip_field der n tbs_end 0x30 pos) (\<lambda>pos.
     and_then (der_skip_field der n tbs_end 0x30 pos) (\<lambda>pos.
     and_then (case optional_fields der n tbs_end pos of None \<Rightarrow> Hang | Some r \<Rightarrow> r) (\<lambda>pos.
     if pos \<ge> tbs_end then Fail
     else rsa_pubkey_from_der der pos (tbs_end - pos))))))))))"

section \<open>Padding and encryption\<close>

partial_function (option) pad_byte :: "u32 \<Rightarrow> u8 option" where
  "pad_byte seed =
     (let seed = seed * 1664525 + 1013904223; v = ucast (drop_bit 16 seed AND 0xFF) :: u8
      in if v = 0 then pad_byte seed else Some v)"

declare pad_byte.simps [code]

text \<open>\<open>ticks i\<close> is what \<^verbatim>\<open>sched_ticks\<close> answers when byte \<open>i\<close> is made.\<close>

fun pad_bytes :: "(nat \<Rightarrow> u64) \<Rightarrow> u8 \<Rightarrow> nat \<Rightarrow> nat \<Rightarrow> bytes option" where
  "pad_bytes ticks type i 0 = Some []"
| "pad_bytes ticks type i (Suc k) =
     do { b \<leftarrow> (if type = 1 then Some 0xFF
               else pad_byte (0xA5A50000 XOR (ucast (ticks i + ucast (word_of_nat i * 73 :: u32)) :: u32)));
          bs \<leftarrow> pad_bytes ticks type (i + 1) k;
          Some (b # bs) }"

definition pkcs1_v15_pad :: "(nat \<Rightarrow> u64) \<Rightarrow> bytes \<Rightarrow> nat \<Rightarrow> u8 \<Rightarrow> bytes res" where
  "pkcs1_v15_pad ticks inp out_len type =
     (if length inp + 11 > out_len then Fail
      else case pad_bytes ticks type 0 (out_len - length inp - 3) of
        None \<Rightarrow> Hang
      | Some ps \<Rightarrow> Ok ([0, type] @ ps @ [0] @ inp))"

definition rsa_pkcs1_v15_encode :: "(nat \<Rightarrow> u64) \<Rightarrow> bytes \<Rightarrow> nat \<Rightarrow> bytes res" where
  "rsa_pkcs1_v15_encode ticks inp out_len = pkcs1_v15_pad ticks inp out_len 2"

text \<open>The two buffers on the stack have 512 bytes; the junk arguments are the uninitialised numbers.\<close>

definition rsa_encrypt :: "(nat \<Rightarrow> u64) \<Rightarrow> bn \<Rightarrow> bn \<Rightarrow> bn \<Rightarrow> rsa_pubkey \<Rightarrow> bytes \<Rightarrow> bytes res" where
  "rsa_encrypt ticks jb je jc key inp =
     (if bn_len (key_n key) * 4 > 512 then Oob
      else let mod_bytes = length (bn_to_bytes (key_n key))
      in if length inp + 11 > mod_bytes then Fail
      else and_then (rsa_pkcs1_v15_encode ticks inp mod_bytes) (\<lambda>padded.
      let m = snd (bn_from_bytes padded (int mod_bytes))
      in case bn_mod_exp jb je jc m (key_e key) (key_n key) of
          None \<Rightarrow> Hang
        | Some c \<Rightarrow>
            if bn_len c * 4 > 512 then Oob
            else let out = bn_to_bytes c
            in if length out > mod_bytes then Fail
               else Ok (replicate (mod_bytes - length out) 0 @ out)))"

section \<open>Headers\<close>

lemma len_bytes_safe:
  assumes "0 \<le> base" "0 \<le> pos" "base + n \<le> int (length der)"
  shows "len_bytes der base n k pos l \<noteq> Oob \<and> len_bytes der base n k pos l \<noteq> Hang
    \<and> (\<forall>p l'. len_bytes der base n k pos l = Ok (p, l') \<longrightarrow> p = pos + int k \<and> (k = 0 \<or> p \<le> n))"
  using assms
proof (induction k arbitrary: pos l)
  case (Suc k)
  show ?case
  proof (cases "pos \<ge> n")
    case False
    then have r: "rd der (base + pos) = Ok (der ! nat (base + pos))" using Suc.prems by (simp add: rd_def)
    note IH = Suc.IH [of "pos + 1" "push_bit 8 l OR ucast (der ! nat (base + pos))"]
    then show ?thesis using False Suc.prems r by (cases k) auto
  qed simp
qed simp

text \<open>Inside a buffer a header is read without leaving it, and reading it always advances.\<close>

lemma der_read_tag_safe:
  assumes "0 \<le> base" "0 \<le> pos" "base + n \<le> int (length der)"
  shows "der_read_tag der base n pos \<noteq> Oob \<and> der_read_tag der base n pos \<noteq> Hang
    \<and> (\<forall>p t l. der_read_tag der base n pos = Ok (p, t, l) \<longrightarrow> pos + 2 \<le> p \<and> p \<le> n)"
proof (cases "pos + 1 \<ge> n")
  case True
  then show ?thesis using assms by (auto simp: der_read_tag_def rd_def)
next
  case False
  define l where "l = der ! nat (base + (pos + 1))"
  have r: "rd der (base + pos) = Ok (der ! nat (base + pos))" "rd der (base + (pos + 1)) = Ok l"
    using assms False by (simp_all add: rd_def l_def)
  show ?thesis
  proof (cases "l AND 0x80 \<noteq> 0 \<and> unat (l AND 0x7F) \<le> 4")
    case False
    then show ?thesis using r \<open>\<not> pos + 1 \<ge> n\<close> by (auto simp: der_read_tag_def Let_def)
  next
    case long: True
    note L = len_bytes_safe [of base "pos + 2" n der "unat (l AND 0x7F)" 0]
    have e: "der_read_tag der base n pos = and_then (len_bytes der base n (unat (l AND 0x7F)) (pos + 2) 0)
        (\<lambda>(p, v). Ok (p, der ! nat (base + pos), sint v))"
      using r \<open>\<not> pos + 1 \<ge> n\<close> long by (simp add: der_read_tag_def Let_def)
    show ?thesis unfolding e
      by (cases "len_bytes der base n (unat (l AND 0x7F)) (pos + 2) 0") (use L assms False in auto)
  qed
qed

section \<open>Reading what an encoder wrote\<close>

definition der_len :: "nat \<Rightarrow> bytes" where
  "der_len n = (if n < 128 then [word_of_nat n] else if n < 256 then [0x81, word_of_nat n]
     else [0x82, word_of_nat (n div 256), word_of_nat (n mod 256)])"

definition tlv :: "u8 \<Rightarrow> bytes \<Rightarrow> bytes" where
  "tlv t c = t # der_len (length c) @ c"

lemma rd_in: "i = int (length xs + k) \<Longrightarrow> k < length zs \<Longrightarrow> rd (xs @ zs @ ys) i = Ok (zs ! k)"
  by (simp add: rd_def nat_int_add nth_append)

lemma sint_small: "unat (l :: u32) < 2 ^ 31 \<Longrightarrow> sint l = int (unat l)"
proof -
  assume "unat l < 2 ^ 31"
  then have l: "unat l < 2147483648" by simp
  have u: "uint l = int (unat l)" by simp
  have "- 2147483648 \<le> uint l" "uint l < 2147483648" using l u by linarith+
  then have "- (2 ^ 31) \<le> uint l" "uint l < 2 ^ 31" by simp_all
  then have "signed_take_bit 31 (uint l) = uint l" by (rule signed_take_bit_int_eq_self)
  moreover have "sint l = signed_take_bit 31 (uint l)" unfolding sint_uint by simp
  ultimately show ?thesis by (simp only: u)
qed

lemma len_bytes_2:
  "len_bytes der base n 2 pos l = (if pos \<ge> n then Fail else and_then (rd der (base + pos)) (\<lambda>b.
     let l = push_bit 8 l OR ucast b in if pos + 1 \<ge> n then Fail else and_then (rd der (base + (pos + 1))) (\<lambda>b.
     Ok (pos + 2, push_bit 8 l OR ucast b))))"
proof -
  have "pos + 1 + 1 = pos + 2" by simp
  then show ?thesis by (simp only: numeral_2_eq_2 len_bytes.simps Let_def)
qed

lemma read_tlv:
  assumes "base + pos = int (length xs)" "length c < 65536" "pos + 1 + int (length (der_len (length c))) \<le> n"
  shows "der_read_tag (xs @ tlv t c @ ys) base n pos = Ok (pos + 1 + int (length (der_len (length c))), t, int (length c))"
proof -
  let ?n = "length c" and ?der = "xs @ tlv t c @ ys"
  have r: "rd ?der (base + (pos + int k)) = Ok (tlv t c ! k)" if "k < length (tlv t c)" for k
    using assms(1) that by (intro rd_in) simp_all
  have r0: "rd ?der (base + pos) = Ok t" using r [of 0] by (simp add: tlv_def)
  have len: "length (tlv t c) = 1 + length (der_len ?n) + ?n" by (simp add: tlv_def)
  have nth: "tlv t c ! Suc k = der_len ?n ! k" if "k < length (der_len ?n)" for k using that by (simp add: tlv_def nth_append)
  consider "?n < 128" | "128 \<le> ?n" "?n < 256" | "256 \<le> ?n" by linarith
  then show ?thesis
  proof cases
    case 1
    then have d: "der_len ?n = [word_of_nat ?n]" by (simp add: der_len_def)
    have u: "unat (word_of_nat ?n :: u8) = ?n" using 1 by (intro unat_of_nat_small) simp
    have "(word_of_nat ?n :: u8) AND 0x80 = 0"
    proof -
      have "\<not> bit (word_of_nat ?n :: u8) 7"
      proof
        assume "bit (word_of_nat ?n :: u8) 7"
        then have "bit (unat (word_of_nat ?n :: u8)) 7" by (simp only: bit_unsigned_iff) simp
        then have "bit ?n 7" by (simp only: u)
        then show False using 1 by (simp add: bit_iff_odd)
      qed
      then show ?thesis using and_exp_eq_0_iff_not_bit [of "word_of_nat ?n :: u8" 7] by simp
    qed
    moreover have "rd ?der (base + (pos + 1)) = Ok (word_of_nat ?n)" using r [of 1] nth [of 0] len d by simp
    moreover have "uint (word_of_nat ?n :: u8) = int ?n" by (simp only: uint_nat u)
    ultimately show ?thesis using r0 assms(3) d by (simp add: der_read_tag_def)
  next
    case 2
    then have d: "der_len ?n = [0x81, word_of_nat ?n]" by (simp add: der_len_def)
    have u: "unat (word_of_nat ?n :: u8) = ?n" using 2 by (intro unat_of_nat_small) simp
    have r1: "rd ?der (base + (pos + 1)) = Ok 0x81" using r [of 1] nth [of 0] len d by simp
    have r2: "rd ?der (base + (pos + 2)) = Ok (word_of_nat ?n)" using r [of 2] nth [of 1] len d by (simp add: numeral_2_eq_2)
    have "unat (push_bit 8 0 OR ucast (word_of_nat ?n :: u8) :: u32) = ?n" using shift_in_byte [of 0 "word_of_nat ?n"] u by simp
    then have "sint (push_bit 8 0 OR ucast (word_of_nat ?n :: u8) :: u32) = int ?n" using 2 by (subst sint_small) simp_all
    then show ?thesis using r0 r1 r2 assms(3) d by (simp add: der_read_tag_def)
  next
    case 3
    then have d: "der_len ?n = [0x82, word_of_nat (?n div 256), word_of_nat (?n mod 256)]" by (simp add: der_len_def)
    let ?h = "word_of_nat (?n div 256) :: u8" and ?l = "word_of_nat (?n mod 256) :: u8"
    have u: "unat ?h = ?n div 256" "unat ?l = ?n mod 256" using assms(2) by (intro unat_of_nat_small; simp)+
    have r1: "rd ?der (base + (pos + 1)) = Ok 0x82" using r [of 1] nth [of 0] len d by simp
    have r2: "rd ?der (base + (pos + 2)) = Ok ?h" using r [of 2] nth [of 1] len d by (simp add: numeral_2_eq_2)
    have r3: "rd ?der (base + (pos + 3)) = Ok ?l" using r [of 3] nth [of 2] len d by simp
    define v where "v = (push_bit 8 0 OR ucast ?h :: u32)"
    have v: "unat v = ?n div 256" using shift_in_byte [of 0 ?h] u by (simp add: v_def)
    have "unat (push_bit 8 v OR ucast ?l) = 256 * unat v + unat ?l" using assms(2) v by (intro shift_in_byte) simp
    then have w: "unat (push_bit 8 v OR ucast ?l) = ?n" using v u by simp
    then have "sint (push_bit 8 v OR ucast ?l) = int ?n" using assms(2) by (subst sint_small) simp_all
    then show ?thesis using r0 r1 r2 r3 r3 [unfolded add.commute [of pos 3]] assms(3) d by (simp add: der_read_tag_def len_bytes_2 v_def Let_def)
  qed
qed

section \<open>Keys\<close>

lemma expect_tlv:
  assumes "base + pos = int (length xs)" "length c < 65536" "pos + 1 + int (length (der_len (length c))) \<le> n"
  shows "der_expect (xs @ tlv t c @ ys) base n t pos = Ok (pos + 1 + int (length (der_len (length c))), int (length c))"
  using read_tlv [OF assms] by (simp add: der_expect_def)

lemma wrap32_small: "- 2147483648 \<le> x \<Longrightarrow> x < 2147483648 \<Longrightarrow> wrap32 x = x"
  by (simp add: wrap32_def signed_of_int signed_take_bit_int_eq_self)

lemma be_val_drop_zero: "be_val (0 # bs) = be_val bs"
  by (simp add: be_val_Cons)

lemma skip_zeros_val:
  assumes "base + start = int (length xs)"
  shows "\<exists>k \<le> length ns. skip_zeros (xs @ ns @ ys) base (length ns) start = Ok (start + int k, int (length ns - k))
    \<and> be_val (drop k ns) = be_val ns"
  using assms
proof (induction ns arbitrary: xs start)
  case Nil
  then show ?case by simp
next
  case (Cons b ns)
  show ?case
  proof (cases ns)
    case Nil
    then show ?thesis by (intro exI [of _ 0]) simp
  next
    case ns: (Cons b' ns')
    have r: "rd (xs @ (b # ns) @ ys) (base + start) = Ok b" using rd_in [of "base + start" xs 0 "b # ns" ys] Cons.prems by simp
    show ?thesis
    proof (cases "b = 0")
      case True
      have "base + (start + 1) = int (length (xs @ [b]))" using Cons.prems by simp
      from Cons.IH [OF this] obtain k where k: "k \<le> length ns"
        "skip_zeros ((xs @ [b]) @ ns @ ys) base (length ns) (start + 1) = Ok (start + 1 + int k, int (length ns - k))"
        "be_val (drop k ns) = be_val ns" by blast
      have "skip_zeros (xs @ (b # ns) @ ys) base (length (b # ns)) start = Ok (start + int (Suc k), int (length (b # ns) - Suc k))"
        using r True k(2) ns by simp
      then show ?thesis using k True by (intro exI [of _ "Suc k"]) (simp add: be_val_drop_zero)
    next
      case False
      then show ?thesis using r ns by (intro exI [of _ 0]) simp
    qed
  qed
qed

lemma from_bytes_prefix: "bn_from_bytes (bs @ rest) (int (length bs)) = bn_from_bytes bs (int (length bs))"
proof -
  let ?n = "length bs"
  have "fold (\<lambda>k d. d[k := be_word (bs @ rest) (?n - 4 * (k + 1))]) [0..<?n div 4] d
      = fold (\<lambda>k d. d[k := be_word bs (?n - 4 * (k + 1))]) [0..<?n div 4] d" for d
  proof (rule fold_cong [OF refl refl])
    fix k assume "k \<in> set [0..<?n div 4]"
    then have "?n - 4 * (k + 1) + 3 < ?n" by auto
    then have "be_word (bs @ rest) (?n - 4 * (k + 1)) = be_word bs (?n - 4 * (k + 1))" by (simp add: be_word_def nth_append)
    then show "(\<lambda>d. d[k := be_word (bs @ rest) (?n - 4 * (k + 1))]) = (\<lambda>d. d[k := be_word bs (?n - 4 * (k + 1))])" by (simp only:)
  qed
  moreover have "fold (\<lambda>j v. push_bit 8 v OR ucast ((bs @ rest) ! j)) [0..<?n mod 4] (0 :: u32)
      = fold (\<lambda>j v. push_bit 8 v OR ucast (bs ! j)) [0..<?n mod 4] 0"
  proof (rule fold_cong [OF refl refl])
    fix j assume "j \<in> set [0..<?n mod 4]"
    moreover have "?n mod 4 \<le> ?n" by simp
    ultimately have "j < ?n" by simp
    then show "(\<lambda>v :: u32. push_bit 8 v OR ucast ((bs @ rest) ! j)) = (\<lambda>v. push_bit 8 v OR ucast (bs ! j))" by (simp add: nth_append)
  qed
  ultimately show ?thesis by (simp only: bn_from_bytes_def nat_int Let_def)
qed

lemma read_number_val:
  assumes "base + start = int (length xs)" "length ns \<le> 1024"
  shows "\<exists>x. read_number (xs @ ns @ ys) (base + start) (int (length ns)) = Ok x \<and> bn_ok x \<and> bn_val x = be_val ns \<and> 0 < bn_len x"
proof -
  have "bn_from_bytes (drop (nat (base + start)) (xs @ ns @ ys)) (int (length ns)) = bn_from_bytes ns (int (length ns))"
    unfolding assms(1) using from_bytes_prefix [of ns ys] by simp
  then show ?thesis using bn_from_bytes_val [OF assms(2)] assms
    by (simp add: read_number_def split_beta)
qed

text \<open>An INTEGER of the key: its leading zero bytes are skipped and the rest is read.\<close>

lemma integer_val:
  assumes "base + start = int (length xs)" "length ns \<le> 1024"
  shows "\<exists>s l x. strip_integer (xs @ ns @ ys) base start (int (length ns)) = Ok (s, l)
    \<and> read_number (xs @ ns @ ys) (base + s) l = Ok x \<and> bn_ok x \<and> bn_val x = be_val ns \<and> 0 < bn_len x"
proof (cases "length ns > 1")
  case True
  obtain k where k: "k \<le> length ns" "skip_zeros (xs @ ns @ ys) base (length ns) start = Ok (start + int k, int (length ns - k))"
    "be_val (drop k ns) = be_val ns"
    using skip_zeros_val [OF assms(1), of ns ys] by blast
  have "base + (start + int k) = int (length (xs @ take k ns))" using assms(1) k(1) by simp
  then have "\<exists>x. read_number ((xs @ take k ns) @ drop k ns @ ys) (base + (start + int k)) (int (length (drop k ns))) = Ok x
      \<and> bn_ok x \<and> bn_val x = be_val (drop k ns) \<and> 0 < bn_len x"
    using assms(2) by (intro read_number_val) simp_all
  moreover have "take k ns @ drop k ns @ ys = ns @ ys" by (metis append.assoc append_take_drop_id)
  ultimately show ?thesis using True k by (simp add: strip_integer_def)
next
  case False
  then show ?thesis using read_number_val [OF assms, of ys] by (simp add: strip_integer_def)
qed

text \<open>The key as a certificate carries it (SubjectPublicKeyInfo).\<close>

definition der_spki :: "bytes \<Rightarrow> bytes \<Rightarrow> bytes \<Rightarrow> bytes" where
  "der_spki alg n e = tlv 0x30 (tlv 0x30 alg @ tlv 0x03 (0 # tlv 0x30 (tlv 0x02 n @ tlv 0x02 e)))"

lemma length_tlv: "length (tlv t c) = 1 + length (der_len (length c)) + length c"
  by (simp add: tlv_def)

definition hdr :: "nat \<Rightarrow> nat" where
  "hdr n = 1 + length (der_len n)"

lemma hdr_bounds: "2 \<le> hdr n" "hdr n \<le> 4"
  by (simp_all add: hdr_def der_len_def)

lemma length_tlv_hdr: "length (tlv t c) = hdr (length c) + length c"
  by (simp add: tlv_def hdr_def)

text \<open>The header of \<open>tlv t c\<close> as bytes of their own, with nothing known about them but their number.\<close>

lemma tlv_split: "\<exists>h. tlv t c = h @ c \<and> length h = hdr (length c) \<and> h \<noteq> [] \<and> hd h = t"
  by (rule exI [of _ "t # der_len (length c)"]) (simp add: tlv_def hdr_def)

lemma read_tlv_at:
  assumes "d = xs @ tlv t c @ ys" "base + pos = int (length xs)" "length c < 65536" "pos + int (hdr (length c)) \<le> n" "p = pos + int (hdr (length c))"
  shows "der_read_tag d base n pos = Ok (p, t, int (length c))"
  using read_tlv [OF assms(2,3), of n t ys] assms(1,4,5) by (simp add: hdr_def add.assoc)

lemma expect_tlv_at:
  assumes "d = xs @ tlv t c @ ys" "base + pos = int (length xs)" "length c < 65536" "pos + int (hdr (length c)) \<le> n" "p = pos + int (hdr (length c))"
  shows "der_expect d base n t pos = Ok (p, int (length c))"
  using read_tlv_at [OF assms] by (simp add: der_expect_def)

lemma spki_parse:
  assumes "length alg + length n + length e < 60000" "length n \<le> 1024" "length e \<le> 1024"
  shows "\<exists>key. rsa_pubkey_from_der (der_spki alg n e) 0 (int (length (der_spki alg n e))) = Ok key
    \<and> bn_ok (key_n key) \<and> bn_val (key_n key) = be_val n \<and> bn_ok (key_e key) \<and> bn_val (key_e key) = be_val e
    \<and> 0 < bn_len (key_n key) \<and> 0 < bn_len (key_e key)"
proof -
  obtain h7 where h7: "tlv 0x02 e = h7 @ e" "length h7 = hdr (length e)" using tlv_split by blast
  obtain h5 where h5: "tlv 0x02 n = h5 @ n" "length h5 = hdr (length n)" using tlv_split by blast
  define nums where "nums = tlv 0x02 n @ tlv 0x02 e"
  obtain h4 where h4: "tlv 0x30 nums = h4 @ nums" "length h4 = hdr (length nums)" using tlv_split by blast
  define seq where "seq = 0 # tlv 0x30 nums"
  obtain h2 where h2: "tlv 0x03 seq = h2 @ seq" "length h2 = hdr (length seq)" using tlv_split by blast
  obtain h1 where h1: "tlv 0x30 alg = h1 @ alg" "length h1 = hdr (length alg)" "h1 \<noteq> []" "hd h1 = 0x30" using tlv_split by blast
  define body where "body = tlv 0x30 alg @ tlv 0x03 seq"
  obtain h0 where h0: "tlv 0x30 body = h0 @ body" "length h0 = hdr (length body)" using tlv_split by blast
  define der where "der = tlv 0x30 body"
  have spki: "der_spki alg n e = der" by (simp add: der_spki_def der_def body_def seq_def nums_def)
  have lens: "length nums = hdr (length n) + length n + hdr (length e) + length e" "length seq = 1 + hdr (length nums) + length nums"
    "length body = hdr (length alg) + length alg + hdr (length seq) + length seq" "length der = hdr (length body) + length body"
    by (simp_all add: nums_def seq_def body_def der_def length_tlv_hdr)
  note hb = hdr_bounds [of "length alg"] hdr_bounds [of "length n"] hdr_bounds [of "length e"] hdr_bounds [of "length nums"]
    hdr_bounds [of "length seq"] hdr_bounds [of "length body"]
  have small: "length alg < 65536" "length n < 65536" "length e < 65536" "length nums < 65536" "length seq < 65536"
    "length body < 65536" "length der < 65536"
    using assms(1) lens hb by linarith+
  let ?N = "int (length der)"
  have w: "wrap32 x = x" if "0 \<le> x" "x \<le> ?N" for x using that small(7) by (intro wrap32_small) simp_all
  define p0 where "p0 = hdr (length body)"
  define p1 where "p1 = p0 + hdr (length alg) + length alg"
  define p2 where "p2 = p1 + hdr (length seq)"
  define p4 where "p4 = p2 + 1 + hdr (length nums)"
  define p5 where "p5 = p4 + hdr (length n)"
  define p6 where "p6 = p5 + length n"
  define p7 where "p7 = p6 + hdr (length e)"
  note ps = p0_def p1_def p2_def p4_def p5_def p6_def p7_def
  have N: "length der = p7 + length e" using lens by (simp add: ps)
  \<comment> \<open>the buffer, cut at each position the reader stops at\<close>
  have d0: "der = h0 @ tlv 0x30 alg @ tlv 0x03 seq" "length h0 = p0"
    unfolding der_def h0(1) by (simp_all add: h0(2) body_def p0_def)
  have d1: "der = (h0 @ tlv 0x30 alg) @ tlv 0x03 seq @ []" "length (h0 @ tlv 0x30 alg) = p1"
    using d0 by (simp_all add: p1_def length_tlv_hdr)
  have d2: "der = (h0 @ tlv 0x30 alg @ h2) @ [0] @ tlv 0x30 nums" "length (h0 @ tlv 0x30 alg @ h2) = p2"
    using d1 h2 by (simp_all add: p2_def seq_def)
  have d3: "der = (h0 @ tlv 0x30 alg @ h2 @ [0]) @ tlv 0x30 nums @ []" "length (h0 @ tlv 0x30 alg @ h2 @ [0]) = p2 + 1"
    using d2 by simp_all
  have d4: "der = (h0 @ tlv 0x30 alg @ h2 @ [0] @ h4) @ tlv 0x02 n @ tlv 0x02 e" "length (h0 @ tlv 0x30 alg @ h2 @ [0] @ h4) = p4"
    using d3 h4(2) unfolding h4(1) by (simp_all add: p4_def) (simp add: nums_def)
  have d5: "der = (h0 @ tlv 0x30 alg @ h2 @ [0] @ h4 @ h5) @ n @ tlv 0x02 e" "length (h0 @ tlv 0x30 alg @ h2 @ [0] @ h4 @ h5) = p5"
    using d4 h5 by (simp_all add: p5_def)
  have d6: "der = (h0 @ tlv 0x30 alg @ h2 @ [0] @ h4 @ h5 @ n) @ tlv 0x02 e @ []" "length (h0 @ tlv 0x30 alg @ h2 @ [0] @ h4 @ h5 @ n) = p6"
    using d5 by (simp_all add: p6_def)
  have d7: "der = (h0 @ tlv 0x30 alg @ h2 @ [0] @ h4 @ h5 @ n @ h7) @ e @ []" "length (h0 @ tlv 0x30 alg @ h2 @ [0] @ h4 @ h5 @ n @ h7) = p7"
    using d6 h7 by (simp_all add: p7_def)
  \<comment> \<open>the steps of the reader\<close>
  have s1: "der_expect der 0 ?N 0x30 0 = Ok (int p0, int (length body))"
    by (rule expect_tlv_at [of _ "[]" _ _ "[]"]) (use small lens in \<open>simp_all add: der_def p0_def\<close>)
  have r1: "rd der (0 + int p0) = Ok 0x30"
  proof -
    have "rd (h0 @ tlv 0x30 alg @ tlv 0x03 seq) (0 + int p0) = Ok (tlv 0x30 alg ! 0)"
      by (rule rd_in) (simp_all add: d0(2) tlv_def)
    moreover have "tlv 0x30 alg ! 0 = 0x30" by (simp add: tlv_def)
    ultimately show ?thesis by (simp only: d0(1) [symmetric])
  qed
  have s2: "der_read_tag der 0 ?N (int p0) = Ok (int p0 + int (hdr (length alg)), 0x30, int (length alg))"
    by (rule read_tlv_at [OF d0(1)]) (use d0(2) small lens in \<open>simp_all add: p0_def\<close>)
  have s3: "der_expect der 0 ?N 0x03 (int p1) = Ok (int p2, int (length seq))"
    by (rule expect_tlv_at [OF d1(1)]) (use d1(2) small N hb in \<open>simp_all add: ps\<close>)
  have r2: "rd der (0 + int p2) = Ok 0"
  proof -
    have "rd ((h0 @ tlv 0x30 alg @ h2) @ [0] @ tlv 0x30 nums) (0 + int p2) = Ok ([0] ! 0)"
      by (rule rd_in) (simp_all add: d2(2) [simplified])
    then show ?thesis by (simp only: d2(1) [symmetric]) simp
  qed
  have s4: "der_expect der (0 + (int p2 + 1)) (wrap32 (int (length seq) - 1)) 0x30 0 = Ok (int (hdr (length nums)), int (length nums))"
  proof -
    have "wrap32 (int (length seq) - 1) = int (length seq) - 1" using lens by (intro w) simp_all
    then show ?thesis
      by (intro expect_tlv_at [OF d3(1)]) (use d3(2) small lens in simp_all)
  qed
  have s5: "der_expect der 0 ?N 0x02 (int p4) = Ok (int p5, int (length n))"
    by (rule expect_tlv_at [OF d4(1)]) (use d4(2) small N in \<open>simp_all add: ps\<close>)
  have s6: "der_expect der 0 ?N 0x02 (int p6) = Ok (int p7, int (length e))"
    by (rule expect_tlv_at [OF d6(1)]) (use d6(2) small N in \<open>simp_all add: p7_def\<close>)
  obtain sn ln kn where kn: "strip_integer der 0 (int p5) (int (length n)) = Ok (sn, ln)"
    "read_number der (0 + sn) ln = Ok kn" "bn_ok kn" "bn_val kn = be_val n" "0 < bn_len kn"
  proof -
    have "0 + int p5 = int (length (h0 @ tlv 0x30 alg @ h2 @ [0] @ h4 @ h5))" by (simp only: d5(2))
    from integer_val [OF this assms(2), of "tlv 0x02 e", folded d5(1)] show thesis using that by blast
  qed
  obtain se le ke where ke: "strip_integer der 0 (int p7) (int (length e)) = Ok (se, le)"
    "read_number der (0 + se) le = Ok ke" "bn_ok ke" "bn_val ke = be_val e" "0 < bn_len ke"
  proof -
    have "0 + int p7 = int (length (h0 @ tlv 0x30 alg @ h2 @ [0] @ h4 @ h5 @ n @ h7))" by (simp only: d7(2))
    from integer_val [OF this assms(3), of "[]", folded d7(1)] show thesis using that by blast
  qed
  have e1: "wrap32 (int p0 + int (length body)) = ?N" using lens(4) by (subst w) (simp_all add: p0_def)
  have p1': "wrap32 (int p0 + int (hdr (length alg)) + int (length alg)) = int p1" using N by (subst w) (simp_all add: ps)
  have p4': "int p2 + 1 + int (hdr (length nums)) = int p4" by (simp add: p4_def)
  have p6': "wrap32 (int p5 + int (length n)) = int p6" using N by (subst w) (simp_all add: ps)
  have c: "int p0 + 2 \<le> ?N" "int p1 < ?N" "int p2 < ?N" using N hb by (simp_all add: ps)
  have "rsa_pubkey_from_der der 0 ?N = Ok \<lparr>key_n = kn, key_e = ke\<rparr>"
    unfolding rsa_pubkey_from_der_def s1 and_then.simps prod.case Let_def e1 r1 if_P [OF refl] s2 p1' s3 r2 s4 p4' s5 p6' s6 kn(1,2) ke(1,2)
    using c by simp
  then show ?thesis unfolding spki using kn ke by simp
qed

section \<open>The padding\<close>

text \<open>The generator of the padding bytes on integers: \<open>2 ^ j\<close> steps of it are one affine step.\<close>

definition lcg :: "int \<Rightarrow> int" where
  "lcg x = 1664525 * x + 1013904223"

lemma lcg_powers:
  "\<exists>A C. \<forall>x. (lcg ^^ (2 ^ j)) x = (1 + 2 ^ (j + 2) * A) * x + 2 ^ j * (1 + 2 * C)"
proof (induction j)
  case 0
  show ?case by (rule exI [of _ 416131], rule exI [of _ 506952111]) (simp add: lcg_def)
next
  case (Suc j)
  then obtain A C where IH: "\<And>x. (lcg ^^ (2 ^ j)) x = (1 + 2 ^ (j + 2) * A) * x + 2 ^ j * (1 + 2 * C)" by blast
  define P :: int where "P = 2 ^ j"
  have IH': "(lcg ^^ (2 ^ j)) x = (1 + 4 * P * A) * x + P * (1 + 2 * C)" for x using IH [of x] by (simp add: P_def)
  have "(lcg ^^ (2 ^ Suc j)) x = (1 + 2 ^ (Suc j + 2) * (A + 2 * P * A * A)) * x + 2 ^ Suc j * (1 + 2 * (C + P * A * (1 + 2 * C)))" for x
  proof -
    have "2 ^ Suc j = (2 ^ j + 2 ^ j :: nat)" by simp
    then have "(lcg ^^ (2 ^ Suc j)) x = (lcg ^^ (2 ^ j)) ((lcg ^^ (2 ^ j)) x)" by (simp only: funpow_add comp_apply)
    also have "\<dots> = (1 + 4 * P * A) * ((1 + 4 * P * A) * x + P * (1 + 2 * C)) + P * (1 + 2 * C)" by (simp only: IH')
    also have "\<dots> = (1 + 8 * P * (A + 2 * P * A * A)) * x + 2 * P * (1 + 2 * (C + P * A * (1 + 2 * C)))" by algebra
    finally show ?thesis by (simp add: P_def)
  qed
  then show ?case by blast
qed

lemma lcg_leaves_low: "\<exists>k > 0. \<not> (lcg ^^ k) x mod 2 ^ 24 < 2 ^ 16"
proof (cases "lcg x mod 2 ^ 24 < 2 ^ 16")
  case False
  then show ?thesis by (intro exI [of _ 1]) simp
next
  case True
  obtain A C where A: "(lcg ^^ (2 ^ 23)) (lcg x) = (1 + 2 ^ (23 + 2) * A) * lcg x + 2 ^ 23 * (1 + 2 * C)" using lcg_powers [of 23] by blast
  define y where "y = lcg x"
  have "(lcg ^^ (2 ^ 23)) y = y + 2 ^ 23 + 2 ^ 24 * (2 * A * y + C)" using A unfolding y_def by (simp add: algebra_simps)
  then have "(lcg ^^ (2 ^ 23)) y mod 2 ^ 24 = (y + 2 ^ 23) mod 2 ^ 24" by (simp only: mod_mult_self2)
  also have "\<dots> = (y mod 2 ^ 24 + 2 ^ 23) mod 2 ^ 24" by (simp only: mod_add_left_eq)
  also have "\<dots> = y mod 2 ^ 24 + 2 ^ 23"
  proof (rule mod_pos_pos_trivial)
    have "0 \<le> y mod 2 ^ 24" by simp
    then show "0 \<le> y mod 2 ^ 24 + 2 ^ 23" by simp
    show "y mod 2 ^ 24 + 2 ^ 23 < 2 ^ 24" using True unfolding y_def by simp
  qed
  finally have "(lcg ^^ (2 ^ 23)) y mod 2 ^ 24 = y mod 2 ^ 24 + 2 ^ 23" .
  moreover have "0 \<le> y mod 2 ^ 24" by simp
  ultimately have "\<not> (lcg ^^ (2 ^ 23)) y mod 2 ^ 24 < 2 ^ 16" by simp
  moreover have "(lcg ^^ Suc (2 ^ 23)) x = (lcg ^^ (2 ^ 23)) y" by (simp only: funpow_Suc_right comp_apply y_def)
  ultimately show ?thesis by (intro exI [of _ "Suc (2 ^ 23)"]) (simp only: zero_less_Suc simp_thms)
qed

definition lcg_word :: "u32 \<Rightarrow> u32" where
  "lcg_word s = s * 1664525 + 1013904223"

definition pad_value :: "u32 \<Rightarrow> u8" where
  "pad_value s = ucast (drop_bit 16 s AND 0xFF)"

lemma pad_byte_step: "pad_byte s = (if pad_value (lcg_word s) = 0 then pad_byte (lcg_word s) else Some (pad_value (lcg_word s)))"
  by (subst pad_byte.simps) (simp add: lcg_word_def pad_value_def Let_def)

lemma pad_byte_ends: "0 < k \<Longrightarrow> pad_value ((lcg_word ^^ k) s) \<noteq> 0 \<Longrightarrow> \<exists>v. pad_byte s = Some v \<and> v \<noteq> 0"
proof (induction k arbitrary: s)
  case (Suc k)
  show ?case
  proof (cases "pad_value (lcg_word s) = 0")
    case True
    have "(lcg_word ^^ Suc k) s = (lcg_word ^^ k) (lcg_word s)" by (simp only: funpow_Suc_right comp_apply)
    then have n: "pad_value ((lcg_word ^^ k) (lcg_word s)) \<noteq> 0" using Suc.prems(2) by simp
    moreover have "0 < k" using n True by (cases k) simp_all
    ultimately show ?thesis using Suc.IH [of "lcg_word s"] True pad_byte_step [of s] by simp
  next
    case False
    then show ?thesis by (subst pad_byte_step) simp
  qed
qed simp

lemma lcg_word_iter: "(lcg_word ^^ k) s = word_of_int ((lcg ^^ k) (uint s))"
proof (induction k)
  case (Suc k)
  have "word_of_int (lcg x) = lcg_word (word_of_int x)" for x
    by (simp add: lcg_def lcg_word_def algebra_simps)
  then show ?case using Suc by simp
qed simp

lemma pad_value_int: "(pad_value (word_of_int x) = 0) = (x mod 2 ^ 24 < 2 ^ 16)"
proof -
  have bits: "bit (pad_value (word_of_int x)) i = (i < 8 \<and> bit x (i + 16))" for i
  proof -
    have m: "(255 :: u32) = mask 8" by (simp add: mask_eq_exp_minus_1)
    show ?thesis unfolding pad_value_def m
      using bit_imp_le_length [of "ucast (drop_bit 16 (word_of_int x :: u32) AND mask 8) :: u8" i]
      by (auto simp: bit_simps ac_simps)
  qed
  have "(x mod 2 ^ 24 < 2 ^ 16) = (drop_bit 16 (take_bit 24 x) = 0)"
    by (simp add: drop_bit_eq_div take_bit_eq_mod) (smt (verit) div_pos_pos_trivial pos_mod_sign zdiv_eq_0_iff)
  also have "\<dots> = (\<forall>i < 8. \<not> bit x (i + 16))"
    by (auto simp: bit_eq_iff bit_simps ac_simps)
  also have "\<dots> = (pad_value (word_of_int x) = 0)" using bits by (auto simp: bit_eq_iff)
  finally show ?thesis by simp
qed

lemma pad_byte_returns: "\<exists>v. pad_byte s = Some v \<and> v \<noteq> 0"
proof -
  obtain k where "0 < k" "\<not> (lcg ^^ k) (uint s) mod 2 ^ 24 < 2 ^ 16" using lcg_leaves_low by blast
  then show ?thesis using pad_byte_ends [of k s] pad_value_int lcg_word_iter by auto
qed

lemma pad_bytes_return:
  "\<exists>ps. pad_bytes ticks type i k = Some ps \<and> length ps = k \<and> 0 \<notin> set ps"
proof (induction k arbitrary: i)
  case (Suc k)
  obtain ps where "pad_bytes ticks type (i + 1) k = Some ps" "length ps = k" "0 \<notin> set ps" using Suc by blast
  moreover obtain v where "pad_byte (0xA5A50000 XOR (ucast (ticks i + ucast (word_of_nat i * 73 :: u32)) :: u32)) = Some v" "v \<noteq> 0"
    using pad_byte_returns by blast
  ultimately show ?case by simp
qed simp

text \<open>
  The padding always returns: the generator of the padding bytes never gets stuck on zero bytes. A
  message of at most \<open>out_len - 11\<close> bytes is wrapped as \<open>00 02 PS 00 message\<close> in exactly \<open>out_len\<close> bytes, with
  at least eight padding bytes, none of them zero; a longer message is refused.
\<close>
theorem rsa_pkcs1_v15_encode_correct:
  "if length inp + 11 > out_len then rsa_pkcs1_v15_encode ticks inp out_len = Fail
   else \<exists>ps. rsa_pkcs1_v15_encode ticks inp out_len = Ok ([0, 2] @ ps @ [0] @ inp)
     \<and> length ([0, 2] @ ps @ [0] @ inp) = out_len \<and> 8 \<le> length ps \<and> 0 \<notin> set ps"
proof (cases "length inp + 11 > out_len")
  case True
  then show ?thesis by (simp add: rsa_pkcs1_v15_encode_def pkcs1_v15_pad_def)
next
  case False
  obtain ps where "pad_bytes ticks 2 0 (out_len - length inp - 3) = Some ps" "length ps = out_len - length inp - 3" "0 \<notin> set ps"
    using pad_bytes_return by blast
  then show ?thesis using False by (intro iffD2 [OF if_not_P]) (auto simp: rsa_pkcs1_v15_encode_def pkcs1_v15_pad_def)
qed

section \<open>Encryption\<close>

lemma to_bytes_bounds:
  assumes "bn_ok a" "0 < bn_val a"
  shows "256 ^ (length (bn_to_bytes a) - 1) \<le> bn_val a" "bn_val a < 256 ^ length (bn_to_bytes a)" "0 < length (bn_to_bytes a)"
proof -
  note v = bn_to_bytes_val [of a]
  have l: "bn_len a \<le> length (bn_d a)" using assms(1) by (simp add: bn_ok_def)
  have ne: "bn_to_bytes a \<noteq> []" using v(1) [OF l] assms(2) by (metis be_val_less length_0_conv less_one nat_less_le power_0)
  then obtain x xs where x: "bn_to_bytes a = x # xs" by (cases "bn_to_bytes a") auto
  then show "256 ^ (length (bn_to_bytes a) - 1) \<le> bn_val a" using be_val_ge [of x xs] v(1) [OF l] v(2) [OF l] by simp
  show "bn_val a < 256 ^ length (bn_to_bytes a)" using be_val_less [of "bn_to_bytes a"] v(1) [OF l] by simp
  show "0 < length (bn_to_bytes a)" using ne by simp
qed

lemma to_bytes_length:
  assumes "bn_ok a" "bn_val a < 256 ^ k"
  shows "length (bn_to_bytes a) \<le> k"
proof (rule ccontr)
  assume n: "\<not> length (bn_to_bytes a) \<le> k"
  have l: "bn_len a \<le> length (bn_d a)" using assms(1) by (simp add: bn_ok_def)
  obtain x xs where x: "bn_to_bytes a = x # xs" using n by (cases "bn_to_bytes a") auto
  have "(256 :: nat) ^ k \<le> 256 ^ length xs" using n x by (intro power_increasing) simp_all
  also have "\<dots> \<le> be_val (bn_to_bytes a)" using x be_val_ge [of x xs] bn_to_bytes_val(2) [OF l] by simp
  finally show False using assms(2) bn_to_bytes_val(1) [OF l] by simp
qed

lemma be_val_zeros: "be_val (replicate k 0 @ bs) = be_val bs"
  by (induction k) (simp_all add: be_val_Cons)

lemma to_bytes_max: "bn_ok a \<Longrightarrow> length (bn_to_bytes a) \<le> 4 * bn_len a"
  using to_bytes_length [of a "4 * bn_len a"] bn_val_less [of a] by (simp add: power_mult)

definition usable_key :: "rsa_pubkey \<Rightarrow> bool" where
  "usable_key key \<longleftrightarrow> bn_ok (key_n key) \<and> bn_ok (key_e key) \<and> 0 < bn_len (key_e key) \<and> 0 < bn_val (key_n key)"

text \<open>
  C21. Encryption under a modulus of at most 4096 bits: a message that does not fit the padding is refused;
  otherwise the result has exactly as many bytes as the modulus and is the padded message to the power of
  the public exponent, modulo the modulus. A modulus of more words overruns the buffers on the stack.
\<close>
theorem rsa_encrypt_correct:
  assumes "usable_key key" "length (bn_d jb) = 256" "length (bn_d je) = 256" "length (bn_d jc) = 256"
  shows "if 128 < bn_len (key_n key) then rsa_encrypt ticks jb je jc key inp = Oob
    else if length inp + 11 > length (bn_to_bytes (key_n key)) then rsa_encrypt ticks jb je jc key inp = Fail
    else \<exists>padded out. rsa_pkcs1_v15_encode ticks inp (length (bn_to_bytes (key_n key))) = Ok padded
      \<and> rsa_encrypt ticks jb je jc key inp = Ok out \<and> length out = length (bn_to_bytes (key_n key))
      \<and> be_val out = (if bn_val (key_e key) = 0 then 1 else be_val padded ^ bn_val (key_e key) mod bn_val (key_n key))"
proof (cases "128 < bn_len (key_n key) \<or> length inp + 11 > length (bn_to_bytes (key_n key))")
  case True
  then show ?thesis by (auto simp: rsa_encrypt_def)
next
  case False
  let ?n = "key_n key" and ?e = "key_e key"
  let ?k = "length (bn_to_bytes ?n)"
  have n: "bn_ok ?n" "0 < bn_val ?n" "bn_len ?n \<le> 128" "bn_ok ?e" "0 < bn_len ?e" using assms(1) False by (simp_all add: usable_key_def)
  have k: "11 \<le> ?k" "?k \<le> 512" using False to_bytes_max [OF n(1)] n(3) by linarith+
  obtain ps where ps: "pad_bytes ticks 2 0 (?k - length inp - 3) = Some ps" "length ps = ?k - length inp - 3"
    using pad_bytes_return by blast
  define padded where "padded = [0, 2] @ ps @ [0] @ inp"
  have p: "rsa_pkcs1_v15_encode ticks inp ?k = Ok padded" "length padded = ?k"
    using ps False k by (simp add: rsa_pkcs1_v15_encode_def pkcs1_v15_pad_def padded_def)
      (use ps(2) False in \<open>simp only: padded_def length_append list.size, linarith\<close>)
  have "be_val padded = be_val (tl padded)" by (simp add: padded_def be_val_Cons [of 0])
  also have "\<dots> < 256 ^ (?k - 1)" using be_val_less [of "tl padded"] p(2) by simp
  also have "\<dots> \<le> bn_val ?n" by (rule to_bytes_bounds(1) [OF n(1,2)])
  finally have small: "be_val padded < bn_val ?n" .
  define m where "m = snd (bn_from_bytes padded (int ?k))"
  have m: "bn_ok m" "bn_val m = be_val padded" using bn_from_bytes_val [of padded] p(2) k by (simp_all add: m_def)
  have "bn_len m \<le> 128" using bn_len_mono [OF m(1), of ?n] m(2) small n(3) by simp
  then obtain c where c: "bn_mod_exp jb je jc m ?e ?n = Some c" "bn_ok c"
    "bn_val c = (if bn_val ?e = 0 then 1 else bn_val m ^ bn_val ?e mod bn_val ?n)"
    using bn_mod_exp_val [OF m(1) n(4,1,2,3) _ n(5) assms(2-4)] by blast
  have "(1 :: nat) < 256 ^ (?k - 1)" using k by (intro one_less_power) simp_all
  then have "1 < bn_val ?n" using to_bytes_bounds(1) [OF n(1,2)] by simp
  then have cn: "bn_val c < bn_val ?n" using c(3) by simp
  then have len: "bn_len c \<le> 128" using bn_len_mono [OF c(2)] n(3) by fastforce
  have ol: "length (bn_to_bytes c) \<le> ?k" using cn to_bytes_bounds(2) [OF n(1,2)] by (intro to_bytes_length c(2)) simp
  define out where "out = replicate (?k - length (bn_to_bytes c)) 0 @ bn_to_bytes c"
  have "rsa_encrypt ticks jb je jc key inp = Ok out" using False n(3) p(1) c(1) len ol
    by (simp add: rsa_encrypt_def Let_def out_def m_def)
  moreover have "length out = ?k" using ol by (simp add: out_def)
  moreover have "be_val out = bn_val c"
    using c(2) by (simp add: out_def be_val_zeros bn_to_bytes_val(1) bn_ok_def)
  ultimately show ?thesis using False p(1) c(3) m(2) by simp
qed

theorem rsa_encrypt_correct_witness:
  "\<exists>out. rsa_encrypt (\<lambda>_. 0) bn_zero bn_zero bn_zero
      \<lparr>key_n = snd (bn_from_bytes [0xFF, 0xFF, 0xFF, 0xFF, 0xFF, 0xFF, 0xFF, 0xFF, 0xFF, 0xFF, 0xFF, 0xFF] 12), key_e = bn_from_uint32 3\<rparr> [7] = Ok out \<and> length out = 12"
proof -
  let ?n = "snd (bn_from_bytes [0xFF, 0xFF, 0xFF, 0xFF, 0xFF, 0xFF, 0xFF, 0xFF, 0xFF, 0xFF, 0xFF, 0xFF] 12)"
  let ?key = "\<lparr>key_n = ?n, key_e = bn_from_uint32 3\<rparr>"
  have z: "length (bn_d bn_zero) = 256" by (simp add: bn_zero_def BN_MAX_WORDS_def)
  have n: "bn_ok ?n" "bn_val ?n = be_val [0xFF, 0xFF, 0xFF, 0xFF, 0xFF, 0xFF, 0xFF, 0xFF, 0xFF, 0xFF, 0xFF, 0xFF]" using bn_from_bytes_val [of "[0xFF, 0xFF, 0xFF, 0xFF, 0xFF, 0xFF, 0xFF, 0xFF, 0xFF, 0xFF, 0xFF, 0xFF]"] by simp_all
  have b: "bn_to_bytes ?n = [0xFF, 0xFF, 0xFF, 0xFF, 0xFF, 0xFF, 0xFF, 0xFF, 0xFF, 0xFF, 0xFF, 0xFF]" using bytes_round_trip [of "[0xFF, 0xFF, 0xFF, 0xFF, 0xFF, 0xFF, 0xFF, 0xFF, 0xFF, 0xFF, 0xFF, 0xFF]"] by simp
  have "be_val [0xFF, 0xFF, 0xFF, 0xFF, 0xFF, 0xFF, 0xFF, 0xFF, 0xFF, 0xFF, 0xFF, 0xFF] = 2 ^ 96 - 1" by (simp add: be_val_def)
  then have v: "bn_val ?n = 2 ^ 96 - 1" using n(2) by simp
  have l: "bn_len ?n \<le> 128"
    using bn_len_mono [OF n(1), of "\<lparr>bn_d = [0, 0, 0, 1], bn_len = 4\<rparr>"] v by (simp add: bn_val_def)
  have "usable_key ?key" using n v by (simp add: usable_key_def bn_from_uint32_val)
  from rsa_encrypt_correct [OF this z z z, of "\<lambda>_. 0" "[7]"] show ?thesis using l b by auto
qed

section \<open>Properties of the reader\<close>

text \<open>
  C22. A public key written as a certificate carries it (modulus and exponent of at most 1024 bytes, with
  any number of leading zero bytes) is read back: the numbers are the two the encoding denotes.
\<close>
theorem rsa_key_roundtrip:
  assumes "length alg + length n + length e < 60000" "length n \<le> 1024" "length e \<le> 1024"
  shows "\<exists>key. rsa_pubkey_from_der (der_spki alg n e) 0 (int (length (der_spki alg n e))) = Ok key
    \<and> bn_val (key_n key) = be_val n \<and> bn_val (key_e key) = be_val e"
  using spki_parse [OF assms] by blast

theorem rsa_key_roundtrip_witness:
  "\<exists>key. rsa_pubkey_from_der (der_spki [5, 0] [0, 0xC5] [1, 0, 1]) 0 20 = Ok key \<and> bn_val (key_n key) = 197 \<and> bn_val (key_e key) = 65537"
proof -
  have "length (der_spki [5, 0] [0, 0xC5] [1, 0, 1]) = 20" by (simp add: der_spki_def length_tlv der_len_def)
  then show ?thesis using rsa_key_roundtrip [of "[5, 0]" "[0, 0xC5]" "[1, 0, 1]"] by (simp add: be_val_def)
qed

text \<open>
  Reading one header inside a buffer never leaves the buffer, never hangs, and moves forward by at
  least two bytes when it succeeds.
\<close>
theorem der_read_tag_in_bounds:
  assumes "0 \<le> base" "0 \<le> pos" "base + n \<le> int (length der)"
  shows "der_read_tag der base n pos = Fail
    \<or> (\<exists>p t l. der_read_tag der base n pos = Ok (p, t, l) \<and> pos + 2 \<le> p \<and> p \<le> n)"
  using der_read_tag_safe [OF assms] by (cases "der_read_tag der base n pos") auto

theorem der_read_tag_in_bounds_witness:
  "der_read_tag [0x30, 0x03, 1, 2, 3] 0 5 0 = Ok (2, 0x30, 3)"
proof -
  have "der_read_tag [0x30, 0x03, 1, 2, 3] 0 5 0 = Fail
    \<or> (\<exists>p t l. der_read_tag [0x30, 0x03, 1, 2, 3] 0 5 0 = Ok (p, t, l) \<and> (0 :: int) + 2 \<le> p \<and> p \<le> 5)"
    by (rule der_read_tag_in_bounds) simp_all
  then show ?thesis by (auto simp: der_read_tag_def rd_def)
qed

text \<open>A loop of the optional fields that comes back to where it was never ends.\<close>

lemma optional_fields_stuck:
  assumes "pos < tbs_end" "rd der pos = Ok b" "b = 0xA1 \<or> b = 0xA2 \<or> b = 0xA3"
    "der_read_tag der 0 n pos = Ok (p, t, l)" "wrap32 (p + l) = pos"
  shows "optional_fields der n tbs_end pos = None"
proof -
  have "\<not> (d = der \<and> n' = n \<and> e = tbs_end \<and> q = pos)" if a: "optional_fields d n' e q = Some r" for d n' e q r
  proof (rule optional_fields.raw_induct [where P = "\<lambda>d n' e q r. \<not> (d = der \<and> n' = n \<and> e = tbs_end \<and> q = pos)", OF _ a])
    fix f d n' e q r
    assume IH: "\<And>d n' e q r. f d n' e q = Some r \<Longrightarrow> \<not> (d = der \<and> n' = n \<and> e = tbs_end \<and> q = pos)"
      and step: "(if q < e then case rd d q of
          Ok next \<Rightarrow> if next = 0xA1 \<or> next = 0xA2 \<or> next = 0xA3
            then case der_read_tag d 0 n' q of Ok (pos, _, len) \<Rightarrow> f d n' e (wrap32 (pos + len)) | Fail \<Rightarrow> Some Fail | Oob \<Rightarrow> Some Oob | Hang \<Rightarrow> Some Hang
            else Some (Ok q)
        | _ \<Rightarrow> Some Oob else Some (Ok q)) = Some r"
    show "\<not> (d = der \<and> n' = n \<and> e = tbs_end \<and> q = pos)"
    proof
      assume "d = der \<and> n' = n \<and> e = tbs_end \<and> q = pos"
      then have "f der n tbs_end pos = Some r" using step assms by auto
      then show False using IH by blast
    qed
  qed
  then show ?thesis by (cases "optional_fields der n tbs_end pos") blast+
qed

text \<open>
  C23. The reader of certificates trusts the lengths on the wire. A four-byte certificate whose inner length
  points behind it makes it read past its buffer, and a negative length in an optional field makes it loop
  for ever.
\<close>
theorem rsa_cert_reader_defects:
  "rsa_pubkey_from_cert_der [0x30, 1, 0x30, 5] 4 = Oob
   \<and> rsa_pubkey_from_cert_der [0x30, 22, 0x30, 20, 2, 0, 0x30, 0, 0x30, 0, 0x30, 0, 0x30, 0, 0xA1, 0x84, 0xFF, 0xFF, 0xFF, 0xFA, 0, 0, 0, 0] 24 = Hang"
proof
  show "rsa_pubkey_from_cert_der [0x30, 1, 0x30, 5] 4 = Oob"
    by (simp add: rsa_pubkey_from_cert_der_def der_expect_def der_read_tag_def rd_def wrap32_def)
  let ?d = "[0x30, 22, 0x30, 20, 2, 0, 0x30, 0, 0x30, 0, 0x30, 0, 0x30, 0, 0xA1, 0x84, 0xFF, 0xFF, 0xFF, 0xFA, 0, 0, 0, 0] :: bytes"
  have "der_read_tag ?d 0 24 14 = Ok (20, 0xA1, - 6)"
  proof -
    have "len_bytes d b n 4 pos l = len_bytes d b n (Suc (Suc (Suc (Suc 0)))) pos l" for d b n pos l
      by (simp add: eval_nat_numeral del: len_bytes.simps)
    then show ?thesis by (simp add: der_read_tag_def rd_def)
  qed
  from optional_fields_stuck [OF _ _ _ this, of 24 "0xA1"] have o: "optional_fields ?d 24 24 14 = None"
    by (simp add: rd_def wrap32_small)
  show "rsa_pubkey_from_cert_der ?d 24 = Hang" using o
    by (simp add: rsa_pubkey_from_cert_der_def der_expect_def der_skip_field_def der_read_tag_def rd_def wrap32_small)
qed

end
