(* ===== verification/Vfs.thy ===== *)
theory Vfs
  imports Icda_Prelude
begin

text \<open>
  The in-memory file tree, \<^verbatim>\<open>kernel/fs/vfs.c\<close>. Nodes are never freed, so a node is named by the number of
  its allocation (0 is NULL); the chain \<^verbatim>\<open>first_child\<close>/\<^verbatim>\<open>next_sibling\<close> of a directory, which only
  \<^verbatim>\<open>append_child\<close> writes and always with a new node, is the list of its children. C strings are lists of
  the bytes before the terminating NUL, a data buffer is the list of all its bytes. The answers of the
  allocator and of the sync hook are streams that each call consumes.
\<close>

section \<open>State\<close>

record vnode =
  vn_name :: bytes
  vn_inode :: u64
  vn_created :: u64
  vn_modified :: u64
  vn_size :: u64
  vn_type :: u8
  vn_readonly :: u8
  vn_data :: "bytes option"
  vn_parent :: nat
  vn_children :: "nat list"

record vfs =
  vfs_node :: "nat \<rightharpoonup> vnode"
  vfs_brk :: nat
  vfs_root_node :: nat
  vfs_next_inode :: u64
  vfs_tick :: u64
  vfs_hooked :: bool
  sync_answers :: "nat \<Rightarrow> int"
  alloc_answers :: "nat \<Rightarrow> bool"

definition VFS_NODE_FILE :: u8 where "VFS_NODE_FILE = 1"
definition VFS_NODE_DIR :: u8 where "VFS_NODE_DIR = 2"
definition VFS_NAME_CAP :: nat where "VFS_NAME_CAP = 63"

definition slash :: u8 where "slash = 47"
definition dot :: bytes where "dot = [46]"
definition dotdot :: bytes where "dotdot = [46, 46]"

text \<open>A request of size 0 fails, any other one is answered by the stream.\<close>

definition vfs_alloc :: "u64 \<Rightarrow> vfs \<Rightarrow> bool \<times> vfs" where
  "vfs_alloc n s = (if n = 0 then (False, s) else (alloc_answers s 0, s\<lparr>alloc_answers := \<lambda>i. alloc_answers s (Suc i)\<rparr>))"

definition upd_node :: "nat \<Rightarrow> (vnode \<Rightarrow> vnode) \<Rightarrow> vfs \<Rightarrow> vfs" where
  "upd_node a f s = s\<lparr>vfs_node := (vfs_node s)(a := map_option f (vfs_node s a))\<rparr>"

text \<open>\<^verbatim>\<open>node->modified = vfs_tick++\<close>\<close>

definition touch :: "nat \<Rightarrow> vfs \<Rightarrow> vfs" where
  "touch a s = (upd_node a (vn_modified_update (\<lambda>_. vfs_tick s)) s)\<lparr>vfs_tick := vfs_tick s + 1\<rparr>"

section \<open>Names and nodes\<close>

fun str_eq :: "bytes \<Rightarrow> bytes \<Rightarrow> bool" where
  "str_eq [] [] = True"
| "str_eq (a # as) (b # bs) = (a = b \<and> str_eq as bs)"
| "str_eq _ _ = False"

fun name_scan :: "bytes \<Rightarrow> nat \<Rightarrow> bool" where
  "name_scan [] len = True"
| "name_scan (c # cs) len = (if c = slash then False else if len + 1 > VFS_NAME_CAP then False else name_scan cs (len + 1))"

definition valid_name :: "bytes \<Rightarrow> bool" where
  "valid_name name = (if name = [] then False else if str_eq name dot \<or> str_eq name dotdot then False else name_scan name 0)"

definition new_node :: "bytes \<Rightarrow> u8 \<Rightarrow> u8 \<Rightarrow> vfs \<Rightarrow> nat \<times> vfs" where
  "new_node name type ro s =
     (let (ok, s) = vfs_alloc 88 s in
      if \<not> ok then (0, s)
      else let (ok, s) = vfs_alloc (word_of_nat (length name) + 1) s in
      if \<not> ok then (0, s)
      else (vfs_brk s,
        s\<lparr>vfs_node := (vfs_node s)(vfs_brk s \<mapsto>
            \<lparr>vn_name = name, vn_inode = vfs_next_inode s, vn_created = vfs_tick s, vn_modified = vfs_tick s, vn_size = 0,
             vn_type = type, vn_readonly = ro, vn_data = None, vn_parent = 0, vn_children = []\<rparr>),
          vfs_brk := vfs_brk s + 1, vfs_next_inode := vfs_next_inode s + 1, vfs_tick := vfs_tick s + 1\<rparr>))"

definition has_name :: "vfs \<Rightarrow> bytes \<Rightarrow> nat \<Rightarrow> bool" where
  "has_name s name c = (case vfs_node s c of None \<Rightarrow> False | Some n \<Rightarrow> str_eq (vn_name n) name)"

definition find_child :: "vfs \<Rightarrow> nat \<Rightarrow> bytes \<Rightarrow> nat" where
  "find_child s dir name =
     (case vfs_node s dir of
        None \<Rightarrow> 0
      | Some d \<Rightarrow>
          if vn_type d \<noteq> VFS_NODE_DIR then 0
          else case find (has_name s name) (vn_children d) of None \<Rightarrow> 0 | Some c \<Rightarrow> c)"

definition append_child :: "nat \<Rightarrow> nat \<Rightarrow> vfs \<Rightarrow> vfs" where
  "append_child dir child s =
     upd_node dir (vn_children_update (\<lambda>cs. cs @ [child])) (upd_node child (vn_parent_update (\<lambda>_. dir)) s)"

section \<open>Paths\<close>

definition skip_slash :: "bytes \<Rightarrow> bytes" where
  "skip_slash path = dropWhile (\<lambda>c. c = slash) path"

definition next_component :: "bytes \<Rightarrow> nat \<Rightarrow> bytes \<times> bytes" where
  "next_component path part_cap =
     (let path = skip_slash path
      in (take (part_cap - 1) (takeWhile (\<lambda>c. c \<noteq> slash) path), dropWhile (\<lambda>c. c \<noteq> slash) path))"

definition component_was_truncated :: "bytes \<Rightarrow> nat \<Rightarrow> bool" where
  "component_was_truncated path part_cap = (length (takeWhile (\<lambda>c. c \<noteq> slash) (skip_slash path)) \<ge> part_cap)"

lemma next_component_shorter: "(part, rest) = next_component path k \<Longrightarrow> path \<noteq> [] \<Longrightarrow> length (skip_slash rest) < length path"
proof -
  assume p: "path \<noteq> []" and n: "(part, rest) = next_component path k"
  have r: "rest = dropWhile (\<lambda>c. c \<noteq> slash) (skip_slash path)" using n by (simp add: next_component_def Let_def)
  have le: "length (skip_slash rest) \<le> length rest" by (simp add: skip_slash_def length_dropWhile_le)
  show ?thesis
  proof (cases "hd path = slash")
    case True
    then obtain xs where "path = slash # xs" using p by (cases path) simp_all
    then have "length (skip_slash path) < length path" by (simp add: skip_slash_def length_dropWhile_le le_imp_less_Suc)
    moreover have "length rest \<le> length (skip_slash path)" by (simp add: r length_dropWhile_le)
    ultimately show ?thesis using le by simp
  next
    case False
    then obtain x xs where "path = x # xs" "x \<noteq> slash" using p by (cases path) simp_all
    then have "rest = dropWhile (\<lambda>c. c \<noteq> slash) xs" by (simp add: r skip_slash_def)
    then have "length rest \<le> length xs" by (simp add: length_dropWhile_le)
    then show ?thesis using le \<open>path = x # xs\<close> by simp
  qed
qed

definition parent_or_self :: "vfs \<Rightarrow> nat \<Rightarrow> nat" where
  "parent_or_self s node = (case vfs_node s node of Some n \<Rightarrow> if vn_parent n \<noteq> 0 then vn_parent n else node | None \<Rightarrow> node)"

function resolve_loop :: "vfs \<Rightarrow> nat \<Rightarrow> bytes \<Rightarrow> nat" where
  "resolve_loop s node path =
     (if path = [] then node
      else if component_was_truncated path 64 then 0
      else let (part, rest) = next_component path 64
      in if str_eq part dot then resolve_loop s node (skip_slash rest)
      else if str_eq part dotdot then resolve_loop s (parent_or_self s node) (skip_slash rest)
      else if \<not> valid_name part then 0
      else if find_child s node part = 0 then 0
      else resolve_loop s (find_child s node part) (skip_slash rest))"
  by pat_completeness auto
termination
  by (relation "measure (\<lambda>(s, node, path). length path)") (auto dest!: next_component_shorter)

definition start_node :: "vfs \<Rightarrow> nat \<Rightarrow> bytes \<Rightarrow> nat" where
  "start_node s cwd path = (if path \<noteq> [] \<and> hd path = slash then vfs_root_node s else cwd)"

definition vfs_resolve :: "vfs \<Rightarrow> nat \<Rightarrow> bytes \<Rightarrow> nat" where
  "vfs_resolve s cwd path =
     (let node = start_node s cwd path
      in if node = 0 \<or> path = [] then 0 else resolve_loop s node (skip_slash path))"

definition is_dir :: "vfs \<Rightarrow> nat \<Rightarrow> bool" where
  "is_dir s a = (case vfs_node s a of Some n \<Rightarrow> vn_type n = VFS_NODE_DIR | None \<Rightarrow> False)"

text \<open>The child to descend to, made first when \<^verbatim>\<open>create_dirs\<close> asks for it; 0 when there is none.\<close>

definition enter_dir :: "bool \<Rightarrow> nat \<Rightarrow> bytes \<Rightarrow> vfs \<Rightarrow> nat \<times> vfs" where
  "enter_dir create_dirs node part s =
     (let child = find_child s node part;
          (child, s) = (if child = 0 \<and> create_dirs
                        then let (child, s) = new_node part VFS_NODE_DIR 0 s
                             in if child = 0 then (0, s) else (child, append_child node child s)
                        else (child, s))
      in if child = 0 \<or> \<not> is_dir s child then (0, s) else (child, s))"

function resolve_parent_loop :: "bool \<Rightarrow> nat \<Rightarrow> bytes \<Rightarrow> vfs \<Rightarrow> (nat \<times> bytes) option \<times> vfs" where
  "resolve_parent_loop create_dirs node path s =
     (if path = [] then (None, s)
      else if component_was_truncated path 64 then (None, s)
      else let (part, rest) = next_component path 64
      in if skip_slash rest = [] then (Some (node, take 63 part), s)
      else if str_eq part dot then resolve_parent_loop create_dirs node (skip_slash rest) s
      else if str_eq part dotdot then resolve_parent_loop create_dirs (parent_or_self s node) (skip_slash rest) s
      else if \<not> valid_name part then (None, s)
      else let (child, s) = enter_dir create_dirs node part s
      in if child = 0 then (None, s) else resolve_parent_loop create_dirs child (skip_slash rest) s)"
  by pat_completeness auto
termination
  by (relation "measure (\<lambda>(c, node, path, s). length path)") (auto dest!: next_component_shorter)

definition resolve_parent :: "bool \<Rightarrow> nat \<Rightarrow> bytes \<Rightarrow> vfs \<Rightarrow> (nat \<times> bytes) option \<times> vfs" where
  "resolve_parent create_dirs cwd path s =
     (let node = start_node s cwd path
      in if node = 0 \<or> path = [] then (None, s) else resolve_parent_loop create_dirs node (skip_slash path) s)"

declare resolve_loop.simps [simp del] resolve_parent_loop.simps [simp del]

section \<open>Operations\<close>

definition vfs_init :: "vfs \<Rightarrow> int \<times> vfs" where
  "vfs_init s = (let (root, s) = new_node [] VFS_NODE_DIR 0 s in (if root \<noteq> 0 then 0 else -1, s\<lparr>vfs_root_node := root\<rparr>))"

text \<open>\<open>hook\<close> says that the function given is not NULL.\<close>

definition vfs_set_sync_hook :: "bool \<Rightarrow> vfs \<Rightarrow> vfs" where
  "vfs_set_sync_hook hook s = s\<lparr>vfs_hooked := hook\<rparr>"

definition vfs_sync :: "vfs \<Rightarrow> int \<times> vfs" where
  "vfs_sync s = (if \<not> vfs_hooked s then (0, s) else (sync_answers s 0, s\<lparr>sync_answers := \<lambda>i. sync_answers s (Suc i)\<rparr>))"

definition add_node :: "nat \<Rightarrow> bytes \<Rightarrow> u8 \<Rightarrow> u8 \<Rightarrow> vfs \<Rightarrow> nat \<times> vfs" where
  "add_node parent leaf type ro s =
     (let (node, s) = new_node leaf type ro s
      in if node = 0 then (0, s) else (node, append_child parent node s))"

definition vfs_mkdir :: "nat \<Rightarrow> bytes \<Rightarrow> vfs \<Rightarrow> int \<times> vfs" where
  "vfs_mkdir cwd path s =
     (case resolve_parent False cwd path s of
        (None, s) \<Rightarrow> (-1, s)
      | (Some (parent, leaf), s) \<Rightarrow>
          if \<not> valid_name leaf \<or> find_child s parent leaf \<noteq> 0 then (-1, s)
          else let (node, s) = add_node parent leaf VFS_NODE_DIR 0 s
          in if node = 0 then (-1, s) else vfs_sync (touch parent s))"

definition is_file :: "vfs \<Rightarrow> nat \<Rightarrow> bool" where
  "is_file s a = (case vfs_node s a of Some n \<Rightarrow> vn_type n = VFS_NODE_FILE | None \<Rightarrow> False)"

definition vfs_create :: "nat \<Rightarrow> bytes \<Rightarrow> vfs \<Rightarrow> int \<times> vfs" where
  "vfs_create cwd path s =
     (case resolve_parent False cwd path s of
        (None, s) \<Rightarrow> (-1, s)
      | (Some (parent, leaf), s) \<Rightarrow>
          if \<not> valid_name leaf then (-1, s)
          else if find_child s parent leaf \<noteq> 0 then (if is_file s (find_child s parent leaf) then 0 else -1, s)
          else let (node, s) = add_node parent leaf VFS_NODE_FILE 0 s
          in if node = 0 then (-1, s) else vfs_sync (touch parent s))"

definition writable :: "vfs \<Rightarrow> nat \<Rightarrow> bool" where
  "writable s a = (case vfs_node s a of Some n \<Rightarrow> vn_type n = VFS_NODE_FILE \<and> vn_readonly n = 0 | None \<Rightarrow> False)"

text \<open>A new buffer of \<open>size + 1\<close> bytes with the contents and a NUL replaces the old one.\<close>

definition put_data :: "nat \<Rightarrow> bytes \<Rightarrow> u64 \<Rightarrow> vfs \<Rightarrow> vfs" where
  "put_data a contents sz s = upd_node a (\<lambda>n. n\<lparr>vn_data := Some (contents @ [0]), vn_size := sz\<rparr>) s"

definition vfs_write :: "nat \<Rightarrow> bytes \<Rightarrow> bytes \<Rightarrow> vfs \<Rightarrow> int \<times> vfs" where
  "vfs_write cwd path data s =
     (let sz = word_of_nat (length data) :: u64;
          node = vfs_resolve s cwd path;
          (crc, node, s) = (if node = 0
             then let (crc, s) = vfs_create cwd path s in (crc, vfs_resolve s cwd path, s)
             else (0, node, s))
      in if crc \<noteq> 0 then (-1, s)
      else if \<not> writable s node then (-1, s)
      else let (ok, s) = vfs_alloc (sz + 1) s
      in if \<not> ok then (-1, s)
      else vfs_sync (touch node (put_data node data sz s)))"

text \<open>\<open>None\<close> when the store goes through a NULL pointer or outside the buffer.\<close>

definition overwrite :: "bytes option \<Rightarrow> nat \<Rightarrow> bytes \<Rightarrow> bytes option option" where
  "overwrite buf off data =
     (if data = [] then Some buf
      else case buf of
        None \<Rightarrow> None
      | Some b \<Rightarrow> if off + length data \<le> length b then Some (Some (take off b @ data @ drop (off + length data) b)) else None)"

definition vfs_node_write_at :: "nat \<Rightarrow> u64 \<Rightarrow> bytes option \<Rightarrow> u64 \<Rightarrow> vfs \<Rightarrow> (int \<times> vfs) option" where
  "vfs_node_write_at node off data sz s =
     (if \<not> writable s node then Some (-1, s)
      else if data = None \<and> sz \<noteq> 0 then Some (-1, s)
      else let n = the (vfs_node s node);
               new_end = off + sz;
               src = (case data of None \<Rightarrow> [] | Some d \<Rightarrow> take (unat sz) d)
      in if new_end < off then Some (-1, s)
      else if new_end \<le> vn_size n
      then (case overwrite (vn_data n) (unat off) src of
              None \<Rightarrow> None
            | Some buf \<Rightarrow> Some (vfs_sync (touch node (upd_node node (vn_data_update (\<lambda>_. buf)) s))))
      else let (ok, s) = vfs_alloc (new_end + 1) s
      in if \<not> ok then Some (-1, s)
      else let old = (case vn_data n of None \<Rightarrow> replicate (unat (vn_size n)) 0 | Some b \<Rightarrow> take (unat (vn_size n)) b)
      in Some (vfs_sync (touch node (put_data node (take (unat off) (old @ replicate (unat off - unat (vn_size n)) 0) @ src) new_end s))))"

definition vfs_seed_readonly :: "bytes \<Rightarrow> bytes \<Rightarrow> vfs \<Rightarrow> int \<times> vfs" where
  "vfs_seed_readonly path data s =
     (if vfs_root_node s = 0 \<or> path = [] then (-1, s)
      else case resolve_parent True (vfs_root_node s) path s of
        (None, s) \<Rightarrow> (-1, s)
      | (Some (parent, leaf), s) \<Rightarrow>
          if \<not> valid_name leaf then (-1, s)
          else let found = find_child s parent leaf;
                   (node, s) = (if found = 0
                      then let (node, s) = add_node parent leaf VFS_NODE_FILE 1 s in if node = 0 then (0, s) else (node, touch parent s)
                      else (found, s))
          in if node = 0 then (-1, s)
          else if \<not> is_file s node then (-1, s)
          else let s = upd_node node (vn_data_update (\<lambda>_. None)) s;
                   sz = word_of_nat (length data) :: u64;
                   (ok, s) = vfs_alloc (sz + 1) s
          in if \<not> ok then (-1, s)
          else (0, touch node (upd_node node (vn_readonly_update (\<lambda>_. 1)) (put_data node data sz s))))"

text \<open>The counters stay ahead of every imported inode number and time.\<close>

definition import_counters :: "u64 \<Rightarrow> u64 \<Rightarrow> u64 \<Rightarrow> vfs \<Rightarrow> vfs" where
  "import_counters inode created modified s =
     (let s = (if inode \<ge> vfs_next_inode s then s\<lparr>vfs_next_inode := inode + 1\<rparr> else s);
          s = (if modified \<ge> vfs_tick s then s\<lparr>vfs_tick := modified + 1\<rparr> else s)
      in if created \<ge> vfs_tick s then s\<lparr>vfs_tick := created + 1\<rparr> else s)"

definition vfs_import_node :: "bytes \<Rightarrow> u8 \<Rightarrow> u8 \<Rightarrow> bytes \<Rightarrow> u64 \<Rightarrow> u64 \<Rightarrow> u64 \<Rightarrow> vfs \<Rightarrow> int \<times> vfs" where
  "vfs_import_node path type ro data inode created modified s =
     (if vfs_root_node s = 0 \<or> path = [] then (-1, s)
      else case resolve_parent True (vfs_root_node s) path s of
        (None, s) \<Rightarrow> (-1, s)
      | (Some (parent, leaf), s) \<Rightarrow>
          if \<not> valid_name leaf then (-1, s)
          else let found = find_child s parent leaf;
                   (node, s) = (if found = 0 then add_node parent leaf type ro s else (found, s))
          in if node = 0 then (-1, s)
          else if found \<noteq> 0 \<and> (case vfs_node s node of Some n \<Rightarrow> vn_type n | None \<Rightarrow> 0) \<noteq> type then (-1, s)
          else let sz = word_of_nat (length data) :: u64;
                   (ok, s) = (if type = VFS_NODE_FILE
                      then let (ok, s) = vfs_alloc (sz + 1) s in (ok, if ok then put_data node data sz s else s)
                      else (True, s))
          in if \<not> ok then (-1, s)
          else (0, import_counters inode created modified
                     (upd_node node (\<lambda>n. n\<lparr>vn_readonly := ro, vn_inode := inode, vn_created := created, vn_modified := modified\<rparr>) s)))"

text \<open>The buffer handed out and the size reported; a file without a buffer is read as the empty literal.\<close>

definition vfs_node_data :: "vfs \<Rightarrow> nat \<Rightarrow> bytes" where
  "vfs_node_data s node =
     (case vfs_node s node of None \<Rightarrow> [0] | Some n \<Rightarrow> (case vn_data n of None \<Rightarrow> [0] | Some d \<Rightarrow> d))"

definition vfs_node_size :: "vfs \<Rightarrow> nat \<Rightarrow> u64" where
  "vfs_node_size s node = (case vfs_node s node of None \<Rightarrow> 0 | Some n \<Rightarrow> vn_size n)"

definition vfs_read :: "vfs \<Rightarrow> nat \<Rightarrow> bytes \<Rightarrow> (bytes \<times> u64) option" where
  "vfs_read s cwd path =
     (let node = vfs_resolve s cwd path
      in if node = 0 \<or> \<not> is_file s node then None else Some (vfs_node_data s node, vfs_node_size s node))"

record vfs_stat_buf =
  st_inode :: u64
  st_size :: u64
  st_created :: u64
  st_modified :: u64
  st_type :: u8
  st_readonly :: u8

definition vfs_stat :: "vfs \<Rightarrow> nat \<Rightarrow> bytes \<Rightarrow> vfs_stat_buf option" where
  "vfs_stat s cwd path =
     (case vfs_node s (vfs_resolve s cwd path) of
        None \<Rightarrow> None
      | Some n \<Rightarrow> Some \<lparr>st_inode = vn_inode n, st_size = vn_size n, st_created = vn_created n, st_modified = vn_modified n,
                        st_type = vn_type n, st_readonly = vn_readonly n\<rparr>)"

definition vfs_child_at :: "vfs \<Rightarrow> nat \<Rightarrow> nat \<Rightarrow> nat" where
  "vfs_child_at s dir index =
     (case vfs_node s dir of
        None \<Rightarrow> 0
      | Some d \<Rightarrow> if vn_type d \<noteq> VFS_NODE_DIR then 0
                  else if index < length (vn_children d) then vn_children d ! index else 0)"

definition vfs_child_count :: "vfs \<Rightarrow> nat \<Rightarrow> nat" where
  "vfs_child_count s dir =
     (case vfs_node s dir of None \<Rightarrow> 0 | Some d \<Rightarrow> if vn_type d \<noteq> VFS_NODE_DIR then 0 else length (vn_children d))"

definition vfs_node_name :: "vfs \<Rightarrow> nat \<Rightarrow> bytes" where
  "vfs_node_name s node = (case vfs_node s node of None \<Rightarrow> [] | Some n \<Rightarrow> vn_name n)"

definition vfs_node_type :: "vfs \<Rightarrow> nat \<Rightarrow> u8" where
  "vfs_node_type s node = (case vfs_node s node of None \<Rightarrow> 0 | Some n \<Rightarrow> vn_type n)"

definition vfs_node_readonly :: "vfs \<Rightarrow> nat \<Rightarrow> u8" where
  "vfs_node_readonly s node = (case vfs_node s node of None \<Rightarrow> 1 | Some n \<Rightarrow> vn_readonly n)"

definition vfs_node_inode :: "vfs \<Rightarrow> nat \<Rightarrow> u64" where
  "vfs_node_inode s node = (case vfs_node s node of None \<Rightarrow> 0 | Some n \<Rightarrow> vn_inode n)"

definition vfs_node_created :: "vfs \<Rightarrow> nat \<Rightarrow> u64" where
  "vfs_node_created s node = (case vfs_node s node of None \<Rightarrow> 0 | Some n \<Rightarrow> vn_created n)"

definition vfs_node_modified :: "vfs \<Rightarrow> nat \<Rightarrow> u64" where
  "vfs_node_modified s node = (case vfs_node s node of None \<Rightarrow> 0 | Some n \<Rightarrow> vn_modified n)"

text \<open>The names from a node up to, not including, the root: at most as many as the array \<^verbatim>\<open>parts\<close> has slots.\<close>

fun cwd_parts :: "vfs \<Rightarrow> nat \<Rightarrow> nat \<Rightarrow> bytes list" where
  "cwd_parts s node 0 = []"
| "cwd_parts s node (Suc slots) =
     (if node = 0 \<or> node = vfs_root_node s then []
      else case vfs_node s node of None \<Rightarrow> [] | Some n \<Rightarrow> vn_name n # cwd_parts s (vn_parent n) slots)"

fun cwd_emit :: "nat \<Rightarrow> bytes list \<Rightarrow> bytes \<Rightarrow> bytes option" where
  "cwd_emit cap [] out = Some out"
| "cwd_emit cap (p # ps) out = (if length out + length p + 1 \<ge> cap then None else cwd_emit cap ps (out @ [slash] @ p))"

definition vfs_getcwd :: "vfs \<Rightarrow> nat \<Rightarrow> nat \<Rightarrow> bytes option" where
  "vfs_getcwd s node cap =
     (if node = 0 \<or> cap = 0 then None
      else if node = vfs_root_node s then (if cap < 2 then None else Some [slash])
      else cwd_emit cap (rev (cwd_parts s node 32)) [])"

section \<open>The tree\<close>

lemma str_eq_iff [simp]: "str_eq a b \<longleftrightarrow> a = b"
  by (induction a b rule: str_eq.induct) simp_all

lemma name_scan_iff: "name_scan cs k \<longleftrightarrow> slash \<notin> set cs \<and> (cs = [] \<or> length cs + k \<le> VFS_NAME_CAP)"
proof (induction cs arbitrary: k)
  case (Cons c cs)
  show ?case
    by (cases cs) (use Cons [of "Suc k"] in \<open>auto simp: VFS_NAME_CAP_def\<close>)
qed simp

lemma valid_name_iff:
  "valid_name name \<longleftrightarrow> name \<noteq> [] \<and> name \<noteq> dot \<and> name \<noteq> dotdot \<and> slash \<notin> set name \<and> length name \<le> 63"
  by (auto simp: valid_name_def name_scan_iff VFS_NAME_CAP_def)

definition child_names :: "vfs \<Rightarrow> vnode \<Rightarrow> bytes list" where
  "child_names s n = map (vfs_node_name s) (vn_children n)"

text \<open>A tree of directories: links agree in both directions, siblings have different valid names.\<close>

definition dir_ok :: "vfs \<Rightarrow> nat \<Rightarrow> vnode \<Rightarrow> bool" where
  "dir_ok s a n \<longleftrightarrow> distinct (vn_children n) \<and> distinct (child_names s n) \<and> (vn_children n \<noteq> [] \<longrightarrow> vn_type n = VFS_NODE_DIR)
    \<and> (\<forall>c \<in> set (vn_children n). \<exists>m. vfs_node s c = Some m \<and> vn_parent m = a \<and> a < c \<and> valid_name (vn_name m))"

definition vfs_inv :: "vfs \<Rightarrow> bool" where
  "vfs_inv s \<longleftrightarrow> vfs_node s 0 = None \<and> (\<forall>a \<in> dom (vfs_node s). a < vfs_brk s) \<and> 0 < vfs_brk s
    \<and> is_dir s (vfs_root_node s) \<and> (\<forall>r. vfs_node s (vfs_root_node s) = Some r \<longrightarrow> vn_parent r = 0)
    \<and> (\<forall>a n. vfs_node s a = Some n \<longrightarrow> dir_ok s a n)
    \<and> (\<forall>a n. vfs_node s a = Some n \<and> a \<noteq> vfs_root_node s \<longrightarrow>
         (\<exists>p. vfs_node s (vn_parent n) = Some p \<and> a \<in> set (vn_children p)))"

section \<open>Updates that keep the tree\<close>

definition tree_of :: "vfs \<Rightarrow> nat \<Rightarrow> (bytes \<times> u8 \<times> nat \<times> nat list) option" where
  "tree_of s a = map_option (\<lambda>n. (vn_name n, vn_type n, vn_parent n, vn_children n)) (vfs_node s a)"

definition same_tree :: "vfs \<Rightarrow> vfs \<Rightarrow> bool" where
  "same_tree s s' \<longleftrightarrow> tree_of s = tree_of s' \<and> vfs_brk s = vfs_brk s' \<and> vfs_root_node s = vfs_root_node s'"

lemma same_tree_refl [simp]: "same_tree s s"
  by (simp add: same_tree_def)

lemma same_tree_trans [trans]: "same_tree s t \<Longrightarrow> same_tree t u \<Longrightarrow> same_tree s u"
  by (simp add: same_tree_def)

lemma same_tree_node:
  "same_tree s s' \<Longrightarrow> vfs_node s a = Some n \<Longrightarrow>
   \<exists>m. vfs_node s' a = Some m \<and> vn_name m = vn_name n \<and> vn_type m = vn_type n \<and> vn_parent m = vn_parent n \<and> vn_children m = vn_children n"
proof -
  assume "same_tree s s'" and n: "vfs_node s a = Some n"
  then have "tree_of s' a = tree_of s a" by (simp add: same_tree_def)
  also have "\<dots> = Some (vn_name n, vn_type n, vn_parent n, vn_children n)" by (simp add: tree_of_def n)
  finally show ?thesis by (auto simp: tree_of_def)
qed

lemma same_tree_none: "same_tree s s' \<Longrightarrow> vfs_node s a = None \<longleftrightarrow> vfs_node s' a = None"
  by (auto simp: same_tree_def tree_of_def fun_eq_iff dest!: spec [of _ a])

lemma same_tree_sym: "same_tree s s' \<Longrightarrow> same_tree s' s"
  by (simp add: same_tree_def)

lemma same_tree_upd:
  "(\<And>n. vn_name (f n) = vn_name n \<and> vn_type (f n) = vn_type n \<and> vn_parent (f n) = vn_parent n \<and> vn_children (f n) = vn_children n) \<Longrightarrow>
   same_tree s (upd_node a f s)"
  by (auto simp: same_tree_def upd_node_def tree_of_def fun_eq_iff option.map_comp comp_def)

lemma same_tree_touch: "same_tree s (touch a s)"
  using same_tree_upd [of "vn_modified_update (\<lambda>_. vfs_tick s)" s a] by (simp add: touch_def same_tree_def tree_of_def fun_eq_iff)

lemma same_tree_put_data: "same_tree s (put_data a d z s)"
  unfolding put_data_def by (rule same_tree_upd) simp

lemma same_tree_fields [simp]:
  "same_tree s (t\<lparr>alloc_answers := f\<rparr>) = same_tree s t" "same_tree s (t\<lparr>sync_answers := g\<rparr>) = same_tree s t"
  "same_tree s (t\<lparr>vfs_tick := k\<rparr>) = same_tree s t" "same_tree s (t\<lparr>vfs_next_inode := k\<rparr>) = same_tree s t"
  "same_tree s (t\<lparr>vfs_hooked := h\<rparr>) = same_tree s t"
  by (simp_all add: same_tree_def tree_of_def fun_eq_iff)

lemma alloc_same: "vfs_alloc n s = (ok, s') \<Longrightarrow> same_tree s s' \<and> vfs_node s' = vfs_node s \<and> vfs_tick s' = vfs_tick s"
  by (auto simp: vfs_alloc_def split: if_splits)

lemma sync_same: "vfs_sync s = (r, s') \<Longrightarrow> same_tree s s' \<and> vfs_node s' = vfs_node s"
  by (auto simp: vfs_sync_def split: if_splits)

lemma same_tree_has_name: "same_tree s s' \<Longrightarrow> has_name s name c = has_name s' name c"
  using same_tree_node [of s s' c] same_tree_none [of s s' c]
  by (cases "vfs_node s c") (auto simp: has_name_def)

lemma same_tree_find_child: "same_tree s s' \<Longrightarrow> find_child s a name = find_child s' a name"
proof -
  assume t: "same_tree s s'"
  then have "has_name s name = has_name s' name" by (auto simp: fun_eq_iff same_tree_has_name)
  then show ?thesis using same_tree_node [OF t, of a] same_tree_none [OF t, of a]
    by (cases "vfs_node s a") (auto simp: find_child_def)
qed

lemma same_tree_kind:
  assumes "same_tree s s'"
  shows "is_dir s a = is_dir s' a" "is_file s a = is_file s' a" "parent_or_self s a = parent_or_self s' a"
    "start_node s cwd path = start_node s' cwd path" "vfs_node_name s a = vfs_node_name s' a"
  using same_tree_node [OF assms, of a] same_tree_none [OF assms, of a] assms
  by (cases "vfs_node s a"; auto simp: is_dir_def is_file_def parent_or_self_def start_node_def vfs_node_name_def same_tree_def)+

lemma same_tree_resolve_loop: "same_tree s s' \<Longrightarrow> resolve_loop s a path = resolve_loop s' a path"
proof (induction s a path rule: resolve_loop.induct)
  case (1 s node path)
  obtain part rest where c: "next_component path 64 = (part, rest)" by force
  show ?case
    using 1 same_tree_find_child [OF 1(4)] same_tree_kind(3) [OF 1(4)]
    by (subst (1 2) resolve_loop.simps) (simp add: c)
qed

lemma same_tree_resolve: "same_tree s s' \<Longrightarrow> vfs_resolve s cwd path = vfs_resolve s' cwd path"
  using same_tree_resolve_loop [of s s'] by (simp add: vfs_resolve_def same_tree_kind(4) [of s s'] Let_def)

lemma same_tree_inv:
  assumes "same_tree s s'" "vfs_inv s"
  shows "vfs_inv s'"
proof -
  note t = same_tree_sym [OF assms(1)]
  have names: "child_names s' m = child_names s n" if "vn_children m = vn_children n" for m n
    using that by (simp add: child_names_def same_tree_kind(5) [OF assms(1)])
  have d: "dir_ok s' a m" if m: "vfs_node s' a = Some m" for a m
  proof -
    obtain n where n: "vfs_node s a = Some n" "vn_type n = vn_type m" "vn_children n = vn_children m"
      using same_tree_node [OF t m] by blast
    then have "dir_ok s a n" using assms(2) by (simp add: vfs_inv_def)
    then show ?thesis using n names [of m n] same_tree_node [OF assms(1)] unfolding dir_ok_def by metis
  qed
  have p: "\<exists>q. vfs_node s' (vn_parent m) = Some q \<and> a \<in> set (vn_children q)"
    if m: "vfs_node s' a = Some m" "a \<noteq> vfs_root_node s'" for a m
  proof -
    obtain n where n: "vfs_node s a = Some n" "vn_parent n = vn_parent m" using same_tree_node [OF t m(1)] by blast
    have "a \<noteq> vfs_root_node s" using m(2) assms(1) by (simp add: same_tree_def)
    then obtain q where "vfs_node s (vn_parent n) = Some q" "a \<in> set (vn_children q)"
      using assms(2) n(1) unfolding vfs_inv_def by blast
    then show ?thesis using same_tree_node [OF assms(1)] n(2) by metis
  qed
  have r: "vn_parent m = 0" if mr: "vfs_node s' (vfs_root_node s') = Some m" for m
  proof -
    have "vfs_root_node s' = vfs_root_node s" using assms(1) by (simp add: same_tree_def)
    then obtain n where "vfs_node s (vfs_root_node s) = Some n" "vn_parent n = vn_parent m"
      using same_tree_node [OF t, of "vfs_root_node s'" m] mr by auto
    then show ?thesis using assms(2) by (auto simp: vfs_inv_def)
  qed
  have "x \<in> dom (vfs_node s') \<longleftrightarrow> x \<in> dom (vfs_node s)" for x using same_tree_none [OF assms(1), of x] by (simp add: domIff)
  then have "dom (vfs_node s') = dom (vfs_node s)" by blast
  then show ?thesis using assms d p r same_tree_none [OF assms(1), of 0] same_tree_kind(1) [OF assms(1)]
    unfolding vfs_inv_def by (simp add: same_tree_def)
qed

section \<open>Lookup and growth\<close>

lemma inv_child:
  "vfs_inv s \<Longrightarrow> vfs_node s d = Some n \<Longrightarrow> c \<in> set (vn_children n) \<Longrightarrow>
   \<exists>m. vfs_node s c = Some m \<and> vn_parent m = d \<and> d < c \<and> valid_name (vn_name m)"
  unfolding vfs_inv_def dir_ok_def by blast

lemma inv_node0 [simp]: "vfs_inv s \<Longrightarrow> vfs_node s 0 = None"
  by (simp add: vfs_inv_def)

lemma find_child_Some:
  assumes "vfs_inv s" "find_child s d name = c" "c \<noteq> 0"
  shows "\<exists>n m. vfs_node s d = Some n \<and> vn_type n = VFS_NODE_DIR \<and> c \<in> set (vn_children n) \<and> vfs_node s c = Some m
    \<and> vn_name m = name \<and> vn_parent m = d"
proof -
  obtain n where n: "vfs_node s d = Some n" "vn_type n = VFS_NODE_DIR" "find (has_name s name) (vn_children n) = Some c"
    using assms(2,3) by (auto simp: find_child_def split: option.splits if_splits)
  then have c: "c \<in> set (vn_children n)" "has_name s name c" by (auto simp: find_Some_iff)
  obtain m where "vfs_node s c = Some m" "vn_parent m = d" using inv_child [OF assms(1) n(1) c(1)] by blast
  then show ?thesis using n c by (auto simp: has_name_def)
qed

lemma find_child_eq:
  assumes "vfs_inv s" "vfs_node s d = Some n" "c \<in> set (vn_children n)" "vfs_node s c = Some m"
  shows "find_child s d (vn_name m) = c"
proof -
  have ok: "dir_ok s d n" using assms(1,2) by (simp add: vfs_inv_def)
  obtain x where x: "find (has_name s (vn_name m)) (vn_children n) = Some x"
    using assms(3,4) by (cases "find (has_name s (vn_name m)) (vn_children n)") (auto simp: find_None_iff has_name_def)
  then have mem: "x \<in> set (vn_children n)" "has_name s (vn_name m) x" by (auto simp: find_Some_iff)
  have "vfs_node_name s x = vfs_node_name s c" using mem(2) assms(4) by (auto simp: has_name_def vfs_node_name_def split: option.splits)
  moreover have "inj_on (vfs_node_name s) (set (vn_children n))"
    using ok by (simp add: dir_ok_def child_names_def distinct_map)
  ultimately have "x = c" using mem(1) assms(3) by (auto dest: inj_onD)
  moreover have "vn_type n = VFS_NODE_DIR" using ok assms(3) by (auto simp: dir_ok_def)
  ultimately show ?thesis using assms(2) x by (simp add: find_child_def)
qed

text \<open>Everything that was found is still found, and every node kept its place and kind.\<close>

definition extends :: "vfs \<Rightarrow> vfs \<Rightarrow> bool" where
  "extends s s' \<longleftrightarrow> vfs_root_node s' = vfs_root_node s
    \<and> (\<forall>a n. vfs_node s a = Some n \<longrightarrow> (\<exists>m. vfs_node s' a = Some m \<and> vn_name m = vn_name n \<and> vn_type m = vn_type n
          \<and> vn_parent m = vn_parent n))
    \<and> (\<forall>a name. find_child s a name \<noteq> 0 \<longrightarrow> find_child s' a name = find_child s a name)"

lemma extends_refl [simp]: "extends s s"
  by (simp add: extends_def)

lemma extends_trans [trans]: "extends s t \<Longrightarrow> extends t u \<Longrightarrow> extends s u"
  unfolding extends_def by metis

lemma extends_same_tree: "same_tree s s' \<Longrightarrow> extends s s'"
  unfolding extends_def
proof (intro conjI allI impI)
  assume t: "same_tree s s'"
  show "vfs_root_node s' = vfs_root_node s" using t by (simp add: same_tree_def)
  show "\<exists>m. vfs_node s' a = Some m \<and> vn_name m = vn_name n \<and> vn_type m = vn_type n \<and> vn_parent m = vn_parent n"
    if "vfs_node s a = Some n" for a n using same_tree_node [OF t that] by blast
  show "find_child s' a name = find_child s a name" for a name using same_tree_find_child [OF t] by simp
qed

lemma extends_kind:
  assumes "extends s s'" "a \<in> dom (vfs_node s)"
  shows "a \<in> dom (vfs_node s')" "is_dir s' a = is_dir s a" "is_file s' a = is_file s a" "parent_or_self s' a = parent_or_self s a"
  using assms unfolding extends_def by (fastforce simp: is_dir_def is_file_def parent_or_self_def)+

lemma find_child_dom: "vfs_inv s \<Longrightarrow> find_child s a name \<noteq> 0 \<Longrightarrow> find_child s a name \<in> dom (vfs_node s)"
  using find_child_Some [of s a name] by auto

lemma parent_dom: "vfs_inv s \<Longrightarrow> a \<in> dom (vfs_node s) \<Longrightarrow> parent_or_self s a \<in> dom (vfs_node s)"
proof (cases "a = vfs_root_node s")
  case False
  assume "vfs_inv s" "a \<in> dom (vfs_node s)"
  then obtain n p where "vfs_node s a = Some n" "vfs_node s (vn_parent n) = Some p" using False unfolding vfs_inv_def by blast
  then show ?thesis by (auto simp: parent_or_self_def)
qed (auto simp: parent_or_self_def vfs_inv_def split: option.splits)

lemma extends_resolve_loop:
  assumes "extends s s'" "vfs_inv s" "a \<in> dom (vfs_node s)" "resolve_loop s a path \<noteq> 0"
  shows "resolve_loop s' a path = resolve_loop s a path"
  using assms
proof (induction s a path rule: resolve_loop.induct)
  case (1 s node path)
  obtain part rest where c: "next_component path 64 = (part, rest)" by force
  have fc: "find_child s' node part = find_child s node part" if "find_child s node part \<noteq> 0"
    using that 1(4) by (simp add: extends_def)
  have p: "parent_or_self s' node = parent_or_self s node" using extends_kind(4) [OF 1(4,6)] .
  show ?case
    using 1(1-3) [of "(part, rest)" part rest] c 1(4,5,6,7) fc p parent_dom [OF 1(5,6)] find_child_dom [OF 1(5), of node part]
    by (subst (1 2) resolve_loop.simps) (subst (asm) (4) resolve_loop.simps, auto split: if_splits)
qed

text \<open>What a new node under \<open>p\<close> changes; \<open>s\<close> is the state its memory was taken from.\<close>

definition grown_by :: "vfs \<Rightarrow> nat \<Rightarrow> vnode \<Rightarrow> bytes \<Rightarrow> u8 \<Rightarrow> vfs \<Rightarrow> bool" where
  "grown_by s p n name type s' \<longleftrightarrow> vfs_brk s' = vfs_brk s + 1 \<and> vfs_root_node s' = vfs_root_node s
    \<and> (\<exists>c. vn_name c = name \<and> vn_type c = type \<and> vn_parent c = p \<and> vn_children c = [] \<and> vn_data c = None \<and> vn_size c = 0
        \<and> vfs_node s' = (vfs_node s)(p \<mapsto> vn_children_update (\<lambda>cs. cs @ [vfs_brk s]) n, vfs_brk s \<mapsto> c))"

lemma add_node_cases:
  assumes "add_node p name type ro s = (c, s')" "vfs_inv s" "vfs_node s p = Some n"
  shows "(c = 0 \<and> vfs_node s' = vfs_node s \<and> same_tree s s') \<or> (c = vfs_brk s \<and> c \<noteq> 0 \<and> grown_by s p n name type s')"
proof -
  obtain ok1 s1 where a1: "vfs_alloc 88 s = (ok1, s1)" by force
  obtain ok2 s2 where a2: "vfs_alloc (word_of_nat (length name) + 1) s1 = (ok2, s2)" by force
  note t = alloc_same [OF a1] alloc_same [OF a2]
  have t2: "same_tree s s2" "vfs_node s2 = vfs_node s" "vfs_brk s2 = vfs_brk s"
    using t same_tree_trans by (auto simp: same_tree_def)
  have p: "p < vfs_brk s" "vfs_brk s \<noteq> 0" using assms(2,3) by (auto simp: vfs_inv_def)
  show ?thesis
  proof (cases "ok1 \<and> ok2")
    case False
    then have "c = 0 \<and> (s' = s1 \<or> s' = s2)" using assms(1) by (cases ok1) (auto simp: add_node_def new_node_def a1 a2)
    then show ?thesis using t t2 by auto
  next
    case True
    then have "new_node name type ro s = (vfs_brk s, s2\<lparr>vfs_node := (vfs_node s)(vfs_brk s \<mapsto>
            \<lparr>vn_name = name, vn_inode = vfs_next_inode s2, vn_created = vfs_tick s2, vn_modified = vfs_tick s2, vn_size = 0,
             vn_type = type, vn_readonly = ro, vn_data = None, vn_parent = 0, vn_children = []\<rparr>),
          vfs_brk := vfs_brk s + 1, vfs_next_inode := vfs_next_inode s2 + 1, vfs_tick := vfs_tick s2 + 1\<rparr>)"
      by (simp add: new_node_def a1 a2 t2)
    then have "c = vfs_brk s \<and> grown_by s p n name type s'"
      using assms(1,3) p t2(1)
      by (auto simp: add_node_def append_child_def upd_node_def grown_by_def fun_upd_twist [of "vfs_brk s2" p] same_tree_def
          intro!: exI [of _ "\<lparr>vn_name = name, vn_inode = vfs_next_inode s2, vn_created = vfs_tick s2, vn_modified = vfs_tick s2, vn_size = 0,
             vn_type = type, vn_readonly = ro, vn_data = None, vn_parent = p, vn_children = []\<rparr>"])
    then show ?thesis using p by simp
  qed
qed

lemma grown_names:
  assumes "grown_by s p n name type s'" "vfs_inv s" "vfs_node s p = Some n"
  shows "a \<in> dom (vfs_node s) \<Longrightarrow> vfs_node_name s' a = vfs_node_name s a" "vfs_node_name s' (vfs_brk s) = name"
    "vfs_node s (vfs_brk s) = None" "p < vfs_brk s"
proof -
  show b: "vfs_node s (vfs_brk s) = None" and p: "p < vfs_brk s" using assms(2,3) by (auto simp: vfs_inv_def)
  obtain c where "vn_name c = name" "vfs_node s' = (vfs_node s)(p \<mapsto> vn_children_update (\<lambda>cs. cs @ [vfs_brk s]) n, vfs_brk s \<mapsto> c)"
    using assms(1) by (auto simp: grown_by_def)
  then show "vfs_node_name s' (vfs_brk s) = name" "a \<in> dom (vfs_node s) \<Longrightarrow> vfs_node_name s' a = vfs_node_name s a"
    using b assms(3) by (auto simp: vfs_node_name_def)
qed

lemma grown_inv:
  assumes "grown_by s p n name type s'" "vfs_inv s" "vfs_node s p = Some n" "vn_type n = VFS_NODE_DIR"
    "valid_name name" "find_child s p name = 0"
  shows "vfs_inv s'"
proof -
  obtain c where c: "vn_name c = name" "vn_type c = type" "vn_parent c = p" "vn_children c = []"
    "vfs_node s' = (vfs_node s)(p \<mapsto> vn_children_update (\<lambda>cs. cs @ [vfs_brk s]) n, vfs_brk s \<mapsto> c)"
    using assms(1) by (auto simp: grown_by_def)
  let ?b = "vfs_brk s" and ?n = "vn_children_update (\<lambda>cs. cs @ [vfs_brk s]) n"
  note g = grown_names [OF assms(1-3)]
  have node: "vfs_node s' a = (if a = ?b then Some c else if a = p then Some ?n else vfs_node s a)" for a using c(5) by simp
  have child: "\<exists>m. vfs_node s x = Some m \<and> vn_parent m = a \<and> a < x \<and> valid_name (vn_name m)"
    if "vfs_node s a = Some k" "x \<in> set (vn_children k)" for a k x using inv_child [OF assms(2) that] .
  have keep: "\<exists>m'. vfs_node s' x = Some m' \<and> vn_parent m' = vn_parent m \<and> vn_name m' = vn_name m"
    if "vfs_node s x = Some m" for x m using that g(3) assms(3) by (auto simp: node)
  have names: "map (vfs_node_name s') (vn_children k) = map (vfs_node_name s) (vn_children k)" if "vfs_node s a = Some k" for a k
    using child [OF that] g(1) by (intro map_cong refl) blast
  have dp: "dir_ok s' p ?n"
  proof -
    have ok: "dir_ok s p n" using assms(2,3) by (simp add: vfs_inv_def)
    have "name \<notin> set (child_names s n)"
    proof
      assume "name \<in> set (child_names s n)"
      then obtain x where x: "x \<in> set (vn_children n)" "name = vfs_node_name s x" by (auto simp: child_names_def)
      then obtain m where "vfs_node s x = Some m" "p < x" using child [OF assms(3)] by blast
      then show False using find_child_eq [OF assms(2,3) x(1)] x(2) assms(6) by (simp add: vfs_node_name_def)
    qed
    then have "distinct (child_names s' ?n)" 
      using ok g(2) unfolding child_names_def dir_ok_def by (simp add: names [OF assms(3)] del: map_eq_conv)
    moreover have "?b \<notin> set (vn_children n)" using child [OF assms(3)] g(3) by fastforce
    moreover have "\<exists>m. vfs_node s' x = Some m \<and> vn_parent m = p \<and> p < x \<and> valid_name (vn_name m)" if "x \<in> set (vn_children ?n)" for x
    proof (cases "x = ?b")
      case True
      then show ?thesis using c g(4) assms(5) by (simp add: node)
    next
      case False
      then obtain m where "vfs_node s x = Some m" "vn_parent m = p" "p < x" "valid_name (vn_name m)" using child [OF assms(3)] \<open>x \<in> _\<close> by auto
      then show ?thesis using keep by metis
    qed
    ultimately show ?thesis using ok assms(4) by (simp add: dir_ok_def)
  qed
  have d: "dir_ok s' a k" if "vfs_node s' a = Some k" for a k
  proof -
    consider "a = p" | "a = ?b" | "a \<noteq> p" "a \<noteq> ?b" by blast
    then show ?thesis
    proof cases
    case 1
    then show ?thesis using that dp g(4) by (simp add: node)
  next
    case 2
    then show ?thesis using that c(4) by (simp add: node dir_ok_def child_names_def)
  next
    case 3
    then have k: "vfs_node s a = Some k" using that by (simp add: node)
    then have ok: "dir_ok s a k" using assms(2) by (simp add: vfs_inv_def)
    have "\<exists>m. vfs_node s' x = Some m \<and> vn_parent m = a \<and> a < x \<and> valid_name (vn_name m)" if "x \<in> set (vn_children k)" for x
      using child [OF k that] keep by metis
    then show ?thesis using ok unfolding dir_ok_def child_names_def by (simp add: names [OF k] del: map_eq_conv)
    qed
  qed
  have par: "\<exists>q. vfs_node s' (vn_parent k) = Some q \<and> a \<in> set (vn_children q)" if kk: "vfs_node s' a = Some k" and ar: "a \<noteq> vfs_root_node s" for a k
  proof (cases "a = ?b")
    case True
    then show ?thesis using kk c(3) g(4) by (auto simp: node)
  next
    case False
    obtain k' where k': "vfs_node s a = Some k'" "vn_parent k' = vn_parent k"
    proof (cases "a = p")
      case True
      then show thesis using that(1) [of n] assms(3) \<open>vfs_node s' a = Some k\<close> False by (auto simp: node)
    next
      case F: False
      then show thesis using that(1) [of k] \<open>vfs_node s' a = Some k\<close> False by (auto simp: node)
    qed
    then obtain q where q: "vfs_node s (vn_parent k) = Some q" "a \<in> set (vn_children q)" using assms(2) ar unfolding vfs_inv_def by metis
    moreover have "vn_parent k \<noteq> ?b" using q(1) g(3) by auto
    ultimately show ?thesis using assms(3) by (auto simp: node)
  qed
  have root: "vfs_root_node s' = vfs_root_node s" "vfs_brk s' = ?b + 1" using assms(1) by (simp_all add: grown_by_def)
  have rd: "is_dir s (vfs_root_node s)" "vfs_root_node s \<noteq> ?b" using assms(2) g(3) by (auto simp: vfs_inv_def is_dir_def split: option.splits)
  have "vfs_node s' 0 = None" using inv_node0 [OF assms(2)] assms(3) g(4) by (cases "p = 0") (auto simp: node)
  moreover have "\<forall>a \<in> dom (vfs_node s'). a < vfs_brk s'"
  proof
    fix a assume "a \<in> dom (vfs_node s')"
    then have "a = ?b \<or> a \<in> dom (vfs_node s)" using assms(3) by (auto simp: node split: if_splits)
    moreover have "a < ?b" if "a \<in> dom (vfs_node s)" using assms(2) that unfolding vfs_inv_def by blast
    ultimately have "a \<le> ?b" by (auto intro: less_imp_le)
    then show "a < vfs_brk s'" using root(2) by simp
  qed
  moreover have "is_dir s' (vfs_root_node s')" using rd assms(3,4) by (auto simp: is_dir_def node root)
  moreover have "vn_parent r = 0" if "vfs_node s' (vfs_root_node s') = Some r" for r
    using that rd assms(2,3) by (auto simp: node root vfs_inv_def split: if_splits)
  ultimately show ?thesis using d par root unfolding vfs_inv_def by auto
qed

lemma grown_find_child:
  assumes "grown_by s p n name type s'" "vfs_inv s" "vfs_node s p = Some n" "vn_type n = VFS_NODE_DIR"
    "valid_name name" "find_child s p name = 0"
  shows "find_child s' p name = vfs_brk s" "extends s s'" "is_file s' (vfs_brk s) = (type = VFS_NODE_FILE)" "is_dir s' (vfs_brk s) = (type = VFS_NODE_DIR)"
proof -
  note inv = grown_inv [OF assms]
  obtain c where c: "vn_name c = name" "vn_type c = type" "vn_parent c = p"
    "vfs_node s' = (vfs_node s)(p \<mapsto> vn_children_update (\<lambda>cs. cs @ [vfs_brk s]) n, vfs_brk s \<mapsto> c)"
    using assms(1) by (auto simp: grown_by_def)
  let ?b = "vfs_brk s" and ?n = "vn_children_update (\<lambda>cs. cs @ [vfs_brk s]) n"
  note g = grown_names [OF assms(1-3)]
  have node: "vfs_node s' a = (if a = ?b then Some c else if a = p then Some ?n else vfs_node s a)" for a using c(4) by simp
  show "find_child s' p name = vfs_brk s" using find_child_eq [OF inv, of p ?n ?b c] c(1) g(4) by (simp add: node)
  show "is_file s' ?b = (type = VFS_NODE_FILE)" "is_dir s' ?b = (type = VFS_NODE_DIR)" using c(2) by (simp_all add: is_file_def is_dir_def node)
  have keep: "\<exists>m. vfs_node s' a = Some m \<and> vn_name m = vn_name k \<and> vn_type m = vn_type k \<and> vn_parent m = vn_parent k"
    if "vfs_node s a = Some k" for a k
  proof (cases "a = p")
    case True
    then show ?thesis using that g(4) assms(3) by (simp add: node)
  next
    case False
    moreover have "a \<noteq> ?b" using that g(3) by auto
    ultimately show ?thesis using that by (simp add: node)
  qed
  have "find_child s' a x = find_child s a x" if nz: "find_child s a x \<noteq> 0" for a x
  proof -
    let ?c = "find_child s a x"
    obtain k m where km: "vfs_node s a = Some k" "?c \<in> set (vn_children k)" "vfs_node s ?c = Some m" "vn_name m = x"
      using find_child_Some [OF assms(2) refl nz] by blast
    obtain k' where k': "vfs_node s' a = Some k'" "?c \<in> set (vn_children k')"
    proof (cases "a = p")
      case True
      then show ?thesis using km(1,2) g(4) assms(3) that [of ?n] by (simp add: node)
    next
      case False
      moreover have "a \<noteq> ?b" using km(1) g(3) by auto
      ultimately show ?thesis using km(1,2) that [of k] by (simp add: node)
    qed
    obtain m' where m': "vfs_node s' ?c = Some m'" "vn_name m' = x" using keep [OF km(3)] km(4) by auto
    show ?thesis using find_child_eq [OF inv k' m'(1)] m'(2) by simp
  qed
  then show "extends s s'" using assms(1) keep unfolding extends_def grown_by_def by blast
qed

section \<open>Contents\<close>

definition contents :: "vfs \<Rightarrow> nat \<Rightarrow> (bytes option \<times> u64 \<times> u8) option" where
  "contents s a = map_option (\<lambda>n. (vn_data n, vn_size n, vn_readonly n)) (vfs_node s a)"

definition buffer_ok :: "vnode \<Rightarrow> bool" where
  "buffer_ok n \<longleftrightarrow> (case vn_data n of None \<Rightarrow> vn_size n = 0 | Some b \<Rightarrow> length b = unat (vn_size n) + 1)"

definition buffers_ok :: "vfs \<Rightarrow> bool" where
  "buffers_ok s \<longleftrightarrow> (\<forall>a n. vfs_node s a = Some n \<longrightarrow> buffer_ok n)"

text \<open>A step that may add nodes but neither moves one nor changes its contents.\<close>

definition only_adds :: "vfs \<Rightarrow> vfs \<Rightarrow> bool" where
  "only_adds s s' \<longleftrightarrow> vfs_inv s' \<and> extends s s' \<and> (\<forall>a \<in> dom (vfs_node s). contents s' a = contents s a) \<and> (buffers_ok s \<longrightarrow> buffers_ok s')"

lemma only_adds_refl [simp]: "vfs_inv s \<Longrightarrow> only_adds s s"
  by (simp add: only_adds_def)

lemma only_adds_trans [trans]: "only_adds s t \<Longrightarrow> only_adds t u \<Longrightarrow> only_adds s u"
  unfolding only_adds_def using extends_trans [of s t u] extends_kind(1) [of s t] by metis

lemma buffers_same: "contents s' = contents s \<Longrightarrow> buffers_ok s' = buffers_ok s"
proof -
  have "buffers_ok s \<longleftrightarrow> (\<forall>a d z r. contents s a = Some (d, z, r) \<longrightarrow> (case d of None \<Rightarrow> z = 0 | Some b \<Rightarrow> length b = unat z + 1))" for s
    unfolding buffers_ok_def buffer_ok_def contents_def by auto
  then show "contents s' = contents s \<Longrightarrow> buffers_ok s' = buffers_ok s" by simp
qed

lemma only_adds_same: "vfs_inv s \<Longrightarrow> same_tree s s' \<Longrightarrow> contents s' = contents s \<Longrightarrow> only_adds s s'"
  using same_tree_inv [of s s'] extends_same_tree [of s s'] buffers_same [of s' s] by (simp add: only_adds_def)

lemma contents_nodes: "vfs_node s' = vfs_node s \<Longrightarrow> contents s' = contents s"
  by (simp add: contents_def fun_eq_iff)

lemma contents_touch [simp]: "contents (touch a s) = contents s"
  by (auto simp: contents_def touch_def upd_node_def option.map_comp comp_def)

lemma only_adds_touch: "vfs_inv s \<Longrightarrow> only_adds s (touch a s)"
  by (rule only_adds_same) (simp_all add: same_tree_touch)

lemma only_adds_sync: "vfs_inv s \<Longrightarrow> vfs_sync s = (r, s') \<Longrightarrow> only_adds s s'"
  using sync_same [of s r s'] contents_nodes [of s' s] by (simp add: only_adds_same)

lemma only_adds_alloc: "vfs_inv s \<Longrightarrow> vfs_alloc n s = (ok, s') \<Longrightarrow> only_adds s s'"
  using alloc_same [of n s ok s'] contents_nodes [of s' s] by (simp add: only_adds_same)

lemma grown_contents:
  assumes "grown_by s p n name type s'" "vfs_inv s" "vfs_node s p = Some n"
  shows "\<forall>a \<in> dom (vfs_node s). contents s' a = contents s a" "contents s' (vfs_brk s) = map_option (\<lambda>c. (None, 0, vn_readonly c)) (vfs_node s' (vfs_brk s))"
    "buffers_ok s \<Longrightarrow> buffers_ok s'"
proof -
  obtain c where c: "vn_data c = None" "vn_size c = 0"
    and ns: "vfs_node s' = (vfs_node s)(p \<mapsto> vn_children_update (\<lambda>cs. cs @ [vfs_brk s]) n, vfs_brk s \<mapsto> c)"
    using assms(1) by (auto simp: grown_by_def)
  have b: "vfs_node s (vfs_brk s) = None" by (rule grown_names(3) [OF assms])
  have node: "vfs_node s' a = (if a = vfs_brk s then Some c else if a = p then Some (vn_children_update (\<lambda>cs. cs @ [vfs_brk s]) n) else vfs_node s a)" for a
    using ns by simp
  show "\<forall>a \<in> dom (vfs_node s). contents s' a = contents s a" using b assms(3) by (auto simp: contents_def node)
  show "contents s' (vfs_brk s) = map_option (\<lambda>c. (None, 0, vn_readonly c)) (vfs_node s' (vfs_brk s))" using c by (simp add: contents_def node)
  assume "buffers_ok s"
  then have "buffer_ok n" using assms(3) by (simp add: buffers_ok_def)
  then have "buffer_ok (vn_children_update (\<lambda>cs. cs @ [vfs_brk s]) n)" by (cases "vn_data n") (simp_all add: buffer_ok_def)
  then show "buffers_ok s'" using \<open>buffers_ok s\<close> c by (auto simp: buffers_ok_def node buffer_ok_def)
qed

lemma add_node_spec:
  assumes "add_node p name type ro s = (c, s')" "vfs_inv s" "is_dir s p" "valid_name name" "find_child s p name = 0"
  shows "only_adds s s'"
    "c \<noteq> 0 \<Longrightarrow> find_child s' p name = c \<and> c \<notin> dom (vfs_node s) \<and> is_file s' c = (type = VFS_NODE_FILE) \<and> is_dir s' c = (type = VFS_NODE_DIR)
       \<and> (\<exists>r. contents s' c = Some (None, 0, r))"
proof -
  obtain n where n: "vfs_node s p = Some n" "vn_type n = VFS_NODE_DIR" using assms(3) by (auto simp: is_dir_def split: option.splits)
  have "only_adds s s' \<and> (c \<noteq> 0 \<longrightarrow> find_child s' p name = c \<and> c \<notin> dom (vfs_node s) \<and> is_file s' c = (type = VFS_NODE_FILE) \<and> is_dir s' c = (type = VFS_NODE_DIR)
      \<and> (\<exists>r. contents s' c = Some (None, 0, r)))"
    using add_node_cases [OF assms(1,2) n(1)]
  proof
    assume "c = 0 \<and> vfs_node s' = vfs_node s \<and> same_tree s s'"
    then show ?thesis using only_adds_same [OF assms(2), of s'] contents_nodes [of s' s] by simp
  next
    assume "c = vfs_brk s \<and> c \<noteq> 0 \<and> grown_by s p n name type s'"
    then have g: "c = vfs_brk s" "grown_by s p n name type s'" by simp_all
    note G = grown_find_child [OF g(2) assms(2) n assms(4,5)] grown_contents [OF g(2) assms(2) n(1)]
    have "only_adds s s'" using G grown_inv [OF g(2) assms(2) n assms(4,5)] by (simp add: only_adds_def)
    moreover have "c \<in> dom (vfs_node s')" using g by (auto simp: grown_by_def)
    ultimately show ?thesis using G g grown_names(3) [OF g(2) assms(2) n(1)] by auto
  qed
  then show "only_adds s s'"
    "c \<noteq> 0 \<Longrightarrow> find_child s' p name = c \<and> c \<notin> dom (vfs_node s) \<and> is_file s' c = (type = VFS_NODE_FILE) \<and> is_dir s' c = (type = VFS_NODE_DIR)
       \<and> (\<exists>r. contents s' c = Some (None, 0, r))" by blast+
qed

section \<open>The parent of a path\<close>

lemma parent_is_dir:
  assumes "vfs_inv s" "is_dir s a"
  shows "is_dir s (parent_or_self s a)"
proof (cases "a = vfs_root_node s")
  case True
  then show ?thesis using assms by (auto simp: parent_or_self_def vfs_inv_def split: option.splits)
next
  case False
  obtain n where n: "vfs_node s a = Some n" using assms(2) by (auto simp: is_dir_def split: option.splits)
  then obtain p where p: "vfs_node s (vn_parent n) = Some p" "a \<in> set (vn_children p)" using False assms(1) unfolding vfs_inv_def by blast
  then have "dir_ok s (vn_parent n) p" using assms(1) by (simp add: vfs_inv_def)
  then have "vn_type p = VFS_NODE_DIR" using p(2) by (auto simp: dir_ok_def)
  then show ?thesis using n p assms(2) by (auto simp: parent_or_self_def is_dir_def)
qed

lemma enter_dir_spec:
  assumes "enter_dir cd node part s = (c, s')" "vfs_inv s" "is_dir s node" "valid_name part"
  shows "only_adds s s' \<and> (c \<noteq> 0 \<longrightarrow> is_dir s' c \<and> find_child s' node part = c) \<and> (\<not> cd \<longrightarrow> s' = s)"
proof (cases "find_child s node part = 0 \<and> cd")
  case True
  obtain x t where x: "add_node node part VFS_NODE_DIR 0 s = (x, t)" by force
  have "enter_dir cd node part s = (if x = 0 \<or> \<not> is_dir t x then (0, t) else (x, t))"
    using x True by (auto simp: enter_dir_def add_node_def Let_def split: prod.splits if_splits)
  then show ?thesis using assms(1) add_node_spec [OF x assms(2,3,4)] True by (auto split: if_splits)
next
  case False
  then show ?thesis using assms by (auto simp: enter_dir_def Let_def split: if_splits)
qed

lemma resolve_parent_loop_spec:
  assumes "resolve_parent_loop cd node path s = (r, s')" "vfs_inv s" "is_dir s node"
  shows "only_adds s s' \<and> (\<not> cd \<longrightarrow> s' = s) \<and> (\<forall>p leaf. r = Some (p, leaf) \<longrightarrow> is_dir s' p)"
  using assms
proof (induction cd node path s arbitrary: r s' rule: resolve_parent_loop.induct)
  case (1 cd node path s)
  obtain part rest where c: "next_component path 64 = (part, rest)" by force
  note def = resolve_parent_loop.simps [of cd node path s]
  show ?case
  proof (cases "path = [] \<or> component_was_truncated path 64 \<or> skip_slash rest = []")
    case True
    then show ?thesis using 1(4,5,6) c by (auto simp: def split: if_splits)
  next
    case go: False
    consider "part = dot" | "part \<noteq> dot" "part = dotdot" | "part \<noteq> dot" "part \<noteq> dotdot" "\<not> valid_name part"
      | "part \<noteq> dot" "part \<noteq> dotdot" "valid_name part" by blast
    then show ?thesis
    proof cases
      case a: 1
      then show ?thesis using 1(1) [of "(part, rest)" part rest r s'] 1(4-6) go c by (simp add: def)
    next
      case a: 2
      then show ?thesis using 1(2) [of "(part, rest)" part rest r s'] 1(4-6) go c parent_is_dir [OF 1(5,6)] by (simp add: def)
    next
      case 3
      then show ?thesis using 1(4-6) go c by (simp add: def)
    next
      case a: 4
      obtain x t where x: "enter_dir cd node part s = (x, t)" by force
      note e = enter_dir_spec [OF x 1(5,6) a(3)]
      show ?thesis
      proof (cases "x = 0")
        case True
        then show ?thesis using 1(4) e go c a x by (auto simp: def)
      next
        case False
        then have "resolve_parent_loop cd x (skip_slash rest) t = (r, s')" using 1(4) go c a x by (simp add: def)
        moreover have "vfs_inv t" using e by (simp add: only_adds_def)
        ultimately have "only_adds t s' \<and> (\<not> cd \<longrightarrow> s' = t) \<and> (\<forall>p leaf. r = Some (p, leaf) \<longrightarrow> is_dir s' p)"
          using 1(3) [of "(part, rest)" part rest "(x, t)" x t r s'] go c a x e False by simp
        then show ?thesis using e only_adds_trans by blast
      qed
    qed
  qed
qed

lemma is_dir_dom: "is_dir s a \<Longrightarrow> a \<in> dom (vfs_node s)"
  by (auto simp: is_dir_def split: option.splits)

text \<open>What \<^verbatim>\<open>resolve_parent\<close> says of a path is what \<^verbatim>\<open>vfs_resolve\<close> finds there, also after nodes were added.\<close>

lemma resolve_via_parent:
  assumes "resolve_parent_loop cd node path s = (Some (p, leaf), t)" "\<not> cd" "vfs_inv s" "is_dir s node" "extends s s'" "valid_name leaf"
  shows "resolve_loop s' node path = find_child s' p leaf"
  using assms
proof (induction cd node path s rule: resolve_parent_loop.induct)
  case (1 cd node path s)
  obtain part rest where c: "next_component path 64 = (part, rest)" by force
  have small: "take 63 part = part" using c by (auto simp: next_component_def Let_def)
  note def = resolve_parent_loop.simps [of cd node path s] resolve_loop.simps [of s' node path]
  have go: "path \<noteq> []" "\<not> component_was_truncated path 64" using 1(4) by (auto simp: def(1) split: if_splits)
  have par: "parent_or_self s' node = parent_or_self s node" using extends_kind(4) [OF 1(8) is_dir_dom [OF 1(7)]] .
  show ?case
  proof (cases "skip_slash rest = []")
    case True
    then have "p = node" "leaf = part" using 1(4) go c small by (simp_all add: def)
    then show ?thesis using True go c 1(9) by (simp add: def resolve_loop.simps [of s' _ "[]"] valid_name_iff)
  next
    case more: False
    consider "part = dot" | "part \<noteq> dot" "part = dotdot" | "part \<noteq> dot" "part \<noteq> dotdot" "valid_name part"
      using 1(4) go c more by (auto simp: def(1) split: if_splits)
    then show ?thesis
    proof cases
      case a: 1
      then have "resolve_parent_loop cd node (skip_slash rest) s = (Some (p, leaf), t)" using 1(4) go c more by (simp add: def(1))
      then show ?thesis using "1.IH"(1) [of "(part, rest)" part rest] "1.prems" more go c a by (simp add: def(2))
    next
      case a: 2
      then have "resolve_parent_loop cd (parent_or_self s node) (skip_slash rest) s = (Some (p, leaf), t)"
        using 1(4) go c more by (simp add: def(1))
      then show ?thesis using "1.IH"(2) [of "(part, rest)" part rest] "1.prems" more go c a par parent_is_dir [of s node] by (simp add: def(2))
    next
      case a: 3
      obtain x u where x: "enter_dir cd node part s = (x, u)" by force
      have e: "u = s" "x = 0 \<or> x = find_child s node part \<and> is_dir s x" using x \<open>\<not> cd\<close> by (auto simp: enter_dir_def Let_def split: if_splits)
      have "x \<noteq> 0" using 1(4) go c more a x by (auto simp: def(1) split: if_splits)
      then have xs: "x = find_child s node part" "find_child s' node part = x" "is_dir s x" using e(2) 1(8) by (auto simp: extends_def)
      have "resolve_parent_loop cd x (skip_slash rest) s = (Some (p, leaf), t)" using 1(4) go c more a x e(1) \<open>x \<noteq> 0\<close> by (simp add: def(1))
      then show ?thesis using "1.IH"(3) [of "(part, rest)" part rest "(x, u)" x u] "1.prems" go c more a x e(1) xs \<open>x \<noteq> 0\<close> by (simp add: def(2))
    qed
  qed
qed

lemma start_is_dir: "vfs_inv s \<Longrightarrow> is_dir s cwd \<Longrightarrow> is_dir s (start_node s cwd path)"
  by (simp add: start_node_def vfs_inv_def)

lemma resolve_parent_spec:
  assumes "resolve_parent cd cwd path s = (r, s')" "vfs_inv s" "is_dir s cwd"
  shows "only_adds s s' \<and> (\<not> cd \<longrightarrow> s' = s) \<and> (\<forall>p leaf. r = Some (p, leaf) \<longrightarrow> is_dir s' p)"
  using assms resolve_parent_loop_spec [OF _ assms(2) start_is_dir [OF assms(2,3)]]
  by (auto simp: resolve_parent_def Let_def split: if_splits)

lemma start_extends: "extends s s' \<Longrightarrow> start_node s' cwd path = start_node s cwd path"
  by (simp add: start_node_def extends_def)

lemma resolve_parent_resolve:
  assumes "resolve_parent False cwd path s = (Some (p, leaf), t)" "vfs_inv s" "is_dir s cwd" "extends s s'" "valid_name leaf"
  shows "vfs_resolve s' cwd path = find_child s' p leaf"
  using assms(1) resolve_via_parent [OF _ _ assms(2) start_is_dir [OF assms(2,3)] assms(4,5)]
  by (auto simp: resolve_parent_def vfs_resolve_def start_extends [OF assms(4)] Let_def split: if_splits)

lemma extends_resolve:
  assumes "extends s s'" "vfs_inv s" "is_dir s cwd" "vfs_resolve s cwd path \<noteq> 0"
  shows "vfs_resolve s' cwd path = vfs_resolve s cwd path"
  using assms(4) extends_resolve_loop [OF assms(1,2) is_dir_dom [OF start_is_dir [OF assms(2,3)]], of path "skip_slash path"]
  by (auto simp: vfs_resolve_def start_extends [OF assms(1)] Let_def split: if_splits)

lemma extends_file_dom: "extends s s' \<Longrightarrow> is_file s a \<Longrightarrow> is_file s' a"
  unfolding extends_def is_file_def by (fastforce split: option.splits)

lemma vfs_create_spec:
  assumes "vfs_create cwd path s = (r, s')" "vfs_inv s" "is_dir s cwd"
  shows "only_adds s s'" "r = 0 \<Longrightarrow> is_file s' (vfs_resolve s' cwd path)"
    "r = 0 \<Longrightarrow> vfs_resolve s cwd path = 0 \<Longrightarrow> \<exists>ro. contents s' (vfs_resolve s' cwd path) = Some (None, 0, ro) \<and> vfs_resolve s' cwd path \<notin> dom (vfs_node s)"
proof -
  obtain q t where q: "resolve_parent False cwd path s = (q, t)" by force
  have Q: "t = s" "\<forall>p leaf. q = Some (p, leaf) \<longrightarrow> is_dir s p" using resolve_parent_spec [OF q assms(2,3)] by auto
  have "only_adds s s' \<and> (r = 0 \<longrightarrow> is_file s' (vfs_resolve s' cwd path))
    \<and> (r = 0 \<longrightarrow> vfs_resolve s cwd path = 0 \<longrightarrow> (\<exists>ro. contents s' (vfs_resolve s' cwd path) = Some (None, 0, ro) \<and> vfs_resolve s' cwd path \<notin> dom (vfs_node s)))"
  proof (cases "\<exists>p leaf. q = Some (p, leaf) \<and> valid_name leaf")
    case False
    then show ?thesis using assms q Q by (cases q) (auto simp: vfs_create_def split: if_splits)
  next
    case True
    then obtain p leaf where pl: "q = Some (p, leaf)" "valid_name leaf" by blast
    have p: "is_dir s p" using Q pl by blast
    note via = resolve_parent_resolve [OF q [unfolded pl(1)] assms(2,3) _ pl(2)]
    show ?thesis
    proof (cases "find_child s p leaf = 0")
      case False
      then show ?thesis using assms q Q pl via [of s] by (auto simp: vfs_create_def split: if_splits)
    next
      case new: True
      obtain c u where c: "add_node p leaf VFS_NODE_FILE 0 s = (c, u)" by force
      note A = add_node_spec [OF c assms(2) p pl(2) new]
      show ?thesis
      proof (cases "c = 0")
        case True
        then show ?thesis using assms(1) q Q pl new c A(1) by (simp add: vfs_create_def)
      next
        case False
        then have s': "vfs_sync (touch p u) = (r, s')" using assms(1) q Q pl new c by (simp add: vfs_create_def)
        have iu: "vfs_inv u" using A(1) by (simp add: only_adds_def)
        have same: "same_tree u s'" using sync_same [OF s'] same_tree_touch same_tree_trans by blast
        have cont: "contents s' = contents u" using sync_same [OF s'] contents_nodes [of s' "touch p u"] by simp
        have add: "only_adds s s'" using A(1) only_adds_same [OF iu same cont] only_adds_trans by blast
        have "vfs_resolve s' cwd path = c" using via [of s'] add A(2) False same_tree_find_child [OF same] by (simp add: only_adds_def)
        then show ?thesis using add A(2) False cont same_tree_kind(2) [OF same] by simp
      qed
    qed
  qed
  then show "only_adds s s'" "r = 0 \<Longrightarrow> is_file s' (vfs_resolve s' cwd path)"
    "r = 0 \<Longrightarrow> vfs_resolve s cwd path = 0 \<Longrightarrow> \<exists>ro. contents s' (vfs_resolve s' cwd path) = Some (None, 0, ro) \<and> vfs_resolve s' cwd path \<notin> dom (vfs_node s)"
    by blast+
qed

section \<open>Every operation keeps the tree\<close>

lemma vfs_mkdir_spec:
  assumes "vfs_mkdir cwd path s = (r, s')" "vfs_inv s" "is_dir s cwd"
  shows "only_adds s s'" "r = 0 \<Longrightarrow> is_dir s' (vfs_resolve s' cwd path)"
proof -
  obtain q t where q: "resolve_parent False cwd path s = (q, t)" by force
  have Q: "t = s" "\<forall>p leaf. q = Some (p, leaf) \<longrightarrow> is_dir s p" using resolve_parent_spec [OF q assms(2,3)] by auto
  have "only_adds s s' \<and> (r = 0 \<longrightarrow> is_dir s' (vfs_resolve s' cwd path))"
  proof (cases "\<exists>p leaf. q = Some (p, leaf) \<and> valid_name leaf \<and> find_child s p leaf = 0")
    case False
    then show ?thesis using assms q Q by (cases q) (auto simp: vfs_mkdir_def split: if_splits)
  next
    case True
    then obtain p leaf where pl: "q = Some (p, leaf)" "valid_name leaf" "find_child s p leaf = 0" by blast
    have p: "is_dir s p" using Q pl by blast
    obtain c u where c: "add_node p leaf VFS_NODE_DIR 0 s = (c, u)" by force
    note A = add_node_spec [OF c assms(2) p pl(2,3)]
    show ?thesis
    proof (cases "c = 0")
      case True
      then show ?thesis using assms(1) q Q pl c A(1) by (simp add: vfs_mkdir_def)
    next
      case False
      then have s': "vfs_sync (touch p u) = (r, s')" using assms(1) q Q pl c by (simp add: vfs_mkdir_def)
      have iu: "vfs_inv u" using A(1) by (simp add: only_adds_def)
      have same: "same_tree u s'" using sync_same [OF s'] same_tree_touch same_tree_trans by blast
      have cont: "contents s' = contents u" using sync_same [OF s'] contents_nodes [of s' "touch p u"] by simp
      have add: "only_adds s s'" using A(1) only_adds_same [OF iu same cont] only_adds_trans by blast
      have "vfs_resolve s' cwd path = find_child s' p leaf"
        using resolve_parent_resolve [OF q [unfolded pl(1)] assms(2,3) _ pl(2)] add by (simp add: only_adds_def)
      then have "vfs_resolve s' cwd path = c" using A(2) False same_tree_find_child [OF same] by simp
      then show ?thesis using add A(2) False same_tree_kind(1) [OF same] by simp
    qed
  qed
  then show "only_adds s s'" "r = 0 \<Longrightarrow> is_dir s' (vfs_resolve s' cwd path)" by blast+
qed

text \<open>A step may also replace the contents of the node \<open>a\<close>.\<close>

definition writes :: "nat \<Rightarrow> vfs \<Rightarrow> vfs \<Rightarrow> bool" where
  "writes a s s' \<longleftrightarrow> vfs_inv s' \<and> extends s s' \<and> (\<forall>b \<in> dom (vfs_node s). b \<noteq> a \<longrightarrow> contents s' b = contents s b)"

lemma only_adds_writes: "only_adds s t \<Longrightarrow> writes a t u \<Longrightarrow> writes a s u" "only_adds s t \<Longrightarrow> writes a s t"
  "writes a s t \<Longrightarrow> only_adds t u \<Longrightarrow> writes a s u"
  unfolding writes_def only_adds_def using extends_trans [of s t u] extends_kind(1) [of s t] by metis+

lemma writes_trans: "writes a s t \<Longrightarrow> writes a t u \<Longrightarrow> writes a s u"
  unfolding writes_def using extends_trans [of s t u] extends_kind(1) [of s t] by metis

lemma writes_upd:
  assumes "vfs_inv s" "\<And>n. vn_name (f n) = vn_name n \<and> vn_type (f n) = vn_type n \<and> vn_parent (f n) = vn_parent n \<and> vn_children (f n) = vn_children n"
  shows "writes a s (upd_node a f s)"
  using same_tree_inv [OF same_tree_upd [OF assms(2), of s a] assms(1)] extends_same_tree [OF same_tree_upd [OF assms(2), of s a]]
  by (auto simp: writes_def contents_def upd_node_def)

lemma put_data_contents:
  assumes "a \<in> dom (vfs_node s)"
  shows "\<exists>ro. contents (put_data a d z s) a = Some (Some (d @ [0]), z, ro)"
  using assms by (auto simp: contents_def put_data_def upd_node_def)

lemma put_data_buffers: "buffers_ok s \<Longrightarrow> length d = unat z \<Longrightarrow> buffers_ok (put_data a d z s)"
  by (auto simp: buffers_ok_def put_data_def upd_node_def buffer_ok_def)

text \<open>Storing a file that is there: either nothing happens, or its contents are the new buffer.\<close>

definition stored :: "nat \<Rightarrow> bytes \<Rightarrow> vfs \<Rightarrow> bool" where
  "stored a d s \<longleftrightarrow> is_file s a \<and> (\<exists>ro. contents s a = Some (Some (d @ [0]), word_of_nat (length d), ro))"

lemma store_spec:
  assumes "vfs_sync (touch a (put_data a d z t)) = (r, s')" "vfs_inv t" "a \<in> dom (vfs_node t)"
  shows "writes a t s'" "same_tree t s'" "\<exists>ro. contents s' a = Some (Some (d @ [0]), z, ro)"
    "buffers_ok t \<Longrightarrow> length d = unat z \<Longrightarrow> buffers_ok s'"
proof -
  have w: "writes a t (put_data a d z t)" unfolding put_data_def by (rule writes_upd [OF assms(2)]) simp
  have i: "vfs_inv (put_data a d z t)" using w by (simp add: writes_def)
  have cont: "contents s' = contents (put_data a d z t)" using sync_same [OF assms(1)] contents_nodes [of s' "touch a (put_data a d z t)"] by simp
  show same: "same_tree t s'" using sync_same [OF assms(1)] same_tree_put_data same_tree_touch same_tree_trans by metis
  have "same_tree (put_data a d z t) s'" using same same_tree_sym [OF same_tree_put_data] same_tree_trans by blast
  then have "only_adds (put_data a d z t) s'" using only_adds_same [OF i _ cont] by blast
  then show "writes a t s'" using only_adds_writes(3) [OF w] by blast
  show "\<exists>ro. contents s' a = Some (Some (d @ [0]), z, ro)" using put_data_contents [OF assms(3)] cont by simp
  show "buffers_ok s'" if "buffers_ok t" "length d = unat z"
    using put_data_buffers [OF that] buffers_same [OF cont] by simp
qed

lemma writable_file: "writable s a \<Longrightarrow> is_file s a \<and> a \<in> dom (vfs_node s)"
  by (auto simp: writable_def is_file_def split: option.splits)

lemma vfs_write_spec:
  assumes "vfs_write cwd path d s = (r, s')" "vfs_inv s" "is_dir s cwd" "length d < 2 ^ 64 - 1"
  shows "writes (vfs_resolve s' cwd path) s s'" "buffers_ok s \<Longrightarrow> buffers_ok s'"
    "r = 0 \<Longrightarrow> stored (vfs_resolve s' cwd path) d s'"
proof -
  let ?z = "word_of_nat (length d) :: u64"
  obtain crc node t where pre: "(if vfs_resolve s cwd path = 0
      then let (crc, u) = vfs_create cwd path s in (crc, vfs_resolve u cwd path, u) else (0, vfs_resolve s cwd path, s)) = (crc, node, t)"
    by (rule prod_cases3)
  have t: "only_adds s t \<and> (crc = 0 \<longrightarrow> node = vfs_resolve t cwd path \<and> node \<noteq> 0)"
  proof (cases "vfs_resolve s cwd path = 0")
    case True
    then obtain u where u: "vfs_create cwd path s = (crc, t)" "node = vfs_resolve t cwd path" using pre by (auto split: prod.splits)
    have "node \<noteq> 0" if "crc = 0"
    proof
      assume "node = 0"
      then have "is_file t 0" using vfs_create_spec(2) [OF u(1) assms(2,3) that] u(2) by simp
      moreover have "vfs_inv t" using vfs_create_spec(1) [OF u(1) assms(2,3)] by (simp add: only_adds_def)
      ultimately show False by (simp add: is_file_def)
    qed
    then show ?thesis using vfs_create_spec(1) [OF u(1) assms(2,3)] u(2) by blast
  next
    case False
    then show ?thesis using pre assms(2) by auto
  qed
  have it: "vfs_inv t" using t by (simp add: only_adds_def)
  have def: "vfs_write cwd path d s = (if crc \<noteq> 0 then (-1, t) else if \<not> writable t node then (-1, t)
      else let (ok, t) = vfs_alloc (?z + 1) t in if \<not> ok then (-1, t) else vfs_sync (touch node (put_data node d ?z t)))"
    unfolding vfs_write_def Let_def pre [unfolded Let_def] by simp
  obtain ok u where u: "vfs_alloc (?z + 1) t = (ok, u)" by force
  have tu: "only_adds t u" "same_tree t u" using only_adds_alloc [OF it u] alloc_same [OF u] by simp_all
  show "writes (vfs_resolve s' cwd path) s s'" "buffers_ok s \<Longrightarrow> buffers_ok s'" "r = 0 \<Longrightarrow> stored (vfs_resolve s' cwd path) d s'"
  proof -
    have "writes (vfs_resolve s' cwd path) s s' \<and> (buffers_ok s \<longrightarrow> buffers_ok s') \<and> (r = 0 \<longrightarrow> stored (vfs_resolve s' cwd path) d s')"
    proof (cases "crc = 0 \<and> writable t node \<and> ok")
      case False
      then have "(s' = t \<or> s' = u) \<and> r = -1" using assms(1) u by (auto simp: def split: if_splits)
      moreover have "only_adds s t" "only_adds s u" using t tu(1) only_adds_trans by blast+
      ultimately show ?thesis using only_adds_writes(2) by (auto simp: only_adds_def)
    next
      case True
      then have s': "vfs_sync (touch node (put_data node d ?z u)) = (r, s')" using assms(1) u by (simp add: def)
      have w: "writable u node" using True alloc_same [OF u] by (simp add: writable_def)
      have iu: "vfs_inv u" using tu(1) by (simp add: only_adds_def)
      note S = store_spec [OF s' iu conjunct2 [OF writable_file [OF w]]]
      have same: "same_tree t s'" using S(2) tu(2) same_tree_trans by blast
      have node: "node = vfs_resolve s' cwd path" using t True same_tree_resolve [OF same] by simp
      have "length d = unat ?z" using assms(4) by (simp add: unat_of_nat_small)
      moreover have "only_adds s u" using t tu(1) only_adds_trans by blast
      moreover have "is_file s' node" using writable_file [OF w] same_tree_kind(2) [OF S(2)] by simp
      ultimately show ?thesis using S(1,3,4) only_adds_writes(1) [of s u node s'] node by (auto simp: stored_def only_adds_def)
    qed
    then show "writes (vfs_resolve s' cwd path) s s'" "buffers_ok s \<Longrightarrow> buffers_ok s'" "r = 0 \<Longrightarrow> stored (vfs_resolve s' cwd path) d s'" by blast+
  qed
qed

text \<open>The bytes of a file.\<close>

definition file_bytes :: "vfs \<Rightarrow> nat \<Rightarrow> bytes" where
  "file_bytes s a = take (unat (vfs_node_size s a)) (vfs_node_data s a)"

text \<open>Writing \<open>src\<close> at an offset: the gap behind the end is filled with zeros.\<close>

definition splice :: "bytes \<Rightarrow> nat \<Rightarrow> bytes \<Rightarrow> bytes" where
  "splice old off src = take off (old @ replicate (off - length old) 0) @ src @ drop (off + length src) old"

lemma vfs_node_write_at_spec:
  assumes "vfs_inv s" "buffers_ok s" "writable s a" "length src = unat sz" "unat off + unat sz < 2 ^ 64 - 1"
  shows "\<exists>r s'. vfs_node_write_at a off (Some src) sz s = Some (r, s') \<and> writes a s s' \<and> buffers_ok s'
    \<and> (if unat off + unat sz \<le> unat (vfs_node_size s a) \<or> fst (vfs_alloc (off + sz + 1) s)
       then file_bytes s' a = splice (file_bytes s a) (unat off) src else r = -1 \<and> same_tree s s' \<and> contents s' = contents s)"
proof -
  obtain n where n: "vfs_node s a = Some n" using assms(3) by (auto simp: writable_def split: option.splits)
  have dom: "a \<in> dom (vfs_node s)" using n by blast
  have bo: "buffer_ok n" using assms(2) n by (simp add: buffers_ok_def)
  have ns: "vfs_node_size s a = vn_size n" using n by (simp add: vfs_node_size_def)
  have sum: "unat (off + sz) = unat off + unat sz" using assms(5) by (intro unat_add_small) simp
  have no_wrap: "\<not> off + sz < off" using sum by (simp add: word_less_nat_alt)
  have len: "length (file_bytes s a) = unat (vn_size n)"
    using bo n by (auto simp: file_bytes_def vfs_node_data_def vfs_node_size_def buffer_ok_def split: option.splits)
  show ?thesis
  proof (cases "off + sz \<le> vn_size n")
    case True
    then have le: "unat off + length src \<le> unat (vn_size n)" using sum assms(4) by (simp add: word_le_nat_alt)
    obtain buf where buf: "overwrite (vn_data n) (unat off) src = Some buf" "buffer_ok (n\<lparr>vn_data := buf\<rparr>)"
      "take (unat (vn_size n)) (case buf of None \<Rightarrow> [0] | Some b \<Rightarrow> b) = splice (file_bytes s a) (unat off) src"
    proof (cases "vn_data n")
      case None
      then have z: "vn_size n = 0" using bo by (simp add: buffer_ok_def)
      then have "src = []" "unat off = 0" using le by simp_all
      then show thesis using that [of None] None bo n z by (simp add: overwrite_def splice_def file_bytes_def ns buffer_ok_def)
    next
      case (Some b)
      then have b: "length b = unat (vn_size n) + 1" using bo by (simp add: buffer_ok_def)
      have f: "file_bytes s a = take (unat (vn_size n)) b" using n Some by (simp add: file_bytes_def vfs_node_data_def vfs_node_size_def)
      show thesis
      proof (cases "src = []")
        case True
        have "take (unat off) (take (unat (vn_size n)) b) @ drop (unat off) (take (unat (vn_size n)) b) = take (unat (vn_size n)) b"
          by (rule append_take_drop_id)
        then show ?thesis using that [of "Some b"] True Some bo le b f by (simp add: overwrite_def splice_def buffer_ok_def min_def)
      next
        case False
        have "take (unat (vn_size n)) (take (unat off) b @ src @ drop (unat off + length src) b) = splice (file_bytes s a) (unat off) src"
          using le add_leD1 [OF le] b by (simp add: f splice_def drop_take min_absorb1 min_absorb2)
        then show ?thesis using that [of "Some (take (unat off) b @ src @ drop (unat off + length src) b)"] False Some le b
          by (simp add: overwrite_def buffer_ok_def)
      qed
    qed
    define t where "t = upd_node a (vn_data_update (\<lambda>_. buf)) s"
    obtain r s' where s': "vfs_sync (touch a t) = (r, s')" by force
    have w: "writes a s t" unfolding t_def by (rule writes_upd [OF assms(1)]) simp
    have it: "vfs_inv t" using w by (simp add: writes_def)
    have same: "same_tree t s'" using sync_same [OF s'] same_tree_touch same_tree_trans by blast
    have cont: "contents s' = contents t" using sync_same [OF s'] contents_nodes [of s' "touch a t"] by simp
    have tn: "vfs_node t b = (if b = a then Some (n\<lparr>vn_data := buf\<rparr>) else vfs_node s b)" for b
    proof -
      have "vn_data_update (\<lambda>_. buf) n = n\<lparr>vn_data := buf\<rparr>" by simp
      then show ?thesis using n by (simp add: t_def upd_node_def)
    qed
    then have "buffers_ok t" using assms(2) buf(2) by (auto simp: buffers_ok_def)
    then have bs: "buffers_ok s'" using buffers_same [OF cont] by simp
    have "contents s' a = Some (buf, vn_size n, vn_readonly n)" using cont tn by (simp add: contents_def)
    then obtain m where m: "vfs_node s' a = Some m" "vn_data m = buf" "vn_size m = vn_size n" by (auto simp: contents_def)
    have "file_bytes s' a = splice (file_bytes s a) (unat off) src"
      using m buf(3) by (simp add: file_bytes_def vfs_node_data_def vfs_node_size_def)
    moreover have "vfs_node_write_at a off (Some src) sz s = Some (r, s')"
      using assms(3,4) n no_wrap True buf(1) s' by (simp add: vfs_node_write_at_def t_def Let_def)
    moreover have "unat off + unat sz \<le> unat (vfs_node_size s a)" using le assms(4) ns by simp
    moreover have "writes a s s'" using w only_adds_same [OF it same cont] only_adds_writes(3) by blast
    ultimately show ?thesis using bs by auto
  next
    case big: False
    then have gt: "unat (vn_size n) < unat off + length src" using sum assms(4) by (simp add: word_le_nat_alt)
    obtain ok t where t: "vfs_alloc (off + sz + 1) s = (ok, t)" by force
    note T = alloc_same [OF t] only_adds_alloc [OF assms(1) t]
    define new where "new = take (unat off) ((case vn_data n of None \<Rightarrow> replicate (unat (vn_size n)) 0 | Some b \<Rightarrow> take (unat (vn_size n)) b)
        @ replicate (unat off - unat (vn_size n)) 0) @ src"
    have def: "vfs_node_write_at a off (Some src) sz s
        = (if \<not> ok then Some (-1, t) else Some (vfs_sync (touch a (put_data a new (off + sz) t))))"
      using assms(3,4) n no_wrap big t by (simp add: vfs_node_write_at_def new_def Let_def)
    show ?thesis
    proof (cases ok)
      case False
      then show ?thesis using def t T only_adds_writes(2) [OF T(2)] contents_nodes [of t s] assms(2) big sum ns
        by (auto simp: only_adds_def word_le_nat_alt)
    next
      case True
      obtain r s' where s': "vfs_sync (touch a (put_data a new (off + sz) t)) = (r, s')" by force
      have old: "(case vn_data n of None \<Rightarrow> replicate (unat (vn_size n)) 0 | Some b \<Rightarrow> take (unat (vn_size n)) b) = file_bytes s a"
        using bo n by (auto simp: file_bytes_def vfs_node_data_def vfs_node_size_def buffer_ok_def split: option.splits)
      have sp: "new = splice (file_bytes s a) (unat off) src" using gt len by (simp add: new_def old splice_def)
      have ln: "length new = unat (off + sz)" using sum assms(4) len by (simp add: sp splice_def min_def) (use gt in linarith)
      have it: "vfs_inv t" and dt: "a \<in> dom (vfs_node t)" using T dom by (simp_all add: only_adds_def)
      note S = store_spec [OF s' it dt]
      obtain ro where "contents s' a = Some (Some (new @ [0]), off + sz, ro)" using S(3) by blast
      then obtain m where "vfs_node s' a = Some m" "vn_data m = Some (new @ [0])" "vn_size m = off + sz" by (auto simp: contents_def)
      then have "file_bytes s' a = new" using ln by (simp add: file_bytes_def vfs_node_data_def vfs_node_size_def)
      moreover have "buffers_ok s'" using S(4) T(2) assms(2) ln by (simp add: only_adds_def)
      ultimately show ?thesis using def True s' only_adds_writes(1) [OF T(2) S(1)] t sp by auto
    qed
  qed
qed

section \<open>Reachable trees\<close>

definition keeps :: "vfs \<Rightarrow> vfs \<Rightarrow> bool" where
  "keeps s s' \<longleftrightarrow> vfs_inv s' \<and> extends s s'"

lemma vfs_keeps_trans [trans]: "keeps s t \<Longrightarrow> keeps t u \<Longrightarrow> keeps s u"
  unfolding keeps_def using extends_trans by blast

lemma keeps_intros: "only_adds s t \<Longrightarrow> keeps s t" "writes a s t \<Longrightarrow> keeps s t" "vfs_inv s \<Longrightarrow> same_tree s t \<Longrightarrow> keeps s t"
  using same_tree_inv extends_same_tree by (auto simp: keeps_def only_adds_def writes_def)

lemma same_tree_put: "same_tree s (upd_node a (vn_readonly_update f) (put_data a d z s))"
  using same_tree_trans [OF same_tree_put_data same_tree_upd [of "vn_readonly_update f"]] by simp

lemma root_is_dir: "vfs_inv s \<Longrightarrow> is_dir s (vfs_root_node s)"
  by (simp add: vfs_inv_def)

text \<open>Finding the leaf of an imported path, or making it.\<close>

lemma leaf_spec:
  assumes "resolve_parent True (vfs_root_node s) path s = (Some (p, leaf), t)" "vfs_inv s" "valid_name leaf"
    "(if find_child t p leaf = 0 then add_node p leaf type ro t else (find_child t p leaf, t)) = (node, u)"
  shows "keeps s u"
proof -
  have t: "only_adds s t" "is_dir t p" using resolve_parent_spec [OF assms(1,2) root_is_dir [OF assms(2)]] by auto
  then have it: "vfs_inv t" by (simp add: only_adds_def)
  have "keeps t u"
  proof (cases "find_child t p leaf = 0")
    case True
    then show ?thesis using add_node_spec(1) [OF _ it t(2) assms(3)] assms(4) keeps_intros(1) by simp
  next
    case False
    then show ?thesis using assms(4) it by (simp add: keeps_def)
  qed
  then show ?thesis using keeps_intros(1) [OF t(1)] vfs_keeps_trans by blast
qed

lemma vfs_seed_keeps:
  assumes "vfs_seed_readonly path d s = (r, s')" "vfs_inv s"
  shows "keeps s s'"
proof -
  obtain q t where q: "resolve_parent True (vfs_root_node s) path s = (q, t)" by force
  have st: "keeps s t" using resolve_parent_spec [OF q assms(2) root_is_dir [OF assms(2)]] keeps_intros(1) by blast
  show ?thesis
  proof (cases "vfs_root_node s = 0 \<or> path = [] \<or> \<not> (\<exists>p leaf. q = Some (p, leaf) \<and> valid_name leaf)")
    case True
    then show ?thesis using assms st q by (cases q) (auto simp: vfs_seed_readonly_def keeps_def split: if_splits)
  next
    case False
    then obtain p leaf where pl: "q = Some (p, leaf)" "valid_name leaf" by blast
    obtain node u where u: "(if find_child t p leaf = 0 then add_node p leaf VFS_NODE_FILE 1 t else (find_child t p leaf, t)) = (node, u)" by force
    have su: "keeps s u" by (rule leaf_spec [OF q [unfolded pl(1)] assms(2) pl(2) u])
    then have iu: "vfs_inv u" by (simp add: keeps_def)
    let ?v = "if find_child t p leaf = 0 \<and> node \<noteq> 0 then touch p u else u"
    let ?w = "upd_node node (vn_data_update (\<lambda>_. None)) ?v"
    obtain ok w where w: "vfs_alloc (word_of_nat (length d) + 1) ?w = (ok, w)" by force
    have uv: "same_tree u ?v" using same_tree_touch by simp
    moreover have "same_tree ?v ?w" by (rule same_tree_upd) simp
    ultimately have uw: "same_tree u w" using alloc_same [OF w] same_tree_trans by blast
    have wf: "same_tree w (touch node (upd_node node (vn_readonly_update (\<lambda>_. 1)) (put_data node d (word_of_nat (length d)) w)))"
      using same_tree_trans [OF same_tree_put same_tree_touch] .
    have "s' = ?v \<or> s' = w \<or> s' = touch node (upd_node node (vn_readonly_update (\<lambda>_. 1)) (put_data node d (word_of_nat (length d)) w))"
      using assms(1) False pl q u w by (auto simp: vfs_seed_readonly_def Let_def split: if_splits prod.splits)
    then have "same_tree u s'" using uv uw wf same_tree_trans by blast
    then show ?thesis using su keeps_intros(3) [OF iu] vfs_keeps_trans by blast
  qed
qed

lemma vfs_import_keeps:
  assumes "vfs_import_node path type ro d inode created modified s = (r, s')" "vfs_inv s"
  shows "keeps s s'"
proof -
  obtain q t where q: "resolve_parent True (vfs_root_node s) path s = (q, t)" by force
  have st: "keeps s t" using resolve_parent_spec [OF q assms(2) root_is_dir [OF assms(2)]] keeps_intros(1) by blast
  show ?thesis
  proof (cases "vfs_root_node s = 0 \<or> path = [] \<or> \<not> (\<exists>p leaf. q = Some (p, leaf) \<and> valid_name leaf)")
    case True
    then show ?thesis using assms st q by (cases q) (auto simp: vfs_import_node_def keeps_def split: if_splits)
  next
    case False
    then obtain p leaf where pl: "q = Some (p, leaf)" "valid_name leaf" by blast
    obtain node u where u: "(if find_child t p leaf = 0 then add_node p leaf type ro t else (find_child t p leaf, t)) = (node, u)" by force
    have su: "keeps s u" by (rule leaf_spec [OF q [unfolded pl(1)] assms(2) pl(2) u])
    then have iu: "vfs_inv u" by (simp add: keeps_def)
    let ?z = "word_of_nat (length d) :: u64"
    obtain ok w where w: "(if type = VFS_NODE_FILE then let (ok, s) = vfs_alloc (?z + 1) u in (ok, if ok then put_data node d ?z s else s) else (True, u)) = (ok, w)"
      by force
    have uw: "same_tree u w"
    proof (cases "type = VFS_NODE_FILE")
      case True
      obtain k x where x: "vfs_alloc (?z + 1) u = (k, x)" by force
      then have "w = (if k then put_data node d ?z x else x)" using w True by (auto split: if_splits)
      then show ?thesis using alloc_same [OF x] same_tree_put_data same_tree_trans by (metis (full_types))
    qed (use w in simp)
    let ?x = "upd_node node (\<lambda>n. n\<lparr>vn_readonly := ro, vn_inode := inode, vn_created := created, vn_modified := modified\<rparr>) w"
    have "same_tree w ?x" by (rule same_tree_upd) simp
    then have ux: "same_tree u ?x" using uw same_tree_trans by blast
    have "same_tree ?x (import_counters inode created modified ?x)" by (simp add: import_counters_def Let_def)
    then have uf: "same_tree u (import_counters inode created modified ?x)" using ux same_tree_trans by blast
    have root: "\<not> (vfs_root_node s = 0 \<or> path = [])" using False by blast
    have "(r, s') = (if node = 0 then (-1, u)
        else if find_child t p leaf \<noteq> 0 \<and> (case vfs_node u node of Some n \<Rightarrow> vn_type n | None \<Rightarrow> 0) \<noteq> type then (-1, u)
        else if \<not> ok then (-1, w) else (0, import_counters inode created modified ?x))"
      unfolding assms(1) [symmetric] vfs_import_node_def if_not_P [OF root] q pl(1) prod.case option.case Let_def u w [unfolded Let_def]
      using pl(2) by simp
    then have "s' = u \<or> s' = w \<or> s' = import_counters inode created modified ?x" by (simp split: if_splits)
    then have "same_tree u s'" using uw uf by auto
    then show ?thesis using su keeps_intros(3) [OF iu] vfs_keeps_trans by blast
  qed
qed

text \<open>The state the kernel starts in, before \<^verbatim>\<open>vfs_init\<close>.\<close>

definition vfs_boot :: "(nat \<Rightarrow> bool) \<Rightarrow> (nat \<Rightarrow> int) \<Rightarrow> vfs" where
  "vfs_boot allocs syncs = \<lparr>vfs_node = Map.empty, vfs_brk = 1, vfs_root_node = 0, vfs_next_inode = 1, vfs_tick = 1,
     vfs_hooked = False, sync_answers = syncs, alloc_answers = allocs\<rparr>"

inductive vfs_step :: "vfs \<Rightarrow> vfs \<Rightarrow> bool" where
  mkdir: "is_dir s cwd \<Longrightarrow> vfs_step s (snd (vfs_mkdir cwd path s))"
| create: "is_dir s cwd \<Longrightarrow> vfs_step s (snd (vfs_create cwd path s))"
| write_file: "is_dir s cwd \<Longrightarrow> length d < 2 ^ 64 - 1 \<Longrightarrow> vfs_step s (snd (vfs_write cwd path d s))"
| write_at: "vfs_node_write_at node off d sz s = Some (r, s') \<Longrightarrow> vfs_step s s'"
| seed: "vfs_step s (snd (vfs_seed_readonly path d s))"
| import: "vfs_step s (snd (vfs_import_node path type ro d inode created modified s))"
| hook: "vfs_step s (vfs_set_sync_hook hook s)"
| sync: "vfs_step s (snd (vfs_sync s))"

inductive vfs_reachable :: "vfs \<Rightarrow> bool" where
  init: "vfs_init (vfs_boot allocs syncs) = (0, s) \<Longrightarrow> vfs_reachable s"
| step: "vfs_reachable s \<Longrightarrow> vfs_step s s' \<Longrightarrow> vfs_reachable s'"

inductive_cases vfs_stepE: "vfs_step s s'"

lemma vfs_init_inv: "vfs_init (vfs_boot allocs syncs) = (0, s) \<Longrightarrow> vfs_inv s \<and> buffers_ok s"
  by (auto simp: vfs_init_def new_node_def vfs_alloc_def vfs_boot_def Let_def vfs_inv_def is_dir_def dir_ok_def child_names_def
      buffers_ok_def buffer_ok_def split: if_splits)

lemma write_at_keeps:
  assumes "vfs_node_write_at a off d sz s = Some (r, s')" "vfs_inv s"
  shows "keeps s s'"
proof (cases "\<not> writable s a \<or> (d = None \<and> sz \<noteq> 0) \<or> off + sz < off")
  case True
  then have "s' = s" using assms(1) by (auto simp: vfs_node_write_at_def Let_def split: if_splits)
  then show ?thesis using assms(2) by (simp add: keeps_def)
next
  case False
  obtain n where n: "vfs_node s a = Some n" using False by (auto simp: writable_def split: option.splits)
  have sync: "same_tree s s'" if "same_tree s t" "vfs_sync (touch a t) = (r, s')" for t
    using that(1) sync_same [OF that(2)] same_tree_touch same_tree_trans by blast
  have "same_tree s s'"
  proof (cases "off + sz \<le> vn_size n")
    case True
    then obtain buf where "vfs_sync (touch a (upd_node a (vn_data_update (\<lambda>_. buf)) s)) = (r, s')"
      using assms(1) False n by (auto simp: vfs_node_write_at_def Let_def split: if_splits option.splits)
    then show ?thesis by (rule sync [rotated]) (rule same_tree_upd, simp)
  next
    case big: False
    obtain ok t where t: "vfs_alloc (off + sz + 1) s = (ok, t)" by force
    have "same_tree s (put_data a d' z t)" for d' z using alloc_same [OF t] same_tree_put_data same_tree_trans by blast
    moreover have "s' = t \<or> (\<exists>d' z. vfs_sync (touch a (put_data a d' z t)) = (r, s'))"
      using assms(1) False n big t by (auto simp: vfs_node_write_at_def Let_def split: if_splits)
    ultimately show ?thesis using sync alloc_same [OF t] by blast
  qed
  then show ?thesis by (rule keeps_intros(3) [OF assms(2)])
qed

lemma vfs_step_keeps: "vfs_step s s' \<Longrightarrow> vfs_inv s \<Longrightarrow> keeps s s'"
proof (induction rule: vfs_step.induct)
  case (mkdir s cwd path)
  then show ?case using vfs_mkdir_spec(1) [OF prod.collapse [symmetric]] keeps_intros(1) by blast
next
  case (create s cwd path)
  then show ?case using vfs_create_spec(1) [OF prod.collapse [symmetric]] keeps_intros(1) by blast
next
  case (write_file s cwd d path)
  then show ?case using vfs_write_spec(1) [OF prod.collapse [symmetric]] keeps_intros(2) by blast
next
  case (seed s path d)
  then show ?case using vfs_seed_keeps [OF prod.collapse [symmetric]] by blast
next
  case (import s path type ro d inode created modified)
  then show ?case using vfs_import_keeps [OF prod.collapse [symmetric]] by blast
next
  case (sync s)
  then show ?case using only_adds_sync [OF _ prod.collapse [symmetric]] keeps_intros(1) by blast
qed (auto simp: vfs_set_sync_hook_def intro: write_at_keeps keeps_intros(3))

lemma vfs_reachable_inv: "vfs_reachable s \<Longrightarrow> vfs_inv s"
  by (induction rule: vfs_reachable.induct) (auto dest: vfs_init_inv vfs_step_keeps simp: keeps_def)

section \<open>Names of directories\<close>

text \<open>The names on the way from the root down to a node.\<close>

definition node_path :: "vfs \<Rightarrow> nat \<Rightarrow> bytes list" where
  "node_path s a = rev (cwd_parts s a a)"

definition path_text :: "bytes list \<Rightarrow> bytes" where
  "path_text ps = concat (map (\<lambda>p. slash # p) ps)"

lemma inv_parent:
  assumes "vfs_inv s" "vfs_node s a = Some n" "a \<noteq> vfs_root_node s"
  shows "vn_parent n < a \<and> vn_parent n \<in> dom (vfs_node s) \<and> find_child s (vn_parent n) (vn_name n) = a \<and> valid_name (vn_name n) \<and> a \<noteq> 0"
proof -
  obtain p where p: "vfs_node s (vn_parent n) = Some p" "a \<in> set (vn_children p)" using assms unfolding vfs_inv_def by blast
  then show ?thesis using inv_child [OF assms(1) p] find_child_eq [OF assms(1) p assms(2)] assms(1,2) by auto
qed

lemma cwd_parts_take: "vfs_inv s \<Longrightarrow> a \<in> dom (vfs_node s) \<Longrightarrow> a \<le> k \<Longrightarrow> cwd_parts s a m = take m (cwd_parts s a k)"
proof (induction m arbitrary: a k)
  case (Suc m)
  obtain n where n: "vfs_node s a = Some n" using Suc.prems(2) by blast
  show ?case
  proof (cases "a = vfs_root_node s")
    case True
    then show ?thesis by (cases k) simp_all
  next
    case False
    note p = inv_parent [OF Suc.prems(1) n False]
    then obtain k' where k: "k = Suc k'" using Suc.prems(3) by (cases k) simp_all
    then have "cwd_parts s (vn_parent n) m = take m (cwd_parts s (vn_parent n) k')" using Suc p by simp
    then show ?thesis using n False p k by simp
  qed
qed simp

lemma length_cwd_parts: "length (cwd_parts s a m) \<le> m"
  by (induction m arbitrary: a) (auto split: option.split)

lemma node_path_step:
  assumes "vfs_inv s" "vfs_node s a = Some n" "a \<noteq> vfs_root_node s"
  shows "node_path s a = node_path s (vn_parent n) @ [vn_name n]"
proof -
  note p = inv_parent [OF assms]
  then obtain k where k: "a = Suc k" by (cases a) simp_all
  have "cwd_parts s (vn_parent n) k = take k (cwd_parts s (vn_parent n) (vn_parent n))"
    using cwd_parts_take [OF assms(1), of "vn_parent n" "vn_parent n" k] p by simp
  moreover have "length (cwd_parts s (vn_parent n) (vn_parent n)) \<le> k"
    using length_cwd_parts [of s "vn_parent n" "vn_parent n"] p k by linarith
  ultimately have "cwd_parts s (vn_parent n) k = cwd_parts s (vn_parent n) (vn_parent n)" by simp
  then show ?thesis using assms p k by (simp add: node_path_def)
qed

lemma node_path_root: "node_path s (vfs_root_node s) = []"
  by (cases "vfs_root_node s") (simp_all add: node_path_def)

fun walk :: "vfs \<Rightarrow> nat \<Rightarrow> bytes list \<Rightarrow> nat" where
  "walk s a [] = a"
| "walk s a (p # ps) = (if find_child s a p = 0 then 0 else walk s (find_child s a p) ps)"

lemma walk_snoc: "walk s a ps = b \<Longrightarrow> b \<noteq> 0 \<Longrightarrow> walk s a (ps @ [p]) = find_child s b p"
  by (induction ps arbitrary: a) (auto split: if_splits)

lemma next_component_text:
  assumes "valid_name p"
  shows "skip_slash (path_text (p # ps)) = p @ path_text ps" "p @ path_text ps \<noteq> []"
    "next_component (p @ path_text ps) 64 = (p, path_text ps)" "\<not> component_was_truncated (p @ path_text ps) 64"
proof -
  have p: "p \<noteq> []" "slash \<notin> set p" "length p \<le> 63" using assms by (simp_all add: valid_name_iff)
  show "skip_slash (path_text (p # ps)) = p @ path_text ps" using p(1,2) by (cases p) (auto simp: path_text_def skip_slash_def)
  show "p @ path_text ps \<noteq> []" using p(1) by simp
  have e: "skip_slash (p @ path_text ps) = p @ path_text ps" using p(1,2) by (cases p) (auto simp: skip_slash_def)
  have all: "\<And>c. c \<in> set p \<Longrightarrow> c \<noteq> slash" using p(2) by blast
  have "takeWhile (\<lambda>c. c \<noteq> slash) (path_text ps) = []" "dropWhile (\<lambda>c. c \<noteq> slash) (path_text ps) = path_text ps"
    by (cases ps; simp add: path_text_def)+
  then have "takeWhile (\<lambda>c. c \<noteq> slash) (p @ path_text ps) = p" "dropWhile (\<lambda>c. c \<noteq> slash) (p @ path_text ps) = path_text ps"
    using all by (simp_all add: takeWhile_append2 dropWhile_append2)
  then show "next_component (p @ path_text ps) 64 = (p, path_text ps)" "\<not> component_was_truncated (p @ path_text ps) 64"
    using p(3) by (simp_all add: next_component_def component_was_truncated_def e Let_def)
qed

lemma resolve_path_text:
  assumes "\<forall>p \<in> set ps. valid_name p"
  shows "resolve_loop s a (skip_slash (path_text ps)) = walk s a ps"
  using assms
proof (induction ps arbitrary: a)
  case Nil
  then show ?case by (simp add: path_text_def skip_slash_def resolve_loop.simps)
next
  case (Cons p ps)
  then have p: "valid_name p" "p \<noteq> dot" "p \<noteq> dotdot" "p \<noteq> []" by (simp_all add: valid_name_iff)
  show ?case using next_component_text [OF p(1), of ps] p Cons by (subst resolve_loop.simps) simp
qed

lemma walk_node_path:
  assumes "vfs_inv s" "a \<in> dom (vfs_node s)"
  shows "walk s (vfs_root_node s) (node_path s a) = a \<and> (\<forall>p \<in> set (node_path s a). valid_name p)"
  using assms(2)
proof (induction a rule: less_induct)
  case (less a)
  then obtain n where n: "vfs_node s a = Some n" by blast
  show ?case
  proof (cases "a = vfs_root_node s")
    case True
    then show ?thesis using node_path_root [of s] by simp
  next
    case False
    note p = inv_parent [OF assms(1) n False]
    then have "vn_parent n \<noteq> 0" using assms(1) by (metis domIff inv_node0)
    moreover have "walk s (vfs_root_node s) (node_path s (vn_parent n)) = vn_parent n \<and> (\<forall>p \<in> set (node_path s (vn_parent n)). valid_name p)"
      using less(1) p by blast
    ultimately show ?thesis using p walk_snoc [of s "vfs_root_node s" "node_path s (vn_parent n)" "vn_parent n" "vn_name n"]
      by (simp add: node_path_step [OF assms(1) n False])
  qed
qed

lemma cwd_emit_eq: "cwd_emit cap ps out = (if ps = [] \<or> length (out @ path_text ps) < cap then Some (out @ path_text ps) else None)"
proof (induction ps arbitrary: out)
  case (Cons p ps)
  show ?case
  proof (cases "length out + length p + 1 \<ge> cap")
    case True
    then show ?thesis by (simp add: path_text_def)
  next
    case False
    then show ?thesis using Cons [of "out @ [slash] @ p"] by (cases "ps = []") (simp_all add: path_text_def)
  qed
qed (simp add: path_text_def)

lemma getcwd_eq:
  assumes "vfs_inv s" "a \<in> dom (vfs_node s)" "a \<noteq> vfs_root_node s"
  shows "vfs_getcwd s a cap = (let ps = drop (length (node_path s a) - 32) (node_path s a)
    in if length (path_text ps) < cap then Some (path_text ps) else None)"
proof -
  obtain n where n: "vfs_node s a = Some n" using assms(2) by blast
  have ne: "node_path s a \<noteq> []" using node_path_step [OF assms(1) n assms(3)] by simp
  have "cwd_parts s a 32 = take 32 (cwd_parts s a a)" by (rule cwd_parts_take [OF assms(1,2) order_refl])
  then have r: "rev (cwd_parts s a 32) = drop (length (node_path s a) - 32) (node_path s a)" by (simp add: node_path_def take_rev [symmetric] rev_take)
  have "a \<noteq> 0" using n inv_node0 [OF assms(1)] by (metis option.distinct(1))
  moreover have "0 < length (node_path s a)" using ne by simp
  then have "length (node_path s a) - 32 < length (node_path s a)" by linarith
  then have "drop (length (node_path s a) - 32) (node_path s a) \<noteq> []" by simp
  ultimately show ?thesis using assms(3) unfolding vfs_getcwd_def r cwd_emit_eq Let_def by simp
qed

section \<open>Properties\<close>

definition demo_vfs :: vfs where
  "demo_vfs = snd (vfs_mkdir 1 [47, 100] (snd (vfs_init (vfs_boot (\<lambda>i. i < 4) (\<lambda>_. 0)))))"

lemma demo_vfs_facts: "vfs_reachable demo_vfs" "is_dir demo_vfs 1" "vfs_root_node demo_vfs = 1"
proof -
  let ?b = "snd (vfs_init (vfs_boot (\<lambda>i. i < 4) (\<lambda>_. 0)))"
  have e: "fst (vfs_init (vfs_boot (\<lambda>i. i < 4) (\<lambda>_. 0))) = 0" "is_dir ?b 1" by code_simp+
  then have "vfs_init (vfs_boot (\<lambda>i. i < 4) (\<lambda>_. 0)) = (0, ?b)" by (simp add: prod_eq_iff)
  then have "vfs_reachable ?b" by (rule vfs_reachable.init)
  then show "vfs_reachable demo_vfs" unfolding demo_vfs_def by (rule vfs_reachable.step) (rule vfs_step.mkdir [OF e(2)])
  show "is_dir demo_vfs 1" "vfs_root_node demo_vfs = 1" by code_simp+
qed

text \<open>
  C24. Whatever sequence of operations ran since \<^verbatim>\<open>vfs_init\<close>, with whatever failures of the allocator and of
  the sync hook, the nodes form a tree: links agree in both directions, siblings have different valid
  names, and only directories have children. A further step never loses a node: every node keeps its kind,
  its name and its parent, the root stays the root, and each path that led somewhere leads to the same node
  afterwards.
\<close>
theorem vfs_tree_invariant:
  assumes "vfs_reachable s"
  shows "vfs_inv s \<and> (\<forall>s'. vfs_step s s' \<longrightarrow> vfs_root_node s' = vfs_root_node s
     \<and> (\<forall>a n. vfs_node s a = Some n \<longrightarrow>
          (\<exists>m. vfs_node s' a = Some m \<and> vn_type m = vn_type n \<and> vn_name m = vn_name n \<and> vn_parent m = vn_parent n))
     \<and> (\<forall>cwd path. is_dir s cwd \<longrightarrow> vfs_resolve s cwd path \<noteq> 0 \<longrightarrow> vfs_resolve s' cwd path = vfs_resolve s cwd path))"
proof (intro conjI allI impI)
  show inv: "vfs_inv s" by (rule vfs_reachable_inv [OF assms])
  fix s' assume st: "vfs_step s s'"
  have k: "vfs_inv s'" "extends s s'" using vfs_step_keeps [OF st inv] by (simp_all add: keeps_def)
  show "vfs_root_node s' = vfs_root_node s" using k(2) by (simp add: extends_def)
  show "\<exists>m. vfs_node s' a = Some m \<and> vn_type m = vn_type n \<and> vn_name m = vn_name n \<and> vn_parent m = vn_parent n"
    if "vfs_node s a = Some n" for a n
    using k(2) that unfolding extends_def by metis
  show "vfs_resolve s' cwd path = vfs_resolve s cwd path" if "is_dir s cwd" "vfs_resolve s cwd path \<noteq> 0" for cwd path
    using extends_resolve k inv that by blast
qed

theorem vfs_tree_invariant_witness:
  "vfs_inv demo_vfs \<and> vfs_resolve demo_vfs 1 [47, 100] = 2
   \<and> vfs_resolve (snd (vfs_create 1 [47, 100, 47, 97] demo_vfs)) 1 [47, 100] = 2"
proof -
  have r: "vfs_resolve demo_vfs 1 [47, 100] = 2" by code_simp
  note T = vfs_tree_invariant [OF demo_vfs_facts(1)]
  moreover have "vfs_step demo_vfs (snd (vfs_create 1 [47, 100, 47, 97] demo_vfs))" by (rule vfs_step.create [OF demo_vfs_facts(2)])
  ultimately show ?thesis using r demo_vfs_facts(2) by fastforce
qed

text \<open>
  C25. Writing a file and reading it back: when \<^verbatim>\<open>vfs_write\<close> answers 0, \<^verbatim>\<open>vfs_read\<close> of the same path gives the
  bytes written with a NUL behind them and their number, also when the write had to create the file. A new
  directory or file is found at its path. No other node's contents, size or permission changes, whether
  the call succeeds or fails.
\<close>
theorem vfs_write_read:
  assumes "vfs_inv s" "is_dir s cwd" "length d < 2 ^ 64 - 1" "vfs_write cwd path d s = (r, s')"
    "vfs_create cwd path s = (rc, sc)" "vfs_mkdir cwd path s = (rm, sm)"
  shows "(r = 0 \<longrightarrow> vfs_read s' cwd path = Some (d @ [0], word_of_nat (length d)))
    \<and> (\<forall>a \<in> dom (vfs_node s). a \<noteq> vfs_resolve s' cwd path \<longrightarrow> contents s' a = contents s a)
    \<and> (rc = 0 \<longrightarrow> is_file sc (vfs_resolve sc cwd path)) \<and> (rm = 0 \<longrightarrow> is_dir sm (vfs_resolve sm cwd path))
    \<and> (\<forall>a \<in> dom (vfs_node s). contents sc a = contents s a \<and> contents sm a = contents s a)"
proof (intro conjI impI)
  note W = vfs_write_spec [OF assms(4,1,2,3)]
  show "\<forall>a \<in> dom (vfs_node s). a \<noteq> vfs_resolve s' cwd path \<longrightarrow> contents s' a = contents s a" using W(1) by (simp add: writes_def)
  show "vfs_read s' cwd path = Some (d @ [0], word_of_nat (length d))" if r0: "r = 0"
  proof -
    let ?a = "vfs_resolve s' cwd path"
    obtain m where m: "vfs_node s' ?a = Some m" "vn_data m = Some (d @ [0])" "vn_size m = word_of_nat (length d)" "is_file s' ?a"
      using W(3) [OF r0] by (auto simp: stored_def contents_def)
    moreover have "vfs_inv s'" using W(1) by (simp add: writes_def)
    then have "?a \<noteq> 0" using m(1) by (metis inv_node0 option.distinct(1))
    ultimately show ?thesis by (simp add: vfs_read_def vfs_node_data_def vfs_node_size_def)
  qed
  show "is_file sc (vfs_resolve sc cwd path)" if "rc = 0" by (rule vfs_create_spec(2) [OF assms(5,1,2) that])
  show "is_dir sm (vfs_resolve sm cwd path)" if "rm = 0" by (rule vfs_mkdir_spec(2) [OF assms(6,1,2) that])
  show "\<forall>a \<in> dom (vfs_node s). contents sc a = contents s a \<and> contents sm a = contents s a"
    using vfs_create_spec(1) [OF assms(5,1,2)] vfs_mkdir_spec(1) [OF assms(6,1,2)] by (simp add: only_adds_def)
qed

theorem vfs_write_read_witness:
  "\<exists>s'. vfs_write 1 [97] [104, 105] (vfs_boot (\<lambda>i. True) (\<lambda>_. 0)\<lparr>vfs_node := [1 \<mapsto> \<lparr>vn_name = [], vn_inode = 1, vn_created = 1,
      vn_modified = 1, vn_size = 0, vn_type = 2, vn_readonly = 0, vn_data = None, vn_parent = 0, vn_children = []\<rparr>], vfs_brk := 2, vfs_root_node := 1\<rparr>)
    = (0, s') \<and> vfs_read s' 1 [97] = Some ([104, 105, 0], 2)"
proof -
  let ?s = "vfs_boot (\<lambda>i. True) (\<lambda>_. 0)\<lparr>vfs_node := [1 \<mapsto> \<lparr>vn_name = [], vn_inode = 1, vn_created = 1,
      vn_modified = 1, vn_size = 0, vn_type = 2, vn_readonly = 0, vn_data = None, vn_parent = 0, vn_children = []\<rparr>], vfs_brk := 2, vfs_root_node := 1\<rparr>"
  obtain s' where s': "vfs_write 1 [97] [104, 105] ?s = (0, s')"
  proof -
    have "fst (vfs_write 1 [97] [104, 105] ?s) = 0" by code_simp
    then show thesis using that [of "snd (vfs_write 1 [97] [104, 105] ?s)"] by (simp add: prod_eq_iff)
  qed
  have i: "vfs_inv ?s" "is_dir ?s 1" by (auto simp: vfs_inv_def is_dir_def dir_ok_def child_names_def VFS_NODE_DIR_def)
  have "vfs_read s' 1 [97] = Some ([104, 105] @ [0], word_of_nat (length [104, 105 :: u8]))"
    using vfs_write_read [OF i _ s' prod.collapse [symmetric] prod.collapse [symmetric]] by simp
  then show ?thesis using s' by simp
qed

definition demo_file :: vfs where
  "demo_file = snd (vfs_write 1 [97] [104] (snd (vfs_init (vfs_boot (\<lambda>i. i < 5) (\<lambda>_. 0)))))"

lemma demo_file_facts: "vfs_reachable demo_file" "buffers_ok demo_file" "writable demo_file 2" "file_bytes demo_file 2 = [104]"
proof -
  let ?b = "snd (vfs_init (vfs_boot (\<lambda>i. i < 5) (\<lambda>_. 0)))"
  have e: "fst (vfs_init (vfs_boot (\<lambda>i. i < 5) (\<lambda>_. 0))) = 0" "is_dir ?b 1" by code_simp+
  then have i: "vfs_init (vfs_boot (\<lambda>i. i < 5) (\<lambda>_. 0)) = (0, ?b)" by (simp add: prod_eq_iff)
  then have "vfs_reachable ?b" by (rule vfs_reachable.init)
  then show "vfs_reachable demo_file" unfolding demo_file_def by (rule vfs_reachable.step) (rule vfs_step.write_file [OF e(2)], simp)
  show "buffers_ok demo_file" unfolding demo_file_def
    by (rule vfs_write_spec(2) [OF prod.collapse [symmetric] _ e(2)]) (use vfs_init_inv [OF i] in simp_all)
  show "writable demo_file 2" "file_bytes demo_file 2 = [104]" by code_simp+
qed

text \<open>
  C26. While every buffer has its size, writing at an offset never leaves a buffer: the file becomes the old
  bytes with \<open>src\<close> put over them at the offset (and zeros in a gap), nothing else changes; when the file has
  to grow and there is no memory, nothing changes at all. After \<^verbatim>\<open>vfs_seed_readonly\<close> failed to get its
  memory that is no longer true: the old buffer is gone but the old size stays, and the next write
  goes through a NULL pointer.
\<close>
theorem vfs_node_write_at_correct:
  assumes "vfs_inv s" "buffers_ok s" "writable s a" "length src = unat sz" "unat off + unat sz < 2 ^ 64 - 1"
  shows "(\<exists>r s'. vfs_node_write_at a off (Some src) sz s = Some (r, s') \<and> writes a s s' \<and> buffers_ok s'
    \<and> (if unat off + unat sz \<le> unat (vfs_node_size s a) \<or> fst (vfs_alloc (off + sz + 1) s)
       then file_bytes s' a = splice (file_bytes s a) (unat off) src else r = -1 \<and> same_tree s s' \<and> contents s' = contents s))
    \<and> vfs_reachable demo_file \<and> vfs_node_write_at 2 0 (Some [1]) 1 (snd (vfs_seed_readonly [97] [7] demo_file)) = None"
proof (rule conjI)
  show "\<exists>r s'. vfs_node_write_at a off (Some src) sz s = Some (r, s') \<and> writes a s s' \<and> buffers_ok s'
    \<and> (if unat off + unat sz \<le> unat (vfs_node_size s a) \<or> fst (vfs_alloc (off + sz + 1) s)
       then file_bytes s' a = splice (file_bytes s a) (unat off) src else r = -1 \<and> same_tree s s' \<and> contents s' = contents s)"
    by (rule vfs_node_write_at_spec [OF assms])
  have "(case vfs_node_write_at 2 0 (Some [1]) 1 (snd (vfs_seed_readonly [97] [7] demo_file)) of None \<Rightarrow> True | Some _ \<Rightarrow> False)" by code_simp
  then show "vfs_reachable demo_file \<and> vfs_node_write_at 2 0 (Some [1]) 1 (snd (vfs_seed_readonly [97] [7] demo_file)) = None"
    using demo_file_facts(1) by (simp split: option.splits)
qed

theorem vfs_node_write_at_correct_witness:
  "\<exists>r s'. vfs_node_write_at 2 0 (Some [1]) 1 demo_file = Some (r, s') \<and> file_bytes s' 2 = [1]"
proof -
  have sz: "vfs_node_size demo_file 2 = 1" by code_simp
  from vfs_node_write_at_correct [OF vfs_reachable_inv [OF demo_file_facts(1)] demo_file_facts(2,3), of "[1]" 1 0]
  show ?thesis using sz demo_file_facts(4) by (auto simp: splice_def)
qed

text \<open>A chain of names from the root is the path of the node it leads to.\<close>

lemma walk_path:
  assumes inv: "vfs_inv s" and w: "walk s (vfs_root_node s) ps = a" "a \<noteq> 0"
  shows "node_path s a = ps"
  using w
proof (induction ps arbitrary: a rule: rev_induct)
  case Nil
  then show ?case using node_path_root [of s] by simp
next
  case (snoc p ps)
  let ?b = "walk s (vfs_root_node s) ps"
  have step: "walk s d (xs @ [p]) = (if walk s d xs = 0 then 0 else find_child s (walk s d xs) p)" if "d \<noteq> 0" for d xs
    using that by (induction xs arbitrary: d) simp_all
  have r: "vfs_root_node s \<noteq> 0" using is_dir_dom [OF root_is_dir [OF inv]] inv_node0 [OF inv] by (metis domIff)
  have b: "?b \<noteq> 0" "find_child s ?b p = a" using snoc.prems step [OF r, of ps] by (auto split: if_splits)
  obtain m where m: "vfs_node s a = Some m" "vn_name m = p" "vn_parent m = ?b"
    using find_child_Some [OF inv b(2) snoc.prems(2)] by blast
  have "a \<noteq> vfs_root_node s" using m b(1) inv by (auto simp: vfs_inv_def)
  then show ?case using node_path_step [OF inv m(1)] m snoc.IH [OF refl b(1)] by simp
qed

text \<open>
  \<^verbatim>\<open>vfs_getcwd\<close> answers for every node: it fails exactly if the buffer has no room for the text and its
  NUL. For a directory at most 32 levels deep the text is an absolute path that \<^verbatim>\<open>vfs_resolve\<close> leads back
  to it from anywhere. For a deeper one the answer is made of the last 32 names only, without an error, and it is never
  a path to the directory: it leads to something else or to nothing.
\<close>
theorem vfs_getcwd_roundtrip:
  assumes "vfs_inv s" "a \<in> dom (vfs_node s)"
    "p = (if a = vfs_root_node s then [slash] else path_text (drop (length (node_path s a) - 32) (node_path s a)))"
  shows "vfs_getcwd s a cap = (if length p < cap then Some p else None)
    \<and> (vfs_resolve s cwd p = a \<longleftrightarrow> length (node_path s a) \<le> 32)"
proof (cases "a = vfs_root_node s")
  case True
  moreover have "a \<noteq> 0" using assms(1,2) by (metis domIff inv_node0)
  moreover have "node_path s a = []" unfolding True by (rule node_path_root)
  ultimately show ?thesis using assms(3)
    by (auto simp: vfs_getcwd_def vfs_resolve_def start_node_def skip_slash_def resolve_loop.simps)
next
  case False
  let ?ps = "drop (length (node_path s a) - 32) (node_path s a)"
  have p: "p = path_text ?ps" using assms(3) False by simp
  have g: "vfs_getcwd s a cap = (if length p < cap then Some p else None)"
    using getcwd_eq [OF assms(1,2) False, of cap] by (simp add: p Let_def)
  have w: "walk s (vfs_root_node s) (node_path s a) = a" "\<forall>q \<in> set (node_path s a). valid_name q"
    using walk_node_path [OF assms(1,2)] by simp_all
  have ne: "node_path s a \<noteq> []" using w(1) False by auto
  then have "length (node_path s a) - 32 < length (node_path s a)" by simp
  then have "?ps \<noteq> []" by simp
  then obtain q qs where "?ps = q # qs" by (cases ?ps) auto
  then have hd: "p \<noteq> []" "hd p = slash" by (simp_all add: p path_text_def)
  have "\<forall>q \<in> set ?ps. valid_name q" using w(2) in_set_dropD by metis
  moreover have "vfs_root_node s \<noteq> 0" using is_dir_dom [OF root_is_dir [OF assms(1)]] inv_node0 [OF assms(1)] by (metis domIff)
  ultimately have r: "vfs_resolve s cwd p = walk s (vfs_root_node s) ?ps"
    using resolve_path_text [of ?ps s "vfs_root_node s"] hd by (simp add: vfs_resolve_def start_node_def p)
  have "a \<noteq> 0" using assms(1,2) by (metis domIff inv_node0)
  have "walk s (vfs_root_node s) ?ps \<noteq> a" if "32 < length (node_path s a)"
  proof
    assume "walk s (vfs_root_node s) ?ps = a"
    then have "node_path s a = ?ps" using walk_path [OF assms(1)] \<open>a \<noteq> 0\<close> by blast
    then have "length (node_path s a) = length ?ps" by (rule arg_cong)
    then show False using that by simp
  qed
  then show ?thesis using g r w(1) by (cases "length (node_path s a) \<le> 32") simp_all
qed

theorem vfs_getcwd_roundtrip_witness:
  "vfs_getcwd demo_vfs 2 10 = Some [47, 100] \<and> vfs_resolve demo_vfs 2 [47, 100] = 2"
proof -
  have n: "vfs_node_name demo_vfs 2 = [100]" "node_path demo_vfs 2 = [[100]]" "path_text [[100]] = [47, 100]" by code_simp+
  then have "2 \<in> dom (vfs_node demo_vfs)" by (auto simp: vfs_node_name_def split: option.splits)
  from vfs_getcwd_roundtrip [OF vfs_reachable_inv [OF demo_vfs_facts(1)] this refl, of 10 2]
  show ?thesis using n demo_vfs_facts(3) by simp
qed

end
