(* ===== verification/Fd.thy ===== *)
theory Fd
  imports Vfs
begin

text \<open>
  File descriptors, \<^verbatim>\<open>kernel/fs/fd.c\<close>, and the file calls of the Linux personality in
  \<^verbatim>\<open>kernel/syscall/syscall.c\<close>. The fields of a process that hold its descriptors are a record; the answers of
  the gate of \<^verbatim>\<open>uaccess.h\<close> for ranges of user memory and the bytes there are parameters of the calls, and
  the bytes a call stores in user memory are part of its result.
\<close>

section \<open>The table\<close>

record fd_table =
  fds_inited :: bool
  fd_nodes :: "nat list"
  fd_off :: "u64 list"
  fd_flags :: "u64 list"
  fd_used :: "bool list"
  fd_cwd :: nat
  linux_brk_pos :: u64

definition FD_TABLE_SIZE :: nat where "FD_TABLE_SIZE = 64"
definition FD_O_RDONLY :: u64 where "FD_O_RDONLY = 0"
definition FD_O_WRONLY :: u64 where "FD_O_WRONLY = 1"
definition FD_O_ACCMODE :: u64 where "FD_O_ACCMODE = 3"
definition FD_O_CREAT :: u64 where "FD_O_CREAT = 64"
definition FD_O_TRUNC :: u64 where "FD_O_TRUNC = 512"
definition FD_O_APPEND :: u64 where "FD_O_APPEND = 1024"

definition U_ENOENT :: int where "U_ENOENT = 2"
definition U_EBADF :: int where "U_EBADF = 9"
definition U_EACCES :: int where "U_EACCES = 13"
definition U_EFAULT :: int where "U_EFAULT = 14"
definition U_EINVAL :: int where "U_EINVAL = 22"

definition fd_clear_all :: "fd_table \<Rightarrow> fd_table" where
  "fd_clear_all p = p\<lparr>fd_nodes := replicate FD_TABLE_SIZE 0, fd_off := replicate FD_TABLE_SIZE 0,
     fd_flags := replicate FD_TABLE_SIZE 0, fd_used := replicate FD_TABLE_SIZE False\<rparr>"

definition fd_table_ensure :: "fd_table \<Rightarrow> fd_table" where
  "fd_table_ensure p = (if fds_inited p then p else (fd_clear_all p)\<lparr>fds_inited := True\<rparr>)"

definition free_fd :: "fd_table \<Rightarrow> nat option" where
  "free_fd p = find (\<lambda>i. \<not> fd_used p ! i) [3..<FD_TABLE_SIZE]"

definition open_off :: "u64 \<Rightarrow> vfs \<Rightarrow> nat \<Rightarrow> u64" where
  "open_off flags s node = (if flags AND FD_O_APPEND \<noteq> 0 \<and> vfs_node_type s node = VFS_NODE_FILE then vfs_node_size s node else 0)"

text \<open>The slot \<^verbatim>\<open>open\<close> fills, before it is marked as used.\<close>

definition filled :: "nat \<Rightarrow> nat \<Rightarrow> u64 \<Rightarrow> u64 \<Rightarrow> fd_table \<Rightarrow> fd_table" where
  "filled fd node flags off p = p\<lparr>fd_nodes := (fd_nodes p)[fd := node], fd_flags := (fd_flags p)[fd := flags], fd_off := (fd_off p)[fd := off]\<rparr>"

text \<open>\<open>None\<close>: a store outside a buffer, which \<^verbatim>\<open>vfs_node_write_at\<close> would do.\<close>

definition fd_open_path :: "nat \<Rightarrow> bytes \<Rightarrow> u64 \<Rightarrow> fd_table \<Rightarrow> vfs \<Rightarrow> (int \<times> fd_table \<times> vfs) option" where
  "fd_open_path cwd kpath flags p s =
     (if kpath = [] then Some (- U_EINVAL, p, s)
      else let p = fd_table_ensure p;
               (found, s) = (if vfs_resolve s cwd kpath \<noteq> 0 then (True, s)
                  else if flags AND FD_O_CREAT = 0 then (False, s)
                  else let (r, s) = vfs_create cwd kpath s in (r = 0 \<and> vfs_resolve s cwd kpath \<noteq> 0, s));
               node = vfs_resolve s cwd kpath
      in if \<not> found then Some (- U_ENOENT, p, s)
      else case free_fd p of
        None \<Rightarrow> Some (-1, p, s)
      | Some fd \<Rightarrow>
          let p = filled fd node flags (open_off flags s node) p
          in if flags AND FD_O_TRUNC \<noteq> 0 \<and> vfs_node_type s node = VFS_NODE_FILE \<and> vfs_node_readonly s node = 0
             then (case vfs_node_write_at node 0 (Some []) 0 s of
                     None \<Rightarrow> None
                   | Some (r, s) \<Rightarrow> if r \<noteq> 0 then Some (-1, p, s) else Some (int fd, p\<lparr>fd_used := (fd_used p)[fd := True]\<rparr>, s))
             else Some (int fd, p\<lparr>fd_used := (fd_used p)[fd := True]\<rparr>, s))"

datatype fd_target = Bad_fd | Stdio | File nat u64

definition fd_resolve :: "int \<Rightarrow> fd_table \<Rightarrow> fd_target \<times> fd_table" where
  "fd_resolve fd p =
     (let p = fd_table_ensure p
      in if fd < 0 \<or> fd \<ge> int FD_TABLE_SIZE then (Bad_fd, p)
      else if fd \<le> 2 then (Stdio, p)
      else if \<not> fd_used p ! nat fd \<or> fd_nodes p ! nat fd = 0 then (Bad_fd, p)
      else (File (fd_nodes p ! nat fd) (fd_off p ! nat fd), p))"

definition bad_slot :: "int \<Rightarrow> fd_table \<Rightarrow> bool" where
  "bad_slot fd p = (fd < 3 \<or> fd \<ge> int FD_TABLE_SIZE \<or> \<not> fd_used p ! nat fd)"

definition fd_set_off :: "int \<Rightarrow> u64 \<Rightarrow> fd_table \<Rightarrow> int \<times> fd_table" where
  "fd_set_off fd off p =
     (let p = fd_table_ensure p
      in if bad_slot fd p then (- U_EBADF, p) else (0, p\<lparr>fd_off := (fd_off p)[nat fd := off]\<rparr>))"

definition fd_get_flags :: "int \<Rightarrow> fd_table \<Rightarrow> u64" where
  "fd_get_flags fd p = (if fd < 0 \<or> fd \<ge> int FD_TABLE_SIZE \<or> \<not> fd_used p ! nat fd then 0 else fd_flags p ! nat fd)"

definition fd_close :: "int \<Rightarrow> fd_table \<Rightarrow> int \<times> fd_table" where
  "fd_close fd p =
     (let p = fd_table_ensure p
      in if bad_slot fd p then (- U_EBADF, p)
      else (0, p\<lparr>fd_used := (fd_used p)[nat fd := False], fd_nodes := (fd_nodes p)[nat fd := 0],
                 fd_off := (fd_off p)[nat fd := 0], fd_flags := (fd_flags p)[nat fd := 0]\<rparr>))"

definition fd_proc_exit :: "fd_table \<Rightarrow> fd_table" where
  "fd_proc_exit p = (if fds_inited p then fd_clear_all p else p)"

section \<open>User memory\<close>

record user_mem =
  gate_r :: "u64 \<Rightarrow> u64 \<Rightarrow> bool"
  gate_w :: "u64 \<Rightarrow> u64 \<Rightarrow> bool"
  um_byte :: "u64 \<Rightarrow> u8"

definition user_bytes :: "user_mem \<Rightarrow> u64 \<Rightarrow> nat \<Rightarrow> bytes" where
  "user_bytes u a n = map (\<lambda>i. um_byte u (a + word_of_nat i)) [0..<n]"

text \<open>\<^verbatim>\<open>copy_to_user\<close> and \<^verbatim>\<open>copy_from_user\<close> of a user process, with the other buffer in the kernel.\<close>

definition to_user_ok :: "user_mem \<Rightarrow> u64 \<Rightarrow> u64 \<Rightarrow> bool" where
  "to_user_ok u dst len = (if len = 0 then True else if dst = 0 then False else gate_w u dst len)"

definition from_user_ok :: "user_mem \<Rightarrow> u64 \<Rightarrow> u64 \<Rightarrow> bool" where
  "from_user_ok u src len = (if len = 0 then True else if src = 0 then False else gate_r u src len)"

definition fail :: "int \<Rightarrow> u64" where
  "fail e = word_of_int (- e)"

section \<open>Calls\<close>

definition cwd_of :: "fd_table \<Rightarrow> vfs \<Rightarrow> nat" where
  "cwd_of p s = (if fd_cwd p \<noteq> 0 then fd_cwd p else vfs_root_node s)"

definition dev_stdin :: bytes where
  "dev_stdin = [47, 100, 101, 118, 47, 115, 116, 100, 105, 110]"

text \<open>\<^verbatim>\<open>read\<close>: the result, the bytes stored at \<open>buf\<close>, the table.\<close>

definition linux_read :: "user_mem \<Rightarrow> int \<Rightarrow> u64 \<Rightarrow> u64 \<Rightarrow> vfs \<Rightarrow> fd_table \<Rightarrow> u64 \<times> bytes \<times> fd_table" where
  "linux_read u fd buf count s p =
     (if buf = 0 \<and> count \<noteq> 0 then (fail U_EFAULT, [], p)
      else if count = 0 then (0, [], p)
      else if \<not> gate_w u buf count then (fail U_EFAULT, [], p)
      else case fd_resolve fd p of
        (Bad_fd, p) \<Rightarrow> (fail U_EBADF, [], p)
      | (Stdio, p) \<Rightarrow>
          if fd \<noteq> 0 then (fail U_EBADF, [], p)
          else let p = (if linux_brk_pos p = 0 then p\<lparr>linux_brk_pos := 0x60000000\<rparr> else p)
          in (case vfs_read s (cwd_of p s) dev_stdin of
                  None \<Rightarrow> (0, [], p)
                | Some (data, sz) \<Rightarrow>
                    let copy = (if count < sz then count else sz)
                    in if \<not> to_user_ok u buf copy then (fail U_EFAULT, [], p) else (copy, take (unat copy) data, p))
      | (File node off, p) \<Rightarrow>
          if vfs_node_type s node \<noteq> VFS_NODE_FILE then (fail U_EINVAL, [], p)
          else if fd_get_flags fd p AND FD_O_ACCMODE = FD_O_WRONLY then (fail U_EBADF, [], p)
          else if off \<ge> vfs_node_size s node then (0, [], p)
          else let avail = vfs_node_size s node - off;
                   copy = (if count < avail then count else avail)
          in if \<not> to_user_ok u buf copy then (fail U_EFAULT, [], p)
             else (copy, take (unat copy) (drop (unat off) (vfs_node_data s node)), snd (fd_set_off fd (off + copy) p)))"

text \<open>The size of the next chunk: at most \<open>m\<close>.\<close>

definition chunk_size :: "u64 \<Rightarrow> u64 \<Rightarrow> u64 \<Rightarrow> u64" where
  "chunk_size m count done = (if count - done > m then m else count - done)"

lemma chunk_advances:
  assumes "(d :: u64) < count" "0 < m"
  shows "unat (d + chunk_size m count d) = unat d + unat (chunk_size m count d)"
    "unat (chunk_size m count d) = min (unat m) (unat count - unat d)" "0 < unat (chunk_size m count d)"
    "unat d + unat (chunk_size m count d) \<le> unat count" "d + chunk_size m count d \<le> count"
    "unat count - unat (d + chunk_size m count d) < unat count - unat d"
proof -
  have s: "unat (count - d) = unat count - unat d" using assms by (simp add: unat_sub word_less_nat_alt word_le_nat_alt)
  show c: "unat (chunk_size m count d) = min (unat m) (unat count - unat d)"
    by (auto simp: chunk_size_def word_less_nat_alt s min_def)
  then show "0 < unat (chunk_size m count d)" using assms by (simp add: word_less_nat_alt)
  show le: "unat d + unat (chunk_size m count d) \<le> unat count" using c assms(1) by (simp add: word_less_nat_alt)
  then have "unat d + unat (chunk_size m count d) < 2 ^ 64" using unat_u64_less [of count] by simp
  then show u: "unat (d + chunk_size m count d) = unat d + unat (chunk_size m count d)" by (intro unat_add_small) simp
  show "d + chunk_size m count d \<le> count" using u le by (simp add: word_le_nat_alt)
  show "unat count - unat (d + chunk_size m count d) < unat count - unat d"
    using \<open>0 < unat (chunk_size m count d)\<close> u le assms(1) by (simp add: word_less_nat_alt)
qed

text \<open>The chunks of a write to a file: how far it came, or the error.\<close>

function write_chunks :: "user_mem \<Rightarrow> nat \<Rightarrow> u64 \<Rightarrow> u64 \<Rightarrow> u64 \<Rightarrow> u64 \<Rightarrow> vfs \<Rightarrow> (u64 \<times> bool \<times> vfs) option" where
  "write_chunks u node buf off count done s =
     (if \<not> done < count then Some (done, True, s)
      else let chunk = chunk_size 4096 count done
      in if \<not> from_user_ok u (buf + done) chunk then Some (fail U_EFAULT, False, s)
      else case vfs_node_write_at node (off + done) (Some (user_bytes u (buf + done) (unat chunk))) chunk s of
          None \<Rightarrow> None
        | Some (r, s) \<Rightarrow>
            if r \<noteq> 0 then Some (if done \<noteq> 0 then done else fail 1, False, s)
            else write_chunks u node buf off count (done + chunk) s)"
  by pat_completeness auto

termination
proof (relation "measure (\<lambda>(u, node, buf, off, count, d, s). unat count - unat d)", goal_cases)
  case (2 u node buf off count d s chunk p r t)
  then show ?case using chunk_advances(6) [of d count 4096] by simp
qed simp

declare write_chunks.simps [simp del]

text \<open>Text on its way to the console ends at the first NUL of its chunk.\<close>

function print_chunks :: "user_mem \<Rightarrow> u64 \<Rightarrow> u64 \<Rightarrow> u64 \<Rightarrow> bytes \<Rightarrow> u64 \<times> bytes" where
  "print_chunks u buf count done out =
     (if \<not> done < count then (count, out)
      else let chunk = chunk_size 4095 count done
      in if \<not> from_user_ok u (buf + done) chunk then (fail U_EFAULT, out)
      else print_chunks u buf count (done + chunk) (out @ takeWhile (\<lambda>c. c \<noteq> 0) (user_bytes u (buf + done) (unat chunk))))"
  by pat_completeness auto

termination
proof (relation "measure (\<lambda>(u, buf, count, d, out). unat count - unat d)", goal_cases)
  case (2 u buf count d out chunk)
  then show ?case using chunk_advances(6) [of d count 4095] by simp
qed simp

declare print_chunks.simps [simp del]

text \<open>\<^verbatim>\<open>write\<close>: the result, the text printed, the table and the tree.\<close>

definition linux_write :: "user_mem \<Rightarrow> bool \<Rightarrow> int \<Rightarrow> u64 \<Rightarrow> u64 \<Rightarrow> vfs \<Rightarrow> fd_table \<Rightarrow> (u64 \<times> bytes \<times> fd_table \<times> vfs) option" where
  "linux_write u console fd buf count s p =
     (if buf = 0 \<and> count \<noteq> 0 then Some (fail U_EFAULT, [], p, s)
      else if count = 0 then Some (0, [], p, s)
      else if \<not> gate_r u buf count then Some (fail U_EFAULT, [], p, s)
      else case fd_resolve fd p of
        (Bad_fd, p) \<Rightarrow> Some (fail U_EBADF, [], p, s)
      | (Stdio, p) \<Rightarrow>
          if fd = 0 then Some (fail U_EBADF, [], p, s)
          else if \<not> console then Some (fail 1, [], p, s)
          else (case print_chunks u buf count 0 [] of (r, out) \<Rightarrow> Some (r, out, p, s))
      | (File node off, p) \<Rightarrow>
          if vfs_node_type s node \<noteq> VFS_NODE_FILE then Some (fail U_EINVAL, [], p, s)
          else if fd_get_flags fd p AND FD_O_ACCMODE = FD_O_RDONLY then Some (fail U_EBADF, [], p, s)
          else if vfs_node_readonly s node \<noteq> 0 then Some (fail U_EACCES, [], p, s)
          else (case write_chunks u node buf off count 0 s of
                  None \<Rightarrow> None
                | Some (r, complete, s) \<Rightarrow> Some (r, [], if complete then snd (fd_set_off fd (off + r) p) else p, s)))"

text \<open>\<^verbatim>\<open>open\<close> with the path copied from user memory, \<open>None\<close> when the gate refused it.\<close>

definition linux_open :: "bytes option \<Rightarrow> u64 \<Rightarrow> fd_table \<Rightarrow> vfs \<Rightarrow> (u64 \<times> fd_table \<times> vfs) option" where
  "linux_open kpath flags p s =
     (case kpath of
        None \<Rightarrow> Some (fail U_EFAULT, p, s)
      | Some path \<Rightarrow> map_option (\<lambda>(fd, p, s). (word_of_int fd, p, s)) (fd_open_path (cwd_of p s) path flags p s))"

definition linux_close :: "int \<Rightarrow> fd_table \<Rightarrow> u64 \<times> fd_table" where
  "linux_close fd p = (let (r, p) = fd_close fd p in (if r = 0 then 0 else fail U_EBADF, p))"

definition linux_fstat :: "user_mem \<Rightarrow> int \<Rightarrow> u64 \<Rightarrow> vfs \<Rightarrow> fd_table \<Rightarrow> u64 \<times> vfs_stat_buf option \<times> fd_table" where
  "linux_fstat u fd st s p =
     (if st = 0 then (fail U_EFAULT, None, p)
      else if \<not> gate_w u st 40 then (fail U_EFAULT, None, p)
      else case fd_resolve fd p of
        (Bad_fd, p) \<Rightarrow> (fail U_EBADF, None, p)
      | (Stdio, p) \<Rightarrow>
          if \<not> to_user_ok u st 40 then (fail U_EFAULT, None, p)
          else (0, Some \<lparr>st_inode = 0, st_size = 0, st_created = 0, st_modified = 0, st_type = VFS_NODE_FILE, st_readonly = 1\<rparr>, p)
      | (File node off, p) \<Rightarrow>
          if \<not> to_user_ok u st 40 then (fail U_EFAULT, None, p)
          else (0, Some \<lparr>st_inode = vfs_node_inode s node, st_size = vfs_node_size s node, st_created = vfs_node_created s node,
                        st_modified = vfs_node_modified s node, st_type = vfs_node_type s node, st_readonly = vfs_node_readonly s node\<rparr>, p))"

section \<open>Directories\<close>

text \<open>\<open>out\<close> is the text in the buffer before its NUL.\<close>

definition append_dir_entry :: "nat \<Rightarrow> bytes \<Rightarrow> bool \<Rightarrow> bytes \<Rightarrow> bytes" where
  "append_dir_entry cap name is_directory out =
     (let out = out @ take (cap - 1 - length out) name;
          out = (if is_directory \<and> length out + 1 < cap then out @ [slash] else out)
      in if length out + 1 < cap then out @ [10] else out)"

fun list_entries :: "vfs \<Rightarrow> nat \<Rightarrow> nat list \<Rightarrow> bytes \<Rightarrow> nat \<Rightarrow> bytes \<times> nat" where
  "list_entries s cap [] out emitted = (out, emitted)"
| "list_entries s cap (c # cs) out emitted =
     (let out = append_dir_entry cap (vfs_node_name s c) (vfs_node_type s c = VFS_NODE_DIR) out
      in if length out + 1 \<ge> cap then (out, emitted + 1) else list_entries s cap cs out (emitted + 1))"

definition list_dir_entries :: "vfs \<Rightarrow> nat \<Rightarrow> nat \<Rightarrow> nat \<Rightarrow> bytes \<times> nat" where
  "list_dir_entries s dir cap skip = list_entries s cap (map (vfs_child_at s dir) [skip..<vfs_child_count s dir]) [] 0"

text \<open>One record: bytes 12 to 15 keep what user memory held there; the name is cut at the end of the buffer.\<close>

definition put_dirent :: "nat \<Rightarrow> bytes \<Rightarrow> nat \<Rightarrow> bytes \<Rightarrow> bytes" where
  "put_dirent count name written out =
     take written out @ replicate 12 0 @ take 4 (drop (written + 12) out) @
     [word_of_nat (length name), word_of_nat (length name div 256), 0] @ take (count - written - 19) name @
     drop (written + 19 + min (length name) (count - written - 19)) out"

function dirents :: "nat \<Rightarrow> bytes \<Rightarrow> nat \<Rightarrow> nat \<Rightarrow> nat \<Rightarrow> nat \<Rightarrow> bytes \<Rightarrow> bytes \<times> nat \<times> nat" where
  "dirents count lst seen entry emitted written out =
     (if lst = [] \<or> \<not> written + 20 \<le> count then (out, written, emitted)
      else let name = takeWhile (\<lambda>c. c \<noteq> 10) lst;
               rest = drop 1 (dropWhile (\<lambda>c. c \<noteq> 10) lst)
      in if seen < entry then dirents count rest (seen + 1) entry emitted written out
         else dirents count rest seen entry (emitted + 1) (written + 19 + length (take 255 name)) (put_dirent count (take 255 name) written out))"
  by pat_completeness auto
termination
proof (relation "measure (\<lambda>(count, lst, r). length lst)", goal_cases)
  case (2 count lst seen entry emitted written out x xa)
  then show ?case using length_dropWhile_le [of "\<lambda>c. c \<noteq> 10" lst] by (cases lst) (auto simp: le_imp_less_Suc split: if_splits)
next
  case (3 count lst seen entry emitted written out x xa)
  then show ?case using length_dropWhile_le [of "\<lambda>c. c \<noteq> 10" lst] by (cases lst) (auto simp: le_imp_less_Suc split: if_splits)
qed simp

declare dirents.simps [simp del]

text \<open>\<open>out\<close> is the user buffer of \<open>count\<close> bytes.\<close>

definition linux_getdents :: "user_mem \<Rightarrow> int \<Rightarrow> u64 \<Rightarrow> u64 \<Rightarrow> bytes \<Rightarrow> vfs \<Rightarrow> fd_table \<Rightarrow> u64 \<times> bytes \<times> fd_table" where
  "linux_getdents u fd buf count out s p =
     (if buf = 0 \<and> count \<noteq> 0 then (fail U_EFAULT, out, p)
      else if count = 0 then (0, out, p)
      else if \<not> gate_w u buf count then (fail U_EFAULT, out, p)
      else case fd_resolve fd p of
        (Bad_fd, p) \<Rightarrow> (fail U_EBADF, out, p)
      | (Stdio, p) \<Rightarrow> (fail U_EBADF, out, p)
      | (File node entry, p) \<Rightarrow>
          if vfs_node_type s node \<noteq> VFS_NODE_DIR then (fail U_EINVAL, out, p)
          else if count < 20 then (0, out, p)
          else let (out, written, emitted) = dirents (unat count) (fst (list_dir_entries s node 4096 0)) 0 (unat entry) 0 0 out
          in (word_of_nat written, out, snd (fd_set_off fd (entry + word_of_nat emitted) p)))"

section \<open>The table stays a table\<close>

definition table_ok :: "fd_table \<Rightarrow> bool" where
  "table_ok p \<longleftrightarrow> fds_inited p \<and> length (fd_nodes p) = 64 \<and> length (fd_off p) = 64 \<and> length (fd_flags p) = 64 \<and> length (fd_used p) = 64"

definition slot :: "fd_table \<Rightarrow> nat \<Rightarrow> nat \<times> u64 \<times> u64 \<times> bool" where
  "slot p i = (fd_nodes p ! i, fd_off p ! i, fd_flags p ! i, fd_used p ! i)"

lemma ensure_ok [simp]: "table_ok p \<Longrightarrow> fd_table_ensure p = p"
  by (simp add: fd_table_ensure_def table_ok_def)

lemma free_fd_Some:
  assumes "free_fd p = Some fd"
  shows "3 \<le> fd" "fd < 64" "\<not> fd_used p ! fd" "\<forall>i. 3 \<le> i \<and> i < fd \<longrightarrow> fd_used p ! i"
proof -
  obtain k where k: "k < length [3..<FD_TABLE_SIZE]" "\<not> fd_used p ! ([3..<FD_TABLE_SIZE] ! k)" "fd = [3..<FD_TABLE_SIZE] ! k"
    "\<forall>j < k. fd_used p ! ([3..<FD_TABLE_SIZE] ! j)"
    using assms unfolding free_fd_def find_Some_iff by auto
  then have fd: "fd = 3 + k" "k < 61" by (simp_all add: FD_TABLE_SIZE_def del: upt_rec_numeral)
  then show "3 \<le> fd" "fd < 64" "\<not> fd_used p ! fd" using k by simp_all
  show "\<forall>i. 3 \<le> i \<and> i < fd \<longrightarrow> fd_used p ! i"
  proof (intro allI impI)
    fix i assume i: "3 \<le> i \<and> i < fd"
    then have "i - 3 < k" "[3..<FD_TABLE_SIZE] ! (i - 3) = i" using fd by (auto simp: FD_TABLE_SIZE_def simp del: upt_rec_numeral)
    then show "fd_used p ! i" using k(4) by metis
  qed
qed

lemma write_nothing:
  assumes "vfs_inv s" "vfs_node_write_at node 0 (Some []) 0 s = Some (r, s')"
  shows "only_adds s s'"
proof (cases "writable s node")
  case True
  obtain n where n: "vfs_node s node = Some n" using True by (auto simp: writable_def split: option.splits)
  then have e: "vfs_sync (touch node (upd_node node (vn_data_update (\<lambda>_. vn_data n)) s)) = (r, s')"
    using assms(2) True by (simp add: vfs_node_write_at_def overwrite_def Let_def)
  have "upd_node node (vn_data_update (\<lambda>_. vn_data n)) s = s" using n by (simp add: upd_node_def fun_upd_idem)
  then have "vfs_sync (touch node s) = (r, s')" using e by simp
  then show ?thesis using only_adds_touch [OF assms(1), of node] only_adds_sync only_adds_trans by (metis only_adds_def)
next
  case False
  then show ?thesis using assms by (simp add: vfs_node_write_at_def)
qed

lemma write_nothing_returns: "vfs_node_write_at node 0 (Some []) 0 s \<noteq> None"
  by (auto simp: vfs_node_write_at_def overwrite_def Let_def split: option.splits)

text \<open>What \<^verbatim>\<open>open\<close> did to the table: one new descriptor, or nothing that is in use.\<close>

definition opened :: "int \<Rightarrow> nat \<Rightarrow> u64 \<Rightarrow> u64 \<Rightarrow> fd_table \<Rightarrow> fd_table \<Rightarrow> bool" where
  "opened r node flags off p p' \<longleftrightarrow> table_ok p' \<and>
     (if r < 0 then \<forall>i < 64. fd_used p' ! i = fd_used p ! i \<and> (fd_used p ! i \<longrightarrow> slot p' i = slot p i)
      else 3 \<le> r \<and> r < 64 \<and> \<not> fd_used p ! nat r \<and> (\<forall>i. 3 \<le> i \<and> i < nat r \<longrightarrow> fd_used p ! i)
        \<and> slot p' (nat r) = (node, off, flags, True) \<and> (\<forall>i. i \<noteq> nat r \<longrightarrow> slot p' i = slot p i))"

lemma opened_fd:
  assumes "table_ok p" "free_fd p = Some fd"
  shows "opened (int fd) node flags off p ((filled fd node flags off p)\<lparr>fd_used := (fd_used (filled fd node flags off p))[fd := True]\<rparr>)"
  using assms(1) free_fd_Some [OF assms(2)] by (auto simp: opened_def filled_def table_ok_def slot_def nth_list_update)

lemma opened_nothing:
  assumes "table_ok p" "free_fd p = Some fd"
  shows "opened (-1) a b c p (filled fd node flags off p)"
  using assms(1) free_fd_Some [OF assms(2)] by (auto simp: opened_def filled_def table_ok_def slot_def nth_list_update)

lemma fd_open_spec:
  assumes "vfs_inv s" "is_dir s cwd" "table_ok p"
  shows "\<exists>r p' s'. fd_open_path cwd path flags p s = Some (r, p', s') \<and> only_adds s s'
    \<and> opened r (vfs_resolve s' cwd path) flags (open_off flags s' (vfs_resolve s' cwd path)) p p'
    \<and> (0 \<le> r \<longrightarrow> vfs_resolve s' cwd path \<noteq> 0)"
proof (cases "path = []")
  case True
  then show ?thesis using assms by (simp add: fd_open_path_def opened_def U_EINVAL_def)
next
  case ne: False
  obtain found t where f: "(if vfs_resolve s cwd path \<noteq> 0 then (True, s) else if flags AND FD_O_CREAT = 0 then (False, s)
      else let (r, s) = vfs_create cwd path s in (r = 0 \<and> vfs_resolve s cwd path \<noteq> 0, s)) = (found, t)" by force
  have t: "only_adds s t" "found \<longrightarrow> vfs_resolve t cwd path \<noteq> 0"
    using f vfs_create_spec(1) [OF prod.collapse [symmetric] assms(1,2), of path] assms(1) by (auto split: if_splits prod.splits)
  have it: "vfs_inv t" using t(1) by (simp add: only_adds_def)
  note def = fd_open_path_def [of cwd path flags p s, unfolded f ensure_ok [OF assms(3)] if_not_P [OF ne]]
  show ?thesis
  proof (cases "found \<and> free_fd p \<noteq> None")
    case False
    then show ?thesis using t(1) assms(3) by (cases "free_fd p") (auto simp: def opened_def U_ENOENT_def Let_def)
  next
    case True
    then obtain fd where fd: "free_fd p = Some fd" by auto
    note F = free_fd_Some [OF fd]
    let ?node = "vfs_resolve t cwd path"
    let ?q = "filled fd ?node flags (open_off flags t ?node) p"
    let ?trunc = "flags AND FD_O_TRUNC \<noteq> 0 \<and> vfs_node_type t ?node = VFS_NODE_FILE \<and> vfs_node_readonly t ?node = 0"
    have def': "fd_open_path cwd path flags p s = (if ?trunc
        then (case vfs_node_write_at ?node 0 (Some []) 0 t of None \<Rightarrow> None
          | Some (r, s) \<Rightarrow> if r \<noteq> 0 then Some (-1, ?q, s) else Some (int fd, ?q\<lparr>fd_used := (fd_used ?q)[fd := True]\<rparr>, s))
        else Some (int fd, ?q\<lparr>fd_used := (fd_used ?q)[fd := True]\<rparr>, t))"
      using True fd by (simp add: def Let_def)
    have ok: "opened (int fd) ?node flags (open_off flags t ?node) p (?q\<lparr>fd_used := (fd_used ?q)[fd := True]\<rparr>)"
      by (rule opened_fd [OF assms(3) fd])
    have bad: "opened (-1) a b c p ?q" for a b c
      by (rule opened_nothing [OF assms(3) fd])
    show ?thesis
    proof (cases ?trunc)
      case False
      then have "fd_open_path cwd path flags p s = Some (int fd, ?q\<lparr>fd_used := (fd_used ?q)[fd := True]\<rparr>, t)"
        unfolding def' by (rule if_not_P)
      then show ?thesis using ok t True by blast
    next
      case tr: True
      obtain r s' where w: "vfs_node_write_at ?node 0 (Some []) 0 t = Some (r, s')" using write_nothing_returns [of ?node t] by auto
      have add: "only_adds t s'" by (rule write_nothing [OF it w])
      have dir: "is_dir t cwd" using t(1) assms(2) extends_kind(2) [of s t cwd] is_dir_dom [OF assms(2)] by (simp add: only_adds_def)
      have same: "vfs_resolve s' cwd path = ?node" using extends_resolve [OF _ it dir, of s' path] add t(2) True by (simp add: only_adds_def)
      have dom: "?node \<in> dom (vfs_node t)" using tr by (auto simp: vfs_node_type_def VFS_NODE_FILE_def split: option.splits)
      have "contents s' ?node = contents t ?node" "extends t s'" using add dom by (simp_all add: only_adds_def)
      then have off: "open_off flags s' ?node = open_off flags t ?node" using dom
        by (fastforce simp: open_off_def contents_def extends_def vfs_node_type_def vfs_node_size_def)
      show ?thesis
      proof (cases "r = 0")
        case True
        then have "fd_open_path cwd path flags p s = Some (int fd, ?q\<lparr>fd_used := (fd_used ?q)[fd := True]\<rparr>, s')"
          unfolding def' if_P [OF tr] by (simp add: w)
        then show ?thesis using ok off same t \<open>found \<and> _\<close> only_adds_trans [OF t(1) add] by auto
      next
        case False
        then have "fd_open_path cwd path flags p s = Some (-1, ?q, s')" unfolding def' if_P [OF tr] by (simp add: w)
        then show ?thesis using bad only_adds_trans [OF t(1) add] by auto
      qed
    qed
  qed
qed

section \<open>Writing in chunks\<close>

lemma length_user_bytes [simp]: "length (user_bytes u a n) = n"
  by (simp add: user_bytes_def)

lemma user_bytes_append: "user_bytes u a m @ user_bytes u (a + word_of_nat m) n = user_bytes u a (m + n)"
proof (rule nth_equalityI)
  fix i assume "i < length (user_bytes u a m @ user_bytes u (a + word_of_nat m) n)"
  then have i: "i < m + n" by simp
  have "[0..<n] ! (i - m) = i - m" if "m \<le> i" using that i by (simp add: nth_upt)
  moreover have "a + word_of_nat m + word_of_nat (i - m) = a + word_of_nat i" if "m \<le> i" using that by (simp add: of_nat_diff)
  ultimately show "(user_bytes u a m @ user_bytes u (a + word_of_nat m) n) ! i = user_bytes u a (m + n) ! i"
    using i by (cases "i < m") (simp_all add: user_bytes_def nth_append)
qed simp

text \<open>Two writes, the second where the first one ended, are one.\<close>

lemma splice_splice:
  "splice (splice b0 k x) (k + length x) y = splice b0 k (x @ y)"
proof -
  let ?P = "take k (b0 @ replicate (k - length b0) 0)"
  have P: "length ?P = k" by simp
  have s: "splice b0 k x = ?P @ x @ drop (k + length x) b0" by (simp only: splice_def)
  have l: "k + length x \<le> length (splice b0 k x)" by (simp add: s)
  then have r: "replicate (k + length x - length (splice b0 k x)) (0 :: u8) = []" by simp
  have t: "take (k + length x) (splice b0 k x @ replicate (k + length x - length (splice b0 k x)) 0) = ?P @ x"
    unfolding r unfolding s using P by simp
  have d: "drop (k + length x + length y) (splice b0 k x) = drop (k + length x + length y) b0"
    unfolding s using P by (simp add: ac_simps)
  have "splice (splice b0 k x) (k + length x) y = (?P @ x) @ y @ drop (k + length x + length y) b0"
    unfolding splice_def [of "splice b0 k x"] t d ..
  also have "\<dots> = splice b0 k (x @ y)" by (simp add: splice_def ac_simps)
  finally show ?thesis .
qed

lemma write_at_zero:
  assumes "vfs_inv s" "buffers_ok s" "writable s a" "length src = unat sz" "unat off + unat sz < 2 ^ 64 - 1"
    "vfs_node_write_at a off (Some src) sz s = Some (r, s')"
  shows "writes a s s'" "buffers_ok s'" "r = 0 \<Longrightarrow> file_bytes s' a = splice (file_bytes s a) (unat off) src"
    "vfs_inv s'" "is_file s' a"
proof -
  have *: "writes a s s' \<and> buffers_ok s' \<and> (r = 0 \<longrightarrow> file_bytes s' a = splice (file_bytes s a) (unat off) src)"
    using vfs_node_write_at_spec [OF assms(1-5)] assms(6) by (auto split: if_splits)
  then show "writes a s s'" "buffers_ok s'" "r = 0 \<Longrightarrow> file_bytes s' a = splice (file_bytes s a) (unat off) src" "vfs_inv s'"
    by (simp_all add: writes_def)
  show "is_file s' a" using * writable_file [OF assms(3)] extends_file_dom [of s s' a] by (simp add: writes_def)
qed

text \<open>Only \<^verbatim>\<open>vfs_seed_readonly\<close> and \<^verbatim>\<open>vfs_import_node\<close> change the permission of a node.\<close>

lemma write_at_writable:
  assumes "vfs_node_write_at a off d sz s = Some (r, s')" "writable s a"
  shows "writable s' a"
proof -
  have touched: "writable (touch a t) a" if "writable t a" for t
    using that by (cases "vfs_node t a") (auto simp: writable_def touch_def upd_node_def)
  have sync: "writable v a" if "vfs_sync (touch a t) = (q, v)" "writable t a" for q t v
    using touched [OF that(2)] sync_same [OF that(1)] by (simp add: writable_def)
  have upd: "writable (upd_node a f t) a" if "writable t a" "\<And>n. vn_type (f n) = vn_type n \<and> vn_readonly (f n) = vn_readonly n" for f t
    using that by (auto simp: writable_def upd_node_def split: option.splits)
  obtain ok t where t: "vfs_alloc (off + sz + 1) s = (ok, t)" by force
  have wt: "writable t a" using alloc_same [OF t] assms(2) by (simp add: writable_def)
  have put: "writable (put_data a x z t) a" for x z unfolding put_data_def by (rule upd [OF wt]) simp
  consider "s' = s" | "s' = t" | buf where "vfs_sync (touch a (upd_node a (vn_data_update (\<lambda>_. buf)) s)) = (r, s')"
    | x z where "vfs_sync (touch a (put_data a x z t)) = (r, s')"
    using assms t by (auto simp: vfs_node_write_at_def Let_def split: if_splits option.splits)
  then show ?thesis
  proof cases
    case 3
    then show ?thesis by (rule sync) (rule upd [OF assms(2)], simp)
  next
    case 4
    then show ?thesis by (rule sync) (rule put)
  qed (use assms(2) wt in simp_all)
qed

lemma write_chunks_spec:
  assumes "vfs_inv s" "buffers_ok s" "writable s node" "unat off + unat count < 2 ^ 64 - 1" "d \<le> count"
  shows "\<exists>r c s'. write_chunks u node buf off count d s = Some (r, c, s') \<and> writes node s s' \<and> buffers_ok s'
    \<and> (\<not> c \<longrightarrow> r < count \<or> r = fail 1 \<or> r = fail U_EFAULT)
    \<and> (c \<longrightarrow> r = count \<and> (unat d < unat count \<longrightarrow> file_bytes s' node = splice (file_bytes s node) (unat off + unat d) (user_bytes u (buf + d) (unat count - unat d))))"
  using assms
proof (induction u node buf off count d s rule: write_chunks.induct)
  case (1 u node buf off count d s)
  note def = write_chunks.simps [of u node buf off count d s]
  show ?case
  proof (cases "d < count \<and> from_user_ok u (buf + d) (chunk_size 4096 count d)")
    case False
    then show ?thesis using "1.prems" by (auto simp: def writes_def Let_def word_le_nat_alt word_less_nat_alt word_unat_eq_iff)
  next
    case go: True
    let ?k = "chunk_size 4096 count d"
    note C = chunk_advances [of d count 4096, OF conjunct1 [OF go]]
    have od: "unat (off + d) = unat off + unat d" using "1.prems"(4) go by (intro unat_add_small) (simp add: word_less_nat_alt)
    have b: "unat (off + d) + unat ?k < 2 ^ 64 - 1" using od C(4) "1.prems"(4) by simp
    let ?src = "user_bytes u (buf + d) (unat ?k)"
    obtain r t where w: "vfs_node_write_at node (off + d) (Some ?src) ?k s = Some (r, t)"
      using vfs_node_write_at_spec [OF "1.prems"(1-3) length_user_bytes b] by blast
    note W = write_at_zero [OF "1.prems"(1-3) length_user_bytes b w]
    show ?thesis
    proof (cases "r = 0")
      case False
      then have "write_chunks u node buf off count d s = Some (if d \<noteq> 0 then d else fail 1, False, t)" using go w by (simp add: def Let_def)
      moreover have "(if d \<noteq> 0 then d else fail 1) < count \<or> (if d \<noteq> 0 then d else fail 1) = fail 1" using go by simp
      ultimately show ?thesis using W by blast
    next
      case True
      have ft: "file_bytes t node = splice (file_bytes s node) (unat off + unat d) ?src" using W(3) True od by simp
      obtain r' c s' where R: "write_chunks u node buf off count (d + ?k) t = Some (r', c, s')" "writes node t s'" "buffers_ok s'"
        "(\<not> c \<longrightarrow> r' < count \<or> r' = fail 1 \<or> r' = fail U_EFAULT)"
        "c \<longrightarrow> r' = count \<and> (unat (d + ?k) < unat count \<longrightarrow> file_bytes s' node = splice (file_bytes t node) (unat off + unat (d + ?k)) (user_bytes u (buf + (d + ?k)) (unat count - unat (d + ?k))))"
        using "1.IH" [OF _ refl _ w refl _ W(4,2) write_at_writable [OF w "1.prems"(3)] "1.prems"(4) C(5)] go True by auto
      have "file_bytes s' node = splice (file_bytes s node) (unat off + unat d) (user_bytes u (buf + d) (unat count - unat d))" if "c"
      proof (cases "unat (d + ?k) < unat count")
        case more: True
        have k: "word_of_nat (unat ?k) = ?k" by simp
        have "file_bytes s' node = splice (splice (file_bytes s node) (unat off + unat d) ?src) (unat off + unat d + length ?src)
            (user_bytes u (buf + d + word_of_nat (unat ?k)) (unat count - unat (d + ?k)))"
          using R(5) that more ft C(1) by (simp add: add.assoc)
        also have "\<dots> = splice (file_bytes s node) (unat off + unat d) (?src @ user_bytes u (buf + d + word_of_nat (unat ?k)) (unat count - unat (d + ?k)))"
          by (rule splice_splice)
        also have "\<dots> = splice (file_bytes s node) (unat off + unat d) (user_bytes u (buf + d) (unat count - unat d))"
          unfolding user_bytes_append using C(1,4) by simp
        finally show ?thesis .
      next
        case False
        then have e: "unat ?k = unat count - unat d" "d + ?k = count" using C(1,4) by (simp_all add: word_unat_eq_iff)
        have "write_chunks u node buf off count count t = Some (count, True, t)" by (simp add: write_chunks.simps)
        then have "s' = t" using R(1) e(2) by simp
        then show ?thesis using ft e(1) by simp
      qed
      moreover have "write_chunks u node buf off count d s = Some (r', c, s')" using go w True R(1) by (simp add: def Let_def)
      moreover have "writes node s s'" using W(1) R(2) writes_trans by blast
      ultimately show ?thesis using R(3,4,5) by blast
    qed
  qed
qed

lemma fail_large: "unat count < 2 ^ 63 \<Longrightarrow> fail 1 \<noteq> count \<and> fail U_EFAULT \<noteq> count"
proof -
  have "fail 1 = 0xFFFFFFFFFFFFFFFF" "fail U_EFAULT = 0xFFFFFFFFFFFFFFF2" by code_simp+
  then have "\<not> unat (fail 1) < 2 ^ 63" "\<not> unat (fail U_EFAULT) < 2 ^ 63" by simp_all
  then show "unat count < 2 ^ 63 \<Longrightarrow> fail 1 \<noteq> count \<and> fail U_EFAULT \<noteq> count" by metis
qed

lemma length_file_bytes:
  assumes "buffers_ok s" "vfs_node s a = Some n"
  shows "length (file_bytes s a) = unat (vn_size n)"
proof -
  have "buffer_ok n" using assms by (simp add: buffers_ok_def)
  then show ?thesis using assms(2) by (cases "vn_data n") (simp_all add: file_bytes_def vfs_node_data_def vfs_node_size_def buffer_ok_def)
qed

lemma resolve_file:
  assumes "table_ok p" "fd_resolve fd p = (File node off, q)"
  shows "q = p" "3 \<le> fd" "fd < 64" "fd_used p ! nat fd" "fd_nodes p ! nat fd = node" "fd_off p ! nat fd = off" "node \<noteq> 0"
  using assms by (auto simp: fd_resolve_def FD_TABLE_SIZE_def Let_def split: if_splits)

lemma set_off_file:
  assumes "table_ok p" "fd_resolve fd p = (File node off, p)"
  shows "snd (fd_set_off fd x p) = p\<lparr>fd_off := (fd_off p)[nat fd := x]\<rparr>" "table_ok (p\<lparr>fd_off := (fd_off p)[nat fd := x]\<rparr>)"
    "fd_resolve fd (p\<lparr>fd_off := (fd_off p)[nat fd := x]\<rparr>) = (File node x, p\<lparr>fd_off := (fd_off p)[nat fd := x]\<rparr>)"
proof -
  note R = resolve_file [OF assms]
  show ok: "table_ok (p\<lparr>fd_off := (fd_off p)[nat fd := x]\<rparr>)" using assms(1) by (simp add: table_ok_def)
  show "snd (fd_set_off fd x p) = p\<lparr>fd_off := (fd_off p)[nat fd := x]\<rparr>" using R assms(1) by (simp add: fd_set_off_def bad_slot_def FD_TABLE_SIZE_def Let_def)
  show "fd_resolve fd (p\<lparr>fd_off := (fd_off p)[nat fd := x]\<rparr>) = (File node x, p\<lparr>fd_off := (fd_off p)[nat fd := x]\<rparr>)"
    using R ok assms(1) by (simp add: fd_resolve_def FD_TABLE_SIZE_def table_ok_def Let_def nat_less_iff)
qed

lemma linux_read_back:
  assumes "vfs_inv s" "buffers_ok s" "table_ok p" "fd_resolve fd p = (File node off, p)" "is_file s node"
    "unat off + unat count < 2 ^ 64" "0 < count" "b \<noteq> 0" "\<And>a n. gate_w v a n" "fd_flags p ! nat fd AND FD_O_ACCMODE \<noteq> FD_O_WRONLY"
    "unat off + unat count \<le> length (file_bytes s node)"
  shows "linux_read v fd b count s p = (count, take (unat count) (drop (unat off) (file_bytes s node)), p\<lparr>fd_off := (fd_off p)[nat fd := off + count]\<rparr>)"
proof -
  note R = resolve_file [OF assms(3,4)]
  obtain n where n: "vfs_node s node = Some n" "vn_type n = VFS_NODE_FILE" using assms(5) by (auto simp: is_file_def split: option.splits)
  have sz: "vfs_node_size s node = vn_size n" "vfs_node_type s node = VFS_NODE_FILE" using n by (simp_all add: vfs_node_size_def vfs_node_type_def)
  have len: "unat off + unat count \<le> unat (vn_size n)" using assms(11) length_file_bytes [OF assms(2) n(1)] by simp
  have "0 < unat count" using assms(7) by (simp add: word_less_nat_alt)
  then have lt: "off < vn_size n" using len by (simp add: word_less_nat_alt)
  have "unat (vn_size n - off) = unat (vn_size n) - unat off" using lt by (intro unat_sub) simp
  then have c: "(if count < vn_size n - off then count else vn_size n - off) = count"
    using len by (auto simp: word_less_nat_alt word_unat_eq_iff)
  have fl: "fd_get_flags fd p = fd_flags p ! nat fd" using R by (simp add: fd_get_flags_def FD_TABLE_SIZE_def)
  have "take (unat count) (drop (unat off) (file_bytes s node)) = take (unat count) (drop (unat off) (vfs_node_data s node))"
    using len by (simp add: file_bytes_def sz drop_take min_def)
  moreover have "count \<noteq> 0" using assms(7) by auto
  ultimately show ?thesis using assms(4,8,9,10) sz lt c fl set_off_file(1) [OF assms(3,4)]
    by (simp add: linux_read_def to_user_ok_def Let_def linorder_not_less [symmetric])
qed

lemma length_put_dirent:
  assumes "length out = count" "written + 20 \<le> count"
  shows "length (put_dirent count name written out) = count"
  using assms by (simp add: put_dirent_def min_def)

lemma length_dirents:
  assumes "length out = count"
  shows "length (fst (dirents count lst seen entry emitted written out)) = count"
  using assms
proof (induction count lst seen entry emitted written out rule: dirents.induct)
  case (1 count lst seen entry emitted written out)
  then show ?case by (subst dirents.simps) (auto simp: Let_def length_put_dirent)
qed

section \<open>Properties\<close>

text \<open>
  C27. \<^verbatim>\<open>open\<close> always returns. It gives the lowest free descriptor from 3 on, bound to the node the path
  leads to, at the end of the file for \<^verbatim>\<open>O_APPEND\<close> and at the start otherwise, and leaves every other
  descriptor alone; when it fails no descriptor in use changes. It changes the contents of no file:
  \<^verbatim>\<open>O_TRUNC\<close>, passed down as a write of no bytes at offset 0, truncates nothing.
\<close>
theorem fd_open_correct:
  assumes "vfs_inv s" "is_dir s cwd" "table_ok p"
  shows "\<exists>r p' s'. fd_open_path cwd path flags p s = Some (r, p', s') \<and> vfs_inv s' \<and> (\<forall>a \<in> dom (vfs_node s). contents s' a = contents s a)
    \<and> opened r (vfs_resolve s' cwd path) flags (open_off flags s' (vfs_resolve s' cwd path)) p p'
    \<and> (r < 0 \<or> vfs_resolve s' cwd path \<noteq> 0)"
  using fd_open_spec [OF assms, of path flags] by (fastforce simp: only_adds_def)

definition demo_table :: fd_table where
  "demo_table = \<lparr>fds_inited = True, fd_nodes = replicate 64 0, fd_off = replicate 64 0, fd_flags = replicate 64 0,
     fd_used = replicate 64 False, fd_cwd = 0, linux_brk_pos = 0\<rparr>"

lemma demo_table_ok: "table_ok demo_table"
  by (simp add: demo_table_def table_ok_def)

theorem fd_open_correct_witness:
  "\<exists>p' s'. fd_open_path 1 [97] FD_O_TRUNC demo_table demo_file = Some (3, p', s') \<and> slot p' 3 = (2, 0, FD_O_TRUNC, True)
     \<and> contents s' 2 = contents demo_file 2"
proof -
  have d: "is_dir demo_file 1" "vfs_resolve demo_file 1 [97] = 2"
    "case fd_open_path 1 [97] FD_O_TRUNC demo_table demo_file of Some (r, p, s) \<Rightarrow> r = 3 \<and> slot p 3 = (2, 0, FD_O_TRUNC, True) | None \<Rightarrow> False" by code_simp+
  have "2 \<in> dom (vfs_node demo_file)" using demo_file_facts(3) by (auto simp: writable_def split: option.splits)
  then show ?thesis
    using fd_open_correct [OF vfs_reachable_inv [OF demo_file_facts(1)] d(1) demo_table_ok, of "[97]" FD_O_TRUNC] d(3) by auto
qed

text \<open>
  C28. \<^verbatim>\<open>write\<close> on a descriptor of a writable file, given in chunks of at most 4096 bytes: it always returns,
  it never stores outside the file's buffer, and it changes no other file. When it answers the full count, the bytes of user memory
  are in the file at the descriptor's old offset (with zeros in a gap), the offset has moved behind
  them, and a \<^verbatim>\<open>read\<close> from the old offset gives them back. When it answers less or an error, the offset
  has not moved, even if some chunks were written.
\<close>
theorem linux_write_read:
  assumes "vfs_inv s" "buffers_ok s" "table_ok p" "fd_resolve fd p = (File node off, p)" "writable s node"
    "fd_flags p ! nat fd AND FD_O_ACCMODE = 2" "0 < count" "buf \<noteq> 0" "gate_r u buf count"
    "unat off + unat count < 2 ^ 64 - 1" "unat count < 2 ^ 63"
    "b \<noteq> 0" "\<And>a n. gate_w v a n"
  shows "\<exists>r p' s'. linux_write u console fd buf count s p = Some (r, [], p', s') \<and> writes node s s' \<and> buffers_ok s' \<and> table_ok p'
    \<and> (if r = count
       then file_bytes s' node = splice (file_bytes s node) (unat off) (user_bytes u buf (unat count))
         \<and> fd_resolve fd p' = (File node (off + count), p')
         \<and> linux_read v fd b count s' (snd (fd_set_off fd off p')) = (count, user_bytes u buf (unat count), p')
       else p' = p)"
proof -
  note R = resolve_file [OF assms(3,4)]
  obtain n where n: "vfs_node s node = Some n" "vn_type n = VFS_NODE_FILE" "vn_readonly n = 0"
    using assms(5) by (auto simp: writable_def split: option.splits)
  have fl: "fd_get_flags fd p = fd_flags p ! nat fd" using R by (simp add: fd_get_flags_def FD_TABLE_SIZE_def)
  have nz: "count \<noteq> 0" using assms(7) by auto
  obtain r c s' where w: "write_chunks u node buf off count 0 s = Some (r, c, s')" and W: "writes node s s'" "buffers_ok s'"
    "\<not> c \<longrightarrow> r < count \<or> r = fail 1 \<or> r = fail U_EFAULT"
    "c \<longrightarrow> r = count \<and> (0 < unat count \<longrightarrow> file_bytes s' node = splice (file_bytes s node) (unat off) (user_bytes u buf (unat count)))"
    using write_chunks_spec [OF assms(1,2,5,10) word_zero_le, of u buf, unfolded unat_0 add_0_right diff_zero] by (elim exE conjE) (rule that)
  have E: "linux_write u console fd buf count s p = Some (r, [], if c then snd (fd_set_off fd (off + r) p) else p, s')"
    using assms(4,6,8,9) nz n w fl by (simp add: linux_write_def Let_def vfs_node_type_def vfs_node_readonly_def FD_O_RDONLY_def)
  have c: "c \<longleftrightarrow> r = count" using W(3,4) fail_large [OF assms(11)] by auto
  note S = set_off_file [OF assms(3,4)]
  show ?thesis
  proof (cases "r = count")
    case False
    then show ?thesis using E W c assms(3) by auto
  next
    case True
    let ?p = "p\<lparr>fd_off := (fd_off p)[nat fd := off + count]\<rparr>"
    have fb: "file_bytes s' node = splice (file_bytes s node) (unat off) (user_bytes u buf (unat count))"
      using W(4) c True assms(7) by (simp add: word_less_nat_alt)
    have "(fd_off p)[nat fd := off] = fd_off p" using R(6) list_update_id by metis
    then have back_to: "snd (fd_set_off fd off ?p) = p" using set_off_file(1) [OF S(2,3), of off] by simp
    have is_f: "is_file s' node" using W(1) writable_file [OF assms(5)] extends_file_dom [of s s' node] by (simp add: writes_def)
    have iv: "vfs_inv s'" using W(1) by (simp add: writes_def)
    have rd_bytes: "take (unat count) (drop (unat off) (file_bytes s' node)) = user_bytes u buf (unat count)"
      unfolding fb by (simp add: splice_def)
    have "linux_read v fd b count s' p = (count, take (unat count) (drop (unat off) (file_bytes s' node)), ?p)"
      using assms(10) by (intro linux_read_back [OF iv W(2) assms(3,4) is_f _ assms(7,12,13)])
        (simp_all add: assms(6) FD_O_WRONLY_def fb splice_def)
    then have rd: "linux_read v fd b count s' (snd (fd_set_off fd off ?p)) = (count, user_bytes u buf (unat count), ?p)" by (simp only: back_to rd_bytes)
    have "linux_write u console fd buf count s p = Some (count, [], ?p, s')" using E c True S(1) by simp
    then show ?thesis using W(1,2) S(2,3) [of "off + count"] fb rd by (intro exI [of _ count] exI [of _ ?p] exI [of _ s']) simp
  qed
qed

text \<open>
  C29. \<^verbatim>\<open>getdents\<close> stores nothing outside the user's buffer, whatever the names are, but its answer may be
  larger than the buffer: a name of eight letters in a buffer of 20 bytes is cut to one, and the answer
  is 27.
\<close>
theorem linux_getdents_bounds:
  assumes "length out = unat count"
  shows "length (fst (snd (linux_getdents u fd buf count out s p))) = unat count
    \<and> dirents 20 [97, 98, 99, 100, 101, 102, 103, 104, 10] 0 0 0 0 (replicate 20 7)
      = ([0, 0, 0, 0, 0, 0, 0, 0, 0, 0, 0, 0, 7, 7, 7, 7, 8, 0, 0, 97], 27, 1)"
proof
  show "length (fst (snd (linux_getdents u fd buf count out s p))) = unat count"
  proof -
    obtain t q where r: "fd_resolve fd p = (t, q)" by force
    show ?thesis by (cases t) (simp_all add: linux_getdents_def r assms split_def Let_def length_dirents)
  qed
  show "dirents 20 [97, 98, 99, 100, 101, 102, 103, 104, 10] 0 0 0 0 (replicate 20 7)
      = ([0, 0, 0, 0, 0, 0, 0, 0, 0, 0, 0, 0, 7, 7, 7, 7, 8, 0, 0, 97], 27, 1)" by code_simp
qed

theorem linux_getdents_bounds_witness:
  "length (fst (snd (linux_getdents \<lparr>gate_r = \<lambda>_ _. True, gate_w = \<lambda>_ _. True, um_byte = \<lambda>_. 0\<rparr> 3 4096 24 (replicate 24 0) demo_file
      (demo_table\<lparr>fd_used := (fd_used demo_table)[3 := True], fd_nodes := (fd_nodes demo_table)[3 := 1]\<rparr>)))) = 24"
  using linux_getdents_bounds [of "replicate 24 0" 24] by simp

theorem linux_write_read_witness:
  "\<exists>r p' s'. linux_write \<lparr>gate_r = \<lambda>_ _. True, gate_w = \<lambda>_ _. True, um_byte = \<lambda>a. ucast a\<rparr> True 3 4097 1 demo_file
      (demo_table\<lparr>fd_used := (fd_used demo_table)[3 := True], fd_nodes := (fd_nodes demo_table)[3 := 2], fd_flags := (fd_flags demo_table)[3 := 2]\<rparr>)
      = Some (r, [], p', s') \<and> r = 1 \<and> file_bytes s' 2 = [1]"
proof -
  let ?u = "\<lparr>gate_r = \<lambda>_ _. True, gate_w = \<lambda>_ _. True, um_byte = \<lambda>a. ucast a\<rparr>"
  let ?p = "demo_table\<lparr>fd_used := (fd_used demo_table)[3 := True], fd_nodes := (fd_nodes demo_table)[3 := 2], fd_flags := (fd_flags demo_table)[3 := 2]\<rparr>"
  have ok: "table_ok ?p" using demo_table_ok by (simp add: table_ok_def)
  have r: "fd_resolve 3 ?p = (File 2 0, ?p)" "fd_flags ?p ! nat 3 AND FD_O_ACCMODE = 2"
    by (simp_all add: fd_resolve_def fd_table_ensure_def FD_TABLE_SIZE_def FD_O_ACCMODE_def demo_table_def)
  have u: "user_bytes ?u 4097 1 = [1]" by (simp add: user_bytes_def upt_conv_Cons)
  have "case vfs_node_write_at 2 0 (Some [1]) 1 demo_file of Some (r, s) \<Rightarrow> r = 0 | None \<Rightarrow> False"
    and vt: "vfs_node_type demo_file 2 = 1" "vfs_node_readonly demo_file 2 = 0" by code_simp+
  then obtain t where t: "vfs_node_write_at 2 0 (Some [1]) 1 demo_file = Some (0, t)" by (auto split: option.splits)
  have "write_chunks ?u 2 4097 0 1 0 demo_file = Some (1, True, t)"
    using t by (simp add: write_chunks.simps [of _ _ _ _ _ 0] write_chunks.simps [of _ _ _ _ 1 1] chunk_size_def from_user_ok_def u [simplified])
  then have d: "case linux_write ?u True 3 4097 1 demo_file ?p of Some (r, d, p, s) \<Rightarrow> r = 1 | None \<Rightarrow> False"
    using r(1) vt by (simp add: linux_write_def VFS_NODE_FILE_def fd_get_flags_def FD_TABLE_SIZE_def FD_O_ACCMODE_def FD_O_RDONLY_def demo_table_def)
  obtain x p' s' where "linux_write ?u True 3 4097 1 demo_file ?p = Some (x, [], p', s')"
      "(if x = 1 then file_bytes s' 2 = splice (file_bytes demo_file 2) (unat (0 :: u64)) (user_bytes ?u 4097 (unat (1 :: u64))) else p' = ?p)"
    using linux_write_read [OF vfs_reachable_inv [OF demo_file_facts(1)] demo_file_facts(2) ok r(1) demo_file_facts(3) r(2), of 1 4097 ?u 1 ?u True]
    by (auto split: if_splits)
  then show ?thesis using d u demo_file_facts(4) by (auto simp: splice_def)
qed

end
