(* ===== verification/Sched.thy ===== *)
theory Sched
  imports Vmm Fd
begin

text \<open>
  The scheduler, \<^verbatim>\<open>kernel/proc/sched.c\<close>. Processes and threads live in pages of their own, named by the
  physical address; what such a page holds is a function of the address, so a page that was freed
  while a pointer to it was left keeps its contents until it is allocated again. The pointers
  \<^verbatim>\<open>next\<close> of the ring of threads and \<^verbatim>\<open>next_all\<close> of the list of processes are those of the code. A
  loop along them that does not end is \<open>None\<close>. The switch of stacks in \<^verbatim>\<open>switch_context\<close> is the change
  of the current thread.
\<close>

section \<open>State\<close>

datatype process_kind = PROCESS_KERNEL | PROCESS_USER

datatype process_state = PROCESS_NEW | PROCESS_READY | PROCESS_RUNNING | PROCESS_BLOCKED | PROCESS_STOPPED
  | PROCESS_EXITED | PROCESS_REAPED

datatype thread_state = THREAD_READY | THREAD_RUNNING | THREAD_BLOCKED | THREAD_STOPPED | THREAD_ZOMBIE

datatype block_reason = THREAD_BLOCK_NONE | THREAD_BLOCK_SLEEP | THREAD_BLOCK_WAIT_CHILD | THREAD_BLOCK_INPUT

record process =
  p_pid :: u64
  p_kind :: process_kind
  p_state :: process_state
  p_exit_code :: u64
  p_session :: u64
  p_group :: u64
  p_space :: as_ptr
  p_parent :: u64
  p_main :: u64
  p_next_all :: u64
  p_fds :: fd_table
  p_cpu_ticks :: u64

record thread =
  t_rsp :: u64
  t_tid :: u64
  t_state :: thread_state
  t_owner :: u64
  t_kstack :: u64
  t_entry :: u64
  t_next :: u64
  t_user_rip :: u64
  t_user_rsp :: u64
  t_entry_stack :: u64
  t_reason :: block_reason
  t_wake :: u64

record sched =
  s_vmm :: vmm
  procs :: "u64 \<Rightarrow> process"
  threads :: "u64 \<Rightarrow> thread"
  current_thread_ptr :: u64
  idle_thread_ptr :: u64
  process_list :: u64
  next_pid :: u64
  next_tid :: u64
  tick_count :: u64
  uptime_ticks :: u64
  tss_rsp0 :: u64
  pf_as :: as_ptr

definition SCHED_TICKS :: u64 where "SCHED_TICKS = 1"
definition KERNEL_STACK_PAGES :: u64 where "KERNEL_STACK_PAGES = 2"
definition KERNEL_STACK_SIZE :: u64 where "KERNEL_STACK_SIZE = 8192"

text \<open>A page of zeros, read as a process or as a thread.\<close>

definition zero_fds :: fd_table where
  "zero_fds = \<lparr>fds_inited = False, fd_nodes = replicate FD_TABLE_SIZE 0, fd_off = replicate FD_TABLE_SIZE 0,
     fd_flags = replicate FD_TABLE_SIZE 0, fd_used = replicate FD_TABLE_SIZE False, fd_cwd = 0, linux_brk_pos = 0\<rparr>"

definition zero_process :: process where
  "zero_process = \<lparr>p_pid = 0, p_kind = PROCESS_KERNEL, p_state = PROCESS_NEW, p_exit_code = 0, p_session = 0, p_group = 0,
     p_space = DescAS 0, p_parent = 0, p_main = 0, p_next_all = 0, p_fds = zero_fds, p_cpu_ticks = 0\<rparr>"

definition zero_thread :: thread where
  "zero_thread = \<lparr>t_rsp = 0, t_tid = 0, t_state = THREAD_READY, t_owner = 0, t_kstack = 0, t_entry = 0, t_next = 0,
     t_user_rip = 0, t_user_rsp = 0, t_entry_stack = 0, t_reason = THREAD_BLOCK_NONE, t_wake = 0\<rparr>"

definition upd_proc :: "u64 \<Rightarrow> (process \<Rightarrow> process) \<Rightarrow> sched \<Rightarrow> sched" where
  "upd_proc a f s = s\<lparr>procs := (procs s)(a := f (procs s a))\<rparr>"

definition upd_thread :: "u64 \<Rightarrow> (thread \<Rightarrow> thread) \<Rightarrow> sched \<Rightarrow> sched" where
  "upd_thread a f s = s\<lparr>threads := (threads s)(a := f (threads s a))\<rparr>"

definition sched_current_process :: "sched \<Rightarrow> u64" where
  "sched_current_process s = (if current_thread_ptr s \<noteq> 0 then t_owner (threads s (current_thread_ptr s)) else 0)"

section \<open>Objects\<close>

definition alloc_process :: "sched \<Rightarrow> u64 \<times> sched" where
  "alloc_process s =
     (let (a, v) = alloc_page_table (s_vmm s)
      in if a = 0 then (0, s\<lparr>s_vmm := v\<rparr>) else (a, s\<lparr>s_vmm := v, procs := (procs s)(a := zero_process)\<rparr>))"

definition alloc_thread :: "sched \<Rightarrow> u64 \<times> sched" where
  "alloc_thread s =
     (let (a, v) = alloc_page_table (s_vmm s)
      in if a = 0 then (0, s\<lparr>s_vmm := v\<rparr>) else (a, s\<lparr>s_vmm := v, threads := (threads s)(a := zero_thread)\<rparr>))"

definition register_process :: "u64 \<Rightarrow> sched \<Rightarrow> sched" where
  "register_process a s = (if a = 0 then s else (upd_proc a (p_next_all_update (\<lambda>_. process_list s)) s)\<lparr>process_list := a\<rparr>)"

definition alloc_kernel_stack :: "sched \<Rightarrow> u64 \<times> sched" where
  "alloc_kernel_stack s =
     (let (a, pm) = pmm_alloc_contiguous KERNEL_STACK_PAGES (vpmm (s_vmm s));
          s = s\<lparr>s_vmm := (s_vmm s)\<lparr>vpmm := pm\<rparr>\<rparr>
      in if a = 0 then (0, s) else (PHYS_TO_VIRT a + KERNEL_STACK_SIZE, s))"

definition free_page :: "u64 \<Rightarrow> sched \<Rightarrow> sched" where
  "free_page a s = s\<lparr>s_vmm := (s_vmm s)\<lparr>vpmm := pmm_free a (vpmm (s_vmm s))\<rparr>\<rparr>"

definition free_stack :: "u64 \<Rightarrow> sched \<Rightarrow> sched" where
  "free_stack top_addr s = s\<lparr>s_vmm := (s_vmm s)\<lparr>vpmm := pmm_free_range (VIRT_TO_PHYS (top_addr - KERNEL_STACK_SIZE)) KERNEL_STACK_PAGES (vpmm (s_vmm s))\<rparr>\<rparr>"

definition thread_entry_stack_top :: "sched \<Rightarrow> u64 \<Rightarrow> u64" where
  "thread_entry_stack_top s t =
     (if t = 0 then 0
      else if t_owner (threads s t) \<noteq> 0 \<and> p_kind (procs s (t_owner (threads s t))) = PROCESS_USER \<and> t_entry_stack (threads s t) \<noteq> 0
      then t_entry_stack (threads s t) else t_kstack (threads s t))"

text \<open>The frame that \<^verbatim>\<open>switch_context\<close> pops for a thread that has not run: six zero registers under the
  address of \<^verbatim>\<open>kthread_trampoline\<close>.\<close>

definition prepare_kernel_thread_stack :: "u64 \<Rightarrow> u64 \<Rightarrow> u64 \<Rightarrow> u64 \<Rightarrow> sched \<Rightarrow> sched" where
  "prepare_kernel_thread_stack trampoline t stack_top entry s =
     (let cell = (\<lambda>i. VIRT_TO_PHYS (stack_top - 8 * i));
          s = s\<lparr>s_vmm := (s_vmm s)\<lparr>ptmem := (ptmem (s_vmm s))(cell 1 := trampoline, cell 2 := 0, cell 3 := 0, cell 4 := 0,
                                     cell 5 := 0, cell 6 := 0, cell 7 := 0)\<rparr>\<rparr>
      in upd_thread t (\<lambda>x. x\<lparr>t_kstack := stack_top, t_entry := entry, t_rsp := stack_top - 56\<rparr>) s)"

section \<open>The ring and the list\<close>

partial_function (option) ring_tail :: "(u64 \<Rightarrow> u64) \<Rightarrow> u64 \<Rightarrow> u64 \<Rightarrow> u64 option" where
  "ring_tail nx first a = (if nx a = first then Some a else ring_tail nx first (nx a))"

definition next_thread :: "sched \<Rightarrow> u64 \<Rightarrow> u64" where
  "next_thread s a = t_next (threads s a)"

definition enqueue :: "u64 \<Rightarrow> sched \<Rightarrow> sched option" where
  "enqueue t s =
     (if current_thread_ptr s = 0 then Some ((upd_thread t (t_next_update (\<lambda>_. t)) s)\<lparr>current_thread_ptr := t\<rparr>)
      else map_option (\<lambda>last_t. upd_thread t (t_next_update (\<lambda>_. current_thread_ptr s)) (upd_thread last_t (t_next_update (\<lambda>_. t)) s))
             (ring_tail (next_thread s) (current_thread_ptr s) (current_thread_ptr s)))"

text \<open>The processes the list leads to from \<open>a\<close>.\<close>

partial_function (option) list_from :: "(u64 \<Rightarrow> u64) \<Rightarrow> u64 \<Rightarrow> u64 list option" where
  "list_from nx a = (if a = 0 then Some [] else Option.bind (list_from nx (nx a)) (\<lambda>l. Some (a # l)))"

definition next_process :: "sched \<Rightarrow> u64 \<Rightarrow> u64" where
  "next_process s a = p_next_all (procs s a)"

definition for_processes :: "(u64 \<Rightarrow> sched \<Rightarrow> sched) \<Rightarrow> sched \<Rightarrow> sched option" where
  "for_processes f s = map_option (\<lambda>l. fold f l s) (list_from (next_process s) (process_list s))"

text \<open>\<open>None\<close> when the search does not end, \<open>Some 0\<close> when it finds nothing.\<close>

partial_function (option) find_process :: "(u64 \<Rightarrow> u64) \<Rightarrow> (u64 \<Rightarrow> bool) \<Rightarrow> u64 \<Rightarrow> u64 option" where
  "find_process nx P a = (if a = 0 then Some 0 else if P a then Some a else find_process nx P (nx a))"

definition sched_find_process :: "u64 \<Rightarrow> sched \<Rightarrow> u64 option" where
  "sched_find_process pid s = find_process (next_process s) (\<lambda>a. p_pid (procs s a) = pid) (process_list s)"

section \<open>Waking\<close>

definition make_ready :: "u64 \<Rightarrow> sched \<Rightarrow> sched" where
  "make_ready t = upd_thread t (\<lambda>x. x\<lparr>t_state := THREAD_READY, t_reason := THREAD_BLOCK_NONE, t_wake := 0\<rparr>)"

definition unblock_process :: "u64 \<Rightarrow> sched \<Rightarrow> sched" where
  "unblock_process p s = (if p_state (procs s p) = PROCESS_BLOCKED then upd_proc p (p_state_update (\<lambda>_. PROCESS_READY)) s else s)"

definition sched_wake_parent_if_waiting :: "u64 \<Rightarrow> sched \<Rightarrow> sched" where
  "sched_wake_parent_if_waiting p s =
     (let q = p_parent (procs s p); t = p_main (procs s q)
      in if p \<noteq> 0 \<and> q \<noteq> 0 \<and> t \<noteq> 0 \<and> t_state (threads s t) = THREAD_BLOCKED
         then unblock_process q (make_ready t s) else s)"

definition wake_if :: "(thread \<Rightarrow> bool) \<Rightarrow> u64 \<Rightarrow> sched \<Rightarrow> sched" where
  "wake_if P p s =
     (let t = p_main (procs s p)
      in if t \<noteq> 0 \<and> t_state (threads s t) = THREAD_BLOCKED \<and> P (threads s t) then unblock_process p (make_ready t s) else s)"

definition wake_due :: "u64 \<Rightarrow> thread \<Rightarrow> bool" where
  "wake_due now t \<longleftrightarrow> (t_reason t = THREAD_BLOCK_SLEEP \<or> t_reason t = THREAD_BLOCK_INPUT \<and> t_wake t \<noteq> 0) \<and> t_wake t \<le> now"

definition wake_blocked_threads :: "sched \<Rightarrow> sched option" where
  "wake_blocked_threads s = for_processes (wake_if (wake_due (uptime_ticks s))) s"

definition sched_wake_input_waiters :: "sched \<Rightarrow> sched option" where
  "sched_wake_input_waiters s = for_processes (wake_if (\<lambda>t. t_reason t = THREAD_BLOCK_INPUT)) s"

definition sched_wake_thread :: "u64 \<Rightarrow> sched \<Rightarrow> sched" where
  "sched_wake_thread t s =
     (if t = 0 then s
      else let p = t_owner (threads s t);
               s = (if t_state (threads s t) = THREAD_BLOCKED then make_ready t s else s)
      in if p \<noteq> 0 \<and> p_state (procs s p) \<in> {PROCESS_BLOCKED, PROCESS_NEW} then upd_proc p (p_state_update (\<lambda>_. PROCESS_READY)) s else s)"

section \<open>Switching\<close>

definition runnable :: "sched \<Rightarrow> u64 \<Rightarrow> bool" where
  "runnable s t \<longleftrightarrow> t_state (threads s t) \<in> {THREAD_READY, THREAD_RUNNING}"

text \<open>The search for the next thread: \<open>laps\<close> looks are left, \<open>idle\<close> is the idle thread once it was seen.\<close>

primrec pick :: "nat \<Rightarrow> sched \<Rightarrow> u64 \<Rightarrow> u64 \<Rightarrow> u64" where
  "pick 0 s next idle = idle"
| "pick (Suc laps) s next idle =
     (if runnable s next \<and> next \<noteq> idle_thread_ptr s then next
      else pick laps s (next_thread s next) (if runnable s next \<and> next = idle_thread_ptr s then next else idle))"

definition MAX_LAPS :: nat where "MAX_LAPS = 1025"

definition switch_to :: "u64 \<Rightarrow> sched \<Rightarrow> sched" where
  "switch_to next s =
     (let prev = current_thread_ptr s;
          s = (if t_state (threads s prev) = THREAD_RUNNING then upd_thread prev (t_state_update (\<lambda>_. THREAD_READY)) s else s);
          s = (upd_thread next (t_state_update (\<lambda>_. THREAD_RUNNING)) s)\<lparr>current_thread_ptr := next\<rparr>;
          s = (if thread_entry_stack_top s next \<noteq> 0 then s\<lparr>tss_rsp0 := thread_entry_stack_top s next\<rparr> else s);
          a = p_space (procs s (t_owner (threads s next)))
      in if a \<noteq> p_space (procs s (t_owner (threads s prev)))
         then s\<lparr>s_vmm := vmm_switch_address_space a (s_vmm s), pf_as := a\<rparr> else s)"

definition dispatch :: "sched \<Rightarrow> sched" where
  "dispatch s =
     (let next = pick MAX_LAPS s (next_thread s (current_thread_ptr s)) 0
      in if next = 0 \<or> next = current_thread_ptr s then s else switch_to next s)"

definition schedule_inner :: "bool \<Rightarrow> sched \<Rightarrow> sched" where
  "schedule_inner force s =
     (if current_thread_ptr s = 0 then s
      else let s = (if force then s else s\<lparr>tick_count := tick_count s + 1\<rparr>)
      in if \<not> force \<and> tick_count s mod SCHED_TICKS \<noteq> 0 then s else dispatch s)"

definition account :: "sched \<Rightarrow> sched" where
  "account s =
     (let p = sched_current_process s
      in if p \<noteq> 0 then upd_proc p (\<lambda>x. x\<lparr>p_cpu_ticks := p_cpu_ticks x + 1\<rparr>) s else s)"

definition schedule :: "sched \<Rightarrow> sched option" where
  "schedule s = map_option (schedule_inner False) (wake_blocked_threads (account (s\<lparr>uptime_ticks := uptime_ticks s + 1\<rparr>)))"

definition sched_yield :: "sched \<Rightarrow> sched" where
  "sched_yield s = schedule_inner True s"

text \<open>The current thread blocks; its process too, unless its state is one of \<open>keep\<close>.\<close>

definition block_current :: "process_state set \<Rightarrow> block_reason \<Rightarrow> u64 \<Rightarrow> sched \<Rightarrow> sched" where
  "block_current keep reason wake s =
     (let t = current_thread_ptr s; p = sched_current_process s;
          s = upd_thread t (\<lambda>x. x\<lparr>t_wake := wake, t_reason := reason, t_state := THREAD_BLOCKED\<rparr>) s;
          s = (if p \<noteq> 0 \<and> p_state (procs s p) \<notin> keep then upd_proc p (p_state_update (\<lambda>_. PROCESS_BLOCKED)) s else s)
      in schedule_inner True s)"

definition sched_sleep :: "u64 \<Rightarrow> sched \<Rightarrow> sched" where
  "sched_sleep ticks s =
     (if current_thread_ptr s = 0 then s
      else if ticks = 0 then sched_yield s
      else block_current {PROCESS_EXITED, PROCESS_REAPED} THREAD_BLOCK_SLEEP (uptime_ticks s + ticks) s)"

definition sched_wait_input :: "sched \<Rightarrow> sched" where
  "sched_wait_input s =
     (if current_thread_ptr s = 0 then s
      else block_current {PROCESS_EXITED, PROCESS_REAPED, PROCESS_STOPPED} THREAD_BLOCK_INPUT 0 s)"

definition sched_wait_input_timeout :: "u64 \<Rightarrow> sched \<Rightarrow> sched" where
  "sched_wait_input_timeout ticks s =
     (if current_thread_ptr s = 0 then s
      else if ticks = 0 then sched_wait_input s
      else block_current {PROCESS_EXITED, PROCESS_REAPED, PROCESS_STOPPED} THREAD_BLOCK_INPUT (uptime_ticks s + ticks) s)"

section \<open>Creating\<close>

text \<open>\<open>root\<close> is \<^verbatim>\<open>vfs_root()\<close>.\<close>

definition proc_create_empty :: "nat \<Rightarrow> process_kind \<Rightarrow> sched \<Rightarrow> u64 \<times> sched" where
  "proc_create_empty root kind s =
     (let (a, s) = alloc_process s
      in if a = 0 then (0, s)
      else let parent = sched_current_process s; pid = next_pid s;
               s = s\<lparr>next_pid := next_pid s + 1\<rparr>;
               s = upd_proc a (\<lambda>x. x\<lparr>p_pid := pid, p_kind := kind, p_state := PROCESS_NEW, p_exit_code := 0, p_space := KernelAS,
                     p_parent := parent, p_session := (if parent \<noteq> 0 then p_session (procs s parent) else pid), p_group := pid,
                     p_fds := (p_fds x)\<lparr>fd_cwd := (if parent \<noteq> 0 then fd_cwd (p_fds (procs s parent)) else root)\<rparr>,
                     p_main := 0\<rparr>) s
      in (a, register_process a s))"

definition start_thread :: "u64 \<Rightarrow> u64 \<Rightarrow> (thread \<Rightarrow> thread) \<Rightarrow> sched \<Rightarrow> sched" where
  "start_thread p t f s =
     (let tid = next_tid s;
          s = upd_proc p (\<lambda>x. x\<lparr>p_main := t, p_state := PROCESS_READY\<rparr>) s
      in upd_thread t (\<lambda>x. f (x\<lparr>t_tid := tid, t_state := THREAD_READY, t_owner := p\<rparr>)) (s\<lparr>next_tid := next_tid s + 1\<rparr>))"

definition proc_create_kernel :: "u64 \<Rightarrow> nat \<Rightarrow> u64 \<Rightarrow> sched \<Rightarrow> (u64 \<times> sched) option" where
  "proc_create_kernel trampoline root entry s =
     (let (p, s) = proc_create_empty root PROCESS_KERNEL s;
          (t, s) = alloc_thread s
      in if p = 0 \<or> t = 0 then Some (0, s)
      else let (stack, s) = alloc_kernel_stack s
      in if stack = 0 then Some (0, free_page p (free_page t s))
      else map_option (\<lambda>s. (p, s)) (enqueue t (prepare_kernel_thread_stack trampoline t stack entry (start_thread p t id s))))"

definition proc_create_user_thread :: "u64 \<Rightarrow> u64 \<Rightarrow> u64 \<Rightarrow> u64 \<Rightarrow> u64 \<Rightarrow> sched \<Rightarrow> (u64 \<times> sched) option" where
  "proc_create_user_thread trampoline p rip rsp entry s =
     (let (t, s) = alloc_thread s
      in if p = 0 \<or> entry = 0 \<or> rip = 0 \<or> rsp = 0 \<or> t = 0 then Some (0, s)
      else let (stack, s) = alloc_kernel_stack s
      in if stack = 0 then Some (0, free_page t s)
      else let (entry_stack, s) = alloc_kernel_stack s
      in if entry_stack = 0 then Some (0, free_page t (free_stack stack s))
      else map_option (\<lambda>s. (t, s)) (enqueue t (prepare_kernel_thread_stack trampoline t stack entry
             (start_thread p t (\<lambda>x. x\<lparr>t_entry_stack := entry_stack, t_user_rip := rip, t_user_rsp := rsp\<rparr>) s))))"

definition boot_process :: "nat \<Rightarrow> u64 \<Rightarrow> process_state \<Rightarrow> u64 \<Rightarrow> u64 \<Rightarrow> u64 \<Rightarrow> sched \<Rightarrow> sched" where
  "boot_process root session st p t pid s =
     register_process p (upd_proc p (\<lambda>x. x\<lparr>p_pid := pid, p_kind := PROCESS_KERNEL, p_state := st, p_exit_code := 0, p_session := session,
        p_group := pid, p_space := KernelAS, p_main := t, p_fds := (p_fds x)\<lparr>fd_cwd := root\<rparr>\<rparr>) (s\<lparr>next_pid := pid + 1\<rparr>))"

definition sched_init :: "u64 \<Rightarrow> u64 \<Rightarrow> nat \<Rightarrow> sched \<Rightarrow> sched" where
  "sched_init trampoline idle_main root s =
     (let (bp, s) = alloc_process s; (bt, s) = alloc_thread s; (ip, s) = alloc_process s; (it, s) = alloc_thread s
      in if bp = 0 \<or> bt = 0 \<or> ip = 0 \<or> it = 0 then s
      else let (bstack, s) = alloc_kernel_stack s; (istack, s) = alloc_kernel_stack s
      in if bstack = 0 \<or> istack = 0 then s
      else let bpid = next_pid s;
               s = boot_process root bpid PROCESS_RUNNING bp bt bpid s;
               btid = next_tid s;
               s = upd_thread bt (\<lambda>x. x\<lparr>t_tid := btid, t_state := THREAD_RUNNING, t_owner := bp, t_kstack := bstack\<rparr>) (s\<lparr>next_tid := btid + 1\<rparr>);
               s = boot_process root bpid PROCESS_READY ip it (next_pid s) s;
               itid = next_tid s;
               s = upd_thread it (\<lambda>x. x\<lparr>t_tid := itid, t_state := THREAD_READY, t_owner := ip\<rparr>) (s\<lparr>next_tid := itid + 1\<rparr>);
               s = (prepare_kernel_thread_stack trampoline it istack idle_main s)\<lparr>idle_thread_ptr := it\<rparr>;
               s = upd_thread it (t_next_update (\<lambda>_. bt)) (upd_thread bt (t_next_update (\<lambda>_. it)) s)
      in s\<lparr>current_thread_ptr := bt, tss_rsp0 := bstack, pf_as := KernelAS\<rparr>)"

section \<open>Control\<close>

definition sched_can_control :: "sched \<Rightarrow> u64 \<Rightarrow> u64 \<Rightarrow> bool" where
  "sched_can_control s actor target \<longleftrightarrow> actor \<noteq> 0 \<and> target \<noteq> 0 \<and> p_kind (procs s target) = PROCESS_USER
     \<and> p_state (procs s target) \<noteq> PROCESS_REAPED \<and> p_session (procs s actor) = p_session (procs s target)"

definition suspend :: "u64 \<Rightarrow> sched \<Rightarrow> int \<times> sched" where
  "suspend target s =
     (let t = p_main (procs s target)
      in if \<not> sched_can_control s (sched_current_process s) target \<or> target = sched_current_process s then (-1, s)
      else if p_state (procs s target) \<in> {PROCESS_EXITED, PROCESS_REAPED, PROCESS_STOPPED} then (-1, s)
      else if t = 0 then (-1, s)
      else let s = upd_proc target (p_state_update (\<lambda>_. PROCESS_STOPPED)) s
      in (0, if t_state (threads s t) \<noteq> THREAD_ZOMBIE then upd_thread t (t_state_update (\<lambda>_. THREAD_STOPPED)) s else s))"

definition sched_suspend_process :: "u64 \<Rightarrow> sched \<Rightarrow> (int \<times> sched) option" where
  "sched_suspend_process pid s = map_option (\<lambda>target. suspend target s) (sched_find_process pid s)"

definition resume :: "u64 \<Rightarrow> sched \<Rightarrow> int \<times> sched" where
  "resume target s =
     (let t = p_main (procs s target); x = threads s t
      in if \<not> sched_can_control s (sched_current_process s) target then (-1, s)
      else if p_state (procs s target) \<noteq> PROCESS_STOPPED then (-1, s)
      else if t = 0 \<or> t_state x \<noteq> THREAD_STOPPED then (-1, s)
      else if t_reason x = THREAD_BLOCK_SLEEP \<and> t_wake x > uptime_ticks s \<or> t_reason x \<in> {THREAD_BLOCK_WAIT_CHILD, THREAD_BLOCK_INPUT}
      then (0, upd_proc target (p_state_update (\<lambda>_. PROCESS_BLOCKED)) (upd_thread t (t_state_update (\<lambda>_. THREAD_BLOCKED)) s))
      else (0, upd_proc target (p_state_update (\<lambda>_. PROCESS_READY)) (make_ready t s)))"

definition sched_resume_process :: "u64 \<Rightarrow> sched \<Rightarrow> (int \<times> sched) option" where
  "sched_resume_process pid s = map_option (\<lambda>target. resume target s) (sched_find_process pid s)"

text \<open>The end of a process: its descriptors are closed, its thread becomes a zombie, its parent is woken.\<close>

definition exit_process :: "u64 \<Rightarrow> u64 \<Rightarrow> sched \<Rightarrow> sched" where
  "exit_process exit_code p s =
     (let t = p_main (procs s p);
          s = upd_proc p (\<lambda>x. x\<lparr>p_fds := fd_proc_exit (p_fds x), p_state := PROCESS_EXITED, p_exit_code := exit_code\<rparr>) s;
          s = upd_thread t (\<lambda>x. x\<lparr>t_reason := THREAD_BLOCK_NONE, t_wake := 0, t_state := THREAD_ZOMBIE\<rparr>) s
      in sched_wake_parent_if_waiting p s)"

definition kill :: "u64 \<Rightarrow> u64 \<Rightarrow> sched \<Rightarrow> int \<times> sched" where
  "kill exit_code target s =
     (let t = p_main (procs s target)
      in if \<not> sched_can_control s (sched_current_process s) target then (-1, s)
      else if p_state (procs s target) \<in> {PROCESS_EXITED, PROCESS_REAPED} then (-1, s)
      else if t = 0 \<or> t = current_thread_ptr s then (-1, s)
      else (0, exit_process exit_code target s))"

definition sched_kill_process :: "u64 \<Rightarrow> u64 \<Rightarrow> sched \<Rightarrow> (int \<times> sched) option" where
  "sched_kill_process pid exit_code s = map_option (\<lambda>target. kill exit_code target s) (sched_find_process pid s)"

definition reap_orphan :: "u64 \<Rightarrow> sched \<Rightarrow> sched" where
  "reap_orphan p s =
     (let q = p_parent (procs s p)
      in if p_state (procs s p) = PROCESS_EXITED \<and> (q = 0 \<or> p_state (procs s q) \<in> {PROCESS_EXITED, PROCESS_REAPED})
         then upd_proc p (p_state_update (\<lambda>_. PROCESS_REAPED)) s else s)"

definition sched_reap_orphans :: "sched \<Rightarrow> sched option" where
  "sched_reap_orphans s = for_processes reap_orphan s"

definition force_exit :: "u64 \<Rightarrow> u64 \<Rightarrow> sched \<Rightarrow> sched" where
  "force_exit exit_code p s =
     (if p_kind (procs s p) = PROCESS_USER \<and> p_state (procs s p) \<notin> {PROCESS_EXITED, PROCESS_REAPED} \<and> p_main (procs s p) \<noteq> 0
      then exit_process exit_code p s else s)"

definition sched_force_exit_all_user_processes :: "u64 \<Rightarrow> sched \<Rightarrow> sched option" where
  "sched_force_exit_all_user_processes exit_code s = for_processes (force_exit exit_code) s"

definition sched_force_exit_current_with_children :: "u64 \<Rightarrow> sched \<Rightarrow> sched option" where
  "sched_force_exit_current_with_children exit_code s =
     (if current_thread_ptr s = 0 \<or> sched_current_process s = 0 then Some s else sched_force_exit_all_user_processes exit_code s)"

definition sched_process_state_name :: "process_state \<Rightarrow> string" where
  "sched_process_state_name st =
     (case st of PROCESS_NEW \<Rightarrow> ''new'' | PROCESS_READY \<Rightarrow> ''ready'' | PROCESS_RUNNING \<Rightarrow> ''running'' | PROCESS_BLOCKED \<Rightarrow> ''blocked''
      | PROCESS_STOPPED \<Rightarrow> ''stopped'' | PROCESS_EXITED \<Rightarrow> ''exited'' | PROCESS_REAPED \<Rightarrow> ''reaped'')"

end
