(* ===== verification/Sched_Inv.thy ===== *)
theory Sched_Inv
  imports Sched
begin

text \<open>
  What every sequence of scheduler calls keeps: the list of processes and the ring of threads are
  sound chains of pages that are in use, the idle thread can always run, and no thread but the current
  one is marked as running.
\<close>

section \<open>Chains of pointers\<close>

primrec path :: "(u64 \<Rightarrow> u64) \<Rightarrow> u64 \<Rightarrow> u64 list \<Rightarrow> u64 \<Rightarrow> bool" where
  "path nx a [] b \<longleftrightarrow> a = b"
| "path nx a (x # xs) b \<longleftrightarrow> x = a \<and> path nx (nx a) xs b"

lemma path_append [simp]: "path nx a (xs @ ys) b \<longleftrightarrow> (\<exists>c. path nx a xs c \<and> path nx c ys b)"
  by (induction xs arbitrary: a) auto

lemma path_upd [simp]: "u \<notin> set xs \<Longrightarrow> path (nx(u := v)) a xs b = path nx a xs b"
  by (induction xs arbitrary: a) auto

lemma path_cong: "path nx a xs b \<Longrightarrow> (\<And>x. x \<in> set xs \<Longrightarrow> nx' x = nx x) \<Longrightarrow> path nx' a xs b"
  by (induction xs arbitrary: a) auto

lemma path_hd: "path nx a xs b \<Longrightarrow> xs \<noteq> [] \<Longrightarrow> hd xs = a"
  by (cases xs) auto

lemma list_from_path: "path nx a ps 0 \<Longrightarrow> 0 \<notin> set ps \<Longrightarrow> list_from nx a = Some ps"
  by (induction ps arbitrary: a) (auto simp: list_from.simps)

lemma find_process_path:
  "path nx a ps 0 \<Longrightarrow> 0 \<notin> set ps \<Longrightarrow> find_process nx P a = Some (case find P ps of None \<Rightarrow> 0 | Some p \<Rightarrow> p)"
  by (induction ps arbitrary: a) (auto simp: find_process.simps)

text \<open>A closed chain, in any of its rotations.\<close>

definition ring :: "(u64 \<Rightarrow> u64) \<Rightarrow> u64 set \<Rightarrow> bool" where
  "ring nx T \<longleftrightarrow> (\<exists>ts. ts \<noteq> [] \<and> distinct ts \<and> set ts = T \<and> path nx (hd ts) ts (hd ts))"

lemma ring_at:
  assumes "ring nx T" "a \<in> T"
  obtains ts where "ts \<noteq> []" "distinct ts" "set ts = T" "path nx a ts a" "hd ts = a"
proof -
  obtain us where us: "us \<noteq> []" "distinct us" "set us = T" "path nx (hd us) us (hd us)" using assms(1) by (auto simp: ring_def)
  obtain xs ys where s: "us = xs @ a # ys" using us(3) assms(2) split_list by metis
  have "path nx a (a # ys @ xs) a" using us(4) s by (cases xs) auto
  then show thesis using that [of "a # ys @ xs"] us s by auto
qed

lemma ring_step: "ring nx T \<Longrightarrow> a \<in> T \<Longrightarrow> nx a \<in> T"
proof -
  assume "ring nx T" "a \<in> T"
  then obtain ts where ts: "ts \<noteq> []" "set ts = T" "path nx a ts a" by (rule ring_at)
  then show "nx a \<in> T" using \<open>a \<in> T\<close> by (cases ts; cases "tl ts") auto
qed

lemma ring_tail_path:
  "path nx a ts f \<Longrightarrow> ts \<noteq> [] \<Longrightarrow> f \<notin> set (tl ts) \<Longrightarrow> ring_tail nx f a = Some (last ts)"
proof (induction ts arbitrary: a)
  case (Cons x xs)
  show ?case
  proof (cases xs)
    case Nil
    then show ?thesis using Cons.prems by (simp add: ring_tail.simps)
  next
    case (Cons y ys)
    then have "nx a = y" "y \<noteq> f" "f \<notin> set (tl xs)" using Cons.prems by auto
    then show ?thesis using Cons.IH [of "nx a"] Cons.prems Cons by (simp add: ring_tail.simps [of _ _ a])
  qed
qed simp

lemma ring_insert:
  assumes "ring nx T" "a \<in> T" "t \<notin> T"
  obtains l where "ring_tail nx a a = Some l" "l \<in> T" "ring (nx(l := t, t := a)) (insert t T)"
proof -
  obtain ts where ts: "ts \<noteq> []" "distinct ts" "set ts = T" "path nx a ts a" "hd ts = a" using ring_at [OF assms(1,2)] .
  have a: "a \<notin> set (tl ts)" using ts(1,2,5) by (cases ts) auto
  have tail: "ring_tail nx a a = Some (last ts)" by (rule ring_tail_path [OF ts(4,1) a])
  obtain us l where s: "ts = us @ [l]" using ts(1) by (metis append_butlast_last_id)
  have "path nx a us l" "nx l = a" using ts(4) s by auto
  moreover have n: "l \<notin> set us" "t \<notin> set us" "t \<noteq> l" using ts s assms(3) by auto
  ultimately have "path (nx(l := t, t := a)) a (ts @ [t]) a" using s by simp
  moreover have "hd (ts @ [t]) = a" using ts(1,5) by simp
  ultimately have "ring (nx(l := t, t := a)) (insert t T)"
    unfolding ring_def using ts assms(3) by (intro exI [of _ "ts @ [t]"]) auto
  then show thesis using that [of "last ts"] tail ts(1,3) s by auto
qed

section \<open>The invariant\<close>

text \<open>Everything the chains and their owners depend on.\<close>

definition shape :: "sched \<Rightarrow> (u64 \<Rightarrow> u64) \<times> (u64 \<Rightarrow> u64 \<times> u64 \<times> process_kind) \<times> (u64 \<Rightarrow> u64) \<times> (u64 \<Rightarrow> u64) \<times> u64 \<times> u64 \<times> u64 \<times> pmm" where
  "shape s = (next_process s, \<lambda>a. (p_main (procs s a), p_pid (procs s a), p_kind (procs s a)), next_thread s, \<lambda>a. t_owner (threads s a),
     process_list s, idle_thread_ptr s, next_pid s, vpmm (s_vmm s))"

definition linked :: "sched \<Rightarrow> u64 list \<Rightarrow> u64 set \<Rightarrow> bool" where
  "linked s ps T \<longleftrightarrow> pmm_inv (vpmm (s_vmm s)) \<and> path (next_process s) (process_list s) ps 0 \<and> distinct ps
     \<and> ring (next_thread s) T \<and> 0 \<notin> set ps \<union> T \<and> set ps \<union> T \<subseteq> owned_addrs (vpmm (s_vmm s))
     \<and> idle_thread_ptr s \<in> T \<and> (\<forall>t \<in> T. t_owner (threads s t) \<in> set ps)
     \<and> (\<forall>p \<in> set ps. p_main (procs s p) \<in> insert 0 T \<and> (p_main (procs s p) = idle_thread_ptr s \<longrightarrow> p_kind (procs s p) = PROCESS_KERNEL))
     \<and> (\<forall>p \<in> set ps. p_main (procs s p) \<noteq> 0 \<longrightarrow> t_owner (threads s (p_main (procs s p))) = p)
     \<and> distinct (map (\<lambda>p. p_pid (procs s p)) ps) \<and> (\<forall>p \<in> set ps. p_pid (procs s p) < next_pid s)"

definition states_ok :: "sched \<Rightarrow> u64 set \<Rightarrow> bool" where
  "states_ok s T \<longleftrightarrow> current_thread_ptr s \<in> T \<and> runnable s (idle_thread_ptr s)
     \<and> (\<forall>t \<in> T. t_state (threads s t) = THREAD_RUNNING \<longrightarrow> t = current_thread_ptr s)"

definition sched_inv :: "sched \<Rightarrow> bool" where
  "sched_inv s \<longleftrightarrow> (\<exists>ps T. linked s ps T \<and> states_ok s T)"

lemma shape_linked: "shape s' = shape s \<Longrightarrow> linked s' ps T = linked s ps T"
proof -
  have "linked s ps T \<longleftrightarrow> (case shape s of (np, pd, nt, own, l, i, n, pm) \<Rightarrow> pmm_inv pm \<and> path np l ps 0 \<and> distinct ps
     \<and> ring nt T \<and> 0 \<notin> set ps \<union> T \<and> set ps \<union> T \<subseteq> owned_addrs pm \<and> i \<in> T \<and> (\<forall>t \<in> T. own t \<in> set ps)
     \<and> (\<forall>p \<in> set ps. fst (pd p) \<in> insert 0 T \<and> (fst (pd p) = i \<longrightarrow> snd (snd (pd p)) = PROCESS_KERNEL))
     \<and> (\<forall>p \<in> set ps. fst (pd p) \<noteq> 0 \<longrightarrow> own (fst (pd p)) = p)
     \<and> distinct (map (\<lambda>p. fst (snd (pd p))) ps) \<and> (\<forall>p \<in> set ps. fst (snd (pd p)) < n))" for s
    by (simp add: linked_def shape_def)
  then show "shape s' = shape s \<Longrightarrow> linked s' ps T = linked s ps T" by simp
qed

lemma upd_proc_simps [simp]:
  "threads (upd_proc a f s) = threads s" "idle_thread_ptr (upd_proc a f s) = idle_thread_ptr s"
  "current_thread_ptr (upd_proc a f s) = current_thread_ptr s" "s_vmm (upd_proc a f s) = s_vmm s"
  "process_list (upd_proc a f s) = process_list s" "next_pid (upd_proc a f s) = next_pid s"
  "procs (upd_proc a f s) = (procs s)(a := f (procs s a))" "uptime_ticks (upd_proc a f s) = uptime_ticks s"
  by (simp_all add: upd_proc_def)

lemma upd_thread_simps [simp]:
  "procs (upd_thread a f s) = procs s" "idle_thread_ptr (upd_thread a f s) = idle_thread_ptr s"
  "current_thread_ptr (upd_thread a f s) = current_thread_ptr s" "s_vmm (upd_thread a f s) = s_vmm s"
  "process_list (upd_thread a f s) = process_list s" "next_pid (upd_thread a f s) = next_pid s"
  "threads (upd_thread a f s) = (threads s)(a := f (threads s a))" "uptime_ticks (upd_thread a f s) = uptime_ticks s"
  by (simp_all add: upd_thread_def)

lemma shape_upd_proc:
  "(\<And>x. p_next_all (f x) = p_next_all x \<and> p_main (f x) = p_main x \<and> p_pid (f x) = p_pid x \<and> p_kind (f x) = p_kind x)
   \<Longrightarrow> shape (upd_proc a f s) = shape s"
  by (simp add: shape_def upd_proc_def next_process_def next_thread_def fun_eq_iff)

lemma shape_upd_thread:
  "(\<And>x. t_next (f x) = t_next x \<and> t_owner (f x) = t_owner x) \<Longrightarrow> shape (upd_thread a f s) = shape s"
  by (simp add: shape_def upd_thread_def next_process_def next_thread_def fun_eq_iff)

lemma shape_simps [simp]:
  "shape (make_ready t s) = shape s"
  "shape (unblock_process p s) = shape s"
  "shape (upd_proc p (p_state_update g) s) = shape s"
  "shape (upd_thread t (t_state_update h) s) = shape s"
  by (simp_all add: make_ready_def unblock_process_def shape_upd_proc shape_upd_thread)

text \<open>Setting threads to states other than running, the idle one to a runnable state if at all.\<close>

lemma states_ok_upd_proc [simp]: "states_ok (upd_proc p f s) T = states_ok s T"
  by (simp add: states_ok_def upd_proc_def runnable_def)

lemma states_ok_unblock [simp]: "states_ok (unblock_process p s) T = states_ok s T"
  by (simp add: unblock_process_def)

lemma states_ok_upd_thread:
  "states_ok s T \<Longrightarrow> t_state (f (threads s t)) \<noteq> THREAD_RUNNING \<Longrightarrow> t \<noteq> idle_thread_ptr s \<or> t_state (f (threads s t)) = THREAD_READY
   \<Longrightarrow> states_ok (upd_thread t f s) T"
  by (auto simp: states_ok_def upd_thread_def runnable_def)

lemma states_ok_make_ready [simp]: "states_ok s T \<Longrightarrow> states_ok (make_ready t s) T"
  unfolding make_ready_def by (rule states_ok_upd_thread) auto

text \<open>What a call may change without touching the chains.\<close>

definition calm :: "sched \<Rightarrow> u64 list \<Rightarrow> u64 set \<Rightarrow> sched \<Rightarrow> bool" where
  "calm s ps T s' \<longleftrightarrow> shape s' = shape s \<and> (states_ok s T \<longrightarrow> states_ok s' T)"

lemma calm_refl [simp]: "calm s ps T s"
  by (simp add: calm_def)

lemma calm_trans: "calm s ps T t \<Longrightarrow> calm t ps T u \<Longrightarrow> calm s ps T u"
  by (simp add: calm_def)

lemma calm_linked: "calm s ps T s' \<Longrightarrow> linked s ps T \<Longrightarrow> linked s' ps T"
  using shape_linked [of s' s] by (simp add: calm_def)

lemma calm_inv: "linked s ps T \<Longrightarrow> states_ok s T \<Longrightarrow> calm s ps T s' \<Longrightarrow> sched_inv s'"
  using calm_linked [of s ps T s'] by (auto simp: sched_inv_def calm_def)

lemma calm_wake_parent: "calm s ps T (sched_wake_parent_if_waiting p s)"
  by (simp add: calm_def sched_wake_parent_if_waiting_def Let_def)

lemma calm_wake_if: "calm s ps T (wake_if P p s)"
  by (simp add: calm_def wake_if_def Let_def)

lemma calm_wake_thread: "calm s ps T (sched_wake_thread t s)"
  by (simp add: calm_def sched_wake_thread_def Let_def)

lemma calm_reap: "calm s ps T (reap_orphan p s)"
  by (simp add: calm_def reap_orphan_def Let_def)

lemma user_not_idle:
  "linked s ps T \<Longrightarrow> p \<in> set ps \<Longrightarrow> p_kind (procs s p) = PROCESS_USER \<Longrightarrow> p_main (procs s p) \<noteq> idle_thread_ptr s"
  by (auto simp: linked_def)

lemma calm_exit:
  assumes "p_main (procs s p) \<noteq> idle_thread_ptr s"
  shows "calm s ps T (exit_process code p s)"
proof -
  let ?u = "upd_proc p (\<lambda>x. x\<lparr>p_fds := fd_proc_exit (p_fds x), p_state := PROCESS_EXITED, p_exit_code := code\<rparr>) s"
  let ?v = "upd_thread (p_main (procs s p)) (\<lambda>x. x\<lparr>t_reason := THREAD_BLOCK_NONE, t_wake := 0, t_state := THREAD_ZOMBIE\<rparr>) ?u"
  have "shape ?v = shape ?u" by (rule shape_upd_thread) simp
  moreover have "shape ?u = shape s" by (rule shape_upd_proc) simp
  moreover have "states_ok ?v T" if "states_ok s T"
    by (rule states_ok_upd_thread) (use that assms in simp_all)
  ultimately have "calm s ps T ?v" by (simp add: calm_def)
  then show ?thesis using calm_trans [OF _ calm_wake_parent [of ?v ps T p]] by (simp add: exit_process_def Let_def)
qed

lemma calm_force_exit: "linked s ps T \<Longrightarrow> p \<in> set ps \<Longrightarrow> calm s ps T (force_exit code p s)"
  using user_not_idle calm_exit by (simp add: force_exit_def)

lemma calm_kill: "linked s ps T \<Longrightarrow> p \<in> set ps \<Longrightarrow> calm s ps T (snd (kill code p s))"
  using user_not_idle calm_exit by (simp add: kill_def sched_can_control_def Let_def)

lemma calm_suspend:
  assumes "linked s ps T" "p \<in> set ps"
  shows "calm s ps T (snd (suspend p s))"
proof (cases "p_kind (procs s p) = PROCESS_USER")
  case True
  let ?u = "upd_proc p (p_state_update (\<lambda>_. PROCESS_STOPPED)) s"
  have i: "p_main (procs s p) \<noteq> idle_thread_ptr ?u" using user_not_idle [OF assms True] by (simp add: upd_proc_def)
  then have "calm s ps T (upd_thread (p_main (procs s p)) (t_state_update (\<lambda>_. THREAD_STOPPED)) ?u)"
    using states_ok_upd_thread [of ?u T "t_state_update (\<lambda>_. THREAD_STOPPED)"] by (simp add: calm_def)
  moreover have "calm s ps T ?u" by (simp add: calm_def)
  ultimately show ?thesis by (simp add: suspend_def Let_def)
qed (simp add: suspend_def sched_can_control_def Let_def)

lemma calm_resume:
  assumes "linked s ps T" "p \<in> set ps"
  shows "calm s ps T (snd (resume p s))"
proof (cases "p_kind (procs s p) = PROCESS_USER")
  case True
  have i: "p_main (procs s p) \<noteq> idle_thread_ptr s" by (rule user_not_idle [OF assms True])
  then have "calm s ps T (upd_thread (p_main (procs s p)) (t_state_update (\<lambda>_. THREAD_BLOCKED)) s)"
    using states_ok_upd_thread [of s T "t_state_update (\<lambda>_. THREAD_BLOCKED)"] by (simp add: calm_def)
  then show ?thesis by (simp add: resume_def calm_def Let_def)
qed (simp add: resume_def sched_can_control_def Let_def)

lemma resume_calm_list:
  assumes "linked s ps T"
  shows "sched_find_process pid s = Some (case find (\<lambda>a. p_pid (procs s a) = pid) ps of None \<Rightarrow> 0 | Some p \<Rightarrow> p)"
    "list_from (next_process s) (process_list s) = Some ps"
  using assms find_process_path [of "next_process s" "process_list s" ps] list_from_path by (auto simp: linked_def sched_find_process_def)

lemma for_processes_calm:
  assumes "linked s ps T" "\<And>p t. linked t ps T \<Longrightarrow> p \<in> set ps \<Longrightarrow> calm t ps T (f p t)"
  shows "\<exists>s'. for_processes f s = Some s' \<and> calm s ps T s'"
proof -
  have "calm s ps T (fold f qs s)" if "set qs \<subseteq> set ps" "linked s ps T" for qs s
    using that
  proof (induction qs arbitrary: s)
    case (Cons q qs)
    have c: "calm s ps T (f q s)" using assms(2) Cons.prems by auto
    then have "calm (f q s) ps T (fold f qs (f q s))" using Cons calm_linked by auto
    then show ?case using calm_trans [OF c] by simp
  qed simp
  then show ?thesis using assms(1) resume_calm_list(2) [OF assms(1)] by (simp add: for_processes_def)
qed

section \<open>Switching\<close>

lemma pick_runs:
  assumes "ring (next_thread s) T" "a \<in> T" "idle = 0 \<or> idle \<in> T \<and> runnable s idle"
  shows "pick n s a idle = 0 \<or> pick n s a idle \<in> T \<and> runnable s (pick n s a idle)"
  using assms
proof (induction n arbitrary: a idle)
  case (Suc n)
  have "next_thread s a \<in> T" by (rule ring_step [OF Suc.prems(1,2)])
  note IH = Suc.IH [OF Suc.prems(1) this, of "if runnable s a \<and> a = idle_thread_ptr s then a else idle"]
  show ?case using IH Suc.prems(2,3) by (cases "runnable s a"; cases "a = idle_thread_ptr s") simp_all
qed simp

text \<open>The threads after a switch.\<close>

lemma switch_to_threads:
  "threads (switch_to n s) = (let th = (if t_state (threads s (current_thread_ptr s)) = THREAD_RUNNING
       then (threads s)(current_thread_ptr s := (threads s (current_thread_ptr s))\<lparr>t_state := THREAD_READY\<rparr>) else threads s)
     in th(n := (th n)\<lparr>t_state := THREAD_RUNNING\<rparr>))"
  "current_thread_ptr (switch_to n s) = n" "idle_thread_ptr (switch_to n s) = idle_thread_ptr s"
  "procs (switch_to n s) = procs s" "process_list (switch_to n s) = process_list s" "next_pid (switch_to n s) = next_pid s"
  "vpmm (s_vmm (switch_to n s)) = vpmm (s_vmm s)" "uptime_ticks (switch_to n s) = uptime_ticks s"
  by (simp_all add: switch_to_def Let_def vmm_switch_address_space_def)

lemma switch_to_shape [simp]: "shape (switch_to n s) = shape s"
  by (auto simp: shape_def next_process_def next_thread_def switch_to_threads Let_def fun_eq_iff)

lemma switch_to_state:
  "t_state (threads (switch_to n s) t) = (if t = n then THREAD_RUNNING
     else if t = current_thread_ptr s \<and> t_state (threads s t) = THREAD_RUNNING then THREAD_READY else t_state (threads s t))"
  by (cases "t = current_thread_ptr s") (simp_all add: switch_to_threads Let_def)

lemma switch_to_states:
  assumes "states_ok s T" "n \<in> T"
  shows "states_ok (switch_to n s) T"
  unfolding states_ok_def
proof (intro conjI ballI impI)
  show "runnable (switch_to n s) (idle_thread_ptr (switch_to n s))"
    using assms(1) by (simp add: states_ok_def runnable_def switch_to_state switch_to_threads(3))
  fix t assume t: "t \<in> T" "t_state (threads (switch_to n s) t) = THREAD_RUNNING"
  have "t = current_thread_ptr s" if "t \<noteq> n"
  proof -
    have "t_state (threads s t) = THREAD_RUNNING" using t(2) that by (simp add: switch_to_state split: if_splits)
    then show ?thesis using assms(1) t(1) by (simp add: states_ok_def)
  qed
  then show "t = current_thread_ptr (switch_to n s)" using t(2) by (auto simp: switch_to_state switch_to_threads(2) split: if_splits)
qed (simp add: assms(2) switch_to_threads(2))

lemma calm_tick [simp]: "calm s ps T (s\<lparr>tick_count := x\<rparr>)" "calm s ps T (s\<lparr>uptime_ticks := x\<rparr>)"
  by (simp_all add: calm_def shape_def next_process_def next_thread_def states_ok_def runnable_def fun_eq_iff)

lemma calm_dispatch:
  assumes "linked s ps T"
  shows "calm s ps T (dispatch s)"
proof (cases "states_ok s T")
  case True
  let ?n = "pick MAX_LAPS s (next_thread s (current_thread_ptr s)) 0"
  have r: "ring (next_thread s) T" "current_thread_ptr s \<in> T" using assms True by (simp_all add: linked_def states_ok_def)
  have "?n = 0 \<or> ?n \<in> T" using pick_runs [OF r(1) ring_step [OF r]] by blast
  then show ?thesis using switch_to_states [OF True, of ?n] by (auto simp add: calm_def dispatch_def Let_def)
qed (simp add: calm_def dispatch_def Let_def)

lemma calm_schedule_inner:
  assumes "linked s ps T"
  shows "calm s ps T (schedule_inner force s)"
proof -
  let ?s = "if force then s else s\<lparr>tick_count := tick_count s + 1\<rparr>"
  have c: "calm s ps T ?s" by simp
  have "calm s ps T (dispatch ?s)" by (rule calm_trans [OF c calm_dispatch [OF calm_linked [OF c assms]]])
  then show ?thesis using c by (simp add: schedule_inner_def Let_def)
qed

lemma calm_account: "calm s ps T (account s)"
  by (simp add: account_def calm_def shape_upd_proc Let_def)

lemma calm_block:
  assumes "linked s ps T" "current_thread_ptr s \<noteq> idle_thread_ptr s"
  shows "calm s ps T (block_current keep r w s)"
proof -
  let ?u = "upd_thread (current_thread_ptr s) (\<lambda>x. x\<lparr>t_wake := w, t_reason := r, t_state := THREAD_BLOCKED\<rparr>) s"
  have "shape ?u = shape s" by (rule shape_upd_thread) simp
  moreover have "states_ok ?u T" if "states_ok s T" by (rule states_ok_upd_thread) (use that assms(2) in simp_all)
  ultimately have u: "calm s ps T (if b then upd_proc q (p_state_update g) ?u else ?u)" for b q g by (simp add: calm_def)
  show ?thesis unfolding block_current_def Let_def
    using calm_trans [OF u calm_schedule_inner [OF calm_linked [OF u assms(1)]]] by simp
qed

section \<open>New pages\<close>

lemma kernel_stack_pages:
  assumes inv: "pmm_inv pm" and eq: "pmm_alloc_contiguous KERNEL_STACK_PAGES pm = (a, pm')"
  shows "if a = 0 then pm' = pm
    else pmm_inv pm' \<and> a \<notin> owned_addrs pm \<and> a + 4096 \<notin> owned_addrs pm \<and> a + 4096 \<noteq> 0 \<and> owned_addrs pm' = owned_addrs pm \<union> {a, a + 4096}"
proof (cases "run_scan (frame_used pm) 2 (\<lambda>_. True) [0..<total_frames pm] 0 0")
  case None
  then show ?thesis using eq by (simp add: pmm_alloc_contiguous_def KERNEL_STACK_PAGES_def)
next
  case (Some r)
  have r: "r + 2 \<le> total_frames pm" "free_run (frame_used pm) r 2" using run_scan_sound [OF Some] by auto
  have e: "a = FRAME_TO_ADDR r" "pm' = take_run r 2 pm" using eq Some by (simp_all add: pmm_alloc_contiguous_def KERNEL_STACK_PAGES_def)
  note T = take_run_spec [OF inv r]
  have wf: "pmm_wf pm" "frame_used pm 0" using inv by (simp_all add: pmm_inv_def)
  have b: "r + 1 < 2 ^ 52" "r < 2 ^ 52" using r(1) wf(1) by (simp_all add: pmm_wf_def)
  have "r \<noteq> 0" using r(2) wf(2) by (metis add_2_eq_Suc' le0 zero_less_Suc add_0)
  then have nz: "a \<noteq> 0" using e(1) FRAME_TO_ADDR_0_iff [OF b(2)] by simp
  have a1: "a + 4096 = FRAME_TO_ADDR (r + 1)" by (simp add: e(1) FRAME_TO_ADDR_eq algebra_simps)
  have "\<not> frame_used pm r" "\<not> frame_used pm (r + 1)" using r(2) by simp_all
  then have u: "r \<notin> used_set pm" "r + 1 \<notin> used_set pm" by (simp_all add: used_set_def)
  have F: "FRAME_TO_ADDR f \<notin> owned_addrs pm" if "f \<notin> used_set pm" "f < 2 ^ 52" for f
    using that used_frame_bound [OF wf(1)] by (auto simp: owned_addrs_def FRAME_TO_ADDR_inj)
  have f: "a \<notin> owned_addrs pm" "a + 4096 \<notin> owned_addrs pm"
    using F [OF u(1) b(2)] F [OF u(2) b(1)] by (simp_all only: e(1) a1 [symmetric] not_False_eq_True)
  have "{r..<r + 2} = {r, r + 1}" by auto
  then have "owned_addrs pm' = owned_addrs pm \<union> {a, a + 4096}" using T by (simp add: e owned_addrs_def a1 [unfolded e(1)] image_Un Un_commute)
  moreover have "a + 4096 \<noteq> 0" using FRAME_TO_ADDR_0_iff [OF b(1)] a1 by simp
  ultimately show ?thesis using T e nz f by simp
qed

lemma page_table_page:
  assumes inv: "pmm_inv (vpmm v)" and eq: "alloc_page_table v = (a, v')"
  shows "if a = 0 then v' = v else pmm_inv (vpmm v') \<and> a \<notin> owned_addrs (vpmm v) \<and> owned_addrs (vpmm v') = insert a (owned_addrs (vpmm v))"
proof -
  obtain p pm where p: "pmm_alloc (vpmm v) = (p, pm)" by force
  show ?thesis
  proof (cases "p = 0")
    case True
    then show ?thesis using pmm_frames.alloc_fail [OF inv] p eq by (simp add: alloc_page_table_def)
  next
    case False
    then have "a = p" "vpmm v' = pm" using eq p by (auto simp: alloc_page_table_def)
    then show ?thesis using pmm_frames.alloc_fresh [OF inv p False] pmm_alloc_inv [OF inv] p False by simp
  qed
qed

lemma linked_vmm:
  "linked s ps T \<Longrightarrow> pmm_inv (vpmm v) \<Longrightarrow> set ps \<union> T \<subseteq> owned_addrs (vpmm v) \<Longrightarrow> linked (s\<lparr>s_vmm := v\<rparr>) ps T"
  by (simp add: linked_def next_process_def [abs_def] next_thread_def [abs_def])

text \<open>A page outside the chains may hold anything.\<close>

lemma ring_upd: "u \<notin> T \<Longrightarrow> ring (nx(u := v)) T = ring nx T"
  by (auto simp: ring_def)

lemma next_upd:
  "next_thread (s\<lparr>threads := th\<rparr>) = (\<lambda>a. t_next (th a))" "next_process (s\<lparr>procs := pr\<rparr>) = (\<lambda>a. p_next_all (pr a))"
  by (simp_all add: next_thread_def [abs_def] next_process_def [abs_def])

lemma linked_new_thread:
  assumes "linked s ps T" "t \<notin> T"
  shows "linked (s\<lparr>threads := (threads s)(t := x)\<rparr>) ps T"
proof -
  have "(\<lambda>a. t_next (((threads s)(t := x)) a)) = (next_thread s)(t := t_next x)" by (auto simp: next_thread_def)
  then show ?thesis using assms by (auto simp: linked_def next_upd ring_upd next_process_def [abs_def])
qed

lemma linked_new_process:
  assumes "linked s ps T" "p \<notin> set ps"
  shows "linked (s\<lparr>procs := (procs s)(p := x)\<rparr>) ps T"
proof -
  have n: "(\<lambda>a. p_next_all (if a = p then x else procs s a)) = (next_process s)(p := p_next_all x)" by (auto simp: next_process_def)
  have "map (\<lambda>q. p_pid (((procs s)(p := x)) q)) ps = map (\<lambda>q. p_pid (procs s q)) ps" using assms(2) by auto
  note m = this [unfolded fun_upd_apply]
  show ?thesis using assms unfolding linked_def by (auto simp: n next_upd next_thread_def [abs_def] m)
qed

lemma linked_register:
  assumes "linked s ps T" "p \<notin> set ps" "p \<noteq> 0" "p \<in> owned_addrs (vpmm (s_vmm s))" "next_pid s + 1 \<noteq> 0"
    "p_next_all x = process_list s" "p_main x = 0" "p_pid x = next_pid s"
  shows "linked (s\<lparr>procs := (procs s)(p := x), process_list := p, next_pid := next_pid s + 1\<rparr>) (p # ps) T"
proof -
  have n: "next_process (s\<lparr>procs := (procs s)(p := x), process_list := p, next_pid := next_pid s + 1\<rparr>) = (next_process s)(p := process_list s)"
    using assms(6) by (auto simp: next_process_def)
  have m: "map (\<lambda>q. p_pid (((procs s)(p := x)) q)) ps = map (\<lambda>q. p_pid (procs s q)) ps" using assms(2) by auto
  have lt: "a < next_pid s + 1" if "a \<le> next_pid s" for a
    using that unatSuc [of "next_pid s"] assms(5) by (simp add: word_less_nat_alt word_le_nat_alt add.commute)
  have "next_pid s \<notin> (\<lambda>q. p_pid (procs s q)) ` set ps" using assms(1) by (auto simp: linked_def)
  then show ?thesis using assms lt unfolding linked_def n
    by (simp add: m [unfolded fun_upd_apply] next_thread_def [abs_def]) (auto intro: less_imp_le)
qed

section \<open>Creating\<close>

text \<open>The pages in \<open>A\<close> are held by the call and in no chain.\<close>

definition holds :: "sched \<Rightarrow> u64 list \<Rightarrow> u64 set \<Rightarrow> u64 set \<Rightarrow> bool" where
  "holds s ps T A \<longleftrightarrow> linked s ps T \<and> states_ok s T \<and> 0 \<notin> A \<and> A \<subseteq> owned_addrs (vpmm (s_vmm s)) \<and> A \<inter> (set ps \<union> T) = {}"

lemma holds_inv: "holds s ps T A \<Longrightarrow> sched_inv s"
  by (auto simp: holds_def sched_inv_def)

lemma holds_vmm:
  assumes "holds s ps T A" "pmm_inv (vpmm v)" "set ps \<union> T \<union> B \<subseteq> owned_addrs (vpmm v)" "0 \<notin> B" "B \<inter> (set ps \<union> T) = {}"
  shows "holds (s\<lparr>s_vmm := v\<rparr>) ps T B"
  using assms linked_vmm [of s ps T v] by (simp add: holds_def states_ok_def runnable_def)

lemma holds_pmm:
  "holds s ps T A \<Longrightarrow> pmm_inv (vpmm (s_vmm s)) \<and> set ps \<union> T \<union> A \<subseteq> owned_addrs (vpmm (s_vmm s)) \<and> 0 \<notin> set ps \<union> T \<union> A \<and> A \<inter> (set ps \<union> T) = {}"
  by (auto simp: holds_def linked_def)

lemma holds_grow:
  assumes "holds s ps T A" "pmm_inv (vpmm v)" "owned_addrs (vpmm v) = owned_addrs (vpmm (s_vmm s)) \<union> B"
    "B \<inter> owned_addrs (vpmm (s_vmm s)) = {}" "0 \<notin> B"
  shows "holds (s\<lparr>s_vmm := v\<rparr>) ps T (A \<union> B)"
  using holds_pmm [OF assms(1)] assms(2-5) by (intro holds_vmm [OF assms(1)]) auto

lemma holds_page:
  assumes "holds s ps T A" "alloc_page_table (s_vmm s) = (a, v)" "a \<noteq> 0"
  shows "holds (s\<lparr>s_vmm := v\<rparr>) ps T (insert a A)" "a \<notin> A"
proof -
  note H = holds_pmm [OF assms(1)]
  note P = page_table_page [OF conjunct1 [OF H] assms(2)]
  show "holds (s\<lparr>s_vmm := v\<rparr>) ps T (insert a A)" using holds_grow [OF assms(1), of v "{a}"] P assms(3) by simp
  show "a \<notin> A" using H P assms(3) by auto
qed

lemma alloc_thread_holds:
  assumes "holds s ps T A" "alloc_thread s = (t, s')"
  shows "if t = 0 then s' = s
    else holds s' ps T (insert t A) \<and> t \<notin> A \<and> threads s' = (threads s)(t := zero_thread) \<and> procs s' = procs s \<and> current_thread_ptr s' = current_thread_ptr s"
proof -
  obtain a v where a: "alloc_page_table (s_vmm s) = (a, v)" by force
  show ?thesis
  proof (cases "t = 0")
    case True
    then show ?thesis using a assms(2) page_table_page [OF conjunct1 [OF holds_pmm [OF assms(1)]] a] by (auto simp: alloc_thread_def split: if_splits)
  next
    case False
    then have s': "a = t" "s' = s\<lparr>s_vmm := v\<rparr>\<lparr>threads := (threads s)(t := zero_thread)\<rparr>" using a assms(2) by (auto simp: alloc_thread_def split: if_splits)
    note P = holds_page [OF assms(1) a, unfolded s'(1), OF False]
    have t: "t \<notin> T" using holds_pmm [OF P(1)] by auto
    have "linked s' ps T" using linked_new_thread [of "s\<lparr>s_vmm := v\<rparr>" ps T t zero_thread] P(1) t by (simp add: s'(2) holds_def)
    moreover have "states_ok s' T" using P(1) t by (auto simp: s'(2) holds_def states_ok_def runnable_def linked_def)
    ultimately have "holds s' ps T (insert t A)" using P(1) by (simp add: holds_def s'(2))
    then show ?thesis using P(2) s'(2) False by simp
  qed
qed

lemma alloc_process_holds:
  assumes "holds s ps T A" "alloc_process s = (p, s')"
  shows "if p = 0 then s' = s
    else holds s' ps T (insert p A) \<and> p \<notin> A \<and> procs s' = (procs s)(p := zero_process) \<and> threads s' = threads s \<and> current_thread_ptr s' = current_thread_ptr s
      \<and> process_list s' = process_list s \<and> next_pid s' = next_pid s"
proof -
  obtain a v where a: "alloc_page_table (s_vmm s) = (a, v)" by force
  show ?thesis
  proof (cases "p = 0")
    case True
    then show ?thesis using a assms(2) page_table_page [OF conjunct1 [OF holds_pmm [OF assms(1)]] a] by (auto simp: alloc_process_def split: if_splits)
  next
    case False
    then have s': "a = p" "s' = s\<lparr>s_vmm := v\<rparr>\<lparr>procs := (procs s)(p := zero_process)\<rparr>" using a assms(2) by (auto simp: alloc_process_def split: if_splits)
    note P = holds_page [OF assms(1) a, unfolded s'(1), OF False]
    have p: "p \<notin> set ps" using holds_pmm [OF P(1)] by auto
    have "linked s' ps T" using linked_new_process [of "s\<lparr>s_vmm := v\<rparr>" ps T p zero_process] P(1) p by (simp add: s'(2) holds_def)
    moreover have "states_ok s' T" using P(1) by (simp add: s'(2) holds_def states_ok_def runnable_def)
    ultimately have "holds s' ps T (insert p A)" using P(1) by (simp add: holds_def s'(2))
    then show ?thesis using P(2) s'(2) False by simp
  qed
qed

definition stack_pages :: "u64 \<Rightarrow> u64 set" where
  "stack_pages top_addr = {VIRT_TO_PHYS (top_addr - KERNEL_STACK_SIZE), VIRT_TO_PHYS (top_addr - KERNEL_STACK_SIZE) + 4096}"

lemma alloc_kernel_stack_holds:
  assumes "holds s ps T A" "alloc_kernel_stack s = (k, s')"
  shows "holds s' ps T A" "k \<noteq> 0 \<Longrightarrow> holds s' ps T (A \<union> stack_pages k) \<and> A \<inter> stack_pages k = {}"
    "\<exists>v. s' = s\<lparr>s_vmm := v\<rparr>"
proof -
  obtain a pm where a: "pmm_alloc_contiguous KERNEL_STACK_PAGES (vpmm (s_vmm s)) = (a, pm)" by force
  let ?s = "s\<lparr>s_vmm := (s_vmm s)\<lparr>vpmm := pm\<rparr>\<rparr>"
  have s': "s' = ?s" "k = (if a = 0 then 0 else PHYS_TO_VIRT a + KERNEL_STACK_SIZE)" using a assms(2) by (auto simp: alloc_kernel_stack_def Let_def split: if_splits)
  note H = holds_pmm [OF assms(1)]
  note K = kernel_stack_pages [OF conjunct1 [OF H] a]
  have g: "holds ?s ps T (A \<union> {a, a + 4096}) \<and> A \<inter> {a, a + 4096} = {}" if "a \<noteq> 0"
    using K that H holds_grow [OF assms(1), of "(s_vmm s)\<lparr>vpmm := pm\<rparr>" "{a, a + 4096}"] by auto
  show "holds s' ps T A"
  proof (cases "a = 0")
    case True
    then show ?thesis using K assms(1) by (simp add: s'(1))
  next
    case False
    then show ?thesis using g by (auto simp: s'(1) holds_def)
  qed
  have "stack_pages (PHYS_TO_VIRT a + KERNEL_STACK_SIZE) = {a, a + 4096}" by (simp add: stack_pages_def PHYS_TO_VIRT_def VIRT_TO_PHYS_def)
  then show "k \<noteq> 0 \<Longrightarrow> holds s' ps T (A \<union> stack_pages k) \<and> A \<inter> stack_pages k = {}" using g s' by (auto split: if_splits)
  show "\<exists>v. s' = s\<lparr>s_vmm := v\<rparr>" using s'(1) by blast
qed

lemma free_page_holds:
  assumes "holds s ps T (insert a A)" "a \<notin> A"
  shows "holds (free_page a s) ps T A"
proof -
  note H = holds_pmm [OF assms(1)]
  then have "owned_addrs (pmm_free a (vpmm (s_vmm s))) = owned_addrs (vpmm (s_vmm s)) - {a}" by (intro pmm_free_owned) auto
  then show ?thesis unfolding free_page_def using H assms(2) pmm_free_inv by (intro holds_vmm [OF assms(1)]) auto
qed

lemma free_stack_holds:
  assumes "holds s ps T (A \<union> stack_pages k)" "A \<inter> stack_pages k = {}"
  shows "holds (free_stack k s) ps T A"
proof -
  let ?a = "VIRT_TO_PHYS (k - KERNEL_STACK_SIZE)"
  have e: "free_stack k s = free_page (?a + 4096) (free_page ?a s)"
  proof -
    have "[0..<unat KERNEL_STACK_PAGES] = [0, 1]" by (simp add: KERNEL_STACK_PAGES_def upt_conv_Cons)
    then show ?thesis by (simp add: free_stack_def free_page_def pmm_free_range_def)
  qed
  have d: "?a + 4096 \<noteq> ?a" by simp
  have "holds (free_page ?a s) ps T (insert (?a + 4096) A)"
    by (rule free_page_holds) (use assms in \<open>auto simp: stack_pages_def insert_commute Un_commute\<close>)
  then show ?thesis unfolding e by (rule free_page_holds) (use assms(2) in \<open>auto simp: stack_pages_def\<close>)
qed

lemma holds_weaken: "holds s ps T A \<Longrightarrow> B \<subseteq> A \<Longrightarrow> holds s ps T B"
  by (auto simp: holds_def)

lemma proc_create_empty_holds:
  assumes "holds s ps T A" "proc_create_empty root kind s = (p, s')" "next_pid s + 1 \<noteq> 0"
  shows "if p = 0 then s' = s
    else holds s' (p # ps) T A \<and> threads s' = threads s \<and> p \<notin> set ps \<and> p_main (procs s' p) = 0 \<and> p_kind (procs s' p) = kind
      \<and> p_pid (procs s' p) = next_pid s"
proof -
  obtain s1 where a: "alloc_process s = (p, s1)"
    using assms(2) by (auto simp: proc_create_empty_def Let_def split: prod.splits if_splits)
  note P = alloc_process_holds [OF assms(1) a]
  show ?thesis
  proof (cases "p = 0")
    case True
    then show ?thesis using P a assms(2) by (simp add: proc_create_empty_def)
  next
    case False
    let ?x = "procs s' p"
    have x: "s' = s1\<lparr>procs := (procs s1)(p := ?x), process_list := p, next_pid := next_pid s1 + 1\<rparr>"
      by (rule sched.equality) (use a assms(2) False in \<open>auto simp: proc_create_empty_def register_process_def upd_proc_def Let_def\<close>)
    have y: "p_next_all ?x = process_list s1" "p_main ?x = 0" "p_pid ?x = next_pid s1" "p_kind ?x = kind"
      using a assms(2) False by (auto simp: proc_create_empty_def register_process_def upd_proc_def Let_def)
    have h: "holds s1 ps T (insert p A)" "p \<notin> A" "next_pid s1 = next_pid s" "threads s1 = threads s" using P False by simp_all
    have "linked (s1\<lparr>procs := (procs s1)(p := ?x), process_list := p, next_pid := next_pid s1 + 1\<rparr>) (p # ps) T"
      by (rule linked_register) (use h assms(3) False y in \<open>auto simp: holds_def\<close>)
    then have l: "linked s' (p # ps) T" using x by simp
    have f: "threads s' = threads s1" "s_vmm s' = s_vmm s1" "current_thread_ptr s' = current_thread_ptr s1" "idle_thread_ptr s' = idle_thread_ptr s1"
      by (subst x, simp)+
    have "states_ok s' T" using h(1) by (simp add: f holds_def states_ok_def runnable_def)
    then have "holds s' (p # ps) T A" using l h(1,2) by (auto simp: holds_def f)
    then show ?thesis using y f h False by (auto simp: holds_def)
  qed
qed

lemma enqueue_holds:
  assumes "holds s ps T A" "t \<in> A" "p \<in> set ps"
    "procs s1 = (procs s)(p := x)" "p_main x = t" "p_next_all x = p_next_all (procs s p)" "p_pid x = p_pid (procs s p)" "p_kind x = p_kind (procs s p)"
    "threads s1 = (threads s)(t := y)" "t_owner y = p" "t_state y = THREAD_READY"
    "process_list s1 = process_list s" "idle_thread_ptr s1 = idle_thread_ptr s" "current_thread_ptr s1 = current_thread_ptr s"
    "next_pid s1 = next_pid s" "vpmm (s_vmm s1) = vpmm (s_vmm s)"
  shows "\<exists>s'. enqueue t s1 = Some s' \<and> holds s' ps (insert t T) (A - {t})"
proof -
  let ?c = "current_thread_ptr s"
  have H: "linked s ps T" "states_ok s T" "t \<notin> T" "t \<noteq> 0" "t \<in> owned_addrs (vpmm (s_vmm s))"
    using assms(1,2) by (auto simp: holds_def)
  have c: "?c \<in> T" "?c \<noteq> 0" using H(1,2) by (auto simp: states_ok_def linked_def)
  have n1: "next_thread s1 = (next_thread s)(t := t_next y)" using assms(9) by (auto simp: next_thread_def)
  have "ring (next_thread s1) T" using H(1,3) by (simp add: n1 ring_upd linked_def)
  then obtain l where l: "ring_tail (next_thread s1) ?c ?c = Some l" "l \<in> T" "ring ((next_thread s1)(l := t, t := ?c)) (insert t T)"
    using ring_insert [OF _ c(1) H(3)] by blast
  let ?s = "upd_thread t (t_next_update (\<lambda>_. ?c)) (upd_thread l (t_next_update (\<lambda>_. t)) s1)"
  have e: "enqueue t s1 = Some ?s" using c(2) l(1) assms(14) by (simp add: enqueue_def)
  have nt: "next_thread ?s = (next_thread s1)(l := t, t := ?c)" by (auto simp: next_thread_def)
  have np: "next_process ?s = next_process s" using assms(4,6) by (auto simp: next_process_def)
  have own: "t_owner (threads ?s a) = (if a = t then p else t_owner (threads s a))" for a using assms(9,10) H(3) l(2) by auto
  have st: "t_state (threads ?s a) = (if a = t then THREAD_READY else t_state (threads s a))" for a using assms(9,11) H(3) l(2) by auto
  have pr: "p_main (procs ?s a) = (if a = p then t else p_main (procs s a))" "p_pid (procs ?s a) = p_pid (procs s a)"
    "p_kind (procs ?s a) = p_kind (procs s a)" for a using assms(4,5,7,8) by auto
  have f: "process_list ?s = process_list s" "idle_thread_ptr ?s = idle_thread_ptr s" "current_thread_ptr ?s = ?c" "next_pid ?s = next_pid s"
    "vpmm (s_vmm ?s) = vpmm (s_vmm s)" using assms(12-16) by simp_all
  have idle: "idle_thread_ptr s \<noteq> t" using H(1,3) by (auto simp: linked_def)
  have mt: "p_main (procs s q) \<noteq> t" if "q \<in> set ps" for q using H(1,3,4) that by (auto simp: linked_def)
  have "linked ?s ps (insert t T)"
    using H(1,4,5) l(3) assms(3) idle mt unfolding linked_def nt np own pr f by (auto simp: linked_def)
  moreover have "states_ok ?s (insert t T)" using H(2) idle unfolding states_ok_def runnable_def st f by auto
  ultimately have "holds ?s ps (insert t T) (A - {t})" using assms(1) unfolding holds_def f by auto
  then show ?thesis using e by blast
qed

lemma start_holds:
  assumes "holds s ps T A" "t \<in> A" "p \<in> set ps" "\<And>x. t_owner (f x) = t_owner x \<and> t_state (f x) = t_state x"
  shows "\<exists>s'. enqueue t (prepare_kernel_thread_stack tr t stack entry (start_thread p t f s)) = Some s' \<and> holds s' ps (insert t T) (A - {t})"
proof (rule enqueue_holds [OF assms(1-3)])
  let ?s = "prepare_kernel_thread_stack tr t stack entry (start_thread p t f s)"
  show "procs ?s = (procs s)(p := (procs s p)\<lparr>p_main := t, p_state := PROCESS_READY\<rparr>)"
    by (simp add: prepare_kernel_thread_stack_def start_thread_def Let_def)
  show "threads ?s = (threads s)(t := (f ((threads s t)\<lparr>t_tid := next_tid s, t_state := THREAD_READY, t_owner := p\<rparr>))
      \<lparr>t_kstack := stack, t_entry := entry, t_rsp := stack - 56\<rparr>)"
    by (simp add: prepare_kernel_thread_stack_def start_thread_def Let_def)
qed (use assms(4) in \<open>simp_all add: prepare_kernel_thread_stack_def start_thread_def Let_def\<close>)

lemma proc_create_user_thread_inv:
  assumes "holds s ps T {}" "p \<in> set ps"
  shows "\<exists>t s'. proc_create_user_thread tr p rip rsp entry s = Some (t, s') \<and> sched_inv s'"
proof -
  obtain t s1 where a: "alloc_thread s = (t, s1)" by force
  note A = alloc_thread_holds [OF assms(1) a]
  obtain k s2 where k: "alloc_kernel_stack s1 = (k, s2)" by force
  obtain l s3 where l: "alloc_kernel_stack s2 = (l, s3)" by force
  let ?ok = "\<not> (p = 0 \<or> entry = 0 \<or> rip = 0 \<or> rsp = 0 \<or> t = 0)"
  note def = proc_create_user_thread_def [of tr p rip rsp entry s]
  have i1: "sched_inv s1" using A assms(1) holds_inv by (cases "t = 0") auto
  consider "\<not> ?ok" | "?ok" "k = 0" | "?ok" "k \<noteq> 0" "l = 0" | "?ok" "k \<noteq> 0" "l \<noteq> 0" by blast
  then show ?thesis
  proof cases
    case 1
    then show ?thesis using i1 by (intro exI [of _ 0] exI [of _ s1]) (auto simp: def a k l)
  next
    case 2
    then have "holds s2 ps T {t}" using alloc_kernel_stack_holds(1) [OF _ k] A by auto
    then show ?thesis using 2 free_page_holds [of s2 ps T t "{}"] holds_inv by (auto simp: def a k l)
  next
    case 3
    then have "holds s1 ps T {t}" using A by simp
    then have "holds s2 ps T ({t} \<union> stack_pages k) \<and> {t} \<inter> stack_pages k = {}" by (rule alloc_kernel_stack_holds(2) [OF _ k 3(2)])
    then have "holds (free_stack k s3) ps T {t}" 
      using alloc_kernel_stack_holds(1) [OF _ l, of ps T "{t} \<union> stack_pages k"] by (intro free_stack_holds) simp_all
    then have "sched_inv (free_page t (free_stack k s3))" by (rule holds_inv [OF free_page_holds]) simp
    then show ?thesis using 3 by (simp add: def a k l)
  next
    case 4
    then have "holds s3 ps T {t}" using alloc_kernel_stack_holds(1) [OF alloc_kernel_stack_holds(1) [OF _ k] l] A by auto
    from start_holds [OF this _ assms(2), of t "\<lambda>x. x\<lparr>t_entry_stack := l, t_user_rip := rip, t_user_rsp := rsp\<rparr>" tr k entry]
    obtain s' where "enqueue t (prepare_kernel_thread_stack tr t k entry (start_thread p t (\<lambda>x. x\<lparr>t_entry_stack := l, t_user_rip := rip, t_user_rsp := rsp\<rparr>) s3)) = Some s'"
      "sched_inv s'" using holds_inv by auto
    then show ?thesis using 4 by (auto simp: def a k l)
  qed
qed

lemma proc_create_kernel_inv:
  assumes "holds s ps T {}" "next_pid s + 1 \<noteq> 0" "proc_create_kernel tr root entry s = Some (p, s')" "p \<noteq> 0"
  shows "sched_inv s'"
proof -
  obtain q s1 where c: "proc_create_empty root PROCESS_KERNEL s = (q, s1)" by force
  obtain t s2 where a: "alloc_thread s1 = (t, s2)" by force
  obtain k s3 where k: "alloc_kernel_stack s2 = (k, s3)" by force
  note def = proc_create_kernel_def [of tr root entry s]
  have ok: "q \<noteq> 0" "t \<noteq> 0" "k \<noteq> 0" using assms(3,4) by (auto simp: def c a k split: if_splits)
  have h: "holds s1 (q # ps) T {}" using proc_create_empty_holds [OF assms(1) c assms(2)] ok by simp
  then have "holds s2 (q # ps) T {t}" using alloc_thread_holds [OF h a] ok by simp
  then have "holds s3 (q # ps) T {t}" by (rule alloc_kernel_stack_holds(1) [OF _ k])
  from start_holds [OF this, of t q id tr k entry]
  obtain u where "enqueue t (prepare_kernel_thread_stack tr t k entry (start_thread q t id s3)) = Some u" "sched_inv u" using holds_inv by auto
  then show ?thesis using assms(3) ok by (simp add: def c a k)
qed

section \<open>Steps\<close>

text \<open>
  The calls of \<^verbatim>\<open>sched.h\<close>, in any order. The idle thread never calls one that blocks, and the
  counter of process numbers does not run over. \<^verbatim>\<open>proc_create_kernel\<close> counts when it succeeds.
\<close>

inductive sched_step :: "sched \<Rightarrow> sched \<Rightarrow> bool" where
  tick: "schedule s = Some s' \<Longrightarrow> sched_step s s'"
| yield: "sched_step s (sched_yield s)"
| sleep: "current_thread_ptr s \<noteq> idle_thread_ptr s \<Longrightarrow> sched_step s (sched_sleep k s)"
| wait_input: "current_thread_ptr s \<noteq> idle_thread_ptr s \<Longrightarrow> sched_step s (sched_wait_input_timeout k s)"
| wake_input: "sched_wake_input_waiters s = Some s' \<Longrightarrow> sched_step s s'"
| wake: "sched_step s (sched_wake_thread t s)"
| suspend: "sched_suspend_process pid s = Some (r, s') \<Longrightarrow> sched_step s s'"
| resume: "sched_resume_process pid s = Some (r, s') \<Longrightarrow> sched_step s s'"
| kill: "sched_kill_process pid code s = Some (r, s') \<Longrightarrow> sched_step s s'"
| reap: "sched_reap_orphans s = Some s' \<Longrightarrow> sched_step s s'"
| force: "sched_force_exit_current_with_children code s = Some s' \<Longrightarrow> sched_step s s'"
| create_empty: "proc_create_empty root kind s = (p, s') \<Longrightarrow> next_pid s + 1 \<noteq> 0 \<Longrightarrow> sched_step s s'"
| create_user: "proc_create_user_thread tr p rip rsp entry s = Some (t, s') \<Longrightarrow> sched_find_process pid s = Some p \<Longrightarrow> p \<noteq> 0 \<Longrightarrow> sched_step s s'"
| create_kernel: "proc_create_kernel tr root entry s = Some (p, s') \<Longrightarrow> p \<noteq> 0 \<Longrightarrow> next_pid s + 1 \<noteq> 0 \<Longrightarrow> sched_step s s'"

inductive_cases sched_stepE: "sched_step s s'"

lemma found_in_list:
  assumes "linked s ps T" "sched_find_process pid s = Some p" "p \<noteq> 0"
  shows "p \<in> set ps"
  using assms(2,3) resume_calm_list(1) [OF assms(1), of pid] by (auto split: option.splits simp: find_Some_iff)

lemma wake_calm: "linked s ps T \<Longrightarrow> \<exists>s'. for_processes (wake_if P) s = Some s' \<and> calm s ps T s'"
  by (erule for_processes_calm) (rule calm_wake_if)

lemma schedule_calm:
  assumes "linked s ps T"
  shows "\<exists>s'. schedule s = Some s' \<and> calm s ps T s'"
proof -
  let ?s = "account (s\<lparr>uptime_ticks := uptime_ticks s + 1\<rparr>)"
  have c: "calm s ps T ?s" by (rule calm_trans [OF calm_tick(2) calm_account])
  note l = calm_linked [OF c assms]
  obtain t where t: "wake_blocked_threads ?s = Some t" "calm ?s ps T t"
    using wake_calm [OF l] by (auto simp: wake_blocked_threads_def)
  have "calm s ps T t" by (rule calm_trans [OF c t(2)])
  then have "calm s ps T (schedule_inner False t)" using calm_trans calm_schedule_inner [OF calm_linked [OF _ assms]] by blast
  then show ?thesis using t(1) by (simp add: schedule_def)
qed

lemma sched_step_inv:
  assumes "sched_step s s'" "sched_inv s"
  shows "sched_inv s'"
proof -
  obtain ps T where l: "linked s ps T" and st: "states_ok s T" using assms(2) by (auto simp: sched_inv_def)
  note settled = calm_inv [OF l st]
  have h: "holds s ps T {}" using l st by (simp add: holds_def)
  have found: "p = 0 \<or> p \<in> set ps" if "sched_find_process pid s = Some p" for pid p using found_in_list [OF l that] by blast
  from assms(1) show ?thesis
  proof (cases rule: sched_step.cases)
    case tick
    then show ?thesis using schedule_calm [OF l] settled by auto
  next
    case yield
    then show ?thesis using calm_schedule_inner [OF l] settled by (simp add: sched_yield_def)
  next
    case (sleep k)
    then show ?thesis using calm_block [OF l] calm_schedule_inner [OF l] settled by (auto simp: sched_sleep_def sched_yield_def)
  next
    case (wait_input k)
    then show ?thesis using calm_block [OF l] settled by (auto simp: sched_wait_input_timeout_def sched_wait_input_def)
  next
    case wake_input
    then show ?thesis using wake_calm [OF l, of "\<lambda>t. t_reason t = THREAD_BLOCK_INPUT"] settled by (auto simp: sched_wake_input_waiters_def)
  next
    case (wake t)
    then show ?thesis using calm_wake_thread settled by blast
  next
    case (suspend pid r)
    then obtain p where "sched_find_process pid s = Some p" "s' = snd (Sched.suspend p s)" by (auto simp: sched_suspend_process_def)
    then show ?thesis using found calm_suspend [OF l] settled by (fastforce simp: Sched.suspend_def sched_can_control_def)
  next
    case (resume pid r)
    then obtain p where "sched_find_process pid s = Some p" "s' = snd (Sched.resume p s)" by (auto simp: sched_resume_process_def)
    then show ?thesis using found calm_resume [OF l] settled by (fastforce simp: Sched.resume_def sched_can_control_def)
  next
    case (kill pid code r)
    then obtain p where "sched_find_process pid s = Some p" "s' = snd (Sched.kill code p s)" by (auto simp: sched_kill_process_def)
    then show ?thesis using found calm_kill [OF l] settled by (fastforce simp: Sched.kill_def sched_can_control_def)
  next
    case reap
    moreover have "\<exists>s'. for_processes reap_orphan s = Some s' \<and> calm s ps T s'" by (rule for_processes_calm [OF l]) (rule calm_reap)
    ultimately show ?thesis using settled by (auto simp: sched_reap_orphans_def)
  next
    case (force code)
    moreover have "\<exists>s'. for_processes (force_exit code) s = Some s' \<and> calm s ps T s'" by (rule for_processes_calm [OF l]) (rule calm_force_exit)
    ultimately show ?thesis using settled assms(2)
      by (auto simp: sched_force_exit_current_with_children_def sched_force_exit_all_user_processes_def split: if_splits)
  next
    case (create_empty root kind p)
    then show ?thesis using proc_create_empty_holds [OF h create_empty] assms(2) holds_inv [of s' "p # ps" T "{}"] by (cases "p = 0") simp_all
  next
    case (create_user tr p rip rsp entry t pid)
    then show ?thesis using proc_create_user_thread_inv [OF h, of p tr rip rsp entry] found by auto
  next
    case (create_kernel tr root entry p)
    then show ?thesis using proc_create_kernel_inv [OF h] by blast
  qed
qed

section \<open>Start\<close>

definition sched_boot :: "vmm \<Rightarrow> (u64 \<Rightarrow> process) \<Rightarrow> (u64 \<Rightarrow> thread) \<Rightarrow> sched" where
  "sched_boot v pr th = \<lparr>s_vmm = v, procs = pr, threads = th, current_thread_ptr = 0, idle_thread_ptr = 0, process_list = 0,
     next_pid = 0, next_tid = 0, tick_count = 0, uptime_ticks = 0, tss_rsp0 = 0, pf_as = KernelAS\<rparr>"

definition owns :: "sched \<Rightarrow> u64 set \<Rightarrow> bool" where
  "owns s A \<longleftrightarrow> pmm_inv (vpmm (s_vmm s)) \<and> A \<subseteq> owned_addrs (vpmm (s_vmm s)) \<and> 0 \<notin> A"

lemma owns_page:
  assumes "owns s A" "alloc_page_table (s_vmm s) = (a, v)" "a \<noteq> 0"
  shows "pmm_inv (vpmm v) \<and> insert a A \<subseteq> owned_addrs (vpmm v) \<and> a \<notin> A"
  using assms page_table_page [of "s_vmm s" a v] by (auto simp: owns_def)

lemma owns_process:
  assumes "owns s A" "alloc_process s = (p, s')" "p \<noteq> 0"
  shows "owns s' (insert p A)" "p \<notin> A" "s' = s\<lparr>s_vmm := s_vmm s', procs := (procs s)(p := zero_process)\<rparr>"
proof -
  obtain a v where a: "alloc_page_table (s_vmm s) = (a, v)" by force
  have s': "a = p" "s' = s\<lparr>s_vmm := v, procs := (procs s)(p := zero_process)\<rparr>" using a assms(2,3) by (auto simp: alloc_process_def split: if_splits)
  have "a \<noteq> 0" using s'(1) assms(3) by simp
  note P = owns_page [OF assms(1) a this]
  show "owns s' (insert p A)" "p \<notin> A" "s' = s\<lparr>s_vmm := s_vmm s', procs := (procs s)(p := zero_process)\<rparr>"
    using P s' assms(1,3) by (simp_all add: owns_def)
qed

lemma owns_thread:
  assumes "owns s A" "alloc_thread s = (p, s')" "p \<noteq> 0"
  shows "owns s' (insert p A)" "p \<notin> A" "s' = s\<lparr>s_vmm := s_vmm s', threads := (threads s)(p := zero_thread)\<rparr>"
proof -
  obtain a v where a: "alloc_page_table (s_vmm s) = (a, v)" by force
  have s': "a = p" "s' = s\<lparr>s_vmm := v, threads := (threads s)(p := zero_thread)\<rparr>" using a assms(2,3) by (auto simp: alloc_thread_def split: if_splits)
  have "a \<noteq> 0" using s'(1) assms(3) by simp
  note P = owns_page [OF assms(1) a this]
  show "owns s' (insert p A)" "p \<notin> A" "s' = s\<lparr>s_vmm := s_vmm s', threads := (threads s)(p := zero_thread)\<rparr>"
    using P s' assms(1,3) by (simp_all add: owns_def)
qed

lemma owns_stack:
  assumes "owns s A" "alloc_kernel_stack s = (k, s')"
  shows "owns s' A" "s' = s\<lparr>s_vmm := s_vmm s'\<rparr>"
proof -
  obtain a pm where a: "pmm_alloc_contiguous KERNEL_STACK_PAGES (vpmm (s_vmm s)) = (a, pm)" by force
  have s': "s' = s\<lparr>s_vmm := (s_vmm s)\<lparr>vpmm := pm\<rparr>\<rparr>" using a assms(2) by (auto simp: alloc_kernel_stack_def Let_def split: if_splits)
  have "pmm_inv pm \<and> owned_addrs (vpmm (s_vmm s)) \<subseteq> owned_addrs pm"
    using kernel_stack_pages [OF _ a] assms(1) by (auto simp: owns_def split: if_splits)
  then show "owns s' A" "s' = s\<lparr>s_vmm := s_vmm s'\<rparr>" using assms(1) s' by (auto simp: owns_def)
qed

definition counters :: "sched \<Rightarrow> u64 \<times> u64 \<times> u64 \<times> u64" where
  "counters s = (process_list s, next_pid s, next_tid s, current_thread_ptr s)"

lemma alloc_counters:
  "alloc_process s = (p, s') \<Longrightarrow> counters s' = counters s"
  "alloc_thread s = (p, s') \<Longrightarrow> counters s' = counters s"
  "alloc_kernel_stack s = (p, s') \<Longrightarrow> counters s' = counters s"
  by (auto simp: alloc_process_def alloc_thread_def alloc_kernel_stack_def counters_def Let_def split: prod.splits if_splits)

lemma sched_init_inv:
  assumes "pmm_inv (vpmm v)" "sched_init tr im root (sched_boot v pr th) = s" "current_thread_ptr s \<noteq> 0"
  shows "sched_inv s"
proof -
  let ?b = "sched_boot v pr th"
  obtain bp s1 where 1: "alloc_process ?b = (bp, s1)" by force
  obtain bt s2 where 2: "alloc_thread s1 = (bt, s2)" by force
  obtain ip s3 where 3: "alloc_process s2 = (ip, s3)" by force
  obtain it s4 where 4: "alloc_thread s3 = (it, s4)" by force
  obtain k s5 where 5: "alloc_kernel_stack s4 = (k, s5)" by force
  obtain l s6 where 6: "alloc_kernel_stack s5 = (l, s6)" by force
  note def = sched_init_def [of tr im root ?b, unfolded Let_def 1 2 3 4 5 6 prod.case]
  have c4: "counters s4 = counters ?b" using alloc_counters(1) [OF 1] alloc_counters(2) [OF 2] alloc_counters(1) [OF 3] alloc_counters(2) [OF 4] by simp
  then have c6: "counters s6 = counters ?b" using alloc_counters(3) [OF 5] alloc_counters(3) [OF 6] by simp
  have cur: "current_thread_ptr s4 = 0" "current_thread_ptr s6 = 0" using c4 c6 by (simp_all add: counters_def sched_boot_def)
  have nz: "bp \<noteq> 0" "bt \<noteq> 0" "ip \<noteq> 0" "it \<noteq> 0" "k \<noteq> 0" "l \<noteq> 0"
    using assms(2,3) cur by (auto simp: def split: if_splits)
  have o0: "owns ?b {}" using assms(1) by (simp add: owns_def sched_boot_def)
  note o1 = owns_process [OF o0 1 nz(1)]
  note o2 = owns_thread [OF o1(1) 2 nz(2)]
  note o3 = owns_process [OF o2(1) 3 nz(3)]
  note o4 = owns_thread [OF o3(1) 4 nz(4)]
  note o6 = owns_stack(1) [OF owns_stack(1) [OF o4(1) 5] 6]
  have d: "bp \<noteq> ip" "bt \<noteq> it" "ip \<noteq> bp" "it \<noteq> bt" using o3(2) o4(2) by auto
  have z: "process_list s6 = 0" "next_pid s6 = 0" "next_tid s6 = 0" using c6 by (simp_all add: counters_def sched_boot_def)
  note e = assms(2) [symmetric, unfolded def]
  have f: "current_thread_ptr s = bt" "idle_thread_ptr s = it" "process_list s = ip" "next_pid s = 2"
    "p_next_all (procs s ip) = bp" "p_next_all (procs s bp) = 0" "p_main (procs s ip) = it" "p_main (procs s bp) = bt"
    "p_kind (procs s ip) = PROCESS_KERNEL" "p_kind (procs s bp) = PROCESS_KERNEL" "p_pid (procs s ip) = 1" "p_pid (procs s bp) = 0"
    "t_next (threads s it) = bt" "t_next (threads s bt) = it" "t_owner (threads s it) = ip" "t_owner (threads s bt) = bp"
    "t_state (threads s it) = THREAD_READY" "t_state (threads s bt) = THREAD_RUNNING" "vpmm (s_vmm s) = vpmm (s_vmm s6)"
    using nz d z by (simp_all add: e boot_process_def register_process_def prepare_kernel_thread_stack_def Let_def)
  have "ring (next_thread s) {bt, it}"
    unfolding ring_def using d f(13,14) by (intro exI [of _ "[bt, it]"]) (auto simp: next_thread_def)
  then have "linked s [ip, bp] {bt, it}" using f nz d o6 unfolding linked_def owns_def by (simp add: next_process_def)
  moreover have "states_ok s {bt, it}" using f d by (simp add: states_ok_def runnable_def)
  ultimately show ?thesis by (auto simp: sched_inv_def)
qed

inductive sched_reachable :: "sched \<Rightarrow> bool" where
  init: "pmm_inv (vpmm v) \<Longrightarrow> current_thread_ptr (sched_init tr im root (sched_boot v pr th)) \<noteq> 0
    \<Longrightarrow> sched_reachable (sched_init tr im root (sched_boot v pr th))"
| step: "sched_reachable s \<Longrightarrow> sched_step s s' \<Longrightarrow> sched_reachable s'"

lemma sched_reachable_inv: "sched_reachable s \<Longrightarrow> sched_inv s"
  by (induction rule: sched_reachable.induct) (blast intro: sched_init_inv sched_step_inv)+

end
