(* ===== verification/Sched_Correct.thy ===== *)
theory Sched_Correct
  imports Sched_Inv
begin

text \<open>
  The properties of the scheduler: the invariant, round-robin scheduling, the control of one process by
  another, and two sequences of calls that break what the code intends.
\<close>

section \<open>A machine to run\<close>

text \<open>Frames 0 to 8 of \<open>n\<close> are in use; \<open>w\<close> is the bitmap.\<close>

definition small_vmm :: "nat \<Rightarrow> u64 \<Rightarrow> vmm" where
  "small_vmm n w = demo_vmm\<lparr>vpmm := demo_pmm\<lparr>bitmap := [w], total_frames := n\<rparr>\<rparr>"

abbreviation roomy :: vmm where "roomy \<equiv> small_vmm 64 0x1FF"
abbreviation full :: vmm where "full \<equiv> small_vmm 11 0xFFFFFFFFFFFFF9FF"

lemma small_vmm_inv: "pmm_inv (vpmm roomy)" "pmm_inv (vpmm full)"
proof -
  have "list_all (frame_used (vpmm roomy)) [64..<64]" "frame_used (vpmm roomy) 0"
    "list_all (frame_used (vpmm full)) [11..<64]" "frame_used (vpmm full) 0" by code_simp+
  then show "pmm_inv (vpmm roomy)" "pmm_inv (vpmm full)"
    by (simp_all add: pmm_inv_exec bitmap_words_def small_vmm_def demo_vmm_def demo_pmm_def)
qed

lemma small_vmm_owned:
  assumes "v = roomy \<or> v = full"
  shows "{0x3000, 0x4000, 0x5000, 0x6000, 0x7000, 0x8000} \<subseteq> owned_addrs (vpmm v)"
proof -
  have "list_all (frame_used (vpmm roomy)) [3, 4, 5, 6, 7, 8]" "list_all (frame_used (vpmm full)) [3, 4, 5, 6, 7, 8]" by code_simp+
  then have "{3, 4, 5, 6, 7, 8} \<subseteq> used_set (vpmm v)" using assms by (auto simp: used_set_def small_vmm_def)
  then have "FRAME_TO_ADDR ` {3, 4, 5, 6, 7, 8} \<subseteq> owned_addrs (vpmm v)" unfolding owned_addrs_def by (rule image_mono)
  then show ?thesis by (simp add: FRAME_TO_ADDR_def)
qed

text \<open>
  A bootstrap process (0x3000), the idle one (0x5000) and a user process (0x7000), with the threads
  0x4000, 0x6000 and 0x8000 in the ring; \<open>c\<close> is the current thread.
\<close>

definition demo_sched :: "vmm \<Rightarrow> u64 \<Rightarrow> sched" where
  "demo_sched v c = (sched_boot v
     ((\<lambda>_. zero_process)(0x3000 := zero_process\<lparr>p_main := 0x4000, p_state := PROCESS_RUNNING, p_space := KernelAS\<rparr>,
       0x5000 := zero_process\<lparr>p_pid := 1, p_main := 0x6000, p_next_all := 0x3000, p_state := PROCESS_READY, p_space := KernelAS\<rparr>,
       0x7000 := zero_process\<lparr>p_pid := 2, p_main := 0x8000, p_next_all := 0x5000, p_kind := PROCESS_USER, p_parent := 0x3000,
         p_state := PROCESS_READY, p_space := KernelAS\<rparr>))
     ((\<lambda>_. zero_thread)(0x4000 := zero_thread\<lparr>t_owner := 0x3000, t_next := 0x6000\<rparr>,
       0x6000 := zero_thread\<lparr>t_owner := 0x5000, t_next := 0x8000\<rparr>, 0x8000 := zero_thread\<lparr>t_owner := 0x7000, t_next := 0x4000\<rparr>)))
     \<lparr>current_thread_ptr := c, idle_thread_ptr := 0x6000, process_list := 0x7000, next_pid := 3, next_tid := 3\<rparr>"

lemma demo_linked:
  assumes "v = roomy \<or> v = full" "c \<in> {0x4000, 0x6000, 0x8000}"
  shows "linked (demo_sched v c) [0x7000, 0x5000, 0x3000] {0x4000, 0x6000, 0x8000} \<and> states_ok (demo_sched v c) {0x4000, 0x6000, 0x8000}"
proof -
  have r: "ring (next_thread (demo_sched v c)) {0x4000, 0x6000, 0x8000}"
    unfolding ring_def by (rule exI [of _ "[0x4000, 0x6000, 0x8000]"]) (simp add: next_thread_def demo_sched_def sched_boot_def)
  have i: "pmm_inv (vpmm v)" using assms(1) small_vmm_inv by auto
  show ?thesis using r i small_vmm_owned [OF assms(1)] assms(2)
    by (simp add: linked_def states_ok_def runnable_def next_process_def demo_sched_def sched_boot_def zero_process_def zero_thread_def)
qed

lemma demo_inv: "v = roomy \<or> v = full \<Longrightarrow> c \<in> {0x4000, 0x6000, 0x8000} \<Longrightarrow> sched_inv (demo_sched v c)"
  using demo_linked by (auto simp: sched_inv_def)

section \<open>Round robin\<close>

lemma pick_first:
  "j < n \<Longrightarrow> runnable s ((next_thread s ^^ j) a) \<Longrightarrow> (next_thread s ^^ j) a \<noteq> idle_thread_ptr s
   \<Longrightarrow> \<exists>i \<le> j. pick n s a d = (next_thread s ^^ i) a \<and> runnable s ((next_thread s ^^ i) a)"
proof (induction n arbitrary: j a d)
  case (Suc n)
  show ?case
  proof (cases "runnable s a \<and> a \<noteq> idle_thread_ptr s")
    case True
    then show ?thesis by (intro exI [of _ 0]) simp
  next
    case False
    then obtain k where k: "j = Suc k" using Suc.prems by (cases j) auto
    have "\<exists>i \<le> k. pick n s (next_thread s a) d' = (next_thread s ^^ i) (next_thread s a) \<and> runnable s ((next_thread s ^^ i) (next_thread s a))" for d'
      using Suc.IH [of k "next_thread s a" d'] Suc.prems by (simp add: k funpow_swap1)
    then obtain i where "i \<le> k" "pick (Suc n) s a d = (next_thread s ^^ Suc i) a" "runnable s ((next_thread s ^^ Suc i) a)"
      using False by (simp add: funpow_swap1) metis
    then show ?thesis using k by (intro exI [of _ "Suc i"]) simp
  qed
qed simp

lemma pick_none:
  "(\<And>j. j < n \<Longrightarrow> \<not> (runnable s ((next_thread s ^^ j) a) \<and> (next_thread s ^^ j) a \<noteq> idle_thread_ptr s)) \<Longrightarrow> pick n s a d \<in> {d, idle_thread_ptr s}"
proof (induction n arbitrary: a d)
  case (Suc n)
  have "\<not> (runnable s ((next_thread s ^^ j) (next_thread s a)) \<and> (next_thread s ^^ j) (next_thread s a) \<noteq> idle_thread_ptr s)" if "j < n" for j
    using Suc.prems [of "Suc j"] that by (simp add: funpow_swap1)
  note IH = Suc.IH [OF this]
  show ?case using IH [of d] IH [of a] Suc.prems [of 0] by auto
qed simp

lemma inv_ring:
  assumes "sched_inv s"
  obtains T where "current_thread_ptr s \<noteq> 0" "\<And>k. (next_thread s ^^ k) (current_thread_ptr s) \<noteq> 0" "sched_inv (sched_yield s)"
proof -
  obtain ps T where l: "linked s ps T" "states_ok s T" using assms by (auto simp: sched_inv_def)
  have r: "ring (next_thread s) T" "0 \<notin> T" "current_thread_ptr s \<in> T" using l by (auto simp: linked_def states_ok_def)
  have "(next_thread s ^^ k) (current_thread_ptr s) \<in> T" for k by (induction k) (use r ring_step in auto)
  then show thesis using that r sched_step_inv [OF sched_step.yield assms] by metis
qed

lemma yield_picks:
  assumes "sched_inv s"
  shows "sched_yield s = (let n = pick MAX_LAPS s (next_thread s (current_thread_ptr s)) 0 in if n = 0 \<or> n = current_thread_ptr s then s else switch_to n s)"
  using inv_ring [OF assms] by (auto simp: sched_yield_def schedule_inner_def dispatch_def Let_def)

lemma switch_to_next [simp]: "next_thread (switch_to n s) = next_thread s"
  by (auto simp: next_thread_def switch_to_threads Let_def)

lemma runs_within:
  "sched_inv s \<Longrightarrow> t = (next_thread s ^^ k) (current_thread_ptr s) \<Longrightarrow> k \<le> MAX_LAPS \<Longrightarrow> runnable s t \<Longrightarrow> t \<noteq> idle_thread_ptr s
   \<Longrightarrow> \<exists>n \<le> k. current_thread_ptr ((sched_yield ^^ n) s) = t"
proof (induction k arbitrary: s rule: less_induct)
  case (less k)
  note inv = less.prems(1)
  let ?c = "current_thread_ptr s"
  show ?case
  proof (cases k)
    case 0
    then show ?thesis using less.prems(2) by (intro exI [of _ 0]) simp
  next
    case (Suc k')
    have t: "t = (next_thread s ^^ k') (next_thread s ?c)" using less.prems(2) by (simp add: Suc funpow_swap1)
    obtain i where i: "i \<le> k'" "pick MAX_LAPS s (next_thread s ?c) 0 = (next_thread s ^^ Suc i) ?c"
      using pick_first [of k' MAX_LAPS s "next_thread s ?c" 0] less.prems(3-5) t Suc by (auto simp: funpow_swap1)
    let ?r = "(next_thread s ^^ Suc i) ?c"
    have rest: "t = (next_thread s ^^ (k' - i)) ?r"
      using less.prems(2) i(1) by (simp only: funpow_add [symmetric, THEN fun_cong, unfolded o_apply] Suc) simp
    have lt: "k' - i < k" "k' - i \<le> MAX_LAPS" using i(1) Suc less.prems(3) by simp_all
    show ?thesis
    proof (cases "?r = ?c")
      case True
      then show ?thesis using less.IH [OF lt(1) inv, of] rest lt(2) less.prems(4,5) by (metis less_imp_le_nat lt(1) order_trans)
    next
      case False
      have nz: "?r \<noteq> 0" by (rule inv_ring [OF inv]) blast
      have y: "sched_yield s = switch_to ?r s" using yield_picks [OF inv] i(2) False nz by (simp add: Let_def)
      let ?s = "switch_to ?r s"
      have inv': "sched_inv ?s" using inv_ring [OF inv] y by metis
      have "runnable ?s t" using less.prems(4) by (simp add: runnable_def switch_to_state)
      then obtain n where n: "n \<le> k' - i" "current_thread_ptr ((sched_yield ^^ n) ?s) = t"
        using less.IH [OF lt(1) inv'] rest lt(2) less.prems(5) by (auto simp: switch_to_threads)
      then show ?thesis using i(1) Suc by (intro exI [of _ "Suc n"]) (simp add: funpow_swap1 y)
    qed
  qed
qed

section \<open>A zombie that runs\<close>

lemma wake_parent_other:
  "t_state (threads s t) \<noteq> THREAD_BLOCKED \<Longrightarrow> threads (sched_wake_parent_if_waiting q s) t = threads s t"
  "p_state (procs s p) \<noteq> PROCESS_BLOCKED \<Longrightarrow> procs (sched_wake_parent_if_waiting q s) p = procs s p"
  by (auto simp: sched_wake_parent_if_waiting_def unblock_process_def make_ready_def Let_def)

lemma exit_self:
  "p_main (procs s p) = t \<Longrightarrow> t_state (threads (exit_process code p s) t) = THREAD_ZOMBIE \<and> p_state (procs (exit_process code p s) p) = PROCESS_EXITED"
  by (simp add: exit_process_def Let_def wake_parent_other)

text \<open>Besides the process itself, its end touches its parent only, and only to wake it.\<close>

lemma exit_frame:
  assumes "p_main (procs s p) = t" "p \<noteq> 0" "q = p_parent (procs s p)" "u = p_main (procs s q)" "s' = exit_process code p s"
    "waiting \<longleftrightarrow> q \<noteq> 0 \<and> u \<noteq> 0 \<and> u \<noteq> t \<and> t_state (threads s u) = THREAD_BLOCKED"
  shows "(\<forall>r. r \<noteq> p \<and> \<not> (waiting \<and> r = q) \<longrightarrow> procs s' r = procs s r) \<and> (\<forall>v. v \<noteq> t \<and> \<not> (waiting \<and> v = u) \<longrightarrow> threads s' v = threads s v)
    \<and> (waiting \<longrightarrow> threads s' u = (threads s u)\<lparr>t_state := THREAD_READY, t_reason := THREAD_BLOCK_NONE, t_wake := 0\<rparr>
         \<and> procs s' q = (if p_state (procs s q) = PROCESS_BLOCKED then (procs s q)\<lparr>p_state := PROCESS_READY\<rparr> else procs s q))"
proof -
  let ?v = "upd_thread t (\<lambda>x. x\<lparr>t_reason := THREAD_BLOCK_NONE, t_wake := 0, t_state := THREAD_ZOMBIE\<rparr>)
    (upd_proc p (\<lambda>x. x\<lparr>p_fds := fd_proc_exit (p_fds x), p_state := PROCESS_EXITED, p_exit_code := code\<rparr>) s)"
  have e: "s' = sched_wake_parent_if_waiting p ?v" using assms(1,5) by (simp add: exit_process_def Let_def)
  have v: "p_parent (procs ?v p) = q" "p_main (procs ?v q) = u"
    using assms(3,4) by (simp_all add: upd_thread_def upd_proc_def)
  have st: "t_state (threads ?v u) = THREAD_BLOCKED \<longleftrightarrow> u \<noteq> t \<and> t_state (threads s u) = THREAD_BLOCKED"
    by (simp add: upd_thread_def upd_proc_def)
  have w: "s' = (if waiting then unblock_process q (make_ready u ?v) else ?v)"
    unfolding e sched_wake_parent_if_waiting_def Let_def v st using assms(2,6) by simp
  have "waiting \<Longrightarrow> q \<noteq> p" using assms(1,4,6) by auto
  then show ?thesis unfolding w using assms(6)
    by (cases waiting) (auto simp: unblock_process_def make_ready_def upd_thread_def upd_proc_def)
qed

lemma exit_other:
  assumes "p_main (procs s q) \<noteq> t" "q \<noteq> p"
  shows "t_state (threads s t) = THREAD_ZOMBIE \<Longrightarrow> t_state (threads (exit_process code q s) t) = THREAD_ZOMBIE"
    "p_state (procs s p) = PROCESS_EXITED \<Longrightarrow> p_state (procs (exit_process code q s) p) = PROCESS_EXITED"
    "p_state (procs s p) \<notin> {PROCESS_EXITED, PROCESS_REAPED} \<Longrightarrow> p_state (procs (exit_process code q s) p) \<notin> {PROCESS_EXITED, PROCESS_REAPED}"
proof -
  let ?u = "upd_proc q (\<lambda>x. x\<lparr>p_fds := fd_proc_exit (p_fds x), p_state := PROCESS_EXITED, p_exit_code := code\<rparr>) s"
  let ?v = "upd_thread (p_main (procs s q)) (\<lambda>x. x\<lparr>t_reason := THREAD_BLOCK_NONE, t_wake := 0, t_state := THREAD_ZOMBIE\<rparr>) ?u"
  have e: "exit_process code q s = sched_wake_parent_if_waiting q ?v" by (simp add: exit_process_def Let_def)
  have v: "threads ?v t = threads s t" "procs ?v p = procs s p" using assms by auto
  show "t_state (threads s t) = THREAD_ZOMBIE \<Longrightarrow> t_state (threads (exit_process code q s) t) = THREAD_ZOMBIE"
    using wake_parent_other(1) [of ?v t q] v by (simp add: e)
  show "p_state (procs s p) = PROCESS_EXITED \<Longrightarrow> p_state (procs (exit_process code q s) p) = PROCESS_EXITED"
    using wake_parent_other(2) [of ?v p q] v by (simp add: e)
  show "p_state (procs s p) \<notin> {PROCESS_EXITED, PROCESS_REAPED} \<Longrightarrow> p_state (procs (exit_process code q s) p) \<notin> {PROCESS_EXITED, PROCESS_REAPED}"
    unfolding e using v(2) by (simp add: sched_wake_parent_if_waiting_def unblock_process_def make_ready_def Let_def)
qed

lemma main_unique:
  assumes "linked s ps T" "p \<in> set ps" "q \<in> set ps" "p_main (procs s p) \<noteq> 0" "p_main (procs s q) = p_main (procs s p)"
  shows "q = p"
proof -
  have "\<forall>p \<in> set ps. p_main (procs s p) \<noteq> 0 \<longrightarrow> t_owner (threads s (p_main (procs s p))) = p" using assms(1) by (simp add: linked_def)
  then show ?thesis using assms(2-5) by metis
qed

text \<open>A loop over the processes, seen from one of them: \<open>B\<close> before its turn, \<open>C\<close> after it.\<close>

lemma for_processes_turn:
  assumes "linked s ps T" "p \<in> set ps" "B s"
    "\<And>q t. linked t ps T \<Longrightarrow> q \<in> set ps \<Longrightarrow> calm t ps T (f q t)"
    "\<And>q t. linked t ps T \<Longrightarrow> q \<in> set ps \<Longrightarrow> q \<noteq> p \<Longrightarrow> B t \<Longrightarrow> B (f q t)"
    "\<And>t. linked t ps T \<Longrightarrow> B t \<Longrightarrow> C (f p t)"
    "\<And>q t. linked t ps T \<Longrightarrow> q \<in> set ps \<Longrightarrow> q \<noteq> p \<Longrightarrow> C t \<Longrightarrow> C (f q t)"
  shows "\<exists>s'. for_processes f s = Some s' \<and> C s' \<and> linked s' ps T \<and> shape s' = shape s"
proof -
  have d: "distinct ps" using assms(1) by (simp add: linked_def)
  obtain xs ys where ps: "ps = xs @ p # ys" using assms(2) split_list by metis
  have go: "P (fold f qs t) \<and> linked (fold f qs t) ps T \<and> shape (fold f qs t) = shape t"
    if "set qs \<subseteq> set ps" "P t" "linked t ps T" "\<And>q t. linked t ps T \<Longrightarrow> q \<in> set qs \<Longrightarrow> P t \<Longrightarrow> P (f q t)" for qs t P
    using that
  proof (induction qs arbitrary: t)
    case (Cons q qs)
    have c: "calm t ps T (f q t)" using assms(4) Cons.prems by auto
    have "P (f q t)" "linked (f q t) ps T" using Cons.prems calm_linked [OF c] by auto
    moreover have "shape (f q t) = shape t" using c by (simp add: calm_def)
    ultimately show ?case using Cons.IH [of "f q t"] Cons.prems by auto
  qed simp
  have 1: "B (fold f xs s) \<and> linked (fold f xs s) ps T \<and> shape (fold f xs s) = shape s"
    using go [of xs B s] assms(1,3,5) d ps by auto
  let ?m = "f p (fold f xs s)"
  have c: "calm (fold f xs s) ps T ?m" using assms(4) 1 assms(2) by blast
  have "C ?m" "linked ?m ps T" using assms(6) 1 calm_linked [OF c] by auto
  then have 2: "C (fold f ys ?m) \<and> linked (fold f ys ?m) ps T \<and> shape (fold f ys ?m) = shape ?m"
    using go [of ys C ?m] assms(7) d ps by auto
  have "list_from (next_process s) (process_list s) = Some ps" by (rule resume_calm_list(2) [OF assms(1)])
  moreover have "fold f ps s = fold f ys ?m" using ps by simp
  ultimately show ?thesis using 1 2 c by (simp add: for_processes_def calm_def)
qed

lemma shape_main: "shape s' = shape s \<Longrightarrow> p_main (procs s' p) = p_main (procs s p) \<and> p_kind (procs s' p) = p_kind (procs s p) \<and> process_list s' = process_list s"
  by (auto simp: shape_def dest: fun_cong)

lemma wake_parent_fields [simp]:
  "current_thread_ptr (sched_wake_parent_if_waiting q s) = current_thread_ptr s"
  "uptime_ticks (sched_wake_parent_if_waiting q s) = uptime_ticks s"
  by (simp_all add: sched_wake_parent_if_waiting_def unblock_process_def make_ready_def Let_def)

lemma exit_fields [simp]:
  "current_thread_ptr (exit_process code q s) = current_thread_ptr s" "uptime_ticks (exit_process code q s) = uptime_ticks s"
  by (simp_all add: exit_process_def Let_def)

lemma killed_thread:
  assumes "linked s ps T" "p \<in> set ps" "p_main (procs s p) = t" "t \<noteq> 0" "p_kind (procs s p) = PROCESS_USER"
    "p_state (procs s p) \<notin> {PROCESS_EXITED, PROCESS_REAPED}"
  shows "\<exists>s'. sched_force_exit_all_user_processes code s = Some s' \<and> linked s' ps T \<and> shape s' = shape s
    \<and> current_thread_ptr s' = current_thread_ptr s \<and> uptime_ticks s' = uptime_ticks s
    \<and> t_state (threads s' t) = THREAD_ZOMBIE \<and> p_state (procs s' p) = PROCESS_EXITED"
proof -
  define K where "K u \<longleftrightarrow> shape u = shape s \<and> current_thread_ptr u = current_thread_ptr s \<and> uptime_ticks u = uptime_ticks s" for u
  define B where "B u \<longleftrightarrow> K u \<and> p_state (procs u p) \<notin> {PROCESS_EXITED, PROCESS_REAPED}" for u
  define C where "C u \<longleftrightarrow> K u \<and> t_state (threads u t) = THREAD_ZOMBIE \<and> p_state (procs u p) = PROCESS_EXITED" for u
  have main: "p_main (procs u p) = t \<and> p_kind (procs u p) = PROCESS_USER" if "K u" for u
    using that assms(3,5) shape_main [of u s p] by (simp add: K_def)
  have keep: "K (force_exit code q u)" if "linked u ps T" "q \<in> set ps" "K u" for q u
    using calm_force_exit [OF that(1,2), of code] that(3) by (auto simp: K_def calm_def force_exit_def)
  have other: "p_main (procs u q) \<noteq> t" if "linked u ps T" "q \<in> set ps" "q \<noteq> p" "K u" for q u
    using main_unique [OF that(1) assms(2) that(2)] main [OF that(4)] assms(4) that(3) by metis
  have "\<exists>s'. for_processes (force_exit code) s = Some s' \<and> C s' \<and> linked s' ps T \<and> shape s' = shape s"
  proof (rule for_processes_turn [OF assms(1,2), where B = B and C = C])
    show "B s" using assms(6) by (simp add: B_def K_def)
    show "calm u ps T (force_exit code q u)" if "linked u ps T" "q \<in> set ps" for q u by (rule calm_force_exit [OF that])
    show "B (force_exit code q u)" if "linked u ps T" "q \<in> set ps" "q \<noteq> p" "B u" for q u
      using that exit_other(3) [OF other [OF that(1-3)] that(3)] keep [OF that(1,2)] by (auto simp: B_def force_exit_def)
    show "C (force_exit code p u)" if "linked u ps T" "B u" for u
      using that keep [OF that(1) assms(2)] exit_self [of u p t] main [of u] assms(4) by (auto simp: B_def C_def force_exit_def)
    show "C (force_exit code q u)" if "linked u ps T" "q \<in> set ps" "q \<noteq> p" "C u" for q u
      using that exit_other(1,2) [OF other [OF that(1-3)] that(3)] keep [OF that(1,2)] by (auto simp: C_def force_exit_def)
  qed
  then show ?thesis by (auto simp: sched_force_exit_all_user_processes_def C_def K_def)
qed

lemma sleeping_thread:
  assumes "linked s ps T" "t = current_thread_ptr s" "t \<noteq> 0" "t \<noteq> idle_thread_ptr s" "k \<noteq> 0" "p = t_owner (threads s t)"
    "p_state (procs s p) = PROCESS_EXITED"
  shows "linked (sched_sleep k s) ps T" "shape (sched_sleep k s) = shape s" "p_state (procs (sched_sleep k s) p) = PROCESS_EXITED"
    "t_state (threads (sched_sleep k s) t) = THREAD_BLOCKED" "t_reason (threads (sched_sleep k s) t) = THREAD_BLOCK_SLEEP"
    "t_wake (threads (sched_sleep k s) t) = uptime_ticks s + k"
proof -
  let ?u = "upd_thread t (\<lambda>x. x\<lparr>t_wake := uptime_ticks s + k, t_reason := THREAD_BLOCK_SLEEP, t_state := THREAD_BLOCKED\<rparr>) s"
  have e: "sched_sleep k s = schedule_inner True ?u"
    using assms(2,3,5,7) by (auto simp: sched_sleep_def block_current_def sched_current_process_def assms(6) Let_def)
  have c: "calm s ps T (sched_sleep k s)"
    using calm_block [OF assms(1)] assms(2-5) by (simp add: sched_sleep_def)
  show "linked (sched_sleep k s) ps T" "shape (sched_sleep k s) = shape s" using c calm_linked [OF c assms(1)] by (simp_all add: calm_def)
  have "threads (dispatch ?u) t = threads ?u t \<and> procs (dispatch ?u) p = procs ?u p"
    using assms(2) by (simp add: dispatch_def Let_def switch_to_threads)
  then have th: "threads (sched_sleep k s) t = threads ?u t" "procs (sched_sleep k s) p = procs s p"
    using assms(2,3) by (simp_all add: e schedule_inner_def)
  show "p_state (procs (sched_sleep k s) p) = PROCESS_EXITED" "t_state (threads (sched_sleep k s) t) = THREAD_BLOCKED"
    "t_reason (threads (sched_sleep k s) t) = THREAD_BLOCK_SLEEP" "t_wake (threads (sched_sleep k s) t) = uptime_ticks s + k"
    using th assms(7) by simp_all
qed

lemma woken_thread:
  assumes "linked s ps T" "p \<in> set ps" "p_main (procs s p) = t" "t \<noteq> 0" "p_state (procs s p) = PROCESS_EXITED"
    "t_state (threads s t) = THREAD_BLOCKED" "wake_due (uptime_ticks s) (threads s t)"
  shows "\<exists>s'. wake_blocked_threads s = Some s' \<and> linked s' ps T \<and> t_state (threads s' t) = THREAD_READY \<and> p_state (procs s' p) = PROCESS_EXITED"
proof -
  let ?f = "wake_if (wake_due (uptime_ticks s))"
  define B where "B u \<longleftrightarrow> shape u = shape s \<and> p_state (procs u p) = PROCESS_EXITED \<and> threads u t = threads s t" for u
  define C where "C u \<longleftrightarrow> shape u = shape s \<and> p_state (procs u p) = PROCESS_EXITED \<and> t_state (threads u t) = THREAD_READY" for u
  have main: "p_main (procs u p) = t" if "shape u = shape s" for u using that assms(3) shape_main [of u s p] by simp
  have other: "p_main (procs u q) \<noteq> t" if "linked u ps T" "q \<in> set ps" "q \<noteq> p" "shape u = shape s" for q u
    using main_unique [OF that(1) assms(2) that(2)] main [OF that(4)] assms(4) that(3) by metis
  have keep: "shape (?f q u) = shape u" for q u using calm_wake_if by (simp add: calm_def)
  have step: "p_state (procs (?f q u) p) = PROCESS_EXITED" if "p_state (procs u p) = PROCESS_EXITED" for q u
    using that by (cases "p = q") (auto simp: wake_if_def unblock_process_def make_ready_def Let_def)
  have th: "threads (?f q u) t = threads u t" if "p_main (procs u q) \<noteq> t" for q u
    using that by (simp add: wake_if_def unblock_process_def make_ready_def Let_def)
  have "\<exists>s'. for_processes ?f s = Some s' \<and> C s' \<and> linked s' ps T \<and> shape s' = shape s"
  proof (rule for_processes_turn [OF assms(1,2), where B = B and C = C])
    show "B s" using assms(5) by (simp add: B_def)
    show "calm u ps T (?f q u)" for q u by (rule calm_wake_if)
    show "B (?f q u)" if "linked u ps T" "q \<in> set ps" "q \<noteq> p" "B u" for q u
      using that th [OF other [OF that(1-3)]] step keep by (simp add: B_def)
    show "C (?f p u)" if "linked u ps T" "B u" for u
    proof -
      have "t_state (threads (?f p u) t) = THREAD_READY"
        using that main [of u] assms(4,6,7) by (simp add: B_def wake_if_def unblock_process_def make_ready_def Let_def)
      then show ?thesis using that(2) step keep by (simp add: B_def C_def)
    qed
    show "C (?f q u)" if "linked u ps T" "q \<in> set ps" "q \<noteq> p" "C u" for q u
      using that th [OF other [OF that(1-3)]] step keep by (simp add: C_def)
  qed
  then show ?thesis by (auto simp: wake_blocked_threads_def C_def)
qed

section \<open>A page freed too early\<close>

lemma find_process_loops: "nx a = a \<Longrightarrow> a \<noteq> 0 \<Longrightarrow> \<not> P a \<Longrightarrow> find_process nx P a = None"
proof (rule ccontr)
  assume a: "nx a = a" "a \<noteq> 0" "\<not> P a" "find_process nx P a \<noteq> None"
  then obtain y where y: "find_process nx P a = Some y" by auto
  have "\<not> (nx a = a \<and> a \<noteq> 0 \<and> \<not> P a)"
    using find_process.raw_induct [where Pa = "\<lambda>((nx, P), b) y. \<not> (nx b = b \<and> b \<noteq> 0 \<and> \<not> P b)", OF _ y] by (auto split: if_splits) metis+
  then show False using a by auto
qed

text \<open>The next page is a function of the set of pages in use.\<close>

lemma alloc_determined:
  assumes "pmm_inv a" "pmm_inv b" "used_set a = used_set b" "total_frames a = total_frames b" "fst (pmm_alloc a) \<noteq> 0"
  shows "fst (pmm_alloc b) = fst (pmm_alloc a)"
proof -
  have ne: "used_set a \<noteq> {..<total_frames a}"
  proof
    assume "used_set a = {..<total_frames a}"
    then have "pmm_alloc a = (0, a)" by (rule pmm_alloc_None [OF assms(1)])
    then show False using assms(5) by simp
  qed
  then have nb: "used_set b \<noteq> {..<total_frames b}" using assms(3,4) by metis
  have least: "\<exists>f. f \<notin> used_set m \<and> (\<forall>g < f. g \<in> used_set m) \<and> fst (pmm_alloc m) = FRAME_TO_ADDR f"
    if "pmm_inv m" "used_set m \<noteq> {..<total_frames m}" for m
    by (rule pmm_alloc_Some [OF that]) auto
  obtain f where f: "f \<notin> used_set a" "\<forall>g < f. g \<in> used_set a" "fst (pmm_alloc a) = FRAME_TO_ADDR f" using least [OF assms(1) ne] by blast
  obtain g where g: "g \<notin> used_set b" "\<forall>h < g. h \<in> used_set b" "fst (pmm_alloc b) = FRAME_TO_ADDR g" using least [OF assms(2) nb] by blast
  have "f = g" using f(1,2) g(1,2) assms(3) by (cases f g rule: linorder_cases) auto
  then show ?thesis using f(3) g(3) by simp
qed

lemma owned_inj:
  assumes "pmm_inv a" "pmm_inv b" "owned_addrs a = owned_addrs b"
  shows "used_set a = used_set b"
proof -
  have "f \<in> used_set d" if "pmm_inv c" "pmm_inv d" "owned_addrs c = owned_addrs d" "f \<in> used_set c" for c d f
  proof -
    have "pmm_wf c" "pmm_wf d" using that(1,2) by (simp_all add: pmm_inv_def)
    note b = used_frame_bound [OF this(1)] used_frame_bound [OF this(2)]
    have "FRAME_TO_ADDR f \<in> owned_addrs d" using that(3,4) by (auto simp: owned_addrs_def)
    then show ?thesis using b that(4) by (auto simp: owned_addrs_def FRAME_TO_ADDR_inj)
  qed
  then show ?thesis using assms by blast
qed

lemma freed_while_listed:
  assumes inv: "sched_inv s" and p: "proc_create_empty root PROCESS_KERNEL s = (p, s1)" "p \<noteq> 0" "next_pid s + 1 \<noteq> 0"
    and t: "alloc_thread s1 = (t, s2)" "t \<noteq> 0" and k: "fst (pmm_alloc_contiguous KERNEL_STACK_PAGES (vpmm (s_vmm s2))) = 0"
  shows "\<exists>s4. proc_create_kernel tr root entry s = Some (0, s4) \<and> process_list s4 = p \<and> p \<notin> owned_addrs (vpmm (s_vmm s4))
    \<and> fst (alloc_page_table (s_vmm s4)) = p \<and> next_pid s4 = next_pid s + 1"
proof -
  obtain ps T where h: "holds s ps T {}" using inv by (auto simp: sched_inv_def holds_def)
  have h1: "holds s1 (p # ps) T {}" using proc_create_empty_holds [OF h p(1,3)] p(2) by simp
  have h2: "holds s2 (p # ps) T {t}" using alloc_thread_holds [OF h1 t(1)] t(2) by simp
  have a1: "alloc_page_table (s_vmm s) = (p, s_vmm s1)"
    using p(1,2) by (auto simp: proc_create_empty_def alloc_process_def register_process_def Let_def split: prod.splits if_splits)
  have a2: "alloc_page_table (s_vmm s1) = (t, s_vmm s2)" using t by (auto simp: alloc_thread_def split: prod.splits if_splits)
  obtain pm where c: "pmm_alloc_contiguous KERNEL_STACK_PAGES (vpmm (s_vmm s2)) = (0, pm)" using k by (metis prod.collapse)
  have "pm = vpmm (s_vmm s2)" using kernel_stack_pages [OF conjunct1 [OF holds_pmm [OF h2]] c] by simp
  then have ks: "alloc_kernel_stack s2 = (0, s2)" using c by (simp add: alloc_kernel_stack_def Let_def)
  let ?s4 = "free_page p (free_page t s2)"
  have e: "proc_create_kernel tr root entry s = Some (0, ?s4)" using p(1,2) t ks by (simp add: proc_create_kernel_def)
  have "path (next_process s1) (process_list s1) (p # ps) 0" using h1 by (simp add: holds_def linked_def)
  then have pl: "process_list ?s4 = p" using alloc_counters(2) [OF t(1)] by (simp add: free_page_def counters_def)
  let ?m0 = "vpmm (s_vmm s)" let ?m1 = "vpmm (s_vmm s1)" let ?m2 = "vpmm (s_vmm s2)"
  have i0: "pmm_inv ?m0" using h holds_pmm by blast
  note P1 = page_table_page [OF i0 a1]
  have i1: "pmm_inv ?m1" "p \<notin> owned_addrs ?m0" "owned_addrs ?m1 = insert p (owned_addrs ?m0)" using P1 p(2) by simp_all
  note P2 = page_table_page [OF i1(1) a2]
  have i2: "pmm_inv ?m2" "t \<notin> owned_addrs ?m1" "owned_addrs ?m2 = insert t (owned_addrs ?m1)" using P2 t(2) by simp_all
  have f1: "owned_addrs (pmm_free t ?m2) = owned_addrs ?m1" using pmm_free_owned [OF i2(1) _ t(2)] i2 by auto
  have f2: "owned_addrs (pmm_free p (pmm_free t ?m2)) = owned_addrs ?m0"
    using pmm_free_owned [OF pmm_free_inv [OF i2(1)] _ p(2)] f1 i1 by auto
  have m4: "vpmm (s_vmm ?s4) = pmm_free p (pmm_free t ?m2)" by (simp add: free_page_def)
  have tot: "total_frames (vpmm v') = total_frames (vpmm v)" if "alloc_page_table v = (a, v')" for a v v'
    using that pmm_alloc_total [of "vpmm v"] by (cases "pmm_alloc (vpmm v)") (auto simp: alloc_page_table_def split: if_splits)
  have "pmm_inv (vpmm (s_vmm ?s4))" using i2(1) pmm_free_inv by (simp add: m4)
  moreover have "used_set ?m0 = used_set (vpmm (s_vmm ?s4))" using owned_inj [OF i0 calculation] f2 m4 by simp
  moreover have "fst (pmm_alloc ?m0) = p" using a1 p(2) by (auto simp: alloc_page_table_def split: prod.splits if_splits)
  ultimately have "fst (pmm_alloc (vpmm (s_vmm ?s4))) = p"
    using alloc_determined [OF i0, of "vpmm (s_vmm ?s4)"] tot [OF a1] tot [OF a2] p(2) by (simp add: m4)
  then have "fst (alloc_page_table (s_vmm ?s4)) = p" using p(2) by (auto simp: alloc_page_table_def split: prod.splits)
  moreover have "next_pid s2 = next_pid s1" using alloc_counters(2) [OF t(1)] by (simp add: counters_def)
  moreover have "next_pid s1 = next_pid s + 1"
    using p(1,2) by (auto simp: proc_create_empty_def alloc_process_def register_process_def Let_def split: prod.splits if_splits)
  ultimately show ?thesis using e pl i1(2) f2 m4 by (auto simp: free_page_def)
qed

lemma registered_twice:
  assumes "process_list s = p" "fst (alloc_page_table (s_vmm s)) = p" "p \<noteq> 0" "pid \<noteq> next_pid s"
  shows "fst (proc_create_empty root kind s) = p \<and> sched_find_process pid (snd (proc_create_empty root kind s)) = None"
proof -
  obtain v where v: "alloc_page_table (s_vmm s) = (p, v)" using assms(2) by (metis prod.collapse)
  let ?s = "snd (proc_create_empty root kind s)"
  have f: "fst (proc_create_empty root kind s) = p" "process_list ?s = p" "p_next_all (procs ?s p) = p" "p_pid (procs ?s p) = next_pid s"
    using v assms(1,3) by (simp_all add: proc_create_empty_def alloc_process_def register_process_def Let_def)
  then show ?thesis
    using find_process_loops [of "next_process ?s" p "\<lambda>a. p_pid (procs ?s a) = pid"] assms(3,4) by (simp add: sched_find_process_def next_process_def)
qed

lemma funpow_2: "(f ^^ 2) x = f (f x)"
  by (simp add: numeral_2_eq_2)

section \<open>Control\<close>

text \<open>A stopped process is not moved by the calls that wake.\<close>

definition stopped :: "sched \<Rightarrow> u64 \<Rightarrow> bool" where
  "stopped s p \<longleftrightarrow> sched_can_control s (sched_current_process s) p \<and> p_state (procs s p) = PROCESS_STOPPED
     \<and> p_main (procs s p) \<noteq> 0 \<and> t_state (threads s (p_main (procs s p))) = THREAD_STOPPED"

lemma stopped_cong:
  assumes "shape u = shape s" "current_thread_ptr u = current_thread_ptr s" "\<And>a. p_session (procs u a) = p_session (procs s a)"
    "procs u p = procs s p" "threads u (p_main (procs s p)) = threads s (p_main (procs s p))"
  shows "stopped u p = stopped s p"
proof -
  have "t_owner (threads u a) = t_owner (threads s a)" for a using assms(1) by (auto simp: shape_def dest: fun_cong)
  then have "sched_current_process u = sched_current_process s" using assms(2) by (simp add: sched_current_process_def)
  then show ?thesis using assms(3-5) by (simp add: stopped_def sched_can_control_def)
qed

lemma stopped_wake_parent:
  assumes "stopped s p"
  shows "stopped (sched_wake_parent_if_waiting q s) p
    \<and> threads (sched_wake_parent_if_waiting q s) (p_main (procs s p)) = threads s (p_main (procs s p))
    \<and> procs (sched_wake_parent_if_waiting q s) p = procs s p"
proof -
  let ?u = "sched_wake_parent_if_waiting q s"
  have s: "t_state (threads s (p_main (procs s p))) \<noteq> THREAD_BLOCKED" "p_state (procs s p) \<noteq> PROCESS_BLOCKED" using assms by (simp_all add: stopped_def)
  note W = wake_parent_other(1) [OF s(1), of q] wake_parent_other(2) [OF s(2), of q]
  have "p_session (procs ?u a) = p_session (procs s a)" for a
    by (simp add: sched_wake_parent_if_waiting_def unblock_process_def make_ready_def Let_def)
  then have "stopped ?u p" using stopped_cong [of ?u s p] calm_wake_parent [of s undefined undefined q] W assms by (simp add: calm_def)
  then show ?thesis using W by simp
qed

lemma stopped_wake_thread:
  assumes "stopped s p"
  shows "stopped (sched_wake_thread (p_main (procs s p)) s) p
    \<and> threads (sched_wake_thread (p_main (procs s p)) s) (p_main (procs s p)) = threads s (p_main (procs s p))
    \<and> procs (sched_wake_thread (p_main (procs s p)) s) p = procs s p"
proof -
  let ?t = "p_main (procs s p)" let ?u = "sched_wake_thread ?t s"
  have W: "threads ?u ?t = threads s ?t" "procs ?u p = procs s p" "current_thread_ptr ?u = current_thread_ptr s"
    using assms by (auto simp: stopped_def sched_wake_thread_def Let_def)
  have "p_session (procs ?u a) = p_session (procs s a)" for a by (simp add: sched_wake_thread_def make_ready_def Let_def)
  then have "stopped ?u p" using stopped_cong [of ?u s p] calm_wake_thread [of s undefined undefined ?t] W assms by (simp add: calm_def)
  then show ?thesis using W by simp
qed

lemma resume_stopped:
  assumes "stopped s p" "x = threads s (p_main (procs s p))"
  shows "t_state (threads (snd (resume p s)) (p_main (procs s p)))
    = (if t_reason x = THREAD_BLOCK_SLEEP \<and> t_wake x > uptime_ticks s \<or> t_reason x \<in> {THREAD_BLOCK_WAIT_CHILD, THREAD_BLOCK_INPUT} then THREAD_BLOCKED else THREAD_READY)"
  using assms by (simp add: stopped_def resume_def make_ready_def Let_def)

lemma suspend_stops:
  assumes "sched_can_control s (sched_current_process s) p" "p \<noteq> sched_current_process s" "p_state (procs s p) \<notin> {PROCESS_EXITED, PROCESS_STOPPED}"
    "p_main (procs s p) \<noteq> 0"
  defines "u \<equiv> snd (suspend p s)"
  shows "suspend p s = (0, u)" "p_state (procs u p) = PROCESS_STOPPED" "p_main (procs u p) = p_main (procs s p)"
    "threads u (p_main (procs s p)) = (if t_state (threads s (p_main (procs s p))) = THREAD_ZOMBIE then threads s (p_main (procs s p))
       else (threads s (p_main (procs s p)))\<lparr>t_state := THREAD_STOPPED\<rparr>)"
    "\<And>q. q \<noteq> p \<Longrightarrow> procs u q = procs s q" "\<And>v. v \<noteq> p_main (procs s p) \<Longrightarrow> threads u v = threads s v"
    "t_state (threads s (p_main (procs s p))) \<noteq> THREAD_ZOMBIE \<Longrightarrow> stopped u p"
proof -
  have st: "p_state (procs s p) \<noteq> PROCESS_REAPED" using assms(1) by (simp add: sched_can_control_def)
  let ?w = "upd_proc p (p_state_update (\<lambda>_. PROCESS_STOPPED)) s" and ?t = "p_main (procs s p)"
  have e: "suspend p s = (0, if t_state (threads s ?t) \<noteq> THREAD_ZOMBIE then upd_thread ?t (t_state_update (\<lambda>_. THREAD_STOPPED)) ?w else ?w)"
    using assms(1-4) st by (simp add: suspend_def Let_def)
  then have u: "u = (if t_state (threads s ?t) \<noteq> THREAD_ZOMBIE then upd_thread ?t (t_state_update (\<lambda>_. THREAD_STOPPED)) ?w else ?w)" by (simp add: u_def)
  show "suspend p s = (0, u)" using e u by simp
  show "p_state (procs u p) = PROCESS_STOPPED" "p_main (procs u p) = ?t" "\<And>q. q \<noteq> p \<Longrightarrow> procs u q = procs s q"
    "\<And>v. v \<noteq> ?t \<Longrightarrow> threads u v = threads s v"
    "threads u ?t = (if t_state (threads s ?t) = THREAD_ZOMBIE then threads s ?t else (threads s ?t)\<lparr>t_state := THREAD_STOPPED\<rparr>)"
    by (simp_all add: u)
  show "stopped u p" if "t_state (threads s ?t) \<noteq> THREAD_ZOMBIE"
    using that assms(1,2,4) by (auto simp: u stopped_def sched_can_control_def sched_current_process_def)
qed

section \<open>Properties\<close>

text \<open>
  C30. In every state the scheduler's calls lead to from \<^verbatim>\<open>sched_init\<close>, in any order: the list of processes
  ends and holds distinct process numbers, so a search by number always returns; the threads form one
  ring of pages that are in use, with their owners in the list; the idle thread can run; and no thread
  but the current one is marked as running. Three kinds of call are left out of these sequences, since they break it or
  are not made: a \<^verbatim>\<open>proc_create_kernel\<close> that fails for lack of a stack (\<open>proc_create_kernel_failure\<close> shows what
  follows), a call that puts the idle thread to sleep, and the creation of a process when the 64-bit counter of process numbers
  wraps.
\<close>
theorem sched_invariant:
  assumes "sched_reachable s"
  shows "\<exists>ps T. list_from (next_process s) (process_list s) = Some ps \<and> distinct (map (\<lambda>p. p_pid (procs s p)) ps)
    \<and> sched_find_process pid s = Some (case find (\<lambda>p. p_pid (procs s p) = pid) ps of None \<Rightarrow> 0 | Some p \<Rightarrow> p)
    \<and> ring (next_thread s) T \<and> set ps \<union> T \<subseteq> owned_addrs (vpmm (s_vmm s)) \<and> (\<forall>t \<in> T. t_owner (threads s t) \<in> set ps)
    \<and> idle_thread_ptr s \<in> T \<and> runnable s (idle_thread_ptr s) \<and> current_thread_ptr s \<in> T
    \<and> (\<forall>t \<in> T. t_state (threads s t) = THREAD_RUNNING \<longrightarrow> t = current_thread_ptr s)"
proof -
  obtain ps T where l: "linked s ps T" "states_ok s T" using sched_reachable_inv [OF assms] by (auto simp: sched_inv_def)
  then show ?thesis using resume_calm_list [OF l(1)] by (intro exI [of _ ps] exI [of _ T]) (auto simp: linked_def states_ok_def)
qed

text \<open>The pages \<^verbatim>\<open>sched_init\<close> gets on a machine of 64 frames.\<close>

lemma init_current:
  assumes "pmm_alloc (vpmm v) = (a1, m1)" "pmm_alloc m1 = (a2, m2)" "pmm_alloc m2 = (a3, m3)" "pmm_alloc m3 = (a4, m4)"
    "pmm_alloc_contiguous KERNEL_STACK_PAGES m4 = (b1, m5)" "pmm_alloc_contiguous KERNEL_STACK_PAGES m5 = (b2, m6)"
    "0 \<notin> {a1, a2, a3, a4, b1, b2, PHYS_TO_VIRT b1 + KERNEL_STACK_SIZE, PHYS_TO_VIRT b2 + KERNEL_STACK_SIZE}"
  shows "current_thread_ptr (sched_init tr im root (sched_boot v pr th)) = a2"
  using assms by (simp add: sched_init_def sched_boot_def alloc_process_def alloc_thread_def alloc_page_table_def alloc_kernel_stack_def Let_def)

theorem sched_invariant_witness:
  "current_thread_ptr (sched_init 1 2 1 (sched_boot roomy (\<lambda>_. zero_process) (\<lambda>_. zero_thread))) = 0xA000
   \<and> (\<exists>T. ring (next_thread (sched_init 1 2 1 (sched_boot roomy (\<lambda>_. zero_process) (\<lambda>_. zero_thread)))) T)"
proof -
  let ?s = "sched_init 1 2 1 (sched_boot roomy (\<lambda>_. zero_process) (\<lambda>_. zero_thread))"
  define m1 where "m1 = snd (pmm_alloc (vpmm roomy))"
  define m2 where "m2 = snd (pmm_alloc m1)"
  define m3 where "m3 = snd (pmm_alloc m2)"
  define m4 where "m4 = snd (pmm_alloc m3)"
  define m5 where "m5 = snd (pmm_alloc_contiguous KERNEL_STACK_PAGES m4)"
  have "fst (pmm_alloc (vpmm roomy)) = 0x9000" "fst (pmm_alloc m1) = 0xA000" "fst (pmm_alloc m2) = 0xB000" "fst (pmm_alloc m3) = 0xC000"
    "fst (pmm_alloc_contiguous KERNEL_STACK_PAGES m4) = 0xD000" "fst (pmm_alloc_contiguous KERNEL_STACK_PAGES m5) = 0xF000"
    unfolding m5_def m4_def m3_def m2_def m1_def by code_simp+
  then have c: "current_thread_ptr ?s = 0xA000"
    by (intro init_current [of _ "0x9000" m1 _ m2 "0xB000" m3 "0xC000" m4 "0xD000" m5 "0xF000" "snd (pmm_alloc_contiguous KERNEL_STACK_PAGES m5)"])
      (simp_all add: m1_def m2_def m3_def m4_def m5_def prod_eq_iff PHYS_TO_VIRT_def PHYSICAL_BASE_def KERNEL_STACK_SIZE_def)
  then have "sched_reachable ?s" by (intro sched_reachable.init small_vmm_inv) simp
  from sched_invariant [OF this, of 0] show ?thesis using c by blast
qed

text \<open>
  C31. Round robin: a thread that can run and is the k-th in the ring after the current one (k at most
  1025) becomes the current thread after at most k calls of \<^verbatim>\<open>sched_yield\<close>. The search looks at 1025
  threads only: if none of these but the idle thread can run, one further on is passed over.
\<close>
theorem sched_round_robin:
  assumes "sched_inv s" "t = (next_thread s ^^ k) (current_thread_ptr s)" "k \<le> 1025" "runnable s t" "t \<noteq> idle_thread_ptr s"
  shows "(\<exists>n \<le> k. current_thread_ptr ((sched_yield ^^ n) s) = t)
    \<and> ((\<forall>j \<in> {1..1025}. \<not> runnable s ((next_thread s ^^ j) (current_thread_ptr s)) \<or> (next_thread s ^^ j) (current_thread_ptr s) = idle_thread_ptr s)
        \<longrightarrow> current_thread_ptr (sched_yield s) \<in> {current_thread_ptr s, idle_thread_ptr s})"
proof (intro conjI impI)
  show "\<exists>n \<le> k. current_thread_ptr ((sched_yield ^^ n) s) = t" using assms by (intro runs_within) (simp_all add: MAX_LAPS_def)
  assume a: "\<forall>j \<in> {1..1025}. \<not> runnable s ((next_thread s ^^ j) (current_thread_ptr s)) \<or> (next_thread s ^^ j) (current_thread_ptr s) = idle_thread_ptr s"
  have "pick MAX_LAPS s (next_thread s (current_thread_ptr s)) 0 \<in> {0, idle_thread_ptr s}"
  proof (rule pick_none)
    fix j assume "j < MAX_LAPS"
    then have "Suc j \<in> {1..1025}" by (simp add: MAX_LAPS_def)
    then show "\<not> (runnable s ((next_thread s ^^ j) (next_thread s (current_thread_ptr s))) \<and> (next_thread s ^^ j) (next_thread s (current_thread_ptr s)) \<noteq> idle_thread_ptr s)"
      using a by (metis funpow_swap1 funpow.simps(2) o_apply)
  qed
  then show "current_thread_ptr (sched_yield s) \<in> {current_thread_ptr s, idle_thread_ptr s}"
    by (auto simp: yield_picks [OF assms(1)] Let_def switch_to_threads(2))
qed

theorem sched_round_robin_witness:
  "\<exists>n \<le> 2. current_thread_ptr ((sched_yield ^^ n) (demo_sched roomy 0x4000)) = 0x8000"
proof -
  have i: "sched_inv (demo_sched roomy 0x4000)" by (rule demo_inv) simp_all
  have "0x8000 = (next_thread (demo_sched roomy 0x4000) ^^ 2) (current_thread_ptr (demo_sched roomy 0x4000))"
    by (simp add: funpow_2 next_thread_def demo_sched_def sched_boot_def)
  from sched_round_robin [OF i this] show ?thesis by (simp add: runnable_def demo_sched_def sched_boot_def zero_thread_def)
qed

text \<open>
  C32. Control by process number, for every number: it always returns. Suspending works exactly on a live
  user process of the caller's session other than the caller, and stops only it and its thread; killing
  works exactly on a live user process of that session whose thread is not the current one, and leaves a
  zombie behind: it changes that process and its thread and, if the parent's thread is blocked, wakes the
  parent, whatever it waits for, and touches nothing else; in all other cases the answer is -1 and nothing changes. A suspended thread that was ready is ready again when
  resumed; one that was waiting for a child or for input waits again, even if what it waited for has come.
\<close>
theorem sched_control:
  assumes "sched_inv s" "sched_find_process pid s = Some p" "t = p_main (procs s p)"
    "par = p_parent (procs s p)" "u = p_main (procs s par)"
    "waiting \<longleftrightarrow> par \<noteq> 0 \<and> u \<noteq> 0 \<and> u \<noteq> t \<and> t_state (threads s u) = THREAD_BLOCKED"
  shows "(if sched_can_control s (sched_current_process s) p \<and> p \<noteq> sched_current_process s
         \<and> p_state (procs s p) \<notin> {PROCESS_EXITED, PROCESS_STOPPED} \<and> t \<noteq> 0
       then \<exists>s'. sched_suspend_process pid s = Some (0, s') \<and> p_state (procs s' p) = PROCESS_STOPPED \<and> \<not> runnable s' t
         \<and> (\<forall>q. q \<noteq> p \<longrightarrow> procs s' q = procs s q) \<and> (\<forall>u. u \<noteq> t \<longrightarrow> threads s' u = threads s u)
         \<and> (t_state (threads s t) = THREAD_READY \<and> t_reason (threads s t) = THREAD_BLOCK_NONE \<longrightarrow> t_state (threads (snd (resume p s')) t) = THREAD_READY)
         \<and> (t_state (threads s t) = THREAD_BLOCKED \<and> t_reason (threads s t) \<in> {THREAD_BLOCK_WAIT_CHILD, THREAD_BLOCK_INPUT}
              \<longrightarrow> t_state (threads (snd (resume p (sched_wake_thread t (sched_wake_parent_if_waiting q s')))) t) = THREAD_BLOCKED)
       else sched_suspend_process pid s = Some (-1, s))
    \<and> (if sched_can_control s (sched_current_process s) p \<and> p_state (procs s p) \<noteq> PROCESS_EXITED \<and> t \<noteq> 0 \<and> t \<noteq> current_thread_ptr s
       then \<exists>s'. sched_kill_process pid code s = Some (0, s') \<and> p_state (procs s' p) = PROCESS_EXITED \<and> t_state (threads s' t) = THREAD_ZOMBIE
         \<and> (\<forall>r. r \<noteq> p \<and> \<not> (waiting \<and> r = par) \<longrightarrow> procs s' r = procs s r)
         \<and> (\<forall>v. v \<noteq> t \<and> \<not> (waiting \<and> v = u) \<longrightarrow> threads s' v = threads s v)
         \<and> (waiting \<longrightarrow> threads s' u = (threads s u)\<lparr>t_state := THREAD_READY, t_reason := THREAD_BLOCK_NONE, t_wake := 0\<rparr>
              \<and> procs s' par = (if p_state (procs s par) = PROCESS_BLOCKED then (procs s par)\<lparr>p_state := PROCESS_READY\<rparr> else procs s par))
       else sched_kill_process pid code s = Some (-1, s))"
proof (intro conjI)
  let ?c = "sched_can_control s (sched_current_process s) p"
  have sus: "sched_suspend_process pid s = Some (suspend p s)" and kil: "sched_kill_process pid code s = Some (kill code p s)"
    using assms(2) by (simp_all add: sched_suspend_process_def sched_kill_process_def)
  show "if ?c \<and> p \<noteq> sched_current_process s \<and> p_state (procs s p) \<notin> {PROCESS_EXITED, PROCESS_STOPPED} \<and> t \<noteq> 0
       then \<exists>s'. sched_suspend_process pid s = Some (0, s') \<and> p_state (procs s' p) = PROCESS_STOPPED \<and> \<not> runnable s' t
         \<and> (\<forall>q. q \<noteq> p \<longrightarrow> procs s' q = procs s q) \<and> (\<forall>u. u \<noteq> t \<longrightarrow> threads s' u = threads s u)
         \<and> (t_state (threads s t) = THREAD_READY \<and> t_reason (threads s t) = THREAD_BLOCK_NONE \<longrightarrow> t_state (threads (snd (resume p s')) t) = THREAD_READY)
         \<and> (t_state (threads s t) = THREAD_BLOCKED \<and> t_reason (threads s t) \<in> {THREAD_BLOCK_WAIT_CHILD, THREAD_BLOCK_INPUT}
              \<longrightarrow> t_state (threads (snd (resume p (sched_wake_thread t (sched_wake_parent_if_waiting q s')))) t) = THREAD_BLOCKED)
       else sched_suspend_process pid s = Some (-1, s)"
  proof (cases "?c \<and> p \<noteq> sched_current_process s \<and> p_state (procs s p) \<notin> {PROCESS_EXITED, PROCESS_STOPPED} \<and> t \<noteq> 0")
    case True
    let ?u = "snd (suspend p s)" and ?v = "sched_wake_parent_if_waiting q (snd (suspend p s))"
    have S: "?c" "p \<noteq> sched_current_process s" "p_state (procs s p) \<notin> {PROCESS_EXITED, PROCESS_STOPPED}" "p_main (procs s p) \<noteq> 0" using True assms(3) by auto
    note U = suspend_stops [OF S, folded assms(3)]
    have ready: "t_state (threads (snd (resume p ?u)) t) = THREAD_READY" if "t_state (threads s t) = THREAD_READY" "t_reason (threads s t) = THREAD_BLOCK_NONE"
      using resume_stopped [OF U(7) refl] U(3,4) that assms(3) by simp
    have blocked: "t_state (threads (snd (resume p (sched_wake_thread t ?v))) t) = THREAD_BLOCKED"
      if "t_state (threads s t) = THREAD_BLOCKED" "t_reason (threads s t) \<in> {THREAD_BLOCK_WAIT_CHILD, THREAD_BLOCK_INPUT}"
    proof -
      have "stopped ?u p" using U(7) that(1) by simp
      note V = stopped_wake_parent [OF this, of q]
      have m: "p_main (procs ?v p) = t" using V U(3) assms(3) by simp
      note W = stopped_wake_thread [OF conjunct1 [OF V], unfolded m]
      have "p_main (procs (sched_wake_thread t ?v) p) = t" using W m by simp
      then show ?thesis using resume_stopped [OF conjunct1 [OF W] refl] W V U(3,4) that assms(3) by auto
    qed
    have "\<not> runnable ?u t" using U(4) by (simp add: runnable_def)
    then show ?thesis using True sus U ready blocked assms(3) by (intro if_P [THEN iffD2] exI [of _ ?u]) auto
  next
    case False
    then have "suspend p s = (-1, s)" using assms(3) by (auto simp: suspend_def sched_can_control_def Let_def)
    then show ?thesis using False sus by (simp add: assms(3))
  qed
  show "if ?c \<and> p_state (procs s p) \<noteq> PROCESS_EXITED \<and> t \<noteq> 0 \<and> t \<noteq> current_thread_ptr s
       then \<exists>s'. sched_kill_process pid code s = Some (0, s') \<and> p_state (procs s' p) = PROCESS_EXITED \<and> t_state (threads s' t) = THREAD_ZOMBIE
         \<and> (\<forall>r. r \<noteq> p \<and> \<not> (waiting \<and> r = par) \<longrightarrow> procs s' r = procs s r)
         \<and> (\<forall>v. v \<noteq> t \<and> \<not> (waiting \<and> v = u) \<longrightarrow> threads s' v = threads s v)
         \<and> (waiting \<longrightarrow> threads s' u = (threads s u)\<lparr>t_state := THREAD_READY, t_reason := THREAD_BLOCK_NONE, t_wake := 0\<rparr>
              \<and> procs s' par = (if p_state (procs s par) = PROCESS_BLOCKED then (procs s par)\<lparr>p_state := PROCESS_READY\<rparr> else procs s par))
       else sched_kill_process pid code s = Some (-1, s)"
  proof (cases "?c \<and> p_state (procs s p) \<noteq> PROCESS_EXITED \<and> t \<noteq> 0 \<and> t \<noteq> current_thread_ptr s")
    case True
    then have "kill code p s = (0, exit_process code p s)" using assms(3) by (simp add: kill_def sched_can_control_def Let_def)
    then have k: "sched_kill_process pid code s = Some (0, exit_process code p s)" using kil by simp
    have "p \<noteq> 0" using True by (simp add: sched_can_control_def)
    note F = exit_frame [OF assms(3) [symmetric] this assms(4,5) refl assms(6), of code]
    note E = exit_self [OF assms(3) [symmetric], of code]
    show ?thesis unfolding if_P [OF True]
      by (rule exI [of _ "exit_process code p s"]) (intro conjI k E [THEN conjunct1] E [THEN conjunct2]
        F [THEN conjunct1] F [THEN conjunct2, THEN conjunct1] F [THEN conjunct2, THEN conjunct2])
  next
    case False
    then have "kill code p s = (-1, s)" using assms(3) by (auto simp: kill_def sched_can_control_def Let_def)
    then show ?thesis using False kil by (simp add: assms(3))
  qed
qed

theorem sched_control_witness:
  "\<exists>s'. sched_suspend_process 2 (demo_sched roomy 0x4000) = Some (0, s') \<and> p_state (procs s' 0x7000) = PROCESS_STOPPED
     \<and> t_state (threads (snd (resume 0x7000 s')) 0x8000) = THREAD_READY"
proof -
  let ?s = "demo_sched roomy 0x4000"
  have i: "sched_inv ?s" by (rule demo_inv) simp_all
  have l: "linked ?s [0x7000, 0x5000, 0x3000] {0x4000, 0x6000, 0x8000}" using demo_linked by simp
  have f: "sched_find_process 2 ?s = Some 0x7000" using resume_calm_list(1) [OF l, of 2] by (simp add: demo_sched_def sched_boot_def zero_process_def)
  have m: "0x8000 = p_main (procs ?s 0x7000)" by (simp add: demo_sched_def sched_boot_def)
  have g: "sched_can_control ?s (sched_current_process ?s) 0x7000" "sched_current_process ?s = 0x3000" "p_state (procs ?s 0x7000) = PROCESS_READY"
    "threads ?s 0x8000 = zero_thread\<lparr>t_owner := 0x7000, t_next := 0x4000\<rparr>"
    by (simp_all add: sched_can_control_def sched_current_process_def demo_sched_def sched_boot_def zero_process_def)
  from sched_control [OF i f m refl refl refl, THEN conjunct1] show ?thesis using g by (auto simp: zero_thread_def)
qed

text \<open>
  C33. A process can run after its end. When \<^verbatim>\<open>sched_force_exit_current_with_children\<close> ends the current user
  process, its thread goes on until it is switched away from; if it calls \<^verbatim>\<open>sched_sleep\<close> by then, the
  zombie becomes a sleeper, and the tick that ends the sleep makes it ready: a thread of an exited
  process that the scheduler will run.
\<close>
theorem sched_zombie_revived:
  assumes "sched_inv s" "t = current_thread_ptr s" "p = t_owner (threads s t)" "p_main (procs s p) = t" "p_kind (procs s p) = PROCESS_USER"
    "p_state (procs s p) \<notin> {PROCESS_EXITED, PROCESS_REAPED}" "k \<noteq> 0"
  shows "\<exists>s1 s2. sched_force_exit_current_with_children code s = Some s1 \<and> t_state (threads s1 t) = THREAD_ZOMBIE
    \<and> wake_blocked_threads ((sched_sleep k s1)\<lparr>uptime_ticks := uptime_ticks s + k\<rparr>) = Some s2
    \<and> p_state (procs s2 p) = PROCESS_EXITED \<and> t_state (threads s2 t) = THREAD_READY"
proof -
  obtain ps T where l: "linked s ps T" "states_ok s T" using assms(1) by (auto simp: sched_inv_def)
  have t: "t \<in> T" "t \<noteq> 0" "p \<in> set ps" "p \<noteq> 0" using l assms(2,3) by (auto simp: linked_def states_ok_def)
  have idle: "t \<noteq> idle_thread_ptr s" using user_not_idle [OF l(1) t(3) assms(5)] assms(4) by simp
  obtain s1 where s1: "sched_force_exit_all_user_processes code s = Some s1" "linked s1 ps T" "shape s1 = shape s"
    "current_thread_ptr s1 = t" "uptime_ticks s1 = uptime_ticks s" "t_state (threads s1 t) = THREAD_ZOMBIE" "p_state (procs s1 p) = PROCESS_EXITED"
    using killed_thread [OF l(1) t(3) assms(4) t(2) assms(5,6), of code] assms(2) by auto
  have e: "sched_force_exit_current_with_children code s = Some s1"
    using s1(1) t assms(2,3) by (simp add: sched_force_exit_current_with_children_def sched_current_process_def)
  have f: "idle_thread_ptr s1 = idle_thread_ptr s" "t_owner (threads s1 t) = p" using s1(3) assms(3) by (auto simp: shape_def dest: fun_cong)
  note S = sleeping_thread [OF s1(2) s1(4) [symmetric] t(2) _ assms(7) f(2) [symmetric] s1(7)]
  let ?u = "(sched_sleep k s1)\<lparr>uptime_ticks := uptime_ticks s + k\<rparr>"
  have c: "calm (sched_sleep k s1) ps T ?u" by simp
  have u: "linked ?u ps T" using calm_linked [OF c S(1)] idle f(1) by simp
  have m: "p_main (procs ?u p) = t" using S(2) s1(3) shape_main [of "sched_sleep k s1" s p] assms(4) idle f(1) by simp
  obtain s2 where "wake_blocked_threads ?u = Some s2" "t_state (threads s2 t) = THREAD_READY" "p_state (procs s2 p) = PROCESS_EXITED"
    using woken_thread [OF u t(3) m t(2)] S(3-6) idle f(1) s1(5) by (auto simp: wake_due_def)
  then show ?thesis using e s1(6) by blast
qed

theorem sched_zombie_revived_witness:
  "\<exists>s1 s2. sched_force_exit_current_with_children 0 (demo_sched roomy 0x8000) = Some s1
    \<and> wake_blocked_threads ((sched_sleep 5 s1)\<lparr>uptime_ticks := uptime_ticks (demo_sched roomy 0x8000) + 5\<rparr>) = Some s2
    \<and> p_state (procs s2 0x7000) = PROCESS_EXITED \<and> t_state (threads s2 0x8000) = THREAD_READY"
proof -
  let ?s = "demo_sched roomy 0x8000"
  have i: "sched_inv ?s" by (rule demo_inv) simp_all
  have f: "0x8000 = current_thread_ptr ?s" "0x7000 = t_owner (threads ?s 0x8000)" "p_main (procs ?s 0x7000) = 0x8000"
    "p_kind (procs ?s 0x7000) = PROCESS_USER" "p_state (procs ?s 0x7000) \<notin> {PROCESS_EXITED, PROCESS_REAPED}"
    by (simp_all add: demo_sched_def sched_boot_def)
  from sched_zombie_revived [OF i f, of 5 0] show ?thesis by auto
qed

text \<open>
  C34. When there is a page for the process and one for the thread but no two adjacent ones for the stack,
  \<^verbatim>\<open>proc_create_kernel\<close> frees both pages and answers NULL, but the process stays the head of the list. The
  next process is created in the same page and linked to itself: from then on the search for any
  number but its own never returns.
\<close>
theorem proc_create_kernel_failure:
  assumes "sched_inv s" "proc_create_empty root PROCESS_KERNEL s = (p, s1)" "p \<noteq> 0" "next_pid s + 1 \<noteq> 0" "alloc_thread s1 = (t, s2)" "t \<noteq> 0"
    "fst (pmm_alloc_contiguous KERNEL_STACK_PAGES (vpmm (s_vmm s2))) = 0" "pid \<noteq> next_pid s + 1"
  shows "\<exists>s3. proc_create_kernel tr root entry s = Some (0, s3) \<and> process_list s3 = p \<and> p \<notin> owned_addrs (vpmm (s_vmm s3))
    \<and> fst (proc_create_empty root kind s3) = p \<and> sched_find_process pid (snd (proc_create_empty root kind s3)) = None"
proof -
  obtain s3 where s3: "proc_create_kernel tr root entry s = Some (0, s3)" "process_list s3 = p" "p \<notin> owned_addrs (vpmm (s_vmm s3))"
    "fst (alloc_page_table (s_vmm s3)) = p" "next_pid s3 = next_pid s + 1"
    using freed_while_listed [OF assms(1-7), of tr entry] by blast
  then show ?thesis using registered_twice [of s3 p pid root kind] assms(3,8) by auto
qed

lemma create_page:
  assumes "pmm_alloc (vpmm (s_vmm s)) = (a, pm)" "a \<noteq> 0"
  shows "fst (proc_create_empty root kind s) = a" "vpmm (s_vmm (snd (proc_create_empty root kind s))) = pm"
    "fst (alloc_thread s) = a" "vpmm (s_vmm (snd (alloc_thread s))) = pm"
  using assms by (simp_all add: proc_create_empty_def alloc_process_def alloc_thread_def alloc_page_table_def register_process_def Let_def)

theorem proc_create_kernel_failure_witness:
  "\<exists>s3. proc_create_kernel 1 1 2 (demo_sched full 0x4000) = Some (0, s3) \<and> process_list s3 = 0x9000
     \<and> sched_find_process 2 (snd (proc_create_empty 1 PROCESS_USER s3)) = None"
proof -
  let ?s = "demo_sched full 0x4000"
  have i: "sched_inv ?s" by (rule demo_inv) simp_all
  define m1 where "m1 = snd (pmm_alloc (vpmm full))"
  define m2 where "m2 = snd (pmm_alloc m1)"
  have e: "fst (pmm_alloc (vpmm full)) = 0x9000" "fst (pmm_alloc m1) = 0xA000" "fst (pmm_alloc_contiguous KERNEL_STACK_PAGES m2) = 0"
    unfolding m2_def m1_def by code_simp+
  have v: "s_vmm ?s = full" "next_pid ?s = 3" by (simp_all add: demo_sched_def sched_boot_def)
  obtain p s1 where c: "proc_create_empty 1 PROCESS_KERNEL ?s = (p, s1)" by force
  have 1: "p = 0x9000" "vpmm (s_vmm s1) = m1" using create_page(1,2) [of ?s "0x9000" m1 1 PROCESS_KERNEL] c e(1) v(1) by (simp_all add: m1_def prod_eq_iff)
  obtain t s2 where a: "alloc_thread s1 = (t, s2)" by force
  have 2: "t = 0xA000" "vpmm (s_vmm s2) = m2" using create_page(3,4) [of s1 "0xA000" m2] a e(2) 1(2) by (simp_all add: m2_def prod_eq_iff)
  from proc_create_kernel_failure [OF i c _ _ a, where pid = 2 and tr = 1 and entry = 2 and kind = PROCESS_USER] show ?thesis using 1 2 e(3) v(2) by auto
qed

end
