(* ===== verification/Persist.thy ===== *)
theory Persist
  imports Vfs
begin

text \<open>
  The file tree on disk, \<^verbatim>\<open>kernel/fs/persistfs.c\<close>: the image of all writable nodes, its reader, and the
  sectors of a block device it is kept in. A buffer is the list of its bytes, a cursor the offset in it
  (0 is NULL); an access outside a buffer is \<open>None\<close>. Every recursion makes the path longer, and a path
  has at most 255 bytes.
\<close>

section \<open>Records of the image\<close>

definition PERSISTFS_MAGIC :: u64 where "PERSISTFS_MAGIC = 0x31534641444349"
definition PERSISTFS_VERSION :: u32 where "PERSISTFS_VERSION = 1"
definition PERSISTFS_SECTOR_SIZE :: nat where "PERSISTFS_SECTOR_SIZE = 512"
definition PERSISTFS_PATH_CAP :: nat where "PERSISTFS_PATH_CAP = 256"

record persistfs_header =
  ph_magic :: u64
  ph_version :: u32
  ph_entry_count :: u32
  ph_bytes_used :: u32
  ph_reserved :: u32

record persistfs_entry =
  pe_path_len :: u16
  pe_type :: u8
  pe_readonly :: u8
  pe_data_size :: u32
  pe_inode :: u64
  pe_created :: u64
  pe_modified :: u64

definition header_bytes :: "persistfs_header \<Rightarrow> bytes" where
  "header_bytes h = word_le 8 (ph_magic h) @ word_le 4 (ph_version h) @ word_le 4 (ph_entry_count h)
     @ word_le 4 (ph_bytes_used h) @ word_le 4 (ph_reserved h)"

definition header_of :: "bytes \<Rightarrow> persistfs_header" where
  "header_of b = \<lparr>ph_magic = le_word (take 8 b), ph_version = le_word (take 4 (drop 8 b)), ph_entry_count = le_word (take 4 (drop 12 b)),
     ph_bytes_used = le_word (take 4 (drop 16 b)), ph_reserved = le_word (take 4 (drop 20 b))\<rparr>"

definition entry_bytes :: "persistfs_entry \<Rightarrow> bytes" where
  "entry_bytes e = word_le 2 (pe_path_len e) @ [pe_type e, pe_readonly e] @ word_le 4 (pe_data_size e)
     @ word_le 8 (pe_inode e) @ word_le 8 (pe_created e) @ word_le 8 (pe_modified e)"

definition entry_of :: "bytes \<Rightarrow> persistfs_entry" where
  "entry_of b = \<lparr>pe_path_len = le_word (take 2 b), pe_type = b ! 2, pe_readonly = b ! 3, pe_data_size = le_word (take 4 (drop 4 b)),
     pe_inode = le_word (take 8 (drop 8 b)), pe_created = le_word (take 8 (drop 16 b)), pe_modified = le_word (take 8 (drop 24 b))\<rparr>"

definition persist_align_up :: "u64 \<Rightarrow> u64 \<Rightarrow> u64" where
  "persist_align_up v align = (v + align - 1) AND NOT (align - 1)"

section \<open>Writing\<close>

definition path_push :: "bytes \<Rightarrow> bytes \<Rightarrow> bytes option" where
  "path_push path name =
     (if path = [] then (if PERSISTFS_PATH_CAP < 2 + length name then None else Some (slash # name))
      else if length path + 1 + length name + 1 > PERSISTFS_PATH_CAP then None
      else Some (path @ slash # name))"

lemma path_push_longer: "path_push path name = Some p \<Longrightarrow> length path < length p \<and> length p < 256"
  by (auto simp: path_push_def PERSISTFS_PATH_CAP_def split: if_splits)

text \<open>The size of the records below a node, and the number of entries so far.\<close>

function persistfs_measure_node :: "vfs \<Rightarrow> nat \<Rightarrow> bytes \<Rightarrow> u32 \<Rightarrow> u64 \<times> u32" where
  "persistfs_measure_node s node path cnt =
     (if node = 0 then (0, cnt)
      else case path_push path (vfs_node_name s node) of
        None \<Rightarrow> (0, cnt)
      | Some p \<Rightarrow>
          let own = (if vfs_node_readonly s node = 0
                then (32 + word_of_nat (length p) + (if vfs_node_type s node = VFS_NODE_FILE then vfs_node_size s node else 0), cnt + 1)
                else (0, cnt))
          in if vfs_node_type s node = VFS_NODE_DIR
             then fold (\<lambda>i (total, cnt). let (t, c) = persistfs_measure_node s (vfs_child_at s node i) p cnt in (total + t, c))
                    [0..<vfs_child_count s node] own
             else own)"
  by pat_completeness auto
termination
  by (relation "measure (\<lambda>(s, node, path, cnt). 256 - length path)") (auto dest!: path_push_longer)

definition put_bytes :: "bytes \<Rightarrow> bytes \<times> nat \<Rightarrow> (bytes \<times> nat) option" where
  "put_bytes src st = (let (buf, cur) = st in
     if cur + length src \<le> length buf then Some (take cur buf @ src @ drop (cur + length src) buf, cur + length src) else None)"

definition node_entry :: "vfs \<Rightarrow> nat \<Rightarrow> bytes \<Rightarrow> persistfs_entry" where
  "node_entry s node path = \<lparr>pe_path_len = word_of_nat (length path), pe_type = vfs_node_type s node, pe_readonly = vfs_node_readonly s node,
     pe_data_size = (if vfs_node_type s node = VFS_NODE_FILE then ucast (vfs_node_size s node) else 0),
     pe_inode = vfs_node_inode s node, pe_created = vfs_node_created s node, pe_modified = vfs_node_modified s node\<rparr>"

text \<open>The data copied: the buffer of the node must be as long as the size says.\<close>

definition put_data_bytes :: "vfs \<Rightarrow> nat \<Rightarrow> u32 \<Rightarrow> bytes \<times> nat \<Rightarrow> (bytes \<times> nat) option" where
  "put_data_bytes s node n st =
     (if n = 0 then Some st
      else if unat n \<le> length (vfs_node_data s node) then put_bytes (take (unat n) (vfs_node_data s node)) st else None)"

definition put_entry :: "vfs \<Rightarrow> nat \<Rightarrow> bytes \<Rightarrow> bytes \<times> nat \<Rightarrow> (bytes \<times> nat) option" where
  "put_entry s node path st =
     (let e = node_entry s node path
      in Option.bind (put_bytes (entry_bytes e) st) (\<lambda>st. Option.bind (put_bytes path st) (put_data_bytes s node (pe_data_size e))))"

function persistfs_write_node :: "vfs \<Rightarrow> nat \<Rightarrow> bytes \<Rightarrow> bytes \<times> nat \<Rightarrow> (bytes \<times> nat) option" where
  "persistfs_write_node s node path st =
     (if node = 0 then Some st
      else case path_push path (vfs_node_name s node) of
        None \<Rightarrow> Some (fst st, 0)
      | Some p \<Rightarrow>
          let own = (if vfs_node_readonly s node = 0 then put_entry s node p st else Some st)
          in if vfs_node_type s node = VFS_NODE_DIR
             then fold (\<lambda>i r. case r of None \<Rightarrow> None | Some st \<Rightarrow> if snd st = 0 then r else persistfs_write_node s (vfs_child_at s node i) p st)
                    [0..<vfs_child_count s node] own
             else own)"
  by pat_completeness auto
termination
  by (relation "measure (\<lambda>(s, node, path, st). 256 - length path)") (auto dest!: path_push_longer)

declare persistfs_measure_node.simps [simp del] persistfs_write_node.simps [simp del]

definition measure_root :: "vfs \<Rightarrow> u64 \<times> u32" where
  "measure_root s = fold (\<lambda>i (total, cnt). let (t, c) = persistfs_measure_node s (vfs_child_at s (vfs_root_node s) i) [] cnt in (total + t, c))
     [0..<vfs_child_count s (vfs_root_node s)] (0, 0)"

definition write_root :: "vfs \<Rightarrow> bytes \<times> nat \<Rightarrow> (bytes \<times> nat) option" where
  "write_root s st = fold (\<lambda>i r. case r of None \<Rightarrow> None | Some st \<Rightarrow>
       if snd st = 0 then r else persistfs_write_node s (vfs_child_at s (vfs_root_node s) i) [] st)
     [0..<vfs_child_count s (vfs_root_node s)] (Some st)"

text \<open>The answer, the buffer (empty when there is none), and the number of entries.\<close>

definition persistfs_export_image :: "vfs \<Rightarrow> ((int \<times> bytes \<times> u64) \<times> vfs) option" where
  "persistfs_export_image s =
     (let (payload, cnt) = measure_root s;
          total = 24 + payload;
          sectors = persist_align_up total 512 div 512;
          sectors = (if sectors = 0 then 1 else sectors);
          (ok, s1) = vfs_alloc (sectors * 512) s
      in if \<not> ok then Some ((-103, [], 0), s1)
      else let h = \<lparr>ph_magic = PERSISTFS_MAGIC, ph_version = PERSISTFS_VERSION, ph_entry_count = cnt, ph_bytes_used = ucast total, ph_reserved = 0\<rparr>
      in case Option.bind (put_bytes (header_bytes h) (replicate (unat (sectors * 512)) 0, 0)) (write_root s1) of
        None \<Rightarrow> None
      | Some (buf, cur) \<Rightarrow> if cur = 0 then Some ((-104, [], 0), s1) else Some ((0, buf, ucast cnt), s1))"

section \<open>Reading\<close>

definition get_bytes :: "bytes \<Rightarrow> nat \<Rightarrow> nat \<Rightarrow> bytes option" where
  "get_bytes buf off n = (if off + n \<le> length buf then Some (take n (drop off buf)) else None)"

text \<open>One entry at the cursor: the answer, the new cursor and the tree.\<close>

definition import_entry :: "bytes \<Rightarrow> u32 \<Rightarrow> nat \<Rightarrow> vfs \<Rightarrow> (int \<times> nat \<times> vfs) option" where
  "import_entry buf used cur s =
     (if cur + 32 > unat used then Some (-1, cur, s)
      else case get_bytes buf cur 32 of None \<Rightarrow> None | Some eb \<Rightarrow>
        let e = entry_of eb; cur = cur + 32; n = unat (pe_path_len e)
        in if n = 0 \<or> n \<ge> PERSISTFS_PATH_CAP then Some (-1, cur, s)
        else if cur + n + unat (pe_data_size e) > unat used then Some (-1, cur, s)
        else case get_bytes buf cur n of None \<Rightarrow> None | Some path \<Rightarrow>
          let cur = cur + n;
              (data, cur') = (if pe_type e = VFS_NODE_FILE then (get_bytes buf cur (unat (pe_data_size e)), cur + unat (pe_data_size e)) else (Some [], cur))
          in case data of None \<Rightarrow> None | Some data \<Rightarrow>
            let (r, s) = vfs_import_node (takeWhile (\<lambda>c. c \<noteq> 0) path) (pe_type e) (pe_readonly e) data (pe_inode e) (pe_created e) (pe_modified e) s
            in Some (if r \<noteq> 0 then -1 else 0, cur', s))"

primrec import_loop :: "nat \<Rightarrow> bytes \<Rightarrow> u32 \<Rightarrow> nat \<Rightarrow> vfs \<Rightarrow> (int \<times> vfs) option" where
  "import_loop 0 buf used cur s = Some (0, s)"
| "import_loop (Suc n) buf used cur s =
     (case import_entry buf used cur s of None \<Rightarrow> None
      | Some (r, cur, s) \<Rightarrow> if r \<noteq> 0 then Some (-1, s) else import_loop n buf used cur s)"

definition bad_header :: "persistfs_header \<Rightarrow> bool" where
  "bad_header h \<longleftrightarrow> ph_magic h \<noteq> PERSISTFS_MAGIC \<or> ph_version h \<noteq> PERSISTFS_VERSION \<or> ph_bytes_used h < 24"

text \<open>The answer, the number of entries loaded and the tree; \<open>None\<close> is the buffer NULL.\<close>

definition persistfs_import_image :: "bytes option \<Rightarrow> u64 \<Rightarrow> vfs \<Rightarrow> ((int \<times> u64) \<times> vfs) option" where
  "persistfs_import_image buffer sz s =
     (case buffer of None \<Rightarrow> Some ((-1, 0), s) | Some buf \<Rightarrow>
        if sz < 24 then Some ((-1, 0), s)
        else case get_bytes buf 0 24 of None \<Rightarrow> None | Some hb \<Rightarrow>
          let h = header_of hb
          in if ph_magic h \<noteq> PERSISTFS_MAGIC \<or> ph_version h \<noteq> PERSISTFS_VERSION \<or> ph_bytes_used h < 24 \<or> ucast (ph_bytes_used h) > sz
             then Some ((-1, 0), s)
          else case import_loop (unat (ph_entry_count h)) buf (ph_bytes_used h) 24 s of None \<Rightarrow> None
          | Some (r, s) \<Rightarrow> if r \<noteq> 0 then Some ((-1, 0), s) else Some ((0, ucast (ph_entry_count h)), s))"


section \<open>What the image holds\<close>

text \<open>The writable nodes below a node, with their paths, in the order they are written.\<close>

function image_nodes :: "vfs \<Rightarrow> nat \<Rightarrow> bytes \<Rightarrow> (nat \<times> bytes) list" where
  "image_nodes s node path =
     (if node = 0 then []
      else case path_push path (vfs_node_name s node) of
        None \<Rightarrow> []
      | Some p \<Rightarrow> (if vfs_node_readonly s node = 0 then [(node, p)] else [])
          @ (if vfs_node_type s node = VFS_NODE_DIR
             then concat (map (\<lambda>i. image_nodes s (vfs_child_at s node i) p) [0..<vfs_child_count s node]) else []))"
  by pat_completeness auto
termination
  by (relation "measure (\<lambda>(s, node, path). 256 - length path)") (auto dest!: path_push_longer)

function image_fits :: "vfs \<Rightarrow> nat \<Rightarrow> bytes \<Rightarrow> bool" where
  "image_fits s node path =
     (node = 0 \<or> (case path_push path (vfs_node_name s node) of
        None \<Rightarrow> False
      | Some p \<Rightarrow> vfs_node_type s node = VFS_NODE_DIR \<longrightarrow> list_all (\<lambda>i. image_fits s (vfs_child_at s node i) p) [0..<vfs_child_count s node]))"
  by pat_completeness auto
termination
  by (relation "measure (\<lambda>(s, node, path). 256 - length path)") (auto dest!: path_push_longer)

declare image_nodes.simps [simp del] image_fits.simps [simp del]

definition record_bytes :: "vfs \<Rightarrow> nat \<times> bytes \<Rightarrow> bytes" where
  "record_bytes s = (\<lambda>(a, p). entry_bytes (node_entry s a p) @ p @ take (unat (pe_data_size (node_entry s a p))) (vfs_node_data s a))"

definition record_size :: "vfs \<Rightarrow> nat \<times> bytes \<Rightarrow> nat" where
  "record_size s = (\<lambda>(a, p). 32 + length p + (if vfs_node_type s a = VFS_NODE_FILE then unat (vfs_node_size s a) else 0))"

lemma length_word_le [simp]: "length (word_le n w) = n"
  by (simp add: word_le_def)

lemma length_entry_bytes [simp]: "length (entry_bytes e) = 32"
  by (simp add: entry_bytes_def)

lemma length_header_bytes [simp]: "length (header_bytes h) = 24"
  by (simp add: header_bytes_def)

lemma measure_fold:
  assumes "\<And>i c. i \<in> set xs \<Longrightarrow> f i c = (word_of_nat (sum_list (map (record_size s) (g i))), c + word_of_nat (length (g i)))"
  shows "fold (\<lambda>i (total, cnt). let (t, c) = f i cnt in (total + t, c)) xs (a, b)
    = (a + word_of_nat (sum_list (map (record_size s) (concat (map g xs)))), b + word_of_nat (length (concat (map g xs))))"
  using assms by (induction xs arbitrary: a b) (simp_all add: algebra_simps)

lemma measure_node_eq:
  "persistfs_measure_node s node path cnt
    = (word_of_nat (sum_list (map (record_size s) (image_nodes s node path))), cnt + word_of_nat (length (image_nodes s node path)))"
proof (induction s node path cnt rule: persistfs_measure_node.induct)
  case (1 s node path cnt)
  show ?case
  proof (cases "node = 0 \<or> path_push path (vfs_node_name s node) = None")
    case True
    then show ?thesis by (auto simp: persistfs_measure_node.simps image_nodes.simps)
  next
    case False
    then obtain p where p: "path_push path (vfs_node_name s node) = Some p" and nz: "node \<noteq> 0" by auto
    let ?own = "if vfs_node_readonly s node = 0
                then (32 + word_of_nat (length p) + (if vfs_node_type s node = VFS_NODE_FILE then vfs_node_size s node else 0), cnt + 1)
                else (0, cnt)"
    let ?l = "if vfs_node_readonly s node = 0 then [(node, p)] else []"
    have own: "?own = (word_of_nat (sum_list (map (record_size s) ?l)), cnt + word_of_nat (length ?l))"
      by (simp add: record_size_def)
    show ?thesis
    proof (cases "vfs_node_type s node = VFS_NODE_DIR")
      case True
      have IH: "persistfs_measure_node s (vfs_child_at s node i) p c = (word_of_nat (sum_list (map (record_size s) (image_nodes s (vfs_child_at s node i) p))),
          c + word_of_nat (length (image_nodes s (vfs_child_at s node i) p)))" if "i \<in> set [0..<vfs_child_count s node]" for i c
        by (rule 1 [OF nz p refl True that])
      show ?thesis
        unfolding persistfs_measure_node.simps [of s node path] image_nodes.simps [of s node path] p option.case if_not_P [OF nz] Let_def if_P [OF True] own
        by (subst measure_fold [where g = "\<lambda>i. image_nodes s (vfs_child_at s node i) p", unfolded Let_def]) (use IH in \<open>auto simp: algebra_simps\<close>)
    next
      case False
      then show ?thesis using p nz own by (simp add: persistfs_measure_node.simps [of s node path] image_nodes.simps [of s node path] Let_def)
    qed
  qed
qed

lemma put_bytes_append: "put_bytes (x @ y) st = Option.bind (put_bytes x st) (put_bytes y)"
  by (cases st) (cases x; auto simp: put_bytes_def Let_def ac_simps min_def)

lemma put_bytes_Nil [simp]: "snd st \<le> length (fst st) \<Longrightarrow> put_bytes [] st = Some st"
  by (cases st) (simp add: put_bytes_def)

lemma put_bytes_fields: "put_bytes x st = Some st' \<Longrightarrow> snd st' = snd st + length x \<and> length (fst st') = length (fst st) \<and> snd st' \<le> length (fst st')"
  by (cases st) (auto simp: put_bytes_def split: if_splits)

text \<open>Nodes whose data can be copied in full.\<close>

definition exportable :: "vfs \<Rightarrow> bool" where
  "exportable s \<longleftrightarrow> buffers_ok s \<and> (\<forall>a. unat (vfs_node_size s a) < 2 ^ 32)"

lemma exportable_data:
  assumes "exportable s"
  shows "snd st \<le> length (fst st) \<Longrightarrow> put_data_bytes s a (pe_data_size (node_entry s a p)) st
       = put_bytes (take (unat (pe_data_size (node_entry s a p))) (vfs_node_data s a)) st"
    "unat (pe_data_size (node_entry s a p)) \<le> length (vfs_node_data s a)"
    "unat (pe_data_size (node_entry s a p)) = (if vfs_node_type s a = VFS_NODE_FILE then unat (vfs_node_size s a) else 0)"
proof -
  have "unat (vfs_node_size s a) < 2 ^ 32" using assms by (simp add: exportable_def)
  then have u: "unat (ucast (vfs_node_size s a) :: u32) = unat (vfs_node_size s a)" by (simp add: unsigned_ucast_eq take_bit_nat_eq_self)
  then show d: "unat (pe_data_size (node_entry s a p)) = (if vfs_node_type s a = VFS_NODE_FILE then unat (vfs_node_size s a) else 0)"
    by (simp add: node_entry_def)
  have "unat (vfs_node_size s a) \<le> length (vfs_node_data s a)"
  proof (cases "vfs_node s a")
    case (Some n)
    then have "buffer_ok n" using assms by (simp add: exportable_def buffers_ok_def)
    then show ?thesis using Some by (auto simp: buffer_ok_def vfs_node_size_def vfs_node_data_def split: option.splits)
  qed (simp add: vfs_node_size_def)
  then show l: "unat (pe_data_size (node_entry s a p)) \<le> length (vfs_node_data s a)" using d by simp
  show "snd st \<le> length (fst st) \<Longrightarrow> put_data_bytes s a (pe_data_size (node_entry s a p)) st
       = put_bytes (take (unat (pe_data_size (node_entry s a p))) (vfs_node_data s a)) st"
    using l by (auto simp: put_data_bytes_def)
qed

lemma put_entry_eq:
  assumes "exportable s"
  shows "put_entry s a p st = put_bytes (record_bytes s (a, p)) st"
proof -
  let ?e = "node_entry s a p"
  have "put_data_bytes s a (pe_data_size ?e) v = put_bytes (take (unat (pe_data_size ?e)) (vfs_node_data s a)) v"
    if "put_bytes p u = Some v" for u v
    using exportable_data(1) [OF assms, of v a p] put_bytes_fields [OF that] by simp
  then have "Option.bind (put_bytes p u) (put_data_bytes s a (pe_data_size ?e)) = put_bytes (p @ take (unat (pe_data_size ?e)) (vfs_node_data s a)) u" for u
    by (cases "put_bytes p u") (simp_all add: put_bytes_append)
  then show ?thesis by (simp add: put_entry_def record_bytes_def put_bytes_append [of "entry_bytes ?e"] Let_def)
qed

lemma record_size_bytes: "exportable s \<Longrightarrow> length (record_bytes s x) = record_size s x"
  using exportable_data(2,3) [of s "fst x" "snd x"] by (cases x) (auto simp: record_bytes_def record_size_def)

lemma concat_concat_map: "concat (concat (map f xs)) = concat (map (\<lambda>i. concat (f i)) xs)"
  by (induction xs) simp_all

lemma write_fold:
  assumes "\<And>i st. i \<in> set xs \<Longrightarrow> snd st \<noteq> 0 \<Longrightarrow> snd st \<le> length (fst st) \<Longrightarrow>
      (ok i \<longrightarrow> g i st = put_bytes (r i) st) \<and> (\<not> ok i \<longrightarrow> put_bytes (r i) st \<noteq> None \<longrightarrow> (\<exists>b. g i st = Some (b, 0)))"
    "snd st \<noteq> 0" "snd st \<le> length (fst st)"
  shows "(list_all ok xs \<longrightarrow> fold (\<lambda>i r. case r of None \<Rightarrow> None | Some st \<Rightarrow> if snd st = 0 then r else g i st) xs (Some st) = put_bytes (concat (map r xs)) st)
    \<and> (\<not> list_all ok xs \<longrightarrow> put_bytes (concat (map r xs)) st \<noteq> None \<longrightarrow>
        (\<exists>b. fold (\<lambda>i r. case r of None \<Rightarrow> None | Some st \<Rightarrow> if snd st = 0 then r else g i st) xs (Some st) = Some (b, 0)))"
  using assms
proof (induction xs arbitrary: st)
  case (Cons x xs)
  let ?F = "\<lambda>i r. case r of None \<Rightarrow> None | Some st \<Rightarrow> if snd st = 0 then r else g i st"
  have none: "fold ?F ys None = None" for ys by (induction ys) simp_all
  have zero: "fold ?F ys (Some (b, 0)) = Some (b, 0)" for ys b by (induction ys) simp_all
  have x: "(ok x \<longrightarrow> g x st = put_bytes (r x) st) \<and> (\<not> ok x \<longrightarrow> put_bytes (r x) st \<noteq> None \<longrightarrow> (\<exists>b. g x st = Some (b, 0)))"
    using Cons.prems by simp
  show ?case
  proof (cases "put_bytes (r x) st")
    case None
    then show ?thesis using x Cons.prems(2) none by (auto simp: put_bytes_append)
  next
    case (Some st')
    then have f: "snd st' \<noteq> 0" "snd st' \<le> length (fst st')" using put_bytes_fields [OF Some] Cons.prems(2) by simp_all
    note IH = Cons.IH [OF Cons.prems(1) f]
    show ?thesis
    proof (cases "ok x")
      case True
      then show ?thesis using IH x Some Cons.prems(2) by (auto simp: put_bytes_append)
    next
      case False
      then show ?thesis using x Some Cons.prems(2) zero by (auto simp: put_bytes_append)
    qed
  qed
qed simp

lemma write_node_spec:
  assumes "exportable s" "snd st \<noteq> 0" "snd st \<le> length (fst st)"
  shows "(image_fits s node path \<longrightarrow> persistfs_write_node s node path st = put_bytes (concat (map (record_bytes s) (image_nodes s node path))) st)
    \<and> (\<not> image_fits s node path \<longrightarrow> put_bytes (concat (map (record_bytes s) (image_nodes s node path))) st \<noteq> None
        \<longrightarrow> (\<exists>b. persistfs_write_node s node path st = Some (b, 0)))"
  using assms
proof (induction s node path st rule: persistfs_write_node.induct)
  case (1 s node path st)
  show ?case
  proof (cases "node = 0 \<or> path_push path (vfs_node_name s node) = None")
    case True
    then show ?thesis using 1(3,4) by (auto simp: persistfs_write_node.simps image_nodes.simps image_fits.simps)
  next
    case False
    then obtain p where p: "path_push path (vfs_node_name s node) = Some p" and nz: "node \<noteq> 0" by auto
    let ?l = "if vfs_node_readonly s node = 0 then [(node, p)] else []" and ?c = "vfs_child_at s node"
    let ?own = "if vfs_node_readonly s node = 0 then put_entry s node p st else Some st"
    have own: "?own = put_bytes (concat (map (record_bytes s) ?l)) st" using put_entry_eq [OF 1(2)] 1(4) by simp
    show ?thesis
    proof (cases "vfs_node_type s node = VFS_NODE_DIR")
      case True
      let ?F = "\<lambda>i r. case r of None \<Rightarrow> None | Some st \<Rightarrow> if snd st = 0 then r else persistfs_write_node s (?c i) p st"
      let ?n = "[0..<vfs_child_count s node]" and ?R = "\<lambda>i. concat (map (record_bytes s) (image_nodes s (?c i) p))"
      have w: "persistfs_write_node s node path st = fold ?F ?n ?own" using p nz True by (simp add: persistfs_write_node.simps [of s node path] Let_def)
      have im: "concat (map (record_bytes s) (image_nodes s node path)) = concat (map (record_bytes s) ?l) @ concat (map ?R ?n)"
        using p nz True by (simp add: image_nodes.simps [of s node path] map_concat comp_def concat_concat_map del: upt_Suc)
      have fit: "image_fits s node path = list_all (\<lambda>i. image_fits s (?c i) p) ?n" using p nz True by (simp add: image_fits.simps [of s node path])
      show ?thesis
      proof (cases ?own)
        case None
        moreover have "fold ?F xs None = None" for xs by (induction xs) simp_all
        ultimately show ?thesis using w im own by (simp add: put_bytes_append)
      next
        case (Some st')
        then have f: "snd st' \<noteq> 0" "snd st' \<le> length (fst st')" using put_bytes_fields [of "concat (map (record_bytes s) ?l)" st st'] own 1(3) by simp_all
        have IH: "(image_fits s (?c i) p \<longrightarrow> persistfs_write_node s (?c i) p u = put_bytes (?R i) u)
            \<and> (\<not> image_fits s (?c i) p \<longrightarrow> put_bytes (?R i) u \<noteq> None \<longrightarrow> (\<exists>b. persistfs_write_node s (?c i) p u = Some (b, 0)))"
          if "i \<in> set ?n" "snd u \<noteq> 0" "snd u \<le> length (fst u)" for i u
          by (rule 1(1) [OF nz p refl True that(1) _ _ 1(2) that(2,3)]) (use that in auto)
        note W = write_fold [of ?n "\<lambda>i. image_fits s (?c i) p" "\<lambda>i. persistfs_write_node s (?c i) p" ?R, OF IH f]
        have e: "put_bytes (concat (map (record_bytes s) (image_nodes s node path))) st = put_bytes (concat (map ?R ?n)) st'"
          unfolding im put_bytes_append own [symmetric] Some by simp
        have w': "persistfs_write_node s node path st = fold ?F ?n (Some st')" using w Some by simp
        show ?thesis unfolding fit w' e using W by blast
      qed
    next
      case False
      then show ?thesis using p nz own by (simp add: persistfs_write_node.simps [of s node path] image_nodes.simps [of s node path] image_fits.simps [of s node path] Let_def)
    qed
  qed
qed

section \<open>The nodes of the tree\<close>

lemma walk_append: "walk s a (ps @ qs) = (if walk s a ps = 0 \<and> ps \<noteq> [] then 0 else walk s (walk s a ps) qs)"
  by (induction ps arbitrary: a) simp_all

lemma walk_node:
  assumes "vfs_inv s" "walk s (vfs_root_node s) qs = b" "b \<noteq> 0"
  shows "b \<in> dom (vfs_node s) \<and> node_path s b = qs"
  using assms(2,3)
proof (induction qs arbitrary: b rule: rev_induct)
  case Nil
  then show ?case using is_dir_dom [OF root_is_dir [OF assms(1)]] node_path_root [of s] by simp
next
  case (snoc q qs)
  let ?a = "walk s (vfs_root_node s) qs"
  have "vfs_root_node s \<noteq> 0" using is_dir_dom [OF root_is_dir [OF assms(1)]] inv_node0 [OF assms(1)] by (metis domIff)
  then have a: "?a \<noteq> 0" "find_child s ?a q = b" using snoc.prems by (auto simp: walk_append split: if_splits)
  then obtain m where m: "vfs_node s b = Some m" "vn_name m = q" "vn_parent m = ?a" using find_child_Some [OF assms(1) a(2) snoc.prems(2)] by blast
  have "b \<noteq> vfs_root_node s" using m(1,3) a(1) assms(1) by (auto simp: vfs_inv_def)
  then show ?case using node_path_step [OF assms(1) m(1)] m snoc.IH [OF refl a(1)] by auto
qed

lemma walk_iff:
  assumes "vfs_inv s"
  shows "walk s (vfs_root_node s) qs = b \<and> b \<noteq> 0 \<longleftrightarrow> b \<in> dom (vfs_node s) \<and> node_path s b = qs"
  using walk_node [OF assms] walk_node_path [OF assms, of b] inv_node0 [OF assms] by (metis domIff)

lemma node_path_inj: "vfs_inv s \<Longrightarrow> a \<in> dom (vfs_node s) \<Longrightarrow> b \<in> dom (vfs_node s) \<Longrightarrow> node_path s a = node_path s b \<Longrightarrow> a = b"
  using walk_iff by metis

definition under :: "vfs \<Rightarrow> nat \<Rightarrow> nat \<Rightarrow> bool" where
  "under s a b \<longleftrightarrow> b \<in> dom (vfs_node s) \<and> (\<exists>qs. node_path s b = node_path s a @ qs)"

lemma child_at:
  assumes "vfs_inv s" "i < vfs_child_count s a" "c = vfs_child_at s a i"
  shows "\<exists>m. vfs_node s c = Some m \<and> vn_parent m = a \<and> c \<noteq> 0 \<and> c \<noteq> vfs_root_node s \<and> find_child s a (vn_name m) = c"
proof -
  obtain n where n: "vfs_node s a = Some n" "vn_type n = VFS_NODE_DIR" "i < length (vn_children n)" "c = vn_children n ! i"
    using assms(2,3) by (auto simp: vfs_child_count_def vfs_child_at_def split: option.splits if_splits)
  then have mem: "c \<in> set (vn_children n)" by simp
  then obtain m where m: "vfs_node s c = Some m" "vn_parent m = a" "a < c" using inv_child [OF assms(1) n(1)] by blast
  moreover have "c \<noteq> vfs_root_node s"
  proof
    assume "c = vfs_root_node s"
    then have "a = 0" using m assms(1) by (auto simp: vfs_inv_def)
    then show False using n(1) inv_node0 [OF assms(1)] by simp
  qed
  ultimately show ?thesis using find_child_eq [OF assms(1) n(1) mem m(1)] by auto
qed

lemma child_path: "vfs_inv s \<Longrightarrow> i < vfs_child_count s a \<Longrightarrow> \<exists>nm. node_path s (vfs_child_at s a i) = node_path s a @ [nm]"
  using child_at [of s i a] node_path_step [of s "vfs_child_at s a i"] by metis

lemma under_children:
  assumes "vfs_inv s" "a \<in> dom (vfs_node s)"
  shows "under s a b \<longleftrightarrow> b = a \<or> (\<exists>i < vfs_child_count s a. under s (vfs_child_at s a i) b)"
proof
  assume u: "under s a b"
  then obtain qs where qs: "b \<in> dom (vfs_node s)" "node_path s b = node_path s a @ qs" by (auto simp: under_def)
  show "b = a \<or> (\<exists>i < vfs_child_count s a. under s (vfs_child_at s a i) b)"
  proof (cases qs)
    case Nil
    then show ?thesis using node_path_inj [OF assms(1) qs(1) assms(2)] qs(2) by simp
  next
    case (Cons q rs)
    let ?c = "find_child s a q"
    have wa: "walk s (vfs_root_node s) (node_path s a) = a" using walk_node_path [OF assms] by simp
    have wb: "walk s (vfs_root_node s) (node_path s a @ q # rs) = b" using walk_node_path [OF assms(1) qs(1)] qs Cons by simp
    have b0: "b \<noteq> 0" using qs(1) inv_node0 [OF assms(1)] by (metis domIff)
    have a0: "a \<noteq> 0" using assms inv_node0 by (metis domIff)
    have c0: "?c \<noteq> 0" using wb b0 wa a0 by (auto simp: walk_append split: if_splits)
    obtain n m where n: "vfs_node s a = Some n" "vn_type n = VFS_NODE_DIR" "?c \<in> set (vn_children n)"
      using find_child_Some [OF assms(1) refl c0] by blast
    then obtain i where i: "i < length (vn_children n)" "vn_children n ! i = ?c" by (auto simp: in_set_conv_nth)
    have at: "vfs_child_at s a i = ?c" "i < vfs_child_count s a" using n i by (simp_all add: vfs_child_at_def vfs_child_count_def)
    have "walk s (vfs_root_node s) (node_path s a @ [q]) = ?c" using wa a0 by (simp add: walk_append)
    then have "node_path s ?c = node_path s a @ [q]" using walk_node [OF assms(1) _ c0] by blast
    then have "under s ?c b" using qs Cons by (simp add: under_def)
    then show ?thesis using at by metis
  qed
next
  assume "b = a \<or> (\<exists>i < vfs_child_count s a. under s (vfs_child_at s a i) b)"
  then show "under s a b" using assms(2) child_path [OF assms(1)] unfolding under_def by (metis append_Nil2 append_assoc)
qed

lemma path_text_snoc: "path_text (ps @ [p]) = path_text ps @ slash # p"
  by (simp add: path_text_def)

lemma path_text_Nil: "path_text ps = [] \<longleftrightarrow> ps = []"
  by (cases ps) (simp_all add: path_text_def)

lemma push_node:
  assumes "vfs_inv s" "vfs_node s a = Some n" "a \<noteq> vfs_root_node s"
  shows "path_push (path_text (node_path s (vn_parent n))) (vfs_node_name s a)
    = (if length (path_text (node_path s a)) < 256 then Some (path_text (node_path s a)) else None)"
  using assms(2) node_path_step [OF assms] by (auto simp: path_push_def path_text_snoc PERSISTFS_PATH_CAP_def vfs_node_name_def)

lemma image_nodes_set:
  assumes "vfs_inv s" "vfs_node s a = Some n" "a \<noteq> vfs_root_node s" "path = path_text (node_path s (vn_parent n))"
  shows "(image_fits s a path \<longleftrightarrow> (\<forall>b. under s a b \<longrightarrow> length (path_text (node_path s b)) < 256))
    \<and> (image_fits s a path \<longrightarrow> set (image_nodes s a path) = {(b, path_text (node_path s b)) |b. under s a b \<and> vfs_node_readonly s b = 0})"
  using assms
proof (induction s a path arbitrary: n rule: image_nodes.induct)
  case (1 s a path)
  note inv = 1(2) and n = 1(3)
  have a: "a \<noteq> 0" "a \<in> dom (vfs_node s)" using n inv_node0 [OF inv] by (metis option.distinct(1), blast)
  have self: "under s a a" using a by (simp add: under_def)
  note push = push_node [OF 1(2-4), folded 1(5)]
  show ?case
  proof (cases "length (path_text (node_path s a)) < 256")
    case False
    then show ?thesis using push self a by (auto simp: image_fits.simps [of s a])
  next
    case True
    let ?p = "path_text (node_path s a)" and ?c = "vfs_child_at s a"
    have p: "path_push path (vfs_node_name s a) = Some ?p" using push True by simp
    have IH: "(image_fits s (?c i) ?p \<longleftrightarrow> (\<forall>b. under s (?c i) b \<longrightarrow> length (path_text (node_path s b)) < 256))
      \<and> (image_fits s (?c i) ?p \<longrightarrow> set (image_nodes s (?c i) ?p) = {(b, path_text (node_path s b)) |b. under s (?c i) b \<and> vfs_node_readonly s b = 0})"
      if i: "i < vfs_child_count s a" for i
    proof -
      obtain m where m: "vfs_node s (?c i) = Some m" "vn_parent m = a" "?c i \<noteq> vfs_root_node s" using child_at [OF inv i refl] by blast
      have "vfs_node_type s a = VFS_NODE_DIR" using i n by (auto simp: vfs_child_count_def vfs_node_type_def split: if_splits)
      then show ?thesis using 1(1) [OF a(1) p, of i] i m inv by simp
    qed
    have cnt: "i < vfs_child_count s a \<Longrightarrow> vfs_node_type s a = VFS_NODE_DIR" for i
      using n by (auto simp: vfs_child_count_def vfs_node_type_def split: if_splits)
    have fits: "image_fits s a path \<longleftrightarrow> (\<forall>i < vfs_child_count s a. image_fits s (?c i) ?p)"
      using p a cnt by (auto simp: image_fits.simps [of s a] list_all_iff)
    have nodes: "set (image_nodes s a path) = (if vfs_node_readonly s a = 0 then {(a, ?p)} else {}) \<union> (\<Union>i < vfs_child_count s a. set (image_nodes s (?c i) ?p))"
      using p a cnt by (auto simp: image_nodes.simps [of s a])
    note u = under_children [OF inv a(2)]
    show ?thesis
    proof (intro conjI impI)
      show "image_fits s a path \<longleftrightarrow> (\<forall>b. under s a b \<longrightarrow> length (path_text (node_path s b)) < 256)"
        unfolding u fits using IH True by auto
      assume "image_fits s a path"
      then have "set (image_nodes s (?c i) ?p) = {(b, path_text (node_path s b)) |b. under s (?c i) b \<and> vfs_node_readonly s b = 0}"
        if "i < vfs_child_count s a" for i using fits IH that by blast
      then show "set (image_nodes s a path) = {(b, path_text (node_path s b)) |b. under s a b \<and> vfs_node_readonly s b = 0}"
        using nodes u by auto
    qed
  qed
qed

text \<open>The image of the whole tree.\<close>

definition all_nodes :: "vfs \<Rightarrow> (nat \<times> bytes) list" where
  "all_nodes s = concat (map (\<lambda>i. image_nodes s (vfs_child_at s (vfs_root_node s) i) []) [0..<vfs_child_count s (vfs_root_node s)])"

definition all_fit :: "vfs \<Rightarrow> bool" where
  "all_fit s = list_all (\<lambda>i. image_fits s (vfs_child_at s (vfs_root_node s) i) []) [0..<vfs_child_count s (vfs_root_node s)]"

lemma all_nodes_set:
  assumes "vfs_inv s"
  shows "all_fit s \<longleftrightarrow> (\<forall>b \<in> dom (vfs_node s). length (path_text (node_path s b)) < 256)"
    "all_fit s \<Longrightarrow> set (all_nodes s) = {(b, path_text (node_path s b)) |b. b \<in> dom (vfs_node s) \<and> b \<noteq> vfs_root_node s \<and> vfs_node_readonly s b = 0}"
proof -
  let ?r = "vfs_root_node s" and ?c = "vfs_child_at s (vfs_root_node s)"
  have r: "?r \<in> dom (vfs_node s)" "node_path s ?r = []" using is_dir_dom [OF root_is_dir [OF assms]] node_path_root by auto
  have all: "under s ?r b \<longleftrightarrow> b \<in> dom (vfs_node s)" for b by (simp add: under_def r)
  note u = under_children [OF assms r(1), unfolded all]
  have IH: "(image_fits s (?c i) [] \<longleftrightarrow> (\<forall>b. under s (?c i) b \<longrightarrow> length (path_text (node_path s b)) < 256))
      \<and> (image_fits s (?c i) [] \<longrightarrow> set (image_nodes s (?c i) []) = {(b, path_text (node_path s b)) |b. under s (?c i) b \<and> vfs_node_readonly s b = 0})"
    if i: "i < vfs_child_count s ?r" for i
  proof -
    obtain m where m: "vfs_node s (?c i) = Some m" "vn_parent m = ?r" "?c i \<noteq> ?r" using child_at [OF assms i refl] by blast
    have "[] = path_text (node_path s (vn_parent m))" unfolding m(2) r(2) by (simp add: path_text_def)
    then show ?thesis by (rule image_nodes_set [OF assms m(1,3)])
  qed
  show "all_fit s \<longleftrightarrow> (\<forall>b \<in> dom (vfs_node s). length (path_text (node_path s b)) < 256)"
  proof -
    have "all_fit s \<longleftrightarrow> (\<forall>i < vfs_child_count s ?r. \<forall>b. under s (?c i) b \<longrightarrow> length (path_text (node_path s b)) < 256)"
      using IH by (auto simp: all_fit_def list_all_iff)
    moreover have "length (path_text (node_path s ?r)) < 256" by (simp add: r(2) path_text_def)
    ultimately show ?thesis unfolding Ball_def u by auto
  qed
  have nr: "\<not> under s (?c i) ?r" if i: "i < vfs_child_count s ?r" for i
    using child_path [OF assms i] r by (auto simp: under_def)
  assume "all_fit s"
  then have "set (image_nodes s (?c i) []) = {(b, path_text (node_path s b)) |b. under s (?c i) b \<and> vfs_node_readonly s b = 0}"
    if "i < vfs_child_count s ?r" for i using IH that by (auto simp: all_fit_def list_all_iff)
  then show "set (all_nodes s) = {(b, path_text (node_path s b)) |b. b \<in> dom (vfs_node s) \<and> b \<noteq> ?r \<and> vfs_node_readonly s b = 0}"
    using u nr by (auto simp: all_nodes_def)
qed

section \<open>Reading back a record\<close>

lemma le_word_word_le:
  fixes w :: "'a::len word"
  shows "le_word (map (\<lambda>i. ucast (drop_bit (8 * i) w) :: u8) [k..<k + n]) = take_bit (8 * n) (drop_bit (8 * k) w)"
proof (induction n arbitrary: k)
  case (Suc n)
  have "le_word (map (\<lambda>i. ucast (drop_bit (8 * i) w) :: u8) [k..<k + Suc n])
      = ucast (ucast (drop_bit (8 * k) w) :: u8) OR push_bit 8 (take_bit (8 * n) (drop_bit (8 * Suc k) w))"
    using Suc [of "Suc k"] by (simp add: upt_conv_Cons del: upt_Suc)
  also have "\<dots> = take_bit (8 * Suc n) (drop_bit (8 * k) w)"
    by (rule bit_word_eqI) (auto simp: bit_simps ac_simps)
  finally show ?case .
qed simp

lemma word_le_le_word [simp]: "LENGTH('a) \<le> 8 * n \<Longrightarrow> le_word (word_le n w) = (w :: 'a::len word)"
  using le_word_word_le [of w 0 n] by (simp add: word_le_def take_bit_word_eq_self)

lemma entry_of_bytes [simp]: "entry_of (entry_bytes e) = e"
  by (simp add: entry_of_def entry_bytes_def nth_append)

lemma header_of_bytes [simp]: "header_of (header_bytes h) = h"
  by (simp add: header_of_def header_bytes_def)

lemma get_bytes_mid: "off = length xs \<Longrightarrow> n = length ys \<Longrightarrow> get_bytes (xs @ ys @ zs) off n = Some ys"
  by (simp add: get_bytes_def)

end
