(* ===== verification/Persist_Correct.thy ===== *)
theory Persist_Correct
  imports Persist
begin

text \<open>
  The properties of the image of the file tree: what is exported is imported again, into any tree that
  does not contradict it, and no access leaves a buffer.
\<close>

section \<open>Nodes up to their children\<close>

definition core :: "vfs \<Rightarrow> nat \<Rightarrow> vnode option" where
  "core s a = map_option (vn_children_update (\<lambda>_. [])) (vfs_node s a)"

lemma core_fields:
  assumes "core s' a = core s a" "a \<in> dom (vfs_node s)"
  shows "a \<in> dom (vfs_node s')" "vfs_node_type s' a = vfs_node_type s a" "vfs_node_name s' a = vfs_node_name s a"
    "vfs_node_readonly s' a = vfs_node_readonly s a" "vfs_node_size s' a = vfs_node_size s a" "vfs_node_data s' a = vfs_node_data s a"
    "vfs_node_inode s' a = vfs_node_inode s a" "vfs_node_created s' a = vfs_node_created s a" "vfs_node_modified s' a = vfs_node_modified s a"
proof -
  obtain n where n: "vfs_node s a = Some n" using assms(2) by blast
  then obtain m where m: "vfs_node s' a = Some m" "m\<lparr>vn_children := []\<rparr> = n\<lparr>vn_children := []\<rparr>" using assms(1) by (auto simp: core_def)
  then have "m = n\<lparr>vn_children := vn_children m\<rparr>" by (cases m, cases n) simp
  then obtain cs where "m = n\<lparr>vn_children := cs\<rparr>" by blast
  then show "a \<in> dom (vfs_node s')" "vfs_node_type s' a = vfs_node_type s a" "vfs_node_name s' a = vfs_node_name s a"
    "vfs_node_readonly s' a = vfs_node_readonly s a" "vfs_node_size s' a = vfs_node_size s a" "vfs_node_data s' a = vfs_node_data s a"
    "vfs_node_inode s' a = vfs_node_inode s a" "vfs_node_created s' a = vfs_node_created s a" "vfs_node_modified s' a = vfs_node_modified s a"
    using n m(1) by (auto simp: vfs_node_type_def vfs_node_name_def vfs_node_readonly_def vfs_node_size_def vfs_node_data_def
        vfs_node_inode_def vfs_node_created_def vfs_node_modified_def)
qed

lemma extends_path:
  assumes "extends s s'" "vfs_inv s" "vfs_inv s'" "a \<in> dom (vfs_node s)"
  shows "node_path s' a = node_path s a"
  using assms(4)
proof (induction a rule: less_induct)
  case (less a)
  then obtain n where n: "vfs_node s a = Some n" by blast
  then obtain m where m: "vfs_node s' a = Some m" "vn_name m = vn_name n" "vn_parent m = vn_parent n" "vfs_root_node s' = vfs_root_node s"
    using assms(1) unfolding extends_def by blast
  show ?case
  proof (cases "a = vfs_root_node s")
    case True
    then show ?thesis using m(4) node_path_root by metis
  next
    case False
    note p = inv_parent [OF assms(2) n False]
    then show ?thesis using less.IH [of "vn_parent n"] node_path_step [OF assms(2) n False] node_path_step [OF assms(3) m(1)] m False by simp
  qed
qed

section \<open>Planting nodes of one tree in another\<close>

definition memory_ok :: "vfs \<Rightarrow> bool" where
  "memory_ok s \<longleftrightarrow> (\<forall>i. alloc_answers s i)"

text \<open>Nodes at the same place are of the same kind.\<close>

definition compatible :: "vfs \<Rightarrow> vfs \<Rightarrow> bool" where
  "compatible s u \<longleftrightarrow> (\<forall>a \<in> dom (vfs_node s). \<forall>c \<in> dom (vfs_node u). node_path s a = node_path u c \<longrightarrow> vfs_node_type s a = vfs_node_type u c)"

definition planted :: "vfs \<Rightarrow> vfs \<Rightarrow> nat \<Rightarrow> bool" where
  "planted s u c \<longleftrightarrow> (\<exists>d \<in> dom (vfs_node s). node_path u c = node_path s d \<and> vfs_node_type u c = vfs_node_type s d)"

definition plants :: "vfs \<Rightarrow> vfs \<Rightarrow> vfs \<Rightarrow> bool" where
  "plants s u u' \<longleftrightarrow> vfs_inv u' \<and> extends u u' \<and> memory_ok u' \<and> (\<forall>a \<in> dom (vfs_node u). core u' a = core u a)
    \<and> (\<forall>c \<in> dom (vfs_node u') - dom (vfs_node u). planted s u' c)"

lemma plants_refl: "vfs_inv u \<Longrightarrow> memory_ok u \<Longrightarrow> plants s u u"
  by (simp add: plants_def)

lemma plants_path: "plants s u u' \<Longrightarrow> vfs_inv u \<Longrightarrow> a \<in> dom (vfs_node u) \<Longrightarrow> node_path u' a = node_path u a"
  using extends_path by (auto simp: plants_def)

lemma plants_trans:
  assumes "plants s u v" "plants s v w" "vfs_inv u"
  shows "plants s u w"
proof -
  have dom: "a \<in> dom (vfs_node v)" if "a \<in> dom (vfs_node u)" for a using assms(1) that core_fields(1) unfolding plants_def by blast
  have "planted s w c" if c: "c \<in> dom (vfs_node w)" "c \<notin> dom (vfs_node u)" for c
  proof (cases "c \<in> dom (vfs_node v)")
    case True
    then have "planted s v c" using assms(1) c by (simp add: plants_def)
    moreover have "core w c = core v c" using assms(2) True unfolding plants_def by blast
    moreover have "node_path w c = node_path v c" using plants_path [OF assms(2) _ True] assms(1) unfolding plants_def by blast
    ultimately show ?thesis using core_fields(2) [of w c v] True by (simp add: planted_def)
  next
    case False
    then show ?thesis using assms(2) c by (simp add: plants_def)
  qed
  then have "\<forall>c \<in> dom (vfs_node w) - dom (vfs_node u). planted s w c" by blast
  moreover have "\<forall>a \<in> dom (vfs_node u). core w a = core u a" using assms(1,2) dom unfolding plants_def by simp
  moreover have "extends u w" using assms(1,2) extends_trans [of u v w] by (simp add: plants_def)
  moreover have "vfs_inv w" "memory_ok w" using assms(2) unfolding plants_def by blast+
  ultimately show ?thesis unfolding plants_def by blast
qed

lemma plants_compatible:
  assumes "plants s u u'" "compatible s u" "vfs_inv s" "vfs_inv u"
  shows "compatible s u'"
  unfolding compatible_def
proof (intro ballI impI)
  fix a c assume a: "a \<in> dom (vfs_node s)" and c: "c \<in> dom (vfs_node u')" and eq: "node_path s a = node_path u' c"
  show "vfs_node_type s a = vfs_node_type u' c"
  proof (cases "c \<in> dom (vfs_node u)")
    case True
    have k: "core u' c = core u c" using assms(1) True unfolding plants_def by blast
    have "node_path u' c = node_path u c" by (rule plants_path [OF assms(1,4) True])
    then have "vfs_node_type s a = vfs_node_type u c" using True assms(2) a eq unfolding compatible_def by metis
    then show ?thesis using core_fields(2) [OF k True] by simp
  next
    case False
    then obtain d where "d \<in> dom (vfs_node s)" "node_path u' c = node_path s d" "vfs_node_type u' c = vfs_node_type s d"
      using assms(1) c unfolding plants_def planted_def by blast
    then show ?thesis using node_path_inj [OF assms(3) a] eq by metis
  qed
qed

lemma alloc_ok: "memory_ok u \<Longrightarrow> n \<noteq> 0 \<Longrightarrow> \<exists>u'. vfs_alloc n u = (True, u') \<and> memory_ok u'"
  by (simp add: vfs_alloc_def memory_ok_def)

lemma name_request: "valid_name name \<Longrightarrow> word_of_nat (length name) + 1 \<noteq> (0 :: u64)"
proof
  assume "valid_name name" "word_of_nat (length name) + 1 = (0 :: u64)"
  then have l: "length name + 1 < 2 ^ 64" "word_of_nat (length name + 1) = (0 :: u64)" by (simp_all add: valid_name_iff add.commute)
  have "unat (word_of_nat (length name + 1) :: u64) = length name + 1" using l(1)
    by (simp only: unsigned_of_nat) (simp add: take_bit_nat_eq_self)
  then have "unat (0 :: u64) = length name + 1" unfolding l(2) .
  then show False by simp
qed

lemma add_node_plants:
  assumes "vfs_inv s" "vfs_inv u" "memory_ok u" "is_dir u q" "find_child u q name = 0"
    "d \<in> dom (vfs_node s)" "node_path s d = node_path u q @ [name]" "vfs_node_type s d = type" "valid_name name"
  obtains c u' where "add_node q name type ro u = (c, u')" "plants s u u'" "find_child u' q name = c" "c \<noteq> 0"
    "c \<in> dom (vfs_node u')" "c \<notin> dom (vfs_node u)" "node_path u' c = node_path u q @ [name]" "vfs_node_type u' c = type"
proof -
  obtain c u' where a: "add_node q name type ro u = (c, u')" by force
  obtain n where n: "vfs_node u q = Some n" "vn_type n = VFS_NODE_DIR" using assms(4) by (auto simp: is_dir_def split: option.splits)
  note S = add_node_spec [OF a assms(2,4,9,5)]
  have mem: "c \<noteq> 0 \<and> memory_ok u'"
    using a assms(2,3) name_request [OF assms(9)]
    by (auto simp: add_node_def new_node_def vfs_alloc_def memory_ok_def append_child_def upd_node_def vfs_inv_def Let_def split: if_splits)
  have g: "c = vfs_brk u" "grown_by u q n name type u'" using add_node_cases [OF a assms(2) n(1)] mem by auto
  obtain m where m: "vn_name m = name" "vn_type m = type" "vn_parent m = q"
    "vfs_node u' = (vfs_node u)(q \<mapsto> vn_children_update (\<lambda>cs. cs @ [c]) n, c \<mapsto> m)" using g by (auto simp: grown_by_def)
  have fresh: "c \<notin> dom (vfs_node u)" "c \<in> dom (vfs_node u')" and inv: "vfs_inv u'" and ext: "extends u u'"
    using S mem m(4) by (auto simp: only_adds_def)
  have core: "core u' b = core u b" if "b \<in> dom (vfs_node u)" for b
    using that fresh n(1) m(4) by (auto simp: core_def)
  have "c \<noteq> vfs_root_node u'" using ext fresh(1) is_dir_dom [OF root_is_dir [OF assms(2)]] by (auto simp: extends_def)
  then have path: "node_path u' c = node_path u q @ [name]"
    using node_path_step [OF inv, of c m] extends_path [OF ext assms(2) inv is_dir_dom [OF assms(4)]] m by simp
  have type: "vfs_node_type u' c = type" using m by (simp add: vfs_node_type_def)
  have "dom (vfs_node u') - dom (vfs_node u) = {c}" using m(4) fresh n(1) by auto
  then have "plants s u u'" using inv ext mem core path type assms(6-8) by (auto simp: plants_def planted_def intro!: bexI [of _ d])
  then show thesis using that a S mem fresh path type by blast
qed

lemma ancestor:
  assumes "vfs_inv s" "d \<in> dom (vfs_node s)" "node_path s d = xs @ y # ys"
  obtains e where "e \<in> dom (vfs_node s)" "node_path s e = xs" "is_dir s e"
proof -
  let ?e = "walk s (vfs_root_node s) xs"
  have r0: "vfs_root_node s \<noteq> 0" using is_dir_dom [OF root_is_dir [OF assms(1)]] inv_node0 [OF assms(1)] by (metis domIff)
  have "d \<noteq> 0" using assms(1,2) inv_node0 by (metis domIff)
  then have w: "walk s (vfs_root_node s) (xs @ y # ys) \<noteq> 0" using walk_node_path [OF assms(1,2)] assms(3) by simp
  then have e: "?e \<noteq> 0" using r0 by (auto simp: walk_append split: if_splits)
  then have "find_child s ?e y \<noteq> 0" using w by (auto simp: walk_append split: if_splits)
  from find_child_Some [OF assms(1) refl this] have "is_dir s ?e" by (auto simp: is_dir_def)
  then show thesis using that walk_node [OF assms(1) refl e] by blast
qed

lemma path_names: "vfs_inv s \<Longrightarrow> d \<in> dom (vfs_node s) \<Longrightarrow> p \<in> set (node_path s d) \<Longrightarrow> valid_name p"
  using walk_node_path by blast

lemma dir_type: "is_dir s a \<longleftrightarrow> a \<in> dom (vfs_node s) \<and> vfs_node_type s a = VFS_NODE_DIR"
  by (auto simp: is_dir_def vfs_node_type_def split: option.splits)

lemma find_child_path:
  assumes "vfs_inv u" "q \<in> dom (vfs_node u)" "find_child u q name = c" "c \<noteq> 0"
  shows "c \<in> dom (vfs_node u) \<and> node_path u c = node_path u q @ [name]"
proof -
  have q0: "q \<noteq> 0" using assms(1,2) inv_node0 by (metis domIff)
  have "walk u (vfs_root_node u) (node_path u q @ [name]) = c"
    using walk_snoc [of u "vfs_root_node u" "node_path u q" q name] walk_node_path [OF assms(1,2)] q0 assms(3) by simp
  then show ?thesis using walk_node [OF assms(1) _ assms(4)] by blast
qed

lemma enter_dir_plants:
  assumes "vfs_inv s" "vfs_inv u" "memory_ok u" "compatible s u" "is_dir u q" "e \<in> dom (vfs_node s)" "is_dir s e"
    "node_path s e = node_path u q @ [name]" "valid_name name"
  obtains c u' where "enter_dir True q name u = (c, u')" "plants s u u'" "c \<noteq> 0" "is_dir u' c" "node_path u' c = node_path u q @ [name]"
proof (cases "find_child u q name = 0")
  case True
  have t: "vfs_node_type s e = VFS_NODE_DIR" using assms(7) by (simp add: dir_type)
  obtain c u' where c: "add_node q name VFS_NODE_DIR 0 u = (c, u')" "plants s u u'" "c \<noteq> 0" "c \<in> dom (vfs_node u')"
    "node_path u' c = node_path u q @ [name]" "vfs_node_type u' c = VFS_NODE_DIR"
    using add_node_plants [OF assms(1-3,5) True assms(6,8) t assms(9)] by metis
  have "enter_dir True q name u = (if c = 0 \<or> \<not> is_dir u' c then (0, u') else (c, u'))"
    using c(1) True by (auto simp: enter_dir_def add_node_def Let_def split: prod.splits if_splits)
  then show ?thesis using that c by (simp add: dir_type)
next
  case False
  let ?c = "find_child u q name"
  have c: "?c \<in> dom (vfs_node u)" "node_path u ?c = node_path u q @ [name]" using find_child_path [OF assms(2) is_dir_dom [OF assms(5)] refl False] by blast+
  then have "vfs_node_type s e = vfs_node_type u ?c" using assms(4,6,8) unfolding compatible_def by metis
  then have "is_dir u ?c" using assms(7) c(1) by (simp add: dir_type)
  then show ?thesis using that [of ?c u] False c(2) plants_refl [OF assms(2,3)] by (simp add: enter_dir_def)
qed

lemma resolve_parent_plants:
  assumes "vfs_inv s" "d \<in> dom (vfs_node s)"
    "vfs_inv u" "memory_ok u" "compatible s u" "is_dir u q" "node_path s d = node_path u q @ ps @ [leaf]"
  shows "\<exists>p u'. resolve_parent_loop True q (skip_slash (path_text (ps @ [leaf]))) u = (Some (p, leaf), u') \<and> plants s u u'
    \<and> is_dir u' p \<and> node_path u' p = node_path u q @ ps"
  using assms(3-7)
proof (induction ps arbitrary: u q)
  case Nil
  have v: "valid_name leaf" using path_names [OF assms(1,2)] Nil.prems(5) by simp
  then have "take 63 leaf = leaf" by (simp add: valid_name_iff)
  then have "resolve_parent_loop True q (skip_slash (path_text ([] @ [leaf]))) u = (Some (q, leaf), u)"
    using next_component_text [OF v, of "[]"] by (simp add: resolve_parent_loop.simps path_text_def skip_slash_def)
  then show ?case using plants_refl [OF Nil.prems(1,2)] Nil.prems(4) by auto
next
  case (Cons n ps)
  have v: "valid_name n" using path_names [OF assms(1,2)] Cons.prems(5) by simp
  obtain z zs where z: "ps @ [leaf] = z # zs" by (cases "ps @ [leaf]") auto
  have vz: "valid_name z" using path_names [OF assms(1,2)] Cons.prems(5) z by simp
  obtain e where e: "e \<in> dom (vfs_node s)" "node_path s e = node_path u q @ [n]" "is_dir s e"
    using ancestor [OF assms(1,2), of "node_path u q @ [n]" z zs] Cons.prems(5) z by auto
  obtain c v' where c: "enter_dir True q n u = (c, v')" "plants s u v'" "c \<noteq> 0" "is_dir v' c" "node_path v' c = node_path u q @ [n]"
    using enter_dir_plants [OF assms(1) Cons.prems(1-4) e(1,3,2) v] by blast
  have i: "vfs_inv v'" "memory_ok v'" using c(2) by (simp_all add: plants_def)
  have k: "compatible s v'" by (rule plants_compatible [OF c(2) Cons.prems(3) assms(1) Cons.prems(1)])
  obtain p u' where p: "resolve_parent_loop True c (skip_slash (path_text (ps @ [leaf]))) v' = (Some (p, leaf), u')" "plants s v' u'"
    "is_dir u' p" "node_path u' p = node_path v' c @ ps"
    using Cons.IH [OF i k c(4)] Cons.prems(5) c(5) by auto
  have ne: "skip_slash (path_text (ps @ [leaf])) \<noteq> []" using next_component_text(1,2) [OF vz, of zs] z by simp
  have "resolve_parent_loop True q (skip_slash (path_text ((n # ps) @ [leaf]))) u = (Some (p, leaf), u')"
    using next_component_text [OF v, of "ps @ [leaf]"] v ne c(1,3) p(1) by (subst resolve_parent_loop.simps) (simp add: valid_name_iff)
  then show ?case using p plants_trans [OF c(2) p(2) Cons.prems(1)] c(5) by auto
qed

section \<open>Importing one node\<close>

lemma extends_type: "extends u u' \<Longrightarrow> a \<in> dom (vfs_node u) \<Longrightarrow> a \<in> dom (vfs_node u') \<and> vfs_node_type u' a = vfs_node_type u a"
proof -
  assume e: "extends u u'" "a \<in> dom (vfs_node u)"
  then obtain n where "vfs_node u a = Some n" by blast
  moreover from this obtain m where "vfs_node u' a = Some m" "vn_type m = vn_type n" using e(1) unfolding extends_def by blast
  ultimately show ?thesis by (auto simp: vfs_node_type_def)
qed

text \<open>What one import of the node \<open>a\<close> of \<open>s\<close> does to \<open>u\<close>.\<close>

definition stores :: "vfs \<Rightarrow> nat \<Rightarrow> vfs \<Rightarrow> vfs \<Rightarrow> bool" where
  "stores s a u u' \<longleftrightarrow> vfs_inv u' \<and> extends u u' \<and> memory_ok u'
    \<and> (\<forall>b \<in> dom (vfs_node u). node_path u b \<noteq> node_path s a \<longrightarrow> core u' b = core u b)
    \<and> (\<forall>c \<in> dom (vfs_node u') - dom (vfs_node u). planted s u' c)"

lemma stores_compatible:
  assumes "stores s a u u'" "compatible s u" "vfs_inv s" "vfs_inv u"
  shows "compatible s u'"
  unfolding compatible_def
proof (intro ballI impI)
  have i: "vfs_inv u'" "extends u u'" using assms(1) by (simp_all add: stores_def)
  fix d c assume d: "d \<in> dom (vfs_node s)" and c: "c \<in> dom (vfs_node u')" and eq: "node_path s d = node_path u' c"
  show "vfs_node_type s d = vfs_node_type u' c"
  proof (cases "c \<in> dom (vfs_node u)")
    case True
    have "node_path u' c = node_path u c" by (rule extends_path [OF i(2) assms(4) i(1) True])
    then have "vfs_node_type s d = vfs_node_type u c" using True assms(2) d eq unfolding compatible_def by metis
    then show ?thesis using extends_type [OF i(2) True] by simp
  next
    case False
    then obtain e where "e \<in> dom (vfs_node s)" "node_path u' c = node_path s e" "vfs_node_type u' c = vfs_node_type s e"
      using assms(1) c unfolding stores_def planted_def by blast
    then show ?thesis using node_path_inj [OF assms(3) d] eq by metis
  qed
qed

definition holds_record :: "vfs \<Rightarrow> nat \<Rightarrow> u8 \<Rightarrow> u8 \<Rightarrow> bytes \<Rightarrow> u64 \<Rightarrow> u64 \<Rightarrow> u64 \<Rightarrow> bool" where
  "holds_record u c type ro data inode created modified \<longleftrightarrow> vfs_node_type u c = type \<and> vfs_node_readonly u c = ro
    \<and> vfs_node_inode u c = inode \<and> vfs_node_created u c = created \<and> vfs_node_modified u c = modified
    \<and> (type = VFS_NODE_FILE \<longrightarrow> vfs_node_size u c = word_of_nat (length data) \<and> vfs_node_data u c = data @ [0])"

lemma import_counters_fields [simp]:
  "vfs_node (import_counters a b c s) = vfs_node s" "vfs_brk (import_counters a b c s) = vfs_brk s"
  "vfs_root_node (import_counters a b c s) = vfs_root_node s" "alloc_answers (import_counters a b c s) = alloc_answers s"
  by (simp_all add: import_counters_def Let_def)

lemma data_request: "length d < 2 ^ 64 - 1 \<Longrightarrow> word_of_nat (length d) + 1 \<noteq> (0 :: u64)"
proof
  assume l: "length d < 2 ^ 64 - 1" "word_of_nat (length d) + 1 = (0 :: u64)"
  then have m: "length d + 1 < 2 ^ 64" "word_of_nat (length d + 1) = (0 :: u64)" by (simp_all add: add.commute)
  have "unat (word_of_nat (length d + 1) :: u64) = length d + 1" using m(1) by (simp only: unsigned_of_nat) (simp add: take_bit_nat_eq_self)
  then have "unat (0 :: u64) = length d + 1" unfolding m(2) .
  then show False by simp
qed

text \<open>The last steps of \<^verbatim>\<open>vfs_import_node\<close>, on a node that is there.\<close>

lemma fill_node:
  assumes "vfs_inv u" "memory_ok u" "c \<in> dom (vfs_node u)" "vfs_node_type u c = type" "length data < 2 ^ 64 - 1"
    "u' = (if type = VFS_NODE_FILE then put_data c data (word_of_nat (length data)) (snd (vfs_alloc (word_of_nat (length data) + 1) u)) else u)"
    "v = import_counters inode created modified
       (upd_node c (\<lambda>n. n\<lparr>vn_readonly := ro, vn_inode := inode, vn_created := created, vn_modified := modified\<rparr>) u')"
  shows "vfs_inv v" "extends u v" "memory_ok v" "dom (vfs_node v) = dom (vfs_node u)" "holds_record v c type ro data inode created modified"
    "\<And>b. b \<noteq> c \<Longrightarrow> vfs_node v b = vfs_node u b"
proof -
  obtain w where w: "vfs_alloc (word_of_nat (length data) + 1) u = (True, w)" "memory_ok w"
    using alloc_ok [OF assms(2) data_request [OF assms(5)]] by blast
  note sw = alloc_same [OF w(1)]
  have u': "same_tree u u'" "memory_ok u'"
    using assms(2,6) w same_tree_trans [OF sw [THEN conjunct1] same_tree_put_data] by (auto simp: memory_ok_def put_data_def upd_node_def)
  let ?x = "upd_node c (\<lambda>n. n\<lparr>vn_readonly := ro, vn_inode := inode, vn_created := created, vn_modified := modified\<rparr>) u'"
  have "same_tree u' ?x" by (rule same_tree_upd) simp
  moreover have "same_tree ?x v" unfolding assms(7) by (simp add: same_tree_def tree_of_def fun_eq_iff)
  ultimately have "same_tree u' v" using same_tree_trans by blast
  then have same: "same_tree u v" using u'(1) same_tree_trans by blast
  show "vfs_inv v" "extends u v" using same_tree_inv [OF same assms(1)] extends_same_tree [OF same] by auto
  show "memory_ok v" using u'(2) by (simp add: assms(7) memory_ok_def upd_node_def)
  show "dom (vfs_node v) = dom (vfs_node u)" unfolding dom_def using same_tree_none [OF same] by simp
  show "vfs_node v b = vfs_node u b" if "b \<noteq> c" for b using that sw by (simp add: assms(6,7) w(1) upd_node_def put_data_def)
  obtain n where n: "vfs_node u c = Some n" using assms(3) by blast
  show "holds_record v c type ro data inode created modified"
    using n assms(4) sw by (auto simp: holds_record_def assms(6,7) w(1) upd_node_def put_data_def vfs_node_type_def vfs_node_readonly_def
        vfs_node_inode_def vfs_node_created_def vfs_node_modified_def vfs_node_size_def vfs_node_data_def)
qed

lemma import_node:
  assumes "vfs_inv s" "a \<in> dom (vfs_node s)" "a \<noteq> vfs_root_node s" "vfs_inv u" "memory_ok u" "compatible s u" "length data < 2 ^ 64 - 1"
  obtains u' c where "vfs_import_node (path_text (node_path s a)) (vfs_node_type s a) ro data inode created modified u = (0, u')"
    "stores s a u u'" "c \<in> dom (vfs_node u')" "node_path u' c = node_path s a"
    "holds_record u' c (vfs_node_type s a) ro data inode created modified"
proof -
  let ?path = "path_text (node_path s a)" and ?t = "vfs_node_type s a" and ?z = "word_of_nat (length data) :: u64"
  obtain n where n: "vfs_node s a = Some n" using assms(2) by blast
  obtain ps leaf where pl: "node_path s a = ps @ [leaf]" using node_path_step [OF assms(1) n assms(3)] by blast
  have v: "valid_name leaf" using path_names [OF assms(1,2)] pl by simp
  let ?r = "vfs_root_node u"
  have r: "is_dir u ?r" "node_path u ?r = []" using root_is_dir [OF assms(4)] node_path_root by auto
  have r0: "?r \<noteq> 0" using is_dir_dom [OF r(1)] inv_node0 [OF assms(4)] by (metis domIff)
  have ne: "?path \<noteq> []" "hd ?path = slash" using pl path_text_Nil [of "node_path s a"] by (simp, cases ps) (simp_all add: path_text_def)
  obtain p u1 where p: "resolve_parent_loop True ?r (skip_slash ?path) u = (Some (p, leaf), u1)" "plants s u u1" "is_dir u1 p" "node_path u1 p = ps"
    using resolve_parent_plants [OF assms(1,2,4-6) r(1)] pl r(2) by auto
  have rp: "resolve_parent True ?r ?path u = (Some (p, leaf), u1)" using p(1) r0 ne by (simp add: resolve_parent_def start_node_def)
  have i1: "vfs_inv u1" "memory_ok u1" using p(2) by (simp_all add: plants_def)
  have c1: "compatible s u1" by (rule plants_compatible [OF p(2) assms(6,1,4)])
  define found where "found = find_child u1 p leaf"
  obtain c u2 where c: "(if found = 0 then add_node p leaf ?t ro u1 else (found, u1)) = (c, u2)" "plants s u1 u2" "c \<noteq> 0" "c \<in> dom (vfs_node u2)"
    "node_path u2 c = ps @ [leaf]" "vfs_node_type u2 c = ?t"
  proof (cases "found = 0")
    case True
    then obtain c u2 where "add_node p leaf ?t ro u1 = (c, u2)" "plants s u1 u2" "c \<noteq> 0" "c \<in> dom (vfs_node u2)"
      "node_path u2 c = ps @ [leaf]" "vfs_node_type u2 c = ?t"
      using add_node_plants [OF assms(1) i1 p(3) _ assms(2) _ refl v] pl p(4) found_def by metis
    then show thesis using that True by simp
  next
    case False
    note f = find_child_path [OF i1(1) is_dir_dom [OF p(3)] found_def [symmetric] False]
    then have "vfs_node_type u1 found = ?t" using c1 assms(2) pl p(4) unfolding compatible_def by metis
    then show thesis using that [of found u1] False f p(4) plants_refl [OF i1] by simp
  qed
  have i2: "vfs_inv u2" "memory_ok u2" using c(2) by (simp_all add: plants_def)
  have s2: "plants s u u2" by (rule plants_trans [OF p(2) c(2) assms(4)])
  define u3 where "u3 = (if ?t = VFS_NODE_FILE then put_data c data ?z (snd (vfs_alloc (?z + 1) u2)) else u2)"
  define u4 where "u4 = import_counters inode created modified
       (upd_node c (\<lambda>n. n\<lparr>vn_readonly := ro, vn_inode := inode, vn_created := created, vn_modified := modified\<rparr>) u3)"
  note F = fill_node [OF i2 c(4,6) assms(7) u3_def u4_def]
  obtain w where w: "vfs_alloc (?z + 1) u2 = (True, w)" using alloc_ok [OF i2(2) data_request [OF assms(7)]] by blast
  have knd: "(case vfs_node u2 c of Some n \<Rightarrow> vn_type n | None \<Rightarrow> 0) = ?t" using c(4,6) by (auto simp: vfs_node_type_def)
  have root: "\<not> (?r = 0 \<or> ?path = [])" using r0 ne by simp
  have run: "vfs_import_node ?path ?t ro data inode created modified u = (0, u4)"
    unfolding vfs_import_node_def if_not_P [OF root] rp prod.case option.case Let_def found_def [symmetric] c(1)
    using v c(3) knd w by (simp add: u4_def u3_def)
  have path4: "node_path u4 b = node_path u2 b" if "b \<in> dom (vfs_node u2)" for b by (rule extends_path [OF F(2) i2(1) F(1) that])
  have "extends u u4" using s2 F(2) extends_trans [of u u2 u4] by (simp add: plants_def)
  moreover have "core u4 b = core u b" if b: "b \<in> dom (vfs_node u)" "node_path u b \<noteq> node_path s a" for b
  proof -
    have "b \<noteq> c" using plants_path [OF s2 assms(4) b(1)] b(2) c(5) pl by auto
    moreover have "core u2 b = core u b" using s2 b(1) unfolding plants_def by blast
    ultimately show ?thesis using F(6) by (simp add: core_def)
  qed
  moreover have "planted s u4 b" if b: "b \<in> dom (vfs_node u4)" "b \<notin> dom (vfs_node u)" for b
  proof -
    have d: "b \<in> dom (vfs_node u2)" using b(1) F(4) by simp
    then have "planted s u2 b" using s2 b(2) unfolding plants_def by blast
    then show ?thesis using path4 [OF d] extends_type [OF F(2) d] by (simp add: planted_def)
  qed
  ultimately have "stores s a u u4" using F(1,3) by (simp add: stores_def)
  then show thesis using that run c(4,5) F(4,5) path4 pl by metis
qed

section \<open>Importing an image\<close>

definition record_data :: "vfs \<Rightarrow> nat \<Rightarrow> bytes" where
  "record_data s a = (if vfs_node_type s a = VFS_NODE_FILE then file_bytes s a else [])"

text \<open>The node \<open>c\<close> of \<open>u\<close> is a copy of the node \<open>a\<close> of \<open>s\<close>.\<close>

definition copy_of :: "vfs \<Rightarrow> nat \<Rightarrow> vfs \<Rightarrow> nat \<Rightarrow> bool" where
  "copy_of s a u c \<longleftrightarrow> c \<in> dom (vfs_node u) \<and> node_path u c = node_path s a
    \<and> holds_record u c (vfs_node_type s a) (vfs_node_readonly s a) (record_data s a) (vfs_node_inode s a) (vfs_node_created s a) (vfs_node_modified s a)"

lemma record_data_take: "exportable s \<Longrightarrow> take (unat (pe_data_size (node_entry s a p))) (vfs_node_data s a) = record_data s a"
  by (simp add: exportable_data(3) record_data_def file_bytes_def)

lemma length_record_data:
  "exportable s \<Longrightarrow> length (record_data s a) = (if vfs_node_type s a = VFS_NODE_FILE then unat (vfs_node_size s a) else 0)"
  using exportable_data(2,3) [of s a "[]"] by (auto simp: record_data_def file_bytes_def)

lemma import_entry_record:
  assumes "exportable s" "p \<noteq> []" "0 \<notin> set p" "length p < 256" "buf = pre @ record_bytes s (a, p) @ rest"
    "length pre + length (record_bytes s (a, p)) \<le> unat used"
    "vfs_import_node p (vfs_node_type s a) (vfs_node_readonly s a) (record_data s a) (vfs_node_inode s a) (vfs_node_created s a) (vfs_node_modified s a) u = (r, u')"
  shows "import_entry buf used (length pre) u = Some (if r \<noteq> 0 then -1 else 0, length pre + length (record_bytes s (a, p)), u')"
proof -
  let ?e = "node_entry s a p" and ?d = "record_data s a"
  have len: "length ?d = unat (pe_data_size ?e)" using exportable_data(3) [OF assms(1)] length_record_data [OF assms(1)] by simp
  have rec: "record_bytes s (a, p) = entry_bytes ?e @ p @ ?d" by (simp add: record_bytes_def record_data_take [OF assms(1)])
  then have lr: "length (record_bytes s (a, p)) = 32 + length p + length ?d" by simp
  have g1: "get_bytes buf (length pre) 32 = Some (entry_bytes ?e)" unfolding assms(5) rec append_assoc by (rule get_bytes_mid) simp_all
  have g2: "get_bytes buf (length pre + 32) (length p) = Some p"
    using get_bytes_mid [of "length pre + 32" "pre @ entry_bytes ?e" "length p" p "?d @ rest"] by (simp add: assms(5) rec)
  have g3: "get_bytes buf (length pre + 32 + length p) (unat (pe_data_size ?e)) = Some ?d"
    using get_bytes_mid [of "length pre + 32 + length p" "pre @ entry_bytes ?e @ p" "length ?d" ?d rest] len by (simp add: assms(5) rec)
  have n: "unat (pe_path_len ?e) = length p" using assms(4) by (simp add: node_entry_def unsigned_of_nat take_bit_nat_eq_self)
  have f: "pe_type ?e = vfs_node_type s a" "pe_readonly ?e = vfs_node_readonly s a" "pe_inode ?e = vfs_node_inode s a"
    "pe_created ?e = vfs_node_created s a" "pe_modified ?e = vfs_node_modified s a" by (simp_all add: node_entry_def)
  have t: "takeWhile (\<lambda>c. c \<noteq> 0) p = p" using assms(3) by (auto simp: takeWhile_eq_all_conv)
  have le: "\<not> length pre + 32 > unat used" "\<not> length pre + 32 + length p + unat (pe_data_size ?e) > unat used" "\<not> (length p = 0 \<or> length p \<ge> PERSISTFS_PATH_CAP)"
    using assms(2,4,6) lr len by (simp_all add: PERSISTFS_PATH_CAP_def)
  have d0: "vfs_node_type s a \<noteq> VFS_NODE_FILE \<Longrightarrow> ?d = [] \<and> unat (pe_data_size ?e) = 0" by (simp add: record_data_def node_entry_def)
  show ?thesis
    unfolding import_entry_def if_not_P [OF le(1)] g1 option.case entry_of_bytes Let_def n if_not_P [OF le(2)] if_not_P [OF le(3)] g2 f g3 t
    using assms(7) d0 lr len by (cases "vfs_node_type s a = VFS_NODE_FILE") simp_all
qed

text \<open>A node of the list of records.\<close>

definition recordable :: "vfs \<Rightarrow> nat \<times> bytes \<Rightarrow> bool" where
  "recordable s x \<longleftrightarrow> fst x \<in> dom (vfs_node s) \<and> fst x \<noteq> vfs_root_node s \<and> snd x = path_text (node_path s (fst x)) \<and> length (snd x) < 256"

text \<open>Names are C strings.\<close>

definition c_names :: "vfs \<Rightarrow> bool" where
  "c_names s \<longleftrightarrow> (\<forall>a \<in> dom (vfs_node s). 0 \<notin> set (vfs_node_name s a))"

lemma c_names_path:
  assumes "c_names s" "vfs_inv s" "a \<in> dom (vfs_node s)"
  shows "0 \<notin> set (path_text (node_path s a))"
  using assms(3)
proof (induction a rule: less_induct)
  case (less a)
  then obtain n where n: "vfs_node s a = Some n" by blast
  show ?case
  proof (cases "a = vfs_root_node s")
    case False
    note p = inv_parent [OF assms(2) n False]
    have "0 \<notin> set (vn_name n)" using assms(1) less.prems n unfolding c_names_def vfs_node_name_def by force
    then show ?thesis using less.IH [of "vn_parent n"] p by (simp add: node_path_step [OF assms(2) n False] path_text_snoc slash_def)
  qed (simp add: node_path_root path_text_def)
qed

lemma stores_refl: "vfs_inv u \<Longrightarrow> memory_ok u \<Longrightarrow> stores s a u u"
  by (simp add: stores_def)

definition restored :: "vfs \<Rightarrow> (nat \<times> bytes) list \<Rightarrow> vfs \<Rightarrow> vfs \<Rightarrow> bool" where
  "restored s xs u u' \<longleftrightarrow> vfs_inv u' \<and> extends u u' \<and> (\<forall>x \<in> set xs. \<exists>c. copy_of s (fst x) u' c)
    \<and> (\<forall>b \<in> dom (vfs_node u). (\<forall>x \<in> set xs. node_path u b \<noteq> node_path s (fst x)) \<longrightarrow> core u' b = core u b)
    \<and> (\<forall>c \<in> dom (vfs_node u') - dom (vfs_node u). planted s u' c)"

lemma copy_of_kept:
  assumes "copy_of s a u c" "core u' c = core u c" "node_path u' c = node_path u c"
  shows "copy_of s a u' c"
  using assms core_fields [OF assms(2)] by (auto simp: copy_of_def holds_record_def)

lemma restored_step:
  assumes "stores s a u v" "copy_of s a v c" "restored s xs v w" "vfs_inv u" "vfs_inv s" "\<forall>x \<in> set xs. recordable s x" "a \<in> dom (vfs_node s)"
  shows "restored s ((a, p) # xs) u w"
proof -
  have v: "vfs_inv v" "extends u v" and w: "vfs_inv w" "extends v w" using assms(1,3) by (simp_all add: stores_def restored_def)
  have pv: "node_path v b = node_path u b" if "b \<in> dom (vfs_node u)" for b by (rule extends_path [OF v(2) assms(4) v(1) that])
  have pw: "node_path w b = node_path v b" if "b \<in> dom (vfs_node v)" for b by (rule extends_path [OF w(2) v(1) w(1) that])
  have dv: "b \<in> dom (vfs_node v)" if "b \<in> dom (vfs_node u)" for b by (rule extends_kind(1) [OF v(2) that])
  have head: "\<exists>c. copy_of s a w c"
  proof (cases "\<exists>x \<in> set xs. fst x = a")
    case True
    then show ?thesis using assms(3) unfolding restored_def by metis
  next
    case False
    have c: "c \<in> dom (vfs_node v)" "node_path v c = node_path s a" using assms(2) by (simp_all add: copy_of_def)
    have "\<forall>x \<in> set xs. node_path v c \<noteq> node_path s (fst x)"
      using False c(2) node_path_inj [OF assms(5,7)] assms(6) unfolding recordable_def by metis
    then have "core w c = core v c" using assms(3) c(1) unfolding restored_def by blast
    then show ?thesis using copy_of_kept [OF assms(2) _ pw [OF c(1)]] by blast
  qed
  have kept: "core w b = core u b" if b: "b \<in> dom (vfs_node u)" "\<forall>x \<in> set ((a, p) # xs). node_path u b \<noteq> node_path s (fst x)" for b
  proof -
    have "core v b = core u b" using assms(1) b unfolding stores_def by simp
    moreover have "core w b = core v b" using assms(3) b dv [OF b(1)] pv [OF b(1)] unfolding restored_def by simp
    ultimately show ?thesis by simp
  qed
  have new: "planted s w b" if b: "b \<in> dom (vfs_node w)" "b \<notin> dom (vfs_node u)" for b
  proof (cases "b \<in> dom (vfs_node v)")
    case True
    then have "planted s v b" using assms(1) b unfolding stores_def by blast
    then show ?thesis using pw [OF True] extends_type [OF w(2) True] by (simp add: planted_def)
  next
    case False
    then show ?thesis using assms(3) b unfolding restored_def by blast
  qed
  have "extends u w" using v(2) w(2) extends_trans by blast
  moreover have "\<forall>x \<in> set xs. \<exists>c. copy_of s (fst x) w c" using assms(3) by (simp add: restored_def)
  ultimately show ?thesis using w(1) head kept new by (simp add: restored_def)
qed

lemma import_loop_restores:
  assumes "vfs_inv s" "exportable s" "c_names s"
  shows "\<forall>x \<in> set xs. recordable s x \<Longrightarrow> vfs_inv u \<Longrightarrow> memory_ok u \<Longrightarrow> compatible s u
    \<Longrightarrow> buf = pre @ concat (map (record_bytes s) xs) @ post \<Longrightarrow> length pre + length (concat (map (record_bytes s) xs)) \<le> unat used
    \<Longrightarrow> \<exists>u'. import_loop (length xs) buf used (length pre) u = Some (0, u') \<and> restored s xs u u'"
proof (induction xs arbitrary: pre u)
  case Nil
  then show ?case by (simp add: restored_def)
next
  case (Cons x xs)
  obtain a p where x: "x = (a, p)" by force
  have r: "a \<in> dom (vfs_node s)" "a \<noteq> vfs_root_node s" "p = path_text (node_path s a)" "length p < 256"
    using Cons.prems(1) by (auto simp: recordable_def x)
  obtain n where n: "vfs_node s a = Some n" using r(1) by blast
  have p: "p \<noteq> []" "0 \<notin> set p" using r(3) path_text_Nil [of "node_path s a"] node_path_step [OF assms(1) n r(2)] c_names_path [OF assms(3,1) r(1)] by auto
  have "length (record_data s a) < 2 ^ 64 - 1"
  proof -
    have "unat (vfs_node_size s a) < 2 ^ 32" using assms(2) by (simp add: exportable_def)
    then show ?thesis using length_record_data [OF assms(2), of a] by simp
  qed
  then obtain v c where i: "vfs_import_node p (vfs_node_type s a) (vfs_node_readonly s a) (record_data s a) (vfs_node_inode s a) (vfs_node_created s a) (vfs_node_modified s a) u = (0, v)"
    "stores s a u v" "c \<in> dom (vfs_node v)" "node_path v c = node_path s a"
    "holds_record v c (vfs_node_type s a) (vfs_node_readonly s a) (record_data s a) (vfs_node_inode s a) (vfs_node_created s a) (vfs_node_modified s a)"
    using import_node [OF assms(1) r(1,2) Cons.prems(2-4)] r(3) by metis
  have c: "copy_of s a v c" using i(3-5) by (simp add: copy_of_def)
  have e: "import_entry buf used (length pre) u = Some (0, length (pre @ record_bytes s x), v)"
    using import_entry_record [OF assms(2) p r(4) _ _ i(1), of buf pre "concat (map (record_bytes s) xs) @ post" used] Cons.prems(5,6) x by simp
  have iv: "vfs_inv v" "memory_ok v" using i(2) by (simp_all add: stores_def)
  have k: "compatible s v" by (rule stores_compatible [OF i(2) Cons.prems(4) assms(1) Cons.prems(2)])
  obtain w where w: "import_loop (length xs) buf used (length (pre @ record_bytes s x)) v = Some (0, w)" "restored s xs v w"
    using Cons.IH [OF _ iv k, of "pre @ record_bytes s x"] Cons.prems(1,5,6) by auto
  have "restored s (x # xs) u w" unfolding x using restored_step [OF i(2) c w(2) Cons.prems(2) assms(1) _ r(1)] Cons.prems(1) by simp
  then show ?case using e w(1) by simp
qed

section \<open>Exporting the tree\<close>

definition image_size :: "vfs \<Rightarrow> nat" where
  "image_size s = 24 + sum_list (map (record_size s) (all_nodes s))"

definition image_records :: "vfs \<Rightarrow> bytes" where
  "image_records s = concat (map (record_bytes s) (all_nodes s))"

lemma length_image_records: "exportable s \<Longrightarrow> length (image_records s) + 24 = image_size s"
  by (simp add: image_records_def image_size_def length_concat comp_def record_size_bytes)

lemma measure_root_eq: "measure_root s = (word_of_nat (image_size s - 24), word_of_nat (length (all_nodes s)))"
  unfolding measure_root_def
  by (subst measure_fold [where s = s and g = "\<lambda>i. image_nodes s (vfs_child_at s (vfs_root_node s) i) []"])
    (simp_all add: measure_node_eq image_size_def all_nodes_def)

lemma entries_fit: "32 * length xs \<le> sum_list (map (record_size s) xs)"
  by (induction xs) (auto simp: record_size_def)

text \<open>Sectors: the size rounded up to a multiple of 512.\<close>

definition image_sectors :: "vfs \<Rightarrow> nat" where
  "image_sectors s = (image_size s + 511) div 512"

lemma align_sectors:
  assumes "unat w < 2 ^ 63"
  shows "unat (persist_align_up w 512 div 512) = (unat w + 511) div 512" "unat (persist_align_up w 512 div 512 * 512) = (unat w + 511) div 512 * 512"
proof -
  have "unat (w + 511) = unat w + 511" using assms by (simp add: unat_word_ariths)
  moreover have "persist_align_up w 512 = (w + 511) AND NOT (mask 9)" by (simp add: persist_align_up_def mask_eq_exp_minus_1 add.commute)
  ultimately have a: "unat (persist_align_up w 512) = (unat w + 511) div 512 * 512" using unat_and_not_mask [of "w + 511" 9] by simp
  then show d: "unat (persist_align_up w 512 div 512) = (unat w + 511) div 512" by (simp add: unat_div)
  show "unat (persist_align_up w 512 div 512 * 512) = (unat w + 511) div 512 * 512" using d assms by (simp add: unat_word_ariths)
qed

lemma image_sectors_bounds: "image_size s \<le> image_sectors s * 512" "0 < image_sectors s" "image_sectors s * 512 \<le> image_size s + 511"
  by (simp_all add: image_sectors_def image_size_def)

lemma sectors_eq:
  assumes "image_size s < 2 ^ 63"
  shows "unat (persist_align_up (24 + word_of_nat (image_size s - 24)) 512 div 512) = image_sectors s"
    "unat (persist_align_up (24 + word_of_nat (image_size s - 24)) 512 div 512 * 512) = image_sectors s * 512"
proof -
  have "24 + word_of_nat (image_size s - 24) = (word_of_nat (image_size s) :: u64)" by (simp add: image_size_def)
  then have "unat (24 + word_of_nat (image_size s - 24) :: u64) = image_size s" using assms by (simp add: unsigned_of_nat take_bit_nat_eq_self)
  then show "unat (persist_align_up (24 + word_of_nat (image_size s - 24)) 512 div 512) = image_sectors s"
    "unat (persist_align_up (24 + word_of_nat (image_size s - 24)) 512 div 512 * 512) = image_sectors s * 512"
    using align_sectors [of "24 + word_of_nat (image_size s - 24)"] assms by (simp_all add: image_sectors_def)
qed

lemma write_root_spec:
  assumes "exportable s" "snd st \<noteq> 0" "snd st \<le> length (fst st)"
  shows "(all_fit s \<longrightarrow> write_root s st = put_bytes (image_records s) st)
    \<and> (\<not> all_fit s \<longrightarrow> put_bytes (image_records s) st \<noteq> None \<longrightarrow> (\<exists>b. write_root s st = Some (b, 0)))"
proof -
  let ?c = "vfs_child_at s (vfs_root_node s)"
  have r: "image_records s = concat (map (\<lambda>i. concat (map (record_bytes s) (image_nodes s (?c i) []))) [0..<vfs_child_count s (vfs_root_node s)])"
    by (simp add: image_records_def all_nodes_def map_concat comp_def concat_concat_map)
  show ?thesis unfolding r all_fit_def write_root_def
    by (rule write_fold [OF _ assms(2,3)]) (use write_node_spec [OF assms(1)] in blast)
qed

lemma alloc_node_same: "vfs_alloc n s = (ok, s1) \<Longrightarrow> vfs_node s1 = vfs_node s \<and> vfs_root_node s1 = vfs_root_node s"
  by (auto simp: vfs_alloc_def split: if_splits)

lemma write_node_cong:
  "vfs_node s1 = vfs_node s \<Longrightarrow> persistfs_write_node s1 a path st = persistfs_write_node s a path st"
proof (induction s a path st rule: persistfs_write_node.induct)
  case (1 s a path st)
  have e: "node_entry s1 = node_entry s" "put_data_bytes s1 = put_data_bytes s"
    using 1(2) by (auto simp: fun_eq_iff vfs_node_type_def vfs_node_readonly_def
        node_entry_def put_data_bytes_def vfs_node_data_def vfs_node_size_def vfs_node_inode_def vfs_node_created_def vfs_node_modified_def)
  then have "put_entry s1 = put_entry s" unfolding put_entry_def by simp
  moreover have acc: "vfs_child_at s1 = vfs_child_at s" "vfs_child_count s1 = vfs_child_count s" "vfs_node_name s1 = vfs_node_name s"
    "vfs_node_type s1 = vfs_node_type s" "vfs_node_readonly s1 = vfs_node_readonly s"
    using 1(2) by (auto simp: fun_eq_iff vfs_child_at_def vfs_child_count_def vfs_node_name_def vfs_node_type_def vfs_node_readonly_def)
  ultimately have acc: "vfs_child_at s1 = vfs_child_at s" "vfs_child_count s1 = vfs_child_count s" "vfs_node_name s1 = vfs_node_name s"
    "vfs_node_type s1 = vfs_node_type s" "vfs_node_readonly s1 = vfs_node_readonly s" "put_entry s1 = put_entry s" by simp_all
  show ?case
    apply (subst (1 2) persistfs_write_node.simps)
    unfolding acc Let_def
    by (intro if_cong refl option.case_cong fold_cong) (use 1 in \<open>auto split: option.split\<close>)
qed

lemma write_root_cong: "vfs_node s1 = vfs_node s \<Longrightarrow> vfs_root_node s1 = vfs_root_node s \<Longrightarrow> write_root s1 st = write_root s st"
proof -
  assume e: "vfs_node s1 = vfs_node s" "vfs_root_node s1 = vfs_root_node s"
  have "vfs_child_at s1 = vfs_child_at s" "vfs_child_count s1 = vfs_child_count s"
    using e by (simp_all add: fun_eq_iff vfs_child_at_def vfs_child_count_def)
  then show ?thesis unfolding write_root_def write_node_cong [OF e(1)] e(2) by (simp only:)
qed

lemma export_image_spec:
  assumes "exportable s" "image_size s < 2 ^ 63" "vfs_alloc (word_of_nat (image_sectors s * 512)) s = (ok, s1)"
  defines "h \<equiv> \<lparr>ph_magic = PERSISTFS_MAGIC, ph_version = PERSISTFS_VERSION, ph_entry_count = word_of_nat (length (all_nodes s)),
     ph_bytes_used = ucast (word_of_nat (image_size s) :: u64), ph_reserved = 0\<rparr>"
  shows "persistfs_export_image s = Some (if \<not> ok then (-103, [], 0)
    else if all_fit s then (0, header_bytes h @ image_records s @ replicate (image_sectors s * 512 - image_size s) 0, ucast (word_of_nat (length (all_nodes s)) :: u32))
    else (-104, [], 0), s1)"
proof -
  let ?t = "24 + word_of_nat (image_size s - 24) :: u64" and ?n = "image_sectors s * 512"
  note S = sectors_eq [OF assms(2)] image_sectors_bounds [of s]
  have t: "?t = word_of_nat (image_size s)"
    by (simp add: image_size_def)
  let ?w = "persist_align_up ?t 512 div 512"
  have w0: "?w \<noteq> 0" using S(1,4) by (metis unsigned_0 less_irrefl)
  have w: "?w * 512 = word_of_nat ?n" 
  proof -
    have "word_of_nat (unat (?w * 512)) = ?w * 512" by simp
    then show ?thesis unfolding S(2) by simp
  qed
  have put: "put_bytes (header_bytes h) (replicate ?n 0, 0) = Some (header_bytes h @ replicate (?n - 24) 0, 24)"
    using S(3) by (simp add: put_bytes_def image_size_def)
  let ?st = "(header_bytes h @ replicate (?n - 24) 0, 24 :: nat)"
  have len: "length (image_records s) + 24 = image_size s" by (rule length_image_records [OF assms(1)])
  have recs: "put_bytes (image_records s) ?st = Some (header_bytes h @ image_records s @ replicate (?n - image_size s) 0, image_size s)"
    using S(3) len by (simp add: put_bytes_def add.commute)
  have W: "(all_fit s \<longrightarrow> write_root s1 ?st = put_bytes (image_records s) ?st)
    \<and> (\<not> all_fit s \<longrightarrow> put_bytes (image_records s) ?st \<noteq> None \<longrightarrow> (\<exists>b. write_root s1 ?st = Some (b, 0)))"
    using write_root_spec [OF assms(1), of ?st] write_root_cong [of s1 s] alloc_node_same [OF assms(3)] by simp
  have sz: "image_size s \<noteq> 0" by (simp add: image_size_def)
  have "unat (word_of_nat ?n :: u64) = ?n" using S(2) unfolding w .
  then have b: "Option.bind (put_bytes (header_bytes h) (replicate (unat (word_of_nat ?n :: u64)) 0, 0)) (write_root s1) = write_root s1 ?st"
    using put by simp
  show ?thesis
    unfolding persistfs_export_image_def measure_root_eq Let_def prod.case if_not_P [OF w0]
    unfolding w assms(3) prod.case unfolding t h_def [symmetric] b
    using W recs sz by (cases ok; cases "all_fit s") (auto simp del: of_nat_mult)
qed

lemma unat_widen: "unat (ucast (w :: u32) :: u64) = unat w"
proof -
  have "unat w < 2 ^ 64" using unat_less_power [of w] by simp
  then show ?thesis by (simp only: unsigned_ucast_eq) (simp add: take_bit_nat_eq_self)
qed

section \<open>Images from anywhere\<close>

lemma import_entry_safe:
  assumes "unat used \<le> length buf" "vfs_inv u"
  shows "\<exists>r cur' u'. import_entry buf used cur u = Some (r, cur', u') \<and> keeps u u'"
proof -
  have refl: "keeps u u" using assms(2) by (simp add: keeps_def)
  have get: "off + n \<le> unat used \<Longrightarrow> get_bytes buf off n = Some (take n (drop off buf))" for off n
    using assms(1) by (simp add: get_bytes_def)
  show ?thesis
  proof (cases "cur + 32 > unat used")
    case True
    then show ?thesis using refl by (simp add: import_entry_def)
  next
    case False
    let ?e = "entry_of (take 32 (drop cur buf))"
    let ?n = "unat (pe_path_len ?e)" and ?k = "unat (pe_data_size ?e)"
    have e: "get_bytes buf cur 32 = Some (take 32 (drop cur buf))" using False get by simp
    show ?thesis
    proof (cases "?n = 0 \<or> ?n \<ge> PERSISTFS_PATH_CAP \<or> cur + 32 + ?n + ?k > unat used")
      case True
      then show ?thesis using False e refl by (auto simp: import_entry_def Let_def)
    next
      case ok: False
      let ?p = "take ?n (drop (cur + 32) buf)" and ?d = "if pe_type ?e = VFS_NODE_FILE then take ?k (drop (cur + 32 + ?n) buf) else []"
      obtain r v where i: "vfs_import_node (takeWhile (\<lambda>c. c \<noteq> 0) ?p) (pe_type ?e) (pe_readonly ?e) ?d (pe_inode ?e) (pe_created ?e) (pe_modified ?e) u = (r, v)"
        by force
      have g: "get_bytes buf (cur + 32) ?n = Some ?p" "get_bytes buf (cur + 32 + ?n) ?k = Some (take ?k (drop (cur + 32 + ?n) buf))"
        using ok get by simp_all
      have "import_entry buf used cur u = Some (if r \<noteq> 0 then -1 else 0, if pe_type ?e = VFS_NODE_FILE then cur + 32 + ?n + ?k else cur + 32 + ?n, v)"
        using False ok e g i by (auto simp: import_entry_def Let_def)
      then show ?thesis using vfs_import_keeps [OF i assms(2)] by blast
    qed
  qed
qed

lemma import_loop_safe:
  "unat used \<le> length buf \<Longrightarrow> vfs_inv u \<Longrightarrow> \<exists>r u'. import_loop n buf used cur u = Some (r, u') \<and> keeps u u'"
proof (induction n arbitrary: cur u)
  case (Suc n)
  obtain r cur' v where e: "import_entry buf used cur u = Some (r, cur', v)" "keeps u v" using import_entry_safe [OF Suc.prems] by blast
  then have "vfs_inv v" by (simp add: keeps_def)
  then obtain r2 w where "import_loop n buf used cur' v = Some (r2, w)" "keeps v w" using Suc.IH [OF Suc.prems(1)] by blast
  then show ?case using e vfs_keeps_trans [of u v w] by auto
qed (simp add: keeps_def)

lemma import_image_safe:
  assumes "unat sz \<le> length buf" "vfs_inv u"
  shows "\<exists>r n u'. persistfs_import_image (Some buf) sz u = Some ((r, n), u') \<and> keeps u u'"
proof (cases "sz < 24")
  case True
  then show ?thesis using assms(2) by (simp add: persistfs_import_image_def keeps_def)
next
  case False
  then have "24 \<le> unat sz" by (simp add: word_less_nat_alt not_less)
  then have g: "get_bytes buf 0 24 = Some (take 24 buf)" using assms(1) by (simp add: get_bytes_def)
  let ?h = "header_of (take 24 buf)"
  show ?thesis
  proof (cases "ph_magic ?h \<noteq> PERSISTFS_MAGIC \<or> ph_version ?h \<noteq> PERSISTFS_VERSION \<or> ph_bytes_used ?h < 24 \<or> ucast (ph_bytes_used ?h) > sz")
    case True
    then show ?thesis using False g assms(2) by (auto simp: persistfs_import_image_def keeps_def Let_def)
  next
    case ok: False
    have "unat (ph_bytes_used ?h) = unat (ucast (ph_bytes_used ?h) :: u64)" by (simp add: unat_widen)
    then have "unat (ph_bytes_used ?h) \<le> length buf" using ok assms(1) by (simp add: word_less_nat_alt)
    from import_loop_safe [OF this assms(2)] obtain r v where "import_loop (unat (ph_entry_count ?h)) buf (ph_bytes_used ?h) 24 u = Some (r, v)" "keeps u v"
      by blast
    then show ?thesis using False ok g by (auto simp: persistfs_import_image_def Let_def)
  qed
qed

section \<open>Properties\<close>

text \<open>A tree with a directory \<^verbatim>\<open>/d\<close> and a file \<^verbatim>\<open>/d/a\<close> in it, and the tree just after \<^verbatim>\<open>vfs_init\<close>.\<close>

definition fresh_vfs :: vfs where
  "fresh_vfs = snd (vfs_init (vfs_boot (\<lambda>_. True) (\<lambda>_. 0)))"

definition demo_tree :: vfs where
  "demo_tree = snd (vfs_write 1 [47, 100, 47, 97] [104, 105] (snd (vfs_mkdir 1 [47, 100] fresh_vfs)))"

lemma fresh_facts: "vfs_reachable fresh_vfs" "buffers_ok fresh_vfs" "memory_ok fresh_vfs" "is_dir fresh_vfs 1" "dom (vfs_node fresh_vfs) = {1}" "vfs_root_node fresh_vfs = 1"
proof -
  have "fst (vfs_init (vfs_boot (\<lambda>_. True) (\<lambda>_. 0))) = 0" by code_simp
  then have i: "vfs_init (vfs_boot (\<lambda>_. True) (\<lambda>_. 0)) = (0, fresh_vfs)" by (simp add: fresh_vfs_def prod_eq_iff)
  show "vfs_reachable fresh_vfs" by (rule vfs_reachable.init [OF i])
  show "buffers_ok fresh_vfs" using vfs_init_inv [OF i] by simp
  show "memory_ok fresh_vfs" by (simp add: fresh_vfs_def memory_ok_def vfs_init_def new_node_def vfs_alloc_def vfs_boot_def Let_def)
  show "is_dir fresh_vfs 1" by code_simp
  show "dom (vfs_node fresh_vfs) = {1}" "vfs_root_node fresh_vfs = 1"
    by (simp_all add: fresh_vfs_def vfs_init_def new_node_def vfs_alloc_def vfs_boot_def Let_def)
qed

lemma demo_tree_inv: "vfs_inv demo_tree" "buffers_ok demo_tree"
proof -
  let ?m = "snd (vfs_mkdir 1 [47, 100] fresh_vfs)"
  have "vfs_reachable ?m" by (rule vfs_reachable.step [OF fresh_facts(1)]) (rule vfs_step.mkdir [OF fresh_facts(4)])
  moreover have d: "is_dir ?m 1" by code_simp
  ultimately have "vfs_reachable demo_tree" unfolding demo_tree_def by (intro vfs_reachable.step [OF _ vfs_step.write_file [OF d]]) simp_all
  then show "vfs_inv demo_tree" by (rule vfs_reachable_inv)
  note m = vfs_mkdir_spec(1) [OF prod.collapse [symmetric], of fresh_vfs 1 "[47, 100]"]
  have "only_adds fresh_vfs ?m" using m vfs_reachable_inv [OF fresh_facts(1)] fresh_facts(4) by blast
  then have "buffers_ok ?m" "vfs_inv ?m" using fresh_facts(2) by (simp_all add: only_adds_def)
  then show "buffers_ok demo_tree" unfolding demo_tree_def
    by (intro vfs_write_spec(2) [OF prod.collapse [symmetric] _ d]) simp_all
qed

lemma demo_tree_dom: "a \<in> dom (vfs_node demo_tree) \<Longrightarrow> a \<in> {1, 2, 3}" "a \<notin> {1, 2, 3} \<Longrightarrow> vfs_node_size demo_tree a = 0"
proof -
  have "vfs_brk demo_tree = 4" by code_simp
  then have "a \<in> dom (vfs_node demo_tree) \<Longrightarrow> a \<noteq> 0 \<and> a < 4" for a
    using demo_tree_inv(1) inv_node0 [OF demo_tree_inv(1)] unfolding vfs_inv_def by (metis domIff)
  then have d: "a \<in> dom (vfs_node demo_tree) \<Longrightarrow> a \<in> {1, 2, 3}" for a by fastforce
  then show "a \<in> dom (vfs_node demo_tree) \<Longrightarrow> a \<in> {1, 2, 3}" .
  show "a \<notin> {1, 2, 3} \<Longrightarrow> vfs_node_size demo_tree a = 0" using d [of a] by (auto simp: vfs_node_size_def split: option.split)
qed

lemma demo_tree_facts:
  "exportable demo_tree" "c_names demo_tree" "image_size demo_tree = 96" "\<forall>a \<in> dom (vfs_node demo_tree). length (path_text (node_path demo_tree a)) < 256"
  "alloc_answers demo_tree 0" "compatible demo_tree fresh_vfs"
proof -
  have e: "list_all (\<lambda>a. vfs_node_size demo_tree a \<le> 2) [1, 2, 3]" "list_all (\<lambda>a. 0 \<notin> set (vfs_node_name demo_tree a)) [1, 2, 3]"
    "list_all (\<lambda>a. length (path_text (node_path demo_tree a)) < 256) [1, 2, 3]" by code_simp+
  have "vfs_node_size demo_tree a \<le> 2" for a using e(1) demo_tree_dom(2) [of a] by (cases "a \<in> {1, 2, 3}") auto
  then have "unat (vfs_node_size demo_tree a) \<le> unat (2 :: u64)" for a by (simp only: word_le_nat_alt)
  then have "unat (vfs_node_size demo_tree a) < 2 ^ 32" for a by (rule le_less_trans) simp
  then show "exportable demo_tree" using demo_tree_inv(2) unfolding exportable_def by blast
  show "c_names demo_tree" "\<forall>a \<in> dom (vfs_node demo_tree). length (path_text (node_path demo_tree a)) < 256"
    using e demo_tree_dom(1) unfolding c_names_def by fastforce+
  show "image_size demo_tree = 96" "alloc_answers demo_tree 0" by code_simp+
  have p: "node_path demo_tree 2 \<noteq> []" "node_path demo_tree 3 \<noteq> []" "vfs_node_type demo_tree 1 = vfs_node_type fresh_vfs 1" by code_simp+
  have r: "node_path fresh_vfs 1 = []" using node_path_root [of fresh_vfs] fresh_facts(6) by simp
  have "vfs_node_type demo_tree a = vfs_node_type fresh_vfs 1" if "a \<in> dom (vfs_node demo_tree)" "node_path demo_tree a = node_path fresh_vfs 1" for a
  proof -
    have "a = 1 \<or> a = 2 \<or> a = 3" using demo_tree_dom(1) [OF that(1)] by simp
    then show ?thesis using p that(2) r by (elim disjE) simp_all
  qed
  then show "compatible demo_tree fresh_vfs" by (simp add: compatible_def fresh_facts(5))
qed

lemma hd_path_text: "ps \<noteq> [] \<Longrightarrow> hd (path_text ps) = slash"
  by (cases ps) (simp_all add: path_text_def)

lemma read_copy:
  assumes "vfs_inv t" "copy_of s a t c" "exportable s" "vfs_node_type s a = VFS_NODE_FILE" "a \<noteq> vfs_root_node s" "a \<in> dom (vfs_node s)" "vfs_inv s"
  shows "vfs_read t cwd (path_text (node_path s a)) = Some (file_bytes s a @ [0], vfs_node_size s a)"
proof -
  have c: "c \<in> dom (vfs_node t)" "node_path t c = node_path s a" "vfs_node_type t c = VFS_NODE_FILE"
    "vfs_node_size t c = word_of_nat (length (record_data s a))" "vfs_node_data t c = record_data s a @ [0]"
    using assms(2,4) by (simp_all add: copy_of_def holds_record_def)
  have sz: "vfs_node_size t c = vfs_node_size s a" using c(4) length_record_data [OF assms(3)] assms(4) by simp
  obtain n where n: "vfs_node s a = Some n" using assms(6) by blast
  have ne: "path_text (node_path s a) \<noteq> []" "hd (path_text (node_path s a)) = slash"
    using node_path_step [OF assms(7) n assms(5)] path_text_Nil [of "node_path s a"] hd_path_text [of "node_path s a"] by simp_all
  have w: "walk t (vfs_root_node t) (node_path s a) = c" "\<forall>p \<in> set (node_path s a). valid_name p"
    using walk_node_path [OF assms(1) c(1)] c(2) by simp_all
  have r0: "vfs_root_node t \<noteq> 0" using is_dir_dom [OF root_is_dir [OF assms(1)]] inv_node0 [OF assms(1)] by (metis domIff)
  have "vfs_resolve t cwd (path_text (node_path s a)) = c"
    using ne r0 w(1) resolve_path_text [OF w(2)] by (simp add: vfs_resolve_def start_node_def)
  moreover have "c \<noteq> 0" using c(1) inv_node0 [OF assms(1)] by (metis domIff)
  moreover have "is_file t c" using c(1,3) by (auto simp: is_file_def vfs_node_type_def)
  ultimately show ?thesis using c(5) sz assms(4) by (simp add: vfs_read_def record_data_def)
qed

text \<open>
  The tree \<open>t\<close> after the writable nodes of \<open>s\<close> were put into it: each is there at its path, a file can be read;
  the nodes of \<open>t\<close> at other places are as they were, and nothing else appeared.
\<close>

definition saved_in :: "vfs \<Rightarrow> vfs \<Rightarrow> vfs \<Rightarrow> bool" where
  "saved_in s t t' \<longleftrightarrow> vfs_inv t'
    \<and> (\<forall>a \<in> dom (vfs_node s). a \<noteq> vfs_root_node s \<and> vfs_node_readonly s a = 0 \<longrightarrow> (\<exists>c. copy_of s a t' c)
         \<and> (vfs_node_type s a = VFS_NODE_FILE \<longrightarrow> (\<forall>cwd. vfs_read t' cwd (path_text (node_path s a)) = Some (file_bytes s a @ [0], vfs_node_size s a))))
    \<and> (\<forall>b \<in> dom (vfs_node t). (\<forall>a \<in> dom (vfs_node s). vfs_node_readonly s a = 0 \<longrightarrow> node_path t b \<noteq> node_path s a) \<longrightarrow> core t' b = core t b)
    \<and> (\<forall>c \<in> dom (vfs_node t') - dom (vfs_node t). planted s t' c)"

lemma restored_saved:
  assumes "vfs_inv s" "exportable s" "all_fit s" "restored s (all_nodes s) t t'"
  shows "saved_in s t t'"
proof -
  note A = all_nodes_set(2) [OF assms(1,3)]
  have R: "vfs_inv t'" "\<forall>x \<in> set (all_nodes s). \<exists>c. copy_of s (fst x) t' c" "\<forall>c \<in> dom (vfs_node t') - dom (vfs_node t). planted s t' c"
    using assms(4) by (simp_all add: restored_def)
  have c: "\<exists>c. copy_of s a t' c" if a: "a \<in> dom (vfs_node s)" "a \<noteq> vfs_root_node s" "vfs_node_readonly s a = 0" for a using R(2) a A by force
  have r: "vfs_read t' cwd (path_text (node_path s a)) = Some (file_bytes s a @ [0], vfs_node_size s a)"
    if a: "a \<in> dom (vfs_node s)" "a \<noteq> vfs_root_node s" "vfs_node_readonly s a = 0" "vfs_node_type s a = VFS_NODE_FILE" for a cwd
    using read_copy [OF R(1) _ assms(2) a(4,2,1) assms(1)] c [OF a(1-3)] by blast
  have k: "core t' b = core t b" if b: "b \<in> dom (vfs_node t)" "\<forall>a \<in> dom (vfs_node s). vfs_node_readonly s a = 0 \<longrightarrow> node_path t b \<noteq> node_path s a" for b
  proof -
    have "\<forall>x \<in> set (all_nodes s). node_path t b \<noteq> node_path s (fst x)" using A b(2) by auto
    then show ?thesis using assms(4) b(1) unfolding restored_def by blast
  qed
  show ?thesis unfolding saved_in_def using R(1,3) c r k by blast
qed

lemma unat_sectors:
  assumes "image_size s < 2 ^ 63"
  shows "unat (word_of_nat (image_sectors s * 512) :: u64) = image_sectors s * 512" "(word_of_nat (image_sectors s * 512) :: u64) \<noteq> 0"
proof -
  show u: "unat (word_of_nat (image_sectors s * 512) :: u64) = image_sectors s * 512"
    using image_sectors_bounds(3) [of s] assms by (simp only: unsigned_of_nat) (simp add: take_bit_nat_eq_self)
  then show "(word_of_nat (image_sectors s * 512) :: u64) \<noteq> 0"
    using image_sectors_bounds(2) [of s] by (metis mult_is_0 neq0_conv unsigned_0 zero_neq_numeral)
qed

lemma export_import:
  assumes "vfs_inv s" "exportable s" "c_names s" "image_size s < 2 ^ 32" "\<forall>a \<in> dom (vfs_node s). length (path_text (node_path s a)) < 256"
    "alloc_answers s 0"
  shows "\<exists>h rest n s'. persistfs_export_image s = Some ((0, header_bytes h @ rest, n), s') \<and> length (header_bytes h @ rest) = image_sectors s * 512
    \<and> \<not> bad_header h \<and> unat (ph_bytes_used h) = image_size s
    \<and> (\<forall>t. vfs_inv t \<longrightarrow> memory_ok t \<longrightarrow> compatible s t \<longrightarrow>
          (\<exists>t'. persistfs_import_image (Some (header_bytes h @ rest)) (word_of_nat (image_sectors s * 512)) t = Some ((0, n), t') \<and> restored s (all_nodes s) t t'))"
proof -
  have fit: "all_fit s" using assms(5) all_nodes_set(1) [OF assms(1)] by blast
  note A = all_nodes_set(2) [OF assms(1) fit]
  have big: "image_size s < 2 ^ 63" using assms(4) by simp
  note S = image_sectors_bounds [of s]
  let ?q = "word_of_nat (image_sectors s * 512) :: u64" and ?z = "replicate (image_sectors s * 512 - image_size s) (0 :: u8)"
  obtain s1 where s1: "vfs_alloc ?q s = (True, s1)" using assms(6) unat_sectors(2) [OF big] by (simp add: vfs_alloc_def)
  let ?h = "\<lparr>ph_magic = PERSISTFS_MAGIC, ph_version = PERSISTFS_VERSION, ph_entry_count = word_of_nat (length (all_nodes s)),
     ph_bytes_used = ucast (word_of_nat (image_size s) :: u64), ph_reserved = 0\<rparr>"
  let ?buf = "header_bytes ?h @ image_records s @ ?z" and ?n = "ucast (word_of_nat (length (all_nodes s)) :: u32) :: u64"
  have ex: "persistfs_export_image s = Some ((0, ?buf, ?n), s1)" using export_image_spec [OF assms(2) big s1] fit by simp
  have lr: "length (image_records s) + 24 = image_size s" by (rule length_image_records [OF assms(2)])
  have lb: "length ?buf = image_sectors s * 512" using lr S(1) by simp
  have used: "unat (ph_bytes_used ?h) = image_size s"
    using assms(4) by (simp add: unsigned_ucast_eq unsigned_of_nat take_bit_nat_eq_self)
  have cnt: "unat (ph_entry_count ?h) = length (all_nodes s)"
    using entries_fit [of "all_nodes s" s] assms(4) by (simp add: image_size_def unsigned_of_nat take_bit_nat_eq_self)
  have rec: "\<forall>x \<in> set (all_nodes s). recordable s x" using assms(5) by (auto simp: A recordable_def)
  have g: "get_bytes ?buf 0 24 = Some (header_bytes ?h)" using get_bytes_mid [of 0 "[]" 24 "header_bytes ?h"] by simp
  have small: "\<not> ph_bytes_used ?h < 24" using used lr by (simp add: word_less_nat_alt)
  have guard: "\<not> ?q < 24" "\<not> (ph_magic ?h \<noteq> PERSISTFS_MAGIC \<or> ph_version ?h \<noteq> PERSISTFS_VERSION \<or> ph_bytes_used ?h < 24 \<or> ucast (ph_bytes_used ?h) > ?q)"
  proof -
    have "\<not> w < 24 \<and> \<not> ucast (ph_bytes_used ?h) > w" if "unat w = image_sectors s * 512" for w :: u64
      using that used S(1) lr by (simp add: word_less_nat_alt unat_widen)
    then have "\<not> ?q < 24 \<and> \<not> ucast (ph_bytes_used ?h) > ?q" using unat_sectors(1) [OF big] by blast
    then show "\<not> ?q < 24" "\<not> (ph_magic ?h \<noteq> PERSISTFS_MAGIC \<or> ph_version ?h \<noteq> PERSISTFS_VERSION \<or> ph_bytes_used ?h < 24 \<or> ucast (ph_bytes_used ?h) > ?q)"
      using small by simp_all
  qed
  have im: "\<exists>t'. persistfs_import_image (Some ?buf) ?q t = Some ((0, ?n), t') \<and> restored s (all_nodes s) t t'"
    if t: "vfs_inv t" "memory_ok t" "compatible s t" for t
  proof -
    obtain t' where t': "import_loop (length (all_nodes s)) ?buf (ph_bytes_used ?h) (length (header_bytes ?h)) t = Some (0, t')" "restored s (all_nodes s) t t'"
      using import_loop_restores [OF assms(1-3) rec t, of ?buf "header_bytes ?h" ?z "ph_bytes_used ?h"] lr used by (auto simp: image_records_def)
    have "persistfs_import_image (Some ?buf) ?q t = Some ((0, ?n), t')"
      unfolding persistfs_import_image_def option.case if_not_P [OF guard(1)] g Let_def header_of_bytes if_not_P [OF guard(2)] cnt
      using t'(1) by simp
    then show ?thesis using t'(2) by blast
  qed
  have "\<not> bad_header ?h" using small by (simp add: bad_header_def)
  then show ?thesis using ex lb used im by (intro exI [of _ ?h] exI [of _ "image_records s @ ?z"] exI [of _ ?n] exI [of _ s1]) blast
qed

text \<open>
  C35. The image of the file tree round trip. When memory suffices, every path is shorter than 256 bytes and
  the image smaller than 4 GiB, export answers 0, and importing the image into any tree in which no
  node contradicts the exported one (the tree after boot, with its read-only files, for instance) answers 0 with the same number
  of entries: every writable node is there at its path with its kind, inode, times and, for a file,
  its bytes; every node of the tree at another place is as it was; nothing else appears.
\<close>
theorem persistfs_roundtrip:
  assumes "vfs_inv s" "exportable s" "c_names s" "image_size s < 2 ^ 32" "\<forall>a \<in> dom (vfs_node s). length (path_text (node_path s a)) < 256"
    "alloc_answers s 0" "vfs_inv t" "memory_ok t" "compatible s t"
  shows "\<exists>buf n s' t'. persistfs_export_image s = Some ((0, buf, n), s')
    \<and> persistfs_import_image (Some buf) (word_of_nat (length buf)) t = Some ((0, n), t') \<and> vfs_inv t'
    \<and> (\<forall>a \<in> dom (vfs_node s). a \<noteq> vfs_root_node s \<and> vfs_node_readonly s a = 0 \<longrightarrow> (\<exists>c. copy_of s a t' c)
         \<and> (vfs_node_type s a = VFS_NODE_FILE \<longrightarrow> (\<forall>cwd. vfs_read t' cwd (path_text (node_path s a)) = Some (file_bytes s a @ [0], vfs_node_size s a))))
    \<and> (\<forall>b \<in> dom (vfs_node t). (\<forall>a \<in> dom (vfs_node s). vfs_node_readonly s a = 0 \<longrightarrow> node_path t b \<noteq> node_path s a) \<longrightarrow> core t' b = core t b)
    \<and> (\<forall>c \<in> dom (vfs_node t') - dom (vfs_node t). planted s t' c)"
proof -
  have "all_fit s" using assms(5) all_nodes_set(1) [OF assms(1)] by blast
  note r = restored_saved [OF assms(1,2) this, of t, unfolded saved_in_def]
  obtain h rest n s' where b: "persistfs_export_image s = Some ((0, header_bytes h @ rest, n), s')" "length (header_bytes h @ rest) = image_sectors s * 512"
    "\<forall>t. vfs_inv t \<longrightarrow> memory_ok t \<longrightarrow> compatible s t \<longrightarrow>
      (\<exists>t'. persistfs_import_image (Some (header_bytes h @ rest)) (word_of_nat (image_sectors s * 512)) t = Some ((0, n), t') \<and> restored s (all_nodes s) t t')"
    using export_import [OF assms(1-6)] by blast
  then obtain t' where "persistfs_import_image (Some (header_bytes h @ rest)) (word_of_nat (length (header_bytes h @ rest))) t = Some ((0, n), t')"
    "restored s (all_nodes s) t t'" using assms(7-9) by metis
  then show ?thesis using b(1) r [of t'] by (intro exI [of _ "header_bytes h @ rest"] exI [of _ n] exI [of _ s'] exI [of _ t'] conjI) simp_all
qed

theorem persistfs_roundtrip_witness:
  "\<exists>buf n s' t'. persistfs_export_image demo_tree = Some ((0, buf, n), s') \<and> persistfs_import_image (Some buf) (word_of_nat (length buf)) fresh_vfs = Some ((0, n), t')
    \<and> vfs_read t' 1 [47, 100, 47, 97] = Some ([104, 105, 0], 2)"
proof -
  have s: "image_size demo_tree < 2 ^ 32" by (simp add: demo_tree_facts(3))
  have f: "vfs_node_readonly demo_tree 3 = 0" "vfs_node_type demo_tree 3 = VFS_NODE_FILE" "path_text (node_path demo_tree 3) = [47, 100, 47, 97]"
    "file_bytes demo_tree 3 = [104, 105]" "vfs_node_size demo_tree 3 = 2" "3 \<noteq> vfs_root_node demo_tree" "vfs_node_name demo_tree 3 = [97]" by code_simp+
  then have "3 \<in> dom (vfs_node demo_tree)" by (auto simp: vfs_node_name_def split: option.splits)
  note d = this
  from persistfs_roundtrip [OF demo_tree_inv(1) demo_tree_facts(1,2) s demo_tree_facts(4,5) vfs_reachable_inv [OF fresh_facts(1)] fresh_facts(3) demo_tree_facts(6)]
  obtain buf n s' t' where b: "persistfs_export_image demo_tree = Some ((0, buf, n), s')"
    "persistfs_import_image (Some buf) (word_of_nat (length buf)) fresh_vfs = Some ((0, n), t')"
    and r: "\<forall>a \<in> dom (vfs_node demo_tree). a \<noteq> vfs_root_node demo_tree \<and> vfs_node_readonly demo_tree a = 0 \<longrightarrow> (\<exists>c. copy_of demo_tree a t' c)
         \<and> (vfs_node_type demo_tree a = VFS_NODE_FILE \<longrightarrow> (\<forall>cwd. vfs_read t' cwd (path_text (node_path demo_tree a)) = Some (file_bytes demo_tree a @ [0], vfs_node_size demo_tree a)))"
    by (elim exE conjE) blast
  show ?thesis using b bspec [OF r d] f by auto
qed

text \<open>
  C36. Every image, whatever bytes it holds: the reader never looks behind the \<open>size\<close> bytes of its buffer,
  always returns, and leaves the file tree a tree in which every node keeps its place. The writer
  never stores behind the buffer it measured; one path of 256 bytes or more makes the whole
  export fail with -104, so nothing at all can be saved.
\<close>
theorem persistfs_image_bounds:
  assumes "vfs_inv s" "unat sz \<le> length buf"
  shows "(\<exists>r n s'. persistfs_import_image (Some buf) sz s = Some ((r, n), s') \<and> keeps s s')
    \<and> (exportable s \<and> image_size s < 2 ^ 63 \<longrightarrow> (\<exists>rc out n s'. persistfs_export_image s = Some ((rc, out, n), s') \<and> vfs_node s' = vfs_node s
         \<and> (alloc_answers s 0 \<longrightarrow> rc = (if \<forall>a \<in> dom (vfs_node s). length (path_text (node_path s a)) < 256 then 0 else -104))))"
proof (intro conjI impI)
  show "\<exists>r n s'. persistfs_import_image (Some buf) sz s = Some ((r, n), s') \<and> keeps s s'" by (rule import_image_safe [OF assms(2,1)])
  assume e: "exportable s \<and> image_size s < 2 ^ 63"
  let ?q = "word_of_nat (image_sectors s * 512) :: u64"
  have q: "?q \<noteq> 0" by (rule unat_sectors(2) [OF e [THEN conjunct2]])
  obtain ok s1 where s1: "vfs_alloc ?q s = (ok, s1)" by force
  have ok: "ok = alloc_answers s 0" using s1 q by (simp add: vfs_alloc_def)
  show "\<exists>rc out n s'. persistfs_export_image s = Some ((rc, out, n), s') \<and> vfs_node s' = vfs_node s
         \<and> (alloc_answers s 0 \<longrightarrow> rc = (if \<forall>a \<in> dom (vfs_node s). length (path_text (node_path s a)) < 256 then 0 else -104))"
    using export_image_spec [OF _ _ s1] e ok alloc_node_same [OF s1] all_nodes_set(1) [OF assms(1)] by auto
qed

theorem persistfs_image_bounds_witness:
  "(\<exists>r n s'. persistfs_import_image (Some (replicate 24 255)) 24 demo_tree = Some ((r, n), s') \<and> keeps demo_tree s')
   \<and> (\<exists>out n s'. persistfs_export_image demo_tree = Some ((0, out, n), s'))"
proof -
  have "unat (24 :: u64) \<le> length (replicate 24 255 :: bytes)" by simp
  from persistfs_image_bounds [OF demo_tree_inv(1) this] show ?thesis using demo_tree_facts by fastforce
qed

end
