(* ===== verification/Persist_Disk.thy ===== *)
theory Persist_Disk
  imports Persist_Correct
begin

text \<open>
  The image on a block device: the second half of \<^verbatim>\<open>kernel/fs/persistfs.c\<close>, over the device list of
  \<^verbatim>\<open>kernel/drivers/storage/block.c\<close>. A device is the sectors it holds, whether its driver gave it the two functions, and
  the answers of the driver: a write that fails has stored some of its sectors, a read that fails nothing. The driver moves whole sectors of its
  own size, wherever the caller's buffer ends. Memory a read is to fill is written as zeros before.
\<close>

section \<open>Block devices\<close>

record block_dev =
  bd_name :: bytes
  bd_sector_size :: u32
  bd_sector_count :: u64
  bd_read :: bool
  bd_write :: bool
  bd_sectors :: "nat \<Rightarrow> bytes"
  bd_answers :: "nat \<Rightarrow> int"
  bd_torn :: "nat \<Rightarrow> nat"

definition next_answer :: "block_dev \<Rightarrow> block_dev" where
  "next_answer d = d\<lparr>bd_answers := \<lambda>i. bd_answers d (Suc i), bd_torn := \<lambda>i. bd_torn d (Suc i)\<rparr>"

definition dev_read :: "u64 \<Rightarrow> u32 \<Rightarrow> block_dev \<Rightarrow> (int \<times> bytes) \<times> block_dev" where
  "dev_read lba count d = ((bd_answers d 0, concat (map (\<lambda>i. bd_sectors d (unat lba + i)) [0..<unat count])), next_answer d)"

definition put_sectors :: "nat \<Rightarrow> nat \<Rightarrow> nat \<Rightarrow> bytes \<Rightarrow> (nat \<Rightarrow> bytes) \<Rightarrow> nat \<Rightarrow> bytes" where
  "put_sectors k lba n b S j = (if lba \<le> j \<and> j < lba + n then take k (drop (k * (j - lba)) b) else S j)"

text \<open>\<open>None\<close>: the driver would read behind the end of the buffer \<open>b\<close>.\<close>

definition dev_write :: "u64 \<Rightarrow> u32 \<Rightarrow> bytes \<Rightarrow> block_dev \<Rightarrow> (int \<times> block_dev) option" where
  "dev_write lba count b d =
     (let k = unat (bd_sector_size d); n = (if bd_answers d 0 = 0 then unat count else min (bd_torn d 0) (unat count))
      in if n * k > length b then None
         else Some (bd_answers d 0, next_answer (d\<lparr>bd_sectors := put_sectors k (unat lba) n b (bd_sectors d)\<rparr>)))"

text \<open>The registry; a device is named by its place in a list of all devices.\<close>

record block_table =
  block_all :: "block_dev list"
  block_devices :: "nat list"

definition BLOCK_MAX_DEVICES :: nat where "BLOCK_MAX_DEVICES = 8"

definition block_register :: "nat option \<Rightarrow> block_table \<Rightarrow> int \<times> block_table" where
  "block_register dev t =
     (case dev of
        None \<Rightarrow> (-1, t)
      | Some i \<Rightarrow>
          if i \<in> set (block_devices t) then (0, t)
          else if \<not> bd_read (block_all t ! i) \<or> length (block_devices t) \<ge> BLOCK_MAX_DEVICES then (-1, t)
          else (0, t\<lparr>block_devices := block_devices t @ [i]\<rparr>))"

definition block_count :: "block_table \<Rightarrow> nat" where
  "block_count t = length (block_devices t)"

definition block_get :: "nat \<Rightarrow> block_table \<Rightarrow> nat option" where
  "block_get index t = (if index \<ge> block_count t then None else Some (block_devices t ! index))"

definition block_find :: "bytes \<Rightarrow> block_table \<Rightarrow> nat option" where
  "block_find name t = find (\<lambda>i. str_eq (bd_name (block_all t ! i)) name) (block_devices t)"

section \<open>Ranges of sectors\<close>

definition PERSISTFS_RESERVED_SECTORS :: nat where "PERSISTFS_RESERVED_SECTORS = 32768"

definition persistfs_start_lba_for_device :: "block_dev \<Rightarrow> u32" where
  "persistfs_start_lba_for_device d =
     (if bd_sector_count d \<le> word_of_nat PERSISTFS_RESERVED_SECTORS then 0
      else ucast (bd_sector_count d - word_of_nat PERSISTFS_RESERVED_SECTORS))"

definition range_chunk :: "u64 \<Rightarrow> u64 \<Rightarrow> u64" where
  "range_chunk count done = (if count - done > 255 then 255 else count - done)"

lemma range_chunk_progress: "d < count \<Longrightarrow> unat (d + range_chunk count d) = unat d + unat (range_chunk count d) \<and> unat d < unat (d + range_chunk count d)
    \<and> unat (d + range_chunk count d) \<le> unat count \<and> unat (range_chunk count d) \<le> 255"
proof -
  assume d: "d < count"
  then have s: "unat (count - d) = unat count - unat d" by (simp add: unat_sub less_imp_le)
  have c: "unat (range_chunk count d) \<le> unat count - unat d" "0 < unat (range_chunk count d)" "unat (range_chunk count d) \<le> 255"
    using d s by (auto simp: range_chunk_def word_less_nat_alt)
  moreover have "unat d + unat (range_chunk count d) < 2 ^ 64" using c(1) d unat_less_power [of count] by (simp add: word_less_nat_alt)
  then have "unat (d + range_chunk count d) = unat d + unat (range_chunk count d)" by (simp add: unat_word_ariths)
  ultimately show ?thesis using d by (simp add: word_less_nat_alt)
qed

text \<open>\<open>None\<close>: the driver would store behind the end of the buffer.\<close>

function read_loop :: "u32 \<Rightarrow> u64 \<Rightarrow> u64 \<Rightarrow> bytes \<Rightarrow> block_dev \<Rightarrow> (int \<times> bytes \<times> block_dev) option" where
  "read_loop lba count done buf d =
     (if \<not> done < count then Some (0, buf, d)
      else let chunk = range_chunk count done;
               ((r, b), d) = dev_read (ucast (lba + ucast done)) (ucast chunk) d
      in if r \<noteq> 0 then Some (-1, buf, d)
      else case put_bytes b (buf, unat done * 512) of None \<Rightarrow> None
      | Some (buf, _) \<Rightarrow> read_loop lba count (done + chunk) buf d)"
  by pat_completeness auto
termination
  by (relation "measure (\<lambda>(lba, count, d, acc, dev). unat count - unat d)") (auto dest!: range_chunk_progress)

definition persistfs_read_range :: "u32 \<Rightarrow> u64 \<Rightarrow> bytes \<Rightarrow> block_dev \<Rightarrow> (int \<times> bytes \<times> block_dev) option" where
  "persistfs_read_range lba count buf d = (if \<not> bd_read d then Some (-1, buf, d) else read_loop lba count 0 buf d)"

function write_loop :: "u32 \<Rightarrow> u64 \<Rightarrow> u64 \<Rightarrow> bytes \<Rightarrow> block_dev \<Rightarrow> (int \<times> block_dev) option" where
  "write_loop lba count done buf d =
     (if \<not> done < count then Some (0, d)
      else let chunk = range_chunk count done
      in case dev_write (ucast (lba + ucast done)) (ucast chunk) (drop (unat done * 512) buf) d of None \<Rightarrow> None
      | Some (r, d) \<Rightarrow> if r \<noteq> 0 then Some (-1, d) else write_loop lba count (done + chunk) buf d)"
  by pat_completeness auto
termination
  by (relation "measure (\<lambda>(lba, count, d, buf, dev). unat count - unat d)") (auto dest!: range_chunk_progress)

definition persistfs_write_range :: "u32 \<Rightarrow> u64 \<Rightarrow> bytes \<Rightarrow> block_dev \<Rightarrow> (int \<times> block_dev) option" where
  "persistfs_write_range lba count buf d = (if \<not> bd_write d then Some (-1, d) else write_loop lba count 0 buf d)"

declare read_loop.simps [simp del] write_loop.simps [simp del]

section \<open>Saving and loading\<close>

record persist =
  pf_available :: bool
  pf_entries :: u64
  pf_live :: bool
  pf_device :: int
  pf_partition :: int
  pf_file_backend :: bool
  pf_swap :: int

definition persistfs_sync_to_device :: "vfs \<Rightarrow> block_dev \<Rightarrow> (int \<times> vfs \<times> block_dev) option" where
  "persistfs_sync_to_device s d =
     (if persistfs_start_lba_for_device d = 0 then Some (-106, s, d)
      else case persistfs_export_image s of None \<Rightarrow> None
      | Some ((rc, buf, n), s) \<Rightarrow>
          if rc \<noteq> 0 then Some (-103, s, d)
          else if length buf div 512 > PERSISTFS_RESERVED_SECTORS then Some (-102, s, d)
          else map_option (\<lambda>(r, d). (if r \<noteq> 0 then -105 else 0, s, d))
            (persistfs_write_range (persistfs_start_lba_for_device d) (word_of_nat (length buf div 512)) buf d))"

text \<open>\<open>bundle\<close> is \<^verbatim>\<open>system_install_write_root_bundle\<close> on the active partition, \<open>parts\<close> what \<^verbatim>\<open>partition_count()\<close> says.\<close>

definition persistfs_sync :: "(bytes \<Rightarrow> int) \<Rightarrow> nat \<Rightarrow> persist \<Rightarrow> vfs \<Rightarrow> block_table \<Rightarrow> (int \<times> vfs \<times> block_table) option" where
  "persistfs_sync bundle parts p s t =
     (if pf_file_backend p
      then if pf_partition p < 0 \<or> nat (pf_partition p) \<ge> parts then Some (0, s, t)
        else (case persistfs_export_image s of None \<Rightarrow> None
          | Some ((rc, buf, n), s) \<Rightarrow> if rc \<noteq> 0 then Some (-1, s, t) else Some (if bundle buf \<noteq> 0 then -1 else 0, s, t))
      else if pf_device p < 0 then Some (0, s, t)
      else case block_get (nat (pf_device p)) t of None \<Rightarrow> Some (0, s, t)
        | Some i \<Rightarrow> map_option (\<lambda>(r, s, d). (r, s, t\<lparr>block_all := (block_all t)[i := d]\<rparr>)) (persistfs_sync_to_device s (block_all t ! i)))"

definition persistfs_sync_device :: "nat \<Rightarrow> vfs \<Rightarrow> block_table \<Rightarrow> (int \<times> vfs \<times> block_table) option" where
  "persistfs_sync_device index s t =
     (case block_get index t of None \<Rightarrow> Some (-1, s, t)
      | Some i \<Rightarrow> if \<not> bd_write (block_all t ! i) then Some (-1, s, t)
          else map_option (\<lambda>(r, s, d). (r, s, t\<lparr>block_all := (block_all t)[i := d]\<rparr>)) (persistfs_sync_to_device s (block_all t ! i)))"

definition persist_reset :: "persist \<Rightarrow> persist" where
  "persist_reset p = p\<lparr>pf_available := False, pf_entries := 0, pf_device := -1, pf_partition := -1, pf_file_backend := False, pf_swap := -1\<rparr>"

text \<open>
  The partitions, from number \<open>i\<close>: for each whether it is a FAT32 system partition, and the bundle and the swap
  partition \<^verbatim>\<open>system_install_read_root_bundle\<close> reads from it. The result is the partition loaded from.
\<close>

primrec init_partitions :: "(bool \<times> (bytes \<times> int) option) list \<Rightarrow> int \<Rightarrow> persist \<Rightarrow> vfs \<Rightarrow> (bool \<times> persist \<times> vfs) option" where
  "init_partitions [] i p s = Some (False, p, s)"
| "init_partitions (x # xs) i p s =
     (case x of (True, Some (bundle, swap)) \<Rightarrow>
        (case persistfs_import_image (Some bundle) (word_of_nat (length bundle)) s of None \<Rightarrow> None
         | Some ((rc, n), s) \<Rightarrow>
             if rc \<noteq> 0 then init_partitions xs (i + 1) p s
             else Some (True, p\<lparr>pf_available := True, pf_entries := n, pf_partition := i, pf_device := -1, pf_file_backend := True, pf_swap := swap\<rparr>,
                    vfs_set_sync_hook True s))
      | _ \<Rightarrow> init_partitions xs (i + 1) p s)"

text \<open>The image at the end of a device; \<open>None\<close> as an answer when there is none yet.\<close>

definition load_device :: "block_dev \<Rightarrow> vfs \<Rightarrow> ((int \<times> u64) option \<times> block_dev \<times> vfs) option" where
  "load_device d s =
     (let lba = persistfs_start_lba_for_device d
      in if lba = 0 then Some (Some (-1, 0), d, s)
      else case persistfs_read_range lba 1 (replicate 512 0) d of None \<Rightarrow> None
      | Some (r, sector, d) \<Rightarrow>
          let h = header_of (take 24 sector)
          in if r \<noteq> 0 then Some (Some (-1, 0), d, s)
          else if bad_header h then Some (None, d, s)
          else let sectors = persist_align_up (ucast (ph_bytes_used h)) 512 div 512
          in if sectors = 0 \<or> sectors > word_of_nat PERSISTFS_RESERVED_SECTORS then Some (Some (-1, 0), d, s)
          else let (ok, s) = vfs_alloc (sectors * 512) s
          in if \<not> ok then Some (Some (-1, 0), d, s)
          else case persistfs_read_range lba sectors (replicate (unat (sectors * 512)) 0) d of None \<Rightarrow> None
          | Some (r, buf, d) \<Rightarrow>
              if r \<noteq> 0 then Some (Some (-1, 0), d, s)
              else map_option (\<lambda>(r, s). (Some r, d, s)) (persistfs_import_image (Some buf) (sectors * 512) s))"

definition persistfs_init :: "(bytes \<Rightarrow> int) \<Rightarrow> (bool \<times> (bytes \<times> int) option) list \<Rightarrow> persist \<Rightarrow> vfs \<Rightarrow> block_table \<Rightarrow> (int \<times> persist \<times> vfs \<times> block_table) option" where
  "persistfs_init bundle parts p s t =
     (let p = persist_reset p
      in if pf_live p then Some (-1, p, s, t)
      else case init_partitions parts 0 p s of None \<Rightarrow> None
      | Some (True, p, s) \<Rightarrow> Some (0, p, s, t)
      | Some (False, p, s) \<Rightarrow>
          case block_get 0 t of None \<Rightarrow> Some (-1, p, s, t)
          | Some i \<Rightarrow>
              let p = p\<lparr>pf_available := True, pf_device := 0\<rparr>
              in case load_device (block_all t ! i) s of None \<Rightarrow> None
              | Some (None, d, s) \<Rightarrow> map_option (\<lambda>(r, s, t). (r, p, s, t)) (persistfs_sync bundle (length parts) p (vfs_set_sync_hook True s) (t\<lparr>block_all := (block_all t)[i := d]\<rparr>))
              | Some (Some (rc, n), d, s) \<Rightarrow>
                  let t = t\<lparr>block_all := (block_all t)[i := d]\<rparr>
                  in if rc \<noteq> 0 then Some (-1, p, s, t) else Some (0, p\<lparr>pf_entries := n\<rparr>, vfs_set_sync_hook True s, t))"

definition persistfs_set_live_mode :: "bool \<Rightarrow> persist \<Rightarrow> persist" where
  "persistfs_set_live_mode enabled p =
     (let p = p\<lparr>pf_live := enabled\<rparr> in if enabled then p\<lparr>pf_available := False, pf_entries := 0, pf_device := -1\<rparr> else p)"

section \<open>Writing and reading ranges\<close>

text \<open>What no transfer changes.\<close>

definition same_dev :: "block_dev \<Rightarrow> block_dev \<Rightarrow> bool" where
  "same_dev d e \<longleftrightarrow> bd_sector_size e = bd_sector_size d \<and> bd_sector_count e = bd_sector_count d \<and> bd_read e = bd_read d \<and> bd_write e = bd_write d
    \<and> ((\<forall>i. bd_answers d i = 0) \<longrightarrow> (\<forall>i. bd_answers e i = 0))"

lemma same_dev_refl [simp]: "same_dev d d"
  by (simp add: same_dev_def)

lemma same_dev_trans: "same_dev d e \<Longrightarrow> same_dev e f \<Longrightarrow> same_dev d f"
  by (simp add: same_dev_def)

lemma same_dev_next [simp]: "same_dev d (next_answer d)" "same_dev d (next_answer (d\<lparr>bd_sectors := S\<rparr>))" "bd_sectors (next_answer d) = bd_sectors d"
  by (simp_all add: same_dev_def next_answer_def)

lemma unat_narrow: "unat (w :: u64) < 2 ^ 32 \<Longrightarrow> unat (ucast w :: u32) = unat w"
  by (simp add: unsigned_ucast_eq take_bit_nat_eq_self)

lemma lba_eq: "unat lba + unat d < 2 ^ 32 \<Longrightarrow> unat (ucast (lba + ucast (d :: u64)) :: u64) = unat (lba :: u32) + unat d"
  by (simp add: unat_widen unat_word_ariths unat_narrow)

lemma put_sectors_split:
  assumes "n \<le> m"
  shows "put_sectors k (a + n) (m - n) (drop (k * n) b) (put_sectors k a n b S) = put_sectors k a m b S"
proof
  fix j
  have "k * (j - (a + n)) + k * n = k * (j - a)" if "a + n \<le> j"
  proof -
    have "n + (j - (a + n)) = j - a" using that by simp
    then show ?thesis by (metis add_mult_distrib2 add.commute)
  qed
  then show "put_sectors k (a + n) (m - n) (drop (k * n) b) (put_sectors k a n b S) j = put_sectors k a m b S j"
    using assms by (auto simp: put_sectors_def)
qed

lemma put_sectors_none [simp]: "put_sectors k a 0 b S = S"
  by (auto simp: put_sectors_def fun_eq_iff)

lemma write_loop_spec:
  assumes "bd_sector_size d = 512" "length buf = 512 * unat count" "unat lba + unat count \<le> 2 ^ 32" "from \<le> count"
  shows "\<exists>r e. write_loop lba count from buf d = Some (r, e) \<and> same_dev d e \<and> ((\<forall>i. bd_answers d i = 0) \<longrightarrow> r = 0)
    \<and> (r = 0 \<longrightarrow> bd_sectors e = put_sectors 512 (unat lba + unat from) (unat count - unat from) (drop (512 * unat from) buf) (bd_sectors d))
    \<and> (\<forall>j. j < unat lba + unat from \<or> j \<ge> unat lba + unat count \<longrightarrow> bd_sectors e j = bd_sectors d j)"
  using assms
proof (induction lba count "from" buf d rule: write_loop.induct)
  case (1 lba count dn buf d)
  show ?case
  proof (cases "dn < count")
    case False
    then have "dn = count" using 1(5) by simp
    then show ?thesis by (auto simp: write_loop.simps)
  next
    case True
    let ?c = "range_chunk count dn"
    note P = range_chunk_progress [OF True]
    have dn: "unat dn < unat count" using True by (simp add: word_less_nat_alt)
    have lba: "unat (ucast (lba + ucast dn) :: u64) = unat lba + unat dn" using lba_eq [of lba dn] 1(4) dn by simp
    have c: "unat (ucast ?c :: u32) = unat ?c" using P by (intro unat_narrow) simp
    let ?b = "drop (unat dn * 512) buf" and ?n = "if bd_answers d 0 = 0 then unat ?c else min (bd_torn d 0) (unat ?c)"
    define e where "e = next_answer (d\<lparr>bd_sectors := put_sectors 512 (unat lba + unat dn) ?n ?b (bd_sectors d)\<rparr>)"
    have n: "?n \<le> unat ?c" by simp
    then have "?n * 512 \<le> length ?b" using P 1(3) by auto
    then have le: "\<not> ?n * unat (bd_sector_size d) > length ?b" unfolding 1(2) by simp
    have w: "dev_write (ucast (lba + ucast dn)) (ucast ?c) ?b d = Some (bd_answers d 0, e)"
      unfolding dev_write_def Let_def c if_not_P [OF le] by (simp add: lba 1(2) e_def)
    have e: "same_dev d e" "bd_sectors e = put_sectors 512 (unat lba + unat dn) ?n ?b (bd_sectors d)" unfolding e_def by (simp_all add: next_answer_def same_dev_def)
    have out: "bd_sectors e j = bd_sectors d j" if "j < unat lba + unat dn \<or> j \<ge> unat lba + unat count" for j
      using that n P by (auto simp: e(2) put_sectors_def)
    show ?thesis
    proof (cases "bd_answers d 0 = 0")
      case False
      then show ?thesis using True w e(1) out by (auto simp: write_loop.simps [of lba count dn])
    next
      case ok: True
      have dc: "dn + ?c \<le> count" using P by (simp add: word_le_nat_alt)
      have c2: "unat ?c \<le> unat count - unat dn" using P by linarith
      have sz: "bd_sector_size e = 512" using e(1) 1(2) by (simp add: same_dev_def)
      obtain r f where f: "write_loop lba count (dn + ?c) buf e = Some (r, f)" "same_dev e f" "(\<forall>i. bd_answers e i = 0) \<longrightarrow> r = 0"
        "r = 0 \<longrightarrow> bd_sectors f = put_sectors 512 (unat lba + unat (dn + ?c)) (unat count - unat (dn + ?c)) (drop (512 * unat (dn + ?c)) buf) (bd_sectors e)"
        "\<forall>j. j < unat lba + unat (dn + ?c) \<or> j \<ge> unat lba + unat count \<longrightarrow> bd_sectors f j = bd_sectors e j"
        using 1(1) [OF _ refl w refl] True ok sz 1(3,4) dc by auto
      have run: "write_loop lba count dn buf d = Some (r, f)" using True w ok f(1) by (simp add: write_loop.simps [of lba count dn])
      have "bd_sectors f = put_sectors 512 (unat lba + unat dn) (unat count - unat dn) (drop (512 * unat dn) buf) (bd_sectors d)" if "r = 0"
        using f(4) that put_sectors_split [of "unat ?c" "unat count - unat dn" 512 "unat lba + unat dn" "drop (512 * unat dn) buf" "bd_sectors d"] P ok c2
        by (simp add: e(2) ac_simps distrib_left)
      moreover have "bd_sectors f j = bd_sectors d j" if "j < unat lba + unat dn \<or> j \<ge> unat lba + unat count" for j
        using f(5) out that P by auto
      moreover have "(\<forall>i. bd_answers d i = 0) \<longrightarrow> r = 0" using f(3) e(1) by (simp add: same_dev_def)
      ultimately show ?thesis using run same_dev_trans [OF e(1) f(2)] by blast
    qed
  qed
qed

lemma read_loop_spec:
  assumes "bd_sector_size d = 512" "length buf = 512 * unat count" "unat lba + unat count \<le> 2 ^ 32" "from \<le> count"
    "\<forall>j. length (bd_sectors d j) = 512" "\<forall>i. bd_answers d i = 0"
  shows "\<exists>e. read_loop lba count from buf d
    = Some (0, take (512 * unat from) buf @ concat (map (bd_sectors d) [unat lba + unat from..<unat lba + unat count]), e) \<and> same_dev d e \<and> bd_sectors e = bd_sectors d"
  using assms
proof (induction lba count "from" buf d rule: read_loop.induct)
  case (1 lba count dn buf d)
  show ?case
  proof (cases "dn < count")
    case False
    then have "dn = count" using 1(5) by simp
    then show ?thesis using 1(3) by (auto simp: read_loop.simps)
  next
    case True
    let ?c = "range_chunk count dn"
    note P = range_chunk_progress [OF True]
    have dn: "unat dn < unat count" using True by (simp add: word_less_nat_alt)
    have lba: "unat (ucast (lba + ucast dn) :: u64) = unat lba + unat dn" using lba_eq [of lba dn] 1(4) dn by simp
    have c: "unat (ucast ?c :: u32) = unat ?c" using P by (intro unat_narrow) simp
    let ?a = "unat lba + unat dn" and ?e = "next_answer d"
    let ?b = "concat (map (\<lambda>i. bd_sectors d (?a + i)) [0..<unat ?c])"
    have lb: "length ?b = 512 * unat ?c" using 1(6) by (simp add: length_concat comp_def sum_list_triv)
    have b: "?b = concat (map (bd_sectors d) [?a..<?a + unat ?c])"
      by (simp only: map_add_upt [symmetric] map_map comp_def add.commute)
    have r: "dev_read (ucast (lba + ucast dn)) (ucast ?c) d = ((0, ?b), ?e)" using 1(7) by (simp add: dev_read_def lba c)
    let ?buf = "take (unat dn * 512) buf @ ?b @ drop (unat dn * 512 + length ?b) buf"
    have fit: "unat dn * 512 + length ?b \<le> length buf" using P 1(3) lb by auto
    then have put: "put_bytes ?b (buf, unat dn * 512) = Some (?buf, unat dn * 512 + length ?b)" by (simp add: put_bytes_def)
    have len: "length ?buf = 512 * unat count" using fit 1(3) by simp
    have le: "dn + ?c \<le> count" using P by (simp add: word_le_nat_alt)
    have e: "same_dev d ?e" "bd_sector_size ?e = 512" "\<forall>i. bd_answers ?e i = 0" "bd_sectors ?e = bd_sectors d"
      using 1(2,7) by (simp_all add: next_answer_def same_dev_def)
    obtain f where f: "read_loop lba count (dn + ?c) ?buf ?e
        = Some (0, take (512 * unat (dn + ?c)) ?buf @ concat (map (bd_sectors ?e) [unat lba + unat (dn + ?c)..<unat lba + unat count]), f)"
      "same_dev ?e f" "bd_sectors f = bd_sectors ?e"
      using 1(1) [OF _ refl refl r [symmetric] refl _ put refl, of ?e] True e(2-4) 1(4,6) len le by auto
    have t: "take (512 * unat (dn + ?c)) ?buf = take (512 * unat dn) buf @ ?b"
      using P fit lb by (simp add: distrib_left mult.commute)
    have s: "[?a..<unat lba + unat count] = [?a..<?a + unat ?c] @ [?a + unat ?c..<unat lba + unat count]"
      using P upt_add_eq_append [of ?a "?a + unat ?c" "unat count - unat dn - unat ?c"] by (simp add: add.assoc)
    have "read_loop lba count dn buf d = Some (0, take (512 * unat dn) buf @ ?b @ concat (map (bd_sectors d) [?a + unat ?c..<unat lba + unat count]), f)"
    proof -
      have "read_loop lba count dn buf d = read_loop lba count (dn + ?c) ?buf ?e"
        by (subst read_loop.simps) (simp only: True r put Let_def prod.case option.case simp_thms if_False)
      moreover have "unat lba + unat (dn + ?c) = ?a + unat ?c" using P by simp
      ultimately show ?thesis unfolding f(1) t e(4) by (simp only: append_assoc)
    qed
    then show ?thesis using same_dev_trans [OF e(1) f(2)] f(3) e(4) unfolding s map_append concat_append b by auto
  qed
qed

lemma read_back:
  assumes "length b = 512 * n"
  shows "concat (map (put_sectors 512 a n b S) [a..<a + n]) = b"
proof -
  have "map (put_sectors 512 a n b S) [a..<a + n] = map (\<lambda>i. take 512 (drop (512 * i) b)) [0..<n]"
    by (rule nth_equalityI) (simp_all add: put_sectors_def)
  moreover have "concat (map (\<lambda>i. take 512 (drop (512 * i) b)) [0..<m]) = take (512 * m) b" for m
  proof (induction m)
    case (Suc m)
    then show ?case using take_add [of "512 * m" 512 b] by (simp add: add.commute)
  qed simp
  ultimately show ?thesis using assms by simp
qed

section \<open>The image on the device\<close>

lemma start_lba:
  assumes "unat (bd_sector_count d) > 32768"
  shows "unat (persistfs_start_lba_for_device d) = (unat (bd_sector_count d) - 32768) mod 2 ^ 32"
proof -
  let ?w = "bd_sector_count d - 32768"
  have "\<not> bd_sector_count d \<le> 32768" using assms by (simp add: word_le_nat_alt)
  moreover have "unat ?w = unat (bd_sector_count d) - 32768" using assms by (simp add: unat_sub word_le_nat_alt)
  ultimately show ?thesis by (simp add: persistfs_start_lba_for_device_def PERSISTFS_RESERVED_SECTORS_def unsigned_ucast_eq take_bit_eq_mod)
qed

lemma write_range_spec:
  assumes "bd_sector_size d = 512" "length buf = 512 * unat count" "unat lba + unat count \<le> 2 ^ 32" "bd_write d"
  shows "\<exists>r e. persistfs_write_range lba count buf d = Some (r, e) \<and> same_dev d e \<and> ((\<forall>i. bd_answers d i = 0) \<longrightarrow> r = 0)
    \<and> (r = 0 \<longrightarrow> bd_sectors e = put_sectors 512 (unat lba) (unat count) buf (bd_sectors d))
    \<and> (\<forall>j. j < unat lba \<or> j \<ge> unat lba + unat count \<longrightarrow> bd_sectors e j = bd_sectors d j)"
  using write_loop_spec [OF assms(1-3), of 0] assms(4) by (simp add: persistfs_write_range_def)

lemma read_range_spec:
  assumes "bd_sector_size d = 512" "length buf = 512 * unat count" "unat lba + unat count \<le> 2 ^ 32" "bd_read d"
    "\<forall>j. length (bd_sectors d j) = 512" "\<forall>i. bd_answers d i = 0"
  shows "\<exists>e. persistfs_read_range lba count buf d = Some (0, concat (map (bd_sectors d) [unat lba..<unat lba + unat count]), e)
    \<and> same_dev d e \<and> bd_sectors e = bd_sectors d"
  using read_loop_spec [OF assms(1-3) _ assms(5,6), of 0] assms(4) by (simp add: persistfs_read_range_def)

text \<open>A device of 512-byte sectors that works.\<close>

definition sound_dev :: "block_dev \<Rightarrow> bool" where
  "sound_dev d \<longleftrightarrow> bd_sector_size d = 512 \<and> bd_read d \<and> bd_write d \<and> (\<forall>i. bd_answers d i = 0) \<and> (\<forall>j. length (bd_sectors d j) = 512)"

lemma put_sectors_length:
  assumes "length b = 512 * n" "\<forall>j. length (S j) = 512"
  shows "length (put_sectors 512 a n b S j) = 512"
proof (cases "a \<le> j \<and> j < a + n")
  case True
  then have "Suc (j - a) \<le> n" by linarith
  then have "512 * Suc (j - a) \<le> 512 * n" by (rule mult_le_mono2)
  then show ?thesis using True assms(1) by (simp add: put_sectors_def)
qed (use assms(2) in \<open>auto simp: put_sectors_def\<close>)

lemma restored_alloc:
  assumes "restored s xs t1 t'" "vfs_alloc n t = (ok, t1)" "vfs_inv t"
  shows "restored s xs t t'"
proof -
  note a = alloc_same [OF assms(2)]
  have e: "extends t t1" using a extends_same_tree by blast
  have p: "node_path t1 b = node_path t b" if "b \<in> dom (vfs_node t)" for b
    using extends_path [OF e assms(3) _ that] same_tree_inv [of t t1] a assms(3) by blast
  have "core t1 = core t" using a by (simp add: core_def fun_eq_iff)
  then show ?thesis using assms(1) a p extends_trans [OF e] unfolding restored_def by (metis (no_types, lifting))
qed

lemma restored_hook:
  assumes "restored s xs t u"
  shows "restored s xs t (vfs_set_sync_hook True u)"
proof -
  let ?u = "vfs_set_sync_hook True u"
  have inv: "vfs_inv u" using assms by (simp add: restored_def)
  have same: "same_tree u ?u" by (simp add: vfs_set_sync_hook_def same_tree_def tree_of_def fun_eq_iff)
  have i: "vfs_inv ?u" "extends u ?u" using same_tree_inv [OF same inv] extends_same_tree [OF same] by auto
  have nodes: "vfs_node ?u = vfs_node u" "core ?u = core u" by (simp_all add: vfs_set_sync_hook_def core_def fun_eq_iff)
  have p: "node_path ?u b = node_path u b" if "b \<in> dom (vfs_node u)" for b by (rule extends_path [OF i(2) inv i(1) that])
  have c: "copy_of s a u c \<Longrightarrow> copy_of s a ?u c" for a c using copy_of_kept [of s a u c ?u] nodes p by (simp add: copy_of_def)
  have q: "planted s u c \<Longrightarrow> c \<in> dom (vfs_node u) \<Longrightarrow> planted s ?u c" for c
    using p extends_type [OF i(2)] by (simp add: planted_def)
  show ?thesis using assms i(1) c q extends_trans [OF _ i(2)] unfolding restored_def nodes by blast
qed

lemma sync_spec:
  assumes "vfs_inv s" "exportable s" "c_names s" "\<forall>a \<in> dom (vfs_node s). length (path_text (node_path s a)) < 256" "alloc_answers s 0"
    "image_sectors s \<le> 32768" "sound_dev d" "L = unat (persistfs_start_lba_for_device d)" "L \<noteq> 0" "L + 32768 \<le> 2 ^ 32"
  shows "\<exists>h rest n s' e. persistfs_export_image s = Some ((0, header_bytes h @ rest, n), s') \<and> persistfs_sync_to_device s d = Some (0, s', e) \<and> sound_dev e \<and> bd_sector_count e = bd_sector_count d
    \<and> bd_sectors e = put_sectors 512 L (image_sectors s) (header_bytes h @ rest) (bd_sectors d)
    \<and> length (header_bytes h @ rest) = image_sectors s * 512 \<and> \<not> bad_header h \<and> unat (ph_bytes_used h) = image_size s
    \<and> (\<forall>t. vfs_inv t \<longrightarrow> memory_ok t \<longrightarrow> compatible s t \<longrightarrow>
          (\<exists>t'. persistfs_import_image (Some (header_bytes h @ rest)) (word_of_nat (image_sectors s * 512)) t = Some ((0, n), t') \<and> restored s (all_nodes s) t t'))"
proof -
  have "image_size s < 2 ^ 32" using assms(6) image_sectors_bounds(1) [of s] by simp
  from export_import [OF assms(1-3) this assms(4,5)] obtain h rest n s' where ex: "persistfs_export_image s = Some ((0, header_bytes h @ rest, n), s')"
    and len: "length (header_bytes h @ rest) = image_sectors s * 512" and h: "\<not> bad_header h" "unat (ph_bytes_used h) = image_size s"
    and im: "\<forall>t. vfs_inv t \<longrightarrow> memory_ok t \<longrightarrow> compatible s t \<longrightarrow>
          (\<exists>t'. persistfs_import_image (Some (header_bytes h @ rest)) (word_of_nat (image_sectors s * 512)) t = Some ((0, n), t') \<and> restored s (all_nodes s) t t')"
    by blast
  let ?b = "header_bytes h @ rest" and ?n = "word_of_nat (image_sectors s) :: u64"
  have n: "unat ?n = image_sectors s" using assms(6) by (simp add: unsigned_of_nat take_bit_nat_eq_self)
  have d: "bd_sector_size d = 512" "bd_write d" "\<forall>i. bd_answers d i = 0" using assms(7) by (simp_all add: sound_dev_def)
  obtain e where e: "persistfs_write_range (persistfs_start_lba_for_device d) ?n ?b d = Some (0, e)" "same_dev d e"
    "bd_sectors e = put_sectors 512 L (image_sectors s) ?b (bd_sectors d)"
    using write_range_spec [of d ?b ?n "persistfs_start_lba_for_device d"] d len n assms(6,8,10) by auto
  have lba: "persistfs_start_lba_for_device d \<noteq> 0" using assms(8,9) by auto
  have div: "length ?b div 512 = image_sectors s" using len by simp
  have "persistfs_sync_to_device s d = Some (0, s', e)"
    unfolding persistfs_sync_to_device_def if_not_P [OF lba] ex option.case prod.case div Let_def e(1)
    using assms(6) by (simp add: PERSISTFS_RESERVED_SECTORS_def)
  moreover have "sound_dev e" using assms(7) e(2,3) len put_sectors_length [of ?b "image_sectors s" "bd_sectors d" L] by (simp add: sound_dev_def same_dev_def)
  moreover have "bd_sector_count e = bd_sector_count d" using e(2) by (simp add: same_dev_def)
  ultimately show ?thesis using ex e(3) len h im by blast
qed

lemma load_spec:
  assumes "sound_dev e" "L = unat (persistfs_start_lba_for_device e)" "L \<noteq> 0" "L + 32768 \<le> 2 ^ 32" "N \<le> 32768" "0 < N"
    "bd_sectors e = put_sectors 512 L N (header_bytes h @ rest) S" "length (header_bytes h @ rest) = N * 512" "\<not> bad_header h"
    "(unat (ph_bytes_used h) + 511) div 512 = N" "memory_ok t" "vfs_inv t"
    "\<And>t1. vfs_alloc (word_of_nat (N * 512)) t = (True, t1) \<Longrightarrow> persistfs_import_image (Some (header_bytes h @ rest)) (word_of_nat (N * 512)) t1 = Some ((0, n), t' t1)"
  shows "\<exists>t1 e'. vfs_alloc (word_of_nat (N * 512)) t = (True, t1) \<and> memory_ok t1 \<and> load_device e t = Some (Some (0, n), e', t' t1)"
proof -
  let ?b = "header_bytes h @ rest" and ?l = "persistfs_start_lba_for_device e"
  have d: "bd_sector_size e = 512" "bd_read e" "\<forall>i. bd_answers e i = 0" "\<forall>j. length (bd_sectors e j) = 512" using assms(1) by (simp_all add: sound_dev_def)
  have l0: "?l \<noteq> 0" using assms(2,3) by auto
  have lb: "length ?b = 512 * N" using assms(8) by simp
  obtain e1 where e1: "persistfs_read_range ?l 1 (replicate 512 0) e = Some (0, bd_sectors e L, e1)" "same_dev e e1" "bd_sectors e1 = bd_sectors e"
    using read_range_spec [of e "replicate 512 0" 1 ?l] d assms(2,4) by auto
  have "512 \<le> length ?b" using lb assms(6) by simp
  then have "take 24 (take 512 ?b) = header_bytes h" by simp
  then have hd: "header_of (take 24 (bd_sectors e L)) = h" using assms(6,7) by (simp add: put_sectors_def)
  let ?u = "ucast (ph_bytes_used h) :: u64"
  let ?w = "persist_align_up ?u 512 div 512"
  have "unat ?u < 2 ^ 63" using unat_less_power [of "ph_bytes_used h"] by (simp add: unat_widen)
  then have w: "unat ?w = N" "unat (?w * 512) = N * 512" using align_sectors [of ?u] assms(10) by (simp_all add: unat_widen)
  have w512: "?w * 512 = word_of_nat (N * 512)"
  proof -
    have "word_of_nat (unat (?w * 512)) = ?w * 512" by simp
    then show ?thesis unfolding w(2) by simp
  qed
  have wok: "\<not> (?w = 0 \<or> ?w > word_of_nat PERSISTFS_RESERVED_SECTORS)"
    using w(1) assms(5,6) by (auto simp: PERSISTFS_RESERVED_SECTORS_def word_less_nat_alt)
  have "word_of_nat (N * 512) \<noteq> (0 :: u64)" using w(2) assms(6) unfolding w512 by auto
  then obtain t1 where t1: "vfs_alloc (word_of_nat (N * 512)) t = (True, t1)" "memory_ok t1" using alloc_ok [OF assms(11)] by blast
  have d1: "bd_sector_size e1 = 512" "bd_read e1" "\<forall>i. bd_answers e1 i = 0" "\<forall>j. length (bd_sectors e1 j) = 512"
    using d e1(2,3) by (simp_all add: same_dev_def)
  obtain e2 where e2: "persistfs_read_range ?l ?w (replicate (N * 512) 0) e1 = Some (0, concat (map (bd_sectors e1) [L..<L + N]), e2)"
    using read_range_spec [of e1 "replicate (N * 512) 0" ?w ?l] d1 w(1) assms(2,4,5) by auto
  have rd: "concat (map (bd_sectors e1) [L..<L + N]) = ?b" unfolding e1(3) assms(7) by (rule read_back [OF lb])
  have "load_device e t = Some (Some (0, n), e2, t' t1)"
    unfolding load_device_def Let_def if_not_P [OF l0] e1(1) option.case prod.case hd if_not_P [OF assms(9)] if_not_P [OF wok] w512
    using t1(1) w(2) e2 rd assms(13) [OF t1(1)] by (simp add: w512)
  then show ?thesis using t1 by blast
qed

lemma compatible_alloc: "vfs_alloc n t = (ok, t1) \<Longrightarrow> vfs_inv t \<Longrightarrow> compatible s t \<Longrightarrow> vfs_inv t1 \<and> compatible s t1"
proof -
  assume a: "vfs_alloc n t = (ok, t1)" and i: "vfs_inv t" and c: "compatible s t"
  note A = alloc_same [OF a]
  have i1: "vfs_inv t1" using same_tree_inv A i by blast
  have "node_path t1 b = node_path t b" if "b \<in> dom (vfs_node t)" for b
    using extends_path [OF extends_same_tree i i1 that] A by blast
  moreover have "vfs_node_type t1 = vfs_node_type t" using A by (simp add: vfs_node_type_def fun_eq_iff)
  ultimately show ?thesis using i1 c A by (simp add: compatible_def)
qed

section \<open>Properties\<close>

text \<open>A working disk of \<open>count\<close> sectors of \<open>k\<close> bytes, the only device.\<close>

definition demo_disk :: "u32 \<Rightarrow> u64 \<Rightarrow> block_dev" where
  "demo_disk k count = \<lparr>bd_name = [], bd_sector_size = k, bd_sector_count = count, bd_read = True, bd_write = True,
     bd_sectors = \<lambda>_. replicate (unat k) 0, bd_answers = \<lambda>_. 0, bd_torn = \<lambda>_. 0\<rparr>"

definition demo_table :: block_table where
  "demo_table = \<lparr>block_all = [demo_disk 512 40000], block_devices = [0]\<rparr>"

lemma demo_sound: "sound_dev (demo_disk 512 count)"
  by (simp add: sound_dev_def demo_disk_def)

text \<open>
  C37. Saving to a disk and booting from it: on a working disk of 512-byte sectors (at least 32769 and at
  most 2^32 of them) \<^verbatim>\<open>persistfs_sync_device\<close> answers 0 and touches only the last 32768 sectors; when
  \<^verbatim>\<open>persistfs_init\<close> then runs on any tree that does not contradict the saved one, and there are no partitions, it answers 0, the disk is the
  active device, and every writable node is back with its contents.
\<close>
theorem persistfs_disk_roundtrip:
  assumes "vfs_inv s" "exportable s" "c_names s" "\<forall>a \<in> dom (vfs_node s). length (path_text (node_path s a)) < 256" "alloc_answers s 0"
    "image_sectors s \<le> 32768" "block_get 0 tab = Some i" "i < length (block_all tab)" "sound_dev (block_all tab ! i)"
    "unat (bd_sector_count (block_all tab ! i)) \<in> {32769..2 ^ 32}" "vfs_inv t" "memory_ok t" "compatible s t" "\<not> pf_live p"
  shows "\<exists>s' tab1 p' t' tab2. persistfs_sync_device 0 s tab = Some (0, s', tab1)
    \<and> (\<forall>j < unat (bd_sector_count (block_all tab ! i)) - 32768. bd_sectors (block_all tab1 ! i) j = bd_sectors (block_all tab ! i) j)
    \<and> persistfs_init bundle [] p t tab1 = Some (0, p', t', tab2) \<and> pf_available p' \<and> pf_device p' = 0 \<and> vfs_hooked t' \<and> saved_in s t t'"
proof -
  let ?d = "block_all tab ! i"
  define L where "L = unat (persistfs_start_lba_for_device ?d)"
  have c: "32768 < unat (bd_sector_count ?d)" "unat (bd_sector_count ?d) \<le> 2 ^ 32" using assms(10) by auto
  then have L: "L = unat (bd_sector_count ?d) - 32768" using start_lba [of ?d] by (simp add: L_def)
  have L1: "L \<noteq> 0" "L + 32768 \<le> 2 ^ 32" using L c by auto
  obtain h rest n s' e where sync: "persistfs_sync_to_device s ?d = Some (0, s', e)"
    and e: "sound_dev e" "bd_sector_count e = bd_sector_count ?d" "bd_sectors e = put_sectors 512 L (image_sectors s) (header_bytes h @ rest) (bd_sectors ?d)"
    and h: "length (header_bytes h @ rest) = image_sectors s * 512" "\<not> bad_header h" "unat (ph_bytes_used h) = image_size s"
    and im: "\<forall>t. vfs_inv t \<longrightarrow> memory_ok t \<longrightarrow> compatible s t \<longrightarrow>
          (\<exists>t'. persistfs_import_image (Some (header_bytes h @ rest)) (word_of_nat (image_sectors s * 512)) t = Some ((0, n), t') \<and> restored s (all_nodes s) t t')"
    using sync_spec [OF assms(1-6,9) L_def L1] by blast
  let ?tab = "tab\<lparr>block_all := (block_all tab)[i := e]\<rparr>"
  have s1: "persistfs_sync_device 0 s tab = Some (0, s', ?tab)"
    using assms(7,9) sync by (simp add: persistfs_sync_device_def sound_dev_def)
  have keep: "\<forall>j < unat (bd_sector_count ?d) - 32768. bd_sectors (block_all ?tab ! i) j = bd_sectors ?d j"
    using e(3) L assms(8) by (simp add: put_sectors_def)
  have Le: "L = unat (persistfs_start_lba_for_device e)" by (simp add: L_def persistfs_start_lba_for_device_def e(2))
  have use: "(unat (ph_bytes_used h) + 511) div 512 = image_sectors s" by (simp add: h(3) image_sectors_def)
  define f where "f t1 = snd (the (persistfs_import_image (Some (header_bytes h @ rest)) (word_of_nat (image_sectors s * 512)) t1))" for t1
  have im': "persistfs_import_image (Some (header_bytes h @ rest)) (word_of_nat (image_sectors s * 512)) t1 = Some ((0, n), f t1) \<and> restored s (all_nodes s) t1 (f t1)"
    if "vfs_alloc (word_of_nat (image_sectors s * 512)) t = (True, t1)" for t1
  proof -
    have "memory_ok t1" using assms(12) that by (auto simp: vfs_alloc_def memory_ok_def split: if_splits)
    then show ?thesis using im compatible_alloc [OF that assms(11,13)] by (fastforce simp: f_def)
  qed
  obtain t1 e' where ld: "vfs_alloc (word_of_nat (image_sectors s * 512)) t = (True, t1)" "load_device e t = Some (Some (0, n), e', f t1)"
    using load_spec [OF e(1) Le L1 assms(6) image_sectors_bounds(2) e(3) h(1,2) use assms(12,11), of n f] im' by blast
  have "restored s (all_nodes s) t (f t1)" using restored_alloc [OF _ ld(1) assms(11)] im' [OF ld(1)] by blast
  then have r: "restored s (all_nodes s) t (vfs_set_sync_hook True (f t1))" by (rule restored_hook)
  have "all_fit s" using assms(4) all_nodes_set(1) [OF assms(1)] by blast
  then have saved: "saved_in s t (vfs_set_sync_hook True (f t1))" using restored_saved [OF assms(1,2) _ r] by blast
  have "block_get 0 ?tab = Some i" using assms(7) by (simp add: block_get_def block_count_def split: if_splits)
  then have "persistfs_init bundle [] p t ?tab = Some (0, (persist_reset p)\<lparr>pf_available := True, pf_device := 0, pf_entries := n\<rparr>, vfs_set_sync_hook True (f t1),
      ?tab\<lparr>block_all := (block_all ?tab)[i := e']\<rparr>)"
    using assms(8,14) ld(2) by (simp add: persistfs_init_def persist_reset_def Let_def)
  then show ?thesis using s1 keep saved by (fastforce simp: vfs_set_sync_hook_def persist_reset_def)
qed

theorem persistfs_disk_roundtrip_witness:
  "\<exists>s' tab1 p' t' tab2. persistfs_sync_device 0 demo_tree demo_table = Some (0, s', tab1)
    \<and> persistfs_init (\<lambda>_. 0) [] \<lparr>pf_available = False, pf_entries = 0, pf_live = False, pf_device = -1, pf_partition = -1, pf_file_backend = False, pf_swap = -1\<rparr>
        fresh_vfs tab1 = Some (0, p', t', tab2) \<and> saved_in demo_tree fresh_vfs t'"
proof -
  let ?p = "\<lparr>pf_available = False, pf_entries = 0, pf_live = False, pf_device = -1, pf_partition = -1, pf_file_backend = False, pf_swap = -1\<rparr>"
  have n: "image_sectors demo_tree \<le> 32768" by (simp add: image_sectors_def demo_tree_facts(3))
  have t: "block_get 0 demo_table = Some 0" "0 < length (block_all demo_table)" "sound_dev (block_all demo_table ! 0)"
    "unat (bd_sector_count (block_all demo_table ! 0)) \<in> {32769..2 ^ 32}" "\<not> pf_live ?p"
    using demo_sound [of 40000] by (simp_all add: block_get_def block_count_def demo_table_def demo_disk_def)
  from persistfs_disk_roundtrip [OF demo_tree_inv(1) demo_tree_facts(1,2,4,5) n t(1-4) vfs_reachable_inv [OF fresh_facts(1)] fresh_facts(3)
      demo_tree_facts(6) t(5), of "\<lambda>_. 0"]
  show ?thesis by blast
qed

text \<open>
  C38. Two kinds of disk the code does not expect. With 4096-byte sectors, which the NVMe driver registers,
  reading the first sector at boot stores behind the 512-byte buffer on the stack. On a disk of more than 2^32 + 32768 sectors the
  start of the reserved area is cut to 32 bits: saving answers 0 and the image lies over sectors near the start
  of the disk.
\<close>
theorem persistfs_disk_defects:
  assumes "unat (bd_sector_count d) > 32768" "L = (unat (bd_sector_count d) - 32768) mod 2 ^ 32" "L \<noteq> 0"
  shows "(bd_sector_size d = 4096 \<and> bd_read d \<and> bd_answers d 0 = 0 \<and> length (bd_sectors d L) = 4096 \<longrightarrow> load_device d t = None)
    \<and> (vfs_inv s \<and> exportable s \<and> c_names s \<and> (\<forall>a \<in> dom (vfs_node s). length (path_text (node_path s a)) < 256) \<and> alloc_answers s 0
        \<and> image_sectors s \<le> 32768 \<and> sound_dev d \<and> unat (bd_sector_count d) \<ge> 2 ^ 32 + 32768 \<and> L + 32768 \<le> 2 ^ 32
       \<longrightarrow> (\<exists>s' e buf n. persistfs_export_image s = Some ((0, buf, n), s') \<and> persistfs_sync_to_device s d = Some (0, s', e)
            \<and> L + image_sectors s \<le> unat (bd_sector_count d) - 32768 \<and> concat (map (bd_sectors e) [L..<L + image_sectors s]) = buf))"
proof (intro conjI impI)
  let ?l = "persistfs_start_lba_for_device d"
  have l: "unat ?l = L" using start_lba [OF assms(1)] assms(2) by simp
  then have l0: "?l \<noteq> 0" using assms(3) by auto
  assume a: "bd_sector_size d = 4096 \<and> bd_read d \<and> bd_answers d 0 = 0 \<and> length (bd_sectors d L) = 4096"
  have "read_loop ?l 1 0 (replicate 512 0) d = None"
    by (subst read_loop.simps) (use a l in \<open>simp add: dev_read_def range_chunk_def put_bytes_def unat_widen Let_def\<close>)
  then show "load_device d t = None" using a l0 by (simp add: load_device_def persistfs_read_range_def Let_def)
next
  assume a: "vfs_inv s \<and> exportable s \<and> c_names s \<and> (\<forall>a \<in> dom (vfs_node s). length (path_text (node_path s a)) < 256) \<and> alloc_answers s 0
        \<and> image_sectors s \<le> 32768 \<and> sound_dev d \<and> unat (bd_sector_count d) \<ge> 2 ^ 32 + 32768 \<and> L + 32768 \<le> 2 ^ 32"
  then have h: "vfs_inv s" "exportable s" "c_names s" "\<forall>a \<in> dom (vfs_node s). length (path_text (node_path s a)) < 256" "alloc_answers s 0"
    "image_sectors s \<le> 32768" "sound_dev d" "L + 32768 \<le> 2 ^ 32" by blast+
  have L: "L = unat (persistfs_start_lba_for_device d)" using start_lba [OF assms(1)] assms(2) by simp
  obtain hd rest n s' e where e: "persistfs_export_image s = Some ((0, header_bytes hd @ rest, n), s')" "persistfs_sync_to_device s d = Some (0, s', e)"
    "bd_sectors e = put_sectors 512 L (image_sectors s) (header_bytes hd @ rest) (bd_sectors d)" "length (header_bytes hd @ rest) = image_sectors s * 512"
    using sync_spec [OF h(1-7) L assms(3) h(8)] by blast
  have "concat (map (bd_sectors e) [L..<L + image_sectors s]) = header_bytes hd @ rest"
    unfolding e(3) using e(4) by (intro read_back) simp
  moreover have "L < 2 ^ 32" unfolding assms(2) by simp
  then have "L + image_sectors s \<le> unat (bd_sector_count d) - 32768" using a h(6,8) by linarith
  ultimately show "\<exists>s' e buf n. persistfs_export_image s = Some ((0, buf, n), s') \<and> persistfs_sync_to_device s d = Some (0, s', e)
      \<and> L + image_sectors s \<le> unat (bd_sector_count d) - 32768 \<and> concat (map (bd_sectors e) [L..<L + image_sectors s]) = buf"
    using e(1,2) by blast
qed

theorem persistfs_disk_defects_witness:
  "load_device (demo_disk 4096 40000) fresh_vfs = None
   \<and> (\<exists>s' e buf n. persistfs_export_image demo_tree = Some ((0, buf, n), s') \<and> persistfs_sync_to_device demo_tree (demo_disk 512 (2 ^ 32 + 40000)) = Some (0, s', e)
        \<and> concat (map (bd_sectors e) [7232..<7233]) = buf)"
proof -
  have a: "unat (bd_sector_count (demo_disk 4096 40000)) > 32768" "(7232 :: nat) = (unat (bd_sector_count (demo_disk 4096 40000)) - 32768) mod 2 ^ 32" "(7232 :: nat) \<noteq> 0"
    by (simp_all add: demo_disk_def)
  have b: "unat (bd_sector_count (demo_disk 512 (2 ^ 32 + 40000))) > 32768"
    "(7232 :: nat) = (unat (bd_sector_count (demo_disk 512 (2 ^ 32 + 40000))) - 32768) mod 2 ^ 32" "(7232 :: nat) \<noteq> 0"
    by (simp_all add: demo_disk_def)
  have n: "image_sectors demo_tree = 1" by (simp add: image_sectors_def demo_tree_facts(3))
  have "load_device (demo_disk 4096 40000) fresh_vfs = None"
    using persistfs_disk_defects [OF a, of fresh_vfs demo_tree] by (simp add: demo_disk_def)
  moreover have "\<exists>s' e buf n. persistfs_export_image demo_tree = Some ((0, buf, n), s') \<and> persistfs_sync_to_device demo_tree (demo_disk 512 (2 ^ 32 + 40000)) = Some (0, s', e)
        \<and> concat (map (bd_sectors e) [7232..<7233]) = buf"
    using persistfs_disk_defects [OF b, THEN conjunct2, of demo_tree] demo_tree_inv(1) demo_tree_facts demo_sound [of "2 ^ 32 + 40000"]
    by (auto simp: n demo_disk_def)
  ultimately show ?thesis by blast
qed

end
