(* ===== verification/User_Memory.thy ===== *)
theory User_Memory
  imports Vmm
begin

text \<open>
  Memory as a process sees it: the byte at a virtual address of its space, over the frames of
  \<^verbatim>\<open>kernel/memory/vmm.c\<close>. The frames a space maps below the end of the user half are not its page
  tables and not free; calls that map more pages leave the bytes of such frames alone.
\<close>

section \<open>Bytes of physical memory\<close>

definition phys_byte :: "vmm \<Rightarrow> u64 \<Rightarrow> u8" where
  "phys_byte s pa = ucast (drop_bit (8 * unat (pa AND 7)) (ptmem s (pa AND NOT 7)))"

definition set_phys_byte :: "u64 \<Rightarrow> u8 \<Rightarrow> vmm \<Rightarrow> vmm" where
  "set_phys_byte pa b s =
     (let c = pa AND NOT 7; k = 8 * unat (pa AND 7)
      in s\<lparr>ptmem := (ptmem s)(c := (ptmem s c AND NOT (push_bit k 0xFF)) OR push_bit k (ucast b))\<rparr>)"

lemma unat_and_7: "unat (w AND 7 :: u64) < 8"
proof -
  have "w AND 7 \<le> 7" by (rule word_and_le1)
  then show ?thesis by (simp add: word_le_nat_alt)
qed

lemma bit_phys_byte: "bit (phys_byte s pa) n \<longleftrightarrow> n < 8 \<and> bit (ptmem s (pa AND NOT 7)) (8 * unat (pa AND 7) + n)"
  unfolding phys_byte_def by (simp only: bit_ucast_iff bit_drop_bit_eq o_def) (auto dest: bit_imp_le_length)

lemma and_7_split: "(q AND NOT 7) + (q AND 7) = (q :: u64)"
proof -
  have "(q AND NOT 7) AND (q AND 7) = 0"
    by (rule bit_word_eqI) (simp only: bit_and_iff bit_not_iff, simp)
  then have "(q AND NOT 7) + (q AND 7) = (q AND NOT 7) OR (q AND 7)" by (rule disjunctive_add_eq_or)
  also have "\<dots> = q" by (simp add: bit.conj_disj_distrib [symmetric])
  finally show ?thesis .
qed

lemma bit_0xFF_u64: "bit (0xFF :: u64) n \<longleftrightarrow> n < 8"
proof -
  have "(0xFF :: u64) = mask 8" by (simp add: mask_eq_exp_minus_1)
  then show ?thesis by (simp only: bit_mask_iff) auto
qed

lemma phys_byte_set: "phys_byte (set_phys_byte pa b s) q = (if q = pa then b else phys_byte s q)"
proof (rule bit_word_eqI)
  fix n :: nat assume n: "n < LENGTH(8)"
  let ?k = "8 * unat (pa AND 7)"
  show "bit (phys_byte (set_phys_byte pa b s) q) n = bit (if q = pa then b else phys_byte s q) n"
  proof (cases "q AND NOT 7 = pa AND NOT 7")
    case False
    then have "q \<noteq> pa" by auto
    then show ?thesis using False unfolding bit_phys_byte set_phys_byte_def Let_def by (simp add: bit_phys_byte)
  next
    case True
    have new: "bit (phys_byte (set_phys_byte pa b s) q) n \<longleftrightarrow>
        bit ((ptmem s (pa AND NOT 7) AND NOT (push_bit ?k 0xFF)) OR push_bit ?k (ucast b)) (8 * unat (q AND 7) + n)"
      unfolding bit_phys_byte using n True by (simp add: set_phys_byte_def Let_def)
    have len: "8 * unat (q AND 7) + n < 64" using n unat_and_7 [of q] by simp
    show ?thesis
    proof (cases "q = pa")
      case eq: True
      have "bit (push_bit ?k (0xFF :: u64)) (?k + n)" "bit (push_bit ?k (ucast b :: u64)) (?k + n) = bit b n"
        using n len bit_0xFF_u64 [of n] unfolding eq bit_push_bit_iff bit_ucast_iff
        by (simp_all only: add_diff_cancel_left' le_add1 simp_thms) simp_all
      then show ?thesis using new by (simp only: eq bit_or_iff bit_and_iff bit_not_iff if_True) simp
    next
      case False
      then have "q AND 7 \<noteq> pa AND 7" using True and_7_split [of q] and_7_split [of pa] by metis
      then have ne: "unat (q AND 7) \<noteq> unat (pa AND 7)" by (simp add: word_unat_eq_iff)
      then consider "unat (q AND 7) < unat (pa AND 7)" | "unat (pa AND 7) + 1 \<le> unat (q AND 7)" by linarith
      then show ?thesis
      proof cases
        case 1
        then have "\<not> ?k \<le> 8 * unat (q AND 7) + n" using n by simp
        then show ?thesis using new n len False True
          by (simp add: bit_or_iff bit_and_iff bit_not_iff bit_push_bit_iff bit_phys_byte)
      next
        case 2
        then have "8 \<le> 8 * unat (q AND 7) + n - ?k" by simp
        then have "\<not> bit (0xFF :: u64) (8 * unat (q AND 7) + n - ?k)" by (simp only: bit_0xFF_u64 not_less)
        moreover have "\<not> bit b (8 * unat (q AND 7) + n - ?k)"
          using \<open>8 \<le> _\<close> bit_imp_le_length [of b "8 * unat (q AND 7) + n - ?k"] by auto
        ultimately show ?thesis using new n len False True
          by (simp only: bit_or_iff bit_and_iff bit_not_iff bit_push_bit_iff bit_phys_byte bit_ucast_iff)
            (simp add: bit_phys_byte)
      qed
    qed
  qed
qed

section \<open>References of the kernel into user memory\<close>

text \<open>
  What the processor does with an access at a 4 KiB page: the physical address, or None for a page
  fault (\<^verbatim>\<open>CR0.WP\<close> is set, so a store through a read-only entry faults in the kernel, too).
\<close>

definition user_ref :: "as_ptr \<Rightarrow> bool \<Rightarrow> u64 \<Rightarrow> vmm \<Rightarrow> u64 option" where
  "user_ref as wr va s =
     (case fst (get_pte as va False s) of
        None \<Rightarrow> None
      | Some ea \<Rightarrow> let e = ptmem s ea
          in if is_present e \<and> (wr \<longrightarrow> e AND PTE_WRITE \<noteq> 0) then Some (PTE_FRAME e OR VA_OFFSET va) else None)"

definition load_user :: "as_ptr \<Rightarrow> u64 \<Rightarrow> vmm \<Rightarrow> u8 option" where
  "load_user as va s = map_option (phys_byte s) (user_ref as False va s)"

definition store_user :: "as_ptr \<Rightarrow> u64 \<Rightarrow> u8 \<Rightarrow> vmm \<Rightarrow> vmm option" where
  "store_user as va b s = map_option (\<lambda>pa. set_phys_byte pa b s) (user_ref as True va s)"

abbreviation pte_of :: "as_ptr \<Rightarrow> vmm \<Rightarrow> u64 \<Rightarrow> u64" where
  "pte_of as s v \<equiv> leaf (ptmem s) (pml4_phys (spaces s as)) (va_path v) (VA_PT_IDX v)"

lemma get_pte_leaf:
  assumes "vmm_inv as s"
  shows "(case fst (get_pte as v False s) of
      None \<Rightarrow> pte_of as s v = 0
    | Some ea \<Rightarrow> ptmem s ea = pte_of as s v)"
proof -
  obtain r s' where eq: "get_pte as v False s = (r, s')" by force
  show ?thesis using get_pte_spec [OF assms eq] eq by (auto simp: leaf_def split: option.splits)
qed

lemma is_present_0 [simp]: "\<not> is_present 0"
  by (simp add: is_present_def)

lemma user_ref_leaf:
  assumes "vmm_inv as s"
  shows "user_ref as wr v s =
    (let e = pte_of as s v
     in if is_present e \<and> (wr \<longrightarrow> e AND PTE_WRITE \<noteq> 0) then Some (PTE_FRAME e OR VA_OFFSET v) else None)"
  using get_pte_leaf [OF assms, of v] by (auto simp: user_ref_def Let_def split: option.splits)

lemma page_writable_leaf:
  assumes "vmm_inv as s"
  shows "vmm_page_writable as v s \<longleftrightarrow>
    v < 0x0000800000000000 \<and> is_present (pte_of as s v) \<and> pte_of as s v AND PTE_WRITE \<noteq> 0"
  using get_pte_leaf [OF assms, of "v AND -4096"]
  by (auto simp: vmm_page_writable_def not_le split: option.splits)

section \<open>Frames with data\<close>

text \<open>A frame of RAM that is in use or of a device, and not a page table of the space.\<close>

definition solid :: "as_ptr \<Rightarrow> u64 \<Rightarrow> vmm \<Rightarrow> bool" where
  "solid as p s \<longleftrightarrow> p AND -4096 = p \<and> p \<notin> tables as s
     \<and> (p \<in> owned_addrs (vpmm s) \<or> total_frames (vpmm s) * 4096 \<le> unat p)"

text \<open>Steps of the memory manager that leave the bytes of such frames alone.\<close>

definition evolves :: "as_ptr \<Rightarrow> vmm \<Rightarrow> vmm \<Rightarrow> bool" where
  "evolves as s s' \<longleftrightarrow> vmm_inv as s' \<and> pml4_phys (spaces s' as) = pml4_phys (spaces s as)
     \<and> total_frames (vpmm s') = total_frames (vpmm s)
     \<and> (\<forall>p. solid as p s \<longrightarrow> solid as p s' \<and> (\<forall>a. a - p < 4096 \<longrightarrow> ptmem s' a = ptmem s a))"

lemma evolves_refl: "vmm_inv as s \<Longrightarrow> evolves as s s"
  by (simp add: evolves_def)

lemma evolves_trans: "evolves as s t \<Longrightarrow> evolves as t u \<Longrightarrow> evolves as s u"
  unfolding evolves_def by metis

lemma evolves_inv: "evolves as s t \<Longrightarrow> vmm_inv as t"
  by (simp add: evolves_def)

lemma in_frame:
  assumes "p AND -4096 = p" "a - p < (4096 :: u64)"
  shows "a AND -4096 = p"
  using page_offset [OF assms(1), of "a - p"] assms(2) by simp

lemma frames_apart:
  assumes "p AND -4096 = p" "q AND -4096 = (q :: u64)" "p \<noteq> q" "a - p < 4096"
  shows "\<not> a - q < 4096"
  using in_frame [OF assms(1,4)] in_frame [OF assms(2), of a] assms(3) by auto

lemma frame_aligned: "f < 2 ^ 40 \<Longrightarrow> FRAME_TO_ADDR f AND -4096 = FRAME_TO_ADDR f"
  by (rule bit_word_eqI) (simp only: bit_and_iff bit_page_mask, use bit_frame_addr in fastforce)

lemma owned_aligned: "vmm_inv as s \<Longrightarrow> p \<in> owned_addrs (vpmm s) \<Longrightarrow> p AND -4096 = p"
  using owned_frame [OF vmm_inv_D(1,2)] frame_aligned by metis

lemma owned_below: "vmm_inv as s \<Longrightarrow> p \<in> owned_addrs (vpmm s) \<Longrightarrow> unat p < total_frames (vpmm s) * 4096"
proof -
  assume inv: "vmm_inv as s" and p: "p \<in> owned_addrs (vpmm s)"
  then obtain f where f: "p = FRAME_TO_ADDR f" "f < total_frames (vpmm s)"
    by (auto simp: owned_addrs_def used_set_def)
  then have "f < 2 ^ 52" using vmm_inv_D(2) [OF inv] by simp
  then show ?thesis using f unat_FRAME_TO_ADDR [of f] by simp
qed

lemma entry_in_frame: "f < 2 ^ 40 \<Longrightarrow> i < 512 \<Longrightarrow> entry_addr (FRAME_TO_ADDR f) i - FRAME_TO_ADDR f < 4096"
  using entry_in_page [of f f i] by simp

lemma solid_grown:
  assumes "vmm_inv as s'" "grown as s s'" "total_frames (vpmm s') = total_frames (vpmm s)" "solid as p s"
  shows "solid as p s'"
proof -
  have "p \<notin> tables as s'"
  proof (cases "p \<in> owned_addrs (vpmm s)")
    case True
    then show ?thesis using assms(2,4) by (auto simp: grown_def solid_def)
  next
    case False
    then have "total_frames (vpmm s') * 4096 \<le> unat p" using assms(3,4) by (simp add: solid_def)
    then show ?thesis using owned_below [OF assms(1)] tables_owned [OF assms(1)] by force
  qed
  then show ?thesis using assms by (auto simp: grown_def solid_def)
qed

text \<open>A cell of a table is not in a frame with data.\<close>

lemma table_cell_apart:
  assumes inv: "vmm_inv as s" and c: "c \<in> tables as s" and i: "i < 512" and p: "solid as p s" and a: "a - p < 4096"
  shows "a \<noteq> entry_addr c i"
proof -
  have co: "c \<in> owned_addrs (vpmm s)" using tables_owned [OF inv] c by blast
  then obtain f where f: "c = FRAME_TO_ADDR f" "f < 2 ^ 40" using owned_frame [OF vmm_inv_D(1,2) [OF inv]] by blast
  have "p \<noteq> c" "p AND -4096 = p" using c p by (auto simp: solid_def)
  then have "\<not> a - c < 4096" using frames_apart [OF _ owned_aligned [OF inv co] _ a] by blast
  then show ?thesis using entry_in_frame [OF f(2) i] f(1) by auto
qed

lemma alloc_page_table_total: "alloc_page_table s = (p, s') \<Longrightarrow> total_frames (vpmm s') = total_frames (vpmm s)"
  using pmm_alloc_total [of "vpmm s"]
  by (cases "pmm_alloc (vpmm s)") (auto simp: alloc_page_table_def split: if_splits)

lemma descend_evolves:
  assumes inv: "vmm_inv as s" and p: "idx_ok p" "length p < 3" "tbl (ptmem s) (pml4_phys (spaces s as)) p = Some a"
    and i: "i < 512" and eq: "descend al (entry_addr a i) s = (b, s')"
  shows "evolves as s s'"
proof -
  note D = descend_spec [OF inv p i eq]
  have tot: "total_frames (vpmm s') = total_frames (vpmm s)"
    using eq alloc_page_table_total by (auto simp: descend_def split: if_splits prod.splits)
  have at: "a \<in> tables as s" using p by (auto simp: tables_def intro!: exI [of _ p])
  have "ptmem s' x = ptmem s x" if q: "solid as q s" and x: "x - q < 4096" for q x
  proof -
    obtain t s1 where t: "alloc_page_table s = (t, s1)" by force
    have ne: "x \<noteq> entry_addr a i" by (rule table_cell_apart [OF inv at i q x])
    from inv t show ?thesis
    proof (cases rule: alloc_page_table_cases)
      case fail
      then show ?thesis using eq t by (auto simp: descend_def split: if_splits)
    next
      case (ok g)
      have "q \<noteq> t"
      proof
        assume qt: "q = t"
        have g52: "g < 2 ^ 52" using ok(4) by simp
        have "g < total_frames (vpmm s)" using ok(6,7,8) by (auto simp: used_set_def)
        moreover have "t \<notin> owned_addrs (vpmm s)"
        proof
          assume "t \<in> owned_addrs (vpmm s)"
          then obtain f where f: "f \<in> used_set (vpmm s)" "FRAME_TO_ADDR f = FRAME_TO_ADDR g"
            using ok(1) by (auto simp: owned_addrs_def)
          moreover have "f < 2 ^ 52" using vmm_inv_D(4) [OF inv f(1)] by simp
          ultimately show False using g52 ok(3) FRAME_TO_ADDR_inj by blast
        qed
        ultimately show False using q qt ok(1) unat_FRAME_TO_ADDR [OF g52] by (simp add: solid_def)
      qed
      then have "\<not> x - t < 4096"
        using frames_apart [of q t x] q x ok(1) frame_aligned [OF ok(4)] by (auto simp: solid_def)
      then show ?thesis using eq t ne ok(2,5)
        by (auto simp: descend_def zero_table_def split: if_splits)
    qed
  qed
  then show ?thesis unfolding evolves_def
    using D(1,2) tot solid_grown [OF D(1,7) tot] by auto
qed

lemma get_pte_evolves:
  assumes inv: "vmm_inv as s" and eq: "get_pte as v al s = (r, s')"
  shows "evolves as s s'"
proof -
  let ?r = "pml4_phys (spaces s as)"
  let ?i4 = "VA_PML4_IDX v" and ?i3 = "VA_PDPT_IDX v" and ?i2 = "VA_PD_IDX v"
  define e4 where "e4 = entry_addr ?r ?i4"
  obtain b4 s4 where d4: "descend al e4 s = (b4, s4)" by force
  note D4 = descend_spec [OF inv _ _ tbl_Nil _ d4 [unfolded e4_def], simplified, folded e4_def]
  have E4: "evolves as s s4" by (rule descend_evolves [OF inv _ _ tbl_Nil _ d4 [unfolded e4_def]]) simp_all
  show ?thesis
  proof (cases b4)
    case False
    then show ?thesis using eq d4 E4 by (simp add: get_pte_def Let_def e4_def)
  next
    case True
    note I4 = D4(1)
    have sp4: "spaces s4 = spaces s" by (rule D4(2))
    have h4: "\<not> is_huge (ptmem s4 e4)" using tree_pml4_not_huge [OF I4, of ?i4] by (simp add: sp4 e4_def)
    have t4: "tbl (ptmem s4) ?r [?i4] = Some (PTE_FRAME (ptmem s4 e4))"
      using tbl_step [of "ptmem s4" ?r "[]" ?r ?i4] D4(4) True h4 by (simp add: e4_def)
    define e3 where "e3 = entry_addr (PTE_FRAME (ptmem s4 e4)) ?i3"
    obtain b3 s3 where d3: "descend al e3 s4 = (b3, s3)" by force
    note D3 = descend_spec [OF I4 _ _ _ _ d3 [unfolded e3_def], of "[?i4]", simplified sp4, OF _ _ t4,
        simplified, folded e3_def]
    have E3: "evolves as s4 s3"
      by (rule descend_evolves [OF I4 _ _ _ _ d3 [unfolded e3_def], of "[?i4]"]) (use t4 sp4 in simp_all)
    show ?thesis
    proof (cases "b3 \<and> \<not> is_huge (ptmem s3 e3)")
      case False
      then have "s' = s3"
        using eq d4 d3 \<open>b4\<close> by (auto simp: get_pte_def Let_def e4_def e3_def split: if_splits)
      then show ?thesis using evolves_trans [OF E4 E3] by simp
    next
      case b3: True
      note I3 = D3(1)
      have sp3: "spaces s3 = spaces s" using D3(2) sp4 by simp
      have t3: "tbl (ptmem s3) ?r [?i4, ?i3] = Some (PTE_FRAME (ptmem s3 e3))"
        using tbl_step [of "ptmem s3" ?r "[?i4]" "PTE_FRAME (ptmem s4 e4)" ?i3] D3(4) b3
        by (simp add: e3_def)
      define e2 where "e2 = entry_addr (PTE_FRAME (ptmem s3 e3)) ?i2"
      obtain b2 s2 where d2: "descend al e2 s3 = (b2, s2)" by force
      have E2: "evolves as s3 s2"
        by (rule descend_evolves [OF I3 _ _ _ _ d2 [unfolded e2_def], of "[?i4, ?i3]"]) (use t3 sp3 in simp_all)
      have "s' = s2"
        using eq d4 d3 d2 \<open>b4\<close> b3 by (auto simp: get_pte_def Let_def e4_def e3_def e2_def split: if_splits)
      then show ?thesis using evolves_trans [OF evolves_trans [OF E4 E3] E2] by simp
    qed
  qed
qed

text \<open>A write to a leaf entry, and what maps a page, leave the frames with data alone.\<close>

lemma leaf_write_evolves:
  fixes e :: u64
  assumes inv: "vmm_inv as s" and a: "tbl (ptmem s) (pml4_phys (spaces s as)) q = Some a"
    and q: "idx_ok q" "length q = 3" "j < 512"
    and t: "ptmem t = (ptmem s)(entry_addr a j := e)" "vpmm t = vpmm s" "pml4_phys (spaces t as) = pml4_phys (spaces s as)"
  shows "evolves as s t" "tables as t = tables as s"
proof -
  note W = leaf_write [OF inv a q, where e = e]
  have it: "vmm_inv as t" by (rule vmm_inv_cong [OF _ _ _ inv]) (use W(1) t in simp_all)
  show T: "tables as t = tables as s" unfolding tables_def using W(3) t by auto
  have at: "a \<in> tables as s" using a q by (auto simp: tables_def intro!: exI [of _ q])
  have "ptmem t x = ptmem s x" if "solid as p s" "x - p < 4096" for p x
    using table_cell_apart [OF inv at q(3) that] t(1) by simp
  then show "evolves as s t" using it t T by (simp add: evolves_def solid_def)
qed

lemma map_page_evolves:
  assumes inv: "vmm_inv as s" and eq: "vmm_map_page as v p flags s = (r, s')"
  shows "evolves as s s'"
proof -
  obtain pte s1 where g: "get_pte as (v AND -4096) True s = (pte, s1)" by force
  note G = get_pte_spec [OF inv g] and E = get_pte_evolves [OF inv g]
  have sp: "spaces s1 = spaces s" and I1: "vmm_inv as s1" using G by auto
  show ?thesis
  proof (cases pte)
    case None
    then have "s' = s1" using eq g by (simp add: vmm_map_page_def Let_def)
    then show ?thesis using E by simp
  next
    case (Some ea)
    then obtain a where a: "tbl (ptmem s1) (pml4_phys (spaces s1 as)) (va_path v) = Some a"
      "ea = entry_addr a (VA_PT_IDX v)"
      using G sp by auto
    have s': "\<exists>e. ptmem s' = (ptmem s1)(ea := e)" "vpmm s' = vpmm s1" "pml4_phys (spaces s' as) = pml4_phys (spaces s1 as)"
      using eq g Some by (auto simp: vmm_map_page_def Let_def split: if_splits)
    then obtain e where e: "ptmem s' = (ptmem s1)(ea := e)" by blast
    have "evolves as s1 s'"
      by (rule leaf_write_evolves(1) [OF I1 a(1) va_path_ok va_idx_less(4) _ s'(2,3), of v e]) (use e a(2) in simp)
    then show ?thesis using E evolves_trans by blast
  qed
qed

lemma unmap_page_evolves:
  assumes inv: "vmm_inv as s"
  shows "evolves as s (vmm_unmap_page as v False s)"
proof -
  let ?t = "vmm_unmap_page as v False s"
  obtain pte s1 where g: "get_pte as (v AND -4096) False s = (pte, s1)" by force
  have G: "s1 = s" "case pte of Some ea \<Rightarrow> \<exists>a. tbl (ptmem s) (pml4_phys (spaces s as)) (va_path v) = Some a
      \<and> ea = entry_addr a (VA_PT_IDX v) | None \<Rightarrow> True"
    using get_pte_spec [OF inv g] by (auto split: option.splits)
  show ?thesis
  proof (cases "pte = None \<or> \<not> is_present (ptmem s (the pte))")
    case True
    then have "?t = s" using g G(1) by (auto simp: vmm_unmap_page_def Let_def split: option.splits)
    then show ?thesis using evolves_refl [OF inv] by simp
  next
    case False
    then obtain ea a where a: "pte = Some ea" "tbl (ptmem s) (pml4_phys (spaces s as)) (va_path v) = Some a"
      "ea = entry_addr a (VA_PT_IDX v)" using G(2) by auto
    have "ptmem ?t = (ptmem s)(ea := 0)" "vpmm ?t = vpmm s" "pml4_phys (spaces ?t as) = pml4_phys (spaces s as)"
      using False a(1) g G(1) by (auto simp: vmm_unmap_page_def Let_def)
    then show ?thesis
      using leaf_write_evolves(1) [OF inv a(2) va_path_ok va_idx_less(4) [of v]] a(3) by simp
  qed
qed

section \<open>The frames of a process\<close>

definition USER_HALF_END :: u64 where "USER_HALF_END = 0x0000800000000000"

definition user_inv :: "as_ptr \<Rightarrow> vmm \<Rightarrow> bool" where
  "user_inv as s \<longleftrightarrow> vmm_inv as s \<and> (\<forall>v < USER_HALF_END. is_present (pte_of as s v) \<longrightarrow>
     PTE_FRAME (pte_of as s v) \<noteq> 0 \<and> solid as (PTE_FRAME (pte_of as s v)) s)"

lemma user_inv_vmm [simp]: "user_inv as s \<Longrightarrow> vmm_inv as s"
  by (simp add: user_inv_def)

lemma user_invD:
  "user_inv as s \<Longrightarrow> v < USER_HALF_END \<Longrightarrow> is_present (pte_of as s v) \<Longrightarrow>
   PTE_FRAME (pte_of as s v) \<noteq> 0 \<and> solid as (PTE_FRAME (pte_of as s v)) s"
  by (simp add: user_inv_def)

lemma va_offset_aligned: "v AND -4096 = v \<Longrightarrow> VA_OFFSET v = 0"
proof -
  assume v: "v AND -4096 = v"
  have "(v AND -4096) AND 0xFFF = 0" by (simp add: and.assoc)
  then show "VA_OFFSET v = 0" using v by (simp add: VA_OFFSET_def)
qed

lemma virt_to_phys_page:
  assumes "user_inv as s" "v AND -4096 = v" "v < USER_HALF_END"
  shows "vmm_virt_to_phys as v s = (if is_present (pte_of as s v) then PTE_FRAME (pte_of as s v) else 0)"
proof -
  have "VA_OFFSET v = 0" using va_offset_aligned [OF assms(2)] .
  then show ?thesis using virt_to_phys_leaf [of as s v] assms(1) by (simp add: Let_def)
qed
text \<open>
  What four places of the kernel do to give a process a page: a frame from the allocator, entered in
  the space, zeroed through the direct map; the frame goes back when no table could be allocated.
\<close>

definition map_new_page :: "as_ptr \<Rightarrow> u64 \<Rightarrow> u64 \<Rightarrow> vmm \<Rightarrow> bool \<times> vmm" where
  "map_new_page as va flags s =
     (let (phys, pm) = pmm_alloc (vpmm s); s1 = s\<lparr>vpmm := pm\<rparr>
      in if phys = 0 then (False, s1)
         else let (r, s2) = vmm_map_page as va phys flags s1
              in if r \<noteq> 0 then (False, s2\<lparr>vpmm := pmm_free phys (vpmm s2)\<rparr>)
                 else (True, s2\<lparr>ptmem := zero_table phys (ptmem s2)\<rparr>))"

definition page_flags :: "u64 \<Rightarrow> bool" where
  "page_flags flags \<longleftrightarrow> flags AND PTE_ADDR_MASK = 0 \<and> flags AND VMM_WC = 0"

definition new_page :: "as_ptr \<Rightarrow> u64 \<Rightarrow> u64 \<Rightarrow> vmm \<Rightarrow> vmm \<Rightarrow> bool" where
  "new_page as va flags s s' \<longleftrightarrow> (\<exists>p. p \<noteq> 0 \<and> p \<notin> owned_addrs (vpmm s) \<and> solid as p s' \<and> p AND PTE_ADDR_MASK = p
     \<and> (\<forall>a. a - p < 4096 \<longrightarrow> ptmem s' a = 0)
     \<and> (\<forall>w. same_page w va \<longrightarrow> pte_of as s' w = p OR flags OR PTE_PRESENT))"

lemma evolves_take_frame:
  assumes inv: "vmm_inv as s" and eq: "pmm_alloc (vpmm s) = (p, pm)" and p: "p \<noteq> 0"
  shows "evolves as s (s\<lparr>vpmm := pm\<rparr>)" "solid as p (s\<lparr>vpmm := pm\<rparr>)"
proof -
  note F = vmm_take_frame [OF inv eq p]
  have tot: "total_frames pm = total_frames (vpmm s)" using pmm_alloc_total [of "vpmm s"] eq by simp
  have "owned_addrs (vpmm s) \<subseteq> owned_addrs pm"
    using pmm_frames.alloc_fresh [OF vmm_inv_D(1) [OF inv] eq p] by blast
  then show "evolves as s (s\<lparr>vpmm := pm\<rparr>)" using F(1) tot by (auto simp: evolves_def solid_def)
  show "solid as p (s\<lparr>vpmm := pm\<rparr>)"
    using F owned_aligned [OF F(1)] by (simp add: solid_def)
qed

lemma alloc_fail_same: "vmm_inv as s \<Longrightarrow> pmm_alloc (vpmm s) = (0, pm) \<Longrightarrow> s\<lparr>vpmm := pm\<rparr> = s"
  using pmm_frames.alloc_fail [of "vpmm s" pm] vmm_inv_D(1) [of as s] by simp

lemma pte_of_data_write:
  assumes inv: "vmm_inv as s"
    and same: "\<And>b j. b \<in> tables as s \<Longrightarrow> j < 512 \<Longrightarrow> m (entry_addr b j) = ptmem s (entry_addr b j)"
  shows "pte_of as (s\<lparr>ptmem := m\<rparr>) w = pte_of as s w"
proof -
  let ?r = "pml4_phys (spaces s as)"
  have walk: "tbl m ?r (va_path w) = tbl (ptmem s) ?r (va_path w)"
  proof (rule tbl_cong [where n = 3])
    fix p and i b :: u64 assume p: "length p < 3" "idx_ok p" "i < 512" "tbl (ptmem s) ?r p = Some b"
    then have "b \<in> tables as s" unfolding tables_def by (auto intro!: exI [of _ p])
    then show "m (entry_addr b i) = ptmem s (entry_addr b i)" using same p(3) by blast
  qed simp_all
  show ?thesis
  proof (cases "tbl (ptmem s) ?r (va_path w)")
    case (Some b)
    then have "b \<in> tables as s" unfolding tables_def by (auto intro!: exI [of _ "va_path w"])
    then show ?thesis using walk Some same by (simp add: leaf_def)
  qed (use walk in \<open>simp add: leaf_def\<close>)
qed

text \<open>Writes to one frame with data.\<close>

lemma solid_write:
  assumes inv: "vmm_inv as s" and p: "solid as p s"
    and same: "\<And>a. \<not> a - p < 4096 \<Longrightarrow> m a = ptmem s a"
  shows "vmm_inv as (s\<lparr>ptmem := m\<rparr>)" "tables as (s\<lparr>ptmem := m\<rparr>) = tables as s"
    "pte_of as (s\<lparr>ptmem := m\<rparr>) w = pte_of as s w" "solid as q (s\<lparr>ptmem := m\<rparr>) = solid as q s"
proof -
  have cell: "m (entry_addr b j) = ptmem s (entry_addr b j)" if b: "b \<in> tables as s" "j < 512" for b j
    using table_cell_apart [OF inv b p] same by blast
  show "vmm_inv as (s\<lparr>ptmem := m\<rparr>)" and T: "tables as (s\<lparr>ptmem := m\<rparr>) = tables as s"
    using vmm_data_write [OF inv cell] by auto
  show "pte_of as (s\<lparr>ptmem := m\<rparr>) w = pte_of as s w" by (rule pte_of_data_write [OF inv cell])
  show "solid as q (s\<lparr>ptmem := m\<rparr>) = solid as q s" using T by (simp add: solid_def)
qed

lemma user_inv_write:
  "user_inv as s \<Longrightarrow> solid as p s \<Longrightarrow> (\<And>a. \<not> a - p < 4096 \<Longrightarrow> m a = ptmem s a) \<Longrightarrow> user_inv as (s\<lparr>ptmem := m\<rparr>)"
  using solid_write [of as s p m] unfolding user_inv_def by simp

lemma evolves_user_inv:
  assumes "user_inv as s" "evolves as s s'"
    "\<And>v. v < USER_HALF_END \<Longrightarrow> is_present (pte_of as s' v) \<Longrightarrow> pte_of as s' v = pte_of as s v
       \<or> (PTE_FRAME (pte_of as s' v) \<noteq> 0 \<and> solid as (PTE_FRAME (pte_of as s' v)) s')"
  shows "user_inv as s'"
  using assms unfolding user_inv_def evolves_def by metis

lemma map_new_page_spec:
  assumes inv: "user_inv as s" and flags: "page_flags flags" and eq: "map_new_page as va flags s = (ok, s')"
  shows "user_inv as s' \<and> evolves as s s' \<and> (ok \<longrightarrow> new_page as va flags s s')
    \<and> (\<forall>w. \<not> (ok \<and> same_page w va) \<longrightarrow> pte_of as s' w = pte_of as s w)"
proof -
  have I: "vmm_inv as s" using inv by simp
  obtain p pm where al: "pmm_alloc (vpmm s) = (p, pm)" by force
  show ?thesis
  proof (cases "p = 0")
    case True
    then have "ok = False" "s' = s" using eq al alloc_fail_same [OF I] by (auto simp: map_new_page_def)
    then show ?thesis using inv evolves_refl [OF I] by simp
  next
    case False
    note F = vmm_take_frame [OF I al False] and E1 = evolves_take_frame [OF I al False]
    define s1 where "s1 = s\<lparr>vpmm := pm\<rparr>"
    obtain r s2 where m: "vmm_map_page as va p flags s1 = (r, s2)" by force
    have I1: "vmm_inv as s1" using F(1) by (simp add: s1_def)
    note M = vmm_map_page_steps [OF I1 m] and E2 = map_page_evolves [OF I1 m]
    have I2: "vmm_inv as s2" using M by blast
    have p2: "solid as p s2" using E1(2) E2 by (auto simp: s1_def evolves_def)
    have pte2: "pte_of as s2 w = (if r = 0 \<and> same_page w va
        then ((p AND -4096) AND PTE_ADDR_MASK) OR pte_flags flags OR PTE_PRESENT else pte_of as s w)" for w
      using M by (simp add: s1_def same_page_def)
    have E12: "evolves as s s2" using E1(1) E2 evolves_trans by (simp add: s1_def)
    show ?thesis
    proof (cases "r = 0")
      case False
      let ?t = "s2\<lparr>vpmm := pmm_free p (vpmm s2)\<rparr>"
      have s': "ok = False" "s' = ?t" using eq al m False \<open>p \<noteq> 0\<close> by (auto simp: map_new_page_def s1_def)
      have po: "p \<in> owned_addrs (vpmm s2)" using F(2) M by (auto simp: grown_def s1_def)
      have It: "vmm_inv as ?t" by (rule vmm_give_frame [OF I2 po \<open>p \<noteq> 0\<close>]) (use p2 in \<open>simp add: solid_def\<close>)
      have own: "owned_addrs (pmm_free p (vpmm s2)) = owned_addrs (vpmm s2) - {p}"
        by (rule pmm_free_owned [OF vmm_inv_D(1) [OF I2] po \<open>p \<noteq> 0\<close>])
      have tot: "total_frames (pmm_free p (vpmm s2)) = total_frames (vpmm s2)" by simp
      have pb: "unat p < total_frames (vpmm s) * 4096"
        using owned_below [OF I2 po] E12 by (simp add: evolves_def)
      have "solid as q ?t" if q: "solid as q s" for q
      proof -
        have "q \<noteq> p" using q F(3) pb by (auto simp: solid_def)
        then show ?thesis using E12 q own tot by (auto simp: evolves_def solid_def)
      qed
      then have E: "evolves as s ?t" using E12 It tot by (auto simp: evolves_def)
      have "pte_of as ?t w = pte_of as s w" for w using pte2 False by simp
      then show ?thesis using s' E evolves_user_inv [OF inv E] by simp
    next
      case True
      let ?t = "s2\<lparr>ptmem := zero_table p (ptmem s2)\<rparr>"
      have s': "ok" "s' = ?t" using eq al m True \<open>p \<noteq> 0\<close> by (auto simp: map_new_page_def s1_def)
      have same: "zero_table p (ptmem s2) a = ptmem s2 a" if "\<not> a - p < 4096" for a
        using that by (simp add: zero_table_def)
      note W = solid_write [OF I2 p2 same]
      have "p \<noteq> q" if "solid as q s" for q
        using that F(3) owned_below [OF I1, of p] F(2) E1(1) by (auto simp: solid_def s1_def evolves_def)
      then have "zero_table p (ptmem s2) a = ptmem s2 a" if "solid as q s" "a - q < 4096" for q a
        using that frames_apart [of q p a] p2 by (auto simp: solid_def intro!: same)
      then have E: "evolves as s ?t" using E12 W by (auto simp: evolves_def)
      have fl: "pte_flags flags = flags" "flags AND PTE_ADDR_MASK = 0"
        using flags by (simp_all add: page_flags_def pte_flags_def)
      have pe: "p AND -4096 = p" "p AND PTE_ADDR_MASK = p" using p2 F(5) by (simp_all add: solid_def)
      have pte: "pte_of as ?t w = (if same_page w va then p OR flags OR PTE_PRESENT else pte_of as s w)" for w
        using W(3) [of w] pte2 [of w] True fl pe by simp
      have fr: "PTE_FRAME (p OR flags OR PTE_PRESENT) = p" using new_pte(2) [OF fl(2), of p] pe by simp
      have st: "solid as p ?t" using W(4) p2 by simp
      have "user_inv as ?t"
      proof (rule evolves_user_inv [OF inv E])
        fix v assume "v < USER_HALF_END" "is_present (pte_of as ?t v)"
        then show "pte_of as ?t v = pte_of as s v \<or> PTE_FRAME (pte_of as ?t v) \<noteq> 0 \<and> solid as (PTE_FRAME (pte_of as ?t v)) ?t"
          using pte [of v] fr st \<open>p \<noteq> 0\<close> by (cases "same_page v va") simp_all
      qed
      moreover have "new_page as va flags s ?t"
        unfolding new_page_def
        by (rule exI [of _ p]) (use \<open>p \<noteq> 0\<close> F(3) st pe pte in \<open>simp add: zero_table_def\<close>)
      ultimately show ?thesis using s' E pte by simp
    qed
  qed
qed

end
