(* ===== verification/Uaccess.thy ===== *)
theory Uaccess
  imports User_Memory
begin

text \<open>
  The gate for user pointers, \<^verbatim>\<open>kernel/syscall/uaccess.h\<close>. The calling process is a parameter: the
  space of a user process, or None for a caller the code trusts (no process, not a user process, no
  space), whose pointers go to kernel memory. A page fault in the kernel, an access outside a kernel
  buffer and a loop that does not end are \<open>None\<close>.
\<close>

section \<open>Operations\<close>

definition USER_STACK_TOP :: u64 where "USER_STACK_TOP = 0x00007FFFFFFFE000"
definition USER_STACK_LIMIT :: u64 where "USER_STACK_LIMIT = 0x00007FFFFFF00000"
definition UACCESS_MAX_LEN :: u64 where "UACCESS_MAX_LEN = 0x40000000"
definition UACCESS_MAX_STR :: u64 where "UACCESS_MAX_STR = 0x100000"

lemmas user_const_defs = USER_HALF_END_def USER_STACK_TOP_def USER_STACK_LIMIT_def UACCESS_MAX_LEN_def UACCESS_MAX_STR_def

definition user_page_ready :: "as_ptr option \<Rightarrow> u64 \<Rightarrow> bool \<Rightarrow> vmm \<Rightarrow> bool \<times> vmm" where
  "user_page_ready aso page_va0 for_write s =
     (let page_va = page_va0 AND NOT 0xFFF
      in case aso of None \<Rightarrow> (False, s) | Some as \<Rightarrow>
        if vmm_virt_to_phys as page_va s \<noteq> 0
        then (if \<not> for_write then (True, s) else (vmm_page_writable as page_va s, s))
        else if page_va < USER_STACK_LIMIT \<or> page_va \<ge> USER_STACK_TOP then (False, s)
        else map_new_page as page_va VMM_FLAGS_USER_RW s)"

partial_function (option) user_range_loop :: "as_ptr \<Rightarrow> u64 \<Rightarrow> u64 \<Rightarrow> bool \<Rightarrow> vmm \<Rightarrow> (bool \<times> vmm) option" where
  "user_range_loop as page last_page for_write s =
     (let (ok, s') = user_page_ready (Some as) page for_write s
      in if \<not> ok then Some (False, s')
         else if page = last_page then Some (True, s')
         else user_range_loop as (page + 4096) last_page for_write s')"

declare user_range_loop.simps [code]

definition user_range_prepare :: "as_ptr option \<Rightarrow> u64 \<Rightarrow> u64 \<Rightarrow> bool \<Rightarrow> vmm \<Rightarrow> (bool \<times> vmm) option" where
  "user_range_prepare aso addr len for_write s =
     (if len = 0 then Some (True, s)
      else case aso of None \<Rightarrow> Some (False, s) | Some as \<Rightarrow>
        if len > UACCESS_MAX_LEN then Some (False, s)
        else let end' = addr + len
             in if end' < addr then Some (False, s)
                else if end' > USER_HALF_END then Some (False, s)
                else user_range_loop as (addr AND NOT 0xFFF) ((end' - 1) AND NOT 0xFFF) for_write s)"

definition user_range_prepare_cur_r :: "as_ptr option \<Rightarrow> u64 \<Rightarrow> u64 \<Rightarrow> vmm \<Rightarrow> (bool \<times> vmm) option" where
  "user_range_prepare_cur_r cur uaddr len s =
     (case cur of None \<Rightarrow> Some (True, s) | Some as \<Rightarrow> user_range_prepare (Some as) uaddr len False s)"

definition user_range_prepare_cur_w :: "as_ptr option \<Rightarrow> u64 \<Rightarrow> u64 \<Rightarrow> vmm \<Rightarrow> (bool \<times> vmm) option" where
  "user_range_prepare_cur_w cur uaddr len s =
     (case cur of None \<Rightarrow> Some (True, s) | Some as \<Rightarrow> user_range_prepare (Some as) uaddr len True s)"

definition user_range_prepare_cur :: "as_ptr option \<Rightarrow> u64 \<Rightarrow> u64 \<Rightarrow> vmm \<Rightarrow> (bool \<times> vmm) option" where
  "user_range_prepare_cur = user_range_prepare_cur_r"

text \<open>The copy loops, byte by byte, through the entries of the space.\<close>

fun store_bytes :: "as_ptr \<Rightarrow> u64 \<Rightarrow> bytes \<Rightarrow> vmm \<Rightarrow> vmm option" where
  "store_bytes as d [] s = Some s"
| "store_bytes as d (b # bs) s = (case store_user as d b s of None \<Rightarrow> None | Some s' \<Rightarrow> store_bytes as (d + 1) bs s')"

fun load_bytes :: "as_ptr \<Rightarrow> u64 \<Rightarrow> nat \<Rightarrow> vmm \<Rightarrow> bytes option" where
  "load_bytes as p 0 s = Some []"
| "load_bytes as p (Suc n) s =
     (case load_user as p s of None \<Rightarrow> None | Some b \<Rightarrow> map_option ((#) b) (load_bytes as (p + 1) n s))"

fun kmem_store :: "u64 \<Rightarrow> bytes \<Rightarrow> (u64 \<Rightarrow> u8) \<Rightarrow> (u64 \<Rightarrow> u8)" where
  "kmem_store d [] m = m"
| "kmem_store d (b # bs) m = kmem_store (d + 1) bs (m(d := b))"

record umachine =
  u_vmm :: vmm
  u_kmem :: "u64 \<Rightarrow> u8"

text \<open>\<open>ksrc\<close> is the buffer \<^verbatim>\<open>ksrc\<close> points to, None when the pointer is NULL.\<close>

definition copy_to_user :: "as_ptr option \<Rightarrow> u64 \<Rightarrow> bytes option \<Rightarrow> u64 \<Rightarrow> umachine \<Rightarrow> (int \<times> umachine) option" where
  "copy_to_user cur udst ksrc len m =
     (if len = 0 then Some (0, m)
      else case ksrc of None \<Rightarrow> Some (-1, m) | Some src \<Rightarrow>
        if udst = 0 then Some (-1, m)
        else if length src < unat len then None
        else case cur of
          None \<Rightarrow> Some (0, m\<lparr>u_kmem := kmem_store udst (take (unat len) src) (u_kmem m)\<rparr>)
        | Some as \<Rightarrow>
            (case user_range_prepare (Some as) udst len True (u_vmm m) of
               None \<Rightarrow> None
             | Some (ok, s) \<Rightarrow>
                 if \<not> ok then Some (-1, m\<lparr>u_vmm := s\<rparr>)
                 else map_option (\<lambda>s'. (0, m\<lparr>u_vmm := s'\<rparr>)) (store_bytes as udst (take (unat len) src) s)))"

text \<open>The bytes that arrive in \<^verbatim>\<open>kdst\<close> are part of the result; \<open>kdst_ok\<close> says that it is not NULL.\<close>

definition copy_from_user :: "as_ptr option \<Rightarrow> bool \<Rightarrow> u64 \<Rightarrow> u64 \<Rightarrow> umachine \<Rightarrow> (int \<times> bytes \<times> umachine) option" where
  "copy_from_user cur kdst_ok usrc len m =
     (if len = 0 then Some (0, [], m)
      else if \<not> kdst_ok \<or> usrc = 0 then Some (-1, [], m)
      else case cur of
        None \<Rightarrow> Some (0, map (\<lambda>i. u_kmem m (usrc + of_nat i)) [0..<unat len], m)
      | Some as \<Rightarrow>
          (case user_range_prepare (Some as) usrc len False (u_vmm m) of
             None \<Rightarrow> None
           | Some (ok, s) \<Rightarrow>
               if \<not> ok then Some (-1, [], m\<lparr>u_vmm := s\<rparr>)
               else map_option (\<lambda>bs. (0, bs, m\<lparr>u_vmm := s\<rparr>)) (load_bytes as usrc (unat len) s)))"

partial_function (option) kstrnlen :: "(u64 \<Rightarrow> u8) \<Rightarrow> u64 \<Rightarrow> u64 \<Rightarrow> u64 \<Rightarrow> u64 option" where
  "kstrnlen m usrc n mx =
     (if n < mx \<and> m (usrc + n) \<noteq> 0 then kstrnlen m usrc (n + 1) mx
      else Some (if n < mx then n else -1))"

partial_function (option) scan_page :: "as_ptr \<Rightarrow> u64 \<Rightarrow> u64 \<Rightarrow> u64 \<Rightarrow> u64 \<Rightarrow> vmm \<Rightarrow> (bool \<times> u64) option" where
  "scan_page as addr n mx page_end s =
     (if n < mx \<and> addr + n < page_end
      then (case load_user as (addr + n) s of
              None \<Rightarrow> None
            | Some b \<Rightarrow> if b = 0 then Some (True, n) else scan_page as addr (n + 1) mx page_end s)
      else Some (False, n))"

partial_function (option) strnlen_loop :: "as_ptr \<Rightarrow> u64 \<Rightarrow> u64 \<Rightarrow> u64 \<Rightarrow> vmm \<Rightarrow> (u64 \<times> vmm) option" where
  "strnlen_loop as addr n mx s =
     (if n < mx
      then let page = (addr + n) AND NOT 0xFFF; (ok, s') = user_page_ready (Some as) page False s
           in if \<not> ok then Some (-1, s')
              else (case scan_page as addr n mx (page + 4096) s' of
                      None \<Rightarrow> None
                    | Some (found, n') \<Rightarrow> if found then Some (n', s') else strnlen_loop as addr n' mx s')
      else Some (-1, s))"

declare kstrnlen.simps [code] scan_page.simps [code] strnlen_loop.simps [code]

definition strnlen_user :: "as_ptr option \<Rightarrow> u64 \<Rightarrow> u64 \<Rightarrow> umachine \<Rightarrow> (u64 \<times> umachine) option" where
  "strnlen_user cur usrc max0 m =
     (if usrc = 0 then Some (-1, m)
      else let mx = (if max0 > UACCESS_MAX_STR then UACCESS_MAX_STR else max0)
           in case cur of
                None \<Rightarrow> map_option (\<lambda>n. (n, m)) (kstrnlen (u_kmem m) usrc 0 mx)
              | Some as \<Rightarrow>
                  if usrc \<ge> USER_HALF_END then Some (-1, m)
                  else let mx' = (if mx > USER_HALF_END - usrc then USER_HALF_END - usrc else mx)
                       in map_option (\<lambda>(n, s). (n, m\<lparr>u_vmm := s\<rparr>)) (strnlen_loop as usrc 0 mx' (u_vmm m)))"

section \<open>One page\<close>

text \<open>
  What a step of the gate may do to a space: fault in pages of the stack, filled with zeros. Every
  other entry and every byte that could be read before stays.
\<close>

definition gate_step :: "as_ptr \<Rightarrow> vmm \<Rightarrow> vmm \<Rightarrow> bool" where
  "gate_step as s s' \<longleftrightarrow> user_inv as s' \<and> evolves as s s'
     \<and> (\<forall>w < USER_HALF_END. is_present (pte_of as s w) \<longrightarrow> pte_of as s' w = pte_of as s w)
     \<and> (\<forall>w < USER_HALF_END. is_present (pte_of as s' w) \<and> \<not> is_present (pte_of as s w) \<longrightarrow>
          USER_STACK_LIMIT \<le> w \<and> w < USER_STACK_TOP \<and> load_user as w s' = Some 0)"

lemma load_user_leaf:
  assumes "vmm_inv as s"
  shows "load_user as w s = (if is_present (pte_of as s w) then Some (phys_byte s (PTE_FRAME (pte_of as s w) OR VA_OFFSET w)) else None)"
  using user_ref_leaf [OF assms] by (simp add: load_user_def Let_def)

lemma frame_of_aligned: "PTE_FRAME e AND -4096 = PTE_FRAME e"
  unfolding PTE_FRAME_def
  by (rule bit_word_eqI) (simp only: bit_and_iff bit_page_mask bit_addr_mask, auto)

lemma cell_in_frame:
  assumes "p AND -4096 = p"
  shows "((p OR VA_OFFSET w) AND NOT 7) - p < 4096"
proof -
  have p: "12 \<le> n" if "bit p n" for n using that assms by (metis bit_and_iff bit_page_mask)
  have off: "VA_OFFSET w < 0x1000" unfolding VA_OFFSET_def using word_and_le1 [of w "0xFFF"]
    by (rule order_le_less_trans) simp
  have le: "VA_OFFSET w AND NOT 7 \<le> VA_OFFSET w" by (rule word_and_le2)
  have p7: "p AND NOT 7 = p"
  proof (rule bit_word_eqI)
    fix n :: nat
    have "(7 :: u64) = mask 3" by (simp add: mask_eq_exp_minus_1)
    then have "bit (7 :: u64) n \<longleftrightarrow> n < 3" by (simp only: bit_mask_iff) auto
    moreover assume "n < LENGTH(64)"
    ultimately show "bit (p AND NOT 7) n = bit p n" using p [of n] by (simp only: bit_and_iff bit_not_iff possible_bit_word) auto
  qed
  have "(p OR VA_OFFSET w) AND NOT 7 = p OR (VA_OFFSET w AND NOT 7)"
    using p7 by (simp only: bit.conj_disj_distrib2)
  also have "\<dots> = p + (VA_OFFSET w AND NOT 7)"
  proof (rule disjunctive_add_eq_or [symmetric])
    show "p AND (VA_OFFSET w AND NOT 7) = 0"
    proof (rule bit_word_eqI)
      fix n
      show "bit (p AND (VA_OFFSET w AND NOT 7)) n = bit (0 :: u64) n"
        using p [of n] bit_page_offset [OF off, of n] by (simp only: bit_and_iff bit_0_eq bot_apply bot_bool_def) (meson leD)
    qed
  qed
  finally show ?thesis using le off by simp
qed

text \<open>A byte of a frame with data survives any step of the memory manager.\<close>

lemma load_evolves:
  assumes inv: "user_inv as s" and ev: "evolves as s s'" and w: "w < USER_HALF_END"
    and pte: "pte_of as s' w = pte_of as s w" and b: "load_user as w s = Some b"
  shows "load_user as w s' = Some b"
proof -
  let ?p = "PTE_FRAME (pte_of as s w)"
  have I: "vmm_inv as s" "vmm_inv as s'" using inv ev by (simp_all add: evolves_def)
  have pr: "is_present (pte_of as s w)" using b load_user_leaf [OF I(1), of w] by (simp split: if_splits)
  have "solid as ?p s" using user_invD [OF inv w pr] by simp
  then have "ptmem s' ((?p OR VA_OFFSET w) AND NOT 7) = ptmem s ((?p OR VA_OFFSET w) AND NOT 7)"
    using ev cell_in_frame [OF frame_of_aligned, of "pte_of as s w" w] by (auto simp: evolves_def)
  then have "phys_byte s' (?p OR VA_OFFSET w) = phys_byte s (?p OR VA_OFFSET w)" by (simp add: phys_byte_def)
  then show ?thesis using b pr pte load_user_leaf [OF I(1), of w] load_user_leaf [OF I(2), of w] by simp
qed

lemma gate_step_refl: "user_inv as s \<Longrightarrow> gate_step as s s"
  by (simp add: gate_step_def evolves_refl)

lemma gate_step_load:
  "user_inv as s \<Longrightarrow> gate_step as s s' \<Longrightarrow> w < USER_HALF_END \<Longrightarrow> load_user as w s = Some b \<Longrightarrow> load_user as w s' = Some b"
  using load_evolves [of as s s' w b] load_user_leaf [of as s w] by (auto simp: gate_step_def split: if_splits)

lemma gate_step_trans:
  assumes "gate_step as s t" "gate_step as t u"
  shows "gate_step as s u"
proof -
  have "load_user as w u = Some 0" if "w < USER_HALF_END" "load_user as w t = Some 0" for w
    using gate_step_load [OF _ assms(2) that] assms(1) by (simp add: gate_step_def)
  then show ?thesis
    using assms evolves_trans [of as s t u] unfolding gate_step_def by metis
qed

lemma gate_step_inv: "gate_step as s t \<Longrightarrow> user_inv as t"
  by (simp add: gate_step_def)

lemma gate_step_ref:
  assumes "user_inv as s" "gate_step as s s'" "w < USER_HALF_END" "user_ref as fw w s = Some a"
  shows "user_ref as fw w s' = Some a"
proof -
  have "is_present (pte_of as s w)"
    using assms(4) user_ref_leaf [of as s fw w] assms(1) by (auto simp: Let_def split: if_splits)
  then have "pte_of as s' w = pte_of as s w" using assms(2,3) by (simp add: gate_step_def)
  then show ?thesis
    using assms(1,2,4) user_ref_leaf [of as s fw w] user_ref_leaf [of as s' fw w] by (simp add: gate_step_def)
qed
lemma half_48: "w < USER_HALF_END \<Longrightarrow> unat w < 2 ^ 48" "w < USER_HALF_END \<longleftrightarrow> unat w < 2 ^ 47"
  by (simp_all add: USER_HALF_END_def word_less_nat_alt)

lemma same_page_stack:
  assumes "same_page w va" "w < USER_HALF_END" "va AND -4096 = va" "USER_STACK_LIMIT \<le> va" "va < USER_STACK_TOP"
  shows "USER_STACK_LIMIT \<le> w \<and> w < USER_STACK_TOP"
proof -
  have "va < USER_HALF_END" using assms(5) by (simp add: user_const_defs word_less_nat_alt)
  then have d: "unat w div 4096 = unat va div 4096"
    using same_page_nat [OF assms(1)] half_48 assms(2) by blast
  have "0x00007FFFFFF00000 \<le> unat va" "unat va < 0x7FFFFFFFE * 4096"
    using assms(4,5) by (simp_all add: user_const_defs word_less_nat_alt word_le_nat_alt)
  then have "0x7FFFFFF00 \<le> unat w div 4096" "unat w div 4096 < 0x7FFFFFFFE"
    unfolding d using div_le_mono [of _ "unat va" 4096] less_mult_imp_div_less by fastforce+
  moreover have "unat w = unat w div 4096 * 4096 + unat w mod 4096" "unat w mod 4096 < 4096" by simp_all
  ultimately have "0x00007FFFFFF00000 \<le> unat w \<and> unat w < 0x00007FFFFFFFE000" by linarith
  then show ?thesis by (simp add: user_const_defs word_less_nat_alt word_le_nat_alt)
qed

lemma rw_flags: "page_flags VMM_FLAGS_USER_RW"
  by (simp add: page_flags_def pte_flag_defs VMM_WC_def)

lemma new_pte_rw:
  "is_present (p OR VMM_FLAGS_USER_RW OR PTE_PRESENT)" "(p OR VMM_FLAGS_USER_RW OR PTE_PRESENT) AND PTE_WRITE \<noteq> 0"
proof -
  have b: "bit VMM_FLAGS_USER_RW 0" "bit VMM_FLAGS_USER_RW 1"
    by (simp_all add: pte_flag_defs)
  then show "is_present (p OR VMM_FLAGS_USER_RW OR PTE_PRESENT)"
    by (simp only: is_present_iff bit_or_iff simp_thms)
  have "bit ((p OR VMM_FLAGS_USER_RW OR PTE_PRESENT) AND PTE_WRITE) 1"
    using b by (simp only: bit_and_iff bit_or_iff) (simp add: PTE_WRITE_def)
  then show "(p OR VMM_FLAGS_USER_RW OR PTE_PRESENT) AND PTE_WRITE \<noteq> 0" by fastforce
qed

lemma new_page_zero:
  assumes inv: "vmm_inv as s'" and np: "new_page as va flags s s'" and fl: "page_flags flags"
    and w: "same_page w va"
  shows "load_user as w s' = Some 0"
proof -
  obtain p where p: "p AND PTE_ADDR_MASK = p" "solid as p s'" "\<forall>a. a - p < 4096 \<longrightarrow> ptmem s' a = 0"
    "pte_of as s' w = p OR flags OR PTE_PRESENT" using np w by (auto simp: new_page_def)
  have pa: "p AND -4096 = p" using p(2) by (simp add: solid_def)
  have "is_present (p OR flags OR PTE_PRESENT)" "PTE_FRAME (p OR flags OR PTE_PRESENT) = p"
    using new_pte [of flags p] fl pa p(1) by (simp_all add: page_flags_def)
  moreover have "ptmem s' ((p OR VA_OFFSET w) AND NOT 7) = 0" using p(3) cell_in_frame [OF pa] by blast
  ultimately show ?thesis using load_user_leaf [OF inv, of w] p(4) by (simp add: phys_byte_def)
qed

lemma user_ref_page:
  assumes "vmm_inv as s"
  shows "user_ref as fw (w AND -4096) s = None \<longleftrightarrow> user_ref as fw w s = None"
  using user_ref_leaf [OF assms, of fw "w AND -4096"] user_ref_leaf [OF assms, of fw w] by (simp add: Let_def)

lemma and_4096_le: "w AND -4096 \<le> (w :: u64)"
  by (rule word_and_le2)

lemma map_new_page_gate:
  assumes inv: "user_inv as s" and va: "va AND -4096 = va" "USER_STACK_LIMIT \<le> va" "va < USER_STACK_TOP"
    and np: "\<not> is_present (pte_of as s va)" and eq: "map_new_page as va VMM_FLAGS_USER_RW s = (ok, s')"
  shows "gate_step as s s' \<and> (ok \<longleftrightarrow> user_ref as fw va s' \<noteq> None)"
proof -
  note M = map_new_page_spec [OF inv rw_flags eq]
  have I': "vmm_inv as s'" using M by simp
  have same: "pte_of as s w = pte_of as s va" if "same_page w va" for w
    using that by (simp add: same_page_def)
  show ?thesis
  proof (cases ok)
    case False
    then have "pte_of as s' w = pte_of as s w" for w using M by simp
    then show ?thesis using M False np user_ref_leaf [OF I', of fw va] by (simp add: gate_step_def)
  next
    case True
    then have N: "new_page as va VMM_FLAGS_USER_RW s s'" using M by simp
    then obtain p where p: "pte_of as s' va = p OR VMM_FLAGS_USER_RW OR PTE_PRESENT" by (auto simp: new_page_def)
    have "user_ref as fw va s' \<noteq> None"
      unfolding user_ref_leaf [OF I'] p using new_pte_rw by (simp add: Let_def)
    moreover have "pte_of as s' w = pte_of as s w" if "is_present (pte_of as s w)" for w
      using M same that np by metis
    moreover have "USER_STACK_LIMIT \<le> w \<and> w < USER_STACK_TOP \<and> load_user as w s' = Some 0"
      if "w < USER_HALF_END" "is_present (pte_of as s' w)" "\<not> is_present (pte_of as s w)" for w
    proof -
      have "same_page w va" using M that(2,3) by metis
      then show ?thesis
        using same_page_stack [OF _ that(1) va] new_page_zero [OF I' N rw_flags] by blast
    qed
    ultimately show ?thesis using M True unfolding gate_step_def by blast
  qed
qed

lemma user_page_ready_spec:
  assumes inv: "user_inv as s" and va: "va < USER_HALF_END" and eq: "user_page_ready (Some as) va fw s = (ok, s')"
  shows "gate_step as s s' \<and> (ok \<longleftrightarrow> user_ref as fw va s' \<noteq> None)"
proof -
  let ?p = "va AND -4096"
  have I: "vmm_inv as s" using inv by simp
  have p: "?p < USER_HALF_END" using and_4096_le [of va] va by simp
  have pp: "?p AND -4096 = ?p" by (simp add: and.assoc)
  note V = virt_to_phys_page [OF inv pp p] and U = user_invD [OF inv p]
  show ?thesis
  proof (cases "is_present (pte_of as s va)")
    case True
    then have v: "vmm_virt_to_phys as ?p s \<noteq> 0" using V U by simp
    then have "s' = s" "ok = (fw \<longrightarrow> vmm_page_writable as ?p s)"
      using eq by (auto simp: user_page_ready_def Let_def split: if_splits)
    then show ?thesis
      using gate_step_refl [OF inv] page_writable_leaf [OF I, of ?p] p user_ref_leaf [OF I, of fw va] True
      by (auto simp: Let_def USER_HALF_END_def)
  next
    case False
    then have v: "vmm_virt_to_phys as ?p s = 0" using V by simp
    show ?thesis
    proof (cases "?p < USER_STACK_LIMIT \<or> ?p \<ge> USER_STACK_TOP")
      case True
      then have "s' = s" "\<not> ok" using eq v by (auto simp: user_page_ready_def Let_def)
      then show ?thesis using gate_step_refl [OF inv] False user_ref_leaf [OF I, of fw va] by simp
    next
      case stack: False
      then have e: "map_new_page as ?p VMM_FLAGS_USER_RW s = (ok, s')"
        using eq v by (auto simp: user_page_ready_def Let_def)
      have G: "gate_step as s s' \<and> (ok \<longleftrightarrow> user_ref as fw ?p s' \<noteq> None)"
        by (rule map_new_page_gate [OF inv pp _ _ _ e]) (use stack False in \<open>simp_all add: not_le not_less\<close>)
      then have "vmm_inv as s'" using gate_step_inv user_inv_vmm by blast
      then show ?thesis using G user_ref_page [of as s' fw va] by simp
    qed
  qed
qed

section \<open>Ranges\<close>

lemma unat_page_add:
  assumes "unat page + 4096 * k < 2 ^ 64"
  shows "unat (page + of_nat k * 4096 :: u64) = unat page + 4096 * k"
proof -
  have k: "k < 2 ^ 52" using assms by simp
  then have "unat (of_nat k :: u64) = k" by (simp only: unsigned_of_nat) (simp add: take_bit_nat_eq_self)
  then have "unat (of_nat k * 4096 :: u64) = k * 4096"
    using unat_mult_lem [of "of_nat k :: u64" "0x1000"] k by simp
  then show ?thesis using assms by (subst unat_add_u64) simp_all
qed

lemma user_range_loop_spec:
  assumes "user_inv as s" "unat page + 4096 * k < 2 ^ 47" "lst = page + of_nat k * 4096"
  shows "\<exists>ok s'. user_range_loop as page lst fw s = Some (ok, s') \<and> gate_step as s s'
    \<and> (ok \<longleftrightarrow> (\<forall>j \<le> k. user_ref as fw (page + of_nat j * 4096) s' \<noteq> None))"
  using assms
proof (induction k arbitrary: page s)
  case 0
  obtain ok s' where r: "user_page_ready (Some as) page fw s = (ok, s')" by force
  have "page < USER_HALF_END" using "0.prems"(2) by (simp add: half_48)
  note R = user_page_ready_spec [OF "0.prems"(1) this r]
  show ?case using R "0.prems"(3) by (subst user_range_loop.simps) (simp add: r)
next
  case (Suc k)
  obtain ok s1 where r: "user_page_ready (Some as) page fw s = (ok, s1)" by force
  have ph: "page < USER_HALF_END" using Suc.prems(2) by (simp add: half_48)
  note R = user_page_ready_spec [OF Suc.prems(1) ph r]
  have at: "unat (page + of_nat j * 4096) = unat page + 4096 * j" if "j \<le> Suc k" for j
    using Suc.prems(2) that by (intro unat_page_add) simp
  have ne: "page \<noteq> lst" using at [of "Suc k"] Suc.prems(3) by auto
  show ?case
  proof (cases ok)
    case False
    then have "user_ref as fw (page + of_nat 0 * 4096) s1 = None" using R by simp
    then have "\<not> (\<forall>j \<le> Suc k. user_ref as fw (page + of_nat j * 4096) s1 \<noteq> None)" by blast
    then show ?thesis using R False by (subst user_range_loop.simps) (simp add: r)
  next
    case True
    have step: "page + 4096 + of_nat j * 4096 = page + of_nat (Suc j) * 4096" for j by (simp add: algebra_simps)
    have p1: "unat (page + 4096) + 4096 * k < 2 ^ 47" "lst = page + 4096 + of_nat k * 4096"
      using at [of 1] Suc.prems(2,3) by (simp_all add: algebra_simps)
    have I1: "user_inv as s1" using R gate_step_inv by blast
    from Suc.IH [OF I1 p1] obtain ok2 s2 where L: "user_range_loop as (page + 4096) lst fw s1 = Some (ok2, s2)"
      "gate_step as s1 s2" "ok2 \<longleftrightarrow> (\<forall>j \<le> k. user_ref as fw (page + 4096 + of_nat j * 4096) s2 \<noteq> None)" by blast
    have first: "user_ref as fw page s2 \<noteq> None"
      using gate_step_ref [OF I1 L(2) ph] R True by fastforce
    have "ok2 \<longleftrightarrow> (\<forall>j \<le> Suc k. user_ref as fw (page + of_nat j * 4096) s2 \<noteq> None)"
    proof
      assume ok2
      then have "user_ref as fw (page + of_nat (Suc j) * 4096) s2 \<noteq> None" if "j \<le> k" for j
        using L(3) that step by metis
      then show "\<forall>j \<le> Suc k. user_ref as fw (page + of_nat j * 4096) s2 \<noteq> None"
        using first by (metis Suc_le_mono add_0_right mult_zero_left of_nat_0 not0_implies_Suc)
    next
      assume "\<forall>j \<le> Suc k. user_ref as fw (page + of_nat j * 4096) s2 \<noteq> None"
      then show ok2 using L(3) step by (metis Suc_le_mono)
    qed
    moreover have "user_range_loop as page lst fw s = Some (ok2, s2)"
      using L(1) True ne by (subst user_range_loop.simps) (simp add: r)
    ultimately show ?thesis using gate_step_trans R L(2) by blast
  qed
qed

text \<open>The bytes of a range are those of its pages.\<close>

lemma unat_byte_add: "unat addr + i < 2 ^ 64 \<Longrightarrow> unat (addr + of_nat i :: u64) = unat addr + i"
proof -
  assume h: "unat addr + i < 2 ^ 64"
  then have "unat (of_nat i :: u64) = i" by (simp only: unsigned_of_nat) (simp add: take_bit_nat_eq_self)
  then show ?thesis using h by (subst unat_add_u64) simp_all
qed

lemma byte_page:
  assumes "unat addr + i < 2 ^ 47"
  shows "(addr + of_nat i) AND -4096 = (addr AND -4096) + of_nat ((unat addr mod 4096 + i) div 4096) * (4096 :: u64)"
proof -
  let ?j = "(unat addr mod 4096 + i) div 4096"
  have split: "unat addr = unat addr div 4096 * 4096 + unat addr mod 4096" by simp
  have le: "4096 * ?j \<le> unat addr mod 4096 + i" by simp
  have "unat (addr AND -4096) + 4096 * ?j < 2 ^ 64"
    using assms le unfolding unat_and_m4096 by (simp add: minus_mod_eq_div_mult [symmetric])
  then have "unat ((addr AND -4096) + of_nat ?j * 4096) = unat addr div 4096 * 4096 + 4096 * ?j"
    by (simp only: unat_page_add unat_and_m4096)
  moreover have "unat addr + i = unat addr div 4096 * 4096 + (unat addr mod 4096 + i)" using split by linarith
  then have "(unat addr + i) div 4096 = unat addr div 4096 + ?j" by (metis div_mult_self3 zero_neq_numeral)
  ultimately have "unat ((addr + of_nat i) AND -4096) = unat ((addr AND -4096) + of_nat ?j * 4096)"
    unfolding unat_and_m4096 using assms by (simp add: unat_byte_add)
  then show ?thesis by (simp only: word_unat_eq_iff)
qed

lemma range_pages:
  assumes len: "0 < len" and half: "unat addr + len \<le> 2 ^ 47"
  shows "(addr + of_nat len - 1) AND -4096 = (addr AND -4096) + of_nat ((unat addr mod 4096 + (len - 1)) div 4096) * (4096 :: u64)"
    "unat (addr AND -4096) + 4096 * ((unat addr mod 4096 + (len - 1)) div 4096) < 2 ^ 47"
    "{(unat addr mod 4096 + i) div 4096 | i. i < len} = {..(unat addr mod 4096 + (len - 1)) div 4096}"
proof -
  let ?m = "unat addr mod 4096"
  have "addr + of_nat len - 1 = addr + of_nat (len - 1)" using len by (simp add: of_nat_diff)
  moreover have "unat addr + (len - 1) < 2 ^ 47" using len half by simp
  ultimately show "(addr + of_nat len - 1) AND -4096 = (addr AND -4096) + of_nat ((?m + (len - 1)) div 4096) * (4096 :: u64)"
    using byte_page [of addr "len - 1"] by (simp only:)
  have "4096 * ((?m + (len - 1)) div 4096) \<le> ?m + (len - 1)" by simp
  moreover have "unat addr = unat addr div 4096 * 4096 + ?m" by simp
  ultimately show "unat (addr AND -4096) + 4096 * ((?m + (len - 1)) div 4096) < 2 ^ 47"
    using len half unfolding unat_and_m4096 by linarith
  show "{(?m + i) div 4096 | i. i < len} = {..(?m + (len - 1)) div 4096}"
  proof (rule set_eqI, rule iffI)
    fix j assume "j \<in> {(?m + i) div 4096 | i. i < len}"
    then show "j \<in> {..(?m + (len - 1)) div 4096}" by (auto intro: div_le_mono)
  next
    fix j assume j: "j \<in> {..(?m + (len - 1)) div 4096}"
    show "j \<in> {(?m + i) div 4096 | i. i < len}"
    proof (cases "j = 0")
      case True
      then show ?thesis using len by (auto intro!: exI [of _ 0])
    next
      case False
      define i where "i = 4096 * j - ?m"
      have m: "?m < 4096" by simp
      have "4096 \<le> 4096 * j" using False by simp
      then have e: "?m + i = 4096 * j" unfolding i_def using m by linarith
      have "4096 * j \<le> ?m + (len - 1)" using j by (simp add: less_eq_div_iff_mult_less_eq mult.commute)
      then have "i < len" using e len by linarith
      then show ?thesis using e by (auto intro!: exI [of _ i])
    qed
  qed
qed

definition range_ok :: "as_ptr \<Rightarrow> bool \<Rightarrow> u64 \<Rightarrow> nat \<Rightarrow> vmm \<Rightarrow> bool" where
  "range_ok as fw addr n s \<longleftrightarrow> unat addr + n \<le> 2 ^ 47 \<and> (\<forall>i < n. user_ref as fw (addr + of_nat i) s \<noteq> None)"

lemma user_range_prepare_spec:
  assumes inv: "user_inv as s"
  shows "\<exists>ok s'. user_range_prepare (Some as) addr len fw s = Some (ok, s') \<and> gate_step as s s'
    \<and> (ok \<longleftrightarrow> len = 0 \<or> len \<le> UACCESS_MAX_LEN \<and> range_ok as fw addr (unat len) s')"
proof (cases "len = 0 \<or> len > UACCESS_MAX_LEN")
  case True
  then have "user_range_prepare (Some as) addr len fw s = Some (len = 0, s)"
    by (auto simp: user_range_prepare_def)
  then show ?thesis using True gate_step_refl [OF inv] by auto
next
  case False
  have len: "0 < unat len" "unat len \<le> 0x40000000"
    using False by (simp_all add: user_const_defs not_less word_le_nat_alt unat_gt_0)
  have fits: "\<not> addr + len < addr \<and> \<not> addr + len > USER_HALF_END \<longleftrightarrow> unat addr + unat len \<le> 2 ^ 47"
  proof (cases "unat addr + unat len < 2 ^ 64")
    case True
    then have "unat (addr + len) = unat addr + unat len" by (intro unat_add_u64) simp
    then show ?thesis by (auto simp: USER_HALF_END_def word_less_nat_alt)
  next
    case wrap: False
    then have "unat (addr + len) < unat addr"
      using len by (simp add: unat_plus_if_size word_size)
    then show ?thesis using wrap len by (simp add: word_less_nat_alt)
  qed
  show ?thesis
  proof (cases "unat addr + unat len \<le> 2 ^ 47")
    case big: False
    then have "user_range_prepare (Some as) addr len fw s = Some (False, s)"
      using False fits by (auto simp: user_range_prepare_def Let_def)
    then show ?thesis using gate_step_refl [OF inv] False big by (auto simp: range_ok_def)
  next
    case True
    let ?k = "(unat addr mod 4096 + (unat len - 1)) div 4096"
    note P = range_pages [OF len(1) True]
    have e: "user_range_prepare (Some as) addr len fw s
        = user_range_loop as (addr AND -4096) ((addr + len - 1) AND -4096) fw s"
      using False fits True by (simp add: user_range_prepare_def Let_def)
    have l: "(addr + len - 1) AND -4096 = (addr AND -4096) + of_nat ?k * 4096" using P(1) by simp
    from user_range_loop_spec [OF inv P(2) l] obtain ok s' where L:
      "user_range_loop as (addr AND -4096) ((addr + len - 1) AND -4096) fw s = Some (ok, s')" "gate_step as s s'"
      "ok \<longleftrightarrow> (\<forall>j \<le> ?k. user_ref as fw ((addr AND -4096) + of_nat j * 4096) s' \<noteq> None)" by blast
    have I': "vmm_inv as s'" using L(2) gate_step_inv user_inv_vmm by blast
    have byte: "user_ref as fw (addr + of_nat i) s' = None \<longleftrightarrow>
        user_ref as fw ((addr AND -4096) + of_nat ((unat addr mod 4096 + i) div 4096) * 4096) s' = None"
      if "i < unat len" for i
      using user_ref_page [OF I', of fw "addr + of_nat i"] byte_page [of addr i] that True by simp
    have "ok \<longleftrightarrow> (\<forall>j \<in> {..?k}. user_ref as fw ((addr AND -4096) + of_nat j * 4096) s' \<noteq> None)" using L(3) by auto
    also have "\<dots> \<longleftrightarrow> (\<forall>i < unat len. user_ref as fw (addr + of_nat i) s' \<noteq> None)"
      unfolding P(3) [symmetric] using byte by blast
    finally show ?thesis using L e False True by (auto simp: range_ok_def)
  qed
qed

section \<open>Copies\<close>

lemma user_ref_frame:
  assumes inv: "user_inv as s" and w: "w < USER_HALF_END" and r: "user_ref as wr w s = Some pa"
  shows "\<exists>p. solid as p s \<and> (pa AND NOT 7) - p < 4096"
proof -
  have pr: "is_present (pte_of as s w)" "pa = PTE_FRAME (pte_of as s w) OR VA_OFFSET w"
    using r user_ref_leaf [of as s wr w] inv by (auto simp: Let_def split: if_splits)
  then show ?thesis
    using user_invD [OF inv w pr(1)] cell_in_frame [OF frame_of_aligned] by blast
qed

text \<open>A store of one byte changes that byte and no translation.\<close>

lemma store_user_spec:
  assumes inv: "user_inv as s" and w: "w < USER_HALF_END" and r: "user_ref as True w s = Some pa"
  shows "\<exists>s'. store_user as w b s = Some s' \<and> user_inv as s'
    \<and> (\<forall>fw v. user_ref as fw v s' = user_ref as fw v s) \<and> (\<forall>q. phys_byte s' q = (if q = pa then b else phys_byte s q))"
proof -
  let ?s' = "set_phys_byte pa b s"
  obtain p where p: "solid as p s" "(pa AND NOT 7) - p < 4096" using user_ref_frame [OF inv w r] by blast
  obtain m where m: "?s' = s\<lparr>ptmem := m\<rparr>" "\<And>a. a \<noteq> pa AND NOT 7 \<Longrightarrow> m a = ptmem s a"
    by (simp add: set_phys_byte_def Let_def)
  have same: "m a = ptmem s a" if "\<not> a - p < 4096" for a using m(2) p(2) that by metis
  have I: "vmm_inv as s" using inv by simp
  note W = solid_write [OF I p(1) same]
  have "user_inv as ?s'" unfolding m(1) by (rule user_inv_write [OF inv p(1) same])
  moreover have "user_ref as fw v ?s' = user_ref as fw v s" for fw v
    using user_ref_leaf [OF I, of fw v] user_ref_leaf [OF W(1), of fw v] W(3) [of v] m(1) by simp
  ultimately show ?thesis using r by (simp add: store_user_def phys_byte_set)
qed

text \<open>The frames and offsets the bytes of a range live at.\<close>

definition targets :: "as_ptr \<Rightarrow> u64 \<Rightarrow> nat \<Rightarrow> vmm \<Rightarrow> u64 list" where
  "targets as d n s = map (\<lambda>i. the (user_ref as False (d + of_nat i) s)) [0..<n]"

lemma targets_Suc: "targets as d (Suc n) s = the (user_ref as False d s) # targets as (d + 1) n s"
  by (simp add: targets_def upt_conv_Cons map_Suc_upt [symmetric] comp_def algebra_simps del: upt_Suc)

lemma user_ref_read: "vmm_inv as s \<Longrightarrow> user_ref as fw v s = Some pa \<Longrightarrow> user_ref as False v s = Some pa"
  using user_ref_leaf [of as s fw v] user_ref_leaf [of as s False v] by (auto simp: Let_def split: if_splits)

lemma range_ok_Suc:
  assumes "range_ok as fw d (Suc n) s"
  shows "d < USER_HALF_END" "\<exists>pa. user_ref as fw d s = Some pa" "range_ok as fw (d + 1) n s"
proof -
  have d: "unat d + Suc n \<le> 2 ^ 47" using assms by (simp add: range_ok_def)
  then have "unat (d + 1) = unat d + 1" using unat_byte_add [of d 1] by simp
  moreover have "user_ref as fw (d + 1 + of_nat i) s \<noteq> None" if "i < n" for i
  proof -
    have "d + 1 + of_nat i = d + of_nat (Suc i)" by simp
    then show ?thesis using assms that unfolding range_ok_def by (metis Suc_mono)
  qed
  ultimately show "range_ok as fw (d + 1) n s" using d by (simp add: range_ok_def)
  show "d < USER_HALF_END" using d by (simp add: half_48)
  have "user_ref as fw (d + of_nat 0) s \<noteq> None" using assms unfolding range_ok_def by blast
  then show "\<exists>pa. user_ref as fw d s = Some pa" by auto
qed

lemma store_bytes_spec:
  assumes "user_inv as s" "range_ok as True d (length bs) s"
  shows "\<exists>s'. store_bytes as d bs s = Some s' \<and> user_inv as s'
    \<and> (\<forall>fw v. user_ref as fw v s' = user_ref as fw v s)
    \<and> (\<forall>q. q \<notin> set (targets as d (length bs) s) \<longrightarrow> phys_byte s' q = phys_byte s q)
    \<and> (distinct (targets as d (length bs) s) \<longrightarrow> map (phys_byte s') (targets as d (length bs) s) = bs)"
  using assms
proof (induction bs arbitrary: d s)
  case Nil
  then show ?case by (simp add: targets_def)
next
  case (Cons b bs)
  have ok: "range_ok as True d (Suc (length bs)) s" using Cons.prems(2) by simp
  note R = range_ok_Suc [OF ok]
  obtain pa where pa: "user_ref as True d s = Some pa" using R(2) by blast
  have pr: "the (user_ref as False d s) = pa" using user_ref_read [OF _ pa] Cons.prems(1) by simp
  from store_user_spec [OF Cons.prems(1) R(1) pa] obtain s1 where S: "store_user as d b s = Some s1" "user_inv as s1"
    "\<forall>fw v. user_ref as fw v s1 = user_ref as fw v s" "\<forall>q. phys_byte s1 q = (if q = pa then b else phys_byte s q)" by blast
  have ok1: "range_ok as True (d + 1) (length bs) s1" using R(3) S(3) by (simp add: range_ok_def)
  have t1: "targets as (d + 1) (length bs) s1 = targets as (d + 1) (length bs) s" using S(3) by (simp add: targets_def)
  from Cons.IH [OF S(2) ok1] obtain s' where L: "store_bytes as (d + 1) bs s1 = Some s'" "user_inv as s'"
    "\<forall>fw v. user_ref as fw v s' = user_ref as fw v s1"
    "\<forall>q. q \<notin> set (targets as (d + 1) (length bs) s) \<longrightarrow> phys_byte s' q = phys_byte s1 q"
    "distinct (targets as (d + 1) (length bs) s) \<longrightarrow> map (phys_byte s') (targets as (d + 1) (length bs) s) = bs"
    unfolding t1 by blast
  have "store_bytes as d (b # bs) s = Some s'" using S(1) L(1) by simp
  then show ?case using L S pr by (simp add: targets_Suc)
qed

lemma load_bytes_spec:
  assumes "range_ok as False p n s"
  shows "load_bytes as p n s = Some (map (phys_byte s) (targets as p n s))"
  using assms
proof (induction n arbitrary: p)
  case 0
  then show ?case by (simp add: targets_def)
next
  case (Suc n)
  note R = range_ok_Suc [OF Suc.prems]
  obtain pa where "user_ref as False p s = Some pa" using R(2) by blast
  then show ?case using Suc.IH [OF R(3)] by (simp add: load_user_def targets_Suc)
qed

section \<open>Strings\<close>

definition text_at :: "as_ptr \<Rightarrow> u64 \<Rightarrow> nat \<Rightarrow> vmm \<Rightarrow> bool" where
  "text_at as addr k s \<longleftrightarrow> (\<forall>i < k. \<exists>b. load_user as (addr + of_nat i) s = Some b \<and> b \<noteq> 0)"

definition string_at :: "as_ptr \<Rightarrow> u64 \<Rightarrow> nat \<Rightarrow> vmm \<Rightarrow> bool" where
  "string_at as addr k s \<longleftrightarrow> text_at as addr k s \<and> load_user as (addr + of_nat k) s = Some 0"

lemma text_at_Suc:
  "text_at as addr (Suc k) s \<longleftrightarrow> text_at as addr k s \<and> (\<exists>b. load_user as (addr + of_nat k) s = Some b \<and> b \<noteq> 0)"
  by (auto simp: text_at_def less_Suc_eq)

lemma text_at_string: "text_at as addr k s \<Longrightarrow> string_at as addr j s \<Longrightarrow> k \<le> j"
  unfolding text_at_def string_at_def by (metis not_le option.inject)

lemma text_at_gate:
  assumes "user_inv as s" "gate_step as s s'" "unat addr + k \<le> 2 ^ 47" "text_at as addr k s"
  shows "text_at as addr k s'"
  unfolding text_at_def
proof (intro allI impI)
  fix i assume i: "i < k"
  then obtain b where b: "load_user as (addr + of_nat i) s = Some b" "b \<noteq> 0" using assms(4) by (auto simp: text_at_def)
  have "addr + of_nat i < USER_HALF_END" using i assms(3) by (simp add: half_48 unat_byte_add)
  then show "\<exists>b. load_user as (addr + of_nat i) s' = Some b \<and> b \<noteq> 0"
    using gate_step_load [OF assms(1,2) _ b(1)] b(2) by blast
qed

lemma unat_inc: "n < (mx :: u64) \<Longrightarrow> unat (n + 1) = Suc (unat n)"
  using unat_byte_add [of n 1] unat_less_power [of mx] by (simp add: word_less_nat_alt)

lemma scan_page_spec:
  assumes "unat addr + unat mx \<le> 2 ^ 47" "n \<le> mx" "text_at as addr (unat n) s"
    and "\<And>j. j < mx \<Longrightarrow> n \<le> j \<Longrightarrow> addr + j < page_end \<Longrightarrow> load_user as (addr + j) s \<noteq> None"
  shows "\<exists>found n'. scan_page as addr n mx page_end s = Some (found, n') \<and> n \<le> n' \<and> n' \<le> mx \<and> text_at as addr (unat n') s
    \<and> (found \<longrightarrow> n' < mx \<and> load_user as (addr + n') s = Some 0)
    \<and> (n < mx \<and> addr + n < page_end \<and> \<not> found \<longrightarrow> n < n')"
  using assms(2-)
proof (induction "unat mx - unat n" arbitrary: n)
  case 0
  then have "n = mx" by (simp add: word_le_nat_alt word_unat_eq_iff)
  then have "scan_page as addr n mx page_end s = Some (False, n)" by (subst scan_page.simps) simp
  then show ?case using 0 \<open>n = mx\<close> by (intro exI [of _ False] exI [of _ n]) simp
next
  case (Suc d)
  then have lt: "n < mx" by (simp add: word_less_nat_alt)
  show ?case
  proof (cases "addr + n < page_end")
    case False
    then have "scan_page as addr n mx page_end s = Some (False, n)" by (subst scan_page.simps) simp
    then show ?thesis using Suc.prems(1,2) False by (intro exI [of _ False] exI [of _ n]) simp
  next
    case True
    then obtain b where b: "load_user as (addr + n) s = Some b" using Suc.prems(3) [OF lt] by auto
    note n1 = unat_inc [OF lt]
    show ?thesis
    proof (cases "b = 0")
      case True
      then have "scan_page as addr n mx page_end s = Some (True, n)"
        using b lt \<open>addr + n < page_end\<close> by (subst scan_page.simps) simp
      then show ?thesis using Suc.prems(1,2) b lt True by (intro exI [of _ True] exI [of _ n]) simp
    next
      case False
      have le: "n + 1 \<le> mx" using lt n1 by (simp add: word_le_nat_alt word_less_nat_alt)
      have t1: "text_at as addr (unat (n + 1)) s" using Suc.prems(2) b False by (simp add: n1 text_at_Suc)
      have nn: "n < n + 1" using n1 by (simp add: word_less_nat_alt)
      have d: "d = unat mx - unat (n + 1)" using Suc.hyps(2) n1 by simp
      have ld: "load_user as (addr + j) s \<noteq> None" if "j < mx" "n + 1 \<le> j" "addr + j < page_end" for j
        using Suc.prems(3) [OF that(1) _ that(3)] nn that(2) by simp
      from Suc.hyps(1) [OF d le t1 ld] obtain found n' where L: "scan_page as addr (n + 1) mx page_end s = Some (found, n')"
        "n + 1 \<le> n'" "n' \<le> mx" "text_at as addr (unat n') s" "found \<longrightarrow> n' < mx \<and> load_user as (addr + n') s = Some 0"
        by blast
      have "scan_page as addr n mx page_end s = Some (found, n')"
        using L(1) b False lt \<open>addr + n < page_end\<close> by (subst scan_page.simps) simp
      moreover have "n < n'" using nn L(2) by simp
      ultimately show ?thesis using L by auto
    qed
  qed
qed

lemma next_page:
  assumes "unat w < 2 ^ 47"
  shows "w < (w AND -4096) + (4096 :: u64)" "\<And>v. w \<le> v \<Longrightarrow> v < (w AND -4096) + 4096 \<Longrightarrow> same_page v w"
proof -
  have e: "unat ((w AND -4096) + 4096) = unat w div 4096 * 4096 + 4096"
    using assms unat_page_add [of "w AND -4096" 1] by (simp add: unat_and_m4096)
  have split: "unat w = unat w div 4096 * 4096 + unat w mod 4096" "unat w mod 4096 < 4096" by simp_all
  show "w < (w AND -4096) + 4096" unfolding word_less_nat_alt e using split by linarith
  show "same_page v w" if "w \<le> v" "v < (w AND -4096) + 4096" for v
  proof -
    have "unat w \<le> unat v" "unat v < unat w div 4096 * 4096 + 4096"
      using that e by (simp_all add: word_le_nat_alt word_less_nat_alt)
    then have "unat v div 4096 = unat w div 4096" using split by (intro div_nat_eqI, linarith) (simp add: algebra_simps)
    then have "v AND -4096 = w AND -4096" by (simp only: word_unat_eq_iff unat_and_m4096)
    then show ?thesis unfolding same_page_def using va_of_page by metis
  qed
qed

lemma load_same_page:
  "vmm_inv as s \<Longrightarrow> same_page v w \<Longrightarrow> load_user as v s = None \<longleftrightarrow> load_user as w s = None"
  by (simp add: load_user_leaf same_page_def)

lemma strnlen_loop_spec:
  assumes "unat addr + unat mx \<le> 2 ^ 47" "user_inv as s" "n \<le> mx" "text_at as addr (unat n) s"
  shows "\<exists>r s'. strnlen_loop as addr n mx s = Some (r, s') \<and> gate_step as s s'
    \<and> (if r = -1 then \<forall>k < unat mx. \<not> string_at as addr k s' else r < mx \<and> string_at as addr (unat r) s')"
  using assms(2-)
proof (induction "unat mx - unat n" arbitrary: n s rule: less_induct)
  case less
  show ?case
  proof (cases "n < mx")
    case False
    then have "n = mx" using less.prems(2) by simp
    then have "\<not> string_at as addr k s" if "k < unat mx" for k
      using text_at_string [OF less.prems(3), of k] that by auto
    then show ?thesis using False gate_step_refl [OF less.prems(1)] by (subst strnlen_loop.simps) simp
  next
    case lt: True
    let ?page = "(addr + n) AND -4096"
    have u: "unat (addr + n) = unat addr + unat n" using lt assms(1) by (intro unat_add_u64) (simp add: word_less_nat_alt)
    then have h: "unat (addr + n) < 2 ^ 47" using lt assms(1) by (simp add: word_less_nat_alt)
    have ph: "?page < USER_HALF_END" using and_4096_le [of "addr + n"] h
      by (simp add: half_48 word_le_nat_alt)
    obtain ok s1 where r: "user_page_ready (Some as) ?page False s = (ok, s1)" by force
    note R = user_page_ready_spec [OF less.prems(1) ph r]
    have I1: "user_inv as s1" "vmm_inv as s1" using R gate_step_inv by auto
    have t1: "text_at as addr (unat n) s1"
      by (rule text_at_gate [OF less.prems(1) _ _ less.prems(3)]) (use R lt assms(1) in \<open>simp_all add: word_less_nat_alt\<close>)
    have loads: "ok \<longleftrightarrow> load_user as (addr + n) s1 \<noteq> None"
      using R user_ref_page [OF I1(2), of False "addr + n"] by (simp add: load_user_def)
    show ?thesis
    proof (cases ok)
      case False
      then have "load_user as (addr + of_nat (unat n)) s1 = None" using loads by simp
      then have "\<not> string_at as addr k s1" for k
        using t1 unfolding string_at_def text_at_def
        by (metis linorder_neqE_nat option.distinct(1) option.inject)
      then show ?thesis using False R lt by (subst strnlen_loop.simps) (simp add: r)
    next
      case True
      have ld: "load_user as (addr + j) s1 \<noteq> None" if "j < mx" "n \<le> j" "addr + j < ?page + 4096" for j
      proof -
        have "unat (addr + j) = unat addr + unat j" using that(1) assms(1) by (intro unat_add_u64) (simp add: word_less_nat_alt)
        then have "addr + n \<le> addr + j" using u that(2) by (simp add: word_le_nat_alt)
        then show ?thesis using load_same_page [OF I1(2) next_page(2) [OF h _ that(3)]] loads True by simp
      qed
      from scan_page_spec [OF assms(1) less.prems(2) t1 ld] obtain found n' where S:
        "scan_page as addr n mx (?page + 4096) s1 = Some (found, n')" "n \<le> n'" "n' \<le> mx" "text_at as addr (unat n') s1"
        "found \<longrightarrow> n' < mx \<and> load_user as (addr + n') s1 = Some 0" "n < mx \<and> addr + n < ?page + 4096 \<and> \<not> found \<longrightarrow> n < n'"
        by blast
      show ?thesis
      proof (cases found)
        case True
        have "n' \<noteq> -1"
        proof
          assume "n' = -1"
          then have "unat n' = 2 ^ 64 - 1" by (simp add: unsigned_minus_1_eq_mask mask_eq_exp_minus_1)
          then show False using S(3) assms(1) by (simp add: word_le_nat_alt)
        qed
        then show ?thesis using True S R lt \<open>ok\<close>
          by (subst strnlen_loop.simps) (simp add: r string_at_def)
      next
        case False
        then have "n < n'" using S(6) lt next_page(1) [OF h] by blast
        then have dec: "unat mx - unat n' < unat mx - unat n" using S(3) by (simp add: word_less_nat_alt word_le_nat_alt)
        from less.hyps [OF dec I1(1) S(3,4)] obtain q s' where L: "strnlen_loop as addr n' mx s1 = Some (q, s')" "gate_step as s1 s'"
          "if q = -1 then \<forall>k < unat mx. \<not> string_at as addr k s' else q < mx \<and> string_at as addr (unat q) s'" by blast
        have "strnlen_loop as addr n mx s = Some (q, s')"
          using False S(1) L(1) lt \<open>ok\<close> by (subst strnlen_loop.simps) (simp add: r)
        then show ?thesis using L R gate_step_trans by blast
      qed
    qed
  qed
qed

section \<open>Properties\<close>

text \<open>
  C39. The gate of the kernel for user pointers: \<^verbatim>\<open>user_range_prepare\<close> returns, and it accepts a range
  exactly if the range is empty or has at most 1 GiB, ends in the user half (the sum does not wrap) and every
  byte of it can then be read, or written if asked for, without a page fault. All it does to the space is to
  fault in zeroed pages of the stack region: every other entry and every byte that could be read stays, and no
  user page comes to lie on a page table or a free frame.
\<close>
theorem user_range_prepare_safe:
  assumes "user_inv as s"
  shows "\<exists>ok s'. user_range_prepare (Some as) addr len fw s = Some (ok, s') \<and> gate_step as s s'
    \<and> (ok \<longleftrightarrow> len = 0 \<or> len \<le> UACCESS_MAX_LEN \<and> range_ok as fw addr (unat len) s')"
  by (rule user_range_prepare_spec [OF assms])

lemma demo_user_inv: "user_inv as demo_vmm"
  using demo_vmm_inv [of as] by (simp add: user_inv_def demo_vmm_def leaf_def tbl_empty_mem va_path_def)

theorem user_range_prepare_safe_witness:
  "user_inv KernelAS demo_vmm
   \<and> map_option fst (user_range_prepare (Some KernelAS) 0x00007FFFFFFFDFF0 16 True demo_vmm) = Some True
   \<and> map_option fst (user_range_prepare (Some KernelAS) 0xFFFF800000000000 16 False demo_vmm) = Some False
   \<and> (\<exists>s'. user_range_prepare (Some KernelAS) 0x00007FFFFFFFDFF0 16 True demo_vmm = Some (True, s')
          \<and> range_ok KernelAS True 0x00007FFFFFFFDFF0 16 s')"
proof -
  have a: "map_option fst (user_range_prepare (Some KernelAS) 0x00007FFFFFFFDFF0 16 True demo_vmm) = Some True"
    and b: "map_option fst (user_range_prepare (Some KernelAS) 0xFFFF800000000000 16 False demo_vmm) = Some False"
    by code_simp+
  show ?thesis
    using user_range_prepare_safe [OF demo_user_inv, of KernelAS "0x00007FFFFFFFDFF0" 16 True] a b demo_user_inv
    by auto
qed

lemma load_bytes_gate:
  assumes "user_inv as s" "gate_step as s s'" "unat p + n \<le> 2 ^ 47" "load_bytes as p n s = Some bs"
  shows "load_bytes as p n s' = Some bs"
  using assms(3,4)
proof (induction n arbitrary: p bs)
  case (Suc n)
  then obtain b cs where b: "load_user as p s = Some b" "load_bytes as (p + 1) n s = Some cs" "bs = b # cs"
    by (auto split: option.splits)
  have "unat (p + 1) = unat p + 1" "p < USER_HALF_END"
    using Suc.prems(1) unat_byte_add [of p 1] by (simp_all add: half_48)
  then show ?case using Suc.IH [OF _ b(2)] gate_step_load [OF assms(1,2) _ b(1)] Suc.prems(1) b(3) by simp
qed simp

lemma range_ok_read: "vmm_inv as s \<Longrightarrow> range_ok as True d n s \<Longrightarrow> range_ok as False d n s"
  unfolding range_ok_def using user_ref_read by (metis not_None_eq)


text \<open>
  \<^verbatim>\<open>strnlen_user\<close> of a process never faults and always returns. A result other than \<open>-1\<close> is the
  length of a string that can be read at the address, its NUL included, below \<^verbatim>\<open>max\<close>; the result is \<open>-1\<close>
  only if no string ends within \<^verbatim>\<open>max\<close>, 1 MiB and the user half. The only effect are zeroed stack pages.
\<close>
theorem strnlen_user_correct:
  assumes "user_inv as (u_vmm m)" "usrc \<noteq> 0"
  shows "\<exists>r m'. strnlen_user (Some as) usrc mx m = Some (r, m') \<and> gate_step as (u_vmm m) (u_vmm m')
    \<and> (if r = -1 then \<forall>k < min (unat mx) (min (2 ^ 20) (2 ^ 47 - unat usrc)). \<not> string_at as usrc k (u_vmm m')
       else unat r < unat mx \<and> unat r < 2 ^ 20 \<and> string_at as usrc (unat r) (u_vmm m'))"
proof (cases "usrc < USER_HALF_END")
  case False
  then have "2 ^ 47 \<le> unat usrc" by (simp add: half_48)
  then show ?thesis using False assms gate_step_refl by (auto simp: strnlen_user_def Let_def)
next
  case True
  define mx1 where "mx1 = (if mx > UACCESS_MAX_STR then UACCESS_MAX_STR else mx)"
  define mx2 where "mx2 = (if mx1 > USER_HALF_END - usrc then USER_HALF_END - usrc else mx1)"
  have u: "unat (USER_HALF_END - usrc) = 2 ^ 47 - unat usrc"
    using unat_sub_le [of usrc USER_HALF_END] True by (simp add: USER_HALF_END_def)
  have m2: "unat mx2 = min (unat mx) (min (2 ^ 20) (2 ^ 47 - unat usrc))"
    using u by (auto simp: mx2_def mx1_def UACCESS_MAX_STR_def word_less_nat_alt)
  have fit: "unat usrc + unat mx2 \<le> 2 ^ 47" using m2 True by (simp add: half_48)
  have t0: "text_at as usrc (unat 0) (u_vmm m)" by (simp add: text_at_def)
  from strnlen_loop_spec [OF fit assms(1) _ t0] obtain r s' where L: "strnlen_loop as usrc 0 mx2 (u_vmm m) = Some (r, s')"
    "gate_step as (u_vmm m) s'"
    "if r = -1 then \<forall>k < unat mx2. \<not> string_at as usrc k s' else r < mx2 \<and> string_at as usrc (unat r) s'" by auto
  have "strnlen_user (Some as) usrc mx m = Some (r, m\<lparr>u_vmm := s'\<rparr>)"
    using L(1) True assms(2) by (auto simp: strnlen_user_def Let_def mx2_def leD simp flip: mx1_def)
  then show ?thesis using L(2,3) m2 by (auto simp: word_less_nat_alt)
qed

definition demo_machine :: umachine where
  "demo_machine = \<lparr>u_vmm = demo_vmm, u_kmem = (\<lambda>_. 0)\<rparr>"

lemma demo_machine_inv: "user_inv as (u_vmm demo_machine)"
  by (simp add: demo_machine_def demo_user_inv)


theorem strnlen_user_correct_witness:
  "user_inv KernelAS (u_vmm demo_machine)
   \<and> map_option fst (strnlen_user (Some KernelAS) 0x00007FFFFFFFDFF0 100 demo_machine) = Some 0
   \<and> (\<exists>m'. strnlen_user (Some KernelAS) 0x00007FFFFFFFDFF0 100 demo_machine = Some (0, m')
        \<and> string_at KernelAS 0x00007FFFFFFFDFF0 0 (u_vmm m'))"
proof -
  have r: "map_option fst (strnlen_user (Some KernelAS) 0x00007FFFFFFFDFF0 100 demo_machine) = Some 0" by code_simp
  show ?thesis
    using strnlen_user_correct [OF demo_machine_inv, of "0x00007FFFFFFFDFF0" KernelAS 100] r demo_machine_inv by auto
qed

end
