(* ===== verification/User_Maps.thy ===== *)
theory User_Maps
  imports Uaccess Shm
begin

text \<open>
  The memory of user processes: stack growth in the page-fault handler \<^verbatim>\<open>kernel/memory/pf.c\<close>, and
  \<^verbatim>\<open>mmap\<close>, \<^verbatim>\<open>mprotect\<close>, \<^verbatim>\<open>munmap\<close> and \<^verbatim>\<open>brk\<close> of the Linux personality in
  \<^verbatim>\<open>kernel/syscall/syscall.c\<close>. The size of the framebuffer, \<^verbatim>\<open>fb_phys_size()\<close>, is a parameter.
\<close>

section \<open>Stack growth\<close>

definition PF_PRESENT :: u64 where "PF_PRESENT = 1"
definition PF_WRITE :: u64 where "PF_WRITE = 2"
definition PF_USER :: u64 where "PF_USER = 4"
definition STACK_SLACK_PAGES :: u64 where "STACK_SLACK_PAGES = 4"

text \<open>The fields of \<^verbatim>\<open>struct registers\<close> the handler looks at.\<close>

record registers =
  err_code :: u64
  rsp :: u64

text \<open>\<open>proc_user\<close> says that there is a current process and that it is a user process.\<close>

definition is_stack_growth :: "bool \<Rightarrow> registers \<Rightarrow> u64 \<Rightarrow> bool" where
  "is_stack_growth proc_user regs cr2 =
     (let e = err_code regs
      in if e AND PF_PRESENT \<noteq> 0 then False
         else if e AND PF_WRITE = 0 then False
         else if cr2 < USER_STACK_LIMIT \<or> cr2 \<ge> USER_STACK_TOP then False
         else if e AND PF_USER = 0 then proc_user
         else let rsp_page = rsp regs AND NOT 0xFFF; fault_page = cr2 AND NOT 0xFFF; slack = STACK_SLACK_PAGES * 4096
              in if fault_page > rsp_page then False
                 else if rsp_page - fault_page > slack then False
                 else True)"

text \<open>How the handler ends: back to the faulting instruction, halted for lack of memory, the process
  killed, or a panic. \<open>as\<close> is \<^verbatim>\<open>active_as()\<close>, \<open>has_thread\<close> that there is a current thread.\<close>

datatype pf_outcome = PF_Resumed | PF_Halted | PF_Killed | PF_Panic

definition page_fault_handler :: "as_ptr \<Rightarrow> bool \<Rightarrow> bool \<Rightarrow> registers \<Rightarrow> u64 \<Rightarrow> vmm \<Rightarrow> pf_outcome \<times> vmm" where
  "page_fault_handler as proc_user has_thread regs cr2 s =
     (if is_stack_growth proc_user regs cr2
      then let (ok, s') = map_new_page as (cr2 AND NOT 0xFFF) VMM_FLAGS_USER_RW s
           in (if ok then PF_Resumed else PF_Halted, s')
      else if err_code regs AND PF_USER \<noteq> 0 \<and> proc_user \<and> has_thread then (PF_Killed, s)
      else (PF_Panic, s))"

lemma page_aligned_and [simp]: "(w AND -4096) AND -4096 = (w AND -4096 :: u64)"
  by (simp add: and.assoc)

lemma page_fault_handler_spec:
  assumes inv: "user_inv as s" and np: "user_ref as False cr2 s = None"
    and eq: "page_fault_handler as proc_user has_thread regs cr2 s = (out, s')"
  shows "gate_step as s s' \<and> (out = PF_Resumed \<longleftrightarrow> user_ref as True cr2 s' \<noteq> None)
    \<and> (out = PF_Resumed \<longrightarrow> load_user as cr2 s' = Some 0 \<and> USER_STACK_LIMIT \<le> cr2 \<and> cr2 < USER_STACK_TOP)"
proof (cases "is_stack_growth proc_user regs cr2")
  case False
  then have "s' = s" "out \<noteq> PF_Resumed" using eq by (auto simp: page_fault_handler_def split: if_splits)
  moreover have "user_ref as True cr2 s = None"
    using np user_ref_read [of as s True cr2] inv by (metis not_None_eq user_inv_vmm)
  ultimately show ?thesis using gate_step_refl [OF inv] by simp
next
  case True
  let ?p = "cr2 AND -4096"
  have st: "USER_STACK_LIMIT \<le> cr2" "cr2 < USER_STACK_TOP"
    using True by (auto simp: is_stack_growth_def Let_def not_le not_less split: if_splits)
  then have half: "cr2 < USER_HALF_END" by (simp add: user_const_defs word_less_nat_alt)
  have I: "vmm_inv as s" using inv by simp
  have npr: "\<not> is_present (pte_of as s cr2)"
    using np user_ref_leaf [OF I, of False cr2] by (auto simp: Let_def split: if_splits)
  have "USER_STACK_LIMIT AND -4096 = USER_STACK_LIMIT" by (simp add: USER_STACK_LIMIT_def)
  then have "USER_STACK_LIMIT \<le> ?p"
  proof -
    assume "USER_STACK_LIMIT AND -4096 = USER_STACK_LIMIT"
    then have "unat USER_STACK_LIMIT = unat USER_STACK_LIMIT div 4096 * 4096" by (metis unat_and_m4096)
    also have "\<dots> \<le> unat cr2 div 4096 * 4096" using st(1) by (intro mult_le_mono1 div_le_mono) (simp add: word_le_nat_alt)
    finally show ?thesis by (simp add: word_le_nat_alt unat_and_m4096)
  qed
  moreover have "?p < USER_STACK_TOP" using and_4096_le [of cr2] st(2) by simp
  moreover obtain ok where m: "map_new_page as ?p VMM_FLAGS_USER_RW s = (ok, s')" "out = (if ok then PF_Resumed else PF_Halted)"
    using eq True by (auto simp: page_fault_handler_def split: prod.splits)
  ultimately have G: "gate_step as s s' \<and> (ok \<longleftrightarrow> user_ref as True ?p s' \<noteq> None)"
    using map_new_page_gate [OF inv page_aligned_and, of cr2 ok s' True] npr by simp
  then have I': "vmm_inv as s'" using gate_step_inv user_inv_vmm by blast
  have r: "ok \<longleftrightarrow> user_ref as True cr2 s' \<noteq> None" using G user_ref_page [OF I', of True cr2] by simp
  then have "load_user as cr2 s' = Some 0" if ok
    using that G half npr user_ref_leaf [OF I', of True cr2] by (auto simp: gate_step_def Let_def split: if_splits)
  then show ?thesis using G r m(2) st by simp
qed

section \<open>Linux memory calls\<close>

definition VMM_FLAGS_USER_RO :: u64 where "VMM_FLAGS_USER_RO = PTE_PRESENT OR PTE_USER"
definition FB_VIRT :: u64 where "FB_VIRT = 0x500000000"

definition U_EINVAL_64 :: u64 where "U_EINVAL_64 = 22"
definition U_ENOMEM :: u64 where "U_ENOMEM = 12"

text \<open>The memory of the calling process and its two positions.\<close>

record linux_mem =
  lm_vmm :: vmm
  linux_brk_pos :: u64
  linux_mmap_next :: u64

fun map_new_pages :: "as_ptr \<Rightarrow> u64 \<Rightarrow> u64 \<Rightarrow> nat list \<Rightarrow> vmm \<Rightarrow> bool \<times> vmm" where
  "map_new_pages as addr flags [] s = (True, s)"
| "map_new_pages as addr flags (i # is) s =
     (let (ok, s') = map_new_page as (addr + of_nat i * 4096) flags s
      in if \<not> ok then (False, s') else map_new_pages as addr flags is s')"

definition user_flags :: "u64 \<Rightarrow> u64" where
  "user_flags prot = (if prot AND 2 \<noteq> 0 then VMM_FLAGS_USER_RW else VMM_FLAGS_USER_RO)"

definition linux_mmap :: "as_ptr \<Rightarrow> u64 \<Rightarrow> u64 \<Rightarrow> u64 \<Rightarrow> linux_mem \<Rightarrow> u64 \<times> linux_mem" where
  "linux_mmap as addr0 len prot m =
     (if len = 0 then (-1, m)
      else let pages = (len + 4096 - 1) div 4096;
               next' = (if linux_mmap_next m = 0 then 0x70000000 else linux_mmap_next m);
               (addr, m1) = (if addr0 = 0 then (next', m\<lparr>linux_mmap_next := next' + pages * 4096\<rparr>) else (addr0, m));
               (ok, s) = map_new_pages as addr (user_flags prot) [0..<unat pages] (lm_vmm m1)
           in (if ok then addr else -1, m1\<lparr>lm_vmm := s\<rparr>))"

text \<open>The check \<^verbatim>\<open>mprotect\<close> and \<^verbatim>\<open>munmap\<close> share: the range is in the user half and meets neither the
  framebuffer nor the windows of shared memory.\<close>

definition range_refused :: "u64 \<Rightarrow> u64 \<Rightarrow> u64 \<Rightarrow> bool" where
  "range_refused fb_size addr end' \<longleftrightarrow> end' < addr \<or> end' > USER_HALF_END
     \<or> addr < FB_VIRT + fb_size \<and> end' > FB_VIRT
     \<or> addr < SHM_VIRT_BASE + of_nat SHM_MAX_REGIONS * SHM_SLOT_SIZE \<and> end' > SHM_VIRT_BASE"

fun protect_pages :: "as_ptr \<Rightarrow> u64 \<Rightarrow> u64 list \<Rightarrow> vmm \<Rightarrow> bool \<times> vmm" where
  "protect_pages as flags [] s = (True, s)"
| "protect_pages as flags (page # pages) s =
     (let phys = vmm_virt_to_phys as page s
      in if phys = 0 then (False, s)
         else let (r, s') = vmm_map_page as page (phys AND NOT 0xFFF) flags s
              in if r \<noteq> 0 then (False, s') else protect_pages as flags pages s')"

definition linux_mprotect :: "u64 \<Rightarrow> as_ptr option \<Rightarrow> u64 \<Rightarrow> u64 \<Rightarrow> u64 \<Rightarrow> linux_mem \<Rightarrow> u64 \<times> linux_mem" where
  "linux_mprotect fb_size aso addr len prot m =
     (if len = 0 \<or> addr AND 0xFFF \<noteq> 0 then (- U_EINVAL_64, m)
      else if prot AND NOT 7 \<noteq> 0 then (- U_EINVAL_64, m)
      else if prot AND 2 \<noteq> 0 \<and> prot AND 4 \<noteq> 0 then (- U_EINVAL_64, m)
      else if prot = 0 then (- U_EINVAL_64, m)
      else if range_refused fb_size addr (addr + len) then (- U_EINVAL_64, m)
      else case aso of None \<Rightarrow> (- U_EINVAL_64, m) | Some as \<Rightarrow>
        let (ok, s) = protect_pages as (user_flags prot) (offsets addr (addr + len) 4096) (lm_vmm m)
        in (if ok then 0 else - U_ENOMEM, m\<lparr>lm_vmm := s\<rparr>))"

fun release_pages :: "as_ptr \<Rightarrow> u64 list \<Rightarrow> vmm \<Rightarrow> vmm" where
  "release_pages as [] s = s"
| "release_pages as (page # pages) s =
     release_pages as pages (if vmm_virt_to_phys as page s \<noteq> 0 then vmm_unmap_page as page True s else s)"

definition linux_munmap :: "u64 \<Rightarrow> as_ptr option \<Rightarrow> u64 \<Rightarrow> u64 \<Rightarrow> linux_mem \<Rightarrow> u64 \<times> linux_mem" where
  "linux_munmap fb_size aso addr len m =
     (if len = 0 \<or> addr AND 0xFFF \<noteq> 0 then (- U_EINVAL_64, m)
      else if range_refused fb_size addr (addr + len) then (- U_EINVAL_64, m)
      else case aso of None \<Rightarrow> (- U_EINVAL_64, m) | Some as \<Rightarrow>
        (0, m\<lparr>lm_vmm := release_pages as (offsets addr (addr + len) 4096) (lm_vmm m)\<rparr>))"

abbreviation round_page :: "u64 \<Rightarrow> u64" where
  "round_page a \<equiv> (a + 4096 - 1) AND NOT (4096 - 1)"

definition linux_brk :: "as_ptr \<Rightarrow> u64 \<Rightarrow> linux_mem \<Rightarrow> u64 \<times> linux_mem" where
  "linux_brk as new_brk m0 =
     (let m = (if linux_brk_pos m0 = 0 then m0\<lparr>linux_brk_pos := 0x60000000\<rparr> else m0)
      in if new_brk = 0 then (linux_brk_pos m, m)
         else let s = (if new_brk > linux_brk_pos m
                       then snd (map_new_pages as (round_page (linux_brk_pos m))
                                   VMM_FLAGS_USER_RW
                                   [0..<length (offsets (round_page (linux_brk_pos m)) (round_page new_brk) 4096)]
                                   (lm_vmm m))
                       else lm_vmm m)
              in (new_brk, m\<lparr>lm_vmm := s, linux_brk_pos := new_brk\<rparr>))"
lemma user_page_flags: "page_flags (user_flags prot)"
  by (simp add: user_flags_def page_flags_def VMM_FLAGS_USER_RO_def pte_flag_defs VMM_WC_def)

text \<open>A run of new pages: each page of a complete run is present with the flags, other pages keep their entries.\<close>

lemma map_new_pages_spec:
  assumes "user_inv as s" "page_flags flags" "map_new_pages as addr flags is s = (ok, s')"
  shows "user_inv as s' \<and> evolves as s s'
    \<and> (\<forall>w. (\<forall>i \<in> set is. \<not> same_page w (addr + of_nat i * 4096)) \<longrightarrow> pte_of as s' w = pte_of as s w)
    \<and> (ok \<longrightarrow> (\<forall>i \<in> set is. \<exists>p. pte_of as s' (addr + of_nat i * 4096) = p OR flags OR PTE_PRESENT \<and> p AND PTE_ADDR_MASK = p))"
  using assms(1,3)
proof (induction "is" arbitrary: s)
  case Nil
  then show ?case by (simp add: evolves_refl)
next
  case (Cons i "is")
  let ?a = "\<lambda>i. addr + of_nat i * 4096"
  obtain ok1 s1 where m: "map_new_page as (?a i) flags s = (ok1, s1)" by force
  note M = map_new_page_spec [OF Cons.prems(1) assms(2) m]
  show ?case
  proof (cases ok1)
    case False
    then have "s' = s1" "\<not> ok" using Cons.prems(2) m by auto
    then show ?thesis using M False by simp
  next
    case True
    then have e: "map_new_pages as addr flags is s1 = (ok, s')" using Cons.prems(2) m by simp
    have I1: "user_inv as s1" using M by blast
    note R = Cons.IH [OF I1 e]
    have new: "\<exists>p. pte_of as s' (?a i) = p OR flags OR PTE_PRESENT \<and> p AND PTE_ADDR_MASK = p" if ok
    proof (cases "\<exists>j \<in> set is. same_page (?a i) (?a j)")
      case True
      then obtain j where j: "j \<in> set is" "same_page (?a i) (?a j)" by blast
      have "pte_of as s' (?a i) = pte_of as s' (?a j)" using j(2) by (simp add: same_page_def)
      then show ?thesis using R that j(1) by metis
    next
      case False
      then have "pte_of as s' (?a i) = pte_of as s1 (?a i)" using R by blast
      moreover have "new_page as (?a i) flags s s1" using M True by blast
      ultimately show ?thesis unfolding new_page_def by (metis same_page_refl)
    qed
    have "evolves as s s'" using M R evolves_trans by blast
    moreover have "pte_of as s' w = pte_of as s w" if "\<forall>k \<in> set (i # is). \<not> same_page w (?a k)" for w
    proof -
      have "pte_of as s1 w = pte_of as s w" using M that by simp
      then show ?thesis using R that by simp
    qed
    ultimately show ?thesis using R new by auto
  qed
qed

lemma user_flags_write: "(p OR user_flags prot OR PTE_PRESENT) AND PTE_WRITE \<noteq> 0 \<longleftrightarrow> prot AND 2 \<noteq> 0"
  if "p AND PTE_ADDR_MASK = p"
proof -
  have p1: "\<not> bit p 1" using that bit_and_iff [of p PTE_ADDR_MASK 1] by (simp add: bit_addr_mask)
  have "(p OR user_flags prot OR PTE_PRESENT) AND PTE_WRITE \<noteq> 0 \<longleftrightarrow> bit (p OR user_flags prot OR PTE_PRESENT) 1"
    using and_push_bit_1_iff [of "p OR user_flags prot OR PTE_PRESENT" 1] by (simp add: PTE_WRITE_def)
  also have "\<dots> \<longleftrightarrow> bit (user_flags prot) 1"
    using p1 by (simp only: bit_or_iff) (simp add: PTE_PRESENT_def bit_1_iff)
  also have "\<dots> \<longleftrightarrow> prot AND 2 \<noteq> 0"
    by (simp add: user_flags_def VMM_FLAGS_USER_RO_def pte_flag_defs)
  finally show ?thesis .
qed

text \<open>
  \<^verbatim>\<open>mmap\<close> keeps the frames of the process in order, whatever the address and whether it succeeds: no page comes to
  lie on a page table or on a free frame, and pages outside the range keep their entries. After a success each page
  of the range can be read, and written exactly if \<^verbatim>\<open>PROT_WRITE\<close> was asked for. What was mapped there before is
  replaced without a release of its frames.
\<close>
theorem linux_mmap_correct:
  assumes "user_inv as (lm_vmm m)" "linux_mmap as addr len prot m = (r, m')" "len \<noteq> 0"
    "start = (if addr \<noteq> 0 then addr else if linux_mmap_next m = 0 then 0x70000000 else linux_mmap_next m)"
    "n = unat ((len + 4095) div 4096)"
  shows "user_inv as (lm_vmm m') \<and> (r = start \<or> r = -1)
    \<and> (\<forall>w. (\<forall>i < n. \<not> same_page w (start + of_nat i * 4096)) \<longrightarrow> pte_of as (lm_vmm m') w = pte_of as (lm_vmm m) w)
    \<and> (r \<noteq> -1 \<longrightarrow> (\<forall>i < n. user_ref as False (start + of_nat i * 4096) (lm_vmm m') \<noteq> None
           \<and> (user_ref as True (start + of_nat i * 4096) (lm_vmm m') \<noteq> None \<longleftrightarrow> prot AND 2 \<noteq> 0)))"
proof -
  obtain ok s where p: "map_new_pages as start (user_flags prot) [0..<n] (lm_vmm m) = (ok, s)" by force
  have np: "len + 4096 - 1 = len + 4095" by simp
  have r: "r = (if ok then start else -1)" "lm_vmm m' = s"
    using assms(2,3) p unfolding linux_mmap_def np assms(4,5) by (auto simp: Let_def split: if_splits)
  note S = map_new_pages_spec [OF assms(1) user_page_flags p]
  have I: "vmm_inv as s" using S by simp
  have "user_ref as False (start + of_nat i * 4096) s \<noteq> None
           \<and> (user_ref as True (start + of_nat i * 4096) s \<noteq> None \<longleftrightarrow> prot AND 2 \<noteq> 0)" if "ok" "i < n" for i
  proof -
    have i: "i \<in> set [0..<n]" "ok" using that by simp_all
    obtain q where q: "pte_of as s (start + of_nat i * 4096) = q OR user_flags prot OR PTE_PRESENT" "q AND PTE_ADDR_MASK = q"
      using S i by blast
    have "is_present (q OR user_flags prot OR PTE_PRESENT)"
      by (simp only: is_present_iff bit_or_iff) (simp add: PTE_PRESENT_def bit_1_iff)
    then show ?thesis using user_flags_write [OF q(2), of prot] by (simp add: user_ref_leaf [OF I] q(1) Let_def)
  qed
  then show ?thesis using S r by auto
qed

definition demo_linux :: linux_mem where
  "demo_linux = \<lparr>lm_vmm = demo_vmm, linux_brk_pos = 0, linux_mmap_next = 0\<rparr>"

text \<open>
  What these calls do not look at: \<^verbatim>\<open>mmap\<close> maps user pages over an address of the kernel half; with a length that
  wraps it reports success and maps nothing; \<^verbatim>\<open>brk\<close> reports the new break although the pages up to it do not exist.
\<close>
theorem linux_memory_defects:
  "case linux_mmap KernelAS 0xFFFFFFFF90000000 4096 3 demo_linux of (r, m) \<Rightarrow>
     r = 0xFFFFFFFF90000000 \<and> vmm_virt_to_phys KernelAS 0xFFFFFFFF90000000 (lm_vmm m) \<noteq> 0"
  "linux_mmap KernelAS 0x70000000 (-1) 3 demo_linux = (0x70000000, demo_linux)"
  "case linux_brk KernelAS 0x60001000 (demo_linux\<lparr>lm_vmm := demo_vmm\<lparr>vpmm := demo_pmm\<lparr>bitmap := [-1]\<rparr>\<rparr>\<rparr>) of (r, m) \<Rightarrow>
     r = 0x60001000 \<and> vmm_virt_to_phys KernelAS 0x60000000 (lm_vmm m) = 0"
proof -
  show "case linux_mmap KernelAS 0xFFFFFFFF90000000 4096 3 demo_linux of (r, m) \<Rightarrow>
     r = 0xFFFFFFFF90000000 \<and> vmm_virt_to_phys KernelAS 0xFFFFFFFF90000000 (lm_vmm m) \<noteq> 0" by code_simp
  show "linux_mmap KernelAS 0x70000000 (-1) 3 demo_linux = (0x70000000, demo_linux)" by (simp add: linux_mmap_def)
  show "case linux_brk KernelAS 0x60001000 (demo_linux\<lparr>lm_vmm := demo_vmm\<lparr>vpmm := demo_pmm\<lparr>bitmap := [-1]\<rparr>\<rparr>\<rparr>) of (r, m) \<Rightarrow>
     r = 0x60001000 \<and> vmm_virt_to_phys KernelAS 0x60000000 (lm_vmm m) = 0" by code_simp
qed

end
