(* ===== verification/Spec2Isabelle.thy ===== *)
theory Spec2Isabelle
  imports Heap Msgq Shm Hmac Gcm X25519 Rsa Sched_Correct Persist_Disk User_Maps
begin

text \<open>
  A verification library for parts of ICDA, a small x86-64 operating system in C. It models and proves
  correct the memory management, the interprocess communication, the cryptography, the file tree with its
  descriptors and its image on disk, the scheduler, and the access to user memory, all below
  \<^verbatim>\<open>src/kernel\<close>. That is about a tenth of the program: drivers, network, display, terminals, program
  loading and the user programs are not modelled (see the end of this text).
\<close>

section \<open>The parts and how they fit together\<close>

text \<open>
  The frame allocator (\<^verbatim>\<open>memory/pmm.c\<close>) hands out physical frames. The page tables (\<^verbatim>\<open>memory/vmm.c\<close>) are
  built from such frames and map virtual pages to others. The heap (\<^verbatim>\<open>memory/heap.c\<close>), shared memory
  (\<^verbatim>\<open>ipc/shm.c\<close>), the memory of processes (\<^verbatim>\<open>memory/pf.c\<close>, \<^verbatim>\<open>mmap\<close> and \<^verbatim>\<open>brk\<close> in \<^verbatim>\<open>syscall/syscall.c\<close>) and
  the scheduler (\<^verbatim>\<open>proc/sched.c\<close>), whose processes and threads are pages, use both. Kernel code reaches the
  memory of a process only through \<^verbatim>\<open>syscall/uaccess.h\<close>. The file tree (\<^verbatim>\<open>fs/vfs.c\<close>) is the one store of
  files: descriptors (\<^verbatim>\<open>fs/fd.c\<close>) and the Linux calls work on it, and \<^verbatim>\<open>fs/persistfs.c\<close> saves it to the end
  of a disk and loads it at the next boot. The cryptography (\<^verbatim>\<open>crypto/\<close>) stands for itself; TLS uses it.

  The state of a component is a record with the static variables of its file. An operation takes the state
  and gives it back changed, next to its result. A component that calls another holds the other's state: the
  record of the page tables contains the allocator, the heap contains the page tables, and so on. Integers are
  words of their width and wrap around. A loop that may not end is a \<open>partial_function (option)\<close> with the
  value \<open>None\<close> for not returning, and that it returns is then a part of the theorems. Accesses outside of a
  buffer are values of the model too (\<open>None\<close>, \<open>Oob\<close>), so that the theorems exclude or exhibit them.
\<close>

section \<open>Theories\<close>

text \<open>
  \<^item> \<^verbatim>\<open>Icda_Prelude\<close>: types and shared lemmas on lists, words and options.
    \<^verbatim>\<open>Frame_Allocator\<close>: the contract of a frame allocator as a locale, with the client's lemmas.
  \<^item> \<^verbatim>\<open>Pmm\<close> (\<^verbatim>\<open>memory/pmm.c\<close>): bitmap, search hint and counters; initialisation from the Multiboot2 map. It
    interprets \<^verbatim>\<open>Frame_Allocator\<close>. Lowest free frame, exact release, the invariant after \<^verbatim>\<open>pmm_init\<close>.
  \<^item> \<^verbatim>\<open>Vmm\<close> (\<^verbatim>\<open>memory/vmm.c\<close>): four-level walks over a memory of 64-bit cells. The tables of a space form a tree
    of frames in use that share nothing (\<open>vmm_inv\<close>); mapping and unmapping change the translation of one page.
  \<^item> \<^verbatim>\<open>Heap\<close> (\<^verbatim>\<open>memory/heap.c\<close>): the chain of blocks in memory refines a list (\<open>heap_repr\<close>); the live
    allocations are a set that \<^verbatim>\<open>kmalloc\<close>, \<^verbatim>\<open>kfree\<close> and \<^verbatim>\<open>krealloc\<close> change by one element.
  \<^item> \<^verbatim>\<open>Fifo\<close>, \<^verbatim>\<open>Msgq\<close> (\<^verbatim>\<open>ipc/msgq.c\<close>): the contract of a queue as a locale; ring buffers refine named queues.
    \<^verbatim>\<open>Shm\<close> (\<^verbatim>\<open>ipc/shm.c\<close>): regions of frames, mapping into a process, reference counts.
  \<^item> \<^verbatim>\<open>Hash\<close>, \<^verbatim>\<open>Sha256\<close>, \<^verbatim>\<open>Sha1\<close>, \<^verbatim>\<open>Hmac\<close>: buffering and padding once, over a locale of a compression function;
    both hashes against the standard, with the constants of the standard computed or written out there, and
    HMAC. \<^verbatim>\<open>Aes\<close>, \<^verbatim>\<open>Gcm\<close>: round trips. \<^verbatim>\<open>Field25519\<close>, \<^verbatim>\<open>X25519\<close>: limbs against arithmetic modulo \<open>2 ^ 255 - 19\<close>
    and RFC 7748. \<^verbatim>\<open>Bn\<close>, \<^verbatim>\<open>Rsa\<close>: big numbers, DER, padding and encryption.
  \<^item> \<^verbatim>\<open>Vfs\<close> (\<^verbatim>\<open>fs/vfs.c\<close>): the tree of nodes as a store, its invariant over all sequences of calls, reading and
    writing. \<^verbatim>\<open>Fd\<close> (\<^verbatim>\<open>fs/fd.c\<close> and the file calls of \<^verbatim>\<open>syscall/syscall.c\<close>): descriptors, \<^verbatim>\<open>read\<close>, \<^verbatim>\<open>write\<close>, \<^verbatim>\<open>getdents\<close>.
  \<^item> \<^verbatim>\<open>Sched\<close>, \<^verbatim>\<open>Sched_Inv\<close>, \<^verbatim>\<open>Sched_Correct\<close> (\<^verbatim>\<open>proc/sched.c\<close>, \<^verbatim>\<open>proc/process.h\<close>): the operations; the ring of threads
    and the list of processes as invariants of the step relation \<open>sched_step\<close>; round robin, control, failures.
  \<^item> \<^verbatim>\<open>Persist\<close>, \<^verbatim>\<open>Persist_Correct\<close>, \<^verbatim>\<open>Persist_Disk\<close> (\<^verbatim>\<open>fs/persistfs.c\<close>, \<^verbatim>\<open>drivers/storage/block.c\<close>): the image of the tree in
    bytes, its import, and the sectors it is stored in.
  \<^item> \<^verbatim>\<open>User_Memory\<close>, \<^verbatim>\<open>Uaccess\<close> (\<^verbatim>\<open>syscall/uaccess.h\<close>): the bytes a process sees, and the checks and copies of the
    kernel; \<^verbatim>\<open>User_Maps\<close> (\<^verbatim>\<open>memory/pf.c\<close>, \<^verbatim>\<open>syscall/syscall.c\<close>): stack growth, \<^verbatim>\<open>mmap\<close>, \<^verbatim>\<open>mprotect\<close>, \<^verbatim>\<open>munmap\<close>, \<^verbatim>\<open>brk\<close>.
\<close>

section \<open>Bounds\<close>

text \<open>
  \<^item> The search of the scheduler takes at most \<open>MAX_LAPS\<close> (1025) looks, since the code gives up when its counter
    exceeds 1024; a thread further away in the ring is passed over, and the theorem on round robin says so.
  \<^item> A blocking receive sleeps at most 10000001 times, the limit in the code.
  \<^item> The heap theorems cover requests up to \<open>heap_request_max\<close> (1.5 GiB); above about 1.75 GiB the limit test of
    the code wraps around.
  \<^item> \<^verbatim>\<open>bn_mod_exp\<close> is covered for base and modulus of at most 128 words, half of the array, as the product needs the whole.
  \<^item> Hashes cover messages below \<open>2 ^ 61\<close> bytes, where the bit counter does not wrap.
  \<^item> \<^verbatim>\<open>vfs_getcwd\<close> knows 32 names; the writer of the image recurses into paths below 256 bytes only,
    and so ends without fuel.
  \<^item> \<^verbatim>\<open>uaccess.h\<close> looks at no more than 1 GiB at a time and at strings of at most 1 MiB; its loops end because
    each round moves one page or one byte forward in the user half.
\<close>

section \<open>Assumptions and what is left out\<close>

text \<open>
  \<^item> Translation caches, cache types of memory, interrupts and console output are left out. Calls run one after
    the other; where the code sleeps, what other threads do in between is a parameter (\<^verbatim>\<open>Msgq\<close>) or a step of the
    scheduler (\<open>sched_step\<close>). That step relation has no \<^verbatim>\<open>proc_create_kernel\<close> that fails, no sleep of the idle
    thread and no wrap of the process number; what the first of these leads to is a theorem of its own.
  \<^item> What the code takes from elsewhere is an argument: the memory and address of the boot information, the size
    of the framebuffer, the answers of a disk, the partitions, the bundle of \<^verbatim>\<open>fs/install.c\<close>, the clock, and in
    \<^verbatim>\<open>Vfs\<close> the answers of the allocator and of the sync hook.
  \<^item> In \<^verbatim>\<open>Fd\<close> the answers of \<^verbatim>\<open>uaccess.h\<close> are arguments; \<^verbatim>\<open>Uaccess\<close> models \<^verbatim>\<open>uaccess.h\<close> itself.
  \<^item> Not modelled: FAT32, exFAT and NTFS, formatting and installation, program loading, the dispatcher of the
    native calls, all device drivers but the block layer, network and TLS, terminals, descriptor tables and
    interrupt controllers, ACPI, start-up, and the user programs. They are register-level input and output or
    programs above the modelled interfaces; file systems and program loading are the next parts that would
    build on this library.
\<close>

end
